(* ===== verification/Prelude.thy ===== *)
theory Prelude
  imports Main "HOL-Library.Word"
begin

text \<open>
  Shared vocabulary of the development: Rust's fixed-width integers as words, results as
  \<open>error + value\<close> with their sequencing, the byte-order conversions of the standard
  library, and the two interfaces several components implement (an encoder with its
  decoder, and a state machine with an invariant).
\<close>

unbundle bit_operations_syntax

section \<open>Types\<close>

type_synonym u8 = "8 word"
type_synonym u16 = "16 word"
type_synonym u32 = "32 word"
type_synonym u64 = "64 word"
type_synonym bytes = "u8 list"

text \<open>Rust's signed integers are the same words, read with \<open>sint\<close>.\<close>

type_synonym i8 = "8 word"
type_synonym i32 = "32 word"
type_synonym i64 = "64 word"

named_theorems result_simps
named_theorems be_simps

section \<open>Results\<close>

text \<open>
  \<open>Inl e\<close> is \<open>Err(e)\<close>, \<open>Inr v\<close> is \<open>Ok(v)\<close>. \<open>rbind\<close> is the question mark
  operator: the first error is returned. \<open>ensure c e\<close> is the guard
  \<open>if !c { return Err(e) }\<close>.
\<close>

definition rbind :: "'e + 'a \<Rightarrow> ('a \<Rightarrow> 'e + 'b) \<Rightarrow> 'e + 'b" where
  "rbind r f = (case r of Inl e \<Rightarrow> Inl e | Inr v \<Rightarrow> f v)"

definition ensure :: "bool \<Rightarrow> 'e \<Rightarrow> 'e + unit" where
  "ensure c e = (if c then Inr () else Inl e)"

definition is_ok :: "'e + 'a \<Rightarrow> bool" where
  "is_ok r = (case r of Inl _ \<Rightarrow> False | Inr _ \<Rightarrow> True)"

lemma rbind_simps [simp, result_simps]:
  "rbind (Inl e) f = Inl e"
  "rbind (Inr v) f = f v"
  by (simp_all add: rbind_def)

lemma rbind_eq_Inr [simp]:
  "rbind r f = Inr w \<longleftrightarrow> (\<exists>v. r = Inr v \<and> f v = Inr w)"
  by (cases r) auto

lemma rbind_eq_Inl:
  "rbind r f = Inl e \<longleftrightarrow> r = Inl e \<or> (\<exists>v. r = Inr v \<and> f v = Inl e)"
  by (cases r) auto

lemma rbind_cong [fundef_cong]:
  assumes "r = r'" and "\<And>v. r' = Inr v \<Longrightarrow> f v = g v"
  shows "rbind r f = rbind r' g"
  using assms by (cases r') auto

lemma ensure_eq_Inr [simp]: "ensure c e = Inr u \<longleftrightarrow> c"
  by (simp add: ensure_def)

lemma ensure_eq_Inl: "ensure c e = Inl e' \<longleftrightarrow> \<not> c \<and> e' = e"
  by (auto simp: ensure_def)

lemma ensure_True [simp, result_simps]: "ensure True e = Inr ()"
  by (simp add: ensure_def)

lemma ensure_False [simp, result_simps]: "ensure False e = Inl e"
  by (simp add: ensure_def)

lemma rbind_ensure: "rbind (ensure c e) f = (if c then f () else Inl e)"
  by (simp add: ensure_def)

lemma is_ok_simps [simp, result_simps]: "is_ok (Inr v)" "\<not> is_ok (Inl e)"
  by (simp_all add: is_ok_def)

lemma is_ok_iff: "is_ok r \<longleftrightarrow> (\<exists>v. r = Inr v)"
  by (cases r) auto

section \<open>Byte order\<close>

text \<open>
  \<open>to_be_bytes\<close> and \<open>from_be_bytes\<close> of the fixed-width integers, most significant
  byte first, and their little-endian counterparts.
\<close>

fun be_of_nat :: "nat \<Rightarrow> nat \<Rightarrow> bytes" where
  "be_of_nat 0 k = []"
| "be_of_nat (Suc n) k = be_of_nat n (k div 256) @ [word_of_nat k]"

definition nat_of_be :: "bytes \<Rightarrow> nat" where
  "nat_of_be bs = foldl (\<lambda>acc b. acc * 256 + unat b) 0 bs"

definition to_be_bytes :: "'a::len word \<Rightarrow> bytes" where
  "to_be_bytes w = be_of_nat (LENGTH('a) div 8) (unat w)"

definition from_be_bytes :: "bytes \<Rightarrow> 'a::len word" where
  "from_be_bytes bs = word_of_nat (nat_of_be bs)"

definition to_le_bytes :: "'a::len word \<Rightarrow> bytes" where
  "to_le_bytes w = rev (to_be_bytes w)"

definition from_le_bytes :: "bytes \<Rightarrow> 'a::len word" where
  "from_le_bytes bs = from_be_bytes (rev bs)"

lemma length_be_of_nat [simp]: "length (be_of_nat n k) = n"
  by (induction n arbitrary: k) auto

lemma unat_u8_lt [simp]: "unat (b :: u8) < 256"
  using unsigned_less[of b, where ?'a = nat] by simp

lemma unat_u16_lt [simp]: "unat (b :: u16) < 65536"
  using unsigned_less[of b, where ?'a = nat] by simp

lemma nat_of_be_Nil [simp]: "nat_of_be [] = 0"
  by (simp add: nat_of_be_def)

lemma nat_of_be_snoc [simp]: "nat_of_be (bs @ [b]) = nat_of_be bs * 256 + unat b"
  by (simp add: nat_of_be_def)

lemma unat_u8_of_nat [simp]: "unat (word_of_nat k :: u8) = k mod 256"
  by (simp add: unat_of_nat)

lemma nat_of_be_of_nat: "nat_of_be (be_of_nat n k) = k mod 256 ^ n"
proof (induction n arbitrary: k)
  case 0
  then show ?case by simp
next
  case (Suc n)
  have "k mod 256 ^ Suc n = 256 * (k div 256 mod 256 ^ n) + k mod 256"
    by (simp add: mod_mult2_eq)
  then show ?case using Suc by simp
qed

lemma be_of_nat_of_be: "be_of_nat (length bs) (nat_of_be bs) = bs"
proof (induction bs rule: rev_induct)
  case Nil
  then show ?case by simp
next
  case (snoc b bs)
  have b: "unat b < 256" by simp
  then have "(nat_of_be bs * 256 + unat b) div 256 = nat_of_be bs" by simp
  moreover have "unat (word_of_nat (nat_of_be bs * 256 + unat b) :: u8) = unat b"
    using b by (simp del: of_nat_add of_nat_mult)
  then have "(word_of_nat (nat_of_be bs * 256 + unat b) :: u8) = b"
    by (rule word_unat_eq_iff[THEN iffD2])
  ultimately show ?case using snoc by (simp del: of_nat_add of_nat_mult)
qed

lemma nat_of_be_bound: "nat_of_be bs < 256 ^ length bs"
proof (induction bs rule: rev_induct)
  case Nil
  then show ?case by simp
next
  case (snoc b bs)
  have "nat_of_be bs + 1 \<le> 256 ^ length bs" using snoc by simp
  then have "(nat_of_be bs + 1) * 256 \<le> 256 ^ length bs * 256" by (rule mult_le_mono1)
  then show ?case using unat_u8_lt[of b] by (simp del: unat_u8_lt)
qed

lemma be_of_nat_0: "be_of_nat n 0 = replicate n 0"
  by (induction n) (simp_all flip: replicate_append_same)

lemma nat_of_be_zeros [simp]: "nat_of_be (replicate n 0) = 0"
  by (induction n) (simp_all add: nat_of_be_def)

lemma length_to_be_bytes [simp]:
  "length (to_be_bytes (w :: 'a::len word)) = LENGTH('a) div 8"
  by (simp add: to_be_bytes_def)

lemma from_to_be_bytes:
  assumes "8 dvd LENGTH('a::len)"
  shows "from_be_bytes (to_be_bytes (w :: 'a word)) = w"
proof -
  obtain k where k: "LENGTH('a) = 8 * k" using assms by blast
  have "(256::nat) ^ k = 2 ^ LENGTH('a)" by (simp add: k power_mult)
  then have "nat_of_be (to_be_bytes w) = unat w"
    using unsigned_less[of w, where ?'a = nat] by (simp add: to_be_bytes_def nat_of_be_of_nat k)
  then show ?thesis by (simp add: from_be_bytes_def)
qed

lemma to_from_be_bytes:
  assumes "8 * length bs = LENGTH('a::len)"
  shows "to_be_bytes (from_be_bytes bs :: 'a word) = bs"
proof -
  have "(256::nat) ^ length bs = 2 ^ LENGTH('a)"
    by (simp add: assms[symmetric] power_mult)
  then have "unat (from_be_bytes bs :: 'a word) = nat_of_be bs"
    using nat_of_be_bound[of bs] by (simp add: from_be_bytes_def unat_of_nat)
  moreover have "LENGTH('a) div 8 = length bs" by (simp flip: assms)
  ultimately show ?thesis by (simp add: to_be_bytes_def be_of_nat_of_be)
qed

lemma from_be_u16 [simp, be_simps]: "from_be_bytes (to_be_bytes (w :: u16)) = w"
  and from_be_u32 [simp, be_simps]: "from_be_bytes (to_be_bytes (x :: u32)) = x"
  and from_be_u64 [simp, be_simps]: "from_be_bytes (to_be_bytes (y :: u64)) = y"
  by (rule from_to_be_bytes, simp)+

lemma length_be [simp]:
  "length (to_be_bytes (w :: u16)) = 2"
  "length (to_be_bytes (x :: u32)) = 4"
  "length (to_be_bytes (y :: u64)) = 8"
  by simp_all

lemma to_be_u16 [simp, be_simps]:
  "length bs = 2 \<Longrightarrow> to_be_bytes (from_be_bytes bs :: u16) = bs"
  by (rule to_from_be_bytes) simp

lemma to_be_u32 [simp, be_simps]:
  "length bs = 4 \<Longrightarrow> to_be_bytes (from_be_bytes bs :: u32) = bs"
  by (rule to_from_be_bytes) simp

lemma to_be_u64 [simp, be_simps]:
  "length bs = 8 \<Longrightarrow> to_be_bytes (from_be_bytes bs :: u64) = bs"
  by (rule to_from_be_bytes) simp

lemma from_le_u32 [simp, be_simps]: "from_le_bytes (to_le_bytes (x :: u32)) = x"
  by (simp add: from_le_bytes_def to_le_bytes_def)

lemma length_le [simp]: "length (to_le_bytes (x :: u32)) = 4"
  by (simp add: to_le_bytes_def)

section \<open>Slices\<close>

text \<open>\<open>slice a b bs\<close> is \<open>bs[a..b]\<close>; every use is behind a length check.\<close>

definition slice :: "nat \<Rightarrow> nat \<Rightarrow> 'a list \<Rightarrow> 'a list" where
  "slice a b xs = take (b - a) (drop a xs)"

lemma length_slice [simp]: "length (slice a b xs) = min (b - a) (length xs - a)"
  by (simp add: slice_def min.commute)

lemma slice_append_left:
  "length xs \<le> a \<Longrightarrow> slice a b (xs @ ys) = slice (a - length xs) (b - length xs) ys"
  by (simp add: slice_def)

lemma slice_empty [simp]: "slice a a xs = []"
  by (simp add: slice_def)

lemma slice_all [simp]: "length xs \<le> b \<Longrightarrow> slice 0 b xs = xs"
  by (simp add: slice_def)

lemma slice_split:
  assumes "a \<le> b" and "b \<le> c"
  shows "slice a b xs @ slice b c xs = slice a c xs"
proof -
  have "drop b xs = drop (b - a) (drop a xs)" using assms by simp
  then have "slice b c xs = take (c - b) (drop (b - a) (drop a xs))"
    by (simp add: slice_def)
  moreover have "c - a = (b - a) + (c - b)" using assms by simp
  ultimately show ?thesis by (simp add: slice_def take_add)
qed

lemma nth_slice: "a < length xs \<Longrightarrow> slice a (Suc a) xs = [xs ! a]"
  by (simp add: slice_def take_Suc_conv_app_nth hd_drop_conv_nth[symmetric] take_Suc)

lemma slice_nth: "a + i < b \<Longrightarrow> b \<le> length xs \<Longrightarrow> slice a b xs ! i = xs ! (a + i)"
  by (simp add: slice_def)

lemma slice_two: "a + 2 \<le> length bs \<Longrightarrow> slice a (a + 2) bs = [bs ! a, bs ! (a + 1)]"
  by (intro nth_equalityI) (auto simp: slice_nth less_Suc_eq numeral_eq_Suc)

lemma slice_four:
  "a + 4 \<le> length bs \<Longrightarrow> slice a (a + 4) bs = [bs ! a, bs ! (a + 1), bs ! (a + 2), bs ! (a + 3)]"
  by (intro nth_equalityI) (auto simp: slice_nth less_Suc_eq numeral_eq_Suc)

text \<open>Cutting a concatenation of fields at their boundaries.\<close>

lemma slice_field:
  "length p = a \<Longrightarrow> a + length f = b \<Longrightarrow> slice a b (p @ f @ r) = f"
  by (auto simp: slice_def)

lemma slice_head: "length p = b \<Longrightarrow> slice 0 b (p @ r) = p"
  by (simp add: slice_def)

lemma slice_one: "a < length xs \<Longrightarrow> b = Suc a \<Longrightarrow> slice a b xs = [xs ! a]"
  by (simp add: nth_slice)

lemma u8_of_unat [simp]: "(word_of_nat (unat b) :: u8) = b"
  by simp

section \<open>Strings\<close>

text \<open>A byte string literal.\<close>

definition ascii :: "string \<Rightarrow> bytes" where
  "ascii cs = map (\<lambda>c. word_of_nat (of_char c)) cs"

lemma length_ascii [simp]: "length (ascii cs) = length cs"
  by (simp add: ascii_def)

text \<open>\<open>std::str::from_utf8\<close>: the well-formed byte sequences of the Unicode standard. A \<open>String\<close> is
  its bytes.\<close>

definition utf8_cont :: "u8 \<Rightarrow> bool" where
  "utf8_cont b \<longleftrightarrow> 0x80 \<le> b \<and> b \<le> 0xbf"

fun utf8_valid :: "bytes \<Rightarrow> bool" where
  "utf8_valid [] \<longleftrightarrow> True"
| "utf8_valid (a # r) \<longleftrightarrow>
     (if a < 0x80 then utf8_valid r
      else if 0xc2 \<le> a \<and> a \<le> 0xdf then
        (case r of b # r \<Rightarrow> utf8_cont b \<and> utf8_valid r | _ \<Rightarrow> False)
      else if 0xe0 \<le> a \<and> a \<le> 0xef then
        (case r of
           b # c # r \<Rightarrow> utf8_cont b \<and> (a = 0xe0 \<longrightarrow> 0xa0 \<le> b) \<and> (a = 0xed \<longrightarrow> b \<le> 0x9f) \<and>
             utf8_cont c \<and> utf8_valid r
         | _ \<Rightarrow> False)
      else if 0xf0 \<le> a \<and> a \<le> 0xf4 then
        (case r of
           b # c # d # r \<Rightarrow> utf8_cont b \<and> (a = 0xf0 \<longrightarrow> 0x90 \<le> b) \<and> (a = 0xf4 \<longrightarrow> b \<le> 0x8f) \<and>
             utf8_cont c \<and> utf8_cont d \<and> utf8_valid r
         | _ \<Rightarrow> False)
      else False)"

section \<open>Encoder and decoder\<close>

text \<open>
  A wire format: \<open>enc\<close> fails on the values outside \<open>valid\<close> and otherwise writes the
  canonical bytes of \<open>norm v\<close>; \<open>dec\<close> accepts nothing else.
\<close>

locale wire_codec =
  fixes valid :: "'v \<Rightarrow> bool"
    and norm :: "'v \<Rightarrow> 'v"
    and enc :: "'v \<Rightarrow> 'e + bytes"
    and dec :: "bytes \<Rightarrow> 'e + 'v"
  assumes enc_total: "valid v \<Longrightarrow> \<exists>bs. enc v = Inr bs"
    and enc_valid: "enc v = Inr bs \<Longrightarrow> valid v"
    and dec_enc: "enc v = Inr bs \<Longrightarrow> dec bs = Inr (norm v)"
    and enc_dec: "dec bs = Inr v \<Longrightarrow> enc v = Inr bs \<and> norm v = v"
begin

lemma dec_valid: "dec bs = Inr v \<Longrightarrow> valid v"
  using enc_dec enc_valid by blast

lemma enc_inj: "enc v = Inr bs \<Longrightarrow> enc w = Inr bs \<Longrightarrow> norm v = norm w"
  by (drule dec_enc, drule dec_enc) simp

lemma dec_inj: "dec bs = Inr v \<Longrightarrow> dec cs = Inr v \<Longrightarrow> bs = cs"
  by (drule enc_dec, drule enc_dec) simp

lemma dec_ok_iff: "is_ok (dec bs) \<longleftrightarrow> (\<exists>v. enc v = Inr bs)"
  by (metis is_ok_iff dec_enc enc_dec)

lemma roundtrip: "valid v \<Longrightarrow> rbind (enc v) dec = Inr (norm v)"
proof -
  assume "valid v"
  then obtain bs where "enc v = Inr bs" using enc_total by blast
  then show ?thesis using dec_enc by simp
qed

lemma norm_valid: "valid v \<Longrightarrow> valid (norm v)"
  by (meson enc_total dec_enc dec_valid)

lemma norm_idem: "valid v \<Longrightarrow> norm (norm v) = norm v"
  by (meson enc_total dec_enc enc_dec)

end

section \<open>State machines\<close>

text \<open>
  A component with private state: every operation is a function of the state and an
  input, returning the new state and an output (errors are outputs: the state may have
  changed). \<open>inv\<close> is kept by every operation on every branch.
\<close>

fun run_machine :: "('s \<Rightarrow> 'i \<Rightarrow> 's \<times> 'o) \<Rightarrow> 's \<Rightarrow> 'i list \<Rightarrow> 's \<times> 'o list" where
  "run_machine step s [] = (s, [])"
| "run_machine step s (i # is) =
     (let (s', y) = step s i; (s'', ys) = run_machine step s' is in (s'', y # ys))"

lemma run_machine_append:
  "run_machine step s (xs @ ys) =
     (let (s', a) = run_machine step s xs; (s'', b) = run_machine step s' ys in (s'', a @ b))"
  by (induction xs arbitrary: s) (auto simp: Let_def split: prod.splits)

lemma length_run_machine [simp]: "length (snd (run_machine step s xs)) = length xs"
proof (induction xs arbitrary: s)
  case Nil
  then show ?case by simp
next
  case (Cons x xs)
  show ?case using Cons[of "fst (step s x)"] by (simp add: Let_def case_prod_beta)
qed

locale machine =
  fixes inv :: "'s \<Rightarrow> bool"
    and step :: "'s \<Rightarrow> 'i \<Rightarrow> 's \<times> 'o"
  assumes step_inv: "inv s \<Longrightarrow> inv (fst (step s i))"
begin

lemma run_inv: "inv s \<Longrightarrow> inv (fst (run_machine step s is))"
proof (induction "is" arbitrary: s)
  case Nil
  then show ?case by simp
next
  case (Cons i "is")
  then have "inv (fst (step s i))" by (simp add: step_inv)
  then have "inv (fst (run_machine step (fst (step s i)) is))" by (rule Cons.IH)
  then show ?case by (simp add: Let_def case_prod_beta)
qed

end

end
