(* ===== verification/Air_Error.thy ===== *)
theory Air_Error
  imports Prelude
begin

text \<open>
  \<open>latentmesh-air-core/src/error.rs\<close>: the error values of the Air stack, and
  \<open>fragment.rs\<close>'s and \<open>wire.rs\<close>'s size constants that every layer shares.
\<close>

datatype air_error =
    InvalidMarker
  | UnsupportedVersion
  | InvalidProfile
  | InvalidClass
  | InvalidFlags
  | InvalidLength
  | LimitExceeded
  | Truncated
  | TrailingBytes
  | CrcMismatch
  | InvalidFragment
  | FragmentConflict
  | ReassemblyFull
  | Replay
  | TooOld
  | InvalidSemanticValue
  | BaseStateMismatch
  | ResultStateMismatch
  | AuthenticationRequired
  | AuthenticationFailed
  | InvalidFec
  | DecodeFailed

type_synonym 'a air_result = "air_error + 'a"

abbreviation (input) FRAME_HEADER_BYTES :: nat where "FRAME_HEADER_BYTES \<equiv> 12"
abbreviation (input) FRAME_MIN_BYTES :: nat where "FRAME_MIN_BYTES \<equiv> 16"
abbreviation (input) FRAME_MAX_BYTES :: nat where "FRAME_MAX_BYTES \<equiv> 256"
abbreviation (input) FRAME_MAX_PAYLOAD :: nat where "FRAME_MAX_PAYLOAD \<equiv> 240"
abbreviation (input) MAX_FRAGMENTS :: nat where "MAX_FRAGMENTS \<equiv> 32"
abbreviation (input) MAX_MESSAGE_BYTES :: nat where "MAX_MESSAGE_BYTES \<equiv> 7680"

end
