(* ===== verification/Protobuf.thy ===== *)
theory Protobuf
  imports Air_Error
begin

text \<open>
  \<open>latentmesh-meshtastic/src/error.rs\<close> and \<open>protobuf.rs\<close>: the hand-written slice of the
  protobuf wire format. A function that appends to \<open>out\<close> is the bytes it appends; the
  visitor of \<open>for_each_field\<close> is a function on the state its closure captures.
\<close>

section \<open>Errors\<close>

datatype mesh_error =
    Air air_error
  | MeshTruncated
  | MeshInvalidLength
  | InvalidWireType
  | NoPacket
  | NoDecodedData
  | FrameTooLarge
  | FrameCorrupt

type_synonym 'a mesh_result = "mesh_error + 'a"

text \<open>\<open>From<AirError>\<close>, as the question mark applies it.\<close>

definition from_air :: "'a air_result \<Rightarrow> 'a mesh_result" where
  "from_air r = (case r of Inl e \<Rightarrow> Inl (Air e) | Inr v \<Rightarrow> Inr v)"

lemma from_air_simps [simp]: "from_air (Inr v) = Inr v" "from_air (Inl e) = Inl (Air e)"
  by (simp_all add: from_air_def)

section \<open>Varints\<close>

abbreviation (input) WIRE_VARINT :: u8 where "WIRE_VARINT \<equiv> 0"
abbreviation (input) WIRE_FIXED64 :: u8 where "WIRE_FIXED64 \<equiv> 1"
abbreviation (input) WIRE_LEN :: u8 where "WIRE_LEN \<equiv> 2"
abbreviation (input) WIRE_FIXED32 :: u8 where "WIRE_FIXED32 \<equiv> 5"

lemma unat_drop_7: "unat (drop_bit 7 (v :: u64)) = unat v div 128"
proof -
  have "unat (drop_bit 7 v) = drop_bit 7 (unat v)" by (rule unat_drop_bit_eq)
  then show ?thesis by (simp add: drop_bit_eq_div)
qed

lemma drop_bit_7_less: "drop_bit 7 (v :: u64) \<noteq> 0 \<Longrightarrow> unat (drop_bit 7 v) < unat v"
proof -
  assume "drop_bit 7 v \<noteq> 0"
  then have "unat (drop_bit 7 v) \<noteq> 0" using unat_eq_0 by metis
  then show ?thesis unfolding unat_drop_7 by (intro div_less_dividend) (auto intro: gr0I)
qed

function encode_varint :: "u64 \<Rightarrow> bytes" where
  "encode_varint v =
     (let byte = ucast (v AND 0x7f) :: u8; v' = drop_bit 7 v in
      if v' = 0 then [byte] else (byte OR 0x80) # encode_varint v')"
  by pat_completeness auto
termination
proof (relation "measure unat")
  fix v :: u64 and byte :: u8 and v'
  assume "v' = drop_bit 7 v" and "v' \<noteq> 0"
  then show "(v', v) \<in> measure unat" using drop_bit_7_less unfolding in_measure by metis
qed (rule wf_measure)

declare encode_varint.simps [simp del]

text \<open>\<open>input.iter().enumerate().take(10)\<close>: the loop from \<open>index\<close> on, with what is left of
  the input.\<close>

function decode_varint_from :: "bytes \<Rightarrow> nat \<Rightarrow> u64 \<Rightarrow> (u64 \<times> nat) mesh_result" where
  "decode_varint_from input index v =
     (if index \<ge> 10 then Inl MeshTruncated
      else case input of
        [] \<Rightarrow> Inl MeshTruncated
      | byte # rest \<Rightarrow>
          let v' = v OR push_bit (7 * index) (ucast (byte AND 0x7f)) in
          if byte AND 0x80 = 0 then Inr (v', index + 1)
          else decode_varint_from rest (index + 1) v')"
  by pat_completeness auto
termination by (relation "measure (\<lambda>(input, _, _). length input)") auto

declare decode_varint_from.simps [simp del]

definition decode_varint :: "bytes \<Rightarrow> (u64 \<times> nat) mesh_result" where
  "decode_varint input = decode_varint_from input 0 0"

section \<open>Fields\<close>

definition encode_tag :: "u32 \<Rightarrow> u8 \<Rightarrow> bytes" where
  "encode_tag field wire_type = encode_varint (push_bit 3 (ucast field) OR ucast wire_type)"

definition encode_varint_field :: "u32 \<Rightarrow> u64 \<Rightarrow> bytes" where
  "encode_varint_field field v = encode_tag field WIRE_VARINT @ encode_varint v"

definition encode_fixed32_field :: "u32 \<Rightarrow> u32 \<Rightarrow> bytes" where
  "encode_fixed32_field field v = encode_tag field WIRE_FIXED32 @ to_le_bytes v"

definition encode_bytes_field :: "u32 \<Rightarrow> bytes \<Rightarrow> bytes" where
  "encode_bytes_field field bs = encode_tag field WIRE_LEN @ encode_varint (word_of_nat (length bs)) @ bs"

datatype field_value =
    Varint u64
  | Fixed64 u64
  | LenBytes bytes
  | Fixed32 u32

definition read_field :: "bytes \<Rightarrow> (u32 \<times> field_value \<times> nat) mesh_result" where
  "read_field input =
     rbind (decode_varint input) (\<lambda>(tag, offset).
       let field = ucast (drop_bit 3 tag) :: u32; wire_type = ucast (tag AND 0x7) :: u8 in
       if wire_type = WIRE_VARINT then
         rbind (decode_varint (drop offset input)) (\<lambda>(v, len). Inr (field, Varint v, offset + len))
       else if wire_type = WIRE_FIXED64 then
         (if offset + 8 \<le> length input
          then Inr (field, Fixed64 (from_le_bytes (slice offset (offset + 8) input)), offset + 8)
          else Inl MeshTruncated)
       else if wire_type = WIRE_LEN then
         rbind (decode_varint (drop offset input)) (\<lambda>(len, len_bytes).
           let start = offset + len_bytes; stop = start + unat len in
           if stop \<le> length input then Inr (field, LenBytes (slice start stop input), stop)
           else Inl MeshInvalidLength)
       else if wire_type = WIRE_FIXED32 then
         (if offset + 4 \<le> length input
          then Inr (field, Fixed32 (from_le_bytes (slice offset (offset + 4) input)), offset + 4)
          else Inl MeshTruncated)
       else Inl InvalidWireType)"

lemma decode_varint_from_consumed:
  "decode_varint_from input index v = Inr (w, n) \<Longrightarrow> index < n \<and> n \<le> 10 \<and> n - index \<le> length input"
proof (induction input index v rule: decode_varint_from.induct)
  case (1 input index v)
  then show ?case
    by (subst (asm) (2) decode_varint_from.simps) (fastforce simp: Let_def split: if_splits list.splits)
qed

lemma decode_varint_consumed: "decode_varint input = Inr (w, n) \<Longrightarrow> 0 < n \<and> n \<le> 10 \<and> n \<le> length input"
  using decode_varint_from_consumed[of input 0 0 w n] by (simp add: decode_varint_def)

lemma read_field_consumed: "read_field input = Inr (f, v, n) \<Longrightarrow> 0 < n \<and> n \<le> length input"
  by (auto simp: read_field_def Let_def dest!: decode_varint_consumed split: if_splits)

function for_each_field ::
  "(u32 \<Rightarrow> field_value \<Rightarrow> 's \<Rightarrow> 's mesh_result) \<Rightarrow> bytes \<Rightarrow> 's \<Rightarrow> 's mesh_result" where
  "for_each_field visit input s =
     (if input = [] then Inr s
      else rbind (read_field input) (\<lambda>(field, v, consumed).
        rbind (visit field v s) (\<lambda>s'. for_each_field visit (drop consumed input) s')))"
  by pat_completeness auto
termination
  by (relation "measure (\<lambda>(_, input, _). length input)") (auto dest: read_field_consumed)

declare for_each_field.simps [simp del]

section \<open>Varints round trip\<close>

lemma mask_7: "(127 :: 'a::len word) = mask 7"
  by (simp add: mask_eq_exp_minus_1)

lemma bit_128: "bit (128 :: 'a::len word) n \<longleftrightarrow> n < LENGTH('a) \<and> n = 7"
proof -
  have "(128 :: 'a word) = 2 ^ 7" by simp
  then show ?thesis by (simp only: bit_exp_iff possible_bit_word)
qed

lemma bit_128_int: "bit (128 :: int) n \<longleftrightarrow> n = 7"
proof -
  have "(128 :: int) = 2 ^ 7" by simp
  then show ?thesis by (simp only: bit_exp_iff possible_bit_def) simp
qed

lemma low_seven:
  fixes w :: u64
  shows "ucast ((ucast (w AND 0x7f) :: u8) AND 0x7f) = w AND 0x7f"
    and "ucast (((ucast (w AND 0x7f) :: u8) OR 0x80) AND 0x7f) = w AND 0x7f"
    and "(ucast (w AND 0x7f) :: u8) AND 0x80 = 0"
    and "((ucast (w AND 0x7f) :: u8) OR 0x80) AND 0x80 = 0x80"
    and "(w AND 0x7f) OR push_bit 7 (drop_bit 7 w) = w"
proof -
  have split: "bit (push_bit 7 (drop_bit 7 w)) n \<longleftrightarrow> 7 \<le> n \<and> bit w n" for n
    by (auto simp: bit_push_bit_iff bit_drop_bit_eq dest: bit_imp_le_length)
  show "(w AND 0x7f) OR push_bit 7 (drop_bit 7 w) = w"
    unfolding mask_7 by (rule bit_word_eqI) (auto simp: bit_or_iff bit_and_iff bit_mask_iff split)
qed (unfold mask_7, (rule bit_word_eqI; auto simp: bit_simps bit_128 bit_128_int)+)

lemma varint_group:
  fixes w :: u64
  shows "(acc OR push_bit (7 * i) (w AND 0x7f)) OR push_bit (7 * (i + 1)) (drop_bit 7 w) = acc OR push_bit (7 * i) w"
proof -
  have "push_bit (7 * (i + 1)) (drop_bit 7 w) = push_bit (7 * i) (push_bit 7 (drop_bit 7 w))"
    by (simp only: push_bit_push_bit) (simp add: algebra_simps)
  then show ?thesis by (simp only: or.assoc push_bit_or[symmetric] low_seven(5))
qed

lemma decode_encode_from:
  assumes "i < 10" and "unat w < 2 ^ (64 - 7 * i)"
  shows "decode_varint_from (encode_varint w @ rest) i acc =
    Inr (acc OR push_bit (7 * i) w, i + length (encode_varint w))"
  using assms
proof (induction w arbitrary: i acc rule: encode_varint.induct)
  case (1 w)
  show ?case
  proof (cases "drop_bit 7 w = 0")
    case True
    then have "w AND 0x7f = w" using low_seven(5)[of w] by simp
    then show ?thesis
      using "1.prems" True low_seven(1,3)[of w]
      by (subst (1 2) encode_varint.simps, subst decode_varint_from.simps) (simp add: Let_def)
  next
    case False
    have "unat w div 128 \<noteq> 0" using False unat_eq_0 unat_drop_7 by metis
    then have big: "128 \<le> unat w" by (cases "unat w < 128") auto
    have i9: "i < 9"
    proof (rule ccontr)
      assume "\<not> i < 9"
      then have "i = 9" using "1.prems"(1) by simp
      then show False using "1.prems"(2) big by simp
    qed
    have "64 - 7 * i = (64 - 7 * (i + 1)) + 7" using i9 by simp
    then have "(2::nat) ^ (64 - 7 * i) = 2 ^ (64 - 7 * (i + 1)) * 128" by (simp only: power_add) simp
    then have "unat (drop_bit 7 w) < 2 ^ (64 - 7 * (i + 1))"
      using "1.prems"(2) unfolding unat_drop_7 by (simp add: less_mult_imp_div_less)
    then have IH: "decode_varint_from (encode_varint (drop_bit 7 w) @ rest) (i + 1) acc' =
        Inr (acc' OR push_bit (7 * (i + 1)) (drop_bit 7 w), i + 1 + length (encode_varint (drop_bit 7 w)))" for acc'
      using "1.IH"[OF refl refl False] i9 by simp
    have "encode_varint w = (ucast (w AND 0x7f) OR 0x80) # encode_varint (drop_bit 7 w)"
      using False by (subst encode_varint.simps) (simp add: Let_def)
    moreover have "decode_varint_from (((ucast (w AND 0x7f) :: u8) OR 0x80) # encode_varint (drop_bit 7 w) @ rest) i acc =
        decode_varint_from (encode_varint (drop_bit 7 w) @ rest) (i + 1) (acc OR push_bit (7 * i) (w AND 0x7f))"
      using "1.prems"(1) low_seven(2,4)[of w] by (subst decode_varint_from.simps) (simp only: Let_def list.case, simp)
    ultimately show ?thesis using IH varint_group by simp
  qed
qed

lemma decode_encode_varint: "decode_varint (encode_varint v @ rest) = Inr (v, length (encode_varint v))"
  using decode_encode_from[of 0 v rest 0] unsigned_less[of v, where ?'a = nat] by (simp add: decode_varint_def)

lemma encode_varint_length: "0 < length (encode_varint v) \<and> length (encode_varint v) \<le> 10"
  using decode_varint_consumed[of "encode_varint v" v "length (encode_varint v)"] decode_encode_varint[of v "[]"]
  by simp

section \<open>Fields round trip\<close>

lemma tag_parts:
  fixes f :: u32 and t :: u8
  assumes "t \<le> 7"
  shows "ucast (drop_bit 3 (push_bit 3 (ucast f) OR ucast t :: u64)) = f"
    and "ucast ((push_bit 3 (ucast f) OR ucast t :: u64) AND 0x7) = t"
proof -
  have "take_bit 3 t = t"
    by (rule word_unat_eq_iff[THEN iffD2], simp only: unsigned_take_bit_eq)
      (use assms in \<open>simp add: take_bit_eq_mod word_le_nat_alt\<close>)
  then have t: "n < 3" if "bit t n" for n using that by (metis bit_take_bit_iff)
  have m: "(0x7 :: u64) = mask 3" by (simp add: mask_eq_exp_minus_1)
  show "ucast (drop_bit 3 (push_bit 3 (ucast f) OR ucast t :: u64)) = f"
    by (rule bit_word_eqI) (auto simp: bit_simps dest: t)
  show "ucast ((push_bit 3 (ucast f) OR ucast t :: u64) AND 0x7) = t"
    unfolding m by (rule bit_word_eqI) (auto simp: bit_simps dest: t)
qed

lemma read_tag:
  assumes "t \<le> 7"
  shows "decode_varint (encode_tag f t @ rest) =
    Inr (push_bit 3 (ucast f) OR ucast t, length (encode_tag f t))"
  unfolding encode_tag_def by (rule decode_encode_varint)

lemma slice_middle: "length a = n \<Longrightarrow> slice n (n + length b) (a @ b @ c) = b"
  by (simp add: slice_def)

lemma read_varint_field:
  "read_field (encode_varint_field f v @ rest) = Inr (f, Varint v, length (encode_varint_field f v))"
  using read_tag[of 0 f "encode_varint v @ rest"] tag_parts[of 0 f] decode_encode_varint[of v rest]
  by (simp add: read_field_def encode_varint_field_def Let_def)

lemma read_fixed32_field:
  "read_field (encode_fixed32_field f v @ rest) = Inr (f, Fixed32 v, length (encode_fixed32_field f v))"
  using read_tag[of 5 f "to_le_bytes v @ rest"] tag_parts[of 5 f]
    slice_middle[of "encode_tag f 5" _ "to_le_bytes v" rest]
  by (simp add: read_field_def encode_fixed32_field_def Let_def)

lemma read_bytes_field:
  assumes "length bs < 2 ^ 64"
  shows "read_field (encode_bytes_field f bs @ rest) = Inr (f, LenBytes bs, length (encode_bytes_field f bs))"
proof -
  let ?n = "word_of_nat (length bs) :: u64"
  have n: "unat ?n = length bs" using assms by (simp add: unat_of_nat)
  show ?thesis
    using read_tag[of 2 f "encode_varint ?n @ bs @ rest"] tag_parts[of 2 f]
      decode_encode_varint[of ?n "bs @ rest"] n
      slice_middle[of "encode_tag f 2 @ encode_varint ?n" _ bs rest]
    by (simp add: read_field_def encode_bytes_field_def Let_def add.assoc)
qed

text \<open>A field at the front of the input is visited first, whatever follows.\<close>

lemma for_each_step:
  assumes "read_field (fld @ rest) = Inr (f, v, length fld)" and "fld \<noteq> []"
  shows "for_each_field visit (fld @ rest) s = rbind (visit f v s) (\<lambda>s'. for_each_field visit rest s')"
  using assms by (subst for_each_field.simps) simp

lemma encode_field_nonempty [simp]:
  "encode_varint_field f v \<noteq> []" "encode_fixed32_field f w \<noteq> []" "encode_bytes_field f bs \<noteq> []"
  using encode_varint_length
  by (auto simp: encode_varint_field_def encode_fixed32_field_def encode_bytes_field_def encode_tag_def)

lemma for_each_varint:
  "for_each_field visit (encode_varint_field f v @ rest) s =
     rbind (visit f (Varint v) s) (\<lambda>s'. for_each_field visit rest s')"
  by (rule for_each_step[OF read_varint_field]) simp

lemma for_each_fixed32:
  "for_each_field visit (encode_fixed32_field f v @ rest) s =
     rbind (visit f (Fixed32 v) s) (\<lambda>s'. for_each_field visit rest s')"
  by (rule for_each_step[OF read_fixed32_field]) simp

lemma for_each_bytes:
  "length bs < 2 ^ 64 \<Longrightarrow> for_each_field visit (encode_bytes_field f bs @ rest) s =
     rbind (visit f (LenBytes bs) s) (\<lambda>s'. for_each_field visit rest s')"
  by (rule for_each_step[OF read_bytes_field]) simp_all

lemma for_each_Nil [simp]: "for_each_field visit [] s = Inr s"
  by (simp add: for_each_field.simps)

text \<open>The same three with the field alone.\<close>

lemmas for_each_last =
  for_each_varint[where rest = "[]", simplified] for_each_fixed32[where rest = "[]", simplified]
  for_each_bytes[where rest = "[]", simplified]

lemma encode_varint_one: "unat v < 128 \<Longrightarrow> encode_varint v = [ucast v]"
proof -
  assume v: "unat v < 128"
  have "unat (drop_bit 7 v) = 0" unfolding unat_drop_7 using v by simp
  then have "drop_bit 7 v = 0" using unat_eq_0 by blast
  moreover from this have "v AND 0x7f = v" using low_seven(5)[of v] by simp
  ultimately show ?thesis by (subst encode_varint.simps) (simp add: Let_def)
qed

lemma encode_varint_two:
  assumes "unat v < 16384"
  shows "length (encode_varint v) \<le> 2"
proof (cases "drop_bit 7 v = 0")
  case True
  then show ?thesis by (subst encode_varint.simps) (simp add: Let_def)
next
  case False
  have "unat (drop_bit 7 v) < 128" unfolding unat_drop_7 using assms by simp
  then have "length (encode_varint (drop_bit 7 v)) = 1" by (simp only: encode_varint_one list.size)
  then show ?thesis using False by (subst encode_varint.simps) (simp add: Let_def)
qed

section \<open>Properties\<close>

text \<open>Varints and fields round trip in front of any further input: reading back a field
  that the encoder wrote gives its number, its value and its length, and the field walk
  visits it and continues behind it.\<close>

theorem fields_roundtrip:
  assumes "length bs < 2 ^ 64"
  shows "decode_varint (encode_varint v @ rest) = Inr (v, length (encode_varint v)) \<and>
    length (encode_varint v) \<le> 10 \<and>
    read_field (encode_varint_field f v @ rest) = Inr (f, Varint v, length (encode_varint_field f v)) \<and>
    read_field (encode_fixed32_field f w @ rest) = Inr (f, Fixed32 w, length (encode_fixed32_field f w)) \<and>
    read_field (encode_bytes_field f bs @ rest) = Inr (f, LenBytes bs, length (encode_bytes_field f bs)) \<and>
    for_each_field visit (encode_bytes_field f bs @ rest) s =
      rbind (visit f (LenBytes bs) s) (\<lambda>s'. for_each_field visit rest s')"
  by (intro conjI decode_encode_varint read_varint_field read_fixed32_field read_bytes_field[OF assms]
      for_each_bytes[OF assms]) (simp add: encode_varint_length)

theorem fields_roundtrip_witness:
  "read_field (encode_bytes_field 4 [1, 2, 3] @ [9]) = Inr (4, LenBytes [1, 2, 3], length (encode_bytes_field 4 [1, 2, 3]))"
  using fields_roundtrip[of "[1, 2, 3]" 0 "[9]" 4 0 "\<lambda>_ _ s. Inr s" "()"] by simp

text \<open>The decoder accepts a ten-byte varint that does not fit 64 bits and drops the high
  bits: the encoding of 2 to the 64 is read as 0.\<close>

theorem oversized_varint_accepted:
  "decode_varint (replicate 9 0x80 @ [0x02]) = Inr (0, 10)"
  by code_simp

end
