(* ===== verification/Meshtastic_Data.thy ===== *)
theory Meshtastic_Data
  imports Protobuf
begin

text \<open>
  \<open>latentmesh-meshtastic/src/data.rs\<close>: the subset of the \<open>Data\<close>, \<open>MeshPacket\<close>, \<open>ToRadio\<close> and
  \<open>FromRadio\<close> messages that the adapter reads or writes. The variables that a visitor closure
  captures are the state of the field walk.
\<close>

abbreviation (input) PRIVATE_APP_PORTNUM :: u32 where "PRIVATE_APP_PORTNUM \<equiv> 256"
abbreviation (input) SIMULATOR_APP_PORTNUM :: u32 where "SIMULATOR_APP_PORTNUM \<equiv> 69"
abbreviation (input) BROADCAST_ADDR :: u32 where "BROADCAST_ADDR \<equiv> 0xffffffff"

abbreviation (input) DATA_FIELD_PORTNUM :: u32 where "DATA_FIELD_PORTNUM \<equiv> 1"
abbreviation (input) DATA_FIELD_PAYLOAD :: u32 where "DATA_FIELD_PAYLOAD \<equiv> 2"
abbreviation (input) MESH_PACKET_FIELD_FROM :: u32 where "MESH_PACKET_FIELD_FROM \<equiv> 1"
abbreviation (input) MESH_PACKET_FIELD_TO :: u32 where "MESH_PACKET_FIELD_TO \<equiv> 2"
abbreviation (input) MESH_PACKET_FIELD_DECODED :: u32 where "MESH_PACKET_FIELD_DECODED \<equiv> 4"
abbreviation (input) MESH_PACKET_FIELD_ENCRYPTED :: u32 where "MESH_PACKET_FIELD_ENCRYPTED \<equiv> 5"
abbreviation (input) TO_RADIO_FIELD_PACKET :: u32 where "TO_RADIO_FIELD_PACKET \<equiv> 1"
abbreviation (input) TO_RADIO_FIELD_WANT_CONFIG_ID :: u32 where "TO_RADIO_FIELD_WANT_CONFIG_ID \<equiv> 3"
abbreviation (input) FROM_RADIO_FIELD_PACKET :: u32 where "FROM_RADIO_FIELD_PACKET \<equiv> 2"
abbreviation (input) FROM_RADIO_FIELD_MY_INFO :: u32 where "FROM_RADIO_FIELD_MY_INFO \<equiv> 3"
abbreviation (input) FROM_RADIO_FIELD_CONFIG_COMPLETE_ID :: u32 where
  "FROM_RADIO_FIELD_CONFIG_COMPLETE_ID \<equiv> 7"
abbreviation (input) FROM_RADIO_FIELD_METADATA :: u32 where "FROM_RADIO_FIELD_METADATA \<equiv> 13"
abbreviation (input) MY_NODE_INFO_FIELD_MY_NODE_NUM :: u32 where "MY_NODE_INFO_FIELD_MY_NODE_NUM \<equiv> 1"
abbreviation (input) METADATA_FIELD_FIRMWARE_VERSION :: u32 where "METADATA_FIELD_FIRMWARE_VERSION \<equiv> 1"

section \<open>Data\<close>

definition encode_data :: "u32 \<Rightarrow> bytes \<Rightarrow> bytes" where
  "encode_data portnum payload =
     encode_varint_field DATA_FIELD_PORTNUM (ucast portnum) @ encode_bytes_field DATA_FIELD_PAYLOAD payload"

text \<open>\<open>u32::try_from\<close> of a 64-bit value.\<close>

definition u32_try_from :: "u64 \<Rightarrow> u32 option" where
  "u32_try_from v = (if unat v < 2 ^ 32 then Some (ucast v) else None)"

fun data_visit :: "u32 \<Rightarrow> field_value \<Rightarrow> u32 option \<times> bytes \<Rightarrow> (u32 option \<times> bytes) mesh_result" where
  "data_visit field (Varint v) (portnum, payload) =
     (if field = DATA_FIELD_PORTNUM
      then (case u32_try_from v of None \<Rightarrow> Inl MeshInvalidLength | Some p \<Rightarrow> Inr (Some p, payload))
      else Inr (portnum, payload))"
| "data_visit field (LenBytes inner) (portnum, payload) =
     Inr (portnum, if field = DATA_FIELD_PAYLOAD then inner else payload)"
| "data_visit field _ s = Inr s"

definition decode_data :: "bytes \<Rightarrow> (u32 \<times> bytes) mesh_result" where
  "decode_data bs =
     rbind (for_each_field data_visit bs (None, [])) (\<lambda>(portnum, payload).
       Inr (case portnum of None \<Rightarrow> 0 | Some p \<Rightarrow> p, payload))"

section \<open>To the radio\<close>

definition encode_to_radio_data :: "u32 \<Rightarrow> u32 \<Rightarrow> bytes \<Rightarrow> bytes" where
  "encode_to_radio_data dest portnum payload =
     (let data = encode_data portnum payload;
          packet = encode_fixed32_field MESH_PACKET_FIELD_TO dest @
            encode_bytes_field MESH_PACKET_FIELD_DECODED data
      in encode_bytes_field TO_RADIO_FIELD_PACKET packet)"

definition encode_want_config_id :: "u32 \<Rightarrow> bytes" where
  "encode_want_config_id n = encode_varint_field TO_RADIO_FIELD_WANT_CONFIG_ID (ucast n)"

section \<open>From the radio\<close>

record received_data =
  rd_from :: u32
  rd_portnum :: u32
  rd_payload :: bytes

text \<open>The variables of \<open>decode_mesh_packet\<close>: \<open>from\<close>, \<open>decoded_bytes\<close> and \<open>saw_encrypted\<close>.\<close>

fun packet_visit ::
  "u32 \<Rightarrow> field_value \<Rightarrow> u32 \<times> bytes option \<times> bool \<Rightarrow> (u32 \<times> bytes option \<times> bool) mesh_result" where
  "packet_visit field (Fixed32 v) (fr, decoded, encrypted) =
     Inr (if field = MESH_PACKET_FIELD_FROM then v else fr, decoded, encrypted)"
| "packet_visit field (LenBytes inner) (fr, decoded, encrypted) =
     Inr (if field = MESH_PACKET_FIELD_DECODED then (fr, Some inner, encrypted)
          else if field = MESH_PACKET_FIELD_ENCRYPTED then (fr, decoded, True)
          else (fr, decoded, encrypted))"
| "packet_visit field _ s = Inr s"

definition decode_mesh_packet :: "bytes \<Rightarrow> received_data option mesh_result" where
  "decode_mesh_packet bs =
     rbind (for_each_field packet_visit bs (0, None, False)) (\<lambda>(fr, decoded, encrypted).
       case decoded of
         None \<Rightarrow> if encrypted then Inl NoDecodedData else Inr None
       | Some decoded_bytes \<Rightarrow>
           rbind (decode_data decoded_bytes) (\<lambda>(portnum, payload).
             Inr (Some \<lparr> rd_from = fr, rd_portnum = portnum, rd_payload = payload \<rparr>)))"

text \<open>The last bytes value of the field \<open>wanted\<close>, as two of the walks keep it.\<close>

fun last_bytes_visit :: "u32 \<Rightarrow> u32 \<Rightarrow> field_value \<Rightarrow> bytes option \<Rightarrow> bytes option mesh_result" where
  "last_bytes_visit wanted field (LenBytes inner) s = Inr (if field = wanted then Some inner else s)"
| "last_bytes_visit wanted field _ s = Inr s"

definition decode_from_radio :: "bytes \<Rightarrow> received_data option mesh_result" where
  "decode_from_radio bs =
     rbind (for_each_field (last_bytes_visit FROM_RADIO_FIELD_PACKET) bs None) (\<lambda>packet_bytes.
       case packet_bytes of None \<Rightarrow> Inr None | Some packet \<Rightarrow> decode_mesh_packet packet)"

text \<open>\<open>unwrap\<close> panics on an error, here \<open>None\<close>.\<close>

definition simulate_node_echo_as_from_radio :: "bytes \<Rightarrow> bytes option" where
  "simulate_node_echo_as_from_radio to_radio =
     (case for_each_field (last_bytes_visit TO_RADIO_FIELD_PACKET) to_radio None of
        Inl _ \<Rightarrow> None
      | Inr packet \<Rightarrow> Some (encode_bytes_field FROM_RADIO_FIELD_PACKET (case packet of None \<Rightarrow> [] | Some p \<Rightarrow> p)))"

section \<open>The handshake\<close>

datatype handshake_update =
    MyNodeNum u32
  | ConfigCompleteId u32
  | FirmwareVersion bytes
  | Other

fun my_info_visit :: "u32 \<Rightarrow> field_value \<Rightarrow> handshake_update \<Rightarrow> handshake_update mesh_result" where
  "my_info_visit field (Varint node_num) res =
     (if field = MY_NODE_INFO_FIELD_MY_NODE_NUM
      then (case u32_try_from node_num of None \<Rightarrow> Inl MeshInvalidLength | Some n \<Rightarrow> Inr (MyNodeNum n))
      else Inr res)"
| "my_info_visit field _ res = Inr res"

fun metadata_visit :: "u32 \<Rightarrow> field_value \<Rightarrow> handshake_update \<Rightarrow> handshake_update mesh_result" where
  "metadata_visit field (LenBytes txt) res =
     Inr (if field = METADATA_FIELD_FIRMWARE_VERSION \<and> utf8_valid txt then FirmwareVersion txt else res)"
| "metadata_visit field _ res = Inr res"

fun handshake_visit :: "u32 \<Rightarrow> field_value \<Rightarrow> handshake_update \<Rightarrow> handshake_update mesh_result" where
  "handshake_visit field (LenBytes inner) res =
     (if field = FROM_RADIO_FIELD_MY_INFO then for_each_field my_info_visit inner res
      else if field = FROM_RADIO_FIELD_METADATA then for_each_field metadata_visit inner res
      else Inr res)"
| "handshake_visit field (Varint v) res =
     (if field = FROM_RADIO_FIELD_CONFIG_COMPLETE_ID
      then (case u32_try_from v of None \<Rightarrow> Inl MeshInvalidLength | Some n \<Rightarrow> Inr (ConfigCompleteId n))
      else Inr res)"
| "handshake_visit field _ res = Inr res"

definition decode_handshake_update :: "bytes \<Rightarrow> handshake_update mesh_result" where
  "decode_handshake_update bs = for_each_field handshake_visit bs Other"

section \<open>Round trips\<close>

lemma u32_try_from_ucast [simp]: "u32_try_from (ucast p) = Some p"
proof -
  have p: "unat p < 2 ^ 32" using unsigned_less[of p, where ?'a = nat] by simp
  then have "unat (ucast p :: u64) = unat p" by (simp add: unsigned_ucast_eq take_bit_eq_mod)
  moreover have "ucast (ucast p :: u64) = p" by (rule bit_word_eqI) (simp add: bit_simps)
  ultimately show ?thesis using p by (simp add: u32_try_from_def)
qed

lemma decode_encode_data:
  "length payload < 2 ^ 64 \<Longrightarrow> decode_data (encode_data portnum payload) = Inr (portnum, payload)"
  by (simp add: decode_data_def encode_data_def for_each_varint for_each_last)

text \<open>The tags of the messages, one byte each.\<close>

lemma tags:
  "encode_tag 1 0 = [0x08]" "encode_tag 2 2 = [0x12]" "encode_tag 2 5 = [0x15]"
  "encode_tag 4 2 = [0x22]" "encode_tag 1 2 = [0x0a]" "encode_tag 5 2 = [0x2a]"
  by code_simp+

lemma bytes_field_length:
  assumes "length (encode_tag f 2) = 1" and "length bs < 16384"
  shows "length (encode_bytes_field f bs) \<le> length bs + 3"
proof -
  have "unat (word_of_nat (length bs) :: u64) = length bs" using assms(2) by (simp add: unat_of_nat)
  then show ?thesis
    using encode_varint_two[of "word_of_nat (length bs)"] assms by (simp add: encode_bytes_field_def)
qed

text \<open>\<open>DATA_PAYLOAD_LEN\<close>, the limit 233 of the firmware on an encoded \<open>Data\<close>.\<close>

lemma encode_data_length:
  assumes "length payload \<le> 227"
  shows "length (encode_data PRIVATE_APP_PORTNUM payload) \<le> 233"
proof -
  have "length (encode_varint_field 1 256) = 3" by code_simp
  then show ?thesis
    using bytes_field_length[of 2 payload] assms by (simp add: encode_data_def tags)
qed

lemma to_radio_length:
  assumes "length payload \<le> 227"
  shows "length (encode_to_radio_data dest PRIVATE_APP_PORTNUM payload) \<le> 244"
proof -
  let ?data = "encode_data 256 payload"
  let ?packet = "encode_fixed32_field 2 dest @ encode_bytes_field 4 ?data"
  have "length (encode_bytes_field 4 ?data) \<le> 236"
    using bytes_field_length[of 4 ?data] encode_data_length[OF assms] by (simp add: tags)
  then have "length ?packet \<le> 241" by (simp add: encode_fixed32_field_def tags)
  then show ?thesis
    using bytes_field_length[of 1 ?packet] by (simp add: encode_to_radio_data_def tags)
qed

text \<open>The node echoes the packet it was sent, and the echo decodes to the packet's payload.\<close>

lemma echo_decodes:
  assumes "length payload \<le> 512"
  obtains echo where
    "simulate_node_echo_as_from_radio (encode_to_radio_data dest portnum payload) = Some echo"
    and "decode_from_radio echo = Inr (Some \<lparr> rd_from = 0, rd_portnum = portnum, rd_payload = payload \<rparr>)"
    and "length echo \<le> length payload + 28"
proof -
  let ?data = "encode_data portnum payload"
  let ?packet = "encode_fixed32_field 2 dest @ encode_bytes_field 4 ?data"
  have "length (encode_bytes_field 2 payload) \<le> length payload + 3"
    using bytes_field_length[of 2 payload] assms by (simp add: tags)
  then have data: "length ?data \<le> length payload + 14"
    using encode_varint_length[of "ucast portnum"] by (simp add: encode_data_def encode_varint_field_def tags)
  then have "length (encode_bytes_field 4 ?data) \<le> length payload + 17"
    using bytes_field_length[of 4 ?data] assms by (simp add: tags)
  then have packet: "length ?packet \<le> length payload + 22" by (simp add: encode_fixed32_field_def tags)
  show thesis
  proof (rule that)
    show "simulate_node_echo_as_from_radio (encode_to_radio_data dest portnum payload) =
      Some (encode_bytes_field 2 ?packet)"
      using packet assms
      by (simp add: simulate_node_echo_as_from_radio_def encode_to_radio_data_def Let_def for_each_last)
    have "decode_mesh_packet ?packet =
      Inr (Some \<lparr> rd_from = 0, rd_portnum = portnum, rd_payload = payload \<rparr>)"
      using data assms decode_encode_data[of payload portnum]
      by (simp add: decode_mesh_packet_def for_each_fixed32 for_each_last)
    then show "decode_from_radio (encode_bytes_field 2 ?packet) =
      Inr (Some \<lparr> rd_from = 0, rd_portnum = portnum, rd_payload = payload \<rparr>)"
      using packet assms by (simp add: decode_from_radio_def for_each_last)
    show "length (encode_bytes_field 2 ?packet) \<le> length payload + 28"
      using bytes_field_length[of 2 ?packet] packet assms by (simp add: tags)
  qed
qed

section \<open>Properties\<close>

text \<open>A packet sent to the radio comes back from a node's echo as the application data that was
  sent, whatever the destination and port; and a packet of up to 227 payload bytes on the private
  port stays within the firmware's 233 bytes of encoded \<open>Data\<close> and the 512 bytes of a device frame.\<close>

theorem radio_echo_roundtrip:
  assumes "length payload \<le> 512"
  shows "(\<exists>echo. simulate_node_echo_as_from_radio (encode_to_radio_data dest portnum payload) = Some echo \<and>
      decode_from_radio echo = Inr (Some \<lparr> rd_from = 0, rd_portnum = portnum, rd_payload = payload \<rparr>)) \<and>
    (length payload \<le> 227 \<longrightarrow> length (encode_data PRIVATE_APP_PORTNUM payload) \<le> 233 \<and>
      length (encode_to_radio_data dest PRIVATE_APP_PORTNUM payload) \<le> 512)"
proof -
  obtain echo where "simulate_node_echo_as_from_radio (encode_to_radio_data dest portnum payload) = Some echo"
    and "decode_from_radio echo = Inr (Some \<lparr> rd_from = 0, rd_portnum = portnum, rd_payload = payload \<rparr>)"
    by (rule echo_decodes[OF assms])
  moreover have "length (encode_to_radio_data dest PRIVATE_APP_PORTNUM payload) \<le> 512"
    if "length payload \<le> 227" using to_radio_length[OF that, of dest] by simp
  ultimately show ?thesis using encode_data_length by blast
qed

theorem radio_echo_roundtrip_witness:
  "\<exists>echo. simulate_node_echo_as_from_radio (encode_to_radio_data 7 256 [1, 2, 3]) = Some echo \<and>
     decode_from_radio echo = Inr (Some \<lparr> rd_from = 0, rd_portnum = 256, rd_payload = [1, 2, 3] \<rparr>)"
  using radio_echo_roundtrip[of "[1, 2, 3]" 7 256] by simp

text \<open>A packet that carries only an encrypted payload is an error of \<open>decode_from_radio\<close>, whatever
  the ciphertext, and not the absence of data.\<close>

theorem encrypted_packet_is_error:
  assumes "length cipher \<le> 512"
  shows "decode_from_radio (encode_bytes_field FROM_RADIO_FIELD_PACKET
    (encode_bytes_field MESH_PACKET_FIELD_ENCRYPTED cipher)) = Inl NoDecodedData"
proof -
  have "length (encode_bytes_field 5 cipher) < 16384"
    using bytes_field_length[of 5 cipher] assms by (simp add: tags)
  then show ?thesis
    using assms by (simp add: decode_from_radio_def decode_mesh_packet_def for_each_last)
qed

theorem encrypted_packet_is_error_witness:
  "decode_from_radio (encode_bytes_field 2 (encode_bytes_field 5 [0xde, 0xad])) = Inl NoDecodedData"
  using encrypted_packet_is_error[of "[0xde, 0xad]"] by simp

text \<open>The handshake is over when the node echoes the id of the request.\<close>

lemma handshake_completes:
  "decode_handshake_update (encode_varint_field FROM_RADIO_FIELD_CONFIG_COMPLETE_ID (ucast n)) =
     Inr (ConfigCompleteId n)"
  by (simp add: decode_handshake_update_def for_each_last)

lemma handshake_node_num:
  "length inner < 2 ^ 64 \<Longrightarrow> inner = encode_varint_field MY_NODE_INFO_FIELD_MY_NODE_NUM (ucast n) \<Longrightarrow>
   decode_handshake_update (encode_bytes_field FROM_RADIO_FIELD_MY_INFO inner) = Inr (MyNodeNum n)"
  by (simp add: decode_handshake_update_def for_each_last)

end
