(* ===== verification/Vec_Ops.thy ===== *)
theory Vec_Ops
  imports Prelude "HOL-Library.Multiset"
begin

text \<open>
  The operations of \<open>Vec\<close>, slices and iterators that the code uses and HOL's list
  library lacks: \<open>Iterator::position\<close>, \<open>Vec::swap_remove\<close>, \<open>slice::chunks\<close> and
  \<open>usize::div_ceil\<close>.
\<close>

section \<open>Position\<close>

fun position :: "('a \<Rightarrow> bool) \<Rightarrow> 'a list \<Rightarrow> nat option" where
  "position p [] = None"
| "position p (x # xs) = (if p x then Some 0 else map_option Suc (position p xs))"

lemma position_None [simp]: "position p xs = None \<longleftrightarrow> (\<forall>x\<in>set xs. \<not> p x)"
  by (induction xs) auto

lemma position_SomeD: "position p xs = Some i \<Longrightarrow> i < length xs \<and> p (xs ! i)"
  by (induction xs arbitrary: i) (auto split: if_splits)

lemma position_append_last:
  "\<forall>x\<in>set xs. \<not> p x \<Longrightarrow> p y \<Longrightarrow> position p (xs @ [y]) = Some (length xs)"
  by (induction xs) auto

section \<open>Removal by swapping with the last element\<close>

definition swap_remove :: "nat \<Rightarrow> 'a list \<Rightarrow> 'a list" where
  "swap_remove i xs = butlast (xs[i := last xs])"

lemma length_swap_remove [simp]: "length (swap_remove i xs) = length xs - 1"
  by (simp add: swap_remove_def)

lemma swap_remove_update: "i < length xs \<Longrightarrow> swap_remove i (xs[i := y]) = swap_remove i xs"
proof -
  assume i: "i < length xs"
  then obtain zs z where xs: "xs = zs @ [z]" by (cases xs rule: rev_cases) auto
  show ?thesis using i by (cases "i = length zs") (auto simp: swap_remove_def xs list_update_append)
qed

lemma mset_swap_remove:
  assumes "i < length xs"
  shows "mset (swap_remove i xs) = mset xs - {#xs ! i#}"
proof -
  obtain zs z where xs: "xs = zs @ [z]" using assms by (cases xs rule: rev_cases) auto
  show ?thesis using assms
    by (cases "i = length zs") (auto simp: swap_remove_def xs list_update_append nth_append mset_update)
qed

lemma swap_remove_perm: "i < length xs \<Longrightarrow> mset (swap_remove i xs) = mset (remove1 (xs ! i) xs)"
  by (simp add: mset_swap_remove)

lemma set_swap_remove: "i < length xs \<Longrightarrow> distinct xs \<Longrightarrow> set (swap_remove i xs) = set xs - {xs ! i}"
  using mset_eq_setD[OF swap_remove_perm, of i xs] by (simp add: set_remove1_eq)

lemma set_swap_remove_subset: "i < length xs \<Longrightarrow> set (swap_remove i xs) \<subseteq> set xs"
  using mset_eq_setD[OF swap_remove_perm, of i xs] set_remove1_subset[of "xs ! i" xs] by simp

lemma distinct_map_swap_remove:
  assumes "i < length xs" and "distinct (map f xs)"
  shows "distinct (map f (swap_remove i xs))"
proof -
  have "mset (map f (swap_remove i xs)) = mset (map f (remove1 (xs ! i) xs))"
    by (simp only: mset_map swap_remove_perm[OF assms(1)])
  moreover have "distinct (map f (remove1 (xs ! i) xs))"
    using assms(2) by (auto simp: distinct_map distinct_remove1 intro: inj_on_subset dest: notin_set_remove1)
  ultimately show ?thesis by (metis mset_eq_imp_distinct_iff)
qed

lemma swap_remove_last [simp]: "swap_remove (length xs) (xs @ [x]) = xs"
  by (simp add: swap_remove_def)

section \<open>Lookup by key\<close>

lemma find_append_last: "\<not> P y \<Longrightarrow> find P (xs @ [y]) = find P xs"
  by (induction xs) auto

lemma find_key_iff:
  assumes "distinct (map key xs)"
  shows "find (\<lambda>x. key x = k) xs = Some x \<longleftrightarrow> x \<in> set xs \<and> key x = k"
  using assms by (induction xs) (force simp: image_iff)+

lemma find_key_None: "find (\<lambda>x. key x = k) xs = None \<longleftrightarrow> k \<notin> key ` set xs"
  by (auto simp: find_None_iff)

lemma position_find:
  "position p xs = Some i \<Longrightarrow> find p xs = Some (xs ! i)"
  by (induction xs arbitrary: i) (auto split: if_splits)

lemma find_key_swap_remove:
  assumes "distinct (map key xs)" and "i < length xs"
  shows "find (\<lambda>x. key x = k) (swap_remove i xs) =
    (if k = key (xs ! i) then None else find (\<lambda>x. key x = k) xs)"
proof -
  have d: "distinct xs" using assms(1) by (simp add: distinct_map)
  have set: "set (swap_remove i xs) = set xs - {xs ! i}" using set_swap_remove[OF assms(2) d] .
  note iff = find_key_iff[OF distinct_map_swap_remove[OF assms(2,1)]] find_key_iff[OF assms(1)]
  have inj: "x = xs ! i" if "x \<in> set xs" "key x = key (xs ! i)" for x
    using assms that by (auto simp: distinct_map dest: inj_onD)
  show ?thesis
  proof (cases "k = key (xs ! i)")
    case True
    then show ?thesis using inj set by (auto simp: find_key_None)
  next
    case False
    then have "find (\<lambda>x. key x = k) (swap_remove i xs) = Some x \<longleftrightarrow> find (\<lambda>x. key x = k) xs = Some x" for x
      using set by (auto simp: iff)
    then show ?thesis using False by (metis (full_types) option.exhaust)
  qed
qed

lemma find_key_update:
  assumes "distinct (map key xs)" and "i < length xs" and "key y = key (xs ! i)"
  shows "find (\<lambda>x. key x = k) (xs[i := y]) =
    (if k = key y then Some y else find (\<lambda>x. key x = k) xs)"
proof -
  let ?ys = "xs[i := y]"
  have map: "map key ?ys = map key xs" using assms(2,3) by (metis list_update_id map_update)
  have d: "distinct xs" using assms(1) by (simp add: distinct_map)
  have set: "set ?ys = insert y (set xs - {xs ! i})"
    using set_update_distinct[OF d assms(2)] .
  note iff = find_key_iff[of key ?ys] find_key_iff[OF assms(1)]
  have inj: "x = xs ! i" if "x \<in> set xs" "key x = key y" for x
    using assms that by (auto simp: distinct_map dest: inj_onD)
  show ?thesis
  proof (cases "k = key y")
    case True
    then show ?thesis using iff(1)[of k y] map assms(1) set by simp
  next
    case False
    then have "find (\<lambda>x. key x = k) ?ys = Some x \<longleftrightarrow> find (\<lambda>x. key x = k) xs = Some x" for x
      using iff map assms(1,3) set by auto
    then show ?thesis using False by (metis (full_types) option.exhaust)
  qed
qed

lemma map_key_update: "i < length xs \<Longrightarrow> key y = key (xs ! i) \<Longrightarrow> map key (xs[i := y]) = map key xs"
  by (metis list_update_id map_update)

lemma map_enumerate:
  "map (\<lambda>(i, x). g i x) (enumerate 0 xs) = map (\<lambda>i. g i (xs ! i)) [0..<length xs]"
  by (intro nth_equalityI) (simp_all add: nth_enumerate_eq)

lemma enumerate_nths: "enumerate 0 xs = map (\<lambda>i. (i, xs ! i)) [0..<length xs]"
  by (intro nth_equalityI) (simp_all add: nth_enumerate_eq)

lemma zip_nths: "length ys = length xs \<Longrightarrow> zip xs ys = map (\<lambda>i. (xs ! i, ys ! i)) [0..<length xs]"
  by (intro nth_equalityI) simp_all

lemma sublist_indices:
  assumes "set xs \<subseteq> set ys"
  obtains js where "set js \<subseteq> {..<length ys}" and "xs = map ((!) ys) js"
proof -
  have "\<exists>js. set js \<subseteq> {..<length ys} \<and> xs = map ((!) ys) js"
    using assms
  proof (induction xs)
    case (Cons x xs)
    then obtain j js where "j < length ys" "x = ys ! j" "set js \<subseteq> {..<length ys}" "xs = map ((!) ys) js"
      by (auto simp: in_set_conv_nth)
    then show ?case by (intro exI[of _ "j # js"]) auto
  qed simp
  then show thesis using that by blast
qed

lemma strict_sorted_head:
  fixes f :: "'a \<Rightarrow> 'b::linorder"
  shows "(\<forall>x\<in>set xs. a < f x) \<and> sorted_wrt (<) (map f xs) \<longleftrightarrow>
    sorted_wrt (<) (map f xs) \<and> (xs \<noteq> [] \<longrightarrow> a < f (hd xs))"
  by (cases xs) (auto intro: less_trans)

section \<open>Chunks\<close>

text \<open>\<open>slice::chunks(n)\<close>; the code calls it with a positive \<open>n\<close> only (it panics at 0).\<close>

function chunks :: "nat \<Rightarrow> 'a list \<Rightarrow> 'a list list" where
  "chunks n xs = (if xs = [] \<or> n = 0 then [] else take n xs # chunks n (drop n xs))"
  by pat_completeness auto
termination
  by (relation "measure (\<lambda>(n, xs). length xs)") auto

declare chunks.simps [simp del]

definition div_ceil :: "nat \<Rightarrow> nat \<Rightarrow> nat" where
  "div_ceil a b = (a + b - 1) div b"

lemma chunks_Nil [simp]: "chunks n [] = []"
  by (simp add: chunks.simps)

lemma concat_chunks [simp]: "0 < n \<Longrightarrow> concat (chunks n xs) = xs"
proof (induction n xs rule: chunks.induct)
  case (1 n xs)
  then show ?case by (subst chunks.simps) auto
qed

lemma div_ceil_step:
  assumes "0 < n" and "0 < a"
  shows "div_ceil a n = Suc (div_ceil (a - n) n)"
proof (cases "a \<le> n")
  case True
  have "(a + n - 1) div n = 1" using True assms by (intro div_nat_eqI) auto
  then show ?thesis using True assms by (simp add: div_ceil_def)
next
  case False
  then have "(a + n - 1) div n = ((a - n + n - 1) + n) div n" using assms by simp
  also have "\<dots> = Suc ((a - n + n - 1) div n)" using assms by (subst div_add_self2) auto
  finally show ?thesis by (simp only: div_ceil_def)
qed

lemma length_chunks: "0 < n \<Longrightarrow> length (chunks n xs) = div_ceil (length xs) n"
proof (induction n xs rule: chunks.induct)
  case (1 n xs)
  show ?case
  proof (cases "xs = []")
    case True
    then show ?thesis using "1.prems" by (simp add: div_ceil_def)
  next
    case False
    then have "length (chunks n xs) = Suc (length (chunks n (drop n xs)))"
      using "1.prems" by (subst chunks.simps) simp
    then show ?thesis using 1 False by (simp add: div_ceil_step)
  qed
qed

lemma chunks_length: "0 < n \<Longrightarrow> c \<in> set (chunks n xs) \<Longrightarrow> 0 < length c \<and> length c \<le> n"
proof (induction n xs rule: chunks.induct)
  case (1 n xs)
  then show ?case by (subst (asm) (2) chunks.simps) (auto split: if_splits)
qed

lemma chunks_short: "0 < n \<Longrightarrow> xs \<noteq> [] \<Longrightarrow> length xs \<le> n \<Longrightarrow> chunks n xs = [xs]"
  by (subst chunks.simps) simp

section \<open>Collecting results\<close>

text \<open>\<open>iter().map(f).collect::<Result<Vec<_>>>()\<close>: the first error ends it.\<close>

fun try_map :: "('a \<Rightarrow> 'e + 'b) \<Rightarrow> 'a list \<Rightarrow> 'e + 'b list" where
  "try_map f [] = Inr []"
| "try_map f (x # xs) = rbind (f x) (\<lambda>y. rbind (try_map f xs) (\<lambda>ys. Inr (y # ys)))"

lemma try_map_Inr: "try_map f xs = Inr ys \<longleftrightarrow> length ys = length xs \<and> (\<forall>i<length xs. f (xs ! i) = Inr (ys ! i))"
proof (induction xs arbitrary: ys)
  case (Cons x xs)
  show ?case
  proof (cases ys)
    case Nil
    then show ?thesis by auto
  next
    case (Cons y ys')
    then show ?thesis using Cons.IH[of ys'] by (auto simp: nth_Cons split: nat.splits)
  qed
qed auto

lemma try_map_total: "(\<And>x. x \<in> set xs \<Longrightarrow> f x = Inr (g x)) \<Longrightarrow> try_map f xs = Inr (map g xs)"
  by (induction xs) simp_all

end
