(* ===== verification/Framing.thy ===== *)
theory Framing
  imports Protobuf Vec_Ops
begin

text \<open>
  \<open>latentmesh-meshtastic/src/framing.rs\<close>: the device-API stream framing. A reader is the
  list of bytes still to come, and reading past its end is the \<open>UnexpectedEof\<close> error,
  here \<open>None\<close>; a writer is the bytes it has been given.
\<close>

abbreviation (input) START1 :: u8 where "START1 \<equiv> 0x94"
abbreviation (input) START2 :: u8 where "START2 \<equiv> 0xc3"
abbreviation (input) MAX_DEVICE_API_FRAME_LEN :: nat where "MAX_DEVICE_API_FRAME_LEN \<equiv> 512"

section \<open>Writing\<close>

text \<open>\<open>None\<close> is the \<open>InvalidInput\<close> error.\<close>

definition write_frame :: "bytes \<Rightarrow> bytes \<Rightarrow> bytes option" where
  "write_frame writer protobuf_bytes =
     (if length protobuf_bytes > MAX_DEVICE_API_FRAME_LEN then None
      else let len = word_of_nat (length protobuf_bytes) :: u16 in
        Some (writer @ [START1, START2] @ to_be_bytes len @ protobuf_bytes))"

section \<open>Reading from a blocking reader\<close>

definition read_exact :: "nat \<Rightarrow> bytes \<Rightarrow> (bytes \<times> bytes) option" where
  "read_exact n reader = (if n \<le> length reader then Some (take n reader, drop n reader) else None)"

text \<open>The two inner loops: up to \<open>START1\<close>, and from there to \<open>START2\<close> or back out.\<close>

fun seek_start1 :: "bytes \<Rightarrow> bytes option" where
  "seek_start1 [] = None"
| "seek_start1 (b # reader) = (if b = START1 then Some reader else seek_start1 reader)"

fun seek_start2 :: "bytes \<Rightarrow> (bool \<times> bytes) option" where
  "seek_start2 [] = None"
| "seek_start2 (b # reader) =
     (if b = START2 then Some (True, reader)
      else if b \<noteq> START1 then Some (False, reader)
      else seek_start2 reader)"

lemma seek_start1_shorter: "seek_start1 bs = Some r \<Longrightarrow> length r < length bs"
  by (induction bs) (auto split: if_splits)

lemma seek_start2_shorter: "seek_start2 bs = Some (b, r) \<Longrightarrow> length r < length bs"
  by (induction bs) (auto split: if_splits)

function read_frame :: "bytes \<Rightarrow> (bytes \<times> bytes) option" where
  "read_frame reader =
     (case seek_start1 reader of
        None \<Rightarrow> None
      | Some reader1 \<Rightarrow>
        (case seek_start2 reader1 of
           None \<Rightarrow> None
         | Some (False, reader2) \<Rightarrow> read_frame reader2
         | Some (True, reader2) \<Rightarrow>
           (case read_exact 2 reader2 of
              None \<Rightarrow> None
            | Some (len_bytes, reader3) \<Rightarrow>
                let len = unat (from_be_bytes len_bytes :: u16) in
                if len > MAX_DEVICE_API_FRAME_LEN then read_frame reader3
                else read_exact len reader3)))"
  by pat_completeness auto
termination
  by (relation "measure length")
    (auto dest!: seek_start1_shorter seek_start2_shorter simp: read_exact_def split: if_splits)

declare read_frame.simps [simp del]

section \<open>The push decoder\<close>

datatype decoder_state =
    SeekingStart1
  | SeekingStart2
  | ReadingLenHigh
  | ReadingLenLow u8
  | ReadingBody nat

record frame_decoder =
  fd_state :: decoder_state
  fd_body :: bytes
  fd_ready :: "bytes list"

definition frame_decoder_new :: frame_decoder where
  "frame_decoder_new = \<lparr> fd_state = SeekingStart1, fd_body = [], fd_ready = [] \<rparr>"

definition push_byte :: "frame_decoder \<Rightarrow> u8 \<Rightarrow> frame_decoder" where
  "push_byte d byte =
     (case fd_state d of
        SeekingStart1 \<Rightarrow> d\<lparr> fd_state := if byte = START1 then SeekingStart2 else SeekingStart1 \<rparr>
      | SeekingStart2 \<Rightarrow>
          d\<lparr> fd_state := if byte = START2 then ReadingLenHigh
              else if byte = START1 then SeekingStart2 else SeekingStart1 \<rparr>
      | ReadingLenHigh \<Rightarrow> d\<lparr> fd_state := ReadingLenLow byte \<rparr>
      | ReadingLenLow high \<Rightarrow>
          let len = unat (from_be_bytes [high, byte] :: u16) in
          if len = 0 then d\<lparr> fd_ready := fd_ready d @ [[]], fd_state := SeekingStart1 \<rparr>
          else if len > MAX_DEVICE_API_FRAME_LEN then d\<lparr> fd_state := SeekingStart1 \<rparr>
          else d\<lparr> fd_body := [], fd_state := ReadingBody len \<rparr>
      | ReadingBody remaining \<Rightarrow>
          let body = fd_body d @ [byte] in
          if remaining = 1
          then d\<lparr> fd_body := [], fd_ready := fd_ready d @ [body], fd_state := SeekingStart1 \<rparr>
          else d\<lparr> fd_body := body, fd_state := ReadingBody (remaining - 1) \<rparr>)"

definition push_chunk :: "frame_decoder \<Rightarrow> bytes \<Rightarrow> frame_decoder" where
  "push_chunk d chunk = foldl push_byte d chunk"

definition pull :: "frame_decoder \<Rightarrow> frame_decoder \<times> bytes option" where
  "pull d = (case fd_ready d of [] \<Rightarrow> (d, None) | b # bs \<Rightarrow> (d\<lparr> fd_ready := bs \<rparr>, Some b))"

definition decode_single_frame :: "bytes \<Rightarrow> bytes mesh_result" where
  "decode_single_frame framed =
     (case framed of
        s1 # s2 # len_hi # len_lo # body \<Rightarrow>
          if s1 \<noteq> START1 \<or> s2 \<noteq> START2 then Inl FrameCorrupt
          else let len = unat (from_be_bytes [len_hi, len_lo] :: u16) in
            if len > MAX_DEVICE_API_FRAME_LEN \<or> len \<noteq> length body then Inl FrameTooLarge
            else Inr body
      | _ \<Rightarrow> Inl FrameCorrupt)"

section \<open>Invariant\<close>

definition decoder_inv :: "frame_decoder \<Rightarrow> bool" where
  "decoder_inv d \<longleftrightarrow> list_all (\<lambda>b. length b \<le> 512) (fd_ready d) \<and>
     (case fd_state d of ReadingBody n \<Rightarrow> 0 < n \<and> length (fd_body d) + n \<le> 512 | _ \<Rightarrow> True)"

lemma decoder_new_inv: "decoder_inv frame_decoder_new"
  by (simp add: decoder_inv_def frame_decoder_new_def)

lemma push_byte_inv: "decoder_inv d \<Longrightarrow> decoder_inv (push_byte d b)"
  by (auto simp: decoder_inv_def push_byte_def Let_def split: decoder_state.splits if_splits)

interpretation decoder: machine decoder_inv "\<lambda>d b. (push_byte d b, ())"
  by unfold_locales (simp add: push_byte_inv)

section \<open>What the decoder does with a written frame\<close>

definition framed :: "bytes \<Rightarrow> bytes" where
  "framed body = [START1, START2] @ to_be_bytes (word_of_nat (length body) :: u16) @ body"

lemma write_frame_iff: "write_frame w body = Some out \<longleftrightarrow> length body \<le> 512 \<and> out = w @ framed body"
  by (auto simp: write_frame_def framed_def Let_def)

lemma push_chunk_append [simp]: "push_chunk d (a @ b) = push_chunk (push_chunk d a) b"
  by (simp add: push_chunk_def)

lemma push_chunk_simps [simp]: "push_chunk d [] = d" "push_chunk d (b # bs) = push_chunk (push_byte d b) bs"
  by (simp_all add: push_chunk_def)

lemma be_u16_pair:
  fixes w :: u16
  obtains h l where "to_be_bytes w = [h, l]" and "from_be_bytes [h, l] = w"
proof -
  have "length (to_be_bytes w) = Suc (Suc 0)" by simp
  then obtain h l where "to_be_bytes w = [h, l]" by (auto simp only: length_Suc_conv length_0_conv)
  with that from_be_u16[of w] show thesis by simp
qed

lemma push_body:
  assumes "fd_state d = ReadingBody n" and "length xs \<le> n" and "0 < n"
  shows "push_chunk d xs =
    (if length xs < n then d\<lparr> fd_body := fd_body d @ xs, fd_state := ReadingBody (n - length xs) \<rparr>
     else d\<lparr> fd_body := [], fd_ready := fd_ready d @ [fd_body d @ xs], fd_state := SeekingStart1 \<rparr>)"
  using assms
proof (induction xs arbitrary: d n)
  case Nil
  then show ?case by (cases d) simp
next
  case (Cons x xs)
  show ?case
  proof (cases "n = 1")
    case True
    then show ?thesis using Cons.prems by (simp add: push_byte_def)
  next
    case False
    let ?d = "d\<lparr> fd_body := fd_body d @ [x], fd_state := ReadingBody (n - 1) \<rparr>"
    have "push_byte d x = ?d" using Cons.prems False by (simp add: push_byte_def)
    then show ?thesis using Cons.IH[of ?d "n - 1"] Cons.prems False by simp
  qed
qed

lemma push_length:
  assumes "fd_state d = ReadingLenHigh"
  shows "push_chunk d [h, l] =
    (let len = unat (from_be_bytes [h, l] :: u16) in
     if len = 0 then d\<lparr> fd_ready := fd_ready d @ [[]], fd_state := SeekingStart1 \<rparr>
     else if len > 512 then d\<lparr> fd_state := SeekingStart1 \<rparr>
     else d\<lparr> fd_body := [], fd_state := ReadingBody len \<rparr>)"
  using assms by (cases d) (simp add: push_byte_def Let_def)

lemma push_len_body:
  assumes "fd_state d = ReadingLenHigh" and "length body = unat (from_be_bytes [h, l] :: u16)" and "length body \<le> 512"
  shows "fd_state (push_chunk d ([h, l] @ body)) = SeekingStart1 \<and>
    fd_ready (push_chunk d ([h, l] @ body)) = fd_ready d @ [body]"
proof (cases "body = []")
  case True
  then show ?thesis using assms by (simp add: push_length Let_def del: push_chunk_simps(2))
next
  case False
  then have "unat (from_be_bytes [h, l] :: u16) \<noteq> 0" using assms(2) by (metis length_0_conv)
  then have "push_chunk d [h, l] = d\<lparr> fd_body := [], fd_state := ReadingBody (length body) \<rparr>"
    using assms by (simp add: push_length Let_def del: push_chunk_simps(2))
  moreover have "0 < length body" using False by simp
  ultimately show ?thesis
    using push_body[of "d\<lparr> fd_body := [], fd_state := ReadingBody (length body) \<rparr>" "length body" body]
    by (simp del: push_chunk_simps(2) add: push_chunk_append[of d "[h, l]" body, simplified])
qed

lemma push_garbage: "fd_state d = SeekingStart1 \<Longrightarrow> START1 \<notin> set g \<Longrightarrow> push_chunk d g = d"
proof (induction g)
  case (Cons b g)
  then have "push_byte d b = d" by (cases d) (simp add: push_byte_def)
  then show ?case using Cons by simp
qed simp

lemma push_framed:
  assumes "fd_state d = SeekingStart1" and "START1 \<notin> set g" and "length body \<le> 512"
  shows "fd_state (push_chunk d (g @ framed body)) = SeekingStart1 \<and>
    fd_ready (push_chunk d (g @ framed body)) = fd_ready d @ [body]"
proof -
  obtain h l where hl: "to_be_bytes (word_of_nat (length body) :: u16) = [h, l]"
    "from_be_bytes [h, l] = (word_of_nat (length body) :: u16)" by (rule be_u16_pair)
  have len: "length body = unat (from_be_bytes [h, l] :: u16)"
    using assms(3) by (simp add: hl(2) unat_of_nat)
  have "push_chunk d (g @ [START1, START2]) = d\<lparr> fd_state := ReadingLenHigh \<rparr>"
    using assms(1) push_garbage[OF assms(1,2)] by (simp add: push_byte_def)
  moreover have "push_chunk d (g @ framed body) =
      push_chunk (push_chunk d (g @ [START1, START2])) ([h, l] @ body)"
    unfolding push_chunk_append[symmetric] framed_def hl(1) by simp
  ultimately show ?thesis
    using push_len_body[of "d\<lparr> fd_state := ReadingLenHigh \<rparr>" body h l] len assms(3) by simp
qed

section \<open>The blocking reader and the push decoder agree\<close>

lemma seek_start1_push:
  assumes "fd_state d = SeekingStart1"
  shows "case seek_start1 bs of None \<Rightarrow> push_chunk d bs = d
    | Some r \<Rightarrow> \<exists>pre. bs = pre @ r \<and> push_chunk d pre = d\<lparr> fd_state := SeekingStart2 \<rparr>"
  using assms
proof (induction bs)
  case (Cons b bs)
  show ?case
  proof (cases "b = START1")
    case True
    then have "push_chunk d [b] = d\<lparr> fd_state := SeekingStart2 \<rparr>" using Cons.prems by (simp add: push_byte_def)
    then show ?thesis using True by (auto intro!: exI[of _ "[b]"])
  next
    case False
    then have "push_byte d b = d" using Cons.prems by (cases d) (simp add: push_byte_def)
    then show ?thesis
      using Cons False by (auto split: option.splits intro: exI[of _ "b # _"])
  qed
qed simp

lemma seek_start2_push:
  assumes "fd_state d = SeekingStart2"
  shows "case seek_start2 bs of None \<Rightarrow> push_chunk d bs = d
    | Some (ok, r) \<Rightarrow> \<exists>pre. bs = pre @ r \<and>
        push_chunk d pre = d\<lparr> fd_state := if ok then ReadingLenHigh else SeekingStart1 \<rparr>"
  using assms
proof (induction bs)
  case (Cons b bs)
  show ?case
  proof (cases "b = START1")
    case True
    then have "push_byte d b = d" using Cons.prems by (cases d) (simp add: push_byte_def)
    then show ?thesis
      using Cons True by (auto split: option.splits intro: exI[of _ "b # _"])
  next
    case False
    then have "push_chunk d [b] = d\<lparr> fd_state := if b = START2 then ReadingLenHigh else SeekingStart1 \<rparr>"
      using Cons.prems by (simp add: push_byte_def)
    then show ?thesis using False by (auto intro!: exI[of _ "[b]"])
  qed
qed simp


lemma push_read_exact:
  assumes "fd_state d = ReadingBody n" and "fd_body d = []" and "0 < n"
  shows "case read_exact n bs of None \<Rightarrow> fd_ready (push_chunk d bs) = fd_ready d
    | Some (body, r) \<Rightarrow> bs = body @ r \<and> fd_state (push_chunk d body) = SeekingStart1 \<and>
        fd_ready (push_chunk d body) = fd_ready d @ [body]"
  using assms push_body[OF assms(1), of bs] push_body[OF assms(1), of "take n bs"]
  by (simp add: read_exact_def del: push_chunk_simps(2))

text \<open>From a decoder between two frames: what the blocking reader returns is the next body the
  decoder makes ready, both having taken the same bytes, and where the reader runs out of input the
  decoder has made nothing ready.\<close>

definition tracks :: "frame_decoder \<Rightarrow> bytes \<Rightarrow> (bytes \<times> bytes) option \<Rightarrow> bool" where
  "tracks d bs res \<longleftrightarrow> (case res of None \<Rightarrow> fd_ready (push_chunk d bs) = fd_ready d
     | Some (body, r) \<Rightarrow> \<exists>pre. bs = pre @ r \<and> fd_state (push_chunk d pre) = SeekingStart1 \<and>
         fd_ready (push_chunk d pre) = fd_ready d @ [body])"

lemma tracks_prefix:
  assumes "tracks (push_chunk d p) bs res" and "fd_ready (push_chunk d p) = fd_ready d"
  shows "tracks d (p @ bs) res"
proof (cases res)
  case None
  then show ?thesis using assms by (simp add: tracks_def)
next
  case (Some br)
  then obtain body r where "res = Some (body, r)" by (cases br) simp
  moreover from this obtain pre where "bs = pre @ r" "fd_state (push_chunk (push_chunk d p) pre) = SeekingStart1"
    "fd_ready (push_chunk (push_chunk d p) pre) = fd_ready d @ [body]" using assms by (auto simp: tracks_def)
  ultimately show ?thesis by (auto simp: tracks_def intro!: exI[of _ "p @ pre"])
qed

lemma tracks_start1:
  assumes "fd_state d = SeekingStart1" and "seek_start1 bs = None" shows "tracks d bs None"
  using seek_start1_push[OF assms(1), of bs] assms(2) by (simp add: tracks_def)

lemma tracks_start2:
  assumes "fd_state d = SeekingStart2" and "seek_start2 bs = None" shows "tracks d bs None"
  using seek_start2_push[OF assms(1), of bs] assms(2) by (simp add: tracks_def)

text \<open>From the length on.\<close>

lemma tracks_length_short:
  assumes "fd_state d = ReadingLenHigh" and "read_exact 2 bs = None" shows "tracks d bs None"
proof -
  have "bs = [] \<or> (\<exists>b. bs = [b])" using assms(2) by (cases bs rule: remdups_adj.cases) (auto simp: read_exact_def)
  then show ?thesis using assms(1) by (auto simp: tracks_def push_byte_def)
qed

lemma tracks_body:
  assumes "fd_state d = ReadingLenHigh" and "unat (from_be_bytes [h, l] :: u16) \<le> 512"
  shows "tracks d (h # l # bs) (read_exact (unat (from_be_bytes [h, l] :: u16)) bs)"
proof (cases "unat (from_be_bytes [h, l] :: u16) \<le> length bs")
  case True
  let ?n = "unat (from_be_bytes [h, l] :: u16)"
  show ?thesis
    using push_len_body[of d "take ?n bs" h l] assms True
    by (auto simp: tracks_def read_exact_def simp del: push_chunk_simps intro!: exI[of _ "h # l # take ?n bs"])
next
  case False
  let ?n = "unat (from_be_bytes [h, l] :: u16)"
  have "push_chunk d [h, l] = d\<lparr> fd_body := [], fd_state := ReadingBody ?n \<rparr>"
    using assms False by (auto simp: push_length Let_def simp del: push_chunk_simps(2))
  then have "tracks d ([h, l] @ bs) None"
    using push_body[of "d\<lparr> fd_body := [], fd_state := ReadingBody ?n \<rparr>" ?n bs] False
    by (intro tracks_prefix) (simp_all add: tracks_def)
  then show ?thesis using False by (simp add: read_exact_def)
qed

lemma read_frame_push: "fd_state d = SeekingStart1 \<Longrightarrow> tracks d bs (read_frame bs)"
proof (induction bs arbitrary: d rule: read_frame.induct)
  case (1 bs)
  show ?case
  proof (cases "seek_start1 bs")
    case None
    then show ?thesis using tracks_start1[OF "1.prems"] by (simp add: read_frame.simps[of bs])
  next
    case s1: (Some bs1)
    let ?d2 = "d\<lparr> fd_state := SeekingStart2 \<rparr>"
    obtain p1 where p1: "bs = p1 @ bs1" "push_chunk d p1 = ?d2"
      using seek_start1_push[OF "1.prems", of bs] s1 by auto
    have "tracks ?d2 bs1 (read_frame bs)"
    proof (cases "seek_start2 bs1")
      case None
      then show ?thesis using tracks_start2[of ?d2 bs1] s1 by (simp add: read_frame.simps[of bs])
    next
      case s2: (Some okr)
      obtain ok bs2 where okr: "okr = (ok, bs2)" by (cases okr)
      obtain p2 where p2: "bs1 = p2 @ bs2"
        "push_chunk ?d2 p2 = d\<lparr> fd_state := if ok then ReadingLenHigh else SeekingStart1 \<rparr>"
        using seek_start2_push[of ?d2 bs1] s2 okr by auto
      have "tracks (push_chunk ?d2 p2) bs2 (read_frame bs)"
      proof (cases ok)
        case False
        then have "read_frame bs = read_frame bs2" using s1 s2 okr by (simp add: read_frame.simps[of bs])
        then show ?thesis using "1.IH"(2)[OF s1 s2 okr[symmetric], of "d\<lparr> fd_state := SeekingStart1 \<rparr>"] False p2(2) by simp
      next
        case True
        let ?d3 = "d\<lparr> fd_state := ReadingLenHigh \<rparr>"
        have rf: "read_frame bs = (case read_exact 2 bs2 of None \<Rightarrow> None
          | Some (lb, bs3) \<Rightarrow> if unat (from_be_bytes lb :: u16) > 512 then read_frame bs3
              else read_exact (unat (from_be_bytes lb :: u16)) bs3)"
          using s1 s2 okr True by (simp add: read_frame.simps[of bs] Let_def cong: option.case_cong)
        show ?thesis
        proof (cases "read_exact 2 bs2")
          case None
          then show ?thesis using tracks_length_short[of ?d3 bs2] p2(2) True rf by simp
        next
          case s3: (Some lr)
          then obtain h l bs3 where lr: "lr = ([h, l], bs3)" "bs2 = h # l # bs3"
            by (cases bs2 rule: remdups_adj.cases) (auto simp: read_exact_def numeral_2_eq_2 split: if_splits)
          show ?thesis
          proof (cases "unat (from_be_bytes [h, l] :: u16) > 512")
            case long: True
            have "tracks (push_chunk ?d3 [h, l]) bs3 (read_frame bs3)"
              using "1.IH"(1)[OF s1 s2 okr[symmetric] eqTrueI[OF True] s3 lr(1)[symmetric] refl long, of "push_chunk ?d3 [h, l]"] True long
              by (simp add: push_length Let_def del: push_chunk_simps(2))
            then have "tracks ?d3 ([h, l] @ bs3) (read_frame bs3)"
              by (rule tracks_prefix) (use long in \<open>simp add: push_length Let_def del: push_chunk_simps(2)\<close>)
            then show ?thesis using long p2(2) True rf s3 lr by simp
          next
            case False
            then show ?thesis using tracks_body[of ?d3 h l bs3] p2(2) True rf s3 lr by simp
          qed
        qed
      qed
      then show ?thesis unfolding p2(1) by (rule tracks_prefix) (simp add: p2(2))
    qed
    then show ?thesis using tracks_prefix[of d p1 bs1] p1 by simp
  qed
qed

lemma single_frame_iff: "decode_single_frame frame = Inr body \<longleftrightarrow> write_frame [] body = Some frame"
proof
  assume "write_frame [] body = Some frame"
  then have f: "frame = framed body" "length body \<le> 512" by (simp_all add: write_frame_iff)
  obtain h l where hl: "to_be_bytes (word_of_nat (length body) :: u16) = [h, l]"
    "from_be_bytes [h, l] = (word_of_nat (length body) :: u16)" by (rule be_u16_pair)
  then show "decode_single_frame frame = Inr body"
    using f by (simp add: decode_single_frame_def framed_def unat_of_nat)
next
  assume r: "decode_single_frame frame = Inr body"
  then obtain h l where f: "frame = START1 # START2 # h # l # body"
    and len: "unat (from_be_bytes [h, l] :: u16) = length body" "length body \<le> 512"
    by (auto simp: decode_single_frame_def Let_def split: list.splits if_splits)
  have "to_be_bytes (from_be_bytes [h, l] :: u16) = [h, l]" by (rule to_be_u16) simp
  moreover have "word_of_nat (length body) = (from_be_bytes [h, l] :: u16)"
    unfolding len(1)[symmetric] by simp
  ultimately show "write_frame [] body = Some frame" using f len(2) by (simp add: write_frame_iff framed_def)
qed

section \<open>Properties\<close>

lemma push_chunks_concat: "foldl push_chunk d pieces = push_chunk d (concat pieces)"
  by (induction pieces arbitrary: d) simp_all

lemma push_frames:
  assumes "fd_state d = SeekingStart1"
    and "list_all (\<lambda>(garbage, body, frame). START1 \<notin> set garbage \<and> write_frame [] body = Some frame) items"
  shows "fd_state (push_chunk d (concat (map (\<lambda>(garbage, body, frame). garbage @ frame) items))) = SeekingStart1 \<and>
    fd_ready (push_chunk d (concat (map (\<lambda>(garbage, body, frame). garbage @ frame) items))) =
      fd_ready d @ map (\<lambda>(garbage, body, frame). body) items"
  using assms
proof (induction items arbitrary: d)
  case (Cons i items)
  obtain g b f where i: "i = (g, b, f)" by (rule prod_cases3)
  let ?d = "push_chunk d (g @ framed b)"
  have "fd_state ?d = SeekingStart1 \<and> fd_ready ?d = fd_ready d @ [b]" and "f = framed b"
    using push_framed[of d g b] Cons.prems i by (simp_all add: write_frame_iff)
  moreover have "push_chunk d (concat (map (\<lambda>(garbage, body, frame). garbage @ frame) (i # items))) =
      push_chunk ?d (concat (map (\<lambda>(garbage, body, frame). garbage @ frame) items))"
    by (simp add: i calculation(2))
  ultimately show ?case using Cons.IH[of ?d] Cons.prems i by simp
qed simp

text \<open>Frames survive any chunking and any garbage free of the start byte between them: however
  the bytes of written frames are split over calls of \<open>push\<close>, the decoder makes ready exactly the
  bodies that were written, in order, and is back between two frames.\<close>

theorem decoder_recovers_frames:
  assumes "list_all (\<lambda>(garbage, body, frame). START1 \<notin> set garbage \<and> write_frame [] body = Some frame) items"
    and "concat pieces = concat (map (\<lambda>(garbage, body, frame). garbage @ frame) items)"
  shows "fd_ready (foldl push_chunk frame_decoder_new pieces) = map (\<lambda>(garbage, body, frame). body) items \<and>
    fd_state (foldl push_chunk frame_decoder_new pieces) = SeekingStart1"
  using push_frames[of frame_decoder_new items] assms
  by (simp add: push_chunks_concat frame_decoder_new_def)

theorem decoder_recovers_frames_witness:
  "fd_ready (foldl push_chunk frame_decoder_new
     [[0, 0xff, 0x94], [0xc3, 0], [2, 7], [8, 0x94, 0xc3, 0, 0]]) = [[7, 8], []]"
proof -
  let ?items = "[([0, 0xff], [7, 8], [0x94, 0xc3, 0, 2, 7, 8]), ([], [], [0x94, 0xc3, 0, 0])]"
  have "list_all (\<lambda>(garbage, body, frame). START1 \<notin> set garbage \<and> write_frame [] body = Some frame) ?items"
    by code_simp
  from decoder_recovers_frames[OF this, of "[[0, 0xff, 0x94], [0xc3, 0], [2, 7], [8, 0x94, 0xc3, 0, 0]]"]
  show ?thesis by (simp del: push_chunk_simps foldl_Cons)
qed

text \<open>C10. The blocking reader and the push decoder accept the same streams: whatever bytes arrive,
  when \<open>read_frame\<close> returns a body, the decoder has pulled out the same body from the very bytes the
  reader consumed, and when \<open>read_frame\<close> runs out of input the decoder has nothing to pull.\<close>

theorem reader_agrees_with_decoder:
  "case read_frame bs of
     None \<Rightarrow> snd (pull (push_chunk frame_decoder_new bs)) = None
   | Some (body, rest) \<Rightarrow> \<exists>consumed. bs = consumed @ rest \<and>
       snd (pull (push_chunk frame_decoder_new consumed)) = Some body \<and>
       fd_state (push_chunk frame_decoder_new consumed) = SeekingStart1"
proof -
  have "tracks frame_decoder_new bs (read_frame bs)"
    by (rule read_frame_push) (simp add: frame_decoder_new_def)
  moreover have "fd_ready frame_decoder_new = []" by (simp add: frame_decoder_new_def)
  moreover have "snd (pull d) = (case fd_ready d of [] \<Rightarrow> None | b # _ \<Rightarrow> Some b)" for d
    by (simp add: pull_def split: list.split)
  ultimately show ?thesis by (auto simp: tracks_def split: option.splits)
qed

text \<open>The one-shot decoder accepts exactly what the writer writes, so nothing truncated, over-long
  or with other leading bytes passes.\<close>

theorem single_frame_exact: "decode_single_frame frame = Inr body \<longleftrightarrow> write_frame [] body = Some frame"
  by (rule single_frame_iff)

end
