(* ===== verification/Crc32c.thy ===== *)
theory Crc32c
  imports Prelude
begin

text \<open>
  \<open>latentmesh-air-core/src/crc32c.rs\<close>: the table-free, reflected Castagnoli CRC. The bit
  loop is a linear injective map on the 32-bit register, so the register after up to
  four bytes determines those bytes: every error burst confined to four consecutive
  bytes changes the checksum.
\<close>

section \<open>The routine\<close>

definition crc_step :: "u32 \<Rightarrow> u32" where
  "crc_step crc = (let mask = 0 - (crc AND 1) in drop_bit 1 crc XOR (0x82f63b78 AND mask))"

definition crc_byte :: "u32 \<Rightarrow> u8 \<Rightarrow> u32" where
  "crc_byte crc b = (crc_step ^^ 8) (crc XOR ucast b)"

definition crc32c :: "bytes \<Rightarrow> u32" where
  "crc32c bs = NOT (foldl crc_byte (NOT 0) bs)"

section \<open>The register map\<close>

lemma and_one_word: "(x :: 'a::len word) AND 1 = (if odd x then 1 else 0)"
  by (simp add: and_one_eq odd_iff_mod_2_eq_one)

lemma crc_step_alt: "crc_step c = drop_bit 1 c XOR (if odd c then 0x82f63b78 else 0)"
  by (simp add: crc_step_def and_one_word)

lemma odd_xor_word: "odd (x XOR y :: 'a::len word) \<longleftrightarrow> odd x \<noteq> odd y"
  by (simp flip: bit_0 add: bit_xor_iff)

lemma crc_step_xor: "crc_step (x XOR y) = crc_step x XOR crc_step y"
  by (cases "odd x"; cases "odd y")
    (simp_all add: crc_step_alt odd_xor_word drop_bit_xor ac_simps)

lemma crc_step_top: "bit (crc_step c) 31 \<longleftrightarrow> odd c"
proof -
  have "bit (drop_bit 1 c) 31 = False" by (simp add: bit_drop_bit_eq impossible_bit)
  moreover have "bit (0x82f63b78 :: u32) 31" by simp
  ultimately show ?thesis by (simp add: crc_step_alt bit_xor_iff)
qed

lemma xor_right_cancel: "x XOR z = y XOR z \<longleftrightarrow> x = (y :: 'a::len word)"
  by (metis xor.assoc xor_self_eq xor.right_neutral)

lemma crc_step_inj: "crc_step x = crc_step y \<Longrightarrow> x = y"
proof -
  assume eq: "crc_step x = crc_step y"
  then have odd: "odd x \<longleftrightarrow> odd y" by (metis crc_step_top)
  with eq have "drop_bit 1 x = drop_bit 1 y"
    by (simp add: crc_step_alt xor_right_cancel)
  then have "bit x (Suc n) = bit y (Suc n)" for n
    by (metis bit_drop_bit_eq comp_apply plus_1_eq_Suc)
  moreover have "bit x 0 = bit y 0" using odd by (simp add: bit_0)
  ultimately show "x = y"
    by (metis bit_word_eqI not0_implies_Suc)
qed

lemma crc_steps_xor: "(crc_step ^^ n) (x XOR y) = (crc_step ^^ n) x XOR (crc_step ^^ n) y"
  by (induction n) (simp_all add: crc_step_xor)

lemma crc_steps_inj: "(crc_step ^^ n) x = (crc_step ^^ n) y \<Longrightarrow> x = y"
  by (induction n) (auto dest: crc_step_inj)

lemma funpow_8: "(f ^^ 8) x = f (f (f (f (f (f (f (f x)))))))"
  by (simp add: numeral_eq_Suc)

lemmas crc_eval = crc32c_def crc_byte_def funpow_8 crc_step_alt

lemma crc32c_check_value: "crc32c [0x31, 0x32, 0x33, 0x34, 0x35, 0x36, 0x37, 0x38, 0x39] = 0xe3069283"
  by (simp add: crc_eval)

section \<open>Bursts of at most four bytes\<close>

text \<open>\<open>le_word bs\<close> is the 32-bit little-endian value of up to four bytes.\<close>

fun le_word :: "bytes \<Rightarrow> u32" where
  "le_word [] = 0"
| "le_word (b # bs) = ucast b XOR push_bit 8 (le_word bs)"

lemma bit_le_word_bound: "8 * length bs \<le> n \<Longrightarrow> \<not> bit (le_word bs) n"
proof (induction bs arbitrary: n)
  case Nil
  then show ?case by simp
next
  case (Cons b bs)
  from Cons.prems have "\<not> bit (le_word bs) (n - 8)" by (intro Cons.IH) simp
  moreover have "\<not> bit b n" using Cons.prems by (intro bit_word.rep_eq impossible_bit) simp
  ultimately show ?case by (simp add: bit_simps)
qed

lemma bit_crc_step: "\<not> bit y 0 \<Longrightarrow> crc_step y = drop_bit 1 y"
  by (simp add: crc_step_alt bit_0)

lemma crc_steps_low_zero:
  assumes "\<And>i. i < n \<Longrightarrow> \<not> bit y i"
  shows "(crc_step ^^ n) y = drop_bit n y"
  using assms
proof (induction n)
  case 0
  then show ?case by simp
next
  case (Suc n)
  then have "(crc_step ^^ n) y = drop_bit n y" by simp
  moreover have "\<not> bit (drop_bit n y) 0" using Suc.prems by (simp add: bit_drop_bit_eq)
  ultimately show ?case by (simp add: bit_crc_step)
qed

lemma drop_push_bit_8:
  assumes "\<And>i. 24 \<le> i \<Longrightarrow> \<not> bit y i"
  shows "drop_bit 8 (push_bit 8 (y :: u32)) = y"
proof (rule bit_word_eqI)
  fix n
  assume "n < LENGTH(32)"
  show "bit (drop_bit 8 (push_bit 8 y)) n = bit y n"
    using assms[of n] by (cases "n < 24") (auto simp: bit_simps)
qed

lemma foldl_crc_byte:
  assumes "length bs \<le> 4"
  shows "foldl crc_byte s bs = (crc_step ^^ (8 * length bs)) (s XOR le_word bs)"
  using assms
proof (induction bs arbitrary: s)
  case Nil
  then show ?case by simp
next
  case (Cons b bs)
  let ?y = "le_word bs" and ?S = "\<lambda>n. crc_step ^^ n"
  have zero: "\<not> bit ?y i" if "24 \<le> i" for i
    using bit_le_word_bound[of bs i] that Cons.prems by simp
  have "?S 8 (push_bit 8 ?y) = drop_bit 8 (push_bit 8 ?y)"
    by (rule crc_steps_low_zero) (simp add: bit_simps)
  then have shift: "?S 8 (push_bit 8 ?y) = ?y" using zero by (simp add: drop_push_bit_8)
  have "foldl crc_byte s (b # bs) = ?S (8 * length bs) (crc_byte s b XOR ?y)"
    using Cons by simp
  also have "crc_byte s b XOR ?y = ?S 8 (s XOR le_word (b # bs))"
    by (simp only: crc_byte_def le_word.simps shift crc_steps_xor xor.assoc [symmetric])
  also have "?S (8 * length bs) (?S 8 (s XOR le_word (b # bs)))
      = ?S (8 * length (b # bs)) (s XOR le_word (b # bs))"
    by (simp only: length_Cons mult_Suc_right add.commute [of 8] funpow_add comp_apply)
  finally show ?case .
qed

lemma le_word_inj:
  assumes "length xs = length ys" and "length xs \<le> 4" and "le_word xs = le_word ys"
  shows "xs = ys"
  using assms
proof (induction xs ys rule: list_induct2)
  case Nil
  then show ?case by simp
next
  case (Cons x xs y ys)
  have low: "bit (le_word (z # zs)) n = bit z n" if "n < 8" for n z zs
    using that by (auto simp: bit_simps)
  have "x = y"
  proof (rule bit_word_eqI)
    fix n assume "n < LENGTH(8)"
    then show "bit x n = bit y n" using Cons.prems low[of n x xs] low[of n y ys] by simp
  qed
  then have "push_bit 8 (le_word xs) = push_bit 8 (le_word ys)"
    using Cons.prems by (metis le_word.simps(2) xor.commute xor_right_cancel)
  moreover have "drop_bit 8 (push_bit 8 (le_word zs)) = le_word zs" if "length zs \<le> 3" for zs
    using bit_le_word_bound[of zs] that by (intro drop_push_bit_8) simp
  moreover have "length xs \<le> 3" and "length ys \<le> 3" using Cons.prems Cons.hyps by auto
  ultimately have "le_word xs = le_word ys" by metis
  with Cons \<open>x = y\<close> show ?case by simp
qed

lemma crc_byte_inj: "crc_byte s b = crc_byte t b \<Longrightarrow> s = t"
  by (auto simp: crc_byte_def xor_right_cancel dest: crc_steps_inj)

lemma foldl_crc_inj: "foldl crc_byte s bs = foldl crc_byte t bs \<Longrightarrow> s = t"
  by (induction bs arbitrary: s t) (auto dest: crc_byte_inj)

text \<open>Two messages that differ only inside a window of at most four bytes have different
  checksums.\<close>

lemma crc32c_burst:
  assumes "length xs = length ys" and "length xs \<le> 4"
    and "crc32c (ps @ xs @ ss) = crc32c (ps @ ys @ ss)"
  shows "xs = ys"
proof -
  let ?s = "foldl crc_byte (NOT 0) ps"
  have "foldl crc_byte (foldl crc_byte ?s xs) ss = foldl crc_byte (foldl crc_byte ?s ys) ss"
    using assms(3) by (simp only: crc32c_def foldl_append bit.compl_eq_compl_iff)
  then have "foldl crc_byte ?s xs = foldl crc_byte ?s ys" by (rule foldl_crc_inj)
  then have "?s XOR le_word xs = ?s XOR le_word ys"
    using assms(1,2) crc_steps_inj[of "8 * length xs"] by (simp only: foldl_crc_byte)
  then have "le_word xs = le_word ys"
    using xor_right_cancel[of "le_word xs" ?s "le_word ys"] by (simp add: xor.commute)
  with assms(1,2) show ?thesis by (rule le_word_inj)
qed

end
