(* ===== verification/Wire.thy ===== *)
theory Wire
  imports Air_Error Crc32c
begin

text \<open>
  \<open>latentmesh-air-core/src/wire.rs\<close>: the physical frame, its header nibbles, its CRC
  trailer, and the encoder and decoder. The format is canonical in both directions, and
  the decoder rejects every corruption confined to four consecutive bytes in front of
  the trailer.
\<close>

section \<open>Header fields\<close>

datatype wire_profile =
    Wifi | Ble | HfBpsk | HfAfsk | VhfAfsk | VhfCpfsk | AmAudio | FmAudio | HamPacket
  | Meshtastic

fun profile_code :: "wire_profile \<Rightarrow> u8" where
  "profile_code Wifi = 0"
| "profile_code Ble = 1"
| "profile_code HfBpsk = 2"
| "profile_code HfAfsk = 3"
| "profile_code VhfAfsk = 4"
| "profile_code VhfCpfsk = 5"
| "profile_code AmAudio = 6"
| "profile_code FmAudio = 7"
| "profile_code HamPacket = 8"
| "profile_code Meshtastic = 9"

definition profile_try_from :: "u8 \<Rightarrow> wire_profile air_result" where
  "profile_try_from v =
     (if v = 0 then Inr Wifi else if v = 1 then Inr Ble else if v = 2 then Inr HfBpsk
      else if v = 3 then Inr HfAfsk else if v = 4 then Inr VhfAfsk
      else if v = 5 then Inr VhfCpfsk else if v = 6 then Inr AmAudio
      else if v = 7 then Inr FmAudio else if v = 8 then Inr HamPacket
      else if v = 9 then Inr Meshtastic else Inl InvalidProfile)"

datatype frame_flags = FrameFlags (flag_bits: u8)

definition ACK_REQUEST :: frame_flags where "ACK_REQUEST = FrameFlags 0x10"
definition FEC :: frame_flags where "FEC = FrameFlags 0x20"
definition CONTROL :: frame_flags where "CONTROL = FrameFlags 0x40"
definition SIGNED_ENVELOPE :: frame_flags where "SIGNED_ENVELOPE = FrameFlags 0x80"
definition FLAGS_NONE :: frame_flags where "FLAGS_NONE = FrameFlags 0"

definition flags_from_bits :: "u8 \<Rightarrow> frame_flags air_result" where
  "flags_from_bits bits =
     (if bits AND 0x0f \<noteq> 0 then Inl InvalidFlags else Inr (FrameFlags bits))"

definition flags_contains :: "frame_flags \<Rightarrow> frame_flags \<Rightarrow> bool" where
  "flags_contains self other \<longleftrightarrow> flag_bits self AND flag_bits other = flag_bits other"

definition flags_union :: "frame_flags \<Rightarrow> frame_flags \<Rightarrow> frame_flags" where
  "flags_union self other = FrameFlags (flag_bits self OR flag_bits other)"

datatype semantic_class = Telemetry | StateDelta | Acknowledgement | Control | Diagnostic

fun class_code :: "semantic_class \<Rightarrow> u8" where
  "class_code Telemetry = 0"
| "class_code StateDelta = 1"
| "class_code Acknowledgement = 2"
| "class_code Control = 3"
| "class_code Diagnostic = 4"

definition class_try_from :: "u8 \<Rightarrow> semantic_class air_result" where
  "class_try_from v =
     (if v = 0 then Inr Telemetry else if v = 1 then Inr StateDelta
      else if v = 2 then Inr Acknowledgement else if v = 3 then Inr Control
      else if v = 4 then Inr Diagnostic else Inl InvalidClass)"

section \<open>The frame\<close>

record sparse_radio_frame =
  f_profile :: wire_profile
  f_flags :: frame_flags
  f_stream_id :: u16
  f_sequence :: u16
  f_fragment_index :: u8
  f_fragment_count :: u8
  f_class :: semantic_class
  f_priority :: u8
  f_state_tag :: u16
  f_payload :: bytes

definition frame_validate :: "sparse_radio_frame \<Rightarrow> unit air_result" where
  "frame_validate f =
     (if f_priority f > 15 \<or> length (f_payload f) > FRAME_MAX_PAYLOAD then Inl InvalidLength
      else if f_fragment_count f = 0 \<or> unat (f_fragment_count f) > MAX_FRAGMENTS
           \<or> f_fragment_index f \<ge> f_fragment_count f then Inl InvalidFragment
      else rbind (flags_from_bits (flag_bits (f_flags f))) (\<lambda>_. Inr ()))"

definition frame_encoded_len :: "sparse_radio_frame \<Rightarrow> nat" where
  "frame_encoded_len f = FRAME_MIN_BYTES + length (f_payload f)"

text \<open>The bytes covered by the checksum.\<close>

definition frame_body :: "sparse_radio_frame \<Rightarrow> bytes" where
  "frame_body f =
     [0xa1, flag_bits (f_flags f) OR profile_code (f_profile f)]
     @ to_be_bytes (f_stream_id f)
     @ to_be_bytes (f_sequence f)
     @ [f_fragment_index f, f_fragment_count f,
        push_bit 4 (class_code (f_class f)) OR f_priority f,
        word_of_nat (length (f_payload f))]
     @ to_be_bytes (f_state_tag f)
     @ f_payload f"

definition frame_encode :: "sparse_radio_frame \<Rightarrow> bytes air_result" where
  "frame_encode f =
     rbind (frame_validate f) (\<lambda>_.
       let out = frame_body f in Inr (out @ to_be_bytes (crc32c out)))"

definition frame_decode :: "bytes \<Rightarrow> sparse_radio_frame air_result" where
  "frame_decode input =
     (if \<not> (FRAME_MIN_BYTES \<le> length input \<and> length input \<le> FRAME_MAX_BYTES)
      then Inl InvalidLength
      else if input ! 0 AND 0xf0 \<noteq> 0xa0 then Inl InvalidMarker
      else if input ! 0 \<noteq> 0xa1 then Inl UnsupportedVersion
      else let payload_len = unat (input ! 9); expected_len = FRAME_MIN_BYTES + payload_len in
        if length input \<noteq> expected_len then Inl InvalidLength
        else let check_at = length input - 4;
                 expected = from_be_bytes [input ! check_at, input ! (check_at + 1),
                              input ! (check_at + 2), input ! (check_at + 3)] in
          if crc32c (take check_at input) \<noteq> expected then Inl CrcMismatch
          else let combined = input ! 1; class_priority = input ! 8 in
            rbind (profile_try_from (combined AND 0x0f)) (\<lambda>profile.
            rbind (flags_from_bits (combined AND 0xf0)) (\<lambda>flags.
            rbind (class_try_from (drop_bit 4 class_priority)) (\<lambda>cls.
              let frame = \<lparr> f_profile = profile, f_flags = flags,
                f_stream_id = from_be_bytes [input ! 2, input ! 3],
                f_sequence = from_be_bytes [input ! 4, input ! 5],
                f_fragment_index = input ! 6, f_fragment_count = input ! 7,
                f_class = cls, f_priority = class_priority AND 0x0f,
                f_state_tag = from_be_bytes [input ! 10, input ! 11],
                f_payload = slice FRAME_HEADER_BYTES check_at input \<rparr>
              in rbind (frame_validate frame) (\<lambda>_. Inr frame)))))"

definition state_hash_tag :: "bytes \<Rightarrow> u16" where
  "state_hash_tag hash = from_be_bytes [hash ! 0, hash ! 1]"

section \<open>Codes and nibbles\<close>

lemma profile_try_from_code [simp]: "profile_try_from (profile_code p) = Inr p"
  by (cases p) (simp_all add: profile_try_from_def)

lemma profile_try_from_Inr: "profile_try_from v = Inr p \<Longrightarrow> profile_code p = v"
  by (auto simp: profile_try_from_def split: if_splits)

lemma class_try_from_code [simp]: "class_try_from (class_code c) = Inr c"
  by (cases c) (simp_all add: class_try_from_def)

lemma class_try_from_Inr: "class_try_from v = Inr c \<Longrightarrow> class_code c = v"
  by (auto simp: class_try_from_def split: if_splits)

lemma flags_from_bits_Inr [simp]:
  "flags_from_bits b = Inr fl \<longleftrightarrow> b AND 0x0f = 0 \<and> fl = FrameFlags b"
  by (auto simp: flags_from_bits_def)

lemma profile_code_nibble: "profile_code p AND 0xf0 = 0" "profile_code p AND 0x0f = profile_code p"
  by (cases p; simp)+

lemma class_code_nibble: "drop_bit 4 (push_bit 4 (class_code c)) = class_code c"
  "push_bit 4 (class_code c) AND 0x0f = 0"
  by (cases c; simp)+

lemma and_255: "(x :: u8) AND 255 = x"
proof -
  have "(255 :: u8) = - 1" by simp
  then show ?thesis by (simp only: and.right_neutral)
qed

lemma or_and_nibbles: "((x :: u8) AND 0x0f) OR (x AND 0xf0) = x"
  by (simp flip: bit.conj_disj_distrib add: and_255)

lemma nibble_high: "(x :: u8) AND 0x0f = 0 \<Longrightarrow> x AND 0xf0 = x"
  using or_and_nibbles[of x] by simp

lemma low_nibble_le: "(p :: u8) \<le> 15 \<longleftrightarrow> p AND 0x0f = p"
proof
  assume "p AND 0x0f = p"
  then show "p \<le> 15" by (metis word_and_le1)
next
  assume "p \<le> 15"
  then have "take_bit 4 p = p"
    by (intro word_unat_eq_iff [THEN iffD2]) (simp only: unsigned_take_bit_eq, simp add: take_bit_eq_mod word_le_nat_alt)
  then show "p AND 0x0f = p" by (simp add: take_bit_eq_mask mask_numeral)
qed

lemma drop_low_nibble: "(p :: u8) \<le> 15 \<Longrightarrow> drop_bit 4 p = 0"
proof -
  assume "p \<le> 15"
  then have "unat (drop_bit 4 p) = 0"
    by (simp only: unat_drop_bit_eq) (simp add: drop_bit_eq_div word_le_nat_alt)
  then show ?thesis by (simp only: unat_eq_0)
qed

lemma push_drop_nibble: "push_bit 4 (drop_bit 4 x) OR (x AND 0x0f) = (x :: u8)"
proof -
  have "push_bit 4 (drop_bit 4 x) OR take_bit 4 x = x"
    by (rule bit_word_eqI) (auto simp: bit_simps)
  then show ?thesis by (simp add: take_bit_eq_mask mask_numeral)
qed

lemma nibble_pair:
  assumes "(a :: u8) AND 0x0f = 0" and "c AND 0xf0 = 0"
  shows "(a OR c) AND 0x0f = c AND 0x0f" and "(a OR c) AND 0xf0 = a"
  using assms by (simp_all add: bit.conj_disj_distrib2 nibble_high)

section \<open>Validation, encoding and decoding\<close>

lemma frame_validate_Inr:
  "frame_validate f = Inr u \<longleftrightarrow>
     f_priority f \<le> 15 \<and> length (f_payload f) \<le> FRAME_MAX_PAYLOAD \<and>
     f_fragment_count f \<noteq> 0 \<and> unat (f_fragment_count f) \<le> MAX_FRAGMENTS \<and>
     f_fragment_index f < f_fragment_count f \<and> flag_bits (f_flags f) AND 0x0f = 0"
  by (auto simp: frame_validate_def not_less not_le)

definition frame_ok :: "sparse_radio_frame \<Rightarrow> bool" where
  "frame_ok f \<longleftrightarrow> frame_validate f = Inr ()"

lemma frame_okD:
  assumes "frame_ok f"
  shows "f_priority f \<le> 15" "length (f_payload f) \<le> 240" "f_fragment_count f \<noteq> 0"
    "unat (f_fragment_count f) \<le> 32" "f_fragment_index f < f_fragment_count f"
    "flag_bits (f_flags f) AND 0x0f = 0"
  using assms by (simp_all add: frame_ok_def frame_validate_Inr)

lemma frame_encode_Inr:
  "frame_encode f = Inr bs \<longleftrightarrow> frame_ok f \<and> bs = frame_body f @ to_be_bytes (crc32c (frame_body f))"
  by (auto simp: frame_encode_def frame_ok_def Let_def)

lemma length_frame_body [simp]: "length (frame_body f) = 12 + length (f_payload f)"
  by (simp add: frame_body_def)

lemma frame_encode_length:
  "frame_encode f = Inr bs \<Longrightarrow> length bs = frame_encoded_len f"
  by (simp add: frame_encode_Inr frame_encoded_len_def)

lemma to_be_u16_two: "\<exists>a b. to_be_bytes (w :: u16) = [a, b]"
proof -
  have "length (to_be_bytes w) = Suc (Suc 0)" by simp
  then show ?thesis by (auto simp only: length_Suc_conv length_0_conv)
qed

lemma four_bytes:
  assumes "length bs = n + 4"
  shows "[bs ! n, bs ! (n + 1), bs ! (n + 2), bs ! (n + 3)] = drop n bs"
proof (rule nth_equalityI)
  show "length [bs ! n, bs ! (n + 1), bs ! (n + 2), bs ! (n + 3)] = length (drop n bs)"
    using assms by simp
next
  fix i
  assume "i < length [bs ! n, bs ! (n + 1), bs ! (n + 2), bs ! (n + 3)]"
  then have "i = 0 \<or> i = 1 \<or> i = 2 \<or> i = 3" by auto
  then show "[bs ! n, bs ! (n + 1), bs ! (n + 2), bs ! (n + 3)] ! i = drop n bs ! i"
    using assms by auto
qed

lemma frame_decode_encode:
  assumes "frame_encode f = Inr bs"
  shows "frame_decode bs = Inr f"
proof -
  from assms have ok: "frame_ok f"
    and bs: "bs = frame_body f @ to_be_bytes (crc32c (frame_body f))"
    by (simp_all add: frame_encode_Inr)
  note okD = frame_okD[OF ok]
  obtain s0 s1 where s: "to_be_bytes (f_stream_id f) = [s0, s1]" using to_be_u16_two by blast
  obtain q0 q1 where q: "to_be_bytes (f_sequence f) = [q0, q1]" using to_be_u16_two by blast
  obtain t0 t1 where t: "to_be_bytes (f_state_tag f) = [t0, t1]" using to_be_u16_two by blast
  have "from_be_bytes [s0, s1] = f_stream_id f" "from_be_bytes [q0, q1] = f_sequence f"
    "from_be_bytes [t0, t1] = f_state_tag f"
    by (simp_all flip: s q t)
  moreover have len: "length bs = 16 + length (f_payload f)" by (simp add: bs)
  moreover have "take (12 + length (f_payload f)) bs = frame_body f"
    and "drop (12 + length (f_payload f)) bs = to_be_bytes (crc32c (frame_body f))"
    by (simp_all add: bs)
  moreover have "unat (word_of_nat (length (f_payload f)) :: u8) = length (f_payload f)"
    using okD by simp
  moreover have "[bs ! (12 + length (f_payload f)), bs ! (13 + length (f_payload f)),
      bs ! (14 + length (f_payload f)), bs ! (15 + length (f_payload f))]
      = drop (12 + length (f_payload f)) bs"
    using four_bytes[of bs "12 + length (f_payload f)"] len by (simp add: add.commute)
  moreover have "slice 12 (12 + length (f_payload f)) bs = f_payload f"
    by (simp add: bs frame_body_def slice_def s q t)
  moreover have "bs ! 0 = 0xa1" "bs ! 1 = flag_bits (f_flags f) OR profile_code (f_profile f)"
    "[bs ! 2, bs ! 3] = [s0, s1]" "[bs ! 4, bs ! 5] = [q0, q1]" "bs ! 6 = f_fragment_index f"
    "bs ! 7 = f_fragment_count f" "bs ! 8 = push_bit 4 (class_code (f_class f)) OR f_priority f"
    "bs ! 9 = word_of_nat (length (f_payload f))" "[bs ! 10, bs ! 11] = [t0, t1]"
    by (simp_all add: bs frame_body_def s q t)
  moreover have "drop_bit 4 (push_bit 4 (class_code (f_class f)) OR f_priority f) = class_code (f_class f)"
    "(push_bit 4 (class_code (f_class f)) OR f_priority f) AND 0x0f = f_priority f"
    using okD(1) low_nibble_le
    by (simp_all add: drop_bit_or class_code_nibble drop_low_nibble bit.conj_disj_distrib2)
  moreover have "frame_validate f = Inr ()" using ok by (simp add: frame_ok_def)
  moreover note nibble_pair[OF okD(6) profile_code_nibble(1)] profile_code_nibble(2)
  ultimately show ?thesis
    using okD by (simp add: frame_decode_def Let_def frame_validate_Inr)
qed

lemma header_bytes:
  assumes "12 \<le> length bs"
  shows "[bs ! 0, bs ! 1, bs ! 2, bs ! 3, bs ! 4, bs ! 5, bs ! 6, bs ! 7, bs ! 8, bs ! 9,
    bs ! 10, bs ! 11] @ drop 12 bs = bs"
  using assms by (auto simp: numeral_eq_Suc Suc_le_length_iff)

lemma frame_decode_InrD:
  assumes "frame_decode bs = Inr f"
  shows "frame_encode f = Inr bs"
proof -
  let ?n = "length bs - 4"
  from assms have len: "16 \<le> length bs" "length bs = 16 + unat (bs ! 9)"
    and marker: "bs ! 0 = 0xa1"
    and crc: "crc32c (take ?n bs) =
      from_be_bytes [bs ! ?n, bs ! (?n + 1), bs ! (?n + 2), bs ! (?n + 3)]"
    by (auto simp: frame_decode_def Let_def split: if_splits)
  from assms obtain p cl where p: "profile_try_from (bs ! 1 AND 0x0f) = Inr p"
    and cl: "class_try_from (drop_bit 4 (bs ! 8)) = Inr cl"
    and f: "f = \<lparr> f_profile = p, f_flags = FrameFlags (bs ! 1 AND 0xf0),
                f_stream_id = from_be_bytes [bs ! 2, bs ! 3],
                f_sequence = from_be_bytes [bs ! 4, bs ! 5],
                f_fragment_index = bs ! 6, f_fragment_count = bs ! 7,
                f_class = cl, f_priority = bs ! 8 AND 0x0f,
                f_state_tag = from_be_bytes [bs ! 10, bs ! 11],
                f_payload = slice 12 ?n bs \<rparr>"
    and ok: "frame_ok f"
    by (auto simp: frame_decode_def Let_def frame_ok_def split: if_splits)
  have tail: "drop ?n bs = to_be_bytes (crc32c (take ?n bs))"
    using len four_bytes[of bs ?n] crc by simp
  have pay: "length (slice 12 ?n bs) = unat (bs ! 9)" using len by simp
  have head: "bs = [bs ! 0, bs ! 1, bs ! 2, bs ! 3, bs ! 4, bs ! 5, bs ! 6, bs ! 7, bs ! 8, bs ! 9,
    bs ! 10, bs ! 11] @ drop 12 bs"
    using header_bytes[of bs] len by simp
  have "frame_body f = [bs ! 0, bs ! 1, bs ! 2, bs ! 3, bs ! 4, bs ! 5, bs ! 6, bs ! 7, bs ! 8, bs ! 9,
    bs ! 10, bs ! 11] @ slice 12 ?n bs"
    using marker profile_try_from_Inr[OF p] class_try_from_Inr[OF cl] pay or_and_nibbles[of "bs ! 1"]
      push_drop_nibble[of "bs ! 8"]
    by (simp add: frame_body_def f or.commute del: length_slice)
  also have "\<dots> = take ?n bs"
    using len by (subst (13) head) (simp add: slice_def take_Cons' drop_Cons')
  finally have "frame_body f = take ?n bs" .
  then show ?thesis
    using ok tail append_take_drop_id[of ?n bs] by (simp add: frame_encode_Inr)
qed

interpretation frame: wire_codec frame_ok "\<lambda>f. f" frame_encode frame_decode
  by unfold_locales (auto simp: frame_encode_Inr frame_decode_InrD intro: frame_decode_encode dest: frame_decode_InrD)

text \<open>A frame whose bytes in front of the trailer are altered inside a window of at most
  four bytes is rejected.\<close>

lemma frame_burst_rejected:
  assumes "frame_decode (ps @ xs @ ss @ trailer) = Inr f"
    and "length trailer = 4" and "length xs = length ys" and "length xs \<le> 4" and "xs \<noteq> ys"
  shows "\<not> is_ok (frame_decode (ps @ ys @ ss @ trailer))"
proof
  assume "is_ok (frame_decode (ps @ ys @ ss @ trailer))"
  then obtain g where g: "frame_decode (ps @ ys @ ss @ trailer) = Inr g" by (auto simp: is_ok_iff)
  have body: "frame_body h = zs \<and> to_be_bytes (crc32c zs) = trailer"
    if "frame_decode (zs @ trailer) = Inr h" for h zs
    using frame_decode_InrD[OF that] assms(2) by (simp add: frame_encode_Inr)
  have "to_be_bytes (crc32c (ps @ xs @ ss)) = to_be_bytes (crc32c (ps @ ys @ ss))"
    using body[of "ps @ xs @ ss" f] body[of "ps @ ys @ ss" g] assms(1) g by simp
  then have "crc32c (ps @ xs @ ss) = crc32c (ps @ ys @ ss)"
    by (metis from_be_u32)
  with assms(3,4) have "xs = ys" by (rule crc32c_burst)
  with assms(5) show False by simp
qed

section \<open>Properties\<close>

text \<open>C8. Encoding and decoding a frame are inverse on exactly the valid frames and the
  canonical bytes: \<open>encode\<close> yields \<open>bs\<close> if and only if \<open>decode\<close> reads \<open>bs\<close> as the
  frame, and both succeed on a valid frame.\<close>

theorem frame_roundtrip:
  "(frame_encode f = Inr bs \<longleftrightarrow> frame_decode bs = Inr f) \<and>
   (is_ok (frame_encode f) \<longleftrightarrow> frame_validate f = Inr ())"
  using frame_decode_encode frame_decode_InrD by (auto simp: is_ok_iff frame_encode_Inr frame_ok_def)

text \<open>Corruption of a frame confined to four consecutive bytes in front of the
  checksum (header or payload) is always detected.\<close>

theorem frame_burst_detected:
  assumes "frame_decode (ps @ xs @ ss @ trailer) = Inr f"
    and "length trailer = 4" and "length xs = length ys" and "length xs \<le> 4" and "xs \<noteq> ys"
  shows "\<not> is_ok (frame_decode (ps @ ys @ ss @ trailer))"
  using assms by (rule frame_burst_rejected)

definition demo_frame :: sparse_radio_frame where
  "demo_frame = \<lparr> f_profile = HfBpsk, f_flags = FLAGS_NONE, f_stream_id = 7, f_sequence = 42,
     f_fragment_index = 0, f_fragment_count = 1, f_class = StateDelta, f_priority = 5,
     f_state_tag = 0xbeef, f_payload = [1, 2, 3] \<rparr>"

lemma demo_frame_ok: "frame_ok demo_frame"
  by (simp add: frame_ok_def frame_validate_Inr demo_frame_def FLAGS_NONE_def)

theorem frame_burst_detected_witness:
  "\<not> is_ok (frame_decode ([0xff, 0xff] @ drop 2 (frame_body demo_frame) @
     to_be_bytes (crc32c (frame_body demo_frame))))"
proof -
  have "frame_body demo_frame = [0xa1, 2] @ drop 2 (frame_body demo_frame)"
    by (simp add: frame_body_def demo_frame_def FLAGS_NONE_def)
  then have "frame_decode ([] @ [0xa1, 2] @ drop 2 (frame_body demo_frame) @
      to_be_bytes (crc32c (frame_body demo_frame))) = Inr demo_frame"
    using frame_decode_encode[of demo_frame] demo_frame_ok
    by (metis append_Nil append_assoc frame_encode_Inr)
  from frame_burst_detected[OF this, of "[0xff, 0xff]"] show ?thesis by simp
qed

end
