(* ===== verification/Fragment.thy ===== *)
theory Fragment
  imports Wire Vec_Ops
begin

text \<open>
  \<open>latentmesh-air-core/src/fragment.rs\<close>: cutting a message into frames, and the bounded
  reassembly table. The table is refined to one small machine per (stream, sequence)
  key; the round trip of a message through the table, in any order, with duplicates and
  between the frames of other messages, is proved on that machine.
\<close>

section \<open>Fragmentation\<close>

record fragment_meta =
  m_profile :: wire_profile
  m_flags :: frame_flags
  m_stream_id :: u16
  m_sequence :: u16
  m_class :: semantic_class
  m_priority :: u8
  m_state_tag :: u16

definition meta_frame :: "fragment_meta \<Rightarrow> u8 \<Rightarrow> u8 \<Rightarrow> bytes \<Rightarrow> sparse_radio_frame" where
  "meta_frame meta index cnt payload =
     \<lparr> f_profile = m_profile meta, f_flags = m_flags meta, f_stream_id = m_stream_id meta,
       f_sequence = m_sequence meta, f_fragment_index = index, f_fragment_count = cnt,
       f_class = m_class meta, f_priority = m_priority meta, f_state_tag = m_state_tag meta,
       f_payload = payload \<rparr>"

definition fragment_message ::
  "fragment_meta \<Rightarrow> bytes \<Rightarrow> nat \<Rightarrow> sparse_radio_frame list air_result" where
  "fragment_message meta message frame_mtu =
     (if \<not> (FRAME_MIN_BYTES \<le> frame_mtu \<and> frame_mtu \<le> FRAME_MAX_BYTES) then Inl InvalidLength
      else if length message > MAX_MESSAGE_BYTES then Inl LimitExceeded
      else let payload_capacity = frame_mtu - FRAME_MIN_BYTES in
        if payload_capacity = 0 \<and> message \<noteq> [] then Inl InvalidLength
        else let count = (if message = [] then 1 else div_ceil (length message) payload_capacity) in
          if count > MAX_FRAGMENTS then Inl LimitExceeded
          else if message = [] then Inr [meta_frame meta 0 1 []]
          else Inr (map (\<lambda>(index, payload).
                 meta_frame meta (word_of_nat index) (word_of_nat count) payload)
               (enumerate 0 (chunks payload_capacity message))))"

section \<open>The reassembly table\<close>

record reassembler_config =
  rc_max_contexts :: nat
  rc_max_message_bytes :: nat
  rc_max_fragments :: u8

definition reassembler_config_default :: reassembler_config where
  "reassembler_config_default =
     \<lparr> rc_max_contexts = 4, rc_max_message_bytes = MAX_MESSAGE_BYTES, rc_max_fragments = 32 \<rparr>"

record reassembled_message =
  rm_profile :: wire_profile
  rm_flags :: frame_flags
  rm_stream_id :: u16
  rm_sequence :: u16
  rm_class :: semantic_class
  rm_priority :: u8
  rm_state_tag :: u16
  rm_bytes :: bytes

record reassembly_context =
  c_profile :: wire_profile
  c_flags :: frame_flags
  c_stream_id :: u16
  c_sequence :: u16
  c_class :: semantic_class
  c_priority :: u8
  c_state_tag :: u16
  c_total_bytes :: nat
  c_parts :: "bytes option list"

record reassembler =
  ra_config :: reassembler_config
  ra_contexts :: "reassembly_context list"

definition reassembler_new :: "reassembler_config \<Rightarrow> reassembler air_result" where
  "reassembler_new config =
     (if rc_max_contexts config = 0 \<or> rc_max_message_bytes config = 0
       \<or> rc_max_message_bytes config > MAX_MESSAGE_BYTES \<or> rc_max_fragments config = 0
       \<or> unat (rc_max_fragments config) > MAX_FRAGMENTS
      then Inl InvalidLength
      else Inr \<lparr> ra_config = config, ra_contexts = [] \<rparr>)"

definition has_in_flight :: "reassembler \<Rightarrow> u16 \<Rightarrow> u16 \<Rightarrow> bool" where
  "has_in_flight r stream_id sequence \<longleftrightarrow>
     list_ex (\<lambda>c. c_stream_id c = stream_id \<and> c_sequence c = sequence) (ra_contexts r)"

definition reassembler_clear :: "reassembler \<Rightarrow> u16 \<Rightarrow> u16 \<Rightarrow> reassembler" where
  "reassembler_clear r stream_id sequence =
     (case position (\<lambda>c. c_stream_id c = stream_id \<and> c_sequence c = sequence) (ra_contexts r) of
        None \<Rightarrow> r
      | Some index \<Rightarrow> r\<lparr> ra_contexts := swap_remove index (ra_contexts r) \<rparr>)"

definition new_context :: "sparse_radio_frame \<Rightarrow> reassembly_context" where
  "new_context f =
     \<lparr> c_profile = f_profile f, c_flags = f_flags f, c_stream_id = f_stream_id f,
       c_sequence = f_sequence f, c_class = f_class f, c_priority = f_priority f,
       c_state_tag = f_state_tag f, c_total_bytes = 0,
       c_parts = replicate (unat (f_fragment_count f)) None \<rparr>"

fun concat_parts :: "bytes option list \<Rightarrow> bytes air_result" where
  "concat_parts [] = Inr []"
| "concat_parts (p # ps) =
     (case p of None \<Rightarrow> Inl InvalidFragment
      | Some b \<Rightarrow> rbind (concat_parts ps) (\<lambda>bs. Inr (b @ bs)))"

definition assemble :: "reassembly_context \<Rightarrow> reassembled_message air_result" where
  "assemble c =
     rbind (concat_parts (c_parts c)) (\<lambda>bytes. Inr
       \<lparr> rm_profile = c_profile c, rm_flags = c_flags c, rm_stream_id = c_stream_id c,
         rm_sequence = c_sequence c, rm_class = c_class c, rm_priority = c_priority c,
         rm_state_tag = c_state_tag c, rm_bytes = bytes \<rparr>)"

text \<open>The second half of \<open>push\<close>: the frame's context is at \<open>index\<close>.\<close>

definition push_at ::
  "reassembler \<Rightarrow> nat \<Rightarrow> sparse_radio_frame \<Rightarrow> reassembler \<times> reassembled_message option air_result" where
  "push_at r index f =
     (let context = ra_contexts r ! index in
      if c_profile context \<noteq> f_profile f \<or> c_flags context \<noteq> f_flags f
        \<or> c_class context \<noteq> f_class f \<or> c_priority context \<noteq> f_priority f
        \<or> c_state_tag context \<noteq> f_state_tag f
        \<or> length (c_parts context) \<noteq> unat (f_fragment_count f)
      then (r, Inl FragmentConflict)
      else case c_parts context ! unat (f_fragment_index f) of
        Some existing \<Rightarrow>
          (r, if existing = f_payload f then Inr None else Inl FragmentConflict)
      | None \<Rightarrow>
          let new_total = c_total_bytes context + length (f_payload f) in
          if new_total > rc_max_message_bytes (ra_config r) then (r, Inl LimitExceeded)
          else let context' = context\<lparr> c_total_bytes := new_total,
                     c_parts := (c_parts context)[unat (f_fragment_index f) := Some (f_payload f)] \<rparr>;
                   contexts' = (ra_contexts r)[index := context'] in
            if list_ex (\<lambda>p. p = None) (c_parts context')
            then (r\<lparr> ra_contexts := contexts' \<rparr>, Inr None)
            else (r\<lparr> ra_contexts := swap_remove index contexts' \<rparr>,
                  rbind (assemble context') (\<lambda>m. Inr (Some m))))"

definition reassembler_push ::
  "reassembler \<Rightarrow> sparse_radio_frame \<Rightarrow> reassembler \<times> reassembled_message option air_result" where
  "reassembler_push r f =
     (case frame_validate f of
        Inl e \<Rightarrow> (r, Inl e)
      | Inr _ \<Rightarrow>
          if f_fragment_count f > rc_max_fragments (ra_config r) then (r, Inl LimitExceeded)
          else case position (\<lambda>c. c_stream_id c = f_stream_id f \<and> c_sequence c = f_sequence f)
                 (ra_contexts r) of
            Some index \<Rightarrow> push_at r index f
          | None \<Rightarrow>
              if length (ra_contexts r) = rc_max_contexts (ra_config r)
              then (r, Inl ReassemblyFull)
              else push_at (r\<lparr> ra_contexts := ra_contexts r @ [new_context f] \<rparr>)
                     (length (ra_contexts r)) f)"

section \<open>One key of the table\<close>

type_synonym push_output = "reassembled_message option air_result"

definition ckey :: "reassembly_context \<Rightarrow> u16 \<times> u16" where
  "ckey c = (c_stream_id c, c_sequence c)"

definition fkey :: "sparse_radio_frame \<Rightarrow> u16 \<times> u16" where
  "fkey f = (f_stream_id f, f_sequence f)"

text \<open>What \<open>push_at\<close> does to the frame's own context: keep it, replace it, or release it.\<close>

definition context_push ::
  "reassembler_config \<Rightarrow> reassembly_context \<Rightarrow> sparse_radio_frame \<Rightarrow> reassembly_context option \<times> push_output" where
  "context_push cfg c f =
     (if c_profile c \<noteq> f_profile f \<or> c_flags c \<noteq> f_flags f \<or> c_class c \<noteq> f_class f
        \<or> c_priority c \<noteq> f_priority f \<or> c_state_tag c \<noteq> f_state_tag f
        \<or> length (c_parts c) \<noteq> unat (f_fragment_count f)
      then (Some c, Inl FragmentConflict)
      else case c_parts c ! unat (f_fragment_index f) of
        Some existing \<Rightarrow> (Some c, if existing = f_payload f then Inr None else Inl FragmentConflict)
      | None \<Rightarrow>
          let c' = c\<lparr> c_total_bytes := c_total_bytes c + length (f_payload f),
                c_parts := (c_parts c)[unat (f_fragment_index f) := Some (f_payload f)] \<rparr> in
          if c_total_bytes c' > rc_max_message_bytes cfg then (Some c, Inl LimitExceeded)
          else if list_ex (\<lambda>p. p = None) (c_parts c') then (Some c', Inr None)
          else (None, rbind (assemble c') (\<lambda>m. Inr (Some m))))"

definition key_push ::
  "reassembler_config \<Rightarrow> reassembly_context option \<Rightarrow> sparse_radio_frame \<Rightarrow> reassembly_context option \<times> push_output" where
  "key_push cfg co f =
     (case frame_validate f of
        Inl e \<Rightarrow> (co, Inl e)
      | Inr _ \<Rightarrow> if f_fragment_count f > rc_max_fragments cfg then (co, Inl LimitExceeded)
          else context_push cfg (case co of None \<Rightarrow> new_context f | Some c \<Rightarrow> c) f)"

definition lookup_context :: "reassembler \<Rightarrow> u16 \<times> u16 \<Rightarrow> reassembly_context option" where
  "lookup_context r k = find (\<lambda>c. ckey c = k) (ra_contexts r)"

definition part_bytes :: "bytes option list \<Rightarrow> nat" where
  "part_bytes ps = sum_list (map (\<lambda>p. case p of None \<Rightarrow> 0 | Some b \<Rightarrow> length b) ps)"

definition context_ok :: "reassembler_config \<Rightarrow> reassembly_context \<Rightarrow> bool" where
  "context_ok cfg c \<longleftrightarrow>
     c_total_bytes c = part_bytes (c_parts c) \<and> c_total_bytes c \<le> rc_max_message_bytes cfg \<and>
     length (c_parts c) \<le> unat (rc_max_fragments cfg) \<and> None \<in> set (c_parts c)"

definition config_ok :: "reassembler_config \<Rightarrow> bool" where
  "config_ok cfg \<longleftrightarrow> 0 < rc_max_contexts cfg \<and> 0 < rc_max_message_bytes cfg \<and>
     rc_max_message_bytes cfg \<le> MAX_MESSAGE_BYTES \<and> rc_max_fragments cfg \<noteq> 0 \<and>
     unat (rc_max_fragments cfg) \<le> MAX_FRAGMENTS"

text \<open>
  The table invariant: never more contexts than configured, at most one per key, each
  within the byte and fragment limits, with an exact byte count and still incomplete.
\<close>

definition reassembler_inv :: "reassembler \<Rightarrow> bool" where
  "reassembler_inv r \<longleftrightarrow>
     config_ok (ra_config r) \<and> length (ra_contexts r) \<le> rc_max_contexts (ra_config r) \<and>
     distinct (map ckey (ra_contexts r)) \<and> (\<forall>c\<in>set (ra_contexts r). context_ok (ra_config r) c)"

lemma reassembler_new_inv: "reassembler_new cfg = Inr r \<Longrightarrow> reassembler_inv r"
  by (auto simp: reassembler_new_def reassembler_inv_def config_ok_def split: if_splits)

lemma key_pred: "(\<lambda>c. c_stream_id c = s \<and> c_sequence c = q) = (\<lambda>c. ckey c = (s, q))"
  by (auto simp: ckey_def)

lemma ckey_update [simp]:
  "ckey (c\<lparr> c_total_bytes := n, c_parts := ps \<rparr>) = ckey c"
  "ckey (new_context f) = fkey f"
  by (simp_all add: ckey_def fkey_def new_context_def)

lemma push_at_eq:
  assumes "index < length (ra_contexts r)"
  shows "push_at r index f =
    (let (co, out) = context_push (ra_config r) (ra_contexts r ! index) f in
      (r\<lparr> ra_contexts := (case co of Some c \<Rightarrow> (ra_contexts r)[index := c]
                                 | None \<Rightarrow> swap_remove index (ra_contexts r)) \<rparr>, out))"
  using assms
  by (auto simp: push_at_def context_push_def Let_def swap_remove_update split: option.splits)

lemma context_push_key: "context_push cfg c f = (Some c', out) \<Longrightarrow> ckey c' = ckey c"
  by (auto simp: context_push_def Let_def split: if_splits option.splits)

lemma part_bytes_update:
  "i < length ps \<Longrightarrow> ps ! i = None \<Longrightarrow> part_bytes (ps[i := Some b]) = part_bytes ps + length b"
  by (simp add: part_bytes_def map_update sum_list_update)

lemma concat_parts_None: "concat_parts ps = Inl e \<Longrightarrow> None \<in> set ps"
  by (induction ps) (auto simp: rbind_eq_Inl split: option.splits)

lemma concat_parts_length: "concat_parts ps = Inr bs \<Longrightarrow> length bs = part_bytes ps"
  by (induction ps arbitrary: bs) (auto simp: part_bytes_def split: option.splits)

lemma context_push_ok:
  assumes "context_ok cfg c" and "frame_ok f" and "context_push cfg c f = (Some c', out)"
  shows "context_ok cfg c'"
  using assms frame_okD(5)[OF assms(2)]
  by (auto simp: context_push_def context_ok_def Let_def list_ex_iff part_bytes_update word_less_nat_alt
      split: if_splits option.splits)

lemma new_context_ok:
  assumes "frame_ok f" and "f_fragment_count f \<le> rc_max_fragments cfg"
  shows "context_ok cfg (new_context f)"
  using assms frame_okD(3)[OF assms(1)]
  by (auto simp: context_ok_def new_context_def part_bytes_def sum_list_replicate word_le_nat_alt
      unat_eq_0 in_set_replicate)

section \<open>The table refines its keys\<close>

definition store_context :: "reassembler \<Rightarrow> nat \<Rightarrow> reassembly_context option \<Rightarrow> reassembler" where
  "store_context r index co =
     r\<lparr> ra_contexts := (case co of Some c \<Rightarrow> (ra_contexts r)[index := c]
                              | None \<Rightarrow> swap_remove index (ra_contexts r)) \<rparr>"

lemma store_context_lookup:
  assumes "distinct (map ckey (ra_contexts r))" and "index < length (ra_contexts r)"
    and "\<And>c. co = Some c \<Longrightarrow> ckey c = ckey (ra_contexts r ! index)"
  shows "lookup_context (store_context r index co) k =
    (if k = ckey (ra_contexts r ! index) then co else lookup_context r k)"
  using find_key_swap_remove[OF assms(1,2), of k] assms(3)
    find_key_update[OF assms(1,2), where k = k]
  by (cases co) (auto simp: lookup_context_def store_context_def)

lemma store_context_inv:
  assumes inv: "reassembler_inv r" and i: "index < length (ra_contexts r)"
    and co: "\<And>c. co = Some c \<Longrightarrow> ckey c = ckey (ra_contexts r ! index) \<and> context_ok (ra_config r) c"
  shows "reassembler_inv (store_context r index co)"
proof (cases co)
  case None
  then show ?thesis
    using inv i set_swap_remove_subset[OF i] distinct_map_swap_remove[OF i]
    by (auto simp: reassembler_inv_def store_context_def)
next
  case (Some c)
  then show ?thesis
    using inv i co[OF Some] set_update_subset_insert[of "ra_contexts r" index c]
    by (auto simp: reassembler_inv_def store_context_def map_key_update)
qed

text \<open>The state in which \<open>push\<close> reaches the frame's context, and its index.\<close>

definition with_context :: "reassembler \<Rightarrow> sparse_radio_frame \<Rightarrow> (reassembler \<times> nat) option" where
  "with_context r f =
     (case position (\<lambda>c. ckey c = fkey f) (ra_contexts r) of
        Some index \<Rightarrow> Some (r, index)
      | None \<Rightarrow> if length (ra_contexts r) = rc_max_contexts (ra_config r) then None
          else Some (r\<lparr> ra_contexts := ra_contexts r @ [new_context f] \<rparr>, length (ra_contexts r)))"

lemma reassembler_push_eq:
  "reassembler_push r f =
     (case frame_validate f of
        Inl e \<Rightarrow> (r, Inl e)
      | Inr _ \<Rightarrow> if f_fragment_count f > rc_max_fragments (ra_config r) then (r, Inl LimitExceeded)
          else case with_context r f of
            None \<Rightarrow> (r, Inl ReassemblyFull)
          | Some (r', index) \<Rightarrow>
              let (co, out) = context_push (ra_config r) (ra_contexts r' ! index) f
              in (store_context r' index co, out))"
  by (auto simp: reassembler_push_def with_context_def key_pred fkey_def push_at_eq store_context_def
      dest: position_SomeD split: sum.split option.split)

lemma with_context_SomeD:
  assumes "with_context r f = Some (r', index)" and "reassembler_inv r" and "frame_ok f"
    and "f_fragment_count f \<le> rc_max_fragments (ra_config r)"
  shows "index < length (ra_contexts r')" and "ra_config r' = ra_config r" and "reassembler_inv r'"
    and "ckey (ra_contexts r' ! index) = fkey f"
    and "ra_contexts r' ! index = (case lookup_context r (fkey f) of None \<Rightarrow> new_context f | Some c \<Rightarrow> c)"
    and "k \<noteq> fkey f \<Longrightarrow> lookup_context r' k = lookup_context r k"
proof -
  have old: "lookup_context r (fkey f) = Some (ra_contexts r ! i)"
    if "position (\<lambda>c. ckey c = fkey f) (ra_contexts r) = Some i" for i
    using position_find[OF that] by (simp add: lookup_context_def)
  have new: "lookup_context r (fkey f) = None"
    if "position (\<lambda>c. ckey c = fkey f) (ra_contexts r) = None"
    using that by (auto simp: lookup_context_def find_None_iff)
  show "index < length (ra_contexts r')" and "ra_config r' = ra_config r"
    and "ckey (ra_contexts r' ! index) = fkey f"
    and "ra_contexts r' ! index = (case lookup_context r (fkey f) of None \<Rightarrow> new_context f | Some c \<Rightarrow> c)"
    using assms(1) old new
    by (auto simp: with_context_def simp del: position_None dest: position_SomeD split: option.splits if_splits)
  show "k \<noteq> fkey f \<Longrightarrow> lookup_context r' k = lookup_context r k"
    using assms(1)
    by (auto simp: with_context_def lookup_context_def find_append_last split: option.splits if_splits)
  show "reassembler_inv r'"
    using assms new_context_ok[OF assms(3,4)]
    by (auto simp: with_context_def reassembler_inv_def split: option.splits if_splits) metis
qed

lemma push_inv:
  assumes inv: "reassembler_inv r"
  shows "reassembler_inv (fst (reassembler_push r f))"
proof (cases "frame_ok f \<and> f_fragment_count f \<le> rc_max_fragments (ra_config r) \<and> with_context r f \<noteq> None")
  case False
  then show ?thesis
    using inv by (auto simp: reassembler_push_eq frame_ok_def not_le split: sum.split option.split)
next
  case True
  then obtain r' index where w: "with_context r f = Some (r', index)"
    and ok: "frame_ok f" and cnt: "f_fragment_count f \<le> rc_max_fragments (ra_config r)" by auto
  note wc = with_context_SomeD[OF w inv ok cnt]
  obtain co out where cp: "context_push (ra_config r) (ra_contexts r' ! index) f = (co, out)" by fastforce
  have "context_ok (ra_config r) (ra_contexts r' ! index)"
    using wc(1,2,3) by (auto simp: reassembler_inv_def)
  then have "ckey c = ckey (ra_contexts r' ! index) \<and> context_ok (ra_config r') c" if "co = Some c" for c
    using context_push_ok[OF _ ok] context_push_key cp that wc(2) by metis
  then have "reassembler_inv (store_context r' index co)" by (intro store_context_inv wc)
  then show ?thesis
    using ok cnt w cp by (simp add: reassembler_push_eq frame_ok_def leD)
qed

lemma clear_inv: "reassembler_inv r \<Longrightarrow> reassembler_inv (reassembler_clear r s q)"
  using set_swap_remove_subset distinct_map_swap_remove
  by (fastforce simp: reassembler_inv_def reassembler_clear_def dest: position_SomeD split: option.splits)

datatype reassembler_op = OpPush sparse_radio_frame | OpClear u16 u16

fun reassembler_step :: "reassembler \<Rightarrow> reassembler_op \<Rightarrow> reassembler \<times> push_output" where
  "reassembler_step r (OpPush f) = reassembler_push r f"
| "reassembler_step r (OpClear s q) = (reassembler_clear r s q, Inr None)"

interpretation reassembly: machine reassembler_inv reassembler_step
proof
  show "reassembler_inv (fst (reassembler_step r op))" if "reassembler_inv r" for r op
    using that by (cases op) (simp_all add: push_inv clear_inv)
qed

text \<open>While the frame's key has a context or the table has room, \<open>push\<close> acts on that key alone.\<close>

lemma with_context_room:
  assumes "lookup_context r (fkey f) \<noteq> None \<or> length (ra_contexts r) < rc_max_contexts (ra_config r)"
  shows "with_context r f \<noteq> None"
  using assms by (auto simp: with_context_def lookup_context_def find_None_iff split: option.splits)

lemma push_refines:
  assumes inv: "reassembler_inv r"
    and room: "lookup_context r (fkey f) \<noteq> None \<or> length (ra_contexts r) < rc_max_contexts (ra_config r)"
  shows "snd (reassembler_push r f) = snd (key_push (ra_config r) (lookup_context r (fkey f)) f)"
    and "lookup_context (fst (reassembler_push r f)) k =
      (if k = fkey f then fst (key_push (ra_config r) (lookup_context r (fkey f)) f)
       else lookup_context r k)"
    and "ra_config (fst (reassembler_push r f)) = ra_config r"
proof -
  let ?goal = "snd (reassembler_push r f) = snd (key_push (ra_config r) (lookup_context r (fkey f)) f) \<and>
    lookup_context (fst (reassembler_push r f)) k =
      (if k = fkey f then fst (key_push (ra_config r) (lookup_context r (fkey f)) f)
       else lookup_context r k) \<and> ra_config (fst (reassembler_push r f)) = ra_config r"
  have ?goal
  proof (cases "frame_ok f \<and> f_fragment_count f \<le> rc_max_fragments (ra_config r)")
    case False
    then show ?thesis
      by (auto simp: reassembler_push_eq key_push_def frame_ok_def not_le split: sum.split)
  next
    case True
    obtain r' index where w: "with_context r f = Some (r', index)"
      using with_context_room[OF room] by auto
    note wc = with_context_SomeD[OF w inv conjunct1[OF True] conjunct2[OF True]]
    obtain co out where cp: "context_push (ra_config r) (ra_contexts r' ! index) f = (co, out)" by fastforce
    have push: "reassembler_push r f = (store_context r' index co, out)"
      using True w cp by (simp add: reassembler_push_eq frame_ok_def leD)
    have key: "key_push (ra_config r) (lookup_context r (fkey f)) f = (co, out)"
      using True wc(5) cp by (simp add: key_push_def frame_ok_def leD)
    have "lookup_context (store_context r' index co) k = (if k = fkey f then co else lookup_context r' k)"
      using store_context_lookup[of r' index co k] wc(1,3,4) context_push_key cp
      by (fastforce simp: reassembler_inv_def)
    then show ?thesis using push key wc(2,6) by (simp add: store_context_def)
  qed
  then show "snd (reassembler_push r f) = snd (key_push (ra_config r) (lookup_context r (fkey f)) f)"
    and "lookup_context (fst (reassembler_push r f)) k =
      (if k = fkey f then fst (key_push (ra_config r) (lookup_context r (fkey f)) f)
       else lookup_context r k)"
    and "ra_config (fst (reassembler_push r f)) = ra_config r" by blast+
qed

text \<open>
  The answers a key's frames get in any traffic are those of its own machine on its own
  frames, as long as the keys in play fit the table.
\<close>

definition table_keys :: "reassembler \<Rightarrow> (u16 \<times> u16) set" where
  "table_keys r = ckey ` set (ra_contexts r)"

definition answers_for :: "u16 \<times> u16 \<Rightarrow> sparse_radio_frame list \<Rightarrow> push_output list \<Rightarrow> push_output list" where
  "answers_for k fs outs = map snd (filter (\<lambda>(f, out). fkey f = k) (zip fs outs))"

lemma table_keys_iff: "k \<in> table_keys r \<longleftrightarrow> lookup_context r k \<noteq> None"
  by (auto simp: table_keys_def lookup_context_def find_None_iff)

lemma card_table_keys: "reassembler_inv r \<Longrightarrow> card (table_keys r) = length (ra_contexts r)"
  by (auto simp: reassembler_inv_def table_keys_def distinct_map card_image distinct_card)

lemma push_keys:
  assumes "reassembler_inv r"
    and "lookup_context r (fkey f) \<noteq> None \<or> length (ra_contexts r) < rc_max_contexts (ra_config r)"
  shows "table_keys (fst (reassembler_push r f)) \<subseteq> insert (fkey f) (table_keys r)"
  using push_refines(2)[OF assms] by (auto simp: table_keys_iff split: if_splits)

lemma room_for_key:
  assumes inv: "reassembler_inv r" and "card (insert (fkey f) (table_keys r)) \<le> rc_max_contexts (ra_config r)"
  shows "lookup_context r (fkey f) \<noteq> None \<or> length (ra_contexts r) < rc_max_contexts (ra_config r)"
proof (cases "fkey f \<in> table_keys r")
  case True
  then show ?thesis by (simp add: table_keys_iff)
next
  case False
  have "finite (table_keys r)" by (simp add: table_keys_def)
  then have "card (insert (fkey f) (table_keys r)) = Suc (length (ra_contexts r))"
    using False card_table_keys[OF inv] by simp
  then show ?thesis using assms(2) by simp
qed

lemma keyed_run:
  assumes "reassembler_inv r"
    and "card (table_keys r \<union> fkey ` set fs) \<le> rc_max_contexts (ra_config r)"
  shows "answers_for k fs (snd (run_machine reassembler_push r fs)) =
    snd (run_machine (key_push (ra_config r)) (lookup_context r k) (filter (\<lambda>f. fkey f = k) fs))"
  using assms
proof (induction fs arbitrary: r)
  case Nil
  then show ?case by (simp add: answers_for_def)
next
  case (Cons f fs)
  let ?r = "fst (reassembler_push r f)"
  have fin: "finite (table_keys r)" by (simp add: table_keys_def)
  have "card (insert (fkey f) (table_keys r)) \<le> card (table_keys r \<union> fkey ` set (f # fs))"
    using fin by (intro card_mono) auto
  then have room: "lookup_context r (fkey f) \<noteq> None \<or> length (ra_contexts r) < rc_max_contexts (ra_config r)"
    using Cons.prems room_for_key by force
  note step = push_refines[OF Cons.prems(1) room]
  have "card (table_keys ?r \<union> fkey ` set fs) \<le> card (table_keys r \<union> fkey ` set (f # fs))"
    using push_keys[OF Cons.prems(1) room] fin by (intro card_mono) auto
  then have "card (table_keys ?r \<union> fkey ` set fs) \<le> rc_max_contexts (ra_config ?r)"
    using Cons.prems(2) step(3) by simp
  from Cons.IH[OF push_inv[OF Cons.prems(1)] this] show ?case
    using step by (simp add: answers_for_def Let_def case_prod_beta)
qed

section \<open>The fragments of a message\<close>

definition frames_of :: "fragment_meta \<Rightarrow> bytes list \<Rightarrow> sparse_radio_frame list" where
  "frames_of meta ps =
     map (\<lambda>i. meta_frame meta (word_of_nat i) (word_of_nat (length ps)) (ps ! i)) [0..<length ps]"

definition meta_ok :: "fragment_meta \<Rightarrow> bool" where
  "meta_ok meta \<longleftrightarrow> m_priority meta \<le> 15 \<and> flag_bits (m_flags meta) AND 0x0f = 0"

definition meta_key :: "fragment_meta \<Rightarrow> u16 \<times> u16" where
  "meta_key meta = (m_stream_id meta, m_sequence meta)"

lemma fragment_message_frames:
  assumes "fragment_message meta msg mtu = Inr fs"
  obtains ps where "fs = frames_of meta ps" and "concat ps = msg" and "0 < length ps"
    and "length ps \<le> 32" and "\<And>p. p \<in> set ps \<Longrightarrow> length p \<le> mtu - 16"
    and "16 \<le> mtu" and "mtu \<le> 256" and "length msg \<le> MAX_MESSAGE_BYTES"
proof -
  let ?ps = "if msg = [] then [[]] else chunks (mtu - 16) msg"
  from assms have mtu: "16 \<le> mtu" "mtu \<le> 256" and len: "length msg \<le> MAX_MESSAGE_BYTES"
    and cap: "msg \<noteq> [] \<Longrightarrow> 0 < mtu - 16"
    and cnt: "(if msg = [] then 1 else div_ceil (length msg) (mtu - 16)) \<le> 32"
    by (auto simp: fragment_message_def Let_def not_less split: if_splits)
  have n: "length ?ps = (if msg = [] then 1 else div_ceil (length msg) (mtu - 16))"
    using cap by (simp add: length_chunks)
  have "fs = frames_of meta ?ps"
    using assms n
    by (auto simp: fragment_message_def Let_def frames_of_def map_enumerate split: if_splits)
  moreover have "concat ?ps = msg" using cap by simp
  moreover have "0 < length ?ps" using cap by (cases "msg = []") (auto simp: chunks.simps[of _ msg])
  moreover have "length ?ps \<le> 32" using cnt n by simp
  moreover have "length p \<le> mtu - 16" if "p \<in> set ?ps" for p
    using that cap chunks_length[of "mtu - 16" p msg] by (auto split: if_splits)
  ultimately show thesis using mtu len by (rule that)
qed

lemma frames_of_ok:
  assumes "meta_ok meta" and "length ps \<le> 32" and "\<And>p. p \<in> set ps \<Longrightarrow> length p \<le> 240"
    and "f \<in> set (frames_of meta ps)"
  shows "frame_ok f"
  using assms
  by (auto simp: frames_of_def frame_ok_def frame_validate_Inr meta_frame_def meta_ok_def
      word_less_nat_alt unat_eq_0 simp flip: unat_eq_0)

lemma length_frames_of [simp]: "length (frames_of meta ps) = length ps"
  by (simp add: frames_of_def)

lemma frames_of_key: "f \<in> set (frames_of meta ps) \<Longrightarrow> fkey f = meta_key meta"
  by (auto simp: frames_of_def fkey_def meta_key_def meta_frame_def)

lemma frames_of_distinct:
  assumes "length ps \<le> 32"
  shows "distinct (frames_of meta ps)"
  using assms
  by (auto simp: frames_of_def distinct_map inj_on_def meta_frame_def word_unat_eq_iff)

text \<open>The context of a message of which exactly the fragments in \<open>S\<close> have arrived.\<close>

definition partial_parts :: "bytes list \<Rightarrow> nat set \<Rightarrow> bytes option list" where
  "partial_parts ps S = map (\<lambda>i. if i \<in> S then Some (ps ! i) else None) [0..<length ps]"

definition partial_context :: "fragment_meta \<Rightarrow> bytes list \<Rightarrow> nat set \<Rightarrow> reassembly_context" where
  "partial_context meta ps S =
     \<lparr> c_profile = m_profile meta, c_flags = m_flags meta, c_stream_id = m_stream_id meta,
       c_sequence = m_sequence meta, c_class = m_class meta, c_priority = m_priority meta,
       c_state_tag = m_state_tag meta, c_total_bytes = part_bytes (partial_parts ps S),
       c_parts = partial_parts ps S \<rparr>"

definition partial_entry :: "fragment_meta \<Rightarrow> bytes list \<Rightarrow> nat set \<Rightarrow> reassembly_context option" where
  "partial_entry meta ps S =
     (if S = {} \<or> {..<length ps} \<subseteq> S then None else Some (partial_context meta ps S))"

definition whole_message :: "fragment_meta \<Rightarrow> bytes \<Rightarrow> reassembled_message" where
  "whole_message meta msg =
     \<lparr> rm_profile = m_profile meta, rm_flags = m_flags meta, rm_stream_id = m_stream_id meta,
       rm_sequence = m_sequence meta, rm_class = m_class meta, rm_priority = m_priority meta,
       rm_state_tag = m_state_tag meta, rm_bytes = msg \<rparr>"

lemma partial_parts_simps [simp]:
  "length (partial_parts ps S) = length ps"
  "i < length ps \<Longrightarrow> partial_parts ps S ! i = (if i \<in> S then Some (ps ! i) else None)"
  by (simp_all add: partial_parts_def)

lemma partial_parts_insert:
  "i < length ps \<Longrightarrow> (partial_parts ps S)[i := Some (ps ! i)] = partial_parts ps (insert i S)"
  by (rule nth_equalityI) (auto simp: nth_list_update)

lemma partial_parts_missing: "None \<in> set (partial_parts ps S) \<longleftrightarrow> \<not> {..<length ps} \<subseteq> S"
  by (auto simp: in_set_conv_nth partial_parts_def)

lemma partial_bytes_le: "part_bytes (partial_parts ps S) \<le> length (concat ps)"
proof -
  have "part_bytes (partial_parts ps S) \<le> sum_list (map (\<lambda>i. length (ps ! i)) [0..<length ps])"
    by (auto simp: part_bytes_def partial_parts_def comp_def intro!: sum_list_mono)
  also have "map (\<lambda>i. length (ps ! i)) [0..<length ps] = map length ps"
    by (intro nth_equalityI) simp_all
  also have "sum_list (map length ps) = length (concat ps)" by (simp add: length_concat)
  finally show ?thesis .
qed

lemma concat_parts_Some: "concat_parts (map Some ps) = Inr (concat ps)"
  by (induction ps) auto

lemma partial_parts_full: "{..<length ps} \<subseteq> S \<Longrightarrow> partial_parts ps S = map Some ps"
  by (rule nth_equalityI) auto

lemma fragment_new_context: "i < length ps \<Longrightarrow> length ps \<le> 32 \<Longrightarrow>
    new_context (frames_of meta ps ! i) = partial_context meta ps {}"
  by (auto simp: new_context_def frames_of_def meta_frame_def partial_context_def part_bytes_def
      partial_parts_def sum_list_replicate map_replicate_const comp_def)

definition deliverable :: "reassembler_config \<Rightarrow> fragment_meta \<Rightarrow> bytes list \<Rightarrow> bool" where
  "deliverable cfg meta ps \<longleftrightarrow>
     meta_ok meta \<and> 0 < length ps \<and> length ps \<le> 32 \<and> length ps \<le> unat (rc_max_fragments cfg) \<and>
     (\<forall>p\<in>set ps. length p \<le> 240) \<and> length (concat ps) \<le> rc_max_message_bytes cfg"

lemma partial_context_push:
  assumes "deliverable cfg meta ps" and i: "i < length ps" and "\<not> {..<length ps} \<subseteq> S"
  shows "context_push cfg (partial_context meta ps S) (frames_of meta ps ! i) =
    (if i \<in> S then Some (partial_context meta ps S) else partial_entry meta ps (insert i S),
     if i \<in> S \<or> \<not> {..<length ps} \<subseteq> insert i S then Inr None
     else Inr (Some (whole_message meta (concat ps))))"
proof -
  have n: "length ps \<le> 32" using assms(1) by (simp add: deliverable_def)
  have small: "part_bytes (partial_parts ps T) \<le> rc_max_message_bytes cfg" for T
    using partial_bytes_le[of ps T] assms(1) by (simp add: deliverable_def)
  have upd: "part_bytes (partial_parts ps S) + length (ps ! i) = part_bytes (partial_parts ps (insert i S))"
    if "i \<notin> S"
    using that i part_bytes_update[of i "partial_parts ps S" "ps ! i"] by (simp add: partial_parts_insert)
  show ?thesis
  proof (cases "i \<in> S")
    case True
    then show ?thesis
      using i n by (simp add: context_push_def partial_context_def frames_of_def meta_frame_def)
  next
    case False
    then show ?thesis
      using i n small[of "insert i S"] upd
      by (auto simp: context_push_def partial_context_def frames_of_def meta_frame_def Let_def
          partial_parts_insert list_ex_iff partial_parts_missing partial_entry_def assemble_def
          partial_parts_full concat_parts_Some whole_message_def not_less)
  qed
qed

lemma partial_push:
  assumes d: "deliverable cfg meta ps" and i: "i < length ps" and "\<not> {..<length ps} \<subseteq> S"
  shows "key_push cfg (partial_entry meta ps S) (frames_of meta ps ! i) =
    (partial_entry meta ps (insert i S),
     if i \<in> S \<or> \<not> {..<length ps} \<subseteq> insert i S then Inr None
     else Inr (Some (whole_message meta (concat ps))))"
proof -
  have n: "length ps \<le> 32" using d by (simp add: deliverable_def)
  have "frame_ok (frames_of meta ps ! i)"
    using d i by (intro frames_of_ok[of meta ps]) (auto simp: deliverable_def)
  moreover have "\<not> f_fragment_count (frames_of meta ps ! i) > rc_max_fragments cfg"
    using d i n by (simp add: frames_of_def meta_frame_def deliverable_def word_less_nat_alt)
  moreover have "(case partial_entry meta ps S of None \<Rightarrow> new_context (frames_of meta ps ! i) | Some c \<Rightarrow> c)
      = partial_context meta ps S"
    using assms(3) fragment_new_context[OF i n] by (auto simp: partial_entry_def)
  ultimately have "key_push cfg (partial_entry meta ps S) (frames_of meta ps ! i)
      = context_push cfg (partial_context meta ps S) (frames_of meta ps ! i)"
    by (simp add: key_push_def frame_ok_def)
  moreover have "partial_entry meta ps (insert i S) = Some (partial_context meta ps S)" if "i \<in> S"
    using that assms(3) by (auto simp: partial_entry_def insert_absorb)
  ultimately show ?thesis using partial_context_push[OF assms] by simp
qed

lemma partial_run:
  assumes d: "deliverable cfg meta ps" and "set js \<subseteq> {..<length ps}"
    and "\<not> {..<length ps} \<subseteq> S \<union> set js"
  shows "run_machine (key_push cfg) (partial_entry meta ps S) (map ((!) (frames_of meta ps)) js) =
    (partial_entry meta ps (S \<union> set js), replicate (length js) (Inr None))"
  using assms(2,3)
proof (induction js arbitrary: S)
  case Nil
  then show ?case by simp
next
  case (Cons j js)
  have "\<not> {..<length ps} \<subseteq> S" "\<not> {..<length ps} \<subseteq> insert j S" "j < length ps"
    using Cons.prems by auto
  moreover have "\<not> {..<length ps} \<subseteq> insert j S \<union> set js" using Cons.prems by auto
  ultimately show ?case
    using Cons.IH[of "insert j S"] Cons.prems partial_push[OF d, of j S] by simp
qed

text \<open>
  A message is delivered exactly when the last of its fragments arrives, whatever the
  order and the duplicates before it.
\<close>

lemma message_run:
  assumes d: "deliverable cfg meta ps"
    and all: "set hs \<union> {f} = set (frames_of meta ps)" and new: "f \<notin> set hs"
  shows "run_machine (key_push cfg) None (hs @ [f]) =
    (None, replicate (length hs) (Inr None) @ [Inr (Some (whole_message meta (concat ps)))])"
proof -
  let ?fs = "frames_of meta ps" and ?n = "length ps"
  have n: "?n \<le> 32" using d by (simp add: deliverable_def)
  have "set hs \<subseteq> set ?fs" using all by auto
  then obtain js where js: "set js \<subseteq> {..<?n}" "hs = map ((!) ?fs) js"
    by (rule sublist_indices) simp
  have "f \<in> set ?fs" using all by auto
  then obtain i where i: "i < ?n" "f = ?fs ! i" by (auto simp: in_set_conv_nth)
  have inj: "?fs ! j = ?fs ! k \<longleftrightarrow> j = k" if "j < ?n" "k < ?n" for j k
    using that frames_of_distinct[OF n] by (simp add: nth_eq_iff_index_eq)
  have "i \<notin> set js" using new js(2) i(2) by auto
  moreover have "j \<in> set js" if "j < ?n" "j \<noteq> i" for j
  proof -
    have "?fs ! j \<in> set hs \<union> {f}" using all that(1) by simp
    then have "?fs ! j \<in> set hs" using inj[of j i] that i by auto
    then obtain k where "k \<in> set js" "?fs ! j = ?fs ! k" using js(2) by auto
    then show ?thesis using inj[of j k] that(1) js(1) by auto
  qed
  ultimately have idx: "j \<in> set js \<longleftrightarrow> j \<noteq> i" if "j < ?n" for j using that by blast
  have none: "partial_entry meta ps {} = None" by (simp add: partial_entry_def)
  have miss: "\<not> {..<?n} \<subseteq> set js" and full: "{..<?n} \<subseteq> insert i (set js)"
    using idx i by auto
  have "run_machine (key_push cfg) None hs = (partial_entry meta ps (set js), replicate (length hs) (Inr None))"
    using partial_run[OF d js(1), of "{}"] miss none js(2) by simp
  moreover have "key_push cfg (partial_entry meta ps (set js)) f =
      (None, Inr (Some (whole_message meta (concat ps))))"
    using partial_push[OF d i(1) miss] full idx i by (simp add: partial_entry_def)
  ultimately show ?thesis by (simp add: run_machine_append)
qed

text \<open>The frames of a message encode, into at most the frame size asked for.\<close>

lemma message_frames_encode:
  assumes "fragment_message meta msg mtu = Inr fs" and "meta_ok meta" and "f \<in> set fs"
  obtains bs where "frame_encode f = Inr bs" and "length bs \<le> mtu" and "frame_ok f"
proof -
  from assms(1) obtain ps where fs: "fs = frames_of meta ps" and n: "length ps \<le> 32"
    and p: "\<And>p. p \<in> set ps \<Longrightarrow> length p \<le> mtu - 16" and mtu: "16 \<le> mtu" "mtu \<le> 256"
    by (rule fragment_message_frames) blast
  have "length p \<le> 240" if "p \<in> set ps" for p using p[OF that] mtu by simp
  then have ok: "frame_ok f" using frames_of_ok[OF assms(2) n] assms(3) fs by blast
  then obtain bs where bs: "frame_encode f = Inr bs" by (simp add: frame_encode_Inr)
  have "f_payload f \<in> set ps" using assms(3) fs by (auto simp: frames_of_def meta_frame_def)
  then have "length (f_payload f) \<le> mtu - 16" by (rule p)
  then have "length bs \<le> mtu" using frame_encode_length[OF bs] mtu(1) unfolding frame_encoded_len_def by linarith
  with bs ok show thesis by (intro that)
qed

lemma delivers_message:
  assumes "fragment_message meta msg mtu = Inr fs" and "meta_ok meta"
    and "length msg \<le> rc_max_message_bytes (ra_config r)"
    and "length fs \<le> unat (rc_max_fragments (ra_config r))"
    and "reassembler_inv r" and "\<not> has_in_flight r (m_stream_id meta) (m_sequence meta)"
    and "card (table_keys r \<union> fkey ` set traffic) \<le> rc_max_contexts (ra_config r)"
    and "filter (\<lambda>f. fkey f = meta_key meta) traffic = hs @ [f]"
    and "set hs \<union> {f} = set fs" and "f \<notin> set hs"
  shows "answers_for (meta_key meta) traffic (snd (run_machine reassembler_push r traffic)) =
    replicate (length hs) (Inr None) @ [Inr (Some (whole_message meta msg))]"
proof -
  from assms(1) obtain ps where fs: "fs = frames_of meta ps" and msg: "concat ps = msg"
    and n: "0 < length ps" "length ps \<le> 32" and p: "\<And>p. p \<in> set ps \<Longrightarrow> length p \<le> mtu - 16"
    and mtu: "mtu \<le> 256"
    by (rule fragment_message_frames) blast
  have "length p \<le> 240" if "p \<in> set ps" for p using p[OF that] mtu by simp
  then have d: "deliverable (ra_config r) meta ps"
    using assms(2,3,4) n fs msg by (simp add: deliverable_def)
  have "lookup_context r (meta_key meta) = None"
    using assms(6) by (auto simp: has_in_flight_def lookup_context_def find_None_iff list_ex_iff
        ckey_def meta_key_def)
  then show ?thesis
    using keyed_run[OF assms(5,7), of "meta_key meta"] assms(8)
      message_run[OF d, of hs f] assms(9,10) fs msg by simp
qed

lemma delivers_alone:
  assumes "fragment_message meta msg mtu = Inr fs" and "meta_ok meta"
    and "length msg \<le> rc_max_message_bytes (ra_config r)"
    and "length fs \<le> unat (rc_max_fragments (ra_config r))"
    and "reassembler_inv r" and "ra_contexts r = []"
    and "set hs \<union> {f} = set fs" and "f \<notin> set hs"
  shows "snd (run_machine reassembler_push r (hs @ [f])) =
    replicate (length hs) (Inr None) @ [Inr (Some (whole_message meta msg))]"
proof -
  obtain ps where "fs = frames_of meta ps" by (rule fragment_message_frames[OF assms(1)])
  then have key: "fkey g = meta_key meta" if "g \<in> set (hs @ [f])" for g
    using that assms(7) frames_of_key by auto
  then have fl: "filter (\<lambda>g. fkey g = meta_key meta) (hs @ [f]) = hs @ [f]" by simp
  have "fkey ` set (hs @ [f]) = {meta_key meta}" using key by auto
  then have keys: "table_keys r \<union> fkey ` set (hs @ [f]) = {meta_key meta}"
    using assms(6) by (simp add: table_keys_def)
  have "0 < rc_max_contexts (ra_config r)" using assms(5) by (simp add: reassembler_inv_def config_ok_def)
  then have room: "card (table_keys r \<union> fkey ` set (hs @ [f])) \<le> rc_max_contexts (ra_config r)"
    unfolding keys by simp
  have "\<not> has_in_flight r (m_stream_id meta) (m_sequence meta)" using assms(6) by (simp add: has_in_flight_def)
  moreover have "answers_for (meta_key meta) (hs @ [f]) outs = outs" if "length outs = length (hs @ [f])" for outs
  proof -
    have "filter (\<lambda>(g, out). fkey g = meta_key meta) (zip (hs @ [f]) outs) = zip (hs @ [f]) outs"
      using key by (auto simp: filter_id_conv dest!: set_zip_leftD)
    then show ?thesis using that by (simp add: answers_for_def del: zip_append)
  qed
  ultimately show ?thesis
    using delivers_message[OF assms(1-5) _ room fl assms(7,8)] by (simp add: length_run_machine)
qed

section \<open>Errors\<close>

text \<open>
  The only error that changes the table is the byte limit on a key's first fragment: the
  context has already been pushed when the limit is checked.
\<close>

lemma context_push_new_error:
  assumes "frame_ok f" and "context_push cfg (new_context f) f = (co, Inl e)"
  shows "e = LimitExceeded \<and> co = Some (new_context f) \<and> length (f_payload f) > rc_max_message_bytes cfg"
proof -
  have "unat (f_fragment_index f) < unat (f_fragment_count f)"
    using frame_okD(5)[OF assms(1)] by (simp add: word_less_nat_alt)
  then show ?thesis
    using assms(2)
    by (auto simp: context_push_def new_context_def Let_def assemble_def rbind_eq_Inl list_ex_iff
        dest: concat_parts_None split: if_splits option.splits)
qed

lemma context_push_error: "context_push cfg c f = (co, Inl e) \<Longrightarrow> co = Some c"
  by (auto simp: context_push_def Let_def assemble_def rbind_eq_Inl list_ex_iff
      dest: concat_parts_None split: if_splits option.splits)

lemma push_error:
  assumes inv: "reassembler_inv r" and err: "reassembler_push r f = (r2, Inl e)"
  shows "r2 = r \<or> e = LimitExceeded \<and> lookup_context r (fkey f) = None \<and>
    length (f_payload f) > rc_max_message_bytes (ra_config r) \<and>
    r2 = r\<lparr> ra_contexts := ra_contexts r @ [new_context f] \<rparr>"
proof (cases "frame_ok f \<and> f_fragment_count f \<le> rc_max_fragments (ra_config r) \<and> with_context r f \<noteq> None")
  case False
  then show ?thesis
    using err by (auto simp: reassembler_push_eq frame_ok_def not_le split: sum.splits option.splits if_splits)
next
  case True
  then obtain r' index where w: "with_context r f = Some (r', index)"
    and ok: "frame_ok f" and cnt: "f_fragment_count f \<le> rc_max_fragments (ra_config r)" by auto
  note wc = with_context_SomeD[OF w inv ok cnt]
  obtain co where cp: "context_push (ra_config r) (ra_contexts r' ! index) f = (co, Inl e)"
    and r2: "r2 = store_context r' index co"
    using err ok cnt w by (auto simp: reassembler_push_eq frame_ok_def leD split: prod.splits)
  have r2': "r2 = r'" using context_push_error[OF cp] r2 by (simp add: store_context_def)
  show ?thesis
  proof (cases "lookup_context r (fkey f)")
    case None
    then have "r' = r\<lparr> ra_contexts := ra_contexts r @ [new_context f] \<rparr>"
      using w by (auto simp: with_context_def lookup_context_def find_None_iff
          dest: position_SomeD split: option.splits if_splits)
    then show ?thesis using None r2' wc(5) cp context_push_new_error[OF ok] by auto
  next
    case (Some c)
    then have "r' = r"
      using w by (auto simp: with_context_def lookup_context_def find_None_iff find_Some_iff
          split: option.splits if_splits)
    then show ?thesis using r2' by simp
  qed
qed

section \<open>Properties\<close>

text \<open>Fragments fit the link: when \<open>fragment_message\<close> succeeds for valid metadata,
  every frame encodes, into at most \<open>frame_mtu\<close> bytes, the frames are at most 32, they
  number themselves 0 to n-1 of n, and their payloads concatenate to the message.\<close>

theorem fragment_message_frames_fit:
  assumes "fragment_message meta msg mtu = Inr fs" and "meta_ok meta"
  shows "concat (map f_payload fs) = msg \<and> length fs \<le> 32 \<and>
    (\<forall>i<length fs. unat (f_fragment_index (fs ! i)) = i \<and> unat (f_fragment_count (fs ! i)) = length fs \<and>
      (\<exists>bs. frame_encode (fs ! i) = Inr bs \<and> length bs \<le> mtu))"
proof -
  from assms(1) obtain ps where fs: "fs = frames_of meta ps" and msg: "concat ps = msg"
    and n: "length ps \<le> 32" and p: "\<And>p. p \<in> set ps \<Longrightarrow> length p \<le> mtu - 16"
    and mtu: "16 \<le> mtu" "mtu \<le> 256"
    by (rule fragment_message_frames) blast
  have "length p \<le> 240" if "p \<in> set ps" for p using p[OF that] mtu by simp
  then have ok: "frame_ok f" if "f \<in> set fs" for f
    using that frames_of_ok[OF assms(2) n] fs by blast
  have "\<exists>bs. frame_encode f = Inr bs \<and> length bs \<le> mtu" if f: "f \<in> set fs" for f
  proof -
    have "length (f_payload f) \<le> mtu - 16"
      using f p by (auto simp: fs frames_of_def meta_frame_def)
    then show ?thesis
      using ok[OF f] mtu(1) by (auto simp: frame_encode_Inr)
  qed
  moreover have "map f_payload fs = ps"
    by (intro nth_equalityI) (simp_all add: fs frames_of_def meta_frame_def)
  moreover have "unat (f_fragment_index (fs ! i)) = i \<and> unat (f_fragment_count (fs ! i)) = length fs"
    if "i < length fs" for i
    using that n by (simp add: fs frames_of_def meta_frame_def)
  moreover have "length fs \<le> 32" using n fs by simp
  ultimately show ?thesis using msg nth_mem by auto
qed

definition demo_meta :: fragment_meta where
  "demo_meta = \<lparr> m_profile = Wifi, m_flags = FLAGS_NONE, m_stream_id = 7, m_sequence = 9,
     m_class = Telemetry, m_priority = 3, m_state_tag = 0x1234 \<rparr>"

lemma demo_meta_ok: "meta_ok demo_meta"
  by (simp add: meta_ok_def demo_meta_def FLAGS_NONE_def)

lemma demo_fragments:
  "fragment_message demo_meta [1, 2, 3] 18 =
     Inr [meta_frame demo_meta 0 2 [1, 2], meta_frame demo_meta 1 2 [3]]"
  by (simp add: fragment_message_def Let_def div_ceil_def chunks.simps)

theorem fragment_message_frames_fit_witness:
  "\<exists>fs. fragment_message demo_meta [1, 2, 3] 18 = Inr fs \<and> concat (map f_payload fs) = [1, 2, 3] \<and>
     (\<forall>i<length fs. \<exists>bs. frame_encode (fs ! i) = Inr bs \<and> length bs \<le> 18)"
  using fragment_message_frames_fit[OF demo_fragments demo_meta_ok] demo_fragments by blast

text \<open>C6. A fragmented message survives interleaving, reordering and duplication: in any
  traffic whose keys fit the table, the answers to the frames of the message are \<open>Ok(None)\<close>
  until its last missing fragment arrives, and then the message itself, with its metadata.\<close>

theorem reassembly_delivers:
  assumes "fragment_message meta msg mtu = Inr fs" and "meta_ok meta"
    and "length msg \<le> rc_max_message_bytes (ra_config r)"
    and "length fs \<le> unat (rc_max_fragments (ra_config r))"
    and "reassembler_inv r" and "\<not> has_in_flight r (m_stream_id meta) (m_sequence meta)"
    and "card (table_keys r \<union> fkey ` set traffic) \<le> rc_max_contexts (ra_config r)"
    and "filter (\<lambda>f. fkey f = meta_key meta) traffic = hs @ [f]"
    and "set hs \<union> {f} = set fs" and "f \<notin> set hs"
  shows "answers_for (meta_key meta) traffic (snd (run_machine reassembler_push r traffic)) =
    replicate (length hs) (Inr None) @ [Inr (Some (whole_message meta msg))]"
  by (rule delivers_message[OF assms])

definition demo_table :: reassembler where
  "demo_table = \<lparr> ra_config = reassembler_config_default, ra_contexts = [] \<rparr>"

definition demo_traffic :: "sparse_radio_frame list" where
  "demo_traffic = [meta_frame demo_meta 1 2 [3], meta_frame (demo_meta\<lparr> m_sequence := 10 \<rparr>) 0 1 [],
     meta_frame demo_meta 1 2 [3], meta_frame demo_meta 0 2 [1, 2]]"

theorem reassembly_delivers_witness:
  "answers_for (7, 9) demo_traffic (snd (run_machine reassembler_push demo_table demo_traffic)) =
     [Inr None, Inr None, Inr (Some (whole_message demo_meta [1, 2, 3]))]"
proof -
  have key: "meta_key demo_meta = (7, 9)" by (simp add: meta_key_def demo_meta_def)
  have inv: "reassembler_inv demo_table"
    by (rule reassembler_new_inv[of reassembler_config_default])
      (simp add: reassembler_new_def demo_table_def reassembler_config_default_def)
  have fl: "filter (\<lambda>f. fkey f = meta_key demo_meta) demo_traffic =
      [meta_frame demo_meta 1 2 [3], meta_frame demo_meta 1 2 [3]] @ [meta_frame demo_meta 0 2 [1, 2]]"
    by (simp add: demo_traffic_def fkey_def meta_key_def meta_frame_def demo_meta_def)
  have keys: "table_keys demo_table \<union> fkey ` set demo_traffic = {(7, 9), (7, 10)}"
    by (auto simp: demo_traffic_def table_keys_def demo_table_def fkey_def meta_frame_def demo_meta_def)
  have cfg: "length [1, 2, 3 :: u8] \<le> rc_max_message_bytes (ra_config demo_table)"
    "length [meta_frame demo_meta 0 2 [1, 2], meta_frame demo_meta 1 2 [3]] \<le> unat (rc_max_fragments (ra_config demo_table))"
    "\<not> has_in_flight demo_table (m_stream_id demo_meta) (m_sequence demo_meta)"
    "card {(7 :: u16, 9 :: u16), (7, 10)} \<le> rc_max_contexts (ra_config demo_table)"
    by (simp_all add: demo_table_def reassembler_config_default_def has_in_flight_def)
  have fresh: "meta_frame demo_meta 0 2 [1, 2] \<notin> set [meta_frame demo_meta 1 2 [3], meta_frame demo_meta 1 2 [3]]"
    "set [meta_frame demo_meta 1 2 [3], meta_frame demo_meta 1 2 [3]] \<union> {meta_frame demo_meta 0 2 [1, 2]} =
      set [meta_frame demo_meta 0 2 [1, 2], meta_frame demo_meta 1 2 [3]]"
    by (auto simp: meta_frame_def)
  show ?thesis
    using reassembly_delivers[OF demo_fragments demo_meta_ok cfg(1,2) inv cfg(3) _ fl fresh(2,1)] cfg(4)
    by (simp add: keys key numeral_eq_Suc)
qed

text \<open>The table stays bounded and well formed: from a fresh table, no sequence of pushes
  and clears makes it hold more contexts than configured, two contexts of one key, a
  context past the byte or fragment limit, a wrong byte count or a complete context.\<close>

theorem reassembler_stays_bounded:
  assumes "reassembler_new cfg = Inr r"
  shows "reassembler_inv (fst (run_machine reassembler_step r ops))"
  using assms by (intro reassembly.run_inv reassembler_new_inv)

theorem reassembler_stays_bounded_witness:
  "reassembler_inv (fst (run_machine reassembler_step demo_table
     [OpPush (meta_frame demo_meta 1 2 [3]), OpClear 7 9]))"
  by (rule reassembler_stays_bounded[of reassembler_config_default])
    (simp add: reassembler_new_def demo_table_def reassembler_config_default_def)

text \<open>A rejected frame changes nothing, with one exception: a first fragment longer than
  the configured message limit is refused with \<open>LimitExceeded\<close> but leaves an empty context
  of its key behind, which occupies a slot of the table.\<close>

theorem push_error_effect:
  assumes "reassembler_inv r" and "reassembler_push r f = (r', Inl e)"
  shows "r' = r \<or> e = LimitExceeded \<and> lookup_context r (fkey f) = None \<and>
    length (f_payload f) > rc_max_message_bytes (ra_config r) \<and>
    r' = r\<lparr> ra_contexts := ra_contexts r @ [new_context f] \<rparr>"
  using assms by (rule push_error)

definition tiny_table :: reassembler where
  "tiny_table = \<lparr> ra_config = \<lparr> rc_max_contexts = 1, rc_max_message_bytes = 2, rc_max_fragments = 4 \<rparr>,
     ra_contexts = [] \<rparr>"

lemma tiny_table_inv: "reassembler_inv tiny_table"
  by (simp add: reassembler_inv_def tiny_table_def config_ok_def)

lemma demo_fragment_ok: "frame_validate (meta_frame demo_meta 0 1 [1, 2, 3]) = Inr ()"
  by (simp add: frame_validate_Inr meta_frame_def demo_meta_def FLAGS_NONE_def)

lemma tiny_push:
  "reassembler_push tiny_table (meta_frame demo_meta 0 1 [1, 2, 3]) =
     (tiny_table\<lparr> ra_contexts := [new_context (meta_frame demo_meta 0 1 [1, 2, 3])] \<rparr>, Inl LimitExceeded)"
  by (simp add: reassembler_push_def demo_fragment_ok push_at_def tiny_table_def new_context_def Let_def)
    (simp add: meta_frame_def)

theorem push_error_effect_witness:
  "\<exists>r'. reassembler_push tiny_table (meta_frame demo_meta 0 1 [1, 2, 3]) = (r', Inl LimitExceeded) \<and>
     r' \<noteq> tiny_table \<and> has_in_flight r' 7 9"
  using push_error_effect[OF tiny_table_inv tiny_push] tiny_push
  by (simp add: has_in_flight_def) (simp add: tiny_table_def new_context_def meta_frame_def demo_meta_def)

end
