(* ===== verification/Meshtastic_Adapter.thy ===== *)
theory Meshtastic_Adapter
  imports Meshtastic_Data Framing Fragment
begin

text \<open>
  \<open>latentmesh-meshtastic/src/adapter.rs\<close>: the adapter that fragments a message, wraps each fragment
  as one packet of the device API, and reassembles what comes undo; and the receiver that pairs it
  with the push decoder. An operation on \<open>&mut self\<close> returns the updated state beside its result.
\<close>

abbreviation (input) MESHTASTIC_FRAME_MTU :: nat where "MESHTASTIC_FRAME_MTU \<equiv> 227"

record outgoing_message =
  og_flags :: frame_flags
  og_stream_id :: u16
  og_sequence :: u16
  og_class :: semantic_class
  og_priority :: u8
  og_state_tag :: u16
  og_message :: bytes

record meshtastic_adapter =
  ma_reassembler :: reassembler
  ma_destination :: u32

definition adapter_with_config :: "reassembler_config \<Rightarrow> meshtastic_adapter mesh_result" where
  "adapter_with_config config =
     rbind (from_air (reassembler_new config)) (\<lambda>r.
       Inr \<lparr> ma_reassembler = r, ma_destination = BROADCAST_ADDR \<rparr>)"

definition adapter_new :: "meshtastic_adapter mesh_result" where
  "adapter_new = adapter_with_config reassembler_config_default"

definition set_destination :: "meshtastic_adapter \<Rightarrow> u32 \<Rightarrow> meshtastic_adapter" where
  "set_destination a dest = a\<lparr> ma_destination := dest \<rparr>"

definition encode_one_packet :: "meshtastic_adapter \<Rightarrow> sparse_radio_frame \<Rightarrow> bytes mesh_result" where
  "encode_one_packet a f =
     rbind (from_air (frame_encode f)) (\<lambda>air_bytes.
       let to_radio = encode_to_radio_data (ma_destination a) PRIVATE_APP_PORTNUM air_bytes in
       case write_frame [] to_radio of None \<Rightarrow> Inl FrameTooLarge | Some out \<Rightarrow> Inr out)"

definition outgoing_meta :: "outgoing_message \<Rightarrow> fragment_meta" where
  "outgoing_meta og =
     \<lparr> m_profile = Meshtastic, m_flags = og_flags og, m_stream_id = og_stream_id og,
       m_sequence = og_sequence og, m_class = og_class og, m_priority = og_priority og,
       m_state_tag = og_state_tag og \<rparr>"

definition encode_message :: "meshtastic_adapter \<Rightarrow> outgoing_message \<Rightarrow> bytes list mesh_result" where
  "encode_message a og =
     rbind (from_air (fragment_message (outgoing_meta og) (og_message og) MESHTASTIC_FRAME_MTU))
       (\<lambda>frames. try_map (encode_one_packet a) frames)"

type_synonym ingest_output = "reassembled_message option mesh_result"

definition ingest_air_payload :: "meshtastic_adapter \<Rightarrow> bytes \<Rightarrow> meshtastic_adapter \<times> ingest_output" where
  "ingest_air_payload a payload =
     (case frame_decode payload of
        Inl e \<Rightarrow> (a, Inl (Air e))
      | Inr f \<Rightarrow> (case reassembler_push (ma_reassembler a) f of
          (r, out) \<Rightarrow> (a\<lparr> ma_reassembler := r \<rparr>, from_air out)))"

definition ingest_from_radio :: "meshtastic_adapter \<Rightarrow> bytes \<Rightarrow> meshtastic_adapter \<times> ingest_output" where
  "ingest_from_radio a body =
     (case decode_from_radio body of
        Inl e \<Rightarrow> (a, Inl e)
      | Inr None \<Rightarrow> (a, Inr None)
      | Inr (Some received) \<Rightarrow>
          if rd_portnum received \<noteq> PRIVATE_APP_PORTNUM then (a, Inr None)
          else ingest_air_payload a (rd_payload received))"

section \<open>The streaming receiver\<close>

record streaming_receiver =
  sr_adapter :: meshtastic_adapter
  sr_decoder :: frame_decoder
  sr_ready :: "reassembled_message list"

definition streaming_new :: "meshtastic_adapter \<Rightarrow> streaming_receiver" where
  "streaming_new a = \<lparr> sr_adapter = a, sr_decoder = frame_decoder_new, sr_ready = [] \<rparr>"

text \<open>The loop \<open>while let Some(body) = self.decoder.pull()\<close>.\<close>

function drain_ready :: "streaming_receiver \<Rightarrow> streaming_receiver \<times> unit mesh_result" where
  "drain_ready s =
     (case pull (sr_decoder s) of
        (_, None) \<Rightarrow> (s, Inr ())
      | (d, Some body) \<Rightarrow>
          (case ingest_from_radio (sr_adapter s) body of
             (a, Inl e) \<Rightarrow> (s\<lparr> sr_decoder := d, sr_adapter := a \<rparr>, Inl e)
           | (a, Inr None) \<Rightarrow> drain_ready (s\<lparr> sr_decoder := d, sr_adapter := a \<rparr>)
           | (a, Inr (Some message)) \<Rightarrow>
               drain_ready (s\<lparr> sr_decoder := d, sr_adapter := a, sr_ready := sr_ready s @ [message] \<rparr>)))"
  by pat_completeness auto
termination
  by (relation "measure (\<lambda>s. length (fd_ready (sr_decoder s)))")
    (auto simp: pull_def split: list.splits)

declare drain_ready.simps [simp del]

definition streaming_push :: "streaming_receiver \<Rightarrow> bytes \<Rightarrow> streaming_receiver \<times> unit mesh_result" where
  "streaming_push s chunk = drain_ready (s\<lparr> sr_decoder := push_chunk (sr_decoder s) chunk \<rparr>)"

definition next_message :: "streaming_receiver \<Rightarrow> streaming_receiver \<times> reassembled_message option" where
  "next_message s =
     (case sr_ready s of [] \<Rightarrow> (s, None) | m # ms \<Rightarrow> (s\<lparr> sr_ready := ms \<rparr>, Some m))"

section \<open>Invariants\<close>

definition adapter_inv :: "meshtastic_adapter \<Rightarrow> bool" where
  "adapter_inv a \<longleftrightarrow> reassembler_inv (ma_reassembler a)"

lemma adapter_new_inv: "adapter_with_config cfg = Inr a \<Longrightarrow> adapter_inv a \<and> ra_config (ma_reassembler a) = cfg"
proof -
  assume "adapter_with_config cfg = Inr a"
  then obtain r where "reassembler_new cfg = Inr r" and "a = \<lparr> ma_reassembler = r, ma_destination = BROADCAST_ADDR \<rparr>"
    by (auto simp: adapter_with_config_def from_air_def split: sum.splits)
  then show ?thesis
    using reassembler_new_inv[of cfg r] by (auto simp: adapter_inv_def reassembler_new_def split: if_splits)
qed

lemma adapter_new_fresh: "adapter_with_config cfg = Inr a \<Longrightarrow> ra_contexts (ma_reassembler a) = []"
  by (auto simp: adapter_with_config_def from_air_def reassembler_new_def split: sum.splits if_splits)

lemma ingest_air_inv: "adapter_inv a \<Longrightarrow> adapter_inv (fst (ingest_air_payload a payload))"
  using push_inv by (simp add: adapter_inv_def ingest_air_payload_def case_prod_beta split: sum.split)

lemma ingest_inv: "adapter_inv a \<Longrightarrow> adapter_inv (fst (ingest_from_radio a body))"
  by (auto simp: ingest_from_radio_def ingest_air_inv split: sum.splits option.splits)

interpretation adapter: machine adapter_inv ingest_from_radio
  by unfold_locales (rule ingest_inv)

definition streaming_inv :: "streaming_receiver \<Rightarrow> bool" where
  "streaming_inv s \<longleftrightarrow> adapter_inv (sr_adapter s) \<and> decoder_inv (sr_decoder s)"

lemma pull_inv: "decoder_inv d \<Longrightarrow> decoder_inv (fst (pull d))"
  by (cases "fd_ready d"; cases "fd_state d") (simp_all add: decoder_inv_def pull_def)

lemma push_chunk_inv: "decoder_inv d \<Longrightarrow> decoder_inv (push_chunk d bs)"
  by (induction bs arbitrary: d) (simp_all add: push_byte_inv)

lemma drain_inv: "streaming_inv s \<Longrightarrow> streaming_inv (fst (drain_ready s))"
proof (induction s rule: drain_ready.induct)
  case (1 s)
  obtain d b where p: "pull (sr_decoder s) = (d, b)" by fastforce
  have d: "decoder_inv d" using pull_inv[of "sr_decoder s"] "1.prems" p by (simp add: streaming_inv_def)
  show ?case
  proof (cases b)
    case None
    then show ?thesis using "1.prems" p by (simp add: drain_ready.simps[of s])
  next
    case (Some body)
    obtain a r where i: "ingest_from_radio (sr_adapter s) body = (a, r)" by fastforce
    have a: "adapter_inv a"
      using ingest_inv[of "sr_adapter s" body] "1.prems" i by (simp add: streaming_inv_def)
    then show ?thesis
      using "1.IH" p i Some d
      by (auto simp: drain_ready.simps[of s] streaming_inv_def split: sum.splits option.splits)
  qed
qed

interpretation streaming: machine streaming_inv streaming_push
  by unfold_locales
    (simp add: streaming_push_def drain_inv, rule drain_inv, simp add: streaming_inv_def push_chunk_inv)

section \<open>One packet there and undo\<close>

text \<open>What the module's loopback tests do with a packet: strip its frame, let the node echo it, and
  frame the echo.\<close>

definition simulate_node_echo :: "bytes \<Rightarrow> bytes option" where
  "simulate_node_echo to_radio_framed =
     (case decode_single_frame to_radio_framed of
        Inl _ \<Rightarrow> None
      | Inr body \<Rightarrow> Option.bind (simulate_node_echo_as_from_radio body) (write_frame []))"

definition air_of_body :: "bytes \<Rightarrow> sparse_radio_frame option" where
  "air_of_body body =
     (case decode_from_radio body of
        Inr (Some received) \<Rightarrow>
          if rd_portnum received = PRIVATE_APP_PORTNUM
          then (case frame_decode (rd_payload received) of Inl _ \<Rightarrow> None | Inr f \<Rightarrow> Some f)
          else None
      | _ \<Rightarrow> None)"

lemma ingest_air_of_body:
  "air_of_body body = Some f \<Longrightarrow> ingest_from_radio a body =
     (a\<lparr> ma_reassembler := fst (reassembler_push (ma_reassembler a) f) \<rparr>,
      from_air (snd (reassembler_push (ma_reassembler a) f)))"
  by (auto simp: air_of_body_def ingest_from_radio_def ingest_air_payload_def case_prod_beta
      split: sum.splits option.splits if_splits)

lemma encode_one_packet_ok:
  assumes "frame_encode f = Inr air" and "length air \<le> 227"
  shows "encode_one_packet a f = Inr (framed (encode_to_radio_data (ma_destination a) 256 air))"
    and "length (framed (encode_to_radio_data (ma_destination a) 256 air)) \<le> 248"
  using assms to_radio_length[OF assms(2), of "ma_destination a"]
  by (simp_all add: encode_one_packet_def Let_def write_frame_def framed_def)

lemma packet_echo:
  assumes "frame_encode f = Inr air" and "length air \<le> 227" and "encode_one_packet a f = Inr packet"
  obtains body where "simulate_node_echo packet = Some (framed body)" and "length body \<le> 512"
    and "air_of_body body = Some f"
proof -
  let ?out = "encode_to_radio_data (ma_destination a) 256 air"
  obtain body where body: "simulate_node_echo_as_from_radio ?out = Some body"
    "decode_from_radio body = Inr (Some \<lparr> rd_from = 0, rd_portnum = 256, rd_payload = air \<rparr>)"
    "length body \<le> length air + 28"
    using assms(2) by (auto intro: echo_decodes[of air "ma_destination a" 256])
  have "decode_single_frame packet = Inr ?out"
    unfolding single_frame_iff
    using encode_one_packet_ok[OF assms(1,2), of a] to_radio_length[OF assms(2), of "ma_destination a"] assms(3)
    by (simp add: write_frame_iff)
  then have "simulate_node_echo packet = Some (framed body)"
    using body(1,3) assms(2) by (simp add: simulate_node_echo_def write_frame_def framed_def Let_def)
  moreover have "air_of_body body = Some f"
    using body(2) frame_decode_encode[OF assms(1)] by (simp add: air_of_body_def)
  ultimately show thesis using body(3) assms(2) by (intro that) simp_all
qed

lemma encode_message_packets:
  assumes "meta_ok (outgoing_meta og)"
  shows "encode_message a og =
    (case fragment_message (outgoing_meta og) (og_message og) MESHTASTIC_FRAME_MTU of
       Inl e \<Rightarrow> Inl (Air e)
     | Inr fs \<Rightarrow> Inr (map (\<lambda>f. framed (encode_to_radio_data (ma_destination a) 256
         (case frame_encode f of Inr air \<Rightarrow> air))) fs))"
proof (cases "fragment_message (outgoing_meta og) (og_message og) MESHTASTIC_FRAME_MTU")
  case (Inr fs)
  have "encode_one_packet a f = Inr (framed (encode_to_radio_data (ma_destination a) 256
      (case frame_encode f of Inr air \<Rightarrow> air)))" if f: "f \<in> set fs" for f
  proof -
    obtain air where "frame_encode f = Inr air" and "length air \<le> 227"
      using message_frames_encode[OF Inr assms f] by blast
    then show ?thesis using encode_one_packet_ok(1) by simp
  qed
  then have "try_map (encode_one_packet a) fs = Inr (map (\<lambda>f. framed (encode_to_radio_data (ma_destination a) 256
      (case frame_encode f of Inr air \<Rightarrow> air))) fs)"
    by (rule try_map_total)
  then show ?thesis using Inr by (simp add: encode_message_def)
qed (simp add: encode_message_def)

section \<open>The receiver under any chunking\<close>

lemma push_byte_ready:
  "push_byte (d\<lparr> fd_ready := xs @ fd_ready d \<rparr>) b = (push_byte d b)\<lparr> fd_ready := xs @ fd_ready (push_byte d b) \<rparr>"
  by (cases d) (simp add: push_byte_def Let_def split: decoder_state.split)

lemma push_chunk_ready:
  "push_chunk (d\<lparr> fd_ready := xs @ fd_ready d \<rparr>) bs = (push_chunk d bs)\<lparr> fd_ready := xs @ fd_ready (push_chunk d bs) \<rparr>"
proof (induction bs arbitrary: d)
  case (Cons b bs)
  then show ?case using push_byte_ready[of xs d b] by simp
qed simp

definition delivered :: "ingest_output list \<Rightarrow> reassembled_message list" where
  "delivered outs = concat (map (\<lambda>out. case out of Inr (Some m) \<Rightarrow> [m] | _ \<Rightarrow> []) outs)"

lemma delivered_simps [simp]:
  "delivered [] = []" "delivered (Inr (Some m) # outs) = m # delivered outs"
  "delivered (Inr None # outs) = delivered outs" "delivered (xs @ ys) = delivered xs @ delivered ys"
  by (simp_all add: delivered_def)

lemma drain_all:
  assumes "list_all is_ok (snd (run_machine ingest_from_radio (sr_adapter s) (fd_ready (sr_decoder s))))"
  shows "drain_ready s =
    (s\<lparr> sr_adapter := fst (run_machine ingest_from_radio (sr_adapter s) (fd_ready (sr_decoder s))),
        sr_decoder := (sr_decoder s)\<lparr> fd_ready := [] \<rparr>,
        sr_ready := sr_ready s @
          delivered (snd (run_machine ingest_from_radio (sr_adapter s) (fd_ready (sr_decoder s)))) \<rparr>, Inr ())"
  using assms
proof (induction s rule: drain_ready.induct)
  case (1 s)
  show ?case
  proof (cases "fd_ready (sr_decoder s)")
    case Nil
    then have "(sr_decoder s)\<lparr> fd_ready := [] \<rparr> = sr_decoder s" by (cases "sr_decoder s") simp
    then have "s\<lparr> sr_adapter := sr_adapter s, sr_decoder := (sr_decoder s)\<lparr> fd_ready := [] \<rparr>, sr_ready := sr_ready s \<rparr> = s"
      by (cases s) simp
    moreover have "drain_ready s = (s, Inr ())" using Nil by (simp add: drain_ready.simps[of s] pull_def)
    ultimately show ?thesis using Nil by simp
  next
    case (Cons body rest)
    let ?d = "(sr_decoder s)\<lparr> fd_ready := rest \<rparr>"
    have p: "pull (sr_decoder s) = (?d, Some body)" using Cons by (simp add: pull_def)
    obtain a r where i: "ingest_from_radio (sr_adapter s) body = (a, r)" by fastforce
    obtain m where r: "r = Inr m" using "1.prems" Cons i by (auto simp: is_ok_iff Let_def case_prod_beta)
    have rest: "list_all is_ok (snd (run_machine ingest_from_radio a rest))"
      using "1.prems" Cons i by (simp add: Let_def case_prod_beta)
    let ?s = "s\<lparr> sr_decoder := ?d, sr_adapter := a, sr_ready := sr_ready s @ delivered [Inr m] \<rparr>"
    have step: "drain_ready s = drain_ready ?s"
      using p i r by (cases m) (simp_all add: drain_ready.simps[of s])
    have "drain_ready ?s = (?s\<lparr> sr_adapter := fst (run_machine ingest_from_radio a rest),
        sr_decoder := ?d\<lparr> fd_ready := [] \<rparr>,
        sr_ready := sr_ready ?s @ delivered (snd (run_machine ingest_from_radio a rest)) \<rparr>, Inr ())"
    proof (cases m)
      case None
      have "s\<lparr> sr_decoder := ?d, sr_adapter := a \<rparr> = ?s" using None by (cases s) simp
      then show ?thesis using "1.IH"(1)[OF p[symmetric] refl i[symmetric] r None] r rest by simp
    next
      case (Some v)
      then show ?thesis using "1.IH"(2)[OF p[symmetric] refl i[symmetric] r Some] r rest by simp
    qed
    then show ?thesis using step Cons i r by (cases m) (simp_all add: Let_def case_prod_beta)
  qed
qed



lemma streaming_run:
  assumes "fd_ready (sr_decoder s) = []"
    and "list_all is_ok (snd (run_machine ingest_from_radio (sr_adapter s)
      (fd_ready (push_chunk (sr_decoder s) (concat pieces)))))"
  shows "snd (run_machine streaming_push s pieces) = replicate (length pieces) (Inr ()) \<and>
    sr_ready (fst (run_machine streaming_push s pieces)) = sr_ready s @
      delivered (snd (run_machine ingest_from_radio (sr_adapter s)
        (fd_ready (push_chunk (sr_decoder s) (concat pieces)))))"
  using assms
proof (induction pieces arbitrary: s)
  case Nil
  then show ?case by simp
next
  case (Cons c cs)
  let ?d1 = "push_chunk (sr_decoder s) c"
  let ?b1 = "fd_ready ?d1"
  let ?run1 = "run_machine ingest_from_radio (sr_adapter s) ?b1"
  let ?d2 = "?d1\<lparr> fd_ready := [] \<rparr>"
  let ?b2 = "fd_ready (push_chunk ?d2 (concat cs))"
  have "?d1 = ?d2\<lparr> fd_ready := ?b1 @ fd_ready ?d2 \<rparr>" by (cases ?d1) simp
  then have "push_chunk ?d1 (concat cs) = (push_chunk ?d2 (concat cs))\<lparr> fd_ready := ?b1 @ ?b2 \<rparr>"
    using push_chunk_ready[of ?b1 ?d2 "concat cs"] by metis
  then have split: "fd_ready (push_chunk (sr_decoder s) (concat (c # cs))) = ?b1 @ ?b2" by simp
  have ok: "list_all is_ok (snd ?run1)"
    and ok2: "list_all is_ok (snd (run_machine ingest_from_radio (fst ?run1) ?b2))"
    using Cons.prems(2) unfolding split by (simp_all add: run_machine_append case_prod_beta Let_def)
  let ?s1 = "s\<lparr> sr_adapter := fst ?run1, sr_decoder := ?d2, sr_ready := sr_ready s @ delivered (snd ?run1) \<rparr>"
  have step: "streaming_push s c = (?s1, Inr ())"
    using drain_all[of "s\<lparr> sr_decoder := ?d1 \<rparr>"] ok by (simp add: streaming_push_def)
  show ?case
    using Cons.IH[of ?s1] ok2 step unfolding split
    by (simp add: run_machine_append case_prod_beta Let_def)
qed

lemma ingest_bodies:
  assumes "list_all (\<lambda>f. air_of_body (bd f) = Some f) fs"
  shows "snd (run_machine ingest_from_radio a (map bd fs)) =
    map from_air (snd (run_machine reassembler_push (ma_reassembler a) fs))"
  using assms
proof (induction fs arbitrary: a)
  case (Cons f fs)
  then show ?case by (simp add: ingest_air_of_body Let_def case_prod_beta)
qed simp

text \<open>The fragment that an echo carries.\<close>

definition air_of_echo :: "bytes \<Rightarrow> sparse_radio_frame" where
  "air_of_echo e = the (case decode_single_frame e of Inl _ \<Rightarrow> None | Inr body \<Rightarrow> air_of_body body)"

lemma air_of_echo_framed:
  assumes "length body \<le> 512" and "air_of_body body = Some f"
  shows "air_of_echo (framed body) = f"
proof -
  have "decode_single_frame (framed body) = Inr body" using assms(1) by (simp add: single_frame_iff write_frame_iff)
  then show ?thesis using assms(2) by (simp add: air_of_echo_def)
qed

lemma message_echoes:
  assumes "encode_message a og = Inr packets" and "meta_ok (outgoing_meta og)"
    and "map Some echoes = map simulate_node_echo packets"
  obtains fs bd where "fragment_message (outgoing_meta og) (og_message og) MESHTASTIC_FRAME_MTU = Inr fs"
    and "length fs = length packets" and "echoes = map (\<lambda>f. framed (bd f)) fs"
    and "\<And>f. f \<in> set fs \<Longrightarrow> length (bd f) \<le> 512 \<and> air_of_body (bd f) = Some f"
proof -
  let ?g = "\<lambda>f. framed (encode_to_radio_data (ma_destination a) 256 (case frame_encode f of Inr air \<Rightarrow> air))"
  obtain fs where fs: "fragment_message (outgoing_meta og) (og_message og) MESHTASTIC_FRAME_MTU = Inr fs"
    and packets: "packets = map ?g fs"
    using assms(1) encode_message_packets[OF assms(2), of a] by (auto split: sum.splits)
  have "\<exists>body. simulate_node_echo (?g f) = Some (framed body) \<and> length body \<le> 512 \<and> air_of_body body = Some f"
    if f: "f \<in> set fs" for f
  proof -
    obtain air where air: "frame_encode f = Inr air" "length air \<le> 227"
      using message_frames_encode[OF fs assms(2) f] by blast
    have "encode_one_packet a f = Inr (?g f)" using encode_one_packet_ok(1)[OF air, of a] air(1) by simp
    then show ?thesis using packet_echo[OF air] by metis
  qed
  then obtain bd where bd: "simulate_node_echo (?g f) = Some (framed (bd f)) \<and> length (bd f) \<le> 512 \<and>
    air_of_body (bd f) = Some f" if "f \<in> set fs" for f by metis
  then have "map simulate_node_echo packets = map Some (map (\<lambda>f. framed (bd f)) fs)" by (simp add: packets)
  then have "echoes = map (\<lambda>f. framed (bd f)) fs" using assms(3) by (simp only: inj_map_eq_map[OF inj_Some])
  moreover have "length fs = length packets" by (simp add: packets)
  moreover have "length (bd f) \<le> 512 \<and> air_of_body (bd f) = Some f" if "f \<in> set fs" for f
    using bd[OF that] by (elim conjE) (intro conjI)
  ultimately show thesis using fs by (intro that)
qed

section \<open>Properties\<close>

text \<open>Every fragment of a message becomes one packet: encoding fails only where fragmentation does,
  never because a packet is too large for the device, and every packet is one device frame of at most
  512 bytes.\<close>

theorem message_packets_fit:
  assumes "meta_ok (outgoing_meta og)"
  shows "(encode_message a og = Inl e \<longleftrightarrow> (\<exists>e'. e = Air e' \<and>
      fragment_message (outgoing_meta og) (og_message og) MESHTASTIC_FRAME_MTU = Inl e')) \<and>
    (\<forall>packets. encode_message a og = Inr packets \<longrightarrow> (\<exists>frames.
      fragment_message (outgoing_meta og) (og_message og) MESHTASTIC_FRAME_MTU = Inr frames \<and>
      length packets = length frames \<and> (\<forall>p\<in>set packets. length p \<le> 512 \<and> is_ok (decode_single_frame p))))"
proof (cases "fragment_message (outgoing_meta og) (og_message og) MESHTASTIC_FRAME_MTU")
  case (Inl e')
  then show ?thesis using encode_message_packets[OF assms, of a] by auto
next
  case (Inr fs)
  let ?g = "\<lambda>f. framed (encode_to_radio_data (ma_destination a) 256 (case frame_encode f of Inr air \<Rightarrow> air))"
  have "length (?g f) \<le> 512 \<and> is_ok (decode_single_frame (?g f))" if f: "f \<in> set fs" for f
  proof -
    obtain air where air: "frame_encode f = Inr air" "length air \<le> 227"
      using message_frames_encode[OF Inr assms f] by blast
    have "decode_single_frame (?g f) = Inr (encode_to_radio_data (ma_destination a) 256 air)"
      unfolding single_frame_iff
      using air to_radio_length[OF air(2), of "ma_destination a"] by (simp add: write_frame_iff)
    then show ?thesis using encode_one_packet_ok(2)[OF air, of a] air(1) by (simp add: is_ok_iff)
  qed
  then show ?thesis using encode_message_packets[OF assms, of a] Inr by auto
qed

definition demo_outgoing :: outgoing_message where
  "demo_outgoing =
     \<lparr> og_flags = FLAGS_NONE, og_stream_id = 7, og_sequence = 9, og_class = StateDelta, og_priority = 3,
       og_state_tag = 0xbeef, og_message = [1, 2, 3] \<rparr>"

definition demo_adapter :: meshtastic_adapter where
  "demo_adapter = \<lparr> ma_reassembler = \<lparr> ra_config = reassembler_config_default, ra_contexts = [] \<rparr>,
     ma_destination = BROADCAST_ADDR \<rparr>"

lemma demo_adapter_new: "adapter_with_config reassembler_config_default = Inr demo_adapter"
  by (simp add: adapter_with_config_def reassembler_new_def reassembler_config_default_def demo_adapter_def)

lemma demo_outgoing_ok: "meta_ok (outgoing_meta demo_outgoing)"
  by (simp add: meta_ok_def outgoing_meta_def demo_outgoing_def FLAGS_NONE_def)

lemma demo_outgoing_fragments:
  "fragment_message (outgoing_meta demo_outgoing) [1, 2, 3] 227 =
     Inr [meta_frame (outgoing_meta demo_outgoing) 0 1 [1, 2, 3]]"
  by (simp add: fragment_message_def div_ceil_def Let_def chunks.simps)

lemma demo_send:
  obtains packet body where "encode_message demo_adapter demo_outgoing = Inr [packet]"
    and "simulate_node_echo packet = Some (framed body)"
proof -
  let ?f = "meta_frame (outgoing_meta demo_outgoing) 0 1 [1, 2, 3]"
  have f: "?f \<in> set [?f]" by simp
  obtain air where air: "frame_encode ?f = Inr air" "length air \<le> 227"
    using message_frames_encode[OF demo_outgoing_fragments demo_outgoing_ok f] by blast
  have og: "og_message demo_outgoing = [1, 2, 3]" by (simp add: demo_outgoing_def)
  let ?p = "framed (encode_to_radio_data (ma_destination demo_adapter) 256 air)"
  have one: "encode_one_packet demo_adapter ?f = Inr ?p" by (rule encode_one_packet_ok(1)[OF air])
  have "encode_message demo_adapter demo_outgoing = Inr [?p]"
    using one by (simp add: encode_message_def demo_outgoing_fragments og)
  moreover obtain body where "simulate_node_echo ?p = Some (framed body)"
    using packet_echo[OF air one] by blast
  ultimately show thesis by (rule that)
qed

theorem message_packets_fit_witness:
  "\<exists>packets. encode_message demo_adapter demo_outgoing = Inr packets \<and>
     (\<forall>p\<in>set packets. length p \<le> 512 \<and> is_ok (decode_single_frame p))"
proof -
  obtain packet body where p: "encode_message demo_adapter demo_outgoing = Inr [packet]" by (rule demo_send)
  then show ?thesis using message_packets_fit[OF demo_outgoing_ok, of demo_adapter] by auto
qed

text \<open>C9. End to end over the device API: the packets of a message, echoed by a node in any order and
  with duplicates before the last missing one, and split over any calls of \<open>push\<close>, make a fresh
  receiver queue exactly the message with its metadata, and no call reports an error.\<close>

theorem message_crosses_device_api:
  assumes "encode_message sender og = Inr packets" and "meta_ok (outgoing_meta og)"
    and "adapter_with_config cfg = Inr receiver"
    and "length (og_message og) \<le> rc_max_message_bytes cfg" and "length packets \<le> unat (rc_max_fragments cfg)"
    and "map Some echoes = map simulate_node_echo packets"
    and "set heard \<union> {final} = set echoes" and "final \<notin> set heard"
    and "concat pieces = concat (heard @ [final])"
  shows "snd (run_machine streaming_push (streaming_new receiver) pieces) =
      replicate (length pieces) (Inr ()) \<and>
    sr_ready (fst (run_machine streaming_push (streaming_new receiver) pieces)) =
      [whole_message (outgoing_meta og) (og_message og)]"
proof -
  let ?meta = "outgoing_meta og" and ?r = "ma_reassembler receiver"
  obtain fs bd where fs: "fragment_message ?meta (og_message og) 227 = Inr fs" "length fs = length packets"
    and echoes: "echoes = map (\<lambda>f. framed (bd f)) fs"
    and bd: "\<And>f. f \<in> set fs \<Longrightarrow> length (bd f) \<le> 512 \<and> air_of_body (bd f) = Some f"
    using message_echoes[OF assms(1,2,6)] by blast
  have undo: "air_of_echo (framed (bd f)) = f" if "f \<in> set fs" for f
    using bd[OF that] air_of_echo_framed by blast
  have echo: "air_of_echo e \<in> set fs \<and> framed (bd (air_of_echo e)) = e" if "e \<in> set echoes" for e
    using that undo by (auto simp: echoes)
  let ?hs = "map air_of_echo heard" and ?f = "air_of_echo final"
  have all: "set ?hs \<union> {?f} = set fs"
  proof -
    have "set ?hs \<union> {?f} = air_of_echo ` set echoes" unfolding assms(7)[symmetric] by auto
    also have "\<dots> = set fs" using undo by (auto simp: echoes image_image)
    finally show ?thesis .
  qed
  have known: "set (heard @ [final]) \<subseteq> set echoes" using assms(7) by auto
  have new: "?f \<notin> set ?hs"
  proof
    assume "?f \<in> set ?hs"
    then obtain h where h: "h \<in> set heard" "air_of_echo h = ?f" by auto
    then have "h = final" using echo[of h] echo[of final] known by force
    then show False using h(1) assms(8) by simp
  qed
  let ?items = "map (\<lambda>f. ([] :: bytes, bd f, framed (bd f))) (?hs @ [?f])"
  have "heard @ [final] = map (\<lambda>f. framed (bd f)) (?hs @ [?f])"
    using echo known by (auto intro!: map_idI[symmetric] simp: subset_iff)
  then have "concat pieces = concat (map (\<lambda>(garbage, body, frame). garbage @ frame) ?items)"
    using assms(9) by (simp add: comp_def)
  moreover have "list_all (\<lambda>(garbage, body, frame). START1 \<notin> set garbage \<and> write_frame [] body = Some frame) ?items"
    using bd all by (auto simp: list_all_iff write_frame_iff)
  ultimately have ready: "fd_ready (push_chunk frame_decoder_new (concat pieces)) = map bd (?hs @ [?f])"
    using push_frames[of frame_decoder_new ?items] by (simp add: frame_decoder_new_def comp_def)
  have r: "reassembler_inv ?r" "ra_config ?r = cfg" "ra_contexts ?r = []"
    using adapter_new_inv[OF assms(3)] adapter_new_fresh[OF assms(3)] by (simp_all add: adapter_inv_def)
  have "snd (run_machine reassembler_push ?r (?hs @ [?f])) =
      replicate (length ?hs) (Inr None) @ [Inr (Some (whole_message ?meta (og_message og)))]"
    using assms(4,5) r fs(2) by (intro delivers_alone[OF fs(1) assms(2) _ _ _ _ all new]) simp_all
  moreover have "list_all (\<lambda>f. air_of_body (bd f) = Some f) (?hs @ [?f])"
    using bd all by (auto simp: list_all_iff)
  ultimately have outs: "snd (run_machine ingest_from_radio receiver (map bd (?hs @ [?f]))) =
      replicate (length ?hs) (Inr None) @ [Inr (Some (whole_message ?meta (og_message og)))]"
    using ingest_bodies[of bd "?hs @ [?f]" receiver] by simp
  have none: "delivered (replicate n (Inr None)) = []" for n by (induction n) simp_all
  show ?thesis
    using streaming_run[of "streaming_new receiver" pieces] ready outs none
    by (simp add: streaming_new_def frame_decoder_new_def list_all_iff)
qed

theorem message_crosses_device_api_witness:
  "\<exists>packet echo. encode_message demo_adapter demo_outgoing = Inr [packet] \<and>
     simulate_node_echo packet = Some echo \<and>
     sr_ready (fst (run_machine streaming_push (streaming_new demo_adapter) (map (\<lambda>b. [b]) echo))) =
       [whole_message (outgoing_meta demo_outgoing) [1, 2, 3]]"
proof -
  obtain packet body where p: "encode_message demo_adapter demo_outgoing = Inr [packet]"
    and e: "simulate_node_echo packet = Some (framed body)" by (rule demo_send)
  have og: "og_message demo_outgoing = [1, 2, 3]" by (simp add: demo_outgoing_def)
  have "sr_ready (fst (run_machine streaming_push (streaming_new demo_adapter) (map (\<lambda>b. [b]) (framed body)))) =
      [whole_message (outgoing_meta demo_outgoing) (og_message demo_outgoing)]"
    using message_crosses_device_api[OF p demo_outgoing_ok demo_adapter_new,
        of "[framed body]" "[]" "framed body" "map (\<lambda>b. [b]) (framed body)"] e og
    by (simp add: reassembler_config_default_def)
  then show ?thesis using p e og by auto
qed

end
