(* ===== verification/Fec.thy ===== *)
theory Fec
  imports Air_Error Vec_Ops
begin

text \<open>
  \<open>latentmesh-air-core/src/fec.rs\<close>: bits and bytes, the rate-1/2 convolutional code, its
  soft-input Viterbi decoder and the block interleaver. The decoder's dynamic program is
  proved to find a codeword of maximal correlation with the received values. Its scores
  are \<open>i32\<close>: they are integers here, with the saturation of \<open>saturating_add\<close> written out.
\<close>

abbreviation (input) G0 :: u8 where "G0 \<equiv> 121"
abbreviation (input) G1 :: u8 where "G1 \<equiv> 91"
abbreviation (input) MEMORY :: nat where "MEMORY \<equiv> 6"
abbreviation (input) STATES :: nat where "STATES \<equiv> 64"
abbreviation (input) STATE_MASK :: u8 where "STATE_MASK \<equiv> 63"
abbreviation (input) MAX_CODED_BITS :: nat where "MAX_CODED_BITS \<equiv> 4108"

section \<open>Bits and bytes\<close>

definition bytes_to_bits_msb :: "bytes \<Rightarrow> u8 list" where
  "bytes_to_bits_msb bs =
     concat (map (\<lambda>byte. map (\<lambda>shift. drop_bit shift byte AND 1) (rev [0..<8])) bs)"

text \<open>\<open>chunks_exact(n)\<close>.\<close>

definition chunks_exact :: "nat \<Rightarrow> 'a list \<Rightarrow> 'a list list" where
  "chunks_exact n xs = filter (\<lambda>c. length c = n) (chunks n xs)"

definition bits_to_bytes_msb :: "u8 list \<Rightarrow> bytes air_result" where
  "bits_to_bytes_msb bits =
     (if length bits mod 8 \<noteq> 0 \<or> list_ex (\<lambda>b. b > 1) bits then Inl InvalidFec
      else Inr (map (\<lambda>chunk. foldl (\<lambda>byte b. push_bit 1 byte OR b) 0 chunk) (chunks_exact 8 bits)))"

section \<open>The convolutional code\<close>

definition count_ones :: "u8 \<Rightarrow> nat" where
  "count_ones w = length (filter (bit w) [0..<8])"

definition parity_bit :: "u8 \<Rightarrow> u8 \<Rightarrow> u8" where
  "parity_bit register g = word_of_nat (count_ones (register AND g)) AND 1"

definition shift_in :: "u8 \<Rightarrow> u8 \<Rightarrow> u8" where
  "shift_in state input = push_bit 1 state OR input"

fun conv_loop :: "u8 \<Rightarrow> u8 list \<Rightarrow> u8 list" where
  "conv_loop state [] = []"
| "conv_loop state (input # bits) =
     (let register = shift_in state input in
      [parity_bit register G0, parity_bit register G1] @ conv_loop (register AND STATE_MASK) bits)"

definition convolutional_encode :: "u8 list \<Rightarrow> u8 list air_result" where
  "convolutional_encode bits =
     (if length bits > 2048 \<or> list_ex (\<lambda>b. b > 1) bits then Inl InvalidFec
      else Inr (conv_loop 0 (bits @ replicate MEMORY 0)))"

section \<open>The Viterbi decoder\<close>

record decode_result =
  dr_bits :: "u8 list"
  dr_path_metric :: int
  dr_confidence :: u8

definition llr_metric :: "i8 \<Rightarrow> u8 \<Rightarrow> int" where
  "llr_metric llr expected = (if expected = 1 then sint llr else - sint llr)"

definition NEGATIVE_INFINITY :: int where
  "NEGATIVE_INFINITY = - (2 ^ 31) div 4"

definition saturating_add_i32 :: "int \<Rightarrow> int \<Rightarrow> int" where
  "saturating_add_i32 a b = max (- (2 ^ 31)) (min (2 ^ 31 - 1) (a + b))"

text \<open>One iteration of the two inner loops: relax the edge of \<open>previous\<close> with \<open>input\<close>.\<close>

definition relax ::
  "int list \<Rightarrow> i8 \<times> i8 \<Rightarrow> int list \<times> u8 list \<Rightarrow> nat \<times> u8 \<Rightarrow> int list \<times> u8 list" where
  "relax scores pair acc edge =
     (let (previous, input) = edge; (next_scores, predecessors) = acc in
      if scores ! previous = NEGATIVE_INFINITY then acc
      else let register = shift_in (word_of_nat previous) input;
               next = unat (register AND STATE_MASK);
               branch = llr_metric (fst pair) (parity_bit register G0)
                 + llr_metric (snd pair) (parity_bit register G1);
               candidate = saturating_add_i32 (scores ! previous) branch in
        if candidate > next_scores ! next
          \<or> (candidate = next_scores ! next \<and> word_of_nat previous < predecessors ! next)
        then (next_scores[next := candidate], predecessors[next := word_of_nat previous])
        else acc)"

definition edges :: "(nat \<times> u8) list" where
  "edges = concat (map (\<lambda>previous. map (\<lambda>input. (previous, input)) [0, 1]) [0..<STATES])"

definition viterbi_step :: "int list \<Rightarrow> i8 \<times> i8 \<Rightarrow> int list \<times> u8 list" where
  "viterbi_step scores pair =
     foldl (relax scores pair) (replicate STATES NEGATIVE_INFINITY, replicate STATES 255) edges"

fun pairs :: "'a list \<Rightarrow> ('a \<times> 'a) list" where
  "pairs (a # b # xs) = (a, b) # pairs xs"
| "pairs _ = []"

definition viterbi_forward :: "(i8 \<times> i8) list \<Rightarrow> int list \<times> u8 list list" where
  "viterbi_forward ps =
     foldl (\<lambda>(scores, history) pair.
         let (next_scores, predecessors) = viterbi_step scores pair
         in (next_scores, history @ [predecessors]))
       ((replicate STATES NEGATIVE_INFINITY)[0 := 0], []) ps"

text \<open>The trace back: the history from its last step, the current state, and the bits found.\<close>

fun traceback :: "u8 list list \<Rightarrow> nat \<Rightarrow> u8 list \<Rightarrow> (u8 list \<times> nat) air_result" where
  "traceback [] state decoded = Inr (decoded, state)"
| "traceback (predecessors # history) state decoded =
     (let previous = predecessors ! state in
      if previous = 255 then Inl DecodeFailed
      else traceback history (unat previous) (word_of_nat (state mod 2) # decoded))"

definition viterbi_confidence :: "i8 list \<Rightarrow> u8" where
  "viterbi_confidence llrs =
     (let llr_sum = sum_list (map (\<lambda>llr. nat \<bar>sint llr\<bar>) llrs)
      in word_of_nat (min (llr_sum * 2 div length llrs) 255))"

definition soft_viterbi_decode :: "i8 list \<Rightarrow> decode_result air_result" where
  "soft_viterbi_decode llrs =
     (if length llrs < MEMORY * 2 \<or> length llrs > MAX_CODED_BITS \<or> length llrs mod 2 \<noteq> 0
      then Inl InvalidFec
      else let steps = length llrs div 2; data_bits = steps - MEMORY in
      if data_bits mod 8 \<noteq> 0 then Inl InvalidFec
      else let (scores, history) = viterbi_forward (pairs llrs) in
      if scores ! 0 = NEGATIVE_INFINITY then Inl DecodeFailed
      else rbind (traceback (rev history) 0 []) (\<lambda>(decoded, state).
        if state \<noteq> 0 \<or> list_ex (\<lambda>b. b \<noteq> 0) (drop data_bits decoded) then Inl DecodeFailed
        else Inr \<lparr> dr_bits = take data_bits decoded, dr_path_metric = scores ! 0,
                  dr_confidence = viterbi_confidence llrs \<rparr>))"

definition hard_bits_to_llrs :: "u8 list \<Rightarrow> i8 \<Rightarrow> i8 list air_result" where
  "hard_bits_to_llrs bits magnitude =
     (if sint magnitude \<le> 0 \<or> list_ex (\<lambda>b. b > 1) bits then Inl InvalidFec
      else Inr (map (\<lambda>b. if b = 1 then magnitude else - magnitude) bits))"

section \<open>The interleaver\<close>

text \<open>The positions in the order the nested loops of \<open>interleave_copy\<close> visit them.\<close>

definition interleave_order :: "nat \<Rightarrow> nat \<Rightarrow> nat list" where
  "interleave_order n columns =
     concat (map (\<lambda>column. filter (\<lambda>i. i < n)
       (map (\<lambda>row. row * columns + column) [0..<div_ceil n columns])) [0..<columns])"

definition interleave_copy :: "'a list \<Rightarrow> nat \<Rightarrow> 'a list air_result" where
  "interleave_copy values columns =
     (if columns = 0 \<or> columns > MAX_CODED_BITS then Inl InvalidFec
      else if values = [] then Inr []
      else Inr (map ((!) values) (interleave_order (length values) columns)))"

definition interleave_bits :: "u8 list \<Rightarrow> nat \<Rightarrow> u8 list air_result" where
  "interleave_bits bits columns =
     (if list_ex (\<lambda>b. b > 1) bits then Inl InvalidFec else interleave_copy bits columns)"

definition interleave_soft :: "i8 list \<Rightarrow> nat \<Rightarrow> i8 list air_result" where
  "interleave_soft llrs columns = interleave_copy llrs columns"

definition deinterleave_soft :: "i8 list \<Rightarrow> nat \<Rightarrow> i8 list air_result" where
  "deinterleave_soft llrs columns =
     (if columns = 0 \<or> columns > MAX_CODED_BITS then Inl InvalidFec
      else if llrs = [] then Inr []
      else Inr (fst (foldl (\<lambda>(output, source) target. (output[target := llrs ! source], Suc source))
        (replicate (length llrs) 0, 0) (interleave_order (length llrs) columns))))"

section \<open>Bit and byte conversions are inverse\<close>

definition bit_list :: "u8 list \<Rightarrow> bool" where
  "bit_list bits \<longleftrightarrow> \<not> list_ex (\<lambda>b. b > 1) bits"

lemma u8_gt_1: "\<not> (x :: u8) > 1 \<longleftrightarrow> x = 0 \<or> x = 1"
  by (auto simp: word_less_nat_alt word_unat_eq_iff)

lemma bit_list_iff: "bit_list bits \<longleftrightarrow> (\<forall>b\<in>set bits. b = 0 \<or> b = 1)"
  by (auto simp: bit_list_def list_ex_iff u8_gt_1)

lemma bit_list_simps [simp]:
  "bit_list []" "bit_list (b # bs) \<longleftrightarrow> (b = 0 \<or> b = 1) \<and> bit_list bs"
  "bit_list (xs @ ys) \<longleftrightarrow> bit_list xs \<and> bit_list ys" "bit_list (replicate n 0)"
  by (auto simp: bit_list_iff)

definition byte_bits :: "u8 \<Rightarrow> u8 list" where
  "byte_bits byte = map (\<lambda>shift. drop_bit shift byte AND 1) (rev [0..<8])"

definition bits_byte :: "u8 list \<Rightarrow> u8" where
  "bits_byte chunk = foldl (\<lambda>byte b. push_bit 1 byte OR b) 0 chunk"

lemma length_byte_bits [simp]: "length (byte_bits b) = 8"
  by (simp add: byte_bits_def)

lemma drop_bit_and_1: "drop_bit n (w :: 'a::len word) AND 1 = of_bool (bit w n)"
  by (simp only: and_one_eq mod_2_eq_odd bit_iff_odd_drop_bit)

lemma bit_list_byte_bits [simp]: "bit_list (byte_bits b)"
  by (auto simp: bit_list_iff byte_bits_def drop_bit_and_1)

lemma bit_bits_byte:
  assumes "bit_list bs" and "length bs \<le> 8"
  shows "bit (bits_byte bs) i \<longleftrightarrow> i < length bs \<and> rev bs ! i = 1"
  using assms
proof (induction bs arbitrary: i rule: rev_induct)
  case (snoc b bs)
  have b: "bit b j \<longleftrightarrow> j = 0 \<and> b = 1" for j using snoc.prems(1) by (auto simp: bit_1_iff)
  have "bits_byte (bs @ [b]) = push_bit 1 (bits_byte bs) OR b" by (simp add: bits_byte_def)
  then have "bit (bits_byte (bs @ [b])) i \<longleftrightarrow> 1 \<le> i \<and> i < 8 \<and> bit (bits_byte bs) (i - 1) \<or> bit b i"
    by (simp only: bit_or_iff bit_push_bit_iff possible_bit_word) simp
  moreover have "bit_list bs" "length bs < 8" using snoc.prems by simp_all
  ultimately show ?case
    using snoc.IH[of "i - 1"] b[of i] by (cases i) (simp_all, linarith)
qed (simp add: bits_byte_def)

lemma bits_byte_bits [simp]: "bits_byte (byte_bits b) = b"
proof (rule bit_word_eqI)
  fix n
  assume "n < LENGTH(8)"
  then have "rev (byte_bits b) ! n = of_bool (bit b n)"
    by (simp add: byte_bits_def rev_map drop_bit_and_1)
  then show "bit (bits_byte (byte_bits b)) n = bit b n"
    using bit_bits_byte[of "byte_bits b" n] \<open>n < LENGTH(8)\<close> by simp
qed

lemma byte_bits_byte: "bit_list bs \<Longrightarrow> length bs = 8 \<Longrightarrow> byte_bits (bits_byte bs) = bs"
proof -
  assume bs: "bit_list bs" "length bs = 8"
  have "rev (byte_bits (bits_byte bs)) = rev bs"
  proof (rule nth_equalityI)
    fix i
    assume "i < length (rev (byte_bits (bits_byte bs)))"
    then show "rev (byte_bits (bits_byte bs)) ! i = rev bs ! i"
      using bs nth_mem[of i "rev bs"]
      by (auto simp: byte_bits_def rev_map drop_bit_and_1 bit_bits_byte bit_list_iff)
  qed (simp add: bs)
  then show ?thesis by simp
qed

lemma bytes_to_bits_simps [simp]:
  "bytes_to_bits_msb [] = []" "bytes_to_bits_msb (b # bs) = byte_bits b @ bytes_to_bits_msb bs"
  by (simp_all add: bytes_to_bits_msb_def byte_bits_def)

lemma length_bytes_to_bits [simp]: "length (bytes_to_bits_msb bs) = 8 * length bs"
  by (induction bs) auto

lemma bit_list_bytes_to_bits [simp]: "bit_list (bytes_to_bits_msb bs)"
  by (induction bs) auto

lemma chunks_exact_Cons: "0 < n \<Longrightarrow> length c = n \<Longrightarrow> chunks_exact n (c @ xs) = c # chunks_exact n xs"
  by (subst chunks_exact_def, subst chunks.simps) (auto simp: chunks_exact_def)

lemma chunks_exact_concat:
  "0 < n \<Longrightarrow> list_all (\<lambda>c. length c = n) cs \<Longrightarrow> chunks_exact n (concat cs) = cs"
proof (induction cs)
  case (Cons c cs)
  then show ?case using chunks_exact_Cons[of n c "concat cs"] by simp
qed (simp add: chunks_exact_def)

lemma length_concat_equal: "list_all (\<lambda>c. length c = n) cs \<Longrightarrow> length (concat cs) = n * length cs"
  by (induction cs) simp_all

lemma bits_to_bytes_eq:
  "bits_to_bytes_msb bits =
     (if length bits mod 8 \<noteq> 0 \<or> \<not> bit_list bits then Inl InvalidFec
      else Inr (map bits_byte (chunks_exact 8 bits)))"
  by (auto simp: bits_to_bytes_msb_def bit_list_def bits_byte_def)

lemma bits_to_bytes_bits: "bits_to_bytes_msb (bytes_to_bits_msb bs) = Inr bs"
  by (induction bs) (simp_all add: bits_to_bytes_eq chunks_exact_Cons chunks_exact_def[of 8 "[]"])

lemma bytes_to_bits_bytes: "bits_to_bytes_msb bits = Inr bs \<Longrightarrow> bytes_to_bits_msb bs = bits"
proof -
  have "bit_list bits \<Longrightarrow> length bits mod 8 = 0 \<Longrightarrow>
      bytes_to_bits_msb (map bits_byte (chunks_exact 8 bits)) = bits"
  proof (induction "length bits" arbitrary: bits rule: less_induct)
    case less
    show ?case
    proof (cases "bits = []")
      case False
      then have len: "8 \<le> length bits" using less.prems(2) by (cases "length bits < 8") auto
      have split: "bits = take 8 bits @ drop 8 bits" by simp
      then have bl: "bit_list (take 8 bits)" "bit_list (drop 8 bits)" using less.prems(1) by (metis bit_list_simps(3))+
      have "bytes_to_bits_msb (map bits_byte (chunks_exact 8 (drop 8 bits))) = drop 8 bits"
        using less.prems(2) len bl by (intro less.hyps) (auto simp: mod_if)
      moreover have "chunks_exact 8 bits = take 8 bits # chunks_exact 8 (drop 8 bits)"
        using len chunks_exact_Cons[of 8 "take 8 bits" "drop 8 bits"] by simp
      ultimately show ?thesis using byte_bits_byte[OF bl(1)] len by simp
    qed (simp add: chunks_exact_def)
  qed
  then show "bits_to_bytes_msb bits = Inr bs \<Longrightarrow> bytes_to_bits_msb bs = bits"
    by (auto simp: bits_to_bytes_eq split: if_splits)
qed

section \<open>Interleaving is a permutation\<close>

lemma interleave_order_set: "0 < columns \<Longrightarrow> set (interleave_order n columns) = {..<n}"
proof -
  assume c: "0 < columns"
  have "\<exists>column<columns. \<exists>row<div_ceil n columns. i = row * columns + column" if "i < n" for i
  proof (intro exI conjI)
    show "i mod columns < columns" using c by simp
    show "i = (i div columns) * columns + i mod columns" by simp
    have "i div columns * columns \<le> n - 1"
      using that div_times_less_eq_dividend[of i columns] by linarith
    then have "Suc (i div columns) * columns \<le> n + columns - 1" using that c by simp
    then show "i div columns < div_ceil n columns"
      using c by (simp only: div_ceil_def less_eq_div_iff_mult_less_eq Suc_le_eq[symmetric])
  qed
  then show ?thesis by (fastforce simp: interleave_order_def)
qed

lemma interleave_order_distinct: "distinct (interleave_order n columns)"
proof -
  let ?col = "\<lambda>column. filter (\<lambda>i. i < n) (map (\<lambda>row. row * columns + column) [0..<div_ceil n columns])"
  have "distinct (?col column)" if "column < columns" for column
    using that by (intro distinct_filter) (auto simp: distinct_map inj_on_def)
  moreover have "set (?col c) \<inter> set (?col d) = {}" if "c < columns" "d < columns" "c \<noteq> d" for c d
  proof -
    have "(row * columns + c) mod columns = c" if "c < columns" for row c using that by simp
    then show ?thesis using that by auto (metis mod_less mod_mult_self3)
  qed
  ultimately have "distinct (concat (map ?col cs))" if "distinct cs" "set cs \<subseteq> {..<columns}" for cs
    using that
  proof (induction cs)
    case (Cons c cs)
    then show ?case by (fastforce simp: disjoint_iff)
  qed simp
  then show ?thesis by (simp add: interleave_order_def lessThan_atLeast0)
qed

lemma length_interleave_order: "0 < columns \<Longrightarrow> length (interleave_order n columns) = n"
  using distinct_card[OF interleave_order_distinct, of n columns] by (simp add: interleave_order_set)

definition scatter :: "(nat \<Rightarrow> 'a) \<Rightarrow> 'a list \<times> nat \<Rightarrow> nat \<Rightarrow> 'a list \<times> nat" where
  "scatter f = (\<lambda>(output, source) target. (output[target := f source], Suc source))"

lemma scatter_apply [simp]: "scatter f (out, k) t = (out[t := f k], Suc k)"
  by (simp add: scatter_def)

lemma scatter_length: "length (fst (foldl (scatter f) (out, k) idx)) = length out"
  by (induction idx arbitrary: out k) simp_all

lemma scatter_other: "i \<notin> set idx \<Longrightarrow> fst (foldl (scatter f) (out, k) idx) ! i = out ! i"
  by (induction idx arbitrary: out k) simp_all

lemma scatter_nth:
  assumes "distinct idx" and "\<forall>t\<in>set idx. t < length out" and "j < length idx"
  shows "fst (foldl (scatter f) (out, k) idx) ! (idx ! j) = f (k + j)"
  using assms
proof (induction idx arbitrary: out k j)
  case (Cons t idx)
  then show ?case using scatter_other[of t idx f "out[t := f k]"] by (cases j) auto
qed simp

lemma deinterleave_interleave:
  assumes "interleave_copy values columns = Inr xs"
  shows "deinterleave_soft xs columns = Inr values"
proof (cases "values = []")
  case True
  then show ?thesis using assms by (auto simp: interleave_copy_def deinterleave_soft_def split: if_splits)
next
  case False
  let ?idx = "interleave_order (length values) columns"
  from assms False have c: "0 < columns" "columns \<le> MAX_CODED_BITS" and xs: "xs = map ((!) values) ?idx"
    by (auto simp: interleave_copy_def split: if_splits)
  have len: "length xs = length values" "length ?idx = length values"
    using c by (simp_all add: xs length_interleave_order)
  let ?out = "fst (foldl (scatter ((!) xs)) (replicate (length values) 0, 0) ?idx)"
  have dom: "\<forall>t\<in>set ?idx. t < length (replicate (length values) (0 :: i8))"
    using c by (simp add: interleave_order_set)
  have "?out = values"
  proof (rule nth_equalityI)
    show "length ?out = length values" by (simp add: scatter_length)
    fix i
    assume "i < length ?out"
    then have "i \<in> set ?idx" using c by (simp add: interleave_order_set scatter_length)
    then obtain j where "j < length ?idx" "i = ?idx ! j" by (auto simp: in_set_conv_nth)
    then show "?out ! i = values ! i" 
      using scatter_nth[OF interleave_order_distinct dom, of j "(!) xs" 0] by (simp add: xs)
  qed
  then show ?thesis using c False len by (auto simp: deinterleave_soft_def scatter_def)
qed

section \<open>The trellis\<close>

definition next_state :: "u8 \<Rightarrow> u8 \<Rightarrow> u8" where
  "next_state s i = shift_in s i AND STATE_MASK"

definition edge_cost :: "i8 \<times> i8 \<Rightarrow> u8 \<Rightarrow> u8 \<Rightarrow> int" where
  "edge_cost pair s i = llr_metric (fst pair) (parity_bit (shift_in s i) G0)
     + llr_metric (snd pair) (parity_bit (shift_in s i) G1)"

text \<open>The metric of the path that the inputs take through the trellis from a state.\<close>

fun path_metric :: "(i8 \<times> i8) list \<Rightarrow> u8 \<Rightarrow> u8 list \<Rightarrow> int" where
  "path_metric (p # ps) s (i # is) = edge_cost p s i + path_metric ps (next_state s i) is"
| "path_metric _ s _ = 0"

abbreviation state_after :: "u8 list \<Rightarrow> u8" where
  "state_after b \<equiv> foldl next_state 0 b"

lemma path_metric_snoc:
  "length ps = length is \<Longrightarrow>
    path_metric (ps @ [p]) s (is @ [i]) = path_metric ps s is + edge_cost p (foldl next_state s is) i"
proof (induction ps arbitrary: s "is")
  case (Cons q ps)
  then show ?case by (cases "is") auto
qed simp

lemma and_63: "unat ((x :: u8) AND 63) = unat x mod 64"
proof -
  have "x AND 63 = take_bit 6 x" by (simp add: take_bit_eq_mask mask_numeral)
  then have "unat (x AND 63) = take_bit 6 (unat x)" by (simp only: unsigned_take_bit_eq)
  then show ?thesis by (simp only: take_bit_eq_mod) simp
qed

lemma next_state_lt [simp]: "unat (next_state s i) < 64"
  by (simp add: next_state_def and_63)

lemma shift_in_unat:
  assumes "unat s < 64" and "i = 0 \<or> i = 1"
  shows "unat (shift_in s i) = 2 * unat s + unat i"
proof -
  have "push_bit 1 s AND i = 0"
    by (rule bit_word_eqI, unfold bit_and_iff bit_push_bit_iff) (use assms(2) in \<open>auto simp: bit_1_iff\<close>)
  then have "shift_in s i = push_bit 1 s + i" by (simp add: shift_in_def disjunctive_add_eq_or)
  also have "\<dots> = word_of_nat (2 * unat s + unat i)" by simp
  finally have "shift_in s i = word_of_nat (2 * unat s + unat i)" .
  moreover have "2 * unat s + unat i < 256" using assms by auto
  ultimately show ?thesis by (simp only: unat_u8_of_nat mod_less)
qed

lemma next_state_unat:
  "unat s < 64 \<Longrightarrow> i = 0 \<or> i = 1 \<Longrightarrow> unat (next_state s i) = (2 * unat s + unat i) mod 64"
  by (simp add: next_state_def and_63 shift_in_unat)

lemma next_state_parity:
  "unat s < 64 \<Longrightarrow> i = 0 \<or> i = 1 \<Longrightarrow> word_of_nat (unat (next_state s i) mod 2) = i"
  by (auto simp: next_state_unat mod_mod_cancel)

lemma state_after_lt [simp]: "unat (state_after b) < 64"
  by (cases b rule: rev_cases) simp_all

lemma llr_metric_bound: "\<bar>llr_metric l e\<bar> \<le> 128"
proof -
  have "- 128 \<le> sint l" "sint l < 128"
    using sint_greater_eq[of l] sint_less[of l] by simp_all
  then show ?thesis by (simp add: llr_metric_def)
qed

lemma edge_cost_bound: "\<bar>edge_cost p s i\<bar> \<le> 256"
  using llr_metric_bound[of "fst p" "parity_bit (shift_in s i) G0"]
    llr_metric_bound[of "snd p" "parity_bit (shift_in s i) G1"]
  by (simp add: edge_cost_def)

lemma path_metric_bound: "\<bar>path_metric ps s is\<bar> \<le> 256 * int (length ps)"
proof (induction ps s "is" rule: path_metric.induct)
  case (1 p ps s i "is")
  then show ?case using edge_cost_bound[of p s i] by simp
qed simp_all

section \<open>One step of the decoder\<close>

lemma relax_eq:
  "relax scores pair (ns, pr) (p, i) =
    (if scores ! p = NEGATIVE_INFINITY then (ns, pr)
     else let n = unat (next_state (word_of_nat p) i);
              c = saturating_add_i32 (scores ! p) (edge_cost pair (word_of_nat p) i) in
       if c > ns ! n \<or> (c = ns ! n \<and> word_of_nat p < pr ! n)
       then (ns[n := c], pr[n := word_of_nat p]) else (ns, pr))"
  by (simp add: relax_def next_state_def edge_cost_def Let_def)

definition live_edges :: "int list \<Rightarrow> (nat \<times> u8) list \<Rightarrow> nat \<Rightarrow> (nat \<times> u8) set" where
  "live_edges scores es n =
     {(p, i). (p, i) \<in> set es \<and> scores ! p \<noteq> NEGATIVE_INFINITY \<and> unat (next_state (word_of_nat p) i) = n}"

text \<open>A survivor is an edge of maximal candidate score among those into its state.\<close>

definition best_edge :: "(nat \<times> u8 \<Rightarrow> int) \<Rightarrow> (nat \<times> u8) set \<Rightarrow> int \<Rightarrow> u8 \<Rightarrow> bool" where
  "best_edge cand es score pred \<longleftrightarrow>
     (if es = {} then score = NEGATIVE_INFINITY \<and> pred = 255
      else (\<exists>e\<in>es. pred = word_of_nat (fst e) \<and> score = cand e) \<and> (\<forall>e\<in>es. cand e \<le> score))"

lemma best_edge_insert:
  assumes "best_edge cand es score pred" and "NEGATIVE_INFINITY < cand e"
    and "(score', pred') = (if cand e > score \<or> (cand e = score \<and> word_of_nat (fst e) < pred)
      then (cand e, word_of_nat (fst e)) else (score, pred))"
  shows "best_edge cand (insert e es) score' pred'"
  using assms by (cases "es = {}") (force simp: best_edge_def split: if_splits)+

lemma viterbi_step_survivors:
  assumes lens: "length scores = 64"
    and ok: "\<And>p i. (p, i) \<in> set es \<Longrightarrow> scores ! p \<noteq> NEGATIVE_INFINITY \<Longrightarrow>
      NEGATIVE_INFINITY < saturating_add_i32 (scores ! p) (edge_cost pair (word_of_nat p) i)"
  defines "cand \<equiv> \<lambda>(p, i). saturating_add_i32 (scores ! p) (edge_cost pair (word_of_nat p) i)"
  shows "\<exists>ns pr. foldl (relax scores pair) (replicate 64 NEGATIVE_INFINITY, replicate 64 255) es = (ns, pr) \<and>
    length ns = 64 \<and> length pr = 64 \<and> (\<forall>n<64. best_edge cand (live_edges scores es n) (ns ! n) (pr ! n))"
  using ok
proof (induction es rule: rev_induct)
  case Nil
  then show ?case by (simp add: best_edge_def live_edges_def)
next
  case (snoc e es)
  obtain p i where e: "e = (p, i)" by (cases e)
  from snoc obtain ns pr where step: "foldl (relax scores pair) (replicate 64 NEGATIVE_INFINITY, replicate 64 255) es = (ns, pr)"
    and len: "length ns = 64" "length pr = 64"
    and best: "\<And>n. n < 64 \<Longrightarrow> best_edge cand (live_edges scores es n) (ns ! n) (pr ! n)"
    by auto
  let ?n = "unat (next_state (word_of_nat p) i)"
  have edges: "live_edges scores (es @ [e]) n =
      (if scores ! p \<noteq> NEGATIVE_INFINITY \<and> n = ?n then insert e (live_edges scores es n) else live_edges scores es n)" for n
    by (auto simp: live_edges_def e)
  show ?case
  proof (cases "scores ! p = NEGATIVE_INFINITY")
    case True
    then show ?thesis using step len best edges by (simp add: e relax_eq)
  next
    case False
    then have "NEGATIVE_INFINITY < cand e" using snoc.prems[of p i] by (simp add: e cand_def)
    then have new: "best_edge cand (insert e (live_edges scores es ?n)) sc' pr'"
      if "(sc', pr') = (if cand e > ns ! ?n \<or> (cand e = ns ! ?n \<and> word_of_nat (fst e) < pr ! ?n)
        then (cand e, word_of_nat (fst e)) else (ns ! ?n, pr ! ?n))" for sc' pr'
      using that best[of ?n] by (intro best_edge_insert) auto
    have "foldl (relax scores pair) (replicate 64 NEGATIVE_INFINITY, replicate 64 255) (es @ [e]) =
        (if cand e > ns ! ?n \<or> (cand e = ns ! ?n \<and> word_of_nat (fst e) < pr ! ?n)
         then (ns[?n := cand e], pr[?n := word_of_nat (fst e)]) else (ns, pr))"
      using False step by (simp add: e relax_eq cand_def Let_def)
    then show ?thesis using new best edges False len
      by (auto simp: nth_list_update split: if_splits)
  qed
qed

section \<open>The survivors are optimal paths\<close>

lemma NEGATIVE_INFINITY_eq: "NEGATIVE_INFINITY = - 536870912"
  by (simp add: NEGATIVE_INFINITY_def)

definition path_of :: "(i8 \<times> i8) list \<Rightarrow> u8 list \<Rightarrow> nat \<Rightarrow> bool" where
  "path_of ps b n \<longleftrightarrow> bit_list b \<and> length b = length ps \<and> unat (state_after b) = n"

text \<open>After the pairs \<open>ps\<close>, every path scores at most what is stored for its end state, and
  every stored score is that of the path the history gives back.\<close>

definition forward_inv :: "(i8 \<times> i8) list \<Rightarrow> int list \<times> u8 list list \<Rightarrow> bool" where
  "forward_inv ps st \<longleftrightarrow> length (fst st) = 64 \<and> length (snd st) = length ps \<and>
     (\<forall>b n. path_of ps b n \<longrightarrow> path_metric ps 0 b \<le> fst st ! n) \<and>
     (\<forall>n<64. fst st ! n = NEGATIVE_INFINITY \<or>
       (\<exists>b. path_of ps b n \<and> path_metric ps 0 b = fst st ! n \<and>
          (\<forall>acc. traceback (rev (snd st)) n acc = Inr (b @ acc, 0))))"

lemma path_of_snoc:
  "path_of (ps @ [p]) b' n' \<longleftrightarrow>
     (\<exists>b n i. b' = b @ [i] \<and> (i = 0 \<or> i = 1) \<and> path_of ps b n \<and> n' = unat (next_state (word_of_nat n) i))"
  by (cases b' rule: rev_cases) (auto simp: path_of_def)

lemma path_of_lt: "path_of ps b n \<Longrightarrow> n < 64"
  by (auto simp: path_of_def)

lemma path_metric_step:
  "path_of ps b n \<Longrightarrow> path_metric (ps @ [p]) 0 (b @ [i]) = path_metric ps 0 b + edge_cost p (word_of_nat n) i"
  by (auto simp: path_metric_snoc path_of_def)

lemma edges_iff: "(p, i) \<in> set edges \<longleftrightarrow> p < 64 \<and> (i = 0 \<or> i = 1)"
  by (auto simp: edges_def)

lemma path_not_infinite: "length ps \<le> 2054 \<Longrightarrow> NEGATIVE_INFINITY < path_metric ps s b"
  using path_metric_bound[of ps s b] by (simp add: NEGATIVE_INFINITY_eq)

lemma forward_inv_Nil: "forward_inv [] ((replicate 64 NEGATIVE_INFINITY)[0 := 0], [])"
  by (auto simp: forward_inv_def path_of_def nth_list_update NEGATIVE_INFINITY_eq)

lemma saturating_exact: "- (2 ^ 31) \<le> a + b \<Longrightarrow> a + b < 2 ^ 31 \<Longrightarrow> saturating_add_i32 a b = a + b"
  by (simp add: saturating_add_i32_def)

lemma forward_inv_step:
  assumes inv: "forward_inv ps (scores, history)" and len: "length ps < 2054"
    and step: "viterbi_step scores p = (ns, pr)"
  shows "forward_inv (ps @ [p]) (ns, history @ [pr])"
proof -
  let ?cost = "\<lambda>q i. edge_cost p (word_of_nat q) i"
  from inv have lens: "length scores = 64" "length history = length ps"
    and upper: "\<And>b n. path_of ps b n \<Longrightarrow> path_metric ps 0 b \<le> scores ! n"
    and path: "\<And>n. n < 64 \<Longrightarrow> scores ! n = NEGATIVE_INFINITY \<or>
      (\<exists>b. path_of ps b n \<and> path_metric ps 0 b = scores ! n \<and>
         (\<forall>acc. traceback (rev history) n acc = Inr (b @ acc, 0)))"
    by (auto simp: forward_inv_def)
  have sum: "saturating_add_i32 (scores ! q) (?cost q i) = scores ! q + ?cost q i \<and>
      NEGATIVE_INFINITY < scores ! q + ?cost q i" if q: "q < 64" "scores ! q \<noteq> NEGATIVE_INFINITY" for q i
  proof -
    obtain b where "path_metric ps 0 b = scores ! q" using path q by blast
    then have "\<bar>scores ! q\<bar> \<le> 256 * 2053"
      using path_metric_bound[of ps 0 b] len by linarith
    then show ?thesis
      using edge_cost_bound[of p "word_of_nat q" i]
      by (intro conjI saturating_exact) (auto simp: NEGATIVE_INFINITY_eq)
  qed
  have best: "length ns = 64" "\<And>n. n < 64 \<Longrightarrow>
      best_edge (\<lambda>(q, i). saturating_add_i32 (scores ! q) (?cost q i)) (live_edges scores edges n) (ns ! n) (pr ! n)"
    using viterbi_step_survivors[OF lens(1), of edges p] sum step
    by (auto simp: edges_iff viterbi_step_def)
  have live: "(q, i) \<in> live_edges scores edges n \<longleftrightarrow> q < 64 \<and> (i = 0 \<or> i = 1) \<and>
      scores ! q \<noteq> NEGATIVE_INFINITY \<and> unat (next_state (word_of_nat q) i) = n" for q i n
    by (auto simp: live_edges_def edges_iff)
  have "path_metric (ps @ [p]) 0 b' \<le> ns ! n'" if b': "path_of (ps @ [p]) b' n'" for b' n'
  proof -
    from b' obtain b n i where b: "b' = b @ [i]" "i = 0 \<or> i = 1" "path_of ps b n"
      "n' = unat (next_state (word_of_nat n) i)" unfolding path_of_snoc by blast
    have "scores ! n \<noteq> NEGATIVE_INFINITY"
      using upper[OF b(3)] path_not_infinite[of ps 0 b] len by linarith
    then have "(n, i) \<in> live_edges scores edges n'" using b path_of_lt by (auto simp: live)
    moreover from this have "n' < 64" by (auto simp: live)
    ultimately have "saturating_add_i32 (scores ! n) (?cost n i) \<le> ns ! n'"
      using best(2)[of n'] by (fastforce simp: best_edge_def split: if_splits)
    then show ?thesis
      using upper[OF b(3)] sum[of n i] \<open>scores ! n \<noteq> NEGATIVE_INFINITY\<close> path_of_lt[OF b(3)]
      by (simp add: b(1) path_metric_step[OF b(3)])
  qed
  moreover have "\<exists>b'. path_of (ps @ [p]) b' n \<and> path_metric (ps @ [p]) 0 b' = ns ! n \<and>
      (\<forall>acc. traceback (rev (history @ [pr])) n acc = Inr (b' @ acc, 0))"
    if n: "n < 64" "ns ! n \<noteq> NEGATIVE_INFINITY" for n
  proof -
    have "\<exists>e\<in>live_edges scores edges n. pr ! n = word_of_nat (fst e) \<and>
        ns ! n = saturating_add_i32 (scores ! fst e) (?cost (fst e) (snd e))"
      using best(2)[OF n(1)] n(2) by (simp add: best_edge_def case_prod_beta split: if_splits)
    then obtain q i where e: "(q, i) \<in> live_edges scores edges n"
      and pr: "pr ! n = word_of_nat q" and ns: "ns ! n = saturating_add_i32 (scores ! q) (?cost q i)"
      by auto
    from e have q: "q < 64" "i = 0 \<or> i = 1" "scores ! q \<noteq> NEGATIVE_INFINITY" and
      nq: "n = unat (next_state (word_of_nat q) i)" by (auto simp: live)
    obtain b where b: "path_of ps b q" "path_metric ps 0 b = scores ! q"
      and tb: "\<And>acc. traceback (rev history) q acc = Inr (b @ acc, 0)" using path q by blast
    have uq: "unat (word_of_nat q :: u8) = q" using q(1) by simp
    have "unat (word_of_nat q :: u8) \<noteq> unat (255 :: u8)" using q(1) uq by simp
    then have "(word_of_nat q :: u8) \<noteq> 255" by metis
    moreover have "word_of_nat (n mod 2) = i"
      using next_state_parity[of "word_of_nat q" i] q(1,2) uq by (simp only: nq)
    ultimately have "traceback (rev (history @ [pr])) n acc = Inr ((b @ [i]) @ acc, 0)" for acc
      using uq tb by (simp add: pr Let_def del: unat_u8_of_nat unsigned_of_nat)
    moreover have "path_of (ps @ [p]) (b @ [i]) n" using b(1) q(2) nq path_of_snoc by metis
    moreover have "path_metric (ps @ [p]) 0 (b @ [i]) = ns ! n"
      using sum[OF q(1,3)] ns b by (simp add: path_metric_step)
    ultimately show ?thesis by blast
  qed
  ultimately show ?thesis using best(1) lens(2) by (auto simp: forward_inv_def)
qed

lemma viterbi_forward_inv: "length ps \<le> 2054 \<Longrightarrow> forward_inv ps (viterbi_forward ps)"
proof (induction ps rule: rev_induct)
  case Nil
  then show ?case using forward_inv_Nil by (simp add: viterbi_forward_def)
next
  case (snoc p ps)
  obtain scores history where st: "viterbi_forward ps = (scores, history)" by fastforce
  obtain ns pr where step: "viterbi_step scores p = (ns, pr)" by fastforce
  have "viterbi_forward (ps @ [p]) = (ns, history @ [pr])"
    using st step by (simp add: viterbi_forward_def)
  then show ?case using snoc st step forward_inv_step by simp
qed

section \<open>Codewords\<close>

definition correlation :: "i8 list \<Rightarrow> u8 list \<Rightarrow> int" where
  "correlation llrs code = sum_list (map (\<lambda>(l, c). llr_metric l c) (zip llrs code))"

lemma length_conv_loop [simp]: "length (conv_loop s b) = 2 * length b"
  by (induction b arbitrary: s) (simp_all add: Let_def)

lemma length_pairs [simp]: "length (pairs xs) = length xs div 2"
  by (induction xs rule: pairs.induct) simp_all

lemma parity_bit_odd: "parity_bit r g = of_bool (odd (count_ones (r AND g)))"
  by (simp add: parity_bit_def and_one_eq mod_2_eq_odd)

lemma bit_list_conv_loop [simp]: "bit_list (conv_loop s b)"
  by (induction b arbitrary: s) (simp_all add: Let_def parity_bit_odd)

lemma path_metric_correlation:
  "length llrs = 2 * length b \<Longrightarrow> path_metric (pairs llrs) s b = correlation llrs (conv_loop s b)"
proof (induction b arbitrary: llrs s)
  case (Cons i b)
  then obtain x y rest where "llrs = x # y # rest" "length rest = 2 * length b"
    by (cases llrs rule: pairs.cases) auto
  then show ?case
    using Cons.IH by (simp add: correlation_def edge_cost_def next_state_def Let_def)
qed (simp add: correlation_def)

definition bits_value :: "u8 list \<Rightarrow> nat" where
  "bits_value t = foldl (\<lambda>v b. 2 * v + unat b) 0 t"

lemma bits_value_zero: "bit_list t \<Longrightarrow> bits_value t = 0 \<longleftrightarrow> t = replicate (length t) 0"
proof (induction t rule: rev_induct)
  case (snoc b t)
  have "t @ [b] = replicate (length (t @ [b])) 0 \<longleftrightarrow> t = replicate (length t) 0 \<and> b = 0"
    by (auto simp flip: replicate_append_same)
  then show ?case using snoc by (simp add: bits_value_def unat_eq_0)
qed (simp add: bits_value_def)

lemma bits_value_lt: "bit_list t \<Longrightarrow> bits_value t < 2 ^ length t"
  by (induction t rule: rev_induct) (auto simp: bits_value_def)

lemma state_after_bits:
  "bit_list t \<Longrightarrow> unat s < 64 \<Longrightarrow>
    unat (foldl next_state s t) = (2 ^ length t * unat s + bits_value t) mod 64"
proof (induction t rule: rev_induct)
  case (snoc b t)
  have b: "b = 0 \<or> b = 1" using snoc.prems by simp
  have "unat (foldl next_state s t) < 64" using snoc by simp
  then have "unat (foldl next_state s (t @ [b])) = (2 * unat (foldl next_state s t) + unat b) mod 64"
    using b by (simp add: next_state_unat)
  also have "\<dots> = (2 * (2 ^ length t * unat s + bits_value t) + unat b) mod 64"
    using snoc by (metis bit_list_simps(3) mod_add_left_eq mod_mult_right_eq)
  finally show ?case by (simp add: bits_value_def algebra_simps)
qed (simp add: bits_value_def)

lemma path_to_zero:
  assumes "path_of ps b 0" and "6 \<le> length ps"
  shows "b = take (length ps - 6) b @ replicate 6 0"
proof -
  let ?h = "take (length ps - 6) b" and ?t = "drop (length ps - 6) b"
  have t: "bit_list ?h" "bit_list ?t" "length ?t = 6"
    using assms by (auto simp: path_of_def bit_list_iff dest: in_set_takeD in_set_dropD)
  have "state_after (?h @ ?t) = 0" using assms by (simp add: path_of_def unat_eq_0)
  then have "unat (foldl next_state (state_after ?h) ?t) = 0" unfolding foldl_append by simp
  then have "bits_value ?t mod 64 = 0" using state_after_bits[OF t(2), of "state_after ?h"] t(3) by simp
  then have "?t = replicate 6 0" using bits_value_zero[OF t(2)] bits_value_lt[OF t(2)] t(3) by simp
  then show ?thesis by (metis append_take_drop_id)
qed

lemma path_from_tail:
  assumes "bit_list b" and "length b + 6 = length ps"
  shows "path_of ps (b @ replicate 6 0) 0"
proof -
  have "unat (foldl next_state (state_after b) (replicate 6 0)) = 0"
    using state_after_bits[of "replicate 6 0" "state_after b"] bits_value_zero[of "replicate 6 0"] by simp
  then show ?thesis using assms by (simp add: path_of_def)
qed

lemma convolutional_encode_iff:
  "convolutional_encode bits = Inr code \<longleftrightarrow>
     bit_list bits \<and> length bits \<le> 2048 \<and> code = conv_loop 0 (bits @ replicate 6 0)"
  by (auto simp: convolutional_encode_def bit_list_def)

lemma traceback_zero:
  assumes "forward_inv ps (scores, history)" and "scores ! 0 \<noteq> NEGATIVE_INFINITY" and "6 \<le> length ps"
  obtains bits where "bit_list bits" and "length bits = length ps - 6"
    and "path_metric ps 0 (bits @ replicate 6 0) = scores ! 0"
    and "traceback (rev history) 0 [] = Inr (bits @ replicate 6 0, 0)"
proof -
  from assms(1,2) obtain b where b: "path_of ps b 0" "path_metric ps 0 b = scores ! 0"
    "traceback (rev history) 0 [] = Inr (b, 0)"
    by (auto simp: forward_inv_def) (metis append_Nil2 zero_less_numeral)
  have split: "b = take (length ps - 6) b @ replicate 6 0" by (rule path_to_zero[OF b(1) assms(3)])
  have "bit_list (take (length ps - 6) b)"
    using b(1) by (auto simp: path_of_def bit_list_iff dest: in_set_takeD)
  moreover have "length (take (length ps - 6) b) = length ps - 6" using b(1) by (simp add: path_of_def)
  ultimately show thesis using that b split by metis
qed

lemma viterbi_optimal:
  assumes len: "12 \<le> length llrs" "length llrs \<le> 4108" "even (length llrs)" "(length llrs div 2 - 6) mod 8 = 0"
  obtains r code where "soft_viterbi_decode llrs = Inr r"
    and "length (dr_bits r) = length llrs div 2 - 6"
    and "convolutional_encode (dr_bits r) = Inr code" and "dr_path_metric r = correlation llrs code"
    and "\<And>bits code'. length bits = length llrs div 2 - 6 \<Longrightarrow> convolutional_encode bits = Inr code' \<Longrightarrow>
      correlation llrs code' \<le> dr_path_metric r"
proof -
  let ?ps = "pairs llrs" and ?d = "length llrs div 2 - 6"
  have n: "length llrs = 2 * (length llrs div 2)" using len(3) by simp
  obtain scores history where f: "viterbi_forward ?ps = (scores, history)" by fastforce
  have inv: "forward_inv ?ps (scores, history)"
    using viterbi_forward_inv[of ?ps] len f by simp
  have upper: "correlation llrs code' \<le> scores ! 0"
    if "length bits = ?d" "convolutional_encode bits = Inr code'" for bits code'
  proof -
    have b: "bit_list bits" "code' = conv_loop 0 (bits @ replicate 6 0)" and l: "length bits + 6 = length ?ps"
      using that len by (auto simp: convolutional_encode_iff)
    have "path_metric ?ps 0 (bits @ replicate 6 0) \<le> scores ! 0"
      using inv path_from_tail[OF b(1) l] by (auto simp: forward_inv_def)
    moreover have "length llrs = 2 * length (bits @ replicate 6 0)" using l n by simp
    ultimately show ?thesis using b(2) by (simp add: path_metric_correlation)
  qed
  have "path_of ?ps (replicate ?d 0 @ replicate 6 0) 0" using len by (intro path_from_tail) simp_all
  then have "path_metric ?ps 0 (replicate ?d 0 @ replicate 6 0) \<le> scores ! 0"
    using inv unfolding forward_inv_def fst_conv by blast
  then have "scores ! 0 \<noteq> NEGATIVE_INFINITY"
    using path_not_infinite[of ?ps 0 "replicate ?d 0 @ replicate 6 0"] len(2) by fastforce
  then obtain bits where bits: "bit_list bits" "length bits = ?d"
    and metric: "path_metric ?ps 0 (bits @ replicate 6 0) = scores ! 0"
    and tb: "traceback (rev history) 0 [] = Inr (bits @ replicate 6 0, 0)"
    using traceback_zero[OF inv] len by (auto simp: less_eq_div_iff_mult_less_eq)
  have enc: "convolutional_encode bits = Inr (conv_loop 0 (bits @ replicate 6 0))"
    using bits len by (simp add: convolutional_encode_iff)
  have "length llrs = 2 * length (bits @ replicate 6 0)" using bits(2) len n by simp
  then have corr: "scores ! 0 = correlation llrs (conv_loop 0 (bits @ replicate 6 0))"
    using metric path_metric_correlation[of llrs "bits @ replicate 6 0" 0] by simp
  have dec: "soft_viterbi_decode llrs = Inr \<lparr> dr_bits = bits, dr_path_metric = scores ! 0,
      dr_confidence = viterbi_confidence llrs \<rparr>"
    using len f tb bits(2) \<open>scores ! 0 \<noteq> NEGATIVE_INFINITY\<close>
    by (simp add: soft_viterbi_decode_def Let_def even_iff_mod_2_eq_zero list_ex_iff)
  show thesis
    by (rule that[OF dec, of "conv_loop 0 (bits @ replicate 6 0)"]) (use bits enc corr upper in simp_all)
qed

section \<open>Decoding what was sent\<close>

lemma shift_in_bit0: "i = 0 \<or> i = 1 \<Longrightarrow> bit (shift_in s i) 0 \<longleftrightarrow> i = 1"
  unfolding shift_in_def bit_or_iff bit_push_bit_iff by (auto simp: bit_1_iff)

lemma shift_in_bits: "i = 0 \<or> i = 1 \<Longrightarrow> 0 < n \<Longrightarrow> bit (shift_in s i) n \<longleftrightarrow> bit (shift_in s 0) n"
  unfolding shift_in_def bit_or_iff bit_push_bit_iff by (auto simp: bit_1_iff)

lemma parity_bit_inj:
  assumes "parity_bit (shift_in s i) g = parity_bit (shift_in s j) g" and "bit g 0"
    and ij: "i = 0 \<or> i = 1" "j = 0 \<or> j = 1"
  shows "i = j"
proof -
  let ?c = "\<lambda>i. filter (bit (shift_in s i AND g)) [0..<8]"
  have "?c i = (if i = 1 then [0] else []) @ filter (bit (shift_in s 0 AND g)) [1..<8]"
    if "i = 0 \<or> i = 1" for i
  proof -
    have "[0..<8] = 0 # [1..<8]" by (simp add: upt_rec)
    moreover have "filter (bit (shift_in s i AND g)) [1..<8] = filter (bit (shift_in s 0 AND g)) [1..<8]"
      using shift_in_bits[OF that] by (intro filter_cong) (auto simp: bit_and_iff)
    ultimately show ?thesis using shift_in_bit0[OF that] assms(2) by (auto simp: bit_and_iff)
  qed
  then have "count_ones (shift_in s i AND g) = (if i = 1 then 1 else 0) + length (filter (bit (shift_in s 0 AND g)) [1..<8])"
    if "i = 0 \<or> i = 1" for i using that by (simp add: count_ones_def)
  then show ?thesis using assms(1) ij by (auto simp: parity_bit_odd of_bool_eq_iff split: if_splits)
qed

lemma conv_loop_inj:
  "conv_loop s b = conv_loop s b' \<Longrightarrow> bit_list b \<Longrightarrow> bit_list b' \<Longrightarrow> b = b'"
proof (induction b arbitrary: s b')
  case Nil
  then show ?case by (cases b') (simp_all add: Let_def)
next
  case (Cons i b)
  then obtain j c where b': "b' = j # c" by (cases b') (simp_all add: Let_def)
  have "parity_bit (shift_in s i) G1 = parity_bit (shift_in s j) G1"
    using Cons.prems(1) by (simp add: b' Let_def)
  then have "i = j" using Cons.prems by (intro parity_bit_inj[of s i G1 j]) (simp_all add: b' bit_numeral_rec)
  then show ?case using Cons by (simp add: b' Let_def)
qed

definition clean :: "i8 list \<Rightarrow> u8 list \<Rightarrow> bool" where
  "clean llrs code \<longleftrightarrow> list_all2 (\<lambda>l c. sint l \<noteq> 0 \<and> (0 < sint l \<longleftrightarrow> c = 1)) llrs code"

lemma clean_correlation: "clean llrs code \<Longrightarrow> correlation llrs code = sum_list (map (\<lambda>l. \<bar>sint l\<bar>) llrs)"
  unfolding clean_def
  by (induction rule: list_all2_induct) (auto simp: correlation_def llr_metric_def)

lemma clean_best:
  assumes "clean llrs code" and "length code' = length code" and "bit_list code" and "bit_list code'"
    and "correlation llrs code \<le> correlation llrs code'"
  shows "code' = code"
proof -
  have le: "correlation llrs xs \<le> sum_list (map (\<lambda>l. \<bar>sint l\<bar>) llrs)" for llrs xs
    by (induction llrs xs rule: list_induct2')
      (auto simp: correlation_def llr_metric_def intro!: add_nonneg_nonneg sum_list_nonneg)
  show ?thesis
    using assms unfolding clean_def
  proof (induction arbitrary: code' rule: list_all2_induct)
    case (Cons l llrs c code)
    then obtain d ds where d: "code' = d # ds" by (cases code') auto
    have "clean llrs code" using Cons.hyps(2) by (simp add: clean_def)
    then have "correlation llrs ds \<le> correlation llrs code"
      using le[of llrs ds] by (simp add: clean_correlation)
    moreover have "llr_metric l c \<le> llr_metric l d \<Longrightarrow> d = c"
      using Cons.hyps(1) Cons.prems by (auto simp: d llr_metric_def)
    moreover have "llr_metric l d \<le> llr_metric l c"
      using Cons.hyps(1) Cons.prems by (auto simp: d llr_metric_def)
    ultimately have "d = c" "correlation llrs code \<le> correlation llrs ds"
      using Cons.prems(4) by (auto simp: d correlation_def)
    then show ?case using Cons.IH[of ds] Cons.prems by (simp add: d)
  qed simp
qed

lemma viterbi_clean:
  assumes enc: "convolutional_encode bits = Inr code" and "length bits mod 8 = 0" and cl: "clean llrs code"
  obtains r where "soft_viterbi_decode llrs = Inr r" and "dr_bits r = bits"
    and "dr_path_metric r = sum_list (map (\<lambda>l. \<bar>sint l\<bar>) llrs)"
proof -
  from enc have b: "bit_list bits" "length bits \<le> 2048" "code = conv_loop 0 (bits @ replicate 6 0)"
    by (auto simp: convolutional_encode_iff)
  have len: "length llrs = 2 * (length bits + 6)"
    using cl b(3) by (simp add: clean_def list_all2_lengthD)
  obtain r code' where r: "soft_viterbi_decode llrs = Inr r" "length (dr_bits r) = length llrs div 2 - 6"
    "convolutional_encode (dr_bits r) = Inr code'" "dr_path_metric r = correlation llrs code'"
    and best: "correlation llrs code \<le> dr_path_metric r"
    by (rule viterbi_optimal[of llrs]) (use len b assms(2) enc in auto)
  have code': "code' = conv_loop 0 (dr_bits r @ replicate 6 0)" "bit_list (dr_bits r)"
    using r(3) by (simp_all add: convolutional_encode_iff)
  have "code' = code"
    using best r(2,4) len b code' by (intro clean_best[OF cl]) simp_all
  then have "conv_loop 0 (dr_bits r @ replicate 6 0) = conv_loop 0 (bits @ replicate 6 0)"
    using code'(1) b(3) by simp
  then have "dr_bits r @ replicate 6 0 = bits @ replicate 6 0"
    by (rule conv_loop_inj) (simp_all add: code'(2) b(1))
  then show thesis
    using that r(1,4) clean_correlation[OF cl] \<open>code' = code\<close> by simp
qed

lemma sint_uminus_u8: "- 128 < sint (m :: i8) \<Longrightarrow> sint (- m) = - sint m"
proof -
  assume m: "- 128 < sint m"
  have "sint (- m) = signed_take_bit 7 (- sint m)" using sint_word_ariths(4)[of m] by simp
  also have "\<dots> = - sint m"
    by (rule signed_take_bit_int_eq_self) (use m sint_less[of m] sint_greater_eq[of m] in simp_all)
  finally show ?thesis .
qed

lemma hard_bits_clean:
  assumes "hard_bits_to_llrs bits m = Inr llrs"
  shows "clean llrs bits"
proof -
  have m: "0 < sint m" and b: "bit_list bits" and l: "llrs = map (\<lambda>b. if b = 1 then m else - m) bits"
    using assms(1) by (auto simp: hard_bits_to_llrs_def bit_list_def split: if_splits)
  have neg: "sint (- m) = - sint m" using m by (intro sint_uminus_u8) simp
  show ?thesis
    unfolding clean_def l list_all2_map1
    by (rule list.rel_refl_strong) (use m neg b in \<open>auto simp: bit_list_iff\<close>)
qed

section \<open>The free distance of the code is ten\<close>

definition distance :: "u8 list \<Rightarrow> u8 list \<Rightarrow> nat" where
  "distance xs ys = length (filter (\<lambda>(x, y). x \<noteq> y) (zip xs ys))"

definition edge_weight :: "u8 \<Rightarrow> u8 \<Rightarrow> nat" where
  "edge_weight s i = unat (parity_bit (shift_in s i) G0) + unat (parity_bit (shift_in s i) G1)"

fun path_weight :: "u8 \<Rightarrow> u8 list \<Rightarrow> nat" where
  "path_weight s [] = 0"
| "path_weight s (i # is) = edge_weight s i + path_weight (next_state s i) is"

text \<open>The least weight of a path from each state back to state 0.\<close>

definition weight_to_zero :: "nat list" where
  "weight_to_zero =
     [0, 8, 7, 7, 7, 5, 6, 6, 5, 7, 4, 8, 4, 6, 5, 7, 3, 7, 6, 6, 4, 4, 7, 7, 4, 6, 5, 7, 5, 7, 6, 6,
      2, 8, 5, 7, 5, 5, 4, 6, 3, 7, 4, 8, 6, 6, 7, 7, 3, 5, 6, 4, 4, 6, 7, 7, 4, 4, 5, 7, 5, 5, 6, 6]"

lemma weight_to_zero_table:
  "list_all (\<lambda>n. list_all (\<lambda>i. weight_to_zero ! n \<le>
     edge_weight (word_of_nat n) i + weight_to_zero ! unat (next_state (word_of_nat n) i)) [0, 1]) [0..<64]"
  by code_simp

lemma weight_to_zero_edge:
  assumes "unat s < 64" and "i = 0 \<or> i = 1"
  shows "weight_to_zero ! unat s \<le> edge_weight s i + weight_to_zero ! unat (next_state s i)"
  using bspec[OF weight_to_zero_table[unfolded list_all_iff set_upt], of "unat s"] assms by auto

lemma path_weight_bound:
  "unat s < 64 \<Longrightarrow> bit_list is \<Longrightarrow>
    weight_to_zero ! unat s \<le> path_weight s is + weight_to_zero ! unat (foldl next_state s is)"
proof (induction "is" arbitrary: s)
  case (Cons i "is")
  then have "weight_to_zero ! unat s \<le> edge_weight s i + weight_to_zero ! unat (next_state s i)"
    by (intro weight_to_zero_edge) simp_all
  moreover have "weight_to_zero ! unat (next_state s i) \<le>
      path_weight (next_state s i) is + weight_to_zero ! unat (foldl next_state (next_state s i) is)"
    using Cons by simp
  ultimately show ?case by simp
qed simp

lemma first_edges: "edge_weight 0 1 = 2" "next_state 0 1 = 1" "edge_weight 0 0 = 0" "next_state 0 0 = 0"
  by code_simp+

lemma nonzero_path_weight:
  "bit_list is \<Longrightarrow> foldl next_state 0 is = 0 \<Longrightarrow> is \<noteq> replicate (length is) 0 \<Longrightarrow> 10 \<le> path_weight 0 is"
proof (induction "is")
  case (Cons i "is")
  show ?case
  proof (cases "i = 0")
    case True
    then show ?thesis using Cons by (simp add: first_edges)
  next
    case False
    then have "i = 1" using Cons.prems(1) by simp
    moreover have "weight_to_zero ! unat (1 :: u8) \<le> path_weight 1 is + weight_to_zero ! unat (foldl next_state 1 is)"
      using Cons.prems(1) by (intro path_weight_bound) simp_all
    ultimately show ?thesis using Cons.prems(2) by (simp add: first_edges weight_to_zero_def)
  qed
qed simp

lemma shift_in_xor:
  "i = 0 \<or> i = 1 \<Longrightarrow> j = 0 \<or> j = 1 \<Longrightarrow> shift_in (s XOR t) (i XOR j) = shift_in s i XOR shift_in t j"
  unfolding shift_in_def
  by (rule bit_word_eqI, unfold bit_or_iff bit_xor_iff bit_push_bit_iff) (auto simp: bit_1_iff)

lemma next_state_xor:
  "i = 0 \<or> i = 1 \<Longrightarrow> j = 0 \<or> j = 1 \<Longrightarrow> next_state (s XOR t) (i XOR j) = next_state s i XOR next_state t j"
  by (simp only: next_state_def shift_in_xor bit.conj_xor_distrib2)

lemma odd_filter_xor:
  "odd (length (filter (\<lambda>x. P x \<noteq> Q x) xs)) \<longleftrightarrow> odd (length (filter P xs)) \<noteq> odd (length (filter Q xs))"
  by (induction xs) auto

lemma parity_bit_xor: "parity_bit (a XOR b) g = of_bool (parity_bit a g \<noteq> parity_bit b g)"
proof -
  have "bit ((a XOR b) AND g) = (\<lambda>n. bit (a AND g) n \<noteq> bit (b AND g) n)"
    by (auto simp: bit_and_iff bit_xor_iff)
  then have "odd (count_ones ((a XOR b) AND g)) \<longleftrightarrow> odd (count_ones (a AND g)) \<noteq> odd (count_ones (b AND g))"
    by (simp only: count_ones_def odd_filter_xor)
  then show ?thesis by (simp add: parity_bit_odd)
qed

lemma conv_loop_distance:
  assumes "length b = length c" and "bit_list b" and "bit_list c"
  shows "distance (conv_loop s b) (conv_loop t c) = path_weight (s XOR t) (map2 (XOR) b c)"
  using assms
proof (induction b c arbitrary: s t rule: list_induct2)
  case (Cons i b j c)
  have ij: "i = 0 \<or> i = 1" "j = 0 \<or> j = 1" using Cons.prems by simp_all
  have "distance (conv_loop s (i # b)) (conv_loop t (j # c)) =
      edge_weight (s XOR t) (i XOR j) + distance (conv_loop (next_state s i) b) (conv_loop (next_state t j) c)"
    by (simp add: distance_def Let_def edge_weight_def shift_in_xor[OF ij] parity_bit_xor next_state_def)
  then show ?case using Cons by (simp add: next_state_xor[OF ij])
qed (simp add: distance_def)

lemma bit_list_xor: "length b = length c \<Longrightarrow> bit_list b \<Longrightarrow> bit_list c \<Longrightarrow> bit_list (map2 (XOR) b c)"
  by (induction b c rule: list_induct2) auto

lemma xor_zero: "(x :: u8) XOR y = 0 \<longleftrightarrow> x = y"
  by (metis xor.assoc xor.left_neutral xor_self_eq)

lemma xor_zero_eq: "length b = length c \<Longrightarrow> map2 (XOR) b c = replicate (length (map2 (XOR) b c)) 0 \<Longrightarrow> b = (c :: u8 list)"
  by (induction b c rule: list_induct2) (auto simp: xor_zero)

text \<open>Two codewords of one length differ in at least ten places.\<close>

lemma free_distance:
  assumes "convolutional_encode b = Inr x" and "convolutional_encode c = Inr y"
    and len: "length b = length c" and ne: "b \<noteq> c"
  shows "10 \<le> distance x y"
proof -
  let ?z = "map2 (XOR) (b @ replicate 6 0) (c @ replicate 6 0)"
  from assms have bl: "bit_list b" "bit_list c" and xy: "x = conv_loop 0 (b @ replicate 6 0)" "y = conv_loop 0 (c @ replicate 6 0)"
    by (simp_all add: convolutional_encode_iff)
  have z: "?z = map2 (XOR) b c @ replicate 6 0" using len by simp
  have "foldl next_state 0 ?z = 0"
    using path_from_tail[of "map2 (XOR) b c" "replicate (length b + 6) (0, 0)"] len bl
    by (simp add: z bit_list_xor path_of_def unat_eq_0)
  moreover have "?z \<noteq> replicate (length ?z) 0"
    using xor_zero_eq[of "b @ replicate 6 0" "c @ replicate 6 0"] len ne by auto
  ultimately have "10 \<le> path_weight 0 ?z"
    using len bl by (intro nonzero_path_weight bit_list_xor) simp_all
  then show ?thesis
    using conv_loop_distance[of "b @ replicate 6 0" "c @ replicate 6 0" 0 0] len bl xy by simp
qed

lemma distance_triangle:
  "length x = length y \<Longrightarrow> length y = length z \<Longrightarrow> distance x z \<le> distance y x + distance y z"
  unfolding distance_def by (induction x y z rule: list_induct3) auto

lemma hard_correlation:
  assumes "hard_bits_to_llrs bits m = Inr llrs" and "length code = length bits" and "bit_list code"
  shows "correlation llrs code = sint m * (int (length bits) - 2 * int (distance bits code))"
proof -
  have m: "0 < sint m" and b: "bit_list bits" and l: "llrs = map (\<lambda>b. if b = 1 then m else - m) bits"
    using assms(1) by (auto simp: hard_bits_to_llrs_def bit_list_def split: if_splits)
  have neg: "sint (- m) = - sint m" using m by (intro sint_uminus_u8) simp
  show ?thesis
    using assms(2)[symmetric] assms(3) b unfolding l
    by (induction bits code rule: list_induct2)
      (auto simp: correlation_def distance_def llr_metric_def neg algebra_simps)
qed

text \<open>Any four flipped bits are corrected.\<close>

lemma viterbi_corrects:
  assumes enc: "convolutional_encode bits = Inr code" and "length bits mod 8 = 0"
    and hard: "hard_bits_to_llrs received m = Inr llrs" and len: "length received = length code"
    and four: "distance received code \<le> 4"
  obtains r where "soft_viterbi_decode llrs = Inr r" and "dr_bits r = bits"
proof -
  from enc have b: "bit_list bits" "length bits \<le> 2048" and code: "code = conv_loop 0 (bits @ replicate 6 0)"
    by (auto simp: convolutional_encode_iff)
  have m: "0 < sint m" and llen: "length llrs = length received"
    using hard by (auto simp: hard_bits_to_llrs_def split: if_splits)
  have clen: "length code = 2 * (length bits + 6)" by (simp add: code)
  obtain r code' where r: "soft_viterbi_decode llrs = Inr r" "length (dr_bits r) = length llrs div 2 - 6"
    "convolutional_encode (dr_bits r) = Inr code'" "dr_path_metric r = correlation llrs code'"
    and best: "correlation llrs code \<le> dr_path_metric r"
    by (rule viterbi_optimal[of llrs]) (use len llen clen b assms(2) enc in auto)
  have rl: "length (dr_bits r) = length bits" using r(2) llen len clen by simp
  have code': "length code' = length received" "bit_list code'"
    using r(3) rl len clen by (simp_all add: convolutional_encode_iff)
  have "sint m * (int (length received) - 2 * int (distance received code)) \<le>
      sint m * (int (length received) - 2 * int (distance received code'))"
    using best r(4) hard_correlation[OF hard] code' len code by simp
  then have "distance received code' \<le> 4" using m four by simp
  then have "distance code' code \<le> 8"
    using distance_triangle[of code' received code] code'(1) len four by linarith
  then have "dr_bits r = bits" using free_distance[OF r(3) enc rl] by force
  with r(1) show thesis by (rule that)
qed

section \<open>Properties\<close>

text \<open>C5. The decoder is total on well-formed input and optimal: it fails exactly on the
  lengths it refuses, and otherwise returns bits whose codeword correlates with the
  received values at least as well as the codeword of any other bits of that length.\<close>

theorem viterbi_maximum_likelihood:
  "(is_ok (soft_viterbi_decode llrs) \<longleftrightarrow>
     12 \<le> length llrs \<and> length llrs \<le> 4108 \<and> even (length llrs) \<and> (length llrs div 2 - 6) mod 8 = 0) \<and>
   (\<forall>r. soft_viterbi_decode llrs = Inr r \<longrightarrow>
     (\<exists>code. convolutional_encode (dr_bits r) = Inr code \<and> length code = length llrs \<and>
        dr_path_metric r = correlation llrs code \<and>
        (\<forall>bits code'. length bits = length (dr_bits r) \<and> convolutional_encode bits = Inr code' \<longrightarrow>
           correlation llrs code' \<le> correlation llrs code)))"
  (is "(_ \<longleftrightarrow> ?len) \<and> _")
proof (cases ?len)
  case False
  then have "soft_viterbi_decode llrs = Inl InvalidFec"
    by (auto simp: soft_viterbi_decode_def Let_def even_iff_mod_2_eq_zero)
  with False show ?thesis by auto
next
  case True
  then have c: "12 \<le> length llrs" "length llrs \<le> 4108" "even (length llrs)" "(length llrs div 2 - 6) mod 8 = 0"
    by auto
  show ?thesis
  proof (rule viterbi_optimal[OF c])
    fix r code
    assume r: "soft_viterbi_decode llrs = Inr r" "length (dr_bits r) = length llrs div 2 - 6"
      "convolutional_encode (dr_bits r) = Inr code" "dr_path_metric r = correlation llrs code"
      and best: "\<And>bits code'. length bits = length llrs div 2 - 6 \<Longrightarrow> convolutional_encode bits = Inr code' \<Longrightarrow>
        correlation llrs code' \<le> dr_path_metric r"
    have "length code = length llrs" using r(2,3) c by (auto simp: convolutional_encode_iff)
    then show ?thesis using True r best by auto
  qed
qed

lemma zero_codeword: "convolutional_encode (replicate 8 0) = Inr (replicate 28 0)"
  by code_simp

theorem viterbi_maximum_likelihood_witness:
  "\<exists>r code. soft_viterbi_decode (replicate 28 5) = Inr r \<and> convolutional_encode (dr_bits r) = Inr code \<and>
     correlation (replicate 28 5) (replicate 28 0) \<le> correlation (replicate 28 5) code"
proof -
  from viterbi_maximum_likelihood[of "replicate 28 5"]
  obtain r code where r: "soft_viterbi_decode (replicate 28 5) = Inr r" "convolutional_encode (dr_bits r) = Inr code"
    "length code = 28"
    and best: "\<And>bits code'. length bits = length (dr_bits r) \<Longrightarrow> convolutional_encode bits = Inr code' \<Longrightarrow>
      correlation (replicate 28 5) code' \<le> correlation (replicate 28 5) code"
    by (auto simp: is_ok_iff)
  have "length (replicate 8 (0 :: u8)) = length (dr_bits r)"
    using r(2,3) by (simp add: convolutional_encode_iff)
  from best[OF this zero_codeword] r show ?thesis by blast
qed

text \<open>Error correction: whatever at most four of the hard-decided code bits are flipped,
  the decoder returns the encoded bits.\<close>

theorem viterbi_corrects_four_errors:
  assumes "convolutional_encode bits = Inr code" and "length bits mod 8 = 0"
    and "hard_bits_to_llrs received m = Inr llrs" and "length received = length code"
    and "distance received code \<le> 4"
  shows "\<exists>r. soft_viterbi_decode llrs = Inr r \<and> dr_bits r = bits"
  using viterbi_corrects[OF assms] by blast

theorem viterbi_corrects_four_errors_witness:
  "\<exists>r. soft_viterbi_decode (replicate 4 90 @ replicate 24 (- 90)) = Inr r \<and> dr_bits r = replicate 8 0"
proof (rule viterbi_corrects_four_errors[OF zero_codeword])
  show "hard_bits_to_llrs (replicate 4 1 @ replicate 24 0) 90 = Inr (replicate 4 90 @ replicate 24 (- 90))"
    by (simp add: hard_bits_to_llrs_def list_ex_iff)
  show "distance (replicate 4 1 @ replicate 24 0) (replicate 28 0) \<le> 4"
    by (simp add: distance_def numeral_eq_Suc)
qed simp_all

text \<open>Soft values of the right signs decode to the encoded bits, whatever their
  magnitudes, with the sum of the magnitudes as path metric.\<close>

theorem viterbi_decodes_clean:
  assumes "convolutional_encode bits = Inr code" and "length bits mod 8 = 0" and "clean llrs code"
  shows "\<exists>r. soft_viterbi_decode llrs = Inr r \<and> dr_bits r = bits \<and>
    dr_path_metric r = sum_list (map (\<lambda>l. \<bar>sint l\<bar>) llrs)"
  using viterbi_clean[OF assms] by blast

theorem viterbi_decodes_clean_witness:
  "\<exists>r. soft_viterbi_decode (replicate 28 (- 3)) = Inr r \<and> dr_bits r = replicate 8 0"
  using viterbi_decodes_clean[OF zero_codeword, of "replicate 28 (- 3)"]
  by (simp add: clean_def list_all2_conv_all_nth) blast

text \<open>Deinterleaving undoes interleaving for every length and column count that
  \<open>interleave_soft\<close> accepts, and refuses the same column counts.\<close>

theorem interleave_roundtrip:
  "rbind (interleave_soft llrs columns) (\<lambda>xs. deinterleave_soft xs columns) =
     (if columns = 0 \<or> columns > MAX_CODED_BITS then Inl InvalidFec else Inr llrs)"
proof (cases "interleave_copy llrs columns")
  case (Inl e)
  then show ?thesis by (auto simp: interleave_soft_def interleave_copy_def split: if_splits)
next
  case (Inr xs)
  then show ?thesis
    using deinterleave_interleave[OF Inr] by (auto simp: interleave_soft_def interleave_copy_def split: if_splits)
qed

text \<open>Bytes and their bits, most significant first, convert into each other: the bit
  lists that \<open>bits_to_bytes_msb\<close> accepts are exactly those \<open>bytes_to_bits_msb\<close> writes.\<close>

theorem bits_bytes_roundtrip:
  "bits_to_bytes_msb bits = Inr bs \<longleftrightarrow> bits = bytes_to_bits_msb bs"
  using bits_to_bytes_bits bytes_to_bits_bytes by blast

end
