(* ===== verification/Phy.thy ===== *)
theory Phy
  imports Fec
begin

text \<open>
  \<open>latentmesh-air-radio/src/phy.rs\<close>: the burst format (sync word, triply repeated length,
  interleaved convolutional codeword), its aligned decoder and the streaming deframer.
  A soft value is an \<open>i8\<close>; bit 1 is the positive sign.
\<close>

abbreviation (input) PHY_SYNC :: u32 where "PHY_SYNC \<equiv> 0xd391c5a7"
abbreviation (input) SYNC_BITS :: nat where "SYNC_BITS \<equiv> 32"
abbreviation (input) LENGTH_BITS_REPEATED :: nat where "LENGTH_BITS_REPEATED \<equiv> 48"
abbreviation (input) PHY_PREFIX_BITS :: nat where "PHY_PREFIX_BITS \<equiv> 80"
abbreviation (input) I8_MIN :: i8 where "I8_MIN \<equiv> 0x80"

section \<open>The burst codec\<close>

record burst_codec =
  interleaver_columns :: nat

definition burst_codec_new :: "nat \<Rightarrow> burst_codec air_result" where
  "burst_codec_new columns =
     (if columns = 0 \<or> columns > 256 then Inl InvalidLength
      else Inr \<lparr> interleaver_columns = columns \<rparr>)"

definition sync_bits :: "u8 list" where
  "sync_bits = map (\<lambda>shift. ucast (drop_bit shift PHY_SYNC AND 1)) (rev [0..<32])"

definition length_bits :: "u16 \<Rightarrow> u8 list" where
  "length_bits coded_len =
     concat (map (\<lambda>shift. let b = ucast (drop_bit shift coded_len AND 1) in [b, b, b]) (rev [0..<16]))"

definition burst_encode :: "burst_codec \<Rightarrow> bytes \<Rightarrow> u8 list air_result" where
  "burst_encode codec frame_bytes =
     rbind (convolutional_encode (bytes_to_bits_msb frame_bytes)) (\<lambda>coded.
     rbind (interleave_bits coded (interleaver_columns codec)) (\<lambda>interleaved.
       if length interleaved > 65535 then Inl LimitExceeded
       else Inr (sync_bits @ length_bits (word_of_nat (length interleaved)) @ interleaved)))"

definition positive :: "i8 \<Rightarrow> bool" where
  "positive llr \<longleftrightarrow> 0 < sint llr"

definition sync_errors :: "i8 list \<Rightarrow> nat" where
  "sync_errors llrs =
     length (filter (\<lambda>(index, llr). positive llr \<noteq> (drop_bit (31 - index) PHY_SYNC AND 1 \<noteq> 0))
       (enumerate 0 llrs))"

definition decode_repeated_length :: "i8 list \<Rightarrow> nat air_result" where
  "decode_repeated_length llrs =
     (if length llrs \<noteq> LENGTH_BITS_REPEATED then Inl InvalidLength
      else Inr (unat (foldl (\<lambda>value triplet.
          let votes = length (filter positive triplet)
          in push_bit 1 value OR (if votes \<ge> 2 then 1 else 0 :: u16)) 0 (chunks_exact 3 llrs))))"

definition decode_coded :: "burst_codec \<Rightarrow> i8 list \<Rightarrow> bytes air_result" where
  "decode_coded codec llrs =
     rbind (deinterleave_soft llrs (interleaver_columns codec)) (\<lambda>ordered.
     rbind (soft_viterbi_decode ordered) (\<lambda>decoded. bits_to_bytes_msb (dr_bits decoded)))"

definition coded_len_ok :: "nat \<Rightarrow> bool" where
  "coded_len_ok n \<longleftrightarrow> 12 \<le> n \<and> n \<le> MAX_CODED_BITS \<and> n mod 2 = 0"

definition decode_aligned :: "burst_codec \<Rightarrow> i8 list \<Rightarrow> bytes air_result" where
  "decode_aligned codec llrs =
     (if length llrs < PHY_PREFIX_BITS then Inl Truncated
      else if sync_errors (take SYNC_BITS llrs) > 3 then Inl InvalidMarker
      else rbind (decode_repeated_length (slice SYNC_BITS PHY_PREFIX_BITS llrs)) (\<lambda>coded_len.
        if \<not> coded_len_ok coded_len then Inl InvalidLength
        else if length llrs \<noteq> PHY_PREFIX_BITS + coded_len then Inl InvalidLength
        else decode_coded codec (drop PHY_PREFIX_BITS llrs)))"

section \<open>The streaming deframer\<close>

datatype soft_burst_state = Searching | ReadingHeader | ReadingPayload nat nat

record soft_burst_receiver =
  sb_codec :: burst_codec
  sb_shift :: u32
  sb_seen :: nat
  sb_header :: "i8 list"
  sb_payload :: "i8 list"
  sb_expected :: "nat option"

definition soft_burst_new :: "burst_codec \<Rightarrow> soft_burst_receiver" where
  "soft_burst_new codec =
     \<lparr> sb_codec = codec, sb_shift = 0, sb_seen = 0, sb_header = [], sb_payload = [], sb_expected = None \<rparr>"

definition soft_burst_state :: "soft_burst_receiver \<Rightarrow> soft_burst_state" where
  "soft_burst_state r =
     (case sb_expected r of
        Some expected \<Rightarrow> ReadingPayload (length (sb_payload r)) expected
      | None \<Rightarrow> if sb_header r \<noteq> [] \<or> (sb_seen r \<ge> SYNC_BITS \<and> sb_shift r = PHY_SYNC)
          then ReadingHeader else Searching)"

definition soft_burst_reset :: "soft_burst_receiver \<Rightarrow> soft_burst_receiver" where
  "soft_burst_reset r =
     r\<lparr> sb_shift := 0, sb_seen := 0, sb_header := [], sb_payload := [], sb_expected := None \<rparr>"

text \<open>\<open>usize::saturating_add\<close> on a 64-bit machine.\<close>

definition saturating_inc :: "nat \<Rightarrow> nat" where
  "saturating_inc n = min (2 ^ 64 - 1) (n + 1)"

definition push_llr :: "soft_burst_receiver \<Rightarrow> i8 \<Rightarrow> soft_burst_receiver \<times> bytes option air_result" where
  "push_llr r llr =
     (case sb_expected r of
        Some expected \<Rightarrow>
          let r1 = r\<lparr> sb_payload := sb_payload r @ [llr] \<rparr> in
          if length (sb_payload r1) = expected
          then (soft_burst_reset r1, rbind (decode_coded (sb_codec r1) (sb_payload r1)) (\<lambda>f. Inr (Some f)))
          else (r1, Inr None)
      | None \<Rightarrow>
          if sb_header r = [] then
            let r1 = r\<lparr> sb_shift := push_bit 1 (sb_shift r) OR (if positive llr then 1 else 0),
                        sb_seen := saturating_inc (sb_seen r) \<rparr> in
            if sb_seen r1 < SYNC_BITS \<or> sb_shift r1 \<noteq> PHY_SYNC then (r1, Inr None)
            else (r1\<lparr> sb_header := [I8_MIN] \<rparr>, Inr None)
          else
            let header = (if hd (sb_header r) = I8_MIN then [] else sb_header r) @ [llr];
                r1 = r\<lparr> sb_header := header \<rparr> in
            if length header = LENGTH_BITS_REPEATED then
              case decode_repeated_length header of
                Inl e \<Rightarrow> (r1, Inl e)
              | Inr expected \<Rightarrow>
                  if \<not> coded_len_ok expected then (soft_burst_reset r1, Inl InvalidLength)
                  else (r1\<lparr> sb_header := [], sb_payload := [], sb_expected := Some expected \<rparr>, Inr None)
            else (r1, Inr None))"

text \<open>The question mark in the loop of \<open>push_slice\<close> returns at the first error; the frames
  collected before it are dropped.\<close>

fun push_slice_loop ::
  "soft_burst_receiver \<Rightarrow> i8 list \<Rightarrow> bytes list \<Rightarrow> soft_burst_receiver \<times> bytes list air_result" where
  "push_slice_loop r [] frames = (r, Inr frames)"
| "push_slice_loop r (llr # llrs) frames =
     (let (r1, out) = push_llr r llr in
      case out of
        Inl e \<Rightarrow> (r1, Inl e)
      | Inr (Some frame) \<Rightarrow> push_slice_loop r1 llrs (frames @ [frame])
      | Inr None \<Rightarrow> push_slice_loop r1 llrs frames)"

definition push_slice :: "soft_burst_receiver \<Rightarrow> i8 list \<Rightarrow> soft_burst_receiver \<times> bytes list air_result" where
  "push_slice r llrs = push_slice_loop r llrs []"

section \<open>Shift registers\<close>

definition bits_word :: "bool list \<Rightarrow> 'a::len word" where
  "bits_word bs = foldl (\<lambda>w b. push_bit 1 w OR (if b then 1 else 0)) 0 bs"

lemma bits_word_snoc: "bits_word (bs @ [b]) = push_bit 1 (bits_word bs) OR (if b then 1 else 0)"
  by (simp add: bits_word_def)

lemma bit_bits_word:
  "bit (bits_word bs :: 'a::len word) i \<longleftrightarrow> i < LENGTH('a) \<and> i < length bs \<and> rev bs ! i"
proof (induction bs arbitrary: i rule: rev_induct)
  case Nil
  then show ?case by (simp add: bits_word_def)
next
  case (snoc b bs)
  have "bit (bits_word (bs @ [b]) :: 'a word) i \<longleftrightarrow>
      1 \<le> i \<and> i < LENGTH('a) \<and> bit (bits_word bs :: 'a word) (i - 1) \<or> i = 0 \<and> b"
    unfolding bits_word_snoc bit_or_iff bit_push_bit_iff by (auto simp: bit_1_iff)
  then show ?case using snoc.IH[of "i - 1"] by (cases i) auto
qed

lemma bits_word_bits: "bits_word (map (bit w) (rev [0..<LENGTH('a)])) = (w :: 'a::len word)"
  by (rule bit_word_eqI) (simp add: bit_bits_word rev_map)

lemma rev_upt_map: "rev [0..<n] = map (\<lambda>i. n - 1 - i) [0..<n]"
  by (rule nth_equalityI) (simp_all add: rev_nth)

lemma ucast_of_bool: "ucast (of_bool b :: 'a::len word) = (of_bool b :: 'b::len word)"
  by (cases b) simp_all

section \<open>Received bits\<close>

definition sign_bits :: "i8 list \<Rightarrow> u8 list" where
  "sign_bits llrs = map (\<lambda>l. if positive l then 1 else 0) llrs"

lemma length_sign_bits [simp]: "length (sign_bits llrs) = length llrs"
  by (simp add: sign_bits_def)

lemma clean_sign_bits: "clean llrs bits \<Longrightarrow> bit_list bits \<Longrightarrow> sign_bits llrs = bits"
  unfolding clean_def
proof (induction rule: list_all2_induct)
  case (Cons l ls c cs)
  then show ?case by (auto simp: sign_bits_def positive_def)
qed (simp add: sign_bits_def)

lemma sync_bits_eq: "sync_bits = map (\<lambda>i. of_bool (bit PHY_SYNC (31 - i))) [0..<32]"
  unfolding sync_bits_def drop_bit_and_1 rev_upt_map by simp

lemma sync_errors_distance:
  assumes "length llrs = 32"
  shows "sync_errors llrs = distance (sign_bits llrs) sync_bits"
proof -
  have "distance (sign_bits llrs) sync_bits =
      length (filter (\<lambda>i. positive (llrs ! i) \<noteq> bit PHY_SYNC (31 - i)) [0..<32])"
    using assms unfolding distance_def
    by (subst zip_nths)
      (auto simp: sync_bits_eq sign_bits_def filter_map comp_def split: if_splits
        intro!: arg_cong[where f = length] filter_cong)
  moreover have "sync_errors llrs =
      length (filter (\<lambda>i. positive (llrs ! i) \<noteq> bit PHY_SYNC (31 - i)) [0..<32])"
    unfolding sync_errors_def drop_bit_and_1 enumerate_nths using assms
    by (simp add: filter_map comp_def)
  ultimately show ?thesis by simp
qed

lemma slice_concat:
  "\<forall>x\<in>set xss. length x = m \<Longrightarrow> k < length xss \<Longrightarrow> slice (m * k) (m * k + m) (concat xss) = xss ! k"
proof (induction xss arbitrary: k)
  case (Cons x xss)
  then show ?case
    by (cases k) (auto simp: slice_def)
qed simp

lemma chunks_exact_slices:
  "0 < m \<Longrightarrow> length xs = m * n \<Longrightarrow> chunks_exact m xs = map (\<lambda>k. slice (m * k) (m * k + m) xs) [0..<n]"
proof (induction n arbitrary: xs)
  case 0
  then show ?case by (simp add: chunks_exact_def)
next
  case (Suc n)
  have "chunks_exact m xs = take m xs # chunks_exact m (drop m xs)"
    using Suc.prems chunks_exact_Cons[of m "take m xs" "drop m xs"] by simp
  also have "chunks_exact m (drop m xs) = map (\<lambda>k. slice (m * k) (m * k + m) (drop m xs)) [0..<n]"
    using Suc by simp
  also have "map (\<lambda>k. slice (m * k) (m * k + m) (drop m xs)) [0..<n] =
      map (\<lambda>k. slice (m * k) (m * k + m) xs) (map Suc [0..<n])"
    by (simp add: slice_def add.commute[of m])
  also have "take m xs = slice (m * 0) (m * 0 + m) xs" by (simp add: slice_def)
  finally show ?case by (simp add: upt_conv_Cons map_Suc_upt del: upt_Suc)
qed

lemma length_bits_slices:
  assumes "k < 16"
  shows "slice (3 * k) (3 * k + 3) (length_bits n) = replicate 3 (of_bool (bit n (15 - k)))"
proof -
  let ?f = "\<lambda>i. replicate 3 (of_bool (bit n (15 - i)) :: u8)"
  have "length_bits n = concat (map ?f [0..<16])"
    unfolding length_bits_def drop_bit_and_1 rev_upt_map by (simp add: comp_def Let_def numeral_3_eq_3 ucast_of_bool)
  then show ?thesis using slice_concat[of "map ?f [0..<16]" 3 k] assms by simp
qed

text \<open>At most one wrong sign in each of the sixteen triplets.\<close>

definition header_close :: "u8 list \<Rightarrow> u8 list \<Rightarrow> bool" where
  "header_close xs ys \<longleftrightarrow> length xs = 48 \<and>
     (\<forall>k<16. distance (slice (3 * k) (3 * k + 3) xs) (slice (3 * k) (3 * k + 3) ys) \<le> 1)"

lemma majority:
  assumes "length t = 3" and "distance (sign_bits t) (replicate 3 (of_bool b)) \<le> 1"
  shows "2 \<le> length (filter positive t) \<longleftrightarrow> b"
proof -
  obtain x y z where "t = [x, y, z]" using assms(1) by (auto simp: numeral_3_eq_3 length_Suc_conv)
  then show ?thesis using assms(2)
    by (cases b) (auto simp: sign_bits_def distance_def numeral_3_eq_3 split: if_splits)
qed

lemma decode_repeated_length_close:
  assumes "header_close (sign_bits llrs) (length_bits n)"
  shows "decode_repeated_length llrs = Inr (unat n)"
proof -
  have len: "length llrs = 48" using assms by (simp add: header_close_def)
  let ?t = "\<lambda>k. slice (3 * k) (3 * k + 3) llrs"
  have maj: "2 \<le> length (filter positive (?t k)) \<longleftrightarrow> bit n (15 - k)" if "k < 16" for k
  proof (rule majority)
    show "length (?t k) = 3" using that len by simp
    have "sign_bits (?t k) = slice (3 * k) (3 * k + 3) (sign_bits llrs)"
      by (simp add: sign_bits_def slice_def take_map drop_map)
    then show "distance (sign_bits (?t k)) (replicate 3 (of_bool (bit n (15 - k)))) \<le> 1"
      using assms that by (simp add: header_close_def length_bits_slices)
  qed
  have "foldl (\<lambda>value triplet. let votes = length (filter positive triplet)
          in push_bit 1 value OR (if votes \<ge> 2 then 1 else 0 :: u16)) 0 (chunks_exact 3 llrs)
      = bits_word (map (\<lambda>k. 2 \<le> length (filter positive (?t k))) [0..<16])"
    using chunks_exact_slices[of 3 llrs 16] len by (simp add: bits_word_def foldl_map Let_def)
  also have "\<dots> = bits_word (map (bit n) (rev [0..<16]))"
    unfolding rev_upt_map map_map using maj by (intro arg_cong[where f = bits_word] map_cong refl) simp
  also have "\<dots> = n" using bits_word_bits[of n] by simp
  finally show ?thesis using len by (simp add: decode_repeated_length_def)
qed

section \<open>The codeword behind the interleaver\<close>

lemma interleave_copy_Inr:
  "0 < c \<Longrightarrow> c \<le> MAX_CODED_BITS \<Longrightarrow> interleave_copy v c = Inr (map ((!) v) (interleave_order (length v) c))"
  by (auto simp: interleave_copy_def interleave_order_def)

lemma interleave_length: "interleave_copy v c = Inr xs \<Longrightarrow> length xs = length v"
  by (auto simp: interleave_copy_def length_interleave_order split: if_splits)

lemma interleave_set: "interleave_copy v c = Inr xs \<Longrightarrow> set xs = set v"
proof -
  have "set (map ((!) v) (interleave_order (length v) c)) = set v" if "0 < c"
    using that by (auto simp: interleave_order_set in_set_conv_nth)
  then show "interleave_copy v c = Inr xs \<Longrightarrow> set xs = set v"
    by (auto simp: interleave_copy_def split: if_splits)
qed

lemma interleave_bit_list: "interleave_copy v c = Inr xs \<Longrightarrow> bit_list v \<Longrightarrow> bit_list xs"
  using interleave_set by (fastforce simp: bit_list_iff)

lemma interleave_surj:
  assumes "0 < c" and "c \<le> MAX_CODED_BITS"
  obtains x where "length x = length ys" and "interleave_copy x c = Inr ys"
proof -
  let ?idx = "interleave_order (length ys) c"
  let ?x = "fst (foldl (scatter ((!) ys)) (replicate (length ys) (ys ! 0), 0) ?idx)"
  have len: "length ?x = length ys" by (simp add: scatter_length)
  have li: "length ?idx = length ys" using assms by (simp add: length_interleave_order)
  have "map ((!) ?x) ?idx = ys"
  proof (rule nth_equalityI)
    fix j
    assume "j < length (map ((!) ?x) ?idx)"
    then show "map ((!) ?x) ?idx ! j = ys ! j"
      using scatter_nth[OF interleave_order_distinct, of "length ys" c "replicate (length ys) (ys ! 0)" j "(!) ys" 0]
        assms by (simp add: interleave_order_set)
  qed (simp add: li)
  then show thesis using that[OF len] interleave_copy_Inr[OF assms, of ?x] len by simp
qed

lemma interleave_map:
  "interleave_copy v c = Inr xs \<Longrightarrow> interleave_copy (map g v) c = Inr (map g xs)"
  by (auto simp: interleave_copy_def interleave_order_def split: if_splits)

lemma distance_count: "length x = length y \<Longrightarrow> distance x y = length (filter (\<lambda>i. x ! i \<noteq> y ! i) [0..<length x])"
  unfolding distance_def by (subst zip_nths) (simp_all add: filter_map comp_def)

lemma interleave_distance:
  assumes "interleave_copy v c = Inr xs" and "interleave_copy w c = Inr ys" and "length v = length w"
  shows "distance xs ys = distance v w"
proof (cases "v = []")
  case True
  then show ?thesis using assms by (auto simp: interleave_copy_def split: if_splits)
next
  case False
  let ?idx = "interleave_order (length v) c"
  have c: "0 < c" and xs: "xs = map ((!) v) ?idx" and ys: "ys = map ((!) w) ?idx"
    using assms False by (auto simp: interleave_copy_def split: if_splits)
  have "mset ?idx = mset [0..<length v]"
    by (rule set_eq_iff_mset_eq_distinct[THEN iffD1])
      (use c interleave_order_distinct in \<open>auto simp: interleave_order_set\<close>)
  then have "size (filter_mset (\<lambda>i. v ! i \<noteq> w ! i) (mset ?idx)) =
      size (filter_mset (\<lambda>i. v ! i \<noteq> w ! i) (mset [0..<length v]))" by simp
  then have "length (filter (\<lambda>i. v ! i \<noteq> w ! i) ?idx) = length (filter (\<lambda>i. v ! i \<noteq> w ! i) [0..<length v])"
    by (simp only: mset_filter[symmetric] size_mset)
  moreover have "distance xs ys = length (filter (\<lambda>i. v ! i \<noteq> w ! i) ?idx)"
    by (simp add: xs ys distance_def zip_map_map filter_map comp_def zip_same_conv_map)
  ultimately show ?thesis using assms(3) by (simp add: distance_count)
qed

lemma interleave_clean:
  assumes "interleave_copy x c = Inr llrs" and "interleave_copy code c = Inr bits" and "length x = length code"
    and "clean llrs bits"
  shows "clean x code"
proof (cases "code = []")
  case True
  then show ?thesis using assms(3) by (simp add: clean_def)
next
  case False
  let ?idx = "interleave_order (length code) c"
  have c: "0 < c" and l: "llrs = map ((!) x) ?idx" and b: "bits = map ((!) code) ?idx"
    using assms False by (auto simp: interleave_copy_def split: if_splits)
  have "\<forall>i\<in>set ?idx. sint (x ! i) \<noteq> 0 \<and> (0 < sint (x ! i) \<longleftrightarrow> code ! i = 1)"
    using assms(4) unfolding clean_def l b list_all2_conv_all_nth by (auto simp: in_set_conv_nth)
  then show ?thesis
    using assms(3) c by (simp add: clean_def list_all2_conv_all_nth interleave_order_set)
qed

definition codec_ok :: "burst_codec \<Rightarrow> bool" where
  "codec_ok codec \<longleftrightarrow> 0 < interleaver_columns codec \<and> interleaver_columns codec \<le> 256"

lemma burst_codec_new_ok: "burst_codec_new n = Inr codec \<Longrightarrow> codec_ok codec"
  by (auto simp: burst_codec_new_def codec_ok_def split: if_splits)

text \<open>A burst is the sync word, the length header and the interleaved codeword of the frame.\<close>

lemma burst_encode_parts:
  assumes "burst_encode codec frame = Inr bits"
  obtains code coded where "convolutional_encode (bytes_to_bits_msb frame) = Inr code"
    and "interleave_copy code (interleaver_columns codec) = Inr coded" and "length coded = length code"
    and "bits = sync_bits @ length_bits (word_of_nat (length coded)) @ coded" and "coded_len_ok (length coded)"
    and "unat (word_of_nat (length coded) :: u16) = length coded" and "bit_list coded"
proof -
  from assms obtain code coded where code: "convolutional_encode (bytes_to_bits_msb frame) = Inr code"
    and i: "interleave_bits code (interleaver_columns codec) = Inr coded"
    and bits: "bits = sync_bits @ length_bits (word_of_nat (length coded)) @ coded"
    by (auto simp: burst_encode_def split: if_splits)
  let ?c = "interleaver_columns codec"
  from i have copy: "interleave_copy code ?c = Inr coded" and c: "0 < ?c" "?c \<le> MAX_CODED_BITS"
    by (auto simp: interleave_bits_def interleave_copy_def split: if_splits)
  have len: "length coded = length code" by (rule interleave_length[OF copy])
  have cl: "length code = 2 * (8 * length frame + 6)" "length frame \<le> 256"
    using code by (auto simp: convolutional_encode_iff)
  have "bit_list coded"
    using interleave_bit_list[OF copy] code by (auto simp: convolutional_encode_iff)
  moreover have "coded_len_ok (length coded)" using len cl by (simp add: coded_len_ok_def)
  moreover have "length coded < 65536" using len cl by simp
  then have "unat (word_of_nat (length coded) :: u16) = length coded" by (simp only: unat_of_nat) simp
  ultimately show thesis using that[OF code copy len bits] by blast
qed

lemma decode_coded_clean:
  assumes code: "convolutional_encode (bytes_to_bits_msb frame) = Inr code"
    and copy: "interleave_copy code (interleaver_columns codec) = Inr coded"
    and cl: "clean llrs coded"
  shows "decode_coded codec llrs = Inr frame"
proof -
  let ?c = "interleaver_columns codec"
  have c: "0 < ?c" "?c \<le> MAX_CODED_BITS" using copy by (auto simp: interleave_copy_def split: if_splits)
  obtain x where x: "length x = length llrs" "interleave_copy x ?c = Inr llrs"
    using interleave_surj[OF c] by blast
  have "length coded = length code" by (rule interleave_length[OF copy])
  then have "length x = length code" using cl x(1) by (simp add: clean_def list_all2_lengthD)
  then have "clean x code" using interleave_clean[OF x(2) copy] cl by blast
  then obtain r where "soft_viterbi_decode x = Inr r" "dr_bits r = bytes_to_bits_msb frame"
    using viterbi_clean[OF code] by (metis length_bytes_to_bits mod_mult_self1_is_0)
  then show ?thesis
    using deinterleave_interleave[OF x(2)] by (simp add: decode_coded_def bits_to_bytes_bits)
qed

lemma decode_coded_corrects:
  assumes code: "convolutional_encode (bytes_to_bits_msb frame) = Inr code"
    and copy: "interleave_copy code (interleaver_columns codec) = Inr coded"
    and hard: "hard_bits_to_llrs received m = Inr llrs" and len: "length received = length coded"
    and four: "distance received coded \<le> 4"
  shows "decode_coded codec llrs = Inr frame"
proof -
  let ?c = "interleaver_columns codec"
  have c: "0 < ?c" "?c \<le> MAX_CODED_BITS" using copy by (auto simp: interleave_copy_def split: if_splits)
  have m: "0 < sint m" and b: "bit_list received" and l: "llrs = map (\<lambda>b. if b = 1 then m else - m) received"
    using hard by (auto simp: hard_bits_to_llrs_def bit_list_def split: if_splits)
  obtain x where x: "length x = length received" "interleave_copy x ?c = Inr received"
    using interleave_surj[OF c] by blast
  have lc: "length coded = length code" by (rule interleave_length[OF copy])
  have "bit_list x" using b interleave_set[OF x(2)] by (simp add: bit_list_iff)
  then have hx: "hard_bits_to_llrs x m = Inr (map (\<lambda>b. if b = 1 then m else - m) x)"
    using m by (simp add: hard_bits_to_llrs_def bit_list_def)
  have "distance x code \<le> 4" using interleave_distance[OF x(2) copy] x(1) lc len four by simp
  then obtain r where "soft_viterbi_decode (map (\<lambda>b. if b = 1 then m else - m) x) = Inr r"
    "dr_bits r = bytes_to_bits_msb frame"
    using viterbi_corrects[OF code _ hx] x(1) lc len by (metis length_bytes_to_bits mod_mult_self1_is_0)
  then show ?thesis
    using deinterleave_interleave[OF interleave_map[OF x(2)]] by (simp add: decode_coded_def bits_to_bytes_bits l)
qed

section \<open>Aligned bursts\<close>

lemma length_sync_bits [simp]: "length sync_bits = 32"
  by (simp add: sync_bits_def)

lemma length_length_bits [simp]: "length (length_bits n) = 48"
  by (simp add: length_bits_def length_concat comp_def Let_def sum_list_triv)

lemma decode_aligned_parts:
  assumes "length sync = 32" and "distance (sign_bits sync) sync_bits \<le> 3"
    and "header_close (sign_bits header) (length_bits n)" and "coded_len_ok (unat n)"
    and "length payload = unat n"
  shows "decode_aligned codec (sync @ header @ payload) = decode_coded codec payload"
proof -
  have "length header = 48" using assms(3) by (simp add: header_close_def)
  moreover from this have "slice 32 80 (sync @ header @ payload) = header"
    using assms(1) by (simp add: slice_def)
  ultimately show ?thesis
    using assms decode_repeated_length_close[OF assms(3)]
    by (simp add: decode_aligned_def sync_errors_distance)
qed

section \<open>The stream\<close>

lemma push_slice_loop_append:
  "push_slice_loop r (xs @ ys) fr =
     (case push_slice_loop r xs fr of (r1, Inl e) \<Rightarrow> (r1, Inl e) | (r1, Inr fr1) \<Rightarrow> push_slice_loop r1 ys fr1)"
  by (induction r xs fr rule: push_slice_loop.induct)
    (auto simp: Let_def split: prod.splits sum.splits option.splits)

definition searching :: "burst_codec \<Rightarrow> i8 list \<Rightarrow> soft_burst_receiver" where
  "searching c seen = (soft_burst_new c)\<lparr> sb_shift := bits_word (map positive seen), sb_seen := length seen \<rparr>"

definition in_header :: "burst_codec \<Rightarrow> i8 list \<Rightarrow> soft_burst_receiver" where
  "in_header c header = (soft_burst_new c)\<lparr> sb_shift := PHY_SYNC, sb_seen := 32, sb_header := header \<rparr>"

definition in_payload :: "burst_codec \<Rightarrow> nat \<Rightarrow> i8 list \<Rightarrow> soft_burst_receiver" where
  "in_payload c n payload =
     (soft_burst_new c)\<lparr> sb_shift := PHY_SYNC, sb_seen := 32, sb_payload := payload, sb_expected := Some n \<rparr>"

lemma searching_Nil: "searching c [] = soft_burst_new c"
  by (simp add: searching_def bits_word_def soft_burst_new_def)

lemma saturating_inc_small: "n < 32 \<Longrightarrow> saturating_inc n = Suc n"
  by (simp add: saturating_inc_def)

lemma push_searching:
  assumes "length seen < 32"
  shows "push_llr (searching c seen) l =
    (if length seen = 31 \<and> (bits_word (map positive (seen @ [l])) :: u32) = PHY_SYNC then in_header c [I8_MIN]
     else searching c (seen @ [l]), Inr None)"
  using assms
  by (auto simp: push_llr_def searching_def soft_burst_new_def Let_def saturating_inc_small bits_word_snoc
      in_header_def)

lemma search_loop:
  "length seen + length xs < 32 \<Longrightarrow>
    push_slice_loop (searching c seen) xs fr = (searching c (seen @ xs), Inr fr)"
proof (induction xs arbitrary: seen)
  case (Cons x xs)
  have "push_llr (searching c seen) x = (searching c (seen @ [x]), Inr None)"
    using Cons.prems by (simp add: push_searching)
  then show ?case using Cons.IH[of "seen @ [x]"] Cons.prems by simp
qed simp

lemma sync_word: "length sync = 32 \<Longrightarrow> sign_bits sync = sync_bits \<Longrightarrow> bits_word (map positive sync) = PHY_SYNC"
proof -
  assume s: "length sync = 32" "sign_bits sync = sync_bits"
  have "map positive sync = map (\<lambda>b. b = 1) (sign_bits sync)" by (simp add: sign_bits_def)
  also have "\<dots> = map (bit PHY_SYNC) (rev [0..<32])"
    unfolding s(2) sync_bits_eq rev_upt_map by simp
  finally show ?thesis using bits_word_bits[of PHY_SYNC] by simp
qed

lemma sync_phase:
  assumes "length sync = 32" and "sign_bits sync = sync_bits"
  shows "push_slice_loop (soft_burst_new c) sync fr = (in_header c [I8_MIN], Inr fr)"
proof -
  obtain s l where sync: "sync = s @ [l]" using assms(1) by (cases sync rule: rev_cases) auto
  have "length s = 31" using assms(1) sync by simp
  moreover have "push_llr (searching c s) l = (in_header c [I8_MIN], Inr None)"
    using sync_word[OF assms] \<open>length s = 31\<close> by (simp add: push_searching sync)
  ultimately show ?thesis
    using search_loop[of "[]" s c fr] by (simp add: sync push_slice_loop_append searching_Nil)
qed

lemma push_header:
  assumes "hs \<noteq> []" and "length hs < 47 \<or> hs = [I8_MIN]"
  shows "push_llr (in_header c hs) l = (in_header c ((if hd hs = I8_MIN then [] else hs) @ [l]), Inr None)"
  using assms by (auto simp: push_llr_def in_header_def soft_burst_new_def Let_def)

lemma header_loop:
  "hs \<noteq> [] \<Longrightarrow> hd hs \<noteq> I8_MIN \<Longrightarrow> length hs + length xs < 48 \<Longrightarrow>
    push_slice_loop (in_header c hs) xs fr = (in_header c (hs @ xs), Inr fr)"
proof (induction xs arbitrary: hs)
  case (Cons x xs)
  then have "push_llr (in_header c hs) x = (in_header c (hs @ [x]), Inr None)" by (simp add: push_header)
  then show ?case using Cons.IH[of "hs @ [x]"] Cons.prems by simp
qed simp

lemma header_phase:
  assumes "length header = 48" and "hd header \<noteq> I8_MIN" and "decode_repeated_length header = Inr n" and "coded_len_ok n"
  shows "push_slice_loop (in_header c [I8_MIN]) header fr = (in_payload c n [], Inr fr)"
proof -
  obtain h xs l where header: "header = h # xs @ [l]"
    using assms(1) by (cases header; cases "tl header" rule: rev_cases) auto
  have "push_slice_loop (in_header c [I8_MIN]) (h # xs) fr = (in_header c (h # xs), Inr fr)"
    using header_loop[of "[h]" xs c fr] assms(1,2) by (simp add: push_header header)
  moreover have "push_llr (in_header c (h # xs)) l = (in_payload c n [], Inr None)"
    using assms by (simp add: push_llr_def in_header_def in_payload_def soft_burst_new_def Let_def header)
  ultimately show ?thesis using push_slice_loop_append[of _ "h # xs" "[l]"] by (simp add: header)
qed

lemma payload_loop:
  "length ps + length xs < n \<Longrightarrow> push_slice_loop (in_payload c n ps) xs fr = (in_payload c n (ps @ xs), Inr fr)"
proof (induction xs arbitrary: ps)
  case (Cons x xs)
  then have "push_llr (in_payload c n ps) x = (in_payload c n (ps @ [x]), Inr None)"
    by (simp add: push_llr_def in_payload_def soft_burst_new_def Let_def)
  then show ?case using Cons.IH[of "ps @ [x]"] Cons.prems by simp
qed simp

lemma payload_phase:
  assumes "length payload = n" and "0 < n" and "decode_coded c payload = Inr frame"
  shows "push_slice_loop (in_payload c n []) payload fr = (soft_burst_new c, Inr (fr @ [frame]))"
proof -
  obtain xs l where p: "payload = xs @ [l]" using assms by (cases payload rule: rev_cases) auto
  have "push_llr (in_payload c n xs) l = (soft_burst_new c, Inr (Some frame))"
    using assms p by (auto simp: push_llr_def in_payload_def soft_burst_new_def soft_burst_reset_def Let_def)
  then show ?thesis
    using payload_loop[of "[]" xs n c fr] assms(1) p by (simp add: push_slice_loop_append)
qed

lemma header_close_refl: "length xs = 48 \<Longrightarrow> header_close xs xs"
  by (simp add: header_close_def distance_def zip_same_conv_map filter_map comp_def)

lemma sign_bits_clean_parts:
  assumes "clean llrs (a @ b @ d)" and "bit_list (a @ b @ d)"
  obtains x y z where "llrs = x @ y @ z" and "length x = length a" and "length y = length b"
    and "sign_bits x = a" and "sign_bits y = b" and "clean z d"
proof -
  from assms(1) obtain x y z where l: "llrs = x @ y @ z" "clean x a" "clean y b" "clean z d"
    unfolding clean_def by (auto simp: list_all2_append2)
  moreover have "length x = length a" "length y = length b"
    using l(2,3) by (simp_all add: clean_def list_all2_lengthD)
  moreover have "sign_bits x = a" "sign_bits y = b"
    using clean_sign_bits l(2,3) assms(2) by simp_all
  ultimately show thesis using that by blast
qed

lemma bit_list_sync [simp]: "bit_list sync_bits"
  by (auto simp: bit_list_iff sync_bits_eq)

lemma bit_list_length_bits [simp]: "bit_list (length_bits n)"
  by (auto simp: bit_list_iff length_bits_def Let_def drop_bit_and_1 ucast_of_bool)

lemma stream_burst:
  assumes enc: "burst_encode codec frame = Inr bits" and cl: "clean llrs bits" and first: "llrs ! 32 \<noteq> I8_MIN"
  shows "push_slice_loop (soft_burst_new codec) llrs fr = (soft_burst_new codec, Inr (fr @ [frame]))"
proof -
  from enc obtain code coded where code: "convolutional_encode (bytes_to_bits_msb frame) = Inr code"
    and copy: "interleave_copy code (interleaver_columns codec) = Inr coded"
    and bits: "bits = sync_bits @ length_bits (word_of_nat (length coded)) @ coded" and ok: "coded_len_ok (length coded)"
    and n: "unat (word_of_nat (length coded) :: u16) = length coded" and bl: "bit_list coded"
    by (rule burst_encode_parts) blast
  obtain sync header payload where l: "llrs = sync @ header @ payload" "length sync = 32" "length header = 48"
    "sign_bits sync = sync_bits" "sign_bits header = length_bits (word_of_nat (length coded))" "clean payload coded"
    using sign_bits_clean_parts[OF cl[unfolded bits]] bl by auto
  have "hd header \<noteq> I8_MIN" using first l(1,2,3) by (cases header) (auto simp: nth_append)
  moreover have "decode_repeated_length header = Inr (length coded)"
    using decode_repeated_length_close[of header "word_of_nat (length coded)"] header_close_refl l(5) n by simp
  ultimately have "push_slice_loop (in_header codec [I8_MIN]) header fr = (in_payload codec (length coded) [], Inr fr)"
    using l(3) ok by (intro header_phase) simp_all
  moreover have "push_slice_loop (in_payload codec (length coded) []) payload fr = (soft_burst_new codec, Inr (fr @ [frame]))"
  proof (rule payload_phase)
    show "length payload = length coded" using l(6) by (simp add: clean_def list_all2_lengthD)
    show "0 < length coded" using ok unfolding coded_len_ok_def by linarith
  qed (rule decode_coded_clean[OF code copy l(6)])
  ultimately show ?thesis
    using sync_phase[OF l(2,4)] by (simp add: l(1) push_slice_loop_append)
qed

section \<open>Bounds\<close>

definition soft_burst_inv :: "soft_burst_receiver \<Rightarrow> bool" where
  "soft_burst_inv r \<longleftrightarrow> length (sb_header r) < 48 \<and>
     (case sb_expected r of None \<Rightarrow> sb_payload r = []
      | Some n \<Rightarrow> coded_len_ok n \<and> length (sb_payload r) < n \<and> sb_header r = [])"

lemma soft_burst_new_inv: "soft_burst_inv (soft_burst_new c)"
  by (simp add: soft_burst_inv_def soft_burst_new_def)

lemma push_llr_inv:
  assumes "soft_burst_inv r"
  shows "soft_burst_inv (fst (push_llr r l))"
proof (cases "sb_expected r")
  case (Some n)
  then show ?thesis
    using assms by (auto simp: push_llr_def soft_burst_inv_def soft_burst_reset_def Let_def)
next
  case None
  have "decode_repeated_length (sb_header r @ [l]) \<noteq> Inl e" if "length (sb_header r) = 47" for e
    using that by (simp add: decode_repeated_length_def)
  then show ?thesis
    using assms None
    by (auto simp: push_llr_def soft_burst_inv_def soft_burst_reset_def coded_len_ok_def Let_def split: sum.split)
qed

interpretation deframer: machine soft_burst_inv push_llr
  by unfold_locales (rule push_llr_inv)

lemma burst_encode_ok:
  assumes "codec_ok codec" and "length frame \<le> 256"
  obtains bits where "burst_encode codec frame = Inr bits"
proof -
  let ?c = "interleaver_columns codec"
  obtain code where code: "convolutional_encode (bytes_to_bits_msb frame) = Inr code"
    using assms(2) by (simp add: convolutional_encode_iff)
  have c: "0 < ?c" "?c \<le> MAX_CODED_BITS" using assms(1) by (simp_all add: codec_ok_def)
  have bl: "bit_list code" "length code \<le> 4108"
    using code assms(2) by (auto simp: convolutional_encode_iff)
  let ?x = "map ((!) code) (interleave_order (length code) ?c)"
  have "interleave_bits code ?c = Inr ?x"
    using bl interleave_copy_Inr[OF c, of code] by (simp add: interleave_bits_def bit_list_def)
  moreover have "length ?x \<le> 65535" using bl c by (simp add: length_interleave_order)
  ultimately show thesis using that code by (simp add: burst_encode_def)
qed

lemma distance_flips: "distance (xs @ zs) (ys @ zs) \<le> length ys" if "length xs = length ys"
proof -
  have "distance (xs @ zs) (ys @ zs) = distance xs ys + distance zs zs"
    using that by (simp add: distance_def)
  moreover have "distance zs zs = 0" by (simp add: distance_def zip_same_conv_map filter_map comp_def)
  moreover have "distance xs ys \<le> length ys" unfolding distance_def
    by (metis length_filter_le length_zip min.cobounded2 order_trans)
  ultimately show ?thesis by simp
qed

definition demo_codec :: burst_codec where "demo_codec = \<lparr> interleaver_columns = 16 \<rparr>"

definition demo_llrs :: "u8 list \<Rightarrow> i8 list" where
  "demo_llrs bits = map (\<lambda>b. if b = 1 then 90 else - 90) bits"

lemma demo_llrs_hard: "bit_list bits \<Longrightarrow> hard_bits_to_llrs bits 90 = Inr (demo_llrs bits)"
  by (simp add: hard_bits_to_llrs_def demo_llrs_def bit_list_def)

lemma demo_llrs_signs: "bit_list bits \<Longrightarrow> sign_bits (demo_llrs bits) = bits"
  using clean_sign_bits[OF hard_bits_clean[OF demo_llrs_hard]] by blast

section \<open>Properties\<close>

text \<open>C11. A burst survives channel errors: with at most three wrong sync signs, one wrong
  sign per length triplet and four wrong code bits, the aligned decoder returns the frame. The code
  bits are hard decisions, soft values of one magnitude, as \<open>hard_bits_to_llrs\<close> makes them.\<close>

theorem burst_survives_errors:
  assumes "burst_encode codec frame = Inr bits"
    and "bits = sync @ header @ coded" and "length sync = 32" and "length header = 48"
    and "length sync' = 32" and "distance (sign_bits sync') sync \<le> 3"
    and "header_close (sign_bits header') header"
    and "hard_bits_to_llrs received m = Inr payload" and "length received = length coded"
    and "distance received coded \<le> 4"
  shows "decode_aligned codec (sync' @ header' @ payload) = Inr frame"
proof -
  from assms(1) obtain code c where code: "convolutional_encode (bytes_to_bits_msb frame) = Inr code"
    and copy: "interleave_copy code (interleaver_columns codec) = Inr c"
    and bits: "bits = sync_bits @ length_bits (word_of_nat (length c)) @ c" and ok: "coded_len_ok (length c)"
    and n: "unat (word_of_nat (length c) :: u16) = length c"
    by (rule burst_encode_parts) blast
  have parts: "sync = sync_bits" "header = length_bits (word_of_nat (length c))" "coded = c"
    using assms(2-4) bits by auto
  have "length payload = length c"
    using assms(8,9) parts by (auto simp: hard_bits_to_llrs_def split: if_splits)
  then show ?thesis
    using decode_aligned_parts[OF assms(5), of header' "word_of_nat (length c)" payload codec] assms(6,7)
      decode_coded_corrects[OF code copy assms(8)] assms(9,10) parts n ok by simp
qed

theorem burst_survives_errors_witness:
  "\<exists>received. decode_aligned demo_codec (map uminus (take 3 (demo_llrs sync_bits)) @ drop 3 (demo_llrs sync_bits)
     @ demo_llrs (length_bits 44) @ demo_llrs received) = Inr [0xa1, 0x22]"
proof -
  have "codec_ok demo_codec" "length [0xa1, 0x22 :: u8] \<le> 256" by (simp_all add: codec_ok_def demo_codec_def)
  then obtain bits where enc: "burst_encode demo_codec [0xa1, 0x22] = Inr bits" by (rule burst_encode_ok)
  then obtain code coded where "convolutional_encode (bytes_to_bits_msb [0xa1, 0x22]) = Inr code"
    and len: "length coded = length code" and bits: "bits = sync_bits @ length_bits (word_of_nat (length coded)) @ coded"
    and bl: "bit_list coded"
    by (rule burst_encode_parts) blast
  then have n: "length coded = 44" by (simp add: convolutional_encode_iff)
  let ?rec = "map (\<lambda>b. 1 - b) (take 4 coded) @ drop 4 coded"
  have rec: "bit_list ?rec" using bl by (auto simp: bit_list_iff dest!: in_set_takeD in_set_dropD)
  have "distance ?rec (take 4 coded @ drop 4 coded) \<le> length (take 4 coded)"
    by (rule distance_flips) simp
  then have four: "distance ?rec coded \<le> 4" using n by simp
  let ?sync = "map uminus (take 3 (demo_llrs sync_bits)) @ drop 3 (demo_llrs sync_bits)"
  have "sign_bits ?sync = sign_bits (map uminus (take 3 (demo_llrs sync_bits))) @ drop 3 sync_bits"
    using demo_llrs_signs[of sync_bits] by (simp add: sign_bits_def flip: drop_map)
  then have "distance (sign_bits ?sync) (take 3 sync_bits @ drop 3 sync_bits) \<le> length (take 3 sync_bits)"
    by (simp only:) (rule distance_flips, simp add: demo_llrs_def)
  then have sync: "distance (sign_bits ?sync) sync_bits \<le> 3" by simp
  have header: "header_close (sign_bits (demo_llrs (length_bits 44))) (length_bits 44)"
    by (simp add: demo_llrs_signs header_close_refl)
  have "decode_aligned demo_codec (?sync @ demo_llrs (length_bits 44) @ demo_llrs ?rec) = Inr [0xa1, 0x22]"
    by (rule burst_survives_errors[OF enc bits _ _ _ sync _ demo_llrs_hard[OF rec]])
      (use n four header in \<open>simp_all add: demo_llrs_def\<close>)
  then show ?thesis by auto
qed

text \<open>Back-to-back bursts stream through the deframer: soft values of the right signs,
  of any magnitudes, give exactly the frames, in order, and leave the receiver as new, as
  long as the first length value of no burst is the sentinel -128.\<close>

theorem stream_delivers_frames:
  assumes "list_all2 (\<lambda>frame llrs. \<exists>bits. burst_encode codec frame = Inr bits \<and> clean llrs bits \<and>
    llrs ! 32 \<noteq> I8_MIN) frames bursts"
  shows "push_slice (soft_burst_new codec) (concat bursts) = (soft_burst_new codec, Inr frames)"
proof -
  have "push_slice_loop (soft_burst_new codec) (concat bursts) fr = (soft_burst_new codec, Inr (fr @ frames))" for fr
    using assms
  proof (induction arbitrary: fr rule: list_all2_induct)
    case (Cons frame frames burst bursts)
    then show ?case using stream_burst by (auto simp: push_slice_loop_append)
  qed simp
  from this[of "[]"] show ?thesis by (simp add: push_slice_def)
qed

theorem stream_delivers_frames_witness:
  "\<exists>bits. burst_encode demo_codec [1, 2] = Inr bits \<and>
     push_slice (soft_burst_new demo_codec) (concat [demo_llrs bits, demo_llrs bits]) =
       (soft_burst_new demo_codec, Inr [[1, 2], [1, 2]])"
proof -
  have "codec_ok demo_codec" "length [1, 2 :: u8] \<le> 256" by (simp_all add: codec_ok_def demo_codec_def)
  then obtain bits where enc: "burst_encode demo_codec [1, 2] = Inr bits" by (rule burst_encode_ok)
  then obtain coded where bits: "bits = sync_bits @ length_bits (word_of_nat (length coded)) @ coded" "bit_list coded"
    by (rule burst_encode_parts) blast
  then have "clean (demo_llrs bits) bits" by (intro hard_bits_clean[OF demo_llrs_hard]) simp
  moreover have "32 < length bits" using arg_cong[OF bits(1), of length] by simp
  then have "demo_llrs bits ! 32 \<noteq> I8_MIN" by (simp add: demo_llrs_def)
  ultimately show ?thesis
    using stream_delivers_frames[of demo_codec "[[1, 2], [1, 2]]" "[demo_llrs bits, demo_llrs bits]"] enc by auto
qed

text \<open>The sentinel swallows a real value: when the first soft value after the sync word
  is -128, the deframer forgets it, so the length header is read one value late.\<close>

theorem sentinel_drops_value:
  assumes "length sync = 32" and "sign_bits sync = sync_bits"
  shows "push_slice (soft_burst_new codec) (sync @ [I8_MIN, l] @ rest) =
    push_slice (soft_burst_new codec) (sync @ [l] @ rest)"
  using sync_phase[OF assms]
  by (simp add: push_slice_def push_slice_loop_append push_header)

definition demo_sync :: "i8 list" where
  "demo_sync = map (\<lambda>b. if b = 1 then 90 else - 90) sync_bits"

lemma demo_sync: "length demo_sync = 32" "sign_bits demo_sync = sync_bits"
proof -
  have "hard_bits_to_llrs sync_bits 90 = Inr demo_sync"
    using bit_list_sync by (simp add: hard_bits_to_llrs_def demo_sync_def bit_list_def)
  then show "sign_bits demo_sync = sync_bits" by (intro clean_sign_bits hard_bits_clean) simp_all
qed (simp add: demo_sync_def)

theorem sentinel_drops_value_witness:
  "push_slice (soft_burst_new \<lparr> interleaver_columns = 16 \<rparr>) (demo_sync @ [I8_MIN, 90] @ []) =
   push_slice (soft_burst_new \<lparr> interleaver_columns = 16 \<rparr>) (demo_sync @ [90] @ [])"
  by (rule sentinel_drops_value[OF demo_sync])

text \<open>The deframer's buffers are bounded whatever it is fed: fewer than 48 header values
  and fewer than 4108 payload values are ever held between two calls.\<close>

theorem deframer_bounded:
  "soft_burst_inv (fst (run_machine push_llr (soft_burst_new codec) llrs))"
  by (rule deframer.run_inv[OF soft_burst_new_inv])

end
