(* ===== verification/Floating.thy ===== *)
theory Floating
  imports Complex_Main "HOL-Library.Log_Nat"
begin

text \<open>
  The floating point numbers of the language, \<open>f32\<close> and \<open>f64\<close>: a finite number is its sign and
  its magnitude, a rational number. An operation computes the exact result and rounds it to the
  nearest number of the format, ties to even, as IEEE 754 says and the language promises. The
  payload and the sign of a NaN, which the language leaves open, are not represented.
\<close>

datatype fp = NaN | Inf bool | Fin bool rat

type_synonym f32 = fp
type_synonym f64 = fp

record fp_format =
  ff_precision :: nat
  ff_emin :: int
  ff_emax :: int

definition binary32 :: fp_format where
  "binary32 = \<lparr> ff_precision = 24, ff_emin = -126, ff_emax = 127 \<rparr>"

definition binary64 :: fp_format where
  "binary64 = \<lparr> ff_precision = 53, ff_emin = -1022, ff_emax = 1023 \<rparr>"

section \<open>Rounding\<close>

definition pow2 :: "int \<Rightarrow> rat" where
  "pow2 k = 2 powi k"

text \<open>The floor of the binary logarithm of a positive rational.\<close>

definition ilog2 :: "rat \<Rightarrow> int" where
  "ilog2 x = (let (a, b) = quotient_of x; k = int (floorlog 2 (nat a)) - int (floorlog 2 (nat b)) in
     if pow2 k \<le> x then k else k - 1)"

definition round_half_even :: "rat \<Rightarrow> int" where
  "round_half_even x =
     (let f = \<lfloor>x\<rfloor>; d = x - of_int f in
      if d < 1 / 2 then f else if 1 / 2 < d then f + 1 else if even f then f else f + 1)"

definition round_magnitude :: "fp_format \<Rightarrow> rat \<Rightarrow> rat" where
  "round_magnitude F x =
     (let ulp = pow2 (max (ilog2 x) (ff_emin F) - int (ff_precision F) + 1)
      in of_int (round_half_even (x / ulp)) * ulp)"

text \<open>\<open>zero_sign\<close> is the sign of an exact zero.\<close>

definition fp_round :: "fp_format \<Rightarrow> bool \<Rightarrow> rat \<Rightarrow> fp" where
  "fp_round F zero_sign x =
     (if x = 0 then Fin zero_sign 0
      else let m = round_magnitude F \<bar>x\<bar> in
        if pow2 (ff_emax F + 1) \<le> m then Inf (x < 0) else Fin (x < 0) m)"

fun fp_value :: "fp \<Rightarrow> rat" where
  "fp_value (Fin s m) = (if s then - m else m)"
| "fp_value _ = 0"

section \<open>Arithmetic\<close>

fun fp_neg :: "fp \<Rightarrow> fp" where
  "fp_neg NaN = NaN"
| "fp_neg (Inf s) = Inf (\<not> s)"
| "fp_neg (Fin s m) = Fin (\<not> s) m"

fun fp_abs :: "fp \<Rightarrow> fp" where
  "fp_abs NaN = NaN"
| "fp_abs (Inf s) = Inf False"
| "fp_abs (Fin s m) = Fin False m"

fun fp_add :: "fp_format \<Rightarrow> fp \<Rightarrow> fp \<Rightarrow> fp" where
  "fp_add F (Fin s a) (Fin t b) = fp_round F (s \<and> t) (fp_value (Fin s a) + fp_value (Fin t b))"
| "fp_add F (Inf s) (Inf t) = (if s = t then Inf s else NaN)"
| "fp_add F (Inf s) (Fin t b) = Inf s"
| "fp_add F (Fin s a) (Inf t) = Inf t"
| "fp_add F _ _ = NaN"

definition fp_sub :: "fp_format \<Rightarrow> fp \<Rightarrow> fp \<Rightarrow> fp" where
  "fp_sub F a b = fp_add F a (fp_neg b)"

fun fp_mul :: "fp_format \<Rightarrow> fp \<Rightarrow> fp \<Rightarrow> fp" where
  "fp_mul F (Fin s a) (Fin t b) = fp_round F (s \<noteq> t) (fp_value (Fin s a) * fp_value (Fin t b))"
| "fp_mul F (Inf s) (Inf t) = Inf (s \<noteq> t)"
| "fp_mul F (Inf s) (Fin t b) = (if b = 0 then NaN else Inf (s \<noteq> t))"
| "fp_mul F (Fin s a) (Inf t) = (if a = 0 then NaN else Inf (s \<noteq> t))"
| "fp_mul F _ _ = NaN"

fun fp_div :: "fp_format \<Rightarrow> fp \<Rightarrow> fp \<Rightarrow> fp" where
  "fp_div F (Fin s a) (Fin t b) =
     (if b = 0 then (if a = 0 then NaN else Inf (s \<noteq> t))
      else fp_round F (s \<noteq> t) (fp_value (Fin s a) / fp_value (Fin t b)))"
| "fp_div F (Inf s) (Inf t) = NaN"
| "fp_div F (Inf s) (Fin t b) = Inf (s \<noteq> t)"
| "fp_div F (Fin s a) (Inf t) = Fin (s \<noteq> t) 0"
| "fp_div F _ _ = NaN"

section \<open>Comparison\<close>

fun fp_le :: "fp \<Rightarrow> fp \<Rightarrow> bool" where
  "fp_le (Fin s a) (Fin t b) \<longleftrightarrow> fp_value (Fin s a) \<le> fp_value (Fin t b)"
| "fp_le (Inf s) (Inf t) \<longleftrightarrow> s \<or> \<not> t"
| "fp_le (Inf s) (Fin t b) \<longleftrightarrow> s"
| "fp_le (Fin s a) (Inf t) \<longleftrightarrow> \<not> t"
| "fp_le _ _ \<longleftrightarrow> False"

fun fp_lt :: "fp \<Rightarrow> fp \<Rightarrow> bool" where
  "fp_lt (Fin s a) (Fin t b) \<longleftrightarrow> fp_value (Fin s a) < fp_value (Fin t b)"
| "fp_lt (Inf s) (Inf t) \<longleftrightarrow> s \<and> \<not> t"
| "fp_lt (Inf s) (Fin t b) \<longleftrightarrow> s"
| "fp_lt (Fin s a) (Inf t) \<longleftrightarrow> \<not> t"
| "fp_lt _ _ \<longleftrightarrow> False"

definition fp_eq :: "fp \<Rightarrow> fp \<Rightarrow> bool" where
  "fp_eq a b \<longleftrightarrow> fp_le a b \<and> fp_le b a"

fun fp_is_finite :: "fp \<Rightarrow> bool" where
  "fp_is_finite (Fin s m) \<longleftrightarrow> True"
| "fp_is_finite _ \<longleftrightarrow> False"

definition fp_clamp :: "fp \<Rightarrow> fp \<Rightarrow> fp \<Rightarrow> fp" where
  "fp_clamp x lo hi = (let y = if fp_lt x lo then lo else x in if fp_lt hi y then hi else y)"

text \<open>\<open>max\<close> and \<open>min\<close> prefer a number over a NaN.\<close>

definition fp_max :: "fp \<Rightarrow> fp \<Rightarrow> fp" where
  "fp_max a b = (if a = NaN then b else if b = NaN then a else if fp_lt a b then b else a)"

definition fp_min :: "fp \<Rightarrow> fp \<Rightarrow> fp" where
  "fp_min a b = (if a = NaN then b else if b = NaN then a else if fp_lt b a then b else a)"

section \<open>Conversion\<close>

text \<open>An integer or a literal as a float, and the cast back, which truncates and saturates.\<close>

definition fp_of_rat :: "fp_format \<Rightarrow> rat \<Rightarrow> fp" where
  "fp_of_rat F x = fp_round F False x"

abbreviation f32_of :: "rat \<Rightarrow> f32" where "f32_of \<equiv> fp_of_rat binary32"
abbreviation f64_of :: "rat \<Rightarrow> f64" where "f64_of \<equiv> fp_of_rat binary64"

definition truncate_rat :: "rat \<Rightarrow> int" where
  "truncate_rat x = (if x < 0 then - \<lfloor>- x\<rfloor> else \<lfloor>x\<rfloor>)"

fun fp_to_int :: "int \<Rightarrow> int \<Rightarrow> fp \<Rightarrow> int" where
  "fp_to_int lo hi NaN = 0"
| "fp_to_int lo hi (Inf s) = (if s then lo else hi)"
| "fp_to_int lo hi (Fin s m) = max lo (min hi (truncate_rat (fp_value (Fin s m))))"

section \<open>Laws\<close>

lemma pow2_simps [simp]: "pow2 0 = 1" "0 < pow2 k" "0 \<le> pow2 k" "pow2 k \<noteq> 0"
  by (simp_all add: pow2_def)

lemma pow2_add: "pow2 (a + b) = pow2 a * pow2 b"
  by (simp add: pow2_def power_int_add)

lemma pow2_nat: "pow2 (int n) = 2 ^ n"
  by (simp add: pow2_def)

lemma pow2_diff: "pow2 (a - b) = pow2 a / pow2 b"
  by (simp add: pow2_def power_int_diff)

lemma pow2_mono: "a \<le> b \<Longrightarrow> pow2 a \<le> pow2 b"
  by (simp add: pow2_def power_int_increasing)

lemma pow2_strict: "a < b \<Longrightarrow> pow2 a < pow2 b"
  by (simp add: pow2_def power_int_strict_increasing)

lemma pow2_less_iff: "pow2 a < pow2 b \<longleftrightarrow> a < b"
  using pow2_strict pow2_mono by (metis linorder_not_less)

lemma ilog2_bounds:
  assumes "0 < x"
  shows "pow2 (ilog2 x) \<le> x" and "x < pow2 (ilog2 x + 1)"
proof -
  obtain a b where q: "quotient_of x = (a, b)" by fastforce
  have x: "x = of_int a / of_int b" and b: "0 < b"
    using q quotient_of_div quotient_of_denom_pos by blast+
  have a: "0 < a" using assms x b by (simp add: zero_less_divide_iff)
  define p where "p = floorlog 2 (nat a)"
  define r where "r = floorlog 2 (nat b)"
  have "2 ^ (p - 1) \<le> nat a" "nat a < 2 ^ p" "2 ^ (r - 1) \<le> nat b" "nat b < 2 ^ r"
    using floorlog_bounds[of "nat a" 2] floorlog_bounds[of "nat b" 2] a b by (simp_all add: p_def r_def)
  moreover have pos: "0 < p" "0 < r" using a b by (simp_all add: p_def r_def floorlog_eq_zero_iff neq0_conv[symmetric] del: neq0_conv)
  ultimately have "of_nat (2 ^ (p - 1)) \<le> (of_nat (nat a) :: rat)" "of_nat (nat a) < (of_nat (2 ^ p) :: rat)"
    "of_nat (2 ^ (r - 1)) \<le> (of_nat (nat b) :: rat)" "of_nat (nat b) < (of_nat (2 ^ r) :: rat)"
    unfolding of_nat_le_iff of_nat_less_iff by simp_all
  then have na: "pow2 (int p - 1) \<le> of_int a" "of_int a < pow2 (int p)"
    and nb: "pow2 (int r - 1) \<le> of_int b" "of_int b < pow2 (int r)"
    using a b pos pow2_nat[of "p - 1"] pow2_nat[of "r - 1"] pow2_nat[of p] pow2_nat[of r]
    by (simp_all add: of_nat_diff)
  have b': "0 < (of_int b :: rat)" using b by simp
  have "pow2 (int p - int r - 1) * pow2 (int r) = pow2 (int p - 1)" by (simp flip: pow2_add)
  moreover have "pow2 (int p - int r - 1) * of_int b \<le> pow2 (int p - int r - 1) * pow2 (int r)"
    using nb(2) by simp
  ultimately have low: "pow2 (int p - int r - 1) \<le> x" using na(1) b' by (simp add: x field_simps)
  have "pow2 (int p - int r + 1) * pow2 (int r - 1) = pow2 (int p)" by (simp flip: pow2_add)
  moreover have "pow2 (int p - int r + 1) * pow2 (int r - 1) \<le> pow2 (int p - int r + 1) * of_int b"
    using nb(1) by simp
  ultimately have high: "x < pow2 (int p - int r + 1)" using na(2) b' by (simp add: x field_simps)
  have "ilog2 x = (if pow2 (int p - int r) \<le> x then int p - int r else int p - int r - 1)"
    by (simp add: ilog2_def q p_def r_def Let_def)
  then show "pow2 (ilog2 x) \<le> x" and "x < pow2 (ilog2 x + 1)" using low high by (auto split: if_splits)
qed

lemma ilog2_unique:
  assumes "pow2 k \<le> x" and "x < pow2 (k + 1)"
  shows "ilog2 x = k"
proof -
  have x: "0 < x" using assms(1) pow2_simps(2)[of k] by (rule less_le_trans[rotated])
  have "pow2 (ilog2 x) < pow2 (k + 1)" "pow2 k < pow2 (ilog2 x + 1)"
    using ilog2_bounds[OF x] assms by linarith+
  then show ?thesis unfolding pow2_less_iff by linarith
qed

lemma ilog2_mono:
  assumes "0 < x" and "x \<le> y"
  shows "ilog2 x \<le> ilog2 y"
proof -
  have "pow2 (ilog2 x) < pow2 (ilog2 y + 1)"
    using ilog2_bounds[OF assms(1)] ilog2_bounds[of y] assms by linarith
  then show ?thesis unfolding pow2_less_iff by linarith
qed

lemma round_half_even_bounds:
  "of_int (round_half_even x) \<le> x + 1 / 2" "x - 1 / 2 \<le> of_int (round_half_even x)"
  unfolding round_half_even_def Let_def by (simp_all split: if_split; linarith)+

lemma round_half_even_int [simp]: "round_half_even (of_int n) = n"
  by (simp add: round_half_even_def)

lemma round_half_even_floor: "\<lfloor>x\<rfloor> \<le> round_half_even x" "round_half_even x \<le> \<lfloor>x\<rfloor> + 1"
  by (simp_all add: round_half_even_def Let_def)

lemma round_half_even_mono:
  assumes "x \<le> y"
  shows "round_half_even x \<le> round_half_even y"
proof (cases "\<lfloor>x\<rfloor> = \<lfloor>y\<rfloor>")
  case True
  then show ?thesis using assms by (simp add: round_half_even_def Let_def)
next
  case False
  then have "\<lfloor>x\<rfloor> + 1 \<le> \<lfloor>y\<rfloor>" using assms floor_mono[of x y] by linarith
  then show ?thesis using round_half_even_floor(2)[of x] round_half_even_floor(1)[of y] by linarith
qed

section \<open>The rounding error\<close>

lemma round_magnitude_error:
  assumes "0 < x" and "pow2 (ff_emin F) \<le> x"
  shows "\<bar>round_magnitude F x - x\<bar> \<le> x * pow2 (- int (ff_precision F))"
proof -
  have e: "ff_emin F \<le> ilog2 x"
  proof -
    have "pow2 (ff_emin F) < pow2 (ilog2 x + 1)" using assms ilog2_bounds(2)[of x] by linarith
    then show ?thesis unfolding pow2_less_iff by linarith
  qed
  define ulp where "ulp = pow2 (ilog2 x - int (ff_precision F) + 1)"
  have ulp: "0 < ulp" by (simp add: ulp_def)
  have r: "round_magnitude F x = of_int (round_half_even (x / ulp)) * ulp"
    using e by (simp add: round_magnitude_def ulp_def Let_def)
  have "\<bar>of_int (round_half_even (x / ulp)) - x / ulp\<bar> \<le> 1 / 2"
    using round_half_even_bounds[of "x / ulp"] by linarith
  then have "\<bar>of_int (round_half_even (x / ulp)) - x / ulp\<bar> * ulp \<le> 1 / 2 * ulp"
    using ulp by (intro mult_right_mono) simp_all
  moreover have "\<bar>of_int (round_half_even (x / ulp)) - x / ulp\<bar> * ulp = \<bar>round_magnitude F x - x\<bar>"
  proof -
    have "of_int (round_half_even (x / ulp)) * ulp - x = (of_int (round_half_even (x / ulp)) - x / ulp) * ulp"
      using ulp by (simp add: left_diff_distrib)
    then show ?thesis using ulp unfolding r by (simp add: abs_mult)
  qed
  moreover have "1 / 2 * ulp = pow2 (ilog2 x) * pow2 (- int (ff_precision F))"
  proof -
    have "pow2 1 = 2" by (simp add: pow2_def)
    moreover have "ulp = pow2 1 * (pow2 (ilog2 x) * pow2 (- int (ff_precision F)))"
      unfolding ulp_def pow2_add[symmetric] by (simp add: algebra_simps)
    ultimately show ?thesis by simp
  qed
  moreover have "pow2 (ilog2 x) * pow2 (- int (ff_precision F)) \<le> x * pow2 (- int (ff_precision F))"
    using ilog2_bounds(1)[OF assms(1)] by (intro mult_right_mono) simp_all
  ultimately show ?thesis by linarith
qed

lemma round_magnitude_nonneg: "0 \<le> x \<Longrightarrow> 0 \<le> round_magnitude F x"
proof -
  assume x: "0 \<le> x"
  have "0 \<le> round_half_even (x / u)" if "0 < u" for u
    using round_half_even_floor(1)[of "x / u"] x that by (simp add: order_trans[rotated])
  then show ?thesis by (simp add: round_magnitude_def Let_def)
qed

text \<open>A number with as many bits as the precision, times a power of two, is exact.\<close>

lemma round_magnitude_exact:
  assumes "0 < n" and "n < 2 ^ ff_precision F" and "ff_emin F \<le> e"
  shows "round_magnitude F (of_nat n * pow2 e) = of_nat n * pow2 e"
proof -
  let ?p = "int (ff_precision F)"
  define k where "k = ilog2 (of_nat n)"
  have n: "0 < (of_nat n :: rat)" using assms(1) by simp
  have kb: "pow2 k \<le> of_nat n" "of_nat n < pow2 (k + 1)" using ilog2_bounds[OF n] by (simp_all add: k_def)
  have "pow2 0 < pow2 (k + 1)" using kb(2) assms(1) by (simp add: less_le_trans[OF _ less_imp_le] le_less_trans[of 1 "of_nat n :: rat"])
  then have k0: "0 \<le> k" unfolding pow2_less_iff by simp
  have "(of_nat n :: rat) < of_nat (2 ^ ff_precision F)" using assms(2) by (simp only: of_nat_less_iff)
  then have "(of_nat n :: rat) < pow2 ?p" by (simp add: pow2_nat)
  then have "pow2 k < pow2 ?p" using kb(1) by linarith
  then have kp: "k \<le> ?p - 1" unfolding pow2_less_iff by simp
  define u where "u = pow2 (k + e - ?p + 1)"
  have log: "ilog2 (of_nat n * pow2 e) = k + e"
    using kb by (intro ilog2_unique) (simp_all add: pow2_add add.commute[of k] add.assoc)
  have top: "max (k + e) (ff_emin F) = k + e" using k0 assms(3) by simp
  have "of_nat n * pow2 e / u = of_int (int n * 2 ^ nat (?p - 1 - k))"
  proof -
    have "pow2 e = u * pow2 (?p - 1 - k)" unfolding u_def pow2_add[symmetric] by simp
    moreover have "pow2 (?p - 1 - k) = 2 ^ nat (?p - 1 - k)" using kp by (simp flip: pow2_nat)
    ultimately show ?thesis by (simp add: u_def)
  qed
  then have "of_int (round_half_even (of_nat n * pow2 e / u)) = of_nat n * pow2 e / u"
    by (simp only: round_half_even_int)
  moreover have "of_nat n * pow2 e / u * u = of_nat n * pow2 e" by (simp add: u_def)
  ultimately show ?thesis unfolding round_magnitude_def Let_def log top u_def[symmetric] by simp
qed

lemma fp_round_exact:
  assumes "n < 2 ^ ff_precision F" and "ff_emin F \<le> e" and "e + int (ff_precision F) \<le> ff_emax F + 1"
  shows "fp_round F False (of_nat n * pow2 e) = Fin False (of_nat n * pow2 e)"
proof (cases "n = 0")
  case True
  then show ?thesis by (simp add: fp_round_def)
next
  case False
  then have r: "round_magnitude F (of_nat n * pow2 e) = of_nat n * pow2 e"
    using assms by (intro round_magnitude_exact) simp_all
  have "(of_nat n :: rat) < of_nat (2 ^ ff_precision F)" using assms(1) by (simp only: of_nat_less_iff)
  then have "(of_nat n :: rat) < pow2 (int (ff_precision F))" by (simp add: pow2_nat)
  then have "of_nat n * pow2 e < pow2 (int (ff_precision F)) * pow2 e"
    by (rule mult_strict_right_mono) simp
  also have "\<dots> = pow2 (e + int (ff_precision F))" by (simp add: pow2_add)
  also have "\<dots> \<le> pow2 (ff_emax F + 1)" using assms(3) by (rule pow2_mono)
  finally have "\<not> pow2 (ff_emax F + 1) \<le> of_nat n * pow2 e" by simp
  moreover have "0 \<le> of_nat n * pow2 e" by simp
  ultimately show ?thesis using False r by (simp add: fp_round_def Let_def abs_mult not_less)
qed

lemma format_fields [simp]:
  "ff_precision binary32 = 24" "ff_emin binary32 = - 126" "ff_emax binary32 = 127"
  "ff_precision binary64 = 53" "ff_emin binary64 = - 1022" "ff_emax binary64 = 1023"
  by (simp_all add: binary32_def binary64_def)

text \<open>A finite float with its value; a rounded result in the normal range has a small relative
  error.\<close>

definition is_value :: "fp \<Rightarrow> rat \<Rightarrow> bool" where
  "is_value x v \<longleftrightarrow> fp_is_finite x \<and> fp_value x = v"

lemma is_valueD: "is_value x v \<Longrightarrow> \<exists>s m. x = Fin s m \<and> fp_value (Fin s m) = v"
  by (cases x) (auto simp: is_value_def)

definition near :: "rat \<Rightarrow> rat \<Rightarrow> bool" where
  "near u v \<longleftrightarrow> \<bar>u - v\<bar> \<le> \<bar>v\<bar> / 16777216"

definition in_normal_range :: "rat \<Rightarrow> bool" where
  "in_normal_range v \<longleftrightarrow> pow2 (- 126) \<le> \<bar>v\<bar> \<and> \<bar>v\<bar> \<le> pow2 100"

lemma round32_near:
  assumes "in_normal_range v"
  shows "\<exists>u. is_value (fp_round binary32 z v) u \<and> near u v"
proof -
  have v: "0 < \<bar>v\<bar>" "v \<noteq> 0" using assms pow2_simps(2)[of "- 126"] by (auto simp: in_normal_range_def simp del: pow2_simps)
  let ?m = "round_magnitude binary32 \<bar>v\<bar>"
  have "\<bar>?m - \<bar>v\<bar>\<bar> \<le> \<bar>v\<bar> * pow2 (- int (ff_precision binary32))"
    using assms v by (intro round_magnitude_error) (simp_all add: in_normal_range_def binary32_def)
  then have err: "\<bar>?m - \<bar>v\<bar>\<bar> \<le> \<bar>v\<bar> / 16777216" by (simp add: binary32_def pow2_def power_int_minus field_simps)
  have "\<bar>v\<bar> / 16777216 \<le> \<bar>v\<bar>" using v by (simp add: field_simps)
  then have "?m \<le> 2 * \<bar>v\<bar>" using err by linarith
  also have "\<dots> \<le> 2 * pow2 100" using assms by (simp add: in_normal_range_def)
  also have "\<dots> < pow2 128" by (simp add: pow2_def)
  finally have "fp_round binary32 z v = Fin (v < 0) ?m" using v by (simp add: fp_round_def Let_def binary32_def)
  moreover have "\<bar>(if v < 0 then - ?m else ?m) - v\<bar> = \<bar>?m - \<bar>v\<bar>\<bar>" by auto
  ultimately show ?thesis using err
    by (intro exI[of _ "if v < 0 then - ?m else ?m"]) (simp add: is_value_def near_def)
qed

lemma fp_ops_near:
  assumes "is_value x v" and "is_value y w"
  shows "in_normal_range (v + w) \<Longrightarrow> \<exists>u. is_value (fp_add binary32 x y) u \<and> near u (v + w)"
    and "in_normal_range (v * w) \<Longrightarrow> \<exists>u. is_value (fp_mul binary32 x y) u \<and> near u (v * w)"
    and "in_normal_range (v / w) \<Longrightarrow> \<exists>u. is_value (fp_div binary32 x y) u \<and> near u (v / w)"
proof -
  obtain s m where x: "x = Fin s m" "fp_value (Fin s m) = v" using is_valueD[OF assms(1)] by blast
  obtain t n where y: "y = Fin t n" "fp_value (Fin t n) = w" using is_valueD[OF assms(2)] by blast
  show "in_normal_range (v + w) \<Longrightarrow> \<exists>u. is_value (fp_add binary32 x y) u \<and> near u (v + w)"
    using round32_near by (simp add: x(1) y(1) del: fp_value.simps) (simp only: x(2) y(2))
  show "in_normal_range (v * w) \<Longrightarrow> \<exists>u. is_value (fp_mul binary32 x y) u \<and> near u (v * w)"
    using round32_near by (simp add: x(1) y(1) del: fp_value.simps) (simp only: x(2) y(2))
  assume range: "in_normal_range (v / w)"
  have "0 < pow2 (- 126)" by (rule pow2_simps)
  then have "w \<noteq> 0" using range by (auto simp: in_normal_range_def simp del: pow2_simps)
  then have "n \<noteq> 0" using y(2) by (cases t) auto
  then show "\<exists>u. is_value (fp_div binary32 x y) u \<and> near u (v / w)"
    using round32_near[OF range] by (simp add: x(1) y(1) del: fp_value.simps) (simp only: x(2) y(2))
qed

section \<open>The two precisions\<close>

abbreviation f_add :: "f32 \<Rightarrow> f32 \<Rightarrow> f32" where "f_add \<equiv> fp_add binary32"
abbreviation f_sub :: "f32 \<Rightarrow> f32 \<Rightarrow> f32" where "f_sub \<equiv> fp_sub binary32"
abbreviation f_mul :: "f32 \<Rightarrow> f32 \<Rightarrow> f32" where "f_mul \<equiv> fp_mul binary32"
abbreviation f_div :: "f32 \<Rightarrow> f32 \<Rightarrow> f32" where "f_div \<equiv> fp_div binary32"
abbreviation f_zero :: f32 where "f_zero \<equiv> Fin False 0"
abbreviation f_one :: f32 where "f_one \<equiv> Fin False 1"

abbreviation d_add :: "f64 \<Rightarrow> f64 \<Rightarrow> f64" where "d_add \<equiv> fp_add binary64"
abbreviation d_sub :: "f64 \<Rightarrow> f64 \<Rightarrow> f64" where "d_sub \<equiv> fp_sub binary64"
abbreviation d_mul :: "f64 \<Rightarrow> f64 \<Rightarrow> f64" where "d_mul \<equiv> fp_mul binary64"
abbreviation d_div :: "f64 \<Rightarrow> f64 \<Rightarrow> f64" where "d_div \<equiv> fp_div binary64"

text \<open>The functions of the crate \<open>libm\<close> that the program calls.\<close>

record libm =
  sinf :: "f32 \<Rightarrow> f32"
  cosf :: "f32 \<Rightarrow> f32"
  tanhf :: "f32 \<Rightarrow> f32"
  powf :: "f32 \<Rightarrow> f32 \<Rightarrow> f32"
  sqrtf :: "f32 \<Rightarrow> f32"

text \<open>\<open>f32::consts::PI\<close>.\<close>

definition f32_PI :: f32 where
  "f32_PI = Fin False (13176795 / 4194304)"

lemma f32_ints:
  "f32_of 0 = f_zero" "f32_of 1 = f_one" "f32_of 127 = Fin False 127" "f32_of (- 127) = Fin True 127"
  "f32_of 100 = Fin False 100" "f32_of 2 = Fin False 2"
  by code_simp+

end
