(* ===== verification/Air_Modem.thy ===== *)
theory Air_Modem
  imports Phy Floating
begin

text \<open>
  \<open>latentmesh-air-radio/src/modem.rs\<close>: the reference modems, BPSK on complex baseband and
  continuous-phase FSK on PCM. The trigonometric functions are those of the crate \<open>libm\<close>, a
  parameter.
\<close>

type_synonym i16 = "16 word"

abbreviation (input) MAX_PHY_BITS :: nat where "MAX_PHY_BITS \<equiv> MAX_CODED_BITS + 80"
abbreviation (input) MAX_WAVEFORM_SAMPLES :: nat where "MAX_WAVEFORM_SAMPLES \<equiv> 1000000"

text \<open>The cast \<open>as i8\<close>, and \<open>as i16\<close>.\<close>

definition fp_as_i8 :: "f32 \<Rightarrow> i8" where
  "fp_as_i8 x = word_of_int (fp_to_int (- 128) 127 x)"

definition fp_as_i16 :: "f32 \<Rightarrow> i16" where
  "fp_as_i16 x = word_of_int (fp_to_int (- 32768) 32767 x)"

section \<open>BPSK\<close>

record iq_sample =
  iq_i :: f32
  iq_q :: f32

record bpsk_config =
  bp_samples_per_symbol :: u16
  bp_amplitude :: f32

definition amplitude_ok :: "f32 \<Rightarrow> bool" where
  "amplitude_ok a \<longleftrightarrow> fp_is_finite a \<and> \<not> fp_le a f_zero \<and> \<not> fp_lt f_one a"

definition bpsk_validate :: "bpsk_config \<Rightarrow> unit air_result" where
  "bpsk_validate c =
     (if bp_samples_per_symbol c = 0 \<or> bp_samples_per_symbol c > 4096 \<or> \<not> amplitude_ok (bp_amplitude c)
      then Inl InvalidLength else Inr ())"

record bpsk_modem =
  bm_config :: bpsk_config

definition bpsk_new :: "bpsk_config \<Rightarrow> bpsk_modem air_result" where
  "bpsk_new c = rbind (bpsk_validate c) (\<lambda>_. Inr \<lparr> bm_config = c \<rparr>)"

definition bpsk_modulate :: "bpsk_modem \<Rightarrow> u8 list \<Rightarrow> iq_sample list air_result" where
  "bpsk_modulate m bits =
     (let width = unat (bp_samples_per_symbol (bm_config m)); amplitude = bp_amplitude (bm_config m) in
      if length bits > MAX_PHY_BITS \<or> list_ex (\<lambda>b. b > 1) bits then Inl InvalidLength
      else if length bits * width \<ge> 2 ^ 64 then Inl LimitExceeded
      else if length bits * width > MAX_WAVEFORM_SAMPLES then Inl LimitExceeded
      else Inr (concat (map (\<lambda>b.
          let level = if b = 1 then amplitude else fp_neg amplitude
          in replicate width \<lparr> iq_i = level, iq_q = f_zero \<rparr>) bits)))"

text \<open>The matched filter of one symbol: sum, divide by the width, scale and cast.\<close>

definition bpsk_soft :: "bpsk_config \<Rightarrow> iq_sample list \<Rightarrow> i8" where
  "bpsk_soft c symbol =
     (let mean = f_div (foldl f_add f_zero (map iq_i symbol)) (f32_of (of_nat (unat (bp_samples_per_symbol c))));
          normalized = f_div mean (bp_amplitude c)
      in fp_as_i8 (fp_clamp (f_mul normalized (f32_of 100)) (f32_of (- 127)) (f32_of 127)))"

definition bpsk_demodulate_soft :: "bpsk_modem \<Rightarrow> iq_sample list \<Rightarrow> i8 list air_result" where
  "bpsk_demodulate_soft m samples =
     (let width = unat (bp_samples_per_symbol (bm_config m)) in
      if length samples mod width \<noteq> 0 \<or> length samples div width > MAX_PHY_BITS then Inl InvalidLength
      else Inr (map (bpsk_soft (bm_config m)) (chunks_exact width samples)))"

section \<open>CPFSK\<close>

record cpfsk_config =
  cp_sample_rate :: u32
  cp_symbol_rate :: u32
  cp_mark_hz :: u32
  cp_space_hz :: u32
  cp_amplitude :: f32

definition cpfsk_samples_per_symbol :: "cpfsk_config \<Rightarrow> nat" where
  "cpfsk_samples_per_symbol c = unat (cp_sample_rate c) div unat (cp_symbol_rate c)"

text \<open>\<open>u32::saturating_mul(2)\<close>.\<close>

definition saturating_double :: "u32 \<Rightarrow> nat" where
  "saturating_double w = min (2 * unat w) (2 ^ 32 - 1)"

definition cpfsk_validate :: "cpfsk_config \<Rightarrow> unit air_result" where
  "cpfsk_validate c =
     (if cp_symbol_rate c = 0 \<or> cp_sample_rate c = 0
        \<or> unat (cp_sample_rate c) mod unat (cp_symbol_rate c) \<noteq> 0
        \<or> cpfsk_samples_per_symbol c < 4 \<or> cpfsk_samples_per_symbol c > 4096
        \<or> cp_mark_hz c = cp_space_hz c
        \<or> saturating_double (cp_mark_hz c) \<ge> unat (cp_sample_rate c)
        \<or> saturating_double (cp_space_hz c) \<ge> unat (cp_sample_rate c)
        \<or> \<not> amplitude_ok (cp_amplitude c)
      then Inl InvalidLength else Inr ())"

record cpfsk_modem =
  cm_config :: cpfsk_config

definition cpfsk_new :: "cpfsk_config \<Rightarrow> cpfsk_modem air_result" where
  "cpfsk_new c = rbind (cpfsk_validate c) (\<lambda>_. Inr \<lparr> cm_config = c \<rparr>)"

definition u32_as_f32 :: "u32 \<Rightarrow> f32" where
  "u32_as_f32 w = f32_of (of_nat (unat w))"

definition pcm_sample :: "libm \<Rightarrow> f32 \<Rightarrow> f32 \<Rightarrow> i16" where
  "pcm_sample L amplitude phase =
     fp_as_i16 (fp_clamp (f_mul (f_mul (sinf L phase) amplitude) (f32_of 32767)) (f32_of (- 32768)) (f32_of 32767))"

definition phase_advance :: "f32 \<Rightarrow> f32 \<Rightarrow> f32" where
  "phase_advance phase step =
     (let phase = f_add phase step; turn = f_mul (f32_of 2) f32_PI
      in if fp_le turn phase then f_sub phase turn else phase)"

text \<open>The samples of one bit, and the phase after it.\<close>

fun cpfsk_symbol :: "libm \<Rightarrow> f32 \<Rightarrow> f32 \<Rightarrow> nat \<Rightarrow> f32 \<Rightarrow> i16 list \<times> f32" where
  "cpfsk_symbol L amplitude step 0 phase = ([], phase)"
| "cpfsk_symbol L amplitude step (Suc n) phase =
     (let (samples, phase') = cpfsk_symbol L amplitude step n (phase_advance phase step)
      in (pcm_sample L amplitude phase # samples, phase'))"

definition phase_step :: "cpfsk_config \<Rightarrow> u32 \<Rightarrow> f32" where
  "phase_step c frequency =
     f_div (f_mul (f_mul (f32_of 2) f32_PI) (u32_as_f32 frequency)) (u32_as_f32 (cp_sample_rate c))"

fun cpfsk_waveform :: "libm \<Rightarrow> cpfsk_config \<Rightarrow> u8 list \<Rightarrow> f32 \<Rightarrow> i16 list" where
  "cpfsk_waveform L c [] phase = []"
| "cpfsk_waveform L c (b # bits) phase =
     (let step = phase_step c (if b = 1 then cp_mark_hz c else cp_space_hz c);
          (samples, phase') = cpfsk_symbol L (cp_amplitude c) step (cpfsk_samples_per_symbol c) phase
      in samples @ cpfsk_waveform L c bits phase')"

definition cpfsk_modulate :: "libm \<Rightarrow> cpfsk_modem \<Rightarrow> u8 list \<Rightarrow> i16 list air_result" where
  "cpfsk_modulate L m bits =
     (let width = cpfsk_samples_per_symbol (cm_config m) in
      if length bits > MAX_PHY_BITS \<or> list_ex (\<lambda>b. b > 1) bits then Inl InvalidLength
      else if length bits * width \<ge> 2 ^ 64 then Inl LimitExceeded
      else if length bits * width > MAX_WAVEFORM_SAMPLES then Inl LimitExceeded
      else Inr (cpfsk_waveform L (cm_config m) bits f_zero))"

definition i16_as_f32 :: "i16 \<Rightarrow> f32" where
  "i16_as_f32 w = f32_of (of_int (sint w))"

definition tone_energy :: "libm \<Rightarrow> i16 list \<Rightarrow> u32 \<Rightarrow> u32 \<Rightarrow> f32" where
  "tone_energy L samples frequency sample_rate =
     (let step = f_div (f_mul (f_mul (f32_of 2) f32_PI) (u32_as_f32 frequency)) (u32_as_f32 sample_rate);
          (i_sum, q_sum) = foldl (\<lambda>(i_sum, q_sum) (index, sample).
              let phase = f_mul step (f32_of (of_nat index)); v = i16_as_f32 sample
              in (f_add i_sum (f_mul v (cosf L phase)), f_add q_sum (f_mul v (sinf L phase))))
            (f_zero, f_zero) (enumerate 0 samples)
      in f_add (f_mul i_sum i_sum) (f_mul q_sum q_sum))"

definition cpfsk_soft :: "libm \<Rightarrow> cpfsk_config \<Rightarrow> i16 list \<Rightarrow> i8" where
  "cpfsk_soft L c symbol =
     (let mark = tone_energy L symbol (cp_mark_hz c) (cp_sample_rate c);
          space = tone_energy L symbol (cp_space_hz c) (cp_sample_rate c);
          total = f_add (f_add mark space) f_one;
          normalized = f_div (f_sub mark space) total
      in fp_as_i8 (fp_clamp (f_mul normalized (f32_of 127)) (f32_of (- 127)) (f32_of 127)))"

definition cpfsk_demodulate_soft :: "libm \<Rightarrow> cpfsk_modem \<Rightarrow> i16 list \<Rightarrow> i8 list air_result" where
  "cpfsk_demodulate_soft L m pcm =
     (let width = cpfsk_samples_per_symbol (cm_config m) in
      if length pcm mod width \<noteq> 0 \<or> length pcm div width > MAX_PHY_BITS then Inl InvalidLength
      else Inr (map (cpfsk_soft L (cm_config m)) (chunks_exact width pcm)))"

section \<open>BPSK round trip\<close>

lemma sint_i8: "- 128 \<le> k \<Longrightarrow> k \<le> 127 \<Longrightarrow> sint (word_of_int k :: i8) = k"
  by (simp add: signed_of_int signed_take_bit_int_eq_self)

lemma near_bounds:
  assumes "near u v" and "0 < lo" and "lo \<le> \<sigma> * v" and "\<sigma> * v \<le> hi" and "\<sigma> = 1 \<or> \<sigma> = - 1"
  shows "lo / 2 \<le> \<sigma> * u" and "\<sigma> * u \<le> 2 * hi"
  using assms by (auto simp: near_def field_simps abs_if split: if_splits)

lemma in_range_signed:
  assumes "pow2 (- 126) \<le> \<sigma> * v" and "\<sigma> * v \<le> pow2 100" and "\<sigma> = 1 \<or> \<sigma> = - 1"
  shows "in_normal_range v"
proof -
  have "0 < pow2 (- 126)" by (rule pow2_simps)
  then have "\<sigma> * v = \<bar>v\<bar>" using assms by (auto simp: abs_if simp del: pow2_simps)
  then show ?thesis using assms by (simp add: in_normal_range_def)
qed

lemma pow2_small: "pow2 (- 126) * 67108864 = pow2 (- 100)" "1048576 \<le> pow2 100" "pow2 (- 126) \<le> 1 / 16"
  by (simp_all add: pow2_def power_int_minus)

lemma amplitude_value:
  assumes "amplitude_ok x" shows "is_value x (fp_value x)" and "0 < fp_value x" and "fp_value x \<le> 1"
  using assms by (cases x; auto simp: amplitude_ok_def is_value_def split: if_splits)+

lemma symbol_sum:
  assumes "is_value level (\<sigma> * a)" and s: "\<sigma> = 1 \<or> \<sigma> = - 1" and a: "pow2 (- 100) \<le> a" "a \<le> 1" and "n \<le> 4096"
  shows "\<exists>v. is_value (foldl f_add f_zero (replicate n level)) v \<and> of_nat n * a / 2 \<le> \<sigma> * v \<and> \<sigma> * v \<le> 2 * of_nat n * a"
  using assms(5)
proof (induction n)
  case 0
  then show ?case by (intro exI[of _ 0]) (simp add: is_value_def)
next
  case (Suc n)
  then obtain v where v: "is_value (foldl f_add f_zero (replicate n level)) v"
    "of_nat n * a / 2 \<le> \<sigma> * v" "\<sigma> * v \<le> 2 * of_nat n * a" by auto
  have pos: "0 < a" using a(1) pow2_simps(2)[of "- 100"] by linarith
  have ss: "\<sigma> * \<sigma> = 1" using s by auto
  have sum: "\<sigma> * (v + \<sigma> * a) = \<sigma> * v + a" using ss by (simp add: distrib_left flip: mult.assoc)
  have n: "of_nat n \<le> (4095 :: rat)" using Suc.prems by (simp flip: of_nat_le_iff)
  then have na: "of_nat n * a \<le> 4095 * a" using pos by (intro mult_right_mono) simp_all
  have na0: "0 \<le> of_nat n * a" using pos by simp
  have low: "a \<le> \<sigma> * (v + \<sigma> * a)" and high: "\<sigma> * (v + \<sigma> * a) \<le> 8191 * a"
    using v(2,3) na na0 unfolding sum by linarith+
  have "pow2 (- 126) \<le> a" using a(1) pow2_mono[of "- 126" "- 100"] by simp
  moreover have "8191 * a \<le> pow2 100" using a(2) pow2_small(2) by linarith
  ultimately have "in_normal_range (v + \<sigma> * a)" using low high by (intro in_range_signed[OF _ _ s]) linarith+
  then obtain u where u: "is_value (f_add (foldl f_add f_zero (replicate n level)) level) u" "near u (v + \<sigma> * a)"
    using fp_ops_near(1)[OF v(1) assms(1)] by blast
  have "\<bar>\<sigma> * u - \<sigma> * (v + \<sigma> * a)\<bar> = \<bar>u - (v + \<sigma> * a)\<bar>" using s by auto
  also have "\<dots> \<le> \<bar>v + \<sigma> * a\<bar> / 16777216" using u(2) by (simp add: near_def)
  also have "\<bar>v + \<sigma> * a\<bar> = \<sigma> * (v + \<sigma> * a)" using low pos s by auto
  also have "\<dots> / 16777216 \<le> (8191 * a) / 16777216" using high by (intro divide_right_mono) simp_all
  also have "\<dots> \<le> a / 2" using pos by simp
  finally have err: "\<bar>\<sigma> * u - (\<sigma> * v + a)\<bar> \<le> a / 2" unfolding sum .
  have "of_nat (Suc n) * a / 2 \<le> \<sigma> * u \<and> \<sigma> * u \<le> 2 * of_nat (Suc n) * a"
  proof -
    have "of_nat (Suc n) * a = of_nat n * a + a" by (simp add: algebra_simps)
    then have "of_nat (Suc n) * a / 2 \<le> \<sigma> * u" "\<sigma> * u \<le> 2 * (of_nat (Suc n) * a)"
      using err v(2) v(3)[unfolded mult.assoc] pos by linarith+
    then show ?thesis by (simp only: mult.assoc)
  qed
  moreover have "replicate (Suc n) level = replicate n level @ [level]" by (simp add: replicate_append_same)
  ultimately show ?case using u(1) by (intro exI[of _ u]) (simp del: replicate_Suc)
qed

lemma soft_cast:
  assumes x: "is_value x u" and "3 \<le> \<bar>u\<bar>"
  shows "let k = sint (fp_as_i8 (fp_clamp x (f32_of (- 127)) (f32_of 127))) in k \<noteq> 0 \<and> (0 < k \<longleftrightarrow> 0 < u)"
proof -
  let ?y = "fp_clamp x (f32_of (- 127)) (f32_of 127)"
  obtain s m where m: "x = Fin s m" "fp_value (Fin s m) = u" using is_valueD[OF x] by blast
  have y: "is_value ?y (if u < - 127 then - 127 else if 127 < u then 127 else u)"
    using m by (auto simp: fp_clamp_def f32_ints Let_def is_value_def)
  define v where "v = (if u < - 127 then - 127 else if 127 < u then 127 else u)"
  have v: "3 \<le> \<bar>v\<bar>" "\<bar>v\<bar> \<le> 127" "0 < v \<longleftrightarrow> 0 < u" using assms(2) by (auto simp: v_def)
  define k where "k = truncate_rat v"
  have k: "k \<noteq> 0 \<and> (0 < k \<longleftrightarrow> 0 < v) \<and> - 128 \<le> k \<and> k \<le> 127"
  proof (cases "v < 0")
    case True
    then have "3 \<le> - v" "- v \<le> 127" using v(1,2) by simp_all
    then have f: "3 \<le> \<lfloor>- v\<rfloor>" "\<lfloor>- v\<rfloor> \<le> 127" by linarith+
    have "k = - \<lfloor>- v\<rfloor>" using True by (simp add: k_def truncate_rat_def)
    then show ?thesis using f True by linarith
  next
    case False
    then have "3 \<le> v" "v \<le> 127" using v(1,2) by simp_all
    then have f: "3 \<le> \<lfloor>v\<rfloor>" "\<lfloor>v\<rfloor> \<le> 127" by linarith+
    have "k = \<lfloor>v\<rfloor>" using False by (simp add: k_def truncate_rat_def)
    then show ?thesis using f \<open>3 \<le> v\<close> by linarith
  qed
  obtain t n where "?y = Fin t n" "fp_value (Fin t n) = v" using is_valueD[OF y] v_def by blast
  then have "fp_as_i8 ?y = word_of_int k" using k by (simp add: fp_as_i8_def k_def del: fp_value.simps)
  then show ?thesis using k v(3) by (simp add: sint_i8 Let_def)
qed

lemma bpsk_soft_level:
  assumes level: "is_value level (\<sigma> * a)" and s: "\<sigma> = 1 \<or> \<sigma> = - 1"
    and a: "pow2 (- 100) \<le> a" "a \<le> 1" and amp: "is_value (bp_amplitude c) a"
    and w: "w = unat (bp_samples_per_symbol c)" "0 < w" "w \<le> 4096"
  shows "let k = sint (bpsk_soft c (replicate w \<lparr> iq_i = level, iq_q = q \<rparr>)) in k \<noteq> 0 \<and> (0 < k \<longleftrightarrow> \<sigma> = 1)"
proof -
  have pos: "0 < a" using a(1) pow2_simps(2)[of "- 100"] by linarith
  have W: "1 \<le> (of_nat w :: rat)" "of_nat w \<le> (4096 :: rat)"
    using w(2,3) of_nat_mono[of 1 w, where ?'a = rat] of_nat_mono[of w 4096, where ?'a = rat] by simp_all
  obtain v where v: "is_value (foldl f_add f_zero (replicate w level)) v"
    "of_nat w * a / 2 \<le> \<sigma> * v" "\<sigma> * v \<le> 2 * of_nat w * a"
    using symbol_sum[OF level s a w(3)] by blast
  have "in_normal_range (of_nat w)" using W pow2_small by (intro in_range_signed[of 1]) simp_all
  then obtain c' where c': "is_value (f32_of (of_nat w)) c'" "near c' (of_nat w)"
    using round32_near[of "of_nat w" False] by (auto simp: fp_of_rat_def)
  have c'b: "of_nat w / 2 \<le> c'" "c' \<le> 2 * of_nat w"
    using near_bounds[OF c'(2), of "of_nat w" 1 "of_nat w"] W by simp_all
  have c'pos: "0 < c'" using c'b W by linarith

  have "a / 4 * c' \<le> \<sigma> * v" "\<sigma> * v \<le> 4 * a * c'"
  proof -
    have "a / 4 * c' \<le> a / 4 * (2 * of_nat w)" "4 * a * (of_nat w / 2) \<le> 4 * a * c'"
      using c'b pos by (intro mult_left_mono; simp)+
    then show "a / 4 * c' \<le> \<sigma> * v" "\<sigma> * v \<le> 4 * a * c'" using v(2,3) by (simp_all add: algebra_simps)
  qed
  then have mean: "a / 4 \<le> \<sigma> * (v / c')" "\<sigma> * (v / c') \<le> 4 * a" using c'pos by (simp_all add: field_simps)
  have "in_normal_range (v / c')"
  proof (rule in_range_signed[OF _ _ s])
    show "pow2 (- 126) \<le> \<sigma> * (v / c')"
      using mean(1) a(1) pow2_small(1) pow2_simps(2)[of "- 126"] by linarith
    show "\<sigma> * (v / c') \<le> pow2 100" using mean(2) a(2) pow2_small(2) by linarith
  qed
  then obtain m where m: "is_value (f_div (foldl f_add f_zero (replicate w level)) (f32_of (of_nat w))) m" "near m (v / c')"
    using fp_ops_near(3)[OF v(1) c'(1)] by blast
  have mb: "a / 8 \<le> \<sigma> * m" "\<sigma> * m \<le> 8 * a"
    using near_bounds[OF m(2) _ mean s] pos by simp_all

  have nb: "1 / 8 \<le> \<sigma> * (m / a)" "\<sigma> * (m / a) \<le> 8" using mb pos by (simp_all add: field_simps)
  have "in_normal_range (m / a)" using nb pow2_small by (intro in_range_signed[OF _ _ s]) linarith+
  then obtain n where n: "is_value (f_div (f_div (foldl f_add f_zero (replicate w level)) (f32_of (of_nat w))) (bp_amplitude c)) n"
    "near n (m / a)" using fp_ops_near(3)[OF m(1) amp] by blast
  have "1 / 16 \<le> \<sigma> * n" "\<sigma> * n \<le> 16" using near_bounds[OF n(2) _ nb s] by simp_all
  then have hb: "6 \<le> \<sigma> * (n * 100)" "\<sigma> * (n * 100) \<le> 1600" by (simp_all add: algebra_simps)

  have "in_normal_range (n * 100)" using hb pow2_small by (intro in_range_signed[OF _ _ s]) linarith+
  moreover have "is_value (f32_of 100) 100" by (simp add: f32_ints is_value_def)
  ultimately obtain h where h: "is_value (f_mul (f_div (f_div (foldl f_add f_zero (replicate w level))
      (f32_of (of_nat w))) (bp_amplitude c)) (f32_of 100)) h" "near h (n * 100)"
    using fp_ops_near(2)[OF n(1)] by blast
  have "3 \<le> \<sigma> * h" using near_bounds(1)[OF h(2) _ hb s] by simp
  then have "3 \<le> \<bar>h\<bar>" "0 < h \<longleftrightarrow> \<sigma> = 1" using s by auto
  then show ?thesis
    using soft_cast[OF h(1)] by (simp add: bpsk_soft_def Let_def w(1) map_replicate)
qed

lemma bpsk_soft_clean:
  assumes new: "bpsk_new c = Inr m" and a: "pow2 (- 100) \<le> fp_value (bp_amplitude c)"
    and mod: "bpsk_modulate m bits = Inr samples"
  obtains llrs where "bpsk_demodulate_soft m samples = Inr llrs" and "clean llrs bits"
proof -
  let ?w = "unat (bp_samples_per_symbol c)" and ?a = "fp_value (bp_amplitude c)"
  define level where "level b = (if b = (1::u8) then bp_amplitude c else fp_neg (bp_amplitude c))" for b
  define symbol where "symbol b = replicate ?w \<lparr> iq_i = level b, iq_q = f_zero \<rparr>" for b
  have m: "bm_config m = c" and sps: "bp_samples_per_symbol c \<noteq> 0" "bp_samples_per_symbol c \<le> 4096"
    and amp: "amplitude_ok (bp_amplitude c)"
    using new by (auto simp: bpsk_new_def bpsk_validate_def split: if_splits)
  have w: "0 < ?w" "?w \<le> 4096" using sps by (simp_all add: unat_gt_0 word_le_nat_alt)
  note av = amplitude_value[OF amp]
  have neg: "is_value (fp_neg (bp_amplitude c)) (- 1 * ?a)"
    using is_valueD[OF av(1)] by (auto simp: is_value_def)
  from mod have samples: "samples = concat (map symbol bits)" and bits: "length bits \<le> MAX_PHY_BITS" "\<not> list_ex (\<lambda>b. b > 1) bits"
    by (auto simp: bpsk_modulate_def Let_def m level_def[abs_def] symbol_def[abs_def] split: if_splits)
  have syms: "list_all (\<lambda>s. length s = ?w) (map symbol bits)" by (simp add: list_all_iff symbol_def)
  have len: "length samples = ?w * length bits" using length_concat_equal[OF syms] by (simp add: samples)
  have "bpsk_demodulate_soft m samples = Inr (map (bpsk_soft c) (map symbol bits))"
    using w bits(1) chunks_exact_concat[OF w(1) syms]
    by (simp add: bpsk_demodulate_soft_def m Let_def len samples[symmetric])
  moreover have "clean (map (bpsk_soft c) (map symbol bits)) bits"
  proof -
    have "sint (bpsk_soft c (symbol b)) \<noteq> 0 \<and> (0 < sint (bpsk_soft c (symbol b)) \<longleftrightarrow> b = 1)" for b
    proof (cases "b = 1")
      case True
      then show ?thesis
        using bpsk_soft_level[of "bp_amplitude c" 1 ?a c ?w f_zero] av a w by (simp add: level_def symbol_def Let_def)
    next
      case False
      then show ?thesis
        using bpsk_soft_level[of "fp_neg (bp_amplitude c)" "- 1" ?a c ?w f_zero] neg av a w
        by (simp add: level_def symbol_def Let_def)
    qed
    then show ?thesis by (simp add: clean_def list_all2_map1 list_all2_refl)
  qed
  ultimately show thesis by (rule that)
qed

section \<open>Properties\<close>

text \<open>The BPSK modem round trips in binary32 arithmetic: for every accepted configuration with an
  amplitude of at least 2 to the -100, demodulating what was modulated gives one soft value per bit,
  strictly positive for 1 and strictly negative for 0, rounding errors included.\<close>

theorem bpsk_roundtrip:
  assumes "bpsk_new c = Inr m" and "pow2 (- 100) \<le> fp_value (bp_amplitude c)"
    and "bpsk_modulate m bits = Inr samples"
  shows "\<exists>llrs. bpsk_demodulate_soft m samples = Inr llrs \<and>
    list_all2 (\<lambda>llr b. sint llr \<noteq> 0 \<and> (0 < sint llr \<longleftrightarrow> b = 1)) llrs bits"
  using bpsk_soft_clean[OF assms] unfolding clean_def by blast

definition demo_bpsk :: bpsk_config where
  "demo_bpsk = \<lparr> bp_samples_per_symbol = 2, bp_amplitude = f32_of (4 / 5) \<rparr>"

lemma demo_bpsk_new: "bpsk_new demo_bpsk = Inr \<lparr> bm_config = demo_bpsk \<rparr>"
  by code_simp

lemma demo_bpsk_amplitude: "pow2 (- 100) \<le> fp_value (bp_amplitude demo_bpsk)"
  by code_simp

theorem bpsk_roundtrip_witness:
  "\<exists>samples llrs. bpsk_modulate \<lparr> bm_config = demo_bpsk \<rparr> [1, 0] = Inr samples \<and>
     bpsk_demodulate_soft \<lparr> bm_config = demo_bpsk \<rparr> samples = Inr llrs \<and>
     list_all2 (\<lambda>llr b. sint llr \<noteq> 0 \<and> (0 < sint llr \<longleftrightarrow> b = 1)) llrs [1, 0 :: u8]"
proof -
  obtain samples where samples: "bpsk_modulate \<lparr> bm_config = demo_bpsk \<rparr> [1, 0] = Inr samples"
    by (simp add: bpsk_modulate_def demo_bpsk_def Let_def)
  then show ?thesis using bpsk_roundtrip[OF demo_bpsk_new demo_bpsk_amplitude samples] by blast
qed

end
