(* ===== verification/BTree.thy ===== *)
theory BTree
  imports Main
begin

text \<open>
  The standard library's \<open>BTreeMap\<close> and \<open>BTreeSet\<close> as the code observes them: the
  entries in strictly increasing key order, which is the order of iteration and decides
  equality. A map is its list of entries, well formed when \<open>bt_ok\<close>.
\<close>

section \<open>Operations\<close>

type_synonym ('k, 'v) btree = "('k \<times> 'v) list"

fun bt_insert :: "'k::linorder \<Rightarrow> 'v \<Rightarrow> ('k, 'v) btree \<Rightarrow> ('k, 'v) btree" where
  "bt_insert k v [] = [(k, v)]"
| "bt_insert k v ((k', v') # m) =
     (if k < k' then (k, v) # (k', v') # m
      else if k = k' then (k, v) # m
      else (k', v') # bt_insert k v m)"

fun bt_remove :: "'k \<Rightarrow> ('k, 'v) btree \<Rightarrow> ('k, 'v) btree" where
  "bt_remove k [] = []"
| "bt_remove k ((k', v') # m) = (if k = k' then m else (k', v') # bt_remove k m)"

abbreviation bt_get :: "('k, 'v) btree \<Rightarrow> 'k \<Rightarrow> 'v option" where
  "bt_get m k \<equiv> map_of m k"

abbreviation bt_keys :: "('k, 'v) btree \<Rightarrow> 'k list" where
  "bt_keys m \<equiv> map fst m"

definition bt_ok :: "('k::linorder, 'v) btree \<Rightarrow> bool" where
  "bt_ok m \<longleftrightarrow> sorted_wrt (<) (bt_keys m)"

section \<open>Laws\<close>

lemma bt_ok_Nil [simp]: "bt_ok []"
  by (simp add: bt_ok_def)

lemma bt_ok_Cons: "bt_ok ((k, v) # m) \<longleftrightarrow> (\<forall>k'\<in>fst ` set m. k < k') \<and> bt_ok m"
  by (auto simp: bt_ok_def)

lemma bt_ok_tail: "bt_ok (e # m) \<Longrightarrow> bt_ok m"
  by (cases e) (simp add: bt_ok_Cons)

lemma bt_get_insert [simp]: "bt_get (bt_insert k v m) j = (if j = k then Some v else bt_get m j)"
  by (induction m) auto

lemma bt_insert_keys [simp]: "fst ` set (bt_insert k v m) = insert k (fst ` set m)"
  by (induction k v m rule: bt_insert.induct) (simp_all add: insert_commute)

lemma bt_insert_ok: "bt_ok m \<Longrightarrow> bt_ok (bt_insert k v m)"
proof (induction k v m rule: bt_insert.induct)
  case (2 k v k' v' m)
  then have "bt_ok m" and less: "\<forall>j\<in>fst ` set m. k' < j" by (simp_all add: bt_ok_Cons)
  consider "k < k'" | "k = k'" | "k' < k" using less_linear by blast
  then show ?case
  proof cases
    case 1
    then show ?thesis using "2.prems" less by (auto simp: bt_ok_Cons)
  next
    case 2
    then show ?thesis using "2.prems" by (simp add: bt_ok_Cons)
  next
    case 3
    then show ?thesis using "2.IH" \<open>bt_ok m\<close> less by (auto simp: bt_ok_Cons)
  qed
qed (simp add: bt_ok_Cons)

lemma bt_insert_set: "set (bt_insert k v m) \<subseteq> insert (k, v) (set m)"
  by (induction m) (auto split: if_splits)

lemma bt_remove_set: "set (bt_remove k m) \<subseteq> set m"
  by (induction m) (auto split: if_splits)

lemma bt_remove_ok: "bt_ok m \<Longrightarrow> bt_ok (bt_remove k m)"
  using bt_remove_set by (induction m) (fastforce simp: bt_ok_Cons)+

lemma bt_distinct: "bt_ok m \<Longrightarrow> distinct (bt_keys m)"
  by (auto simp: bt_ok_def strict_sorted_iff)

lemma bt_get_remove: "bt_ok m \<Longrightarrow> bt_get (bt_remove k m) j = (if j = k then None else bt_get m j)"
proof (induction m)
  case (Cons e m)
  obtain k' v' where e: "e = (k', v')" by (cases e)
  have "k' \<notin> fst ` set m" using Cons.prems by (auto simp: e bt_ok_Cons)
  then have "bt_get m k' = None" by (simp add: map_of_eq_None_iff)
  then show ?case using Cons bt_ok_tail[OF Cons.prems] by (auto simp: e)
qed simp

lemma bt_get_dom: "bt_get m k \<noteq> None \<longleftrightarrow> k \<in> fst ` set m"
  by (metis map_of_eq_None_iff)

lemma bt_dom [simp]: "dom (map_of m) = fst ` set m"
  by (simp add: dom_map_of_conv_image_fst)

lemma bt_length_card: "bt_ok m \<Longrightarrow> length m = card (fst ` set m)"
  using bt_distinct distinct_card by fastforce

lemma bt_length_insert:
  "bt_ok m \<Longrightarrow> length (bt_insert k v m) = (if k \<in> fst ` set m then length m else Suc (length m))"
  using bt_length_card[OF bt_insert_ok, of m k v] bt_length_card[of m]
  by (simp add: card_insert_if)

lemma bt_length_remove: "length (bt_remove k m) \<le> length m"
  by (induction m) auto

text \<open>Two well-formed maps with the same entries are equal.\<close>

lemma bt_ext:
  assumes "bt_ok m" and "bt_ok n" and get: "\<And>k. bt_get m k = bt_get n k"
  shows "m = n"
proof -
  have keys: "fst ` set m = fst ` set n" using get by (metis bt_dom domIff subsetI subset_antisym)
  have "bt_keys m = bt_keys n"
    using assms(1,2) keys by (intro strict_sorted_equal) (simp_all add: bt_ok_def)
  have entries: "map (\<lambda>k. (k, the (bt_get l k))) (bt_keys l) = l" if "bt_ok l" for l :: "('a, 'b) btree"
    using bt_distinct[OF that] by (auto simp: comp_def intro!: map_idI)
  have "m = map (\<lambda>k. (k, the (bt_get m k))) (bt_keys m)" using entries[OF assms(1)] by simp
  also have "\<dots> = map (\<lambda>k. (k, the (bt_get n k))) (bt_keys n)"
    using \<open>bt_keys m = bt_keys n\<close> get by simp
  also have "\<dots> = n" using entries[OF assms(2)] .
  finally show ?thesis .
qed

lemma bt_insert_get_ok: "bt_ok m \<Longrightarrow> bt_get m k = Some v \<Longrightarrow> bt_insert k v m = m"
  by (rule bt_ext) (auto simp: bt_insert_ok)

lemma bt_insert_last: "\<forall>k'\<in>fst ` set m. k' < k \<Longrightarrow> bt_insert k v m = m @ [(k, v)]"
  by (induction m) (auto simp: not_less_iff_gr_or_eq)

end
