(* ===== verification/Semantic.thy ===== *)
theory Semantic
  imports Air_Error BTree Vec_Ops
begin

text \<open>
  \<open>latentmesh-air-core/src/semantic.rs\<close>: symbolic values, the critical state keyed by field
  id, and the deltas between two states with their canonical encoding. SHA-256 comes from
  the crate \<open>sha2\<close> and is the parameter \<open>sha\<close>, a function from bytes to a 32-byte
  digest. A byte array \<open>[u8; n]\<close> is a word of \<open>8 n\<close> bits, its bytes in big-endian
  order.
\<close>

type_synonym hash16 = "128 word"
type_synonym sha256 = "bytes \<Rightarrow> 256 word"

abbreviation (input) MAX_CRITICAL_FIELDS :: nat where "MAX_CRITICAL_FIELDS \<equiv> 64"
abbreviation (input) MAX_SYMBOL_BYTES :: nat where "MAX_SYMBOL_BYTES \<equiv> 32"
abbreviation (input) MAX_RESIDUALS :: nat where "MAX_RESIDUALS \<equiv> 16"
abbreviation (input) MAX_RESIDUAL_VALUES :: nat where "MAX_RESIDUAL_VALUES \<equiv> 64"
abbreviation (input) FIXED_LEN :: nat where "FIXED_LEN \<equiv> 52"

section \<open>Symbolic values\<close>

datatype symbol_value =
    SymBool bool
  | SymI64 i64
  | SymU64 u64
  | SymQ16_16 i32
  | SymBytes bytes

fun type_code :: "symbol_value \<Rightarrow> u8" where
  "type_code (SymBool _) = 1"
| "type_code (SymI64 _) = 2"
| "type_code (SymU64 _) = 3"
| "type_code (SymQ16_16 _) = 4"
| "type_code (SymBytes _) = 5"

fun value_len :: "symbol_value \<Rightarrow> nat" where
  "value_len (SymBool _) = 1"
| "value_len (SymI64 _) = 8"
| "value_len (SymU64 _) = 8"
| "value_len (SymQ16_16 _) = 4"
| "value_len (SymBytes b) = length b"

fun value_validate :: "symbol_value \<Rightarrow> unit air_result" where
  "value_validate (SymBytes b) = ensure (length b \<le> MAX_SYMBOL_BYTES) LimitExceeded"
| "value_validate _ = Inr ()"

fun value_bytes :: "symbol_value \<Rightarrow> bytes" where
  "value_bytes (SymBool b) = [if b then 1 else 0]"
| "value_bytes (SymI64 v) = to_be_bytes v"
| "value_bytes (SymU64 v) = to_be_bytes v"
| "value_bytes (SymQ16_16 v) = to_be_bytes v"
| "value_bytes (SymBytes b) = b"

definition value_decode :: "u8 \<Rightarrow> bytes \<Rightarrow> symbol_value air_result" where
  "value_decode code value =
     (if code = 1 \<and> length value = 1 \<and> value ! 0 \<le> 1 then Inr (SymBool (value ! 0 \<noteq> 0))
      else if code = 2 \<and> length value = 8 then Inr (SymI64 (from_be_bytes value))
      else if code = 3 \<and> length value = 8 then Inr (SymU64 (from_be_bytes value))
      else if code = 4 \<and> length value = 4 then Inr (SymQ16_16 (from_be_bytes value))
      else if code = 5 \<and> length value \<le> MAX_SYMBOL_BYTES then Inr (SymBytes value)
      else Inl InvalidSemanticValue)"

section \<open>The critical state\<close>

type_synonym critical_state = "(u16, symbol_value) btree"

definition state_set :: "critical_state \<Rightarrow> u16 \<Rightarrow> symbol_value \<Rightarrow> critical_state air_result" where
  "state_set s field_id value =
     rbind (value_validate value) (\<lambda>_.
       if bt_get s field_id = None \<and> length s = MAX_CRITICAL_FIELDS then Inl LimitExceeded
       else Inr (bt_insert field_id value s))"

definition state_remove :: "critical_state \<Rightarrow> u16 \<Rightarrow> critical_state" where
  "state_remove s field_id = bt_remove field_id s"

definition state_get :: "critical_state \<Rightarrow> u16 \<Rightarrow> symbol_value option" where
  "state_get s field_id = bt_get s field_id"

text \<open>The bytes fed to the hash, and the truncated digest. \<open>state_domain\<close> is the
  prefix \<open>b"LatentMesh-Critical-State-v1"\<close>.\<close>

definition state_domain :: bytes where
  "state_domain = ascii ''LatentMesh-Critical-State-v1''"

definition field_bytes :: "u16 \<times> symbol_value \<Rightarrow> bytes" where
  "field_bytes e = to_be_bytes (fst e) @ [type_code (snd e), word_of_nat (value_len (snd e))]
     @ value_bytes (snd e)"

definition state_preimage :: "critical_state \<Rightarrow> bytes" where
  "state_preimage s =
     state_domain @ to_be_bytes (word_of_nat (length s) :: u16) @ concat (map field_bytes s)"

definition critical_hash :: "sha256 \<Rightarrow> critical_state \<Rightarrow> hash16" where
  "critical_hash sha s = from_be_bytes (take 16 (to_be_bytes (sha (state_preimage s))))"

section \<open>Deltas\<close>

datatype symbol_update = SetField u16 symbol_value | DeleteField u16

fun update_id :: "symbol_update \<Rightarrow> u16" where
  "update_id (SetField i _) = i"
| "update_id (DeleteField i) = i"

record residual =
  r_slot :: u8
  r_importance :: u8
  r_scale_exp :: i8
  r_values :: "i8 list"

record semantic_delta =
  d_source_id :: u32
  d_epoch :: u32
  d_message_id :: u32
  d_base_hash :: hash16
  d_result_hash :: hash16
  d_updates :: "symbol_update list"
  d_residuals :: "residual list"

text \<open>\<open>windows(2).any(|pair| pair[0] == pair[1])\<close>.\<close>

fun adjacent_equal :: "'a list \<Rightarrow> bool" where
  "adjacent_equal (x # y # zs) \<longleftrightarrow> x = y \<or> adjacent_equal (y # zs)"
| "adjacent_equal _ \<longleftrightarrow> False"

fun validate_sets :: "symbol_update list \<Rightarrow> unit air_result" where
  "validate_sets [] = Inr ()"
| "validate_sets (SetField _ v # us) = rbind (value_validate v) (\<lambda>_. validate_sets us)"
| "validate_sets (DeleteField _ # us) = validate_sets us"

definition delta_validate :: "semantic_delta \<Rightarrow> unit air_result" where
  "delta_validate d =
     rbind (ensure (\<not> (length (d_updates d) > MAX_CRITICAL_FIELDS
       \<or> length (d_residuals d) > MAX_RESIDUALS)) LimitExceeded) (\<lambda>_.
     rbind (ensure (\<not> adjacent_equal (sort (map update_id (d_updates d)))) InvalidSemanticValue) (\<lambda>_.
     rbind (validate_sets (d_updates d)) (\<lambda>_.
     rbind (ensure (\<not> adjacent_equal (sort (map r_slot (d_residuals d)))) InvalidSemanticValue) (\<lambda>_.
     ensure (\<not> list_ex (\<lambda>r. length (r_values r) > MAX_RESIDUAL_VALUES) (d_residuals d)) LimitExceeded))))"

definition updates_between :: "critical_state \<Rightarrow> critical_state \<Rightarrow> symbol_update list" where
  "updates_between before after =
     sort_key update_id
       (concat (map (\<lambda>(field_id, old). case state_get after field_id of
            None \<Rightarrow> [DeleteField field_id]
          | Some new \<Rightarrow> if new \<noteq> old then [SetField field_id new] else []) before)
        @ concat (map (\<lambda>(field_id, value). if state_get before field_id = None
            then [SetField field_id value] else []) after))"

definition delta_between ::
  "sha256 \<Rightarrow> u32 \<Rightarrow> u32 \<Rightarrow> u32 \<Rightarrow> critical_state \<Rightarrow> critical_state \<Rightarrow> residual list
    \<Rightarrow> semantic_delta air_result" where
  "delta_between sha source_id epoch message_id before after residuals =
     (let delta = \<lparr> d_source_id = source_id, d_epoch = epoch, d_message_id = message_id,
            d_base_hash = critical_hash sha before, d_result_hash = critical_hash sha after,
            d_updates = updates_between before after, d_residuals = residuals \<rparr>
      in rbind (delta_validate delta) (\<lambda>_. Inr delta))"

section \<open>Encoding\<close>

fun update_bytes :: "symbol_update \<Rightarrow> bytes" where
  "update_bytes (DeleteField i) = to_be_bytes i @ [0, 0]"
| "update_bytes (SetField i v) =
     to_be_bytes i @ [type_code v, word_of_nat (value_len v)] @ value_bytes v"

definition residual_bytes :: "residual \<Rightarrow> bytes" where
  "residual_bytes r =
     [r_slot r, r_importance r, r_scale_exp r, word_of_nat (length (r_values r))] @ r_values r"

definition DELTA_MAGIC :: bytes where "DELTA_MAGIC = ascii ''LMAD''"

abbreviation (input) DELTA_VERSION :: u8 where "DELTA_VERSION \<equiv> 1"

definition delta_bytes :: "semantic_delta \<Rightarrow> bytes" where
  "delta_bytes d =
     (let updates = sort_key update_id (d_updates d);
          residuals = sort_key r_slot (d_residuals d) in
      DELTA_MAGIC @ [DELTA_VERSION, if residuals \<noteq> [] then 1 else 0]
      @ to_be_bytes (d_source_id d) @ to_be_bytes (d_epoch d) @ to_be_bytes (d_message_id d)
      @ to_be_bytes (d_base_hash d) @ to_be_bytes (d_result_hash d)
      @ [word_of_nat (length updates), word_of_nat (length residuals)]
      @ concat (map update_bytes updates) @ concat (map residual_bytes residuals))"

definition delta_encode :: "semantic_delta \<Rightarrow> bytes air_result" where
  "delta_encode d =
     rbind (delta_validate d) (\<lambda>_.
       let out = delta_bytes d in
       if length out > MAX_MESSAGE_BYTES then Inl LimitExceeded else Inr out)"

section \<open>Decoding\<close>

text \<open>The \<open>Reader\<close> is the part of its input behind the cursor.\<close>

definition reader_take :: "nat \<Rightarrow> bytes \<Rightarrow> (bytes \<times> bytes) air_result" where
  "reader_take n rest =
     (if n \<le> length rest then Inr (take n rest, drop n rest) else Inl Truncated)"

definition reader_u8 :: "bytes \<Rightarrow> (u8 \<times> bytes) air_result" where
  "reader_u8 rest = rbind (reader_take 1 rest) (\<lambda>(b, rest). Inr (b ! 0, rest))"

definition reader_u16 :: "bytes \<Rightarrow> (u16 \<times> bytes) air_result" where
  "reader_u16 rest = rbind (reader_take 2 rest) (\<lambda>(b, rest). Inr (from_be_bytes b, rest))"

definition reader_u32 :: "bytes \<Rightarrow> (u32 \<times> bytes) air_result" where
  "reader_u32 rest = rbind (reader_take 4 rest) (\<lambda>(b, rest). Inr (from_be_bytes b, rest))"

definition reader_array_16 :: "bytes \<Rightarrow> (hash16 \<times> bytes) air_result" where
  "reader_array_16 rest = rbind (reader_take 16 rest) (\<lambda>(b, rest). Inr (from_be_bytes b, rest))"

definition read_update :: "u16 option \<Rightarrow> bytes \<Rightarrow> (symbol_update \<times> bytes) air_result" where
  "read_update previous_field rest =
     rbind (reader_u16 rest) (\<lambda>(field_id, rest).
     rbind (ensure (case previous_field of None \<Rightarrow> True | Some p \<Rightarrow> \<not> field_id \<le> p)
       InvalidSemanticValue) (\<lambda>_.
     rbind (reader_u8 rest) (\<lambda>(code, rest).
     rbind (reader_u8 rest) (\<lambda>(len, rest).
       if unat len > MAX_SYMBOL_BYTES then Inl LimitExceeded
       else if code = 0 then
         (if len \<noteq> 0 then Inl InvalidSemanticValue else Inr (DeleteField field_id, rest))
       else rbind (reader_take (unat len) rest) (\<lambda>(b, rest).
         rbind (value_decode code b) (\<lambda>value. Inr (SetField field_id value, rest)))))))"

fun read_updates :: "nat \<Rightarrow> u16 option \<Rightarrow> bytes \<Rightarrow> (symbol_update list \<times> bytes) air_result" where
  "read_updates 0 previous_field rest = Inr ([], rest)"
| "read_updates (Suc n) previous_field rest =
     rbind (read_update previous_field rest) (\<lambda>(u, rest).
     rbind (read_updates n (Some (update_id u)) rest) (\<lambda>(us, rest). Inr (u # us, rest)))"

definition read_residual :: "u8 option \<Rightarrow> bytes \<Rightarrow> (residual \<times> bytes) air_result" where
  "read_residual previous_slot rest =
     rbind (reader_u8 rest) (\<lambda>(slot, rest).
     rbind (ensure (case previous_slot of None \<Rightarrow> True | Some p \<Rightarrow> \<not> slot \<le> p)
       InvalidSemanticValue) (\<lambda>_.
     rbind (reader_u8 rest) (\<lambda>(importance, rest).
     rbind (reader_u8 rest) (\<lambda>(scale_exp, rest).
     rbind (reader_u8 rest) (\<lambda>(len, rest).
       if unat len > MAX_RESIDUAL_VALUES then Inl LimitExceeded
       else rbind (reader_take (unat len) rest) (\<lambda>(values, rest).
         Inr (\<lparr> r_slot = slot, r_importance = importance, r_scale_exp = scale_exp,
               r_values = values \<rparr>, rest)))))))"

fun read_residuals :: "nat \<Rightarrow> u8 option \<Rightarrow> bytes \<Rightarrow> (residual list \<times> bytes) air_result" where
  "read_residuals 0 previous_slot rest = Inr ([], rest)"
| "read_residuals (Suc n) previous_slot rest =
     rbind (read_residual previous_slot rest) (\<lambda>(r, rest).
     rbind (read_residuals n (Some (r_slot r)) rest) (\<lambda>(rs, rest). Inr (r # rs, rest)))"

definition delta_decode :: "bytes \<Rightarrow> semantic_delta air_result" where
  "delta_decode input =
     (if length input < FIXED_LEN then Inl Truncated
      else if length input > MAX_MESSAGE_BYTES then Inl LimitExceeded
      else if take 4 input \<noteq> DELTA_MAGIC then Inl InvalidMarker
      else if input ! 4 \<noteq> DELTA_VERSION then Inl UnsupportedVersion
      else if input ! 5 AND NOT 1 \<noteq> 0 then Inl InvalidFlags
      else let update_count = unat (input ! 50); residual_count = unat (input ! 51) in
      if update_count > MAX_CRITICAL_FIELDS \<or> residual_count > MAX_RESIDUALS then Inl LimitExceeded
      else if (input ! 5 AND 1 \<noteq> 0) \<noteq> (residual_count \<noteq> 0) then Inl InvalidFlags
      else
        rbind (reader_u32 (drop 6 input)) (\<lambda>(source_id, rest).
        rbind (reader_u32 rest) (\<lambda>(epoch, rest).
        rbind (reader_u32 rest) (\<lambda>(message_id, rest).
        rbind (reader_array_16 rest) (\<lambda>(base_hash, rest).
        rbind (reader_array_16 rest) (\<lambda>(result_hash, rest).
        rbind (reader_u8 rest) (\<lambda>(n, rest).
        if unat n \<noteq> update_count then Inl InvalidLength else
        rbind (reader_u8 rest) (\<lambda>(m, rest).
        if unat m \<noteq> residual_count then Inl InvalidLength else
        rbind (read_updates update_count None rest) (\<lambda>(updates, rest).
        rbind (read_residuals residual_count None rest) (\<lambda>(residuals, rest).
        if rest \<noteq> [] then Inl TrailingBytes
        else let delta = \<lparr> d_source_id = source_id, d_epoch = epoch, d_message_id = message_id,
               d_base_hash = base_hash, d_result_hash = result_hash,
               d_updates = updates, d_residuals = residuals \<rparr>
             in rbind (delta_validate delta) (\<lambda>_. Inr delta)))))))))))"

section \<open>Application\<close>

fun apply_updates :: "critical_state \<Rightarrow> symbol_update list \<Rightarrow> critical_state air_result" where
  "apply_updates s [] = Inr s"
| "apply_updates s (SetField i v # us) = rbind (state_set s i v) (\<lambda>s. apply_updates s us)"
| "apply_updates s (DeleteField i # us) = apply_updates (state_remove s i) us"

definition delta_apply :: "sha256 \<Rightarrow> semantic_delta \<Rightarrow> critical_state \<Rightarrow> critical_state air_result" where
  "delta_apply sha d base =
     rbind (delta_validate d) (\<lambda>_.
       if critical_hash sha base \<noteq> d_base_hash d then Inl BaseStateMismatch
       else rbind (apply_updates base (d_updates d)) (\<lambda>result.
         if critical_hash sha result \<noteq> d_result_hash d then Inl ResultStateMismatch
         else Inr result))"

section \<open>The reader inverts the writer\<close>

named_theorems reader_simps

lemma reader_take_iff [reader_simps]:
  "reader_take n rest = Inr (b, r) \<longleftrightarrow> rest = b @ r \<and> length b = n"
  by (auto simp: reader_take_def)

lemma reader_u8_iff [reader_simps]: "reader_u8 rest = Inr (x, r) \<longleftrightarrow> rest = x # r"
  by (cases rest) (auto simp: reader_u8_def reader_take_def)

lemma reader_be:
  assumes "8 * n = LENGTH('a::len)"
  shows "rbind (reader_take n rest) (\<lambda>(b, rest). Inr (from_be_bytes b :: 'a word, rest)) = Inr (w, r)
    \<longleftrightarrow> rest = to_be_bytes w @ r"
proof -
  have dvd: "8 dvd LENGTH('a)" and n: "LENGTH('a) div 8 = n" by (simp_all flip: assms)
  show ?thesis
    using to_from_be_bytes[where ?'a = 'a] from_to_be_bytes[OF dvd] assms n
    by (auto simp: reader_take_iff)
qed

lemma reader_u16_iff [reader_simps]: "reader_u16 rest = Inr (w, r) \<longleftrightarrow> rest = to_be_bytes w @ r"
  unfolding reader_u16_def by (rule reader_be) simp

lemma reader_u32_iff [reader_simps]: "reader_u32 rest = Inr (w, r) \<longleftrightarrow> rest = to_be_bytes w @ r"
  unfolding reader_u32_def by (rule reader_be) simp

lemma reader_array_16_iff [reader_simps]:
  "reader_array_16 rest = Inr (w, r) \<longleftrightarrow> rest = to_be_bytes w @ r"
  unfolding reader_array_16_def by (rule reader_be) simp

definition value_ok :: "symbol_value \<Rightarrow> bool" where
  "value_ok v \<longleftrightarrow> value_validate v = Inr ()"

lemma value_ok_iff: "value_ok v \<longleftrightarrow> (\<forall>b. v = SymBytes b \<longrightarrow> length b \<le> 32)"
  by (cases v) (simp_all add: value_ok_def)

lemma value_len_le: "value_ok v \<Longrightarrow> value_len v \<le> 32"
  by (cases v) (simp_all add: value_ok_iff)

lemma length_value_bytes [simp]: "length (value_bytes v) = value_len v"
  by (cases v) simp_all

lemma u8_le_1: "(x :: u8) \<le> 1 \<longleftrightarrow> x = 0 \<or> x = 1"
  by (auto simp: word_le_nat_alt word_unat_eq_iff)

lemma value_decode_iff [reader_simps]:
  "value_decode c b = Inr v \<longleftrightarrow> c = type_code v \<and> b = value_bytes v \<and> value_ok v"
proof
  assume "value_decode c b = Inr v"
  then show "c = type_code v \<and> b = value_bytes v \<and> value_ok v"
    by (auto simp: value_decode_def value_ok_iff u8_le_1 length_Suc_conv to_from_be_bytes split: if_splits)
next
  assume "c = type_code v \<and> b = value_bytes v \<and> value_ok v"
  then show "value_decode c b = Inr v"
    by (cases v) (auto simp: value_decode_def value_ok_iff)
qed

lemma type_code_pos [simp]: "type_code v \<noteq> 0" "0 \<noteq> type_code v"
  by (cases v; simp)+

definition update_ok :: "symbol_update \<Rightarrow> bool" where
  "update_ok u \<longleftrightarrow> (\<forall>i v. u = SetField i v \<longrightarrow> value_ok v)"

definition residual_ok :: "residual \<Rightarrow> bool" where
  "residual_ok r \<longleftrightarrow> length (r_values r) \<le> 64"

definition beyond :: "'a::linorder option \<Rightarrow> 'a \<Rightarrow> bool" where
  "beyond p x \<longleftrightarrow> (\<forall>y. p = Some y \<longrightarrow> y < x)"

lemma beyond_simps [simp]: "beyond None x" "beyond (Some y) x \<longleftrightarrow> y < x"
  by (simp_all add: beyond_def)

lemma beyond_case: "(case p of None \<Rightarrow> True | Some y \<Rightarrow> \<not> x \<le> y) \<longleftrightarrow> beyond p x"
  by (cases p) auto

lemma unat_value_len: "value_ok v \<Longrightarrow> unat (word_of_nat (value_len v) :: u8) = value_len v"
  using value_len_le[of v] by simp

lemma value_len_u8: "length b = unat (l :: u8) \<Longrightarrow> b = value_bytes v \<Longrightarrow> word_of_nat (value_len v) = l"
  by (metis length_value_bytes u8_of_unat)

lemma read_update_iff [reader_simps]:
  "read_update p rest = Inr (u, r) \<longleftrightarrow> rest = update_bytes u @ r \<and> update_ok u \<and> beyond p (update_id u)"
proof
  assume "read_update p rest = Inr (u, r)"
  then show "rest = update_bytes u @ r \<and> update_ok u \<and> beyond p (update_id u)"
    by (auto simp: read_update_def reader_simps beyond_case update_ok_def split: if_splits)
next
  assume "rest = update_bytes u @ r \<and> update_ok u \<and> beyond p (update_id u)"
  then show "read_update p rest = Inr (u, r)"
    by (cases u) (auto simp: read_update_def reader_simps beyond_case update_ok_def unat_value_len
        value_len_le not_less simp del: unat_u8_of_nat unsigned_of_nat)
qed

lemma read_updates_iff [reader_simps]:
  "read_updates n p rest = Inr (us, r) \<longleftrightarrow>
     rest = concat (map update_bytes us) @ r \<and> length us = n \<and> list_all update_ok us \<and>
     sorted_wrt (<) (map update_id us) \<and> (us \<noteq> [] \<longrightarrow> beyond p (update_id (hd us)))"
proof (induction n arbitrary: p rest us)
  case 0
  then show ?case by auto
next
  case (Suc n)
  show ?case
    by (cases us) (auto simp: Suc reader_simps strict_sorted_head)
qed

lemma read_residual_iff [reader_simps]:
  "read_residual p rest = Inr (x, r) \<longleftrightarrow>
     rest = residual_bytes x @ r \<and> residual_ok x \<and> beyond p (r_slot x)"
proof
  assume "read_residual p rest = Inr (x, r)"
  then show "rest = residual_bytes x @ r \<and> residual_ok x \<and> beyond p (r_slot x)"
    by (auto simp: read_residual_def reader_simps beyond_case residual_ok_def residual_bytes_def
        split: if_splits)
next
  assume "rest = residual_bytes x @ r \<and> residual_ok x \<and> beyond p (r_slot x)"
  then show "read_residual p rest = Inr (x, r)"
    by (auto simp: read_residual_def reader_simps beyond_case residual_ok_def residual_bytes_def)
qed

lemma read_residuals_iff [reader_simps]:
  "read_residuals n p rest = Inr (rs, r) \<longleftrightarrow>
     rest = concat (map residual_bytes rs) @ r \<and> length rs = n \<and> list_all residual_ok rs \<and>
     sorted_wrt (<) (map r_slot rs) \<and> (rs \<noteq> [] \<longrightarrow> beyond p (r_slot (hd rs)))"
proof (induction n arbitrary: p rest rs)
  case 0
  then show ?case by auto
next
  case (Suc n)
  show ?case
    by (cases rs) (auto simp: Suc reader_simps strict_sorted_head)
qed

section \<open>Canonical form\<close>

lemma adjacent_equal_sorted: "sorted xs \<Longrightarrow> adjacent_equal xs \<longleftrightarrow> \<not> distinct xs"
proof (induction xs rule: adjacent_equal.induct)
  case (1 x y zs)
  then have "x < y \<Longrightarrow> x \<notin> set zs" by auto
  then show ?case using 1 by (auto simp: less_le)
qed simp_all

lemma validate_sets_iff: "validate_sets us = Inr () \<longleftrightarrow> list_all update_ok us"
  by (induction us rule: validate_sets.induct) (auto simp: update_ok_def value_ok_def)

definition delta_ok :: "semantic_delta \<Rightarrow> bool" where
  "delta_ok d \<longleftrightarrow> delta_validate d = Inr ()"

lemma delta_ok_iff:
  "delta_ok d \<longleftrightarrow> length (d_updates d) \<le> 64 \<and> length (d_residuals d) \<le> 16 \<and>
     distinct (map update_id (d_updates d)) \<and> list_all update_ok (d_updates d) \<and>
     distinct (map r_slot (d_residuals d)) \<and> list_all residual_ok (d_residuals d)"
  by (auto simp: delta_ok_def delta_validate_def adjacent_equal_sorted validate_sets_iff
      residual_ok_def list_all_iff list_ex_iff not_less)

text \<open>The canonical representative: updates by field id, residuals by slot.\<close>

definition delta_norm :: "semantic_delta \<Rightarrow> semantic_delta" where
  "delta_norm d = d\<lparr> d_updates := sort_key update_id (d_updates d),
                     d_residuals := sort_key r_slot (d_residuals d) \<rparr>"

lemma distinct_map_sort [simp]: "distinct (map f (sort_key g xs)) \<longleftrightarrow> distinct (map f xs)"
  by (metis mset_map mset_sort mset_eq_imp_distinct_iff)

lemma sort_sort [simp]: "sort_key f (sort_key f xs) = sort_key f xs"
  by (rule sort_key_id_if_sorted) simp

lemma sort_key_Nil [simp]: "sort_key f xs = [] \<longleftrightarrow> xs = []"
  by (metis length_0_conv length_sort)

lemma sort_key_strict:
  assumes "distinct (map f xs)"
  shows "sorted_wrt (<) (map f (sort_key f xs))"
  using assms by (simp add: strict_sorted_iff)

lemma sort_key_id: "sorted_wrt (<) (map f xs) \<Longrightarrow> sort_key f xs = xs"
  by (rule sort_key_id_if_sorted) (auto simp: strict_sorted_iff)

lemma list_all_sort [simp]: "list_all P (sort_key f xs) \<longleftrightarrow> list_all P xs"
  by (simp add: list_all_iff)

lemma delta_norm_ok: "delta_ok d \<Longrightarrow> delta_ok (delta_norm d)"
  by (simp add: delta_ok_iff delta_norm_def)

lemma delta_norm_iff: "delta_ok d \<Longrightarrow> delta_norm d = d \<longleftrightarrow>
    sorted_wrt (<) (map update_id (d_updates d)) \<and> sorted_wrt (<) (map r_slot (d_residuals d))"
  using sort_key_strict[of update_id "d_updates d"] sort_key_strict[of r_slot "d_residuals d"]
    sort_key_id[of update_id "d_updates d"] sort_key_id[of r_slot "d_residuals d"]
  by (cases d) (auto simp: delta_ok_iff delta_norm_def)

lemma delta_norm_idem [simp]: "delta_norm (delta_norm d) = delta_norm d"
  by (simp add: delta_norm_def)

lemma delta_normD:
  assumes "delta_norm d = d"
  shows "sort_key update_id (d_updates d) = d_updates d" "sort_key r_slot (d_residuals d) = d_residuals d"
  using assms by (cases d, simp add: delta_norm_def)+

lemma delta_bytes_norm: "delta_bytes (delta_norm d) = delta_bytes d"
  by (simp add: delta_bytes_def delta_norm_def Let_def)

lemma length_DELTA_MAGIC [simp]: "length DELTA_MAGIC = 4"
  by (simp add: DELTA_MAGIC_def)

lemma update_bytes_le: "update_ok u \<Longrightarrow> length (update_bytes u) \<le> 36"
  using value_len_le by (cases u) (auto simp: update_ok_def)

lemma residual_bytes_le: "residual_ok r \<Longrightarrow> length (residual_bytes r) \<le> 68"
  by (simp add: residual_bytes_def residual_ok_def)

lemma concat_map_le:
  "(\<And>x. x \<in> set xs \<Longrightarrow> length (f x) \<le> k) \<Longrightarrow> length (concat (map f xs)) \<le> k * length xs"
  by (induction xs) force+

text \<open>A valid delta is at most 3444 bytes long, so the length check of \<open>encode\<close> never fires.\<close>

lemma delta_bytes_length:
  assumes "delta_ok d"
  shows "52 \<le> length (delta_bytes d) \<and> length (delta_bytes d) \<le> 3444"
proof -
  let ?us = "sort_key update_id (d_updates d)" and ?rs = "sort_key r_slot (d_residuals d)"
  have "length (concat (map update_bytes ?us)) \<le> 36 * length ?us"
    using assms update_bytes_le by (intro concat_map_le) (auto simp: delta_ok_iff list_all_iff)
  moreover have "length (concat (map residual_bytes ?rs)) \<le> 68 * length ?rs"
    using assms residual_bytes_le by (intro concat_map_le) (auto simp: delta_ok_iff list_all_iff)
  ultimately show ?thesis using assms by (simp add: delta_bytes_def Let_def delta_ok_iff)
qed

lemma delta_encode_iff: "delta_encode d = Inr bs \<longleftrightarrow> delta_ok d \<and> bs = delta_bytes d"
  using delta_bytes_length[of d] by (auto simp: delta_encode_def delta_ok_def Let_def)

section \<open>The round trip\<close>

lemma and_not_1: "(x :: u8) AND NOT 1 = 0 \<longleftrightarrow> x = 0 \<or> x = 1"
proof -
  have "x AND NOT 1 = 0 \<longleftrightarrow> x = x AND 1"
    by (metis (no_types, opaque_lifting) and.right_idem bit.conj_cancel_right bit.conj_disj_distrib
        bit.disj_cancel_right and.right_neutral or.right_neutral and_zero_eq and.assoc bit.disj_zero_right)
  also have "x AND 1 = of_bool (odd x)" by (simp add: and_one_eq mod2_eq_if)
  finally show ?thesis by auto
qed

text \<open>The fields in front of the updates, as bytes and as the reader finds them.\<close>

definition delta_head :: "semantic_delta \<Rightarrow> bytes" where
  "delta_head d =
     to_be_bytes (d_source_id d) @ to_be_bytes (d_epoch d) @ to_be_bytes (d_message_id d)
     @ to_be_bytes (d_base_hash d) @ to_be_bytes (d_result_hash d)"

definition delta_tail :: "semantic_delta \<Rightarrow> bytes" where
  "delta_tail d = concat (map update_bytes (d_updates d)) @ concat (map residual_bytes (d_residuals d))"

definition residual_flag :: "semantic_delta \<Rightarrow> u8" where
  "residual_flag d = (if d_residuals d = [] then 0 else 1)"

lemma delta_bytes_layout:
  assumes "delta_norm d = d"
  shows "delta_bytes d = DELTA_MAGIC @ [1, residual_flag d] @ delta_head d
    @ [word_of_nat (length (d_updates d)), word_of_nat (length (d_residuals d))] @ delta_tail d"
  by (simp add: delta_bytes_def Let_def delta_head_def delta_tail_def residual_flag_def delta_normD[OF assms])

lemma length_delta_head [simp]: "length (delta_head d) = 44"
  by (simp add: delta_head_def)

lemma layout_nth:
  assumes "length m = 4" and "length h = 44"
  shows "(m @ [v, fl] @ h @ [a, b] @ t) ! 4 = v" "(m @ [v, fl] @ h @ [a, b] @ t) ! 5 = fl"
    "(m @ [v, fl] @ h @ [a, b] @ t) ! 50 = a" "(m @ [v, fl] @ h @ [a, b] @ t) ! 51 = b"
    "drop 6 (m @ [v, fl] @ h @ [a, b] @ t) = h @ [a, b] @ t"
    "take 4 (m @ [v, fl] @ h @ [a, b] @ t) = m"
  using assms by (simp_all add: nth_append)

lemma delta_decode_bytes:
  assumes "delta_ok d" and "delta_norm d = d"
  shows "delta_decode (delta_bytes d) = Inr d"
proof -
  have nth: "delta_bytes d ! 4 = 1" "delta_bytes d ! 5 = residual_flag d"
    "delta_bytes d ! 50 = word_of_nat (length (d_updates d))"
    "delta_bytes d ! 51 = word_of_nat (length (d_residuals d))"
    "drop 6 (delta_bytes d) = delta_head d @
      [word_of_nat (length (d_updates d)), word_of_nat (length (d_residuals d))] @ delta_tail d"
    "take 4 (delta_bytes d) = DELTA_MAGIC"
    by (simp_all only: delta_bytes_layout[OF assms(2)] layout_nth[OF length_DELTA_MAGIC length_delta_head])
  have counts: "unat (word_of_nat (length (d_updates d)) :: u8) = length (d_updates d)"
    "unat (word_of_nat (length (d_residuals d)) :: u8) = length (d_residuals d)"
    using assms(1) by (simp_all add: delta_ok_iff)
  have len: "52 \<le> length (delta_bytes d)" "length (delta_bytes d) \<le> 7680"
    using delta_bytes_length[OF assms(1)] by simp_all
  have sorted: "sorted_wrt (<) (map update_id (d_updates d))" "sorted_wrt (<) (map r_slot (d_residuals d))"
    using assms delta_norm_iff by blast+
  have heads: "reader_u32 (delta_head d @ r) = Inr (d_source_id d, drop 4 (delta_head d) @ r)"
    "reader_u32 (drop 4 (delta_head d) @ r) = Inr (d_epoch d, drop 8 (delta_head d) @ r)"
    "reader_u32 (drop 8 (delta_head d) @ r) = Inr (d_message_id d, drop 12 (delta_head d) @ r)"
    "reader_array_16 (drop 12 (delta_head d) @ r) = Inr (d_base_hash d, drop 28 (delta_head d) @ r)"
    "reader_array_16 (drop 28 (delta_head d) @ r) = Inr (d_result_hash d, r)" for r
    by (simp_all add: reader_simps delta_head_def)
  have counts': "reader_u8 (x # r) = Inr (x, r)" for x r by (simp add: reader_simps)
  have updates: "read_updates (length (d_updates d)) None (delta_tail d) =
      Inr (d_updates d, concat (map residual_bytes (d_residuals d)))"
    using assms(1) sorted by (simp add: reader_simps delta_ok_iff delta_tail_def)
  have residuals: "read_residuals (length (d_residuals d)) None (concat (map residual_bytes (d_residuals d))) =
      Inr (d_residuals d, [])"
    using assms(1) sorted by (simp add: reader_simps delta_ok_iff)
  have limits: "length (d_updates d) \<le> 64" "length (d_residuals d) \<le> 16"
    and valid: "delta_validate d = Inr ()" using assms(1) delta_ok_def by (auto simp: delta_ok_iff)
  have flag: "residual_flag d AND NOT 1 = 0" "(residual_flag d AND 1 \<noteq> 0) \<longleftrightarrow> d_residuals d \<noteq> []"
    by (auto simp: residual_flag_def and_not_1)
  have eta: "\<lparr> d_source_id = d_source_id d, d_epoch = d_epoch d, d_message_id = d_message_id d,
    d_base_hash = d_base_hash d, d_result_hash = d_result_hash d, d_updates = d_updates d,
    d_residuals = d_residuals d \<rparr> = d" by simp
  show ?thesis
    using len limits valid flag
    by (simp add: delta_decode_def Let_def eta nth counts heads counts' updates residuals not_less
        del: unat_u8_of_nat unsigned_of_nat)
qed

lemma delta_decode_InrD:
  assumes "delta_decode bs = Inr d"
  shows "delta_ok d \<and> delta_norm d = d \<and> bs = delta_bytes d"
proof -
  from assms have guards: "52 \<le> length bs" "take 4 bs = DELTA_MAGIC" "bs ! 4 = 1" "bs ! 5 AND NOT 1 = 0"
    "(bs ! 5 AND 1 \<noteq> 0) \<longleftrightarrow> (unat (bs ! 51) \<noteq> 0)"
    by (auto simp: delta_decode_def Let_def split: if_splits)
  from assms have rest: "drop 6 bs = delta_head d
      @ [word_of_nat (length (d_updates d)), word_of_nat (length (d_residuals d))] @ delta_tail d"
    and n: "length (d_residuals d) = unat (bs ! 51)"
    and sorted: "sorted_wrt (<) (map update_id (d_updates d))" "sorted_wrt (<) (map r_slot (d_residuals d))"
    and ok: "delta_ok d"
    by (auto simp: delta_decode_def Let_def reader_simps delta_ok_def delta_head_def delta_tail_def
        unat_eq_0 simp flip: word_unat_eq_iff split: if_splits)
  have norm: "delta_norm d = d" using ok sorted delta_norm_iff by blast
  have flag: "bs ! 5 = residual_flag d"
    using guards(4,5) n unfolding and_not_1 by (auto simp: residual_flag_def)
  have "bs ! 4 # bs ! 5 # drop 6 bs = drop 4 bs"
    using guards(1) Cons_nth_drop_Suc[of 4 bs] Cons_nth_drop_Suc[of 5 bs] by simp
  then have "bs = take 4 bs @ [bs ! 4, bs ! 5] @ drop 6 bs"
    by simp
  then have "bs = delta_bytes d"
    using guards(2,3) flag rest by (simp add: delta_bytes_layout[OF norm])
  then show ?thesis using ok norm by blast
qed

lemma delta_decode_iff: "delta_decode bs = Inr d \<longleftrightarrow> delta_ok d \<and> delta_norm d = d \<and> bs = delta_bytes d"
  using delta_decode_bytes delta_decode_InrD by blast

interpretation delta: wire_codec delta_ok delta_norm delta_encode delta_decode
proof
  fix d bs
  show "delta_ok d \<Longrightarrow> \<exists>bs. delta_encode d = Inr bs" by (simp add: delta_encode_iff)
  show "delta_encode d = Inr bs \<Longrightarrow> delta_ok d" by (simp add: delta_encode_iff)
  show "delta_encode d = Inr bs \<Longrightarrow> delta_decode bs = Inr (delta_norm d)"
    by (simp add: delta_encode_iff delta_decode_iff delta_bytes_norm delta_norm_ok)
  show "delta_decode bs = Inr d \<Longrightarrow> delta_encode d = Inr bs \<and> delta_norm d = d"
    by (simp add: delta_encode_iff delta_decode_iff)
qed

section \<open>Critical states\<close>

definition state_ok :: "critical_state \<Rightarrow> bool" where
  "state_ok s \<longleftrightarrow> bt_ok s \<and> length s \<le> 64 \<and> (\<forall>e\<in>set s. value_ok (snd e))"

lemma state_ok_empty: "state_ok []"
  by (simp add: state_ok_def)

lemma state_set_ok: "state_ok s \<Longrightarrow> state_set s i v = Inr t \<Longrightarrow> state_ok t"
  using bt_insert_set[of i v s] bt_length_insert[of s i v]
  by (auto simp: state_set_def state_ok_def value_ok_def bt_insert_ok map_of_eq_None_iff split: if_splits)

lemma state_remove_ok: "state_ok s \<Longrightarrow> state_ok (state_remove s i)"
  using bt_remove_set[of i s] bt_length_remove[of i s]
  by (auto simp: state_remove_def state_ok_def bt_remove_ok)

lemma state_set_get: "state_set s i v = Inr t \<Longrightarrow> bt_get t k = (if k = i then Some v else bt_get s k)"
  by (auto simp: state_set_def split: if_splits)

lemma state_remove_get: "state_ok s \<Longrightarrow> bt_get (state_remove s i) k = (if k = i then None else bt_get s k)"
  by (simp add: state_remove_def state_ok_def bt_get_remove)

lemma state_ok_get: "state_ok s \<Longrightarrow> bt_get s k = Some v \<Longrightarrow> value_ok v"
  by (fastforce simp: state_ok_def dest: map_of_SomeD)

lemma apply_updates_ok: "state_ok s \<Longrightarrow> apply_updates s us = Inr t \<Longrightarrow> state_ok t"
  by (induction s us rule: apply_updates.induct) (auto intro: state_set_ok state_remove_ok)

text \<open>Applied updates with distinct ids: each field holds what its update says.\<close>

lemma apply_updates_get:
  assumes "state_ok s" and "apply_updates s us = Inr t" and "distinct (map update_id us)"
  shows "bt_get t k = (case find (\<lambda>u. update_id u = k) us of
      None \<Rightarrow> bt_get s k | Some (SetField _ v) \<Rightarrow> Some v | Some (DeleteField _) \<Rightarrow> None)"
  using assms
proof (induction us arbitrary: s)
  case (Cons u us)
  obtain s' where s': "state_ok s'" "apply_updates s' us = Inr t"
    and get: "\<And>j. bt_get s' j = (if j = update_id u
      then (case u of SetField _ v \<Rightarrow> Some v | DeleteField _ \<Rightarrow> None) else bt_get s j)"
  proof (cases u)
    case (SetField i v)
    then obtain s' where s': "state_set s i v = Inr s'" "apply_updates s' us = Inr t"
      using Cons.prems(2) by auto
    show thesis
      using that[OF state_set_ok[OF Cons.prems(1) s'(1)] s'(2)] state_set_get[OF s'(1)] SetField by simp
  next
    case (DeleteField i)
    then show thesis
      using that[OF state_remove_ok[OF Cons.prems(1)]] Cons.prems(2) state_remove_get[OF Cons.prems(1)]
      by simp
  qed
  have "find (\<lambda>w. update_id w = update_id u) us = None"
    using Cons.prems(3) by (simp add: find_key_None)
  then show ?case using Cons.IH[OF s'] Cons.prems(3) get
    by (cases "k = update_id u") (auto split: option.split symbol_update.split)
qed simp

lemma apply_updates_fails:
  "list_all update_ok us \<Longrightarrow> apply_updates s us = Inl e \<Longrightarrow> e = LimitExceeded"
  by (induction s us rule: apply_updates.induct)
    (auto simp: rbind_eq_Inl state_set_def update_ok_def value_ok_def split: if_splits)

lemma apply_updates_succeeds:
  assumes "state_ok s" and "list_all update_ok us"
    and "card (fst ` set s \<union> update_id ` set us) \<le> 64"
  shows "\<exists>t. apply_updates s us = Inr t"
  using assms
proof (induction s us rule: apply_updates.induct)
  case (2 s i v us)
  have "bt_get s i \<noteq> None \<or> length s < 64"
  proof (cases "i \<in> fst ` set s")
    case True
    then show ?thesis using bt_get_dom by metis
  next
    case False
    have "Suc (card (fst ` set s)) = card (insert i (fst ` set s))" using False by simp
    also have "\<dots> \<le> card (fst ` set s \<union> update_id ` set (SetField i v # us))"
      by (intro card_mono) auto
    finally show ?thesis using 2 bt_length_card[of s] by (simp add: state_ok_def)
  qed
  then obtain t where t: "state_set s i v = Inr t" and ts: "t = bt_insert i v s"
    using "2.prems" by (auto simp: state_set_def update_ok_def value_ok_def)
  have "fst ` set t \<union> update_id ` set us = fst ` set s \<union> update_id ` set (SetField i v # us)"
    by (auto simp: ts)
  then show ?case using 2 t state_set_ok by simp
next
  case (3 s i us)
  have "card (fst ` set (state_remove s i) \<union> update_id ` set us)
      \<le> card (fst ` set s \<union> update_id ` set (DeleteField i # us))"
    using bt_remove_set[of i s] by (intro card_mono) (auto simp: state_remove_def)
  then show ?case using 3 state_remove_ok by simp
qed simp

section \<open>Differences of states\<close>

lemma set_updates_between:
  "DeleteField i \<in> set (updates_between b a) \<longleftrightarrow> i \<in> fst ` set b \<and> bt_get a i = None"
  "SetField i v \<in> set (updates_between b a) \<longleftrightarrow>
     (\<exists>w. (i, w) \<in> set b \<and> bt_get a i = Some v \<and> v \<noteq> w) \<or> (i, v) \<in> set a \<and> bt_get b i = None"
proof -
  have "set (updates_between b a) =
      (\<Union>(i, old)\<in>set b. set (case bt_get a i of None \<Rightarrow> [DeleteField i]
          | Some new \<Rightarrow> if new \<noteq> old then [SetField i new] else []))
      \<union> (\<Union>(i, v)\<in>set a. set (if bt_get b i = None then [SetField i v] else []))"
    by (auto simp: updates_between_def state_get_def)
  then show "DeleteField i \<in> set (updates_between b a) \<longleftrightarrow> i \<in> fst ` set b \<and> bt_get a i = None"
    and "SetField i v \<in> set (updates_between b a) \<longleftrightarrow>
     (\<exists>w. (i, w) \<in> set b \<and> bt_get a i = Some v \<and> v \<noteq> w) \<or> (i, v) \<in> set a \<and> bt_get b i = None"
    by (auto split: option.splits if_splits) (force split: option.splits if_splits)+
qed

lemma ids_updates_between:
  assumes "bt_ok b" and "bt_ok a"
  shows "distinct (map update_id (updates_between b a))"
proof -
  let ?d = "\<lambda>(i, old). case bt_get a i of None \<Rightarrow> [DeleteField i]
      | Some new \<Rightarrow> if new \<noteq> old then [SetField i new] else []"
    and ?s = "\<lambda>(i, value). if bt_get b i = None then [SetField i value] else []"
  have "map update_id (concat (map ?d es)) = map fst (filter (\<lambda>(i, old). bt_get a i \<noteq> Some old) es)" for es
    by (induction es) (auto split: option.split)
  moreover have "map update_id (concat (map ?s es)) = map fst (filter (\<lambda>(i, v). bt_get b i = None) es)" for es
    by (induction es) auto
  moreover have "distinct (map fst (filter P es))" if "bt_ok es" for P and es :: critical_state
    using bt_distinct[OF that] by (rule distinct_map_filter)
  moreover have "i \<in> fst ` set b" if "(i, w) \<in> set b" for i w
    using that by force
  ultimately show ?thesis
    using assms by (auto simp: updates_between_def state_get_def map_of_eq_None_iff)
qed

lemma updates_between_ok: "state_ok a \<Longrightarrow> list_all update_ok (updates_between b a)"
  using state_ok_get bt_distinct[of a]
  by (auto simp: list_all_iff update_ok_def set_updates_between state_ok_def)

lemma updates_between_keys: "update_id ` set (updates_between b a) \<subseteq> fst ` set b \<union> fst ` set a"
proof
  fix i
  assume "i \<in> update_id ` set (updates_between b a)"
  then obtain u where u: "u \<in> set (updates_between b a)" "i = update_id u" by blast
  then show "i \<in> fst ` set b \<union> fst ` set a"
    by (cases u rule: symbol_update.exhaust) (force simp: set_updates_between)+
qed

lemma find_update:
  assumes "distinct (map update_id us)"
  shows "(case find (\<lambda>u. update_id u = k) us of
      None \<Rightarrow> x | Some (SetField _ v) \<Rightarrow> Some v | Some (DeleteField _) \<Rightarrow> None) =
    (if DeleteField k \<in> set us then None
     else if \<exists>v. SetField k v \<in> set us then Some (THE v. SetField k v \<in> set us) else x)"
proof (cases "find (\<lambda>u. update_id u = k) us")
  case None
  then have "k \<notin> update_id ` set us" by (simp add: find_key_None)
  then show ?thesis using None by force
next
  case (Some u)
  then have u: "u \<in> set us" "update_id u = k" using find_key_iff[OF assms] by blast+
  have only: "w = u" if "w \<in> set us" "update_id w = k" for w
    using that u assms by (metis distinct_map inj_onD)
  show ?thesis
  proof (cases u rule: symbol_update.exhaust)
    case (SetField j v)
    then have "DeleteField k \<notin> set us" "SetField k v \<in> set us"
      using only[of "DeleteField k"] u by auto
    moreover have "w = v" if "SetField k w \<in> set us" for w
      using only[OF that] SetField by simp
    ultimately have "(THE w. SetField k w \<in> set us) = v" by (intro the_equality)
    then show ?thesis
      using Some SetField \<open>DeleteField k \<notin> set us\<close> \<open>SetField k v \<in> set us\<close>
      by (simp only: option.case symbol_update.case if_False) (simp, blast)
  next
    case (DeleteField j)
    then show ?thesis using Some u by simp
  qed
qed

text \<open>Applying the difference of two states to the first gives the second.\<close>

lemma apply_between:
  assumes "state_ok b" and "state_ok a" and "apply_updates b (updates_between b a) = Inr t"
  shows "t = a"
proof -
  have ok: "bt_ok b" "bt_ok a" using assms by (simp_all add: state_ok_def)
  have t: "state_ok t" using assms apply_updates_ok by blast
  have mem: "(i, v) \<in> set s \<longleftrightarrow> bt_get s i = Some v" if "bt_ok s" for s :: critical_state and i v
    using bt_distinct[OF that] by simp
  show ?thesis
  proof (rule bt_ext)
    fix k
    have ids: "distinct (map update_id (updates_between b a))" using ok by (rule ids_updates_between)
    have "bt_get t k = (if DeleteField k \<in> set (updates_between b a) then None
        else if \<exists>v. SetField k v \<in> set (updates_between b a)
        then Some (THE v. SetField k v \<in> set (updates_between b a)) else bt_get b k)"
      using apply_updates_get[OF assms(1,3) ids] find_update[OF ids] by simp
    also have "\<dots> = bt_get a k"
      using mem[OF ok(1)] mem[OF ok(2)] bt_get_dom[of b k]
      by (cases "bt_get a k"; cases "bt_get b k") (auto simp: set_updates_between)
    finally show "bt_get t k = bt_get a k" .
  qed (use t ok in \<open>simp_all add: state_ok_def\<close>)
qed

lemma delta_between_Inr:
  "delta_between sha s e m b a rs = Inr d \<longleftrightarrow>
     d = \<lparr> d_source_id = s, d_epoch = e, d_message_id = m, d_base_hash = critical_hash sha b,
       d_result_hash = critical_hash sha a, d_updates = updates_between b a, d_residuals = rs \<rparr> \<and> delta_ok d"
  by (auto simp: delta_between_def delta_ok_def Let_def)

lemma delta_apply_between:
  assumes "state_ok b" and "state_ok a" and "delta_between sha s e m b a rs = Inr d"
  shows "delta_apply sha d b = Inr a \<or> delta_apply sha d b = Inl LimitExceeded"
proof -
  from assms(3) have d: "d_base_hash d = critical_hash sha b" "d_result_hash d = critical_hash sha a"
    "d_updates d = updates_between b a" and ok: "delta_validate d = Inr ()"
    by (auto simp: delta_between_Inr delta_ok_def)
  show ?thesis
  proof (cases "apply_updates b (updates_between b a)")
    case (Inl e)
    then show ?thesis
      using apply_updates_fails[OF updates_between_ok[OF assms(2)] Inl] d ok by (simp add: delta_apply_def)
  next
    case (Inr t)
    then show ?thesis
      using apply_between[OF assms(1,2) Inr] d ok by (simp add: delta_apply_def)
  qed
qed

lemma delta_apply_between_fits:
  assumes "state_ok b" and "state_ok a" and "delta_between sha s e m b a rs = Inr d"
    and "card (fst ` set b \<union> fst ` set a) \<le> 64"
  shows "delta_apply sha d b = Inr a"
proof -
  have "card (fst ` set b \<union> update_id ` set (updates_between b a)) \<le> card (fst ` set b \<union> fst ` set a)"
    using updates_between_keys[of b a] by (intro card_mono) auto
  then obtain t where t: "apply_updates b (updates_between b a) = Inr t"
    using apply_updates_succeeds[OF assms(1) updates_between_ok[OF assms(2)]] assms(4) by fastforce
  then have "t = a" by (rule apply_between[OF assms(1,2)])
  with t assms(3) show ?thesis by (auto simp: delta_apply_def delta_between_Inr delta_ok_def)
qed

section \<open>The hash is computed over an unambiguous encoding\<close>

definition sets_of :: "critical_state \<Rightarrow> symbol_update list" where
  "sets_of s = map (\<lambda>(k, v). SetField k v) s"

lemma between_norm_apply:
  assumes "state_ok before" and "state_ok after" and "card (fst ` set before \<union> fst ` set after) \<le> 64"
    and "delta_between sha src epoch mid before after rs = Inr d"
  shows "delta_apply sha (delta_norm d) before = Inr after"
proof -
  have d: "d_updates d = updates_between before after" "delta_ok d"
    using assms(4) by (auto simp: delta_between_Inr)
  have "sort_key update_id (d_updates d) = d_updates d" by (simp add: d updates_between_def)
  then have "delta_apply sha (delta_norm d) before = delta_apply sha d before"
    using delta_norm_ok[OF d(2)] d(2) by (simp add: delta_apply_def delta_ok_def delta_norm_def)
  then show ?thesis using delta_apply_between_fits[OF assms(1,2,4,3)] by simp
qed

lemma sets_of_simps [simp]:
  "length (sets_of s) = length s" "map update_id (sets_of s) = bt_keys s"
  "sets_of s = sets_of t \<longleftrightarrow> s = t"
proof -
  show "sets_of s = sets_of t \<longleftrightarrow> s = t"
    unfolding sets_of_def by (rule inj_map_eq_map) (auto simp: inj_def)
qed (auto simp: sets_of_def)

lemma field_bytes_update: "map field_bytes s = map update_bytes (sets_of s)"
  by (auto simp: sets_of_def field_bytes_def)

lemma sets_of_ok: "state_ok s \<Longrightarrow> list_all update_ok (sets_of s)"
  by (auto simp: sets_of_def update_ok_def state_ok_def list_all_iff)

lemma state_preimage_inj:
  assumes "state_ok s" and "state_ok t" and "state_preimage s = state_preimage t"
  shows "s = t"
proof -
  have len: "length s \<le> 64" "length t \<le> 64" using assms by (simp_all add: state_ok_def)
  have "(word_of_nat (length s) :: u16) = word_of_nat (length t)"
    and body: "concat (map field_bytes s) = concat (map field_bytes t)"
    using assms(3) from_be_u16 by (auto simp: state_preimage_def) (metis from_be_u16)
  then have "unat (word_of_nat (length s) :: u16) = unat (word_of_nat (length t) :: u16)" by simp
  then have "length s = length t" using len by (simp add: unat_of_nat)
  moreover have "read_updates (length s) None (concat (map field_bytes s)) = Inr (sets_of s, [])"
    if "state_ok s" for s
    using that sets_of_ok[OF that]
    by (simp add: reader_simps field_bytes_update state_ok_def bt_ok_def)
  ultimately have "sets_of s = sets_of t" using assms(1,2) body by (metis Inr_inject prod.inject)
  then show ?thesis by simp
qed

section \<open>A difference that cannot be applied\<close>

text \<open>
  From \<open>bs\<close> with a last field \<open>m\<close> to \<open>bs\<close> with a first field \<open>0\<close>: the difference
  inserts the new field before it deletes the old one.
\<close>

lemma updates_shift:
  assumes "bt_ok (bs @ [(m, v)])" and "\<And>k. k \<in> fst ` set bs \<Longrightarrow> 0 < k" and "0 < m"
  shows "updates_between (bs @ [(m, v)]) ((0, v) # bs) = [SetField 0 v, DeleteField m]"
proof -
  have dist: "distinct (bt_keys (bs @ [(m, v)]))" using assms(1) by (rule bt_distinct)
  then have none: "bt_get bs m = None" "bt_get bs 0 = None"
    using assms(2) by (auto simp: map_of_eq_None_iff)
  have old: "bt_get bs k = Some w" "k \<noteq> 0" if "(k, w) \<in> set bs" for k w
    using that dist assms(2) by force+
  have before: "concat (map (\<lambda>(k, old). case bt_get ((0, v) # bs) k of None \<Rightarrow> [DeleteField k]
      | Some new \<Rightarrow> if new \<noteq> old then [SetField k new] else []) bs) = []"
    using old by (auto split: option.split)
  have after: "concat (map (\<lambda>(k, w). if bt_get (bs @ [(m, v)]) k = None then [SetField k w] else []) bs) = []"
    using old by (auto simp: map_add_def split: option.splits)
  have "updates_between (bs @ [(m, v)]) ((0, v) # bs) = sort_key update_id [DeleteField m, SetField 0 v]"
    unfolding updates_between_def state_get_def map_append concat_append before list.map concat.simps after
    using none assms(3) by (simp add: map_add_def)
  then show ?thesis using assms(3) by simp
qed

definition middle_fields :: "symbol_value \<Rightarrow> critical_state" where
  "middle_fields v = map (\<lambda>j. (word_of_nat j, v)) [1..<64]"

lemma length_middle_fields [simp]: "length (middle_fields v) = 63"
  by (simp add: middle_fields_def)

lemma middle_fields_ok:
  assumes "value_ok v"
  shows "state_ok (middle_fields v @ [(64, v)])" and "state_ok ((0, v) # middle_fields v)"
    and "k \<in> fst ` set (middle_fields v) \<Longrightarrow> 0 < k"
proof -
  have less: "(word_of_nat j :: u16) < word_of_nat k" if "j < k" "k < 65" for j k
    using that by (auto simp: word_less_nat_alt unat_of_nat)
  have pos: "0 < (word_of_nat k :: u16)" if "0 < k" "k < 65" for k using less[of 0 k] that by simp
  have top: "(word_of_nat k :: u16) < 64" if "k < 64" for k using less[of k 64] that by simp
  have "bt_ok (middle_fields v)"
    using less by (auto simp: bt_ok_def middle_fields_def comp_def sorted_wrt_map
        intro!: sorted_wrt_mono_rel[OF _ sorted_wrt_upt])
  then show "state_ok (middle_fields v @ [(64, v)])" "state_ok ((0, v) # middle_fields v)"
    using assms pos top
    by (auto simp: state_ok_def bt_ok_def sorted_wrt_append middle_fields_def)
  show "k \<in> fst ` set (middle_fields v) \<Longrightarrow> 0 < k" using pos by (auto simp: middle_fields_def)
qed

lemma between_not_applicable:
  assumes v: "value_ok v"
  obtains d where "delta_between sha s e m (middle_fields v @ [(64, v)]) ((0, v) # middle_fields v) [] = Inr d"
    and "delta_apply sha d (middle_fields v @ [(64, v)]) = Inl LimitExceeded"
proof -
  let ?b = "middle_fields v @ [(64, v)]" and ?a = "(0, v) # middle_fields v"
  note ok = middle_fields_ok[OF v]
  have us: "updates_between ?b ?a = [SetField 0 v, DeleteField 64]"
    using ok by (intro updates_shift) (simp_all add: state_ok_def)
  obtain d where d: "delta_between sha s e m ?b ?a [] = Inr d"
    using v by (auto simp: delta_between_Inr delta_ok_iff us update_ok_def)
  have "bt_get ?b 0 = None" using ok(3) by (force simp: map_of_eq_None_iff)
  then have "apply_updates ?b (updates_between ?b ?a) = Inl LimitExceeded"
    using v by (simp add: us state_set_def value_ok_def)
  then have "delta_apply sha d ?b = Inl LimitExceeded"
    using d by (auto simp: delta_apply_def delta_between_Inr delta_ok_def)
  with d show thesis by (rule that)
qed

lemma strict_sort_unique:
  fixes f :: "'a \<Rightarrow> 'b::linorder"
  assumes "set xs = set ys" and "sorted_wrt (<) (map f xs)" and "sorted_wrt (<) (map f ys)"
  shows "xs = ys"
proof -
  have "map f xs = map f ys" using assms by (intro strict_sorted_equal) simp_all
  moreover have "inj_on f (set xs)" using assms(2) by (simp add: strict_sorted_iff distinct_map)
  ultimately show ?thesis using assms(1) by (metis map_inj_on sup.idem)
qed

lemma sort_key_perm: "mset xs = mset ys \<Longrightarrow> distinct (map f xs) \<Longrightarrow> sort_key f xs = sort_key f ys"
proof (rule strict_sort_unique[of _ _ f])
  assume xs: "mset xs = mset ys" "distinct (map f xs)"
  then have "distinct (map f ys)" by (metis mset_map mset_eq_imp_distinct_iff)
  then show "sorted_wrt (<) (map f (sort_key f ys))" by (rule sort_key_strict)
  show "sorted_wrt (<) (map f (sort_key f xs))" using xs(2) by (rule sort_key_strict)
  show "set (sort_key f xs) = set (sort_key f ys)" using mset_eq_setD[OF xs(1)] by simp
qed

lemma delta_validate_error: "delta_validate d = Inl e \<Longrightarrow> e = LimitExceeded \<or> e = InvalidSemanticValue"
proof -
  have "e = LimitExceeded" if "validate_sets us = Inl e" for us
    using that
  proof (induction us rule: validate_sets.induct)
    case (2 i v us)
    then show ?case by (cases v) (auto simp: rbind_eq_Inl ensure_eq_Inl)
  qed auto
  then show "delta_validate d = Inl e \<Longrightarrow> e = LimitExceeded \<or> e = InvalidSemanticValue"
    by (auto simp: delta_validate_def rbind_eq_Inl ensure_eq_Inl)
qed

section \<open>Properties\<close>

text \<open>The delta codec: \<open>decode\<close> accepts exactly the canonical encodings of valid
  deltas, and decoding what \<open>encode\<close> wrote gives the delta in canonical order; an invalid
  delta is refused with the error of \<open>validate\<close>.\<close>

theorem delta_roundtrip:
  "(delta_decode bs = Inr d \<longleftrightarrow> delta_encode d = Inr bs \<and> delta_norm d = d) \<and>
   rbind (delta_encode d') delta_decode = rbind (delta_validate d') (\<lambda>_. Inr (delta_norm d'))"
proof (intro conjI)
  show "delta_decode bs = Inr d \<longleftrightarrow> delta_encode d = Inr bs \<and> delta_norm d = d"
    using delta.enc_dec delta.dec_enc by metis
  show "rbind (delta_encode d') delta_decode = rbind (delta_validate d') (\<lambda>_. Inr (delta_norm d'))"
    using delta.roundtrip[of d'] by (cases "delta_validate d'") (simp_all add: delta_ok_def delta_encode_def)
qed

text \<open>The encoding ignores the order in which updates and residuals were collected.\<close>

theorem delta_encode_canonical:
  assumes "mset us = mset (d_updates d)" and "mset rs = mset (d_residuals d)" and "delta_ok d"
  shows "delta_encode (d\<lparr> d_updates := us, d_residuals := rs \<rparr>) = delta_encode d"
proof -
  let ?d = "d\<lparr> d_updates := us, d_residuals := rs \<rparr>"
  have dist: "distinct (map update_id us)" "distinct (map r_slot rs)"
    using assms by (metis delta_ok_iff mset_map mset_eq_imp_distinct_iff)+
  have "delta_ok ?d"
    using assms(3) dist mset_eq_setD[OF assms(1)] mset_eq_setD[OF assms(2)]
      mset_eq_length[OF assms(1)] mset_eq_length[OF assms(2)]
    by (simp add: delta_ok_iff list_all_iff)
  moreover have "delta_bytes ?d = delta_bytes d"
    using sort_key_perm[OF assms(1) dist(1)] sort_key_perm[OF assms(2) dist(2)] by (simp add: delta_bytes_def)
  ultimately show ?thesis using assms(3) by (metis delta_encode_iff)
qed

definition demo_delta :: semantic_delta where
  "demo_delta = \<lparr> d_source_id = 1, d_epoch = 2, d_message_id = 3, d_base_hash = 0, d_result_hash = 0,
     d_updates = [SetField 9 (SymU64 828), DeleteField 2], d_residuals = [] \<rparr>"

lemma demo_delta_ok: "delta_ok demo_delta"
  by (simp add: delta_ok_iff demo_delta_def update_ok_def value_ok_def)

theorem delta_encode_canonical_witness:
  "delta_encode (demo_delta\<lparr> d_updates := [DeleteField 2, SetField 9 (SymU64 828)], d_residuals := [] \<rparr>)
     = delta_encode demo_delta"
  by (rule delta_encode_canonical) (simp_all add: demo_delta_ok, simp_all add: demo_delta_def)

text \<open>State agreement over the wire: when the fields of two valid states together number
  at most 64, the delta between them, encoded and decoded, turns the first into the second.\<close>

theorem delta_agreement:
  assumes "state_ok before" and "state_ok after" and "card (fst ` set before \<union> fst ` set after) \<le> 64"
    and "delta_between sha src epoch mid before after rs = Inr d"
  shows "rbind (delta_encode d) (\<lambda>bs. rbind (delta_decode bs) (\<lambda>d'. delta_apply sha d' before)) = Inr after"
  using delta.roundtrip[of d] between_norm_apply[OF assms(1-4)] assms(4)
  by (auto simp: delta_between_Inr delta_encode_iff)

definition state_one :: critical_state where "state_one = [(1, SymBool True), (2, SymU64 827)]"
definition state_two :: critical_state where "state_two = [(2, SymU64 828), (3, SymQ16_16 71)]"

lemma demo_states_ok: "state_ok state_one" "state_ok state_two"
  by (simp_all add: state_ok_def bt_ok_def state_one_def state_two_def value_ok_def)

lemma demo_updates: "updates_between state_one state_two = [DeleteField 1, SetField 2 (SymU64 828), SetField 3 (SymQ16_16 71)]"
  by (simp add: updates_between_def state_get_def state_one_def state_two_def)

theorem delta_agreement_witness:
  "\<exists>d. delta_between (\<lambda>_. 0) 1 2 3 state_one state_two [] = Inr d \<and>
     rbind (delta_encode d) (\<lambda>bs. rbind (delta_decode bs) (\<lambda>d'. delta_apply (\<lambda>_. 0) d' state_one)) = Inr state_two"
proof -
  have "fst ` set state_one \<union> fst ` set state_two = {1, 2, 3}"
    by (auto simp: state_one_def state_two_def)
  then have "card (fst ` set state_one \<union> fst ` set state_two) \<le> 64" by simp
  moreover obtain d where "delta_between (\<lambda>_. 0) 1 2 3 state_one state_two [] = Inr d"
    by (simp add: delta_between_Inr demo_updates delta_ok_iff update_ok_def value_ok_def)
  ultimately show ?thesis using delta_agreement[OF demo_states_ok] by blast
qed

text \<open>What a successful application guarantees: both hashes match, the result is a valid
  state, fields without an update keep their value, and no choice of learned residuals
  changes the result.\<close>

theorem delta_apply_sound:
  assumes "delta_apply sha d base = Inr s" and "state_ok base"
  shows "critical_hash sha base = d_base_hash d \<and> critical_hash sha s = d_result_hash d \<and> state_ok s \<and>
    (\<forall>k. k \<in> update_id ` set (d_updates d) \<or> bt_get s k = bt_get base k) \<and>
    (\<forall>rs. delta_ok (d\<lparr> d_residuals := rs \<rparr>) \<longrightarrow> delta_apply sha (d\<lparr> d_residuals := rs \<rparr>) base = Inr s)"
proof -
  have ok: "delta_ok d" and h: "critical_hash sha base = d_base_hash d" "critical_hash sha s = d_result_hash d"
    and app: "apply_updates base (d_updates d) = Inr s"
    using assms(1) by (auto simp: delta_apply_def delta_ok_def split: if_splits)
  have "bt_get s k = bt_get base k" if "k \<notin> update_id ` set (d_updates d)" for k
    using apply_updates_get[OF assms(2) app, of k] ok that
    by (simp add: delta_ok_iff find_key_None[THEN iffD2])
  then show ?thesis
    using h app ok apply_updates_ok[OF assms(2) app] by (auto simp: delta_apply_def delta_ok_def)
qed

theorem delta_apply_sound_witness:
  "critical_hash (\<lambda>_. 0) state_two = 0 \<and>
   delta_apply (\<lambda>_. 0) \<lparr> d_source_id = 1, d_epoch = 2, d_message_id = 3, d_base_hash = 0, d_result_hash = 0,
     d_updates = updates_between state_one state_two, d_residuals = [] \<rparr> state_one = Inr state_two"
  (is "_ \<and> delta_apply _ ?d _ = _")
proof -
  have zero: "critical_hash (\<lambda>_. 0) s = 0" for s
    by (simp add: critical_hash_def to_be_bytes_def from_be_bytes_def be_of_nat_0)
  have "delta_validate ?d = Inr ()"
    by (simp add: delta_ok_def[symmetric] delta_ok_iff demo_updates update_ok_def value_ok_def)
  moreover have "apply_updates state_one (updates_between state_one state_two) = Inr state_two"
    by (simp add: demo_updates state_set_def state_remove_def) (simp add: state_one_def state_two_def)
  ultimately have "delta_apply (\<lambda>_. 0) ?d state_one = Inr state_two"
    by (simp add: delta_apply_def zero)
  with delta_apply_sound[OF this demo_states_ok(1)] show ?thesis by simp
qed

text \<open>The bytes that are hashed determine the state: two different valid states never
  feed the same bytes to SHA-256, so only a hash collision can confuse them.\<close>

theorem state_preimage_determines:
  assumes "state_ok s" and "state_ok t"
  shows "state_preimage s = state_preimage t \<longleftrightarrow> s = t"
  using state_preimage_inj[OF assms] by blast

theorem state_preimage_determines_witness:
  "state_preimage state_one \<noteq> state_preimage state_two"
  using state_preimage_determines[OF demo_states_ok] by (simp add: state_one_def state_two_def)

text \<open>A delta that \<open>between\<close> produces can be refused by \<open>apply\<close> on the very state it
  was computed from: two valid states of 64 fields whose difference sets a new field before
  it deletes an old one pass through 65 fields.\<close>

theorem between_apply_overflow:
  "\<exists>before after d. state_ok before \<and> state_ok after \<and>
     delta_between sha src epoch mid before after [] = Inr d \<and>
     delta_apply sha d before = Inl LimitExceeded"
proof -
  have v: "value_ok (SymBool True)" by (simp add: value_ok_def)
  show ?thesis using between_not_applicable[OF v] middle_fields_ok(1,2)[OF v] by metis
qed

end
