(* ===== verification/Envelope.thy ===== *)
theory Envelope
  imports Semantic Wire
begin

text \<open>
  \<open>latentmesh-air-core/src/envelope.rs\<close>: the signed envelope around a message body, its
  canonical encoding, the material a signature covers, and the binding of a delta to the
  identity fields of its envelope.
\<close>

abbreviation (input) ENVELOPE_HEADER_BYTES :: nat where "ENVELOPE_HEADER_BYTES \<equiv> 48"
abbreviation (input) ENVELOPE_SIGNATURE_BYTES :: nat where "ENVELOPE_SIGNATURE_BYTES \<equiv> 64"
abbreviation (input) ENVELOPE_VERSION :: u8 where "ENVELOPE_VERSION \<equiv> 1"

definition ENVELOPE_MAGIC :: bytes where "ENVELOPE_MAGIC = ascii ''LMS1''"

type_synonym signature = "512 word"

record semantic_envelope =
  e_class :: semantic_class
  e_priority :: u8
  e_source_id :: u32
  e_epoch :: u32
  e_message_id :: u32
  e_logical_sequence :: u64
  e_state_hash :: hash16
  e_body :: bytes
  e_signature :: "signature option"

section \<open>Operations\<close>

definition signature_len :: "semantic_envelope \<Rightarrow> nat" where
  "signature_len e = (if e_signature e \<noteq> None then ENVELOPE_SIGNATURE_BYTES else 0)"

definition envelope_validate :: "semantic_envelope \<Rightarrow> unit air_result" where
  "envelope_validate e =
     (if e_priority e > 15 then Inl InvalidLength
      else let total = ENVELOPE_HEADER_BYTES + length (e_body e) + signature_len e in
        if length (e_body e) > 65535 \<or> total > MAX_MESSAGE_BYTES then Inl LimitExceeded
        else Inr ())"

definition envelope_encoded_len :: "semantic_envelope \<Rightarrow> nat" where
  "envelope_encoded_len e = ENVELOPE_HEADER_BYTES + length (e_body e) + signature_len e"

definition wrap_delta ::
  "semantic_delta \<Rightarrow> u8 \<Rightarrow> u64 \<Rightarrow> signature option \<Rightarrow> semantic_envelope air_result" where
  "wrap_delta d priority logical_sequence signature =
     rbind (delta_encode d) (\<lambda>body.
       let envelope = \<lparr> e_class = StateDelta, e_priority = priority, e_source_id = d_source_id d,
             e_epoch = d_epoch d, e_message_id = d_message_id d, e_logical_sequence = logical_sequence,
             e_state_hash = d_result_hash d, e_body = body, e_signature = signature \<rparr>
       in rbind (envelope_validate envelope) (\<lambda>_. Inr envelope))"

definition envelope_header :: "semantic_envelope \<Rightarrow> bytes" where
  "envelope_header e =
     ENVELOPE_MAGIC @ [ENVELOPE_VERSION, if e_signature e \<noteq> None then 1 else 0, class_code (e_class e), e_priority e]
     @ to_be_bytes (e_source_id e) @ to_be_bytes (e_epoch e) @ to_be_bytes (e_message_id e)
     @ to_be_bytes (e_logical_sequence e) @ to_be_bytes (word_of_nat (length (e_body e)) :: u16)
     @ to_be_bytes (e_state_hash e) @ [word_of_nat (signature_len e), 0]"

definition signature_bytes :: "semantic_envelope \<Rightarrow> bytes" where
  "signature_bytes e = (case e_signature e of None \<Rightarrow> [] | Some s \<Rightarrow> to_be_bytes s)"

definition envelope_encode :: "semantic_envelope \<Rightarrow> bytes air_result" where
  "envelope_encode e =
     rbind (envelope_validate e) (\<lambda>_. Inr (envelope_header e @ e_body e @ signature_bytes e))"

definition envelope_decode :: "bytes \<Rightarrow> semantic_envelope air_result" where
  "envelope_decode input =
     (if length input < ENVELOPE_HEADER_BYTES then Inl Truncated
      else if length input > MAX_MESSAGE_BYTES then Inl LimitExceeded
      else if take 4 input \<noteq> ENVELOPE_MAGIC then Inl InvalidMarker
      else if input ! 4 \<noteq> ENVELOPE_VERSION then Inl UnsupportedVersion
      else rbind (if input ! 5 = 0 then Inr False else if input ! 5 = 1 then Inr True else Inl InvalidFlags)
       (\<lambda>authenticated.
      rbind (class_try_from (input ! 6)) (\<lambda>class.
      let priority = input ! 7 in
      if priority > 15 \<or> input ! 47 \<noteq> 0 then Inl InvalidLength
      else let sig_len = unat (input ! 46) in
      if (authenticated \<and> sig_len \<noteq> ENVELOPE_SIGNATURE_BYTES) \<or> (\<not> authenticated \<and> sig_len \<noteq> 0)
      then Inl InvalidFlags
      else let body_len = unat (from_be_bytes [input ! 28, input ! 29] :: u16);
               expected = ENVELOPE_HEADER_BYTES + body_len + sig_len in
      if expected \<noteq> length input then Inl InvalidLength
      else let body_end = ENVELOPE_HEADER_BYTES + body_len;
               envelope = \<lparr> e_class = class, e_priority = priority,
                 e_source_id = from_be_bytes (slice 8 12 input),
                 e_epoch = from_be_bytes (slice 12 16 input),
                 e_message_id = from_be_bytes (slice 16 20 input),
                 e_logical_sequence = from_be_bytes (slice 20 28 input),
                 e_state_hash = from_be_bytes (slice 30 46 input),
                 e_body = slice ENVELOPE_HEADER_BYTES body_end input,
                 e_signature = (if authenticated then Some (from_be_bytes (slice body_end expected input))
                   else None) \<rparr>
           in rbind (envelope_validate envelope) (\<lambda>_. Inr envelope))))"

definition authentication_bytes :: "semantic_envelope \<Rightarrow> bytes air_result" where
  "authentication_bytes e =
     (if e_signature e = None then Inl InvalidFlags
      else rbind (envelope_encode e) (\<lambda>encoded.
        Inr (take (length encoded - ENVELOPE_SIGNATURE_BYTES) encoded)))"

definition unwrap_delta :: "semantic_envelope \<Rightarrow> semantic_delta air_result" where
  "unwrap_delta e =
     (if e_class e \<noteq> StateDelta then Inl InvalidClass
      else rbind (delta_decode (e_body e)) (\<lambda>d.
        if d_source_id d \<noteq> e_source_id e \<or> d_epoch d \<noteq> e_epoch e
          \<or> d_message_id d \<noteq> e_message_id e \<or> d_result_hash d \<noteq> e_state_hash e
        then Inl ResultStateMismatch else Inr d))"

section \<open>The codec\<close>

definition envelope_ok :: "semantic_envelope \<Rightarrow> bool" where
  "envelope_ok e \<longleftrightarrow> envelope_validate e = Inr ()"

lemma envelope_ok_iff:
  "envelope_ok e \<longleftrightarrow> e_priority e \<le> 15 \<and> length (e_body e) \<le> 65535 \<and>
     48 + length (e_body e) + signature_len e \<le> 7680"
  by (auto simp: envelope_ok_def envelope_validate_def Let_def not_less)

lemma length_ENVELOPE_MAGIC [simp]: "length ENVELOPE_MAGIC = 4"
  by (simp add: ENVELOPE_MAGIC_def)

lemma length_envelope_header [simp]: "length (envelope_header e) = 48"
  by (simp add: envelope_header_def)

lemma length_signature_bytes [simp]: "length (signature_bytes e) = signature_len e"
  by (auto simp: signature_bytes_def signature_len_def)

lemma envelope_encode_iff:
  "envelope_encode e = Inr bs \<longleftrightarrow> envelope_ok e \<and> bs = envelope_header e @ e_body e @ signature_bytes e"
  by (auto simp: envelope_encode_def envelope_ok_def)

lemma envelope_encode_length: "envelope_encode e = Inr bs \<Longrightarrow> length bs = envelope_encoded_len e"
  by (auto simp: envelope_encode_iff envelope_encoded_len_def)

text \<open>The header field by field.\<close>

lemma envelope_header_slices:
  fixes e r
  defines "bs \<equiv> envelope_header e @ r"
  shows "slice 0 4 bs = ENVELOPE_MAGIC"
    and "slice 4 8 bs = [1, if e_signature e \<noteq> None then 1 else 0, class_code (e_class e), e_priority e]"
    and "slice 8 12 bs = to_be_bytes (e_source_id e)"
    and "slice 12 16 bs = to_be_bytes (e_epoch e)"
    and "slice 16 20 bs = to_be_bytes (e_message_id e)"
    and "slice 20 28 bs = to_be_bytes (e_logical_sequence e)"
    and "slice 28 30 bs = to_be_bytes (word_of_nat (length (e_body e)) :: u16)"
    and "slice 30 46 bs = to_be_bytes (e_state_hash e)"
    and "slice 46 48 bs = [word_of_nat (signature_len e), 0]"
  by (simp_all add: bs_def envelope_header_def slice_def)

lemma header_nth:
  assumes "48 \<le> length bs"
  shows "bs ! 4 = slice 4 8 bs ! 0" "bs ! 5 = slice 4 8 bs ! 1" "bs ! 6 = slice 4 8 bs ! 2"
    "bs ! 7 = slice 4 8 bs ! 3" "[bs ! 28, bs ! 29] = slice 28 30 bs"
    "bs ! 46 = slice 46 48 bs ! 0" "bs ! 47 = slice 46 48 bs ! 1" "take 4 bs = slice 0 4 bs"
  using assms by (simp_all add: slice_nth slice_def numeral_eq_Suc take_Suc_conv_app_nth)

lemma header_split:
  assumes "48 \<le> length bs"
  shows "slice 0 4 bs @ slice 4 8 bs @ slice 8 12 bs @ slice 12 16 bs @ slice 16 20 bs @ slice 20 28 bs
    @ slice 28 30 bs @ slice 30 46 bs @ slice 46 48 bs @ drop 48 bs = bs"
proof -
  have "drop a bs = slice a b bs @ drop b bs" if "a \<le> b" for a b
    using that append_take_drop_id[of "b - a" "drop a bs"] by (simp add: slice_def)
  from this[of 0 4] this[of 4 8] this[of 8 12] this[of 12 16] this[of 16 20] this[of 20 28]
    this[of 28 30] this[of 30 46] this[of 46 48]
  show ?thesis by simp
qed

lemma class_code_ok [simp]: "class_try_from (class_code c) = Inr c"
  by (cases c) (simp_all add: class_try_from_def)

lemma envelope_decode_encode:
  assumes ok: "envelope_ok e"
  shows "envelope_decode (envelope_header e @ e_body e @ signature_bytes e) = Inr e"
proof -
  let ?bs = "envelope_header e @ e_body e @ signature_bytes e" and ?n = "length (e_body e)"
  note sl = envelope_header_slices[of e "e_body e @ signature_bytes e"]
  have len: "length ?bs = 48 + ?n + signature_len e" by simp
  have n: "unat (word_of_nat ?n :: u16) = ?n" and s: "unat (word_of_nat (signature_len e) :: u8) = signature_len e"
    using ok by (auto simp: envelope_ok_iff signature_len_def unat_of_nat)
  have body: "slice 48 (48 + ?n) ?bs = e_body e" by (rule slice_field) simp_all
  have sig: "slice (48 + ?n) (48 + ?n + signature_len e) ?bs = signature_bytes e"
    using slice_field[of "envelope_header e @ e_body e" _ "signature_bytes e" _ "[]"] by simp
  have hash: "from_be_bytes (to_be_bytes (e_state_hash e)) = e_state_hash e" by (simp add: from_to_be_bytes)
  have nth: "?bs ! 4 = 1" "?bs ! 5 = (if e_signature e \<noteq> None then 1 else 0)" "?bs ! 6 = class_code (e_class e)"
    "?bs ! 7 = e_priority e" "[?bs ! 28, ?bs ! 29] = to_be_bytes (word_of_nat ?n :: u16)"
    "?bs ! 46 = word_of_nat (signature_len e)" "?bs ! 47 = 0" "take 4 ?bs = ENVELOPE_MAGIC"
    using len by (simp_all only: header_nth sl) (simp_all add: numeral_eq_Suc)
  have len': "48 \<le> length ?bs" "length ?bs \<le> 7680" using ok by (simp_all add: envelope_ok_iff)
  have valid: "envelope_validate e = Inr ()" using ok by (simp add: envelope_ok_def)
  show ?thesis
  proof (cases "e_signature e")
    case None
    then have slen: "signature_len e = 0" by (simp add: signature_len_def)
    have eta: "\<lparr> e_class = e_class e, e_priority = e_priority e, e_source_id = e_source_id e,
        e_epoch = e_epoch e, e_message_id = e_message_id e, e_logical_sequence = e_logical_sequence e,
        e_state_hash = e_state_hash e, e_body = e_body e, e_signature = None \<rparr> = e"
      using None by (cases e) simp
    show ?thesis
      unfolding envelope_decode_def Let_def nth sl
      using len' ok None slen by (simp add: envelope_ok_iff n body hash eta valid)
  next
    case (Some sg)
    then have slen: "signature_len e = 64" by (simp add: signature_len_def)
    have tail: "slice (48 + ?n) (112 + ?n) ?bs = to_be_bytes sg"
      using sig Some by (simp add: slen signature_bytes_def add.commute)
    have eta: "\<lparr> e_class = e_class e, e_priority = e_priority e, e_source_id = e_source_id e,
        e_epoch = e_epoch e, e_message_id = e_message_id e, e_logical_sequence = e_logical_sequence e,
        e_state_hash = e_state_hash e, e_body = e_body e, e_signature = Some sg \<rparr> = e"
      using Some by (cases e) simp
    show ?thesis
      unfolding envelope_decode_def Let_def nth sl
      using len' ok Some slen tail
      by (simp add: envelope_ok_iff n body hash eta valid from_to_be_bytes)
  qed
qed

lemma envelope_decode_InrD:
  assumes "envelope_decode bs = Inr e"
  shows "envelope_ok e \<and> bs = envelope_header e @ e_body e @ signature_bytes e"
proof -
  let ?n = "unat (from_be_bytes [bs ! 28, bs ! 29] :: u16)" and ?s = "unat (bs ! 46)"
  from assms have len: "48 \<le> length bs" "length bs = 48 + ?n + ?s"
    and magic: "take 4 bs = ENVELOPE_MAGIC" "bs ! 4 = 1" "bs ! 47 = 0"
    and auth: "bs ! 5 = 1 \<and> ?s = 64 \<or> bs ! 5 = 0 \<and> ?s = 0"
    and ok: "envelope_ok e"
    by (auto simp: envelope_decode_def Let_def envelope_ok_def split: if_splits)
  from assms obtain cl where cl: "class_try_from (bs ! 6) = Inr cl"
    and e: "e = \<lparr> e_class = cl, e_priority = bs ! 7, e_source_id = from_be_bytes (slice 8 12 bs),
      e_epoch = from_be_bytes (slice 12 16 bs), e_message_id = from_be_bytes (slice 16 20 bs),
      e_logical_sequence = from_be_bytes (slice 20 28 bs), e_state_hash = from_be_bytes (slice 30 46 bs),
      e_body = slice 48 (48 + ?n) bs,
      e_signature = (if bs ! 5 = 1 then Some (from_be_bytes (slice (48 + ?n) (48 + ?n + ?s) bs)) else None) \<rparr>"
    by (auto simp: envelope_decode_def Let_def split: if_splits)
  have slen: "signature_len e = ?s" using auth by (auto simp: e signature_len_def)
  have body: "length (e_body e) = ?n" using len by (simp add: e)
  have sig: "signature_bytes e = slice (48 + ?n) (48 + ?n + ?s) bs"
    using auth len by (auto simp: signature_bytes_def e to_from_be_bytes)
  have s4: "slice 4 8 bs = [bs ! 4, bs ! 5, bs ! 6, bs ! 7]" using slice_four[of 4 bs] len by simp
  have s46: "slice 46 48 bs = [bs ! 46, bs ! 47]" using slice_two[of 46 bs] len by simp
  have s28: "slice 28 30 bs = [bs ! 28, bs ! 29]" using slice_two[of 28 bs] len by simp
  have "envelope_header e = slice 0 4 bs @ slice 4 8 bs @ slice 8 12 bs @ slice 12 16 bs @ slice 16 20 bs
      @ slice 20 28 bs @ slice 28 30 bs @ slice 30 46 bs @ slice 46 48 bs"
    using len magic auth class_try_from_Inr[OF cl] slen body
    by (simp add: envelope_header_def s4 s46 s28) (auto simp: e to_from_be_bytes slice_def)
  moreover have "drop 48 bs = e_body e @ signature_bytes e"
    using len slice_split[of 48 "48 + ?n" "48 + ?n + ?s" bs] by (simp add: sig) (simp add: e slice_def)
  ultimately show ?thesis using ok header_split[OF len(1)] by simp
qed

interpretation envelope: wire_codec envelope_ok "\<lambda>e. e" envelope_encode envelope_decode
  using envelope_decode_encode envelope_decode_InrD
  by unfold_locales (auto simp: envelope_encode_iff)

lemma wrap_deltaD:
  assumes "wrap_delta d priority seq sig = Inr e"
  shows "unwrap_delta e = Inr (delta_norm d) \<and> envelope_ok e \<and> e_class e = StateDelta \<and> e_priority e = priority \<and>
    e_state_hash e = d_result_hash d \<and> e_signature e = sig \<and> delta_ok d"
proof -
  from assms obtain body where body: "delta_encode d = Inr body" and ok: "envelope_ok e"
    and e: "e = \<lparr> e_class = StateDelta, e_priority = priority, e_source_id = d_source_id d,
      e_epoch = d_epoch d, e_message_id = d_message_id d, e_logical_sequence = seq,
      e_state_hash = d_result_hash d, e_body = body, e_signature = sig \<rparr>"
    by (auto simp: wrap_delta_def Let_def envelope_ok_def split: sum.splits)
  have "unwrap_delta e = Inr (delta_norm d)"
    using delta.dec_enc[OF body] by (simp add: unwrap_delta_def e) (simp add: delta_norm_def)
  then show ?thesis using e ok body by (auto simp: delta_encode_iff)
qed

section \<open>Properties\<close>

text \<open>Envelopes are canonical: \<open>encode\<close> yields \<open>bs\<close> if and only if \<open>decode\<close> reads
  \<open>bs\<close> as the envelope, and every envelope that validates encodes, into \<open>encoded_len\<close>
  bytes.\<close>

theorem envelope_roundtrip:
  "(envelope_encode e = Inr bs \<longleftrightarrow> envelope_decode bs = Inr e) \<and>
   (envelope_validate e' = Inr () \<longleftrightarrow>
     (\<exists>bs'. envelope_encode e' = Inr bs' \<and> length bs' = envelope_encoded_len e'))"
  using envelope.dec_enc envelope.enc_dec envelope_encode_length[of e']
  by (auto simp: envelope_encode_iff envelope_ok_def)

text \<open>A delta comes out of its envelope unchanged up to canonical order, and only a body
  that agrees with the identity fields of the envelope comes out at all.\<close>

theorem unwrap_wrap:
  assumes "wrap_delta d priority seq sig = Inr e"
  shows "unwrap_delta e = Inr (delta_norm d) \<and>
    (\<forall>e' d'. unwrap_delta e' = Inr d' \<longrightarrow> e_class e' = StateDelta \<and> d_source_id d' = e_source_id e' \<and>
       d_epoch d' = e_epoch e' \<and> d_message_id d' = e_message_id e' \<and> d_result_hash d' = e_state_hash e')"
proof (intro conjI)
  show "unwrap_delta e = Inr (delta_norm d)" using wrap_deltaD[OF assms] by blast
  show "\<forall>e' d'. unwrap_delta e' = Inr d' \<longrightarrow> e_class e' = StateDelta \<and> d_source_id d' = e_source_id e' \<and>
      d_epoch d' = e_epoch e' \<and> d_message_id d' = e_message_id e' \<and> d_result_hash d' = e_state_hash e'"
    by (auto simp: unwrap_delta_def split: if_splits)
qed

theorem unwrap_wrap_witness:
  "\<exists>e. wrap_delta demo_delta 5 77 None = Inr e \<and> unwrap_delta e = Inr (delta_norm demo_delta)"
proof -
  have "length (delta_bytes demo_delta) \<le> 3444" using delta_bytes_length[OF demo_delta_ok] by simp
  then obtain e where "wrap_delta demo_delta 5 77 None = Inr e"
    using demo_delta_ok
    by (auto simp: wrap_delta_def Let_def delta_encode_iff[of demo_delta, THEN iffD2] envelope_validate_def
        signature_len_def not_less)
  then show ?thesis using unwrap_wrap by blast
qed

text \<open>What a signature covers: the encoding without its last 64 bytes, the same for every
  signature, and it determines all other fields of the envelope.\<close>

theorem authentication_covers:
  assumes "authentication_bytes e = Inr bs"
  shows "authentication_bytes (e\<lparr> e_signature := Some sig \<rparr>) = Inr bs \<and>
    (\<forall>e'. authentication_bytes e' = Inr bs \<longrightarrow> e\<lparr> e_signature := Some sig \<rparr> = e'\<lparr> e_signature := Some sig \<rparr>)"
proof -
  have auth: "authentication_bytes x = Inr bs \<longleftrightarrow>
      e_signature x \<noteq> None \<and> envelope_ok x \<and> bs = envelope_header x @ e_body x" for x
    by (auto simp: authentication_bytes_def envelope_encode_iff signature_len_def)
  have resign: "envelope_header (x\<lparr> e_signature := Some sig \<rparr>) = envelope_header x"
      "envelope_ok (x\<lparr> e_signature := Some sig \<rparr>) \<longleftrightarrow> envelope_ok x"
    if "e_signature x \<noteq> None" for x
    using that by (auto simp: envelope_header_def signature_len_def envelope_ok_iff)
  have "e\<lparr> e_signature := Some sig \<rparr> = e'\<lparr> e_signature := Some sig \<rparr>" if "authentication_bytes e' = Inr bs" for e'
  proof (rule Inr_inject)
    have enc: "envelope_encode (x\<lparr> e_signature := Some sig \<rparr>) = Inr (bs @ to_be_bytes sig)"
      if "authentication_bytes x = Inr bs" for x
      using that resign[of x] by (auto simp: envelope_encode_iff auth signature_bytes_def)
    show "Inr (e\<lparr> e_signature := Some sig \<rparr>) = (Inr (e'\<lparr> e_signature := Some sig \<rparr>) :: air_error + _)"
      using envelope.dec_enc[OF enc[OF assms]] envelope.dec_enc[OF enc[OF that]] by simp
  qed
  moreover have "authentication_bytes (e\<lparr> e_signature := Some sig \<rparr>) = Inr bs"
    using assms resign[of e] unfolding auth by simp
  ultimately show ?thesis by blast
qed

definition demo_envelope :: semantic_envelope where
  "demo_envelope = \<lparr> e_class = StateDelta, e_priority = 1, e_source_id = 1, e_epoch = 2, e_message_id = 3,
     e_logical_sequence = 4, e_state_hash = 0, e_body = [1, 2], e_signature = Some 0x5a \<rparr>"

theorem authentication_covers_witness:
  "\<exists>bs. authentication_bytes demo_envelope = Inr bs \<and>
     authentication_bytes (demo_envelope\<lparr> e_signature := Some 0x5b \<rparr>) = Inr bs"
proof -
  obtain bs where "authentication_bytes demo_envelope = Inr bs"
    by (simp add: authentication_bytes_def envelope_encode_def envelope_validate_def signature_len_def
        demo_envelope_def)
  then show ?thesis using authentication_covers by blast
qed

end
