(* ===== verification/Air_Link.thy ===== *)
theory Air_Link
  imports Air_Modem Fragment Envelope
begin

text \<open>
  \<open>latentmesh-air-radio/src/config.rs\<close> and \<open>transmitter.rs\<close>: the link profiles and the
  transmitter, a bounded queue of frames that is drained through the link's modulation.
\<close>

section \<open>Link configuration\<close>

datatype modulation =
    ByteTransport
  | Bpsk bpsk_config
  | Cpfsk cpfsk_config

record link_config =
  lc_profile :: wire_profile
  lc_frame_mtu :: nat
  lc_flags :: frame_flags
  lc_interleaver_columns :: nat
  lc_modulation :: modulation

definition cpfsk_link :: "wire_profile \<Rightarrow> nat \<Rightarrow> nat \<Rightarrow> u32 \<Rightarrow> u32 \<Rightarrow> u32 \<Rightarrow> u32 \<Rightarrow> f32 \<Rightarrow> link_config" where
  "cpfsk_link profile mtu columns sample_rate symbol_rate mark space amplitude =
     \<lparr> lc_profile = profile, lc_frame_mtu = mtu, lc_flags = FEC, lc_interleaver_columns = columns,
       lc_modulation = Cpfsk \<lparr> cp_sample_rate = sample_rate, cp_symbol_rate = symbol_rate,
         cp_mark_hz = mark, cp_space_hz = space, cp_amplitude = amplitude \<rparr> \<rparr>"

definition byte_link :: "wire_profile \<Rightarrow> nat \<Rightarrow> link_config" where
  "byte_link profile mtu =
     \<lparr> lc_profile = profile, lc_frame_mtu = mtu, lc_flags = FLAGS_NONE, lc_interleaver_columns = 1,
       lc_modulation = ByteTransport \<rparr>"

fun for_profile :: "wire_profile \<Rightarrow> link_config" where
  "for_profile Wifi = byte_link Wifi 256"
| "for_profile Ble = byte_link Ble 128"
| "for_profile HfBpsk =
     \<lparr> lc_profile = HfBpsk, lc_frame_mtu = 64, lc_flags = FEC, lc_interleaver_columns = 17,
       lc_modulation = Bpsk \<lparr> bp_samples_per_symbol = 160, bp_amplitude = f32_of (8 / 10) \<rparr> \<rparr>"
| "for_profile HfAfsk = cpfsk_link HfAfsk 64 17 8000 100 1500 1700 (f32_of (8 / 10))"
| "for_profile VhfAfsk = cpfsk_link VhfAfsk 128 23 48000 1200 1200 2200 (f32_of (8 / 10))"
| "for_profile HamPacket = cpfsk_link HamPacket 128 23 48000 1200 1200 2200 (f32_of (8 / 10))"
| "for_profile VhfCpfsk = cpfsk_link VhfCpfsk 128 23 48000 2400 6000 4800 (f32_of (8 / 10))"
| "for_profile AmAudio = cpfsk_link AmAudio 64 17 8000 100 1000 1300 (f32_of (7 / 10))"
| "for_profile FmAudio = cpfsk_link FmAudio 128 23 48000 1200 1200 2200 (f32_of (8 / 10))"
| "for_profile Meshtastic = byte_link Meshtastic 227"

definition link_validate :: "link_config \<Rightarrow> unit air_result" where
  "link_validate l =
     (if \<not> (16 \<le> lc_frame_mtu l \<and> lc_frame_mtu l \<le> FRAME_MAX_BYTES)
        \<or> lc_interleaver_columns l = 0 \<or> lc_interleaver_columns l > 256
      then Inl InvalidLength
      else if \<not> flags_contains (lc_flags l) FEC \<and> lc_modulation l \<noteq> ByteTransport then Inl InvalidFlags
      else case lc_modulation l of
        ByteTransport \<Rightarrow> Inr ()
      | Bpsk config \<Rightarrow> bpsk_validate config
      | Cpfsk config \<Rightarrow> cpfsk_validate config)"

section \<open>The transmitter\<close>

record transmitter_config =
  tc_link :: link_config
  tc_initial_sequence :: u16
  tc_initial_logical_sequence :: u64
  tc_max_queued_frames :: nat

definition transmitter_config_for_link :: "link_config \<Rightarrow> transmitter_config" where
  "transmitter_config_for_link link =
     \<lparr> tc_link = link, tc_initial_sequence = 0, tc_initial_logical_sequence = 0, tc_max_queued_frames = 64 \<rparr>"

datatype transmitter_state = Idle | Ready nat

datatype transmission =
    TxBytes sparse_radio_frame bytes
  | TxIq sparse_radio_frame "iq_sample list"
  | TxPcm sparse_radio_frame "i16 list"

record air_transmitter =
  tx_config :: transmitter_config
  tx_next_sequence :: u16
  tx_next_logical_sequence :: u64
  tx_queue :: "sparse_radio_frame list"

definition transmitter_new :: "transmitter_config \<Rightarrow> air_transmitter air_result" where
  "transmitter_new config =
     rbind (link_validate (tc_link config)) (\<lambda>_.
       if tc_max_queued_frames config = 0 \<or> tc_max_queued_frames config > 1024 then Inl InvalidLength
       else Inr \<lparr> tx_config = config, tx_next_sequence = tc_initial_sequence config,
         tx_next_logical_sequence = tc_initial_logical_sequence config, tx_queue = [] \<rparr>)"

definition transmitter_state :: "air_transmitter \<Rightarrow> transmitter_state" where
  "transmitter_state t = (if tx_queue t = [] then Idle else Ready (length (tx_queue t)))"

definition message_meta ::
  "air_transmitter \<Rightarrow> u16 \<Rightarrow> semantic_class \<Rightarrow> u8 \<Rightarrow> u16 \<Rightarrow> frame_flags \<Rightarrow> fragment_meta" where
  "message_meta t stream_id class priority state_tag flags =
     \<lparr> m_profile = lc_profile (tc_link (tx_config t)), m_flags = flags, m_stream_id = stream_id,
       m_sequence = tx_next_sequence t, m_class = class, m_priority = priority, m_state_tag = state_tag \<rparr>"

definition enqueue_message_with_flags ::
  "air_transmitter \<Rightarrow> u16 \<Rightarrow> semantic_class \<Rightarrow> u8 \<Rightarrow> u16 \<Rightarrow> bytes \<Rightarrow> frame_flags \<Rightarrow>
   air_transmitter \<times> u16 air_result" where
  "enqueue_message_with_flags t stream_id class priority state_tag message flags =
     (case fragment_message (message_meta t stream_id class priority state_tag flags) message
         (lc_frame_mtu (tc_link (tx_config t))) of
        Inl e \<Rightarrow> (t, Inl e)
      | Inr frames \<Rightarrow>
          let new_len = length (tx_queue t) + length frames in
          if new_len \<ge> 2 ^ 64 then (t, Inl LimitExceeded)
          else if new_len > tc_max_queued_frames (tx_config t) then (t, Inl LimitExceeded)
          else (t\<lparr> tx_queue := tx_queue t @ frames, tx_next_sequence := tx_next_sequence t + 1 \<rparr>,
                Inr (tx_next_sequence t)))"

definition enqueue_message ::
  "air_transmitter \<Rightarrow> u16 \<Rightarrow> semantic_class \<Rightarrow> u8 \<Rightarrow> u16 \<Rightarrow> bytes \<Rightarrow> air_transmitter \<times> u16 air_result" where
  "enqueue_message t stream_id class priority state_tag message =
     enqueue_message_with_flags t stream_id class priority state_tag message (lc_flags (tc_link (tx_config t)))"

definition enqueue_delta_with_signature ::
  "air_transmitter \<Rightarrow> u16 \<Rightarrow> semantic_delta \<Rightarrow> u8 \<Rightarrow> signature option \<Rightarrow> air_transmitter \<times> u16 air_result" where
  "enqueue_delta_with_signature t stream_id delta priority signature =
     (case rbind (wrap_delta delta priority (tx_next_logical_sequence t) signature) (\<lambda>envelope.
         rbind (envelope_encode envelope) (\<lambda>encoded. Inr (envelope, encoded))) of
        Inl e \<Rightarrow> (t, Inl e)
      | Inr (envelope, encoded) \<Rightarrow>
          let flags = (if e_signature envelope \<noteq> None
              then flags_union (lc_flags (tc_link (tx_config t))) SIGNED_ENVELOPE
              else lc_flags (tc_link (tx_config t)));
            (t', out) = enqueue_message_with_flags t stream_id StateDelta priority
              (state_hash_tag (to_be_bytes (d_result_hash delta))) encoded flags
          in case out of
            Inl e \<Rightarrow> (t', Inl e)
          | Inr sequence \<Rightarrow>
              (t'\<lparr> tx_next_logical_sequence := tx_next_logical_sequence t' + 1 \<rparr>, Inr sequence))"

definition enqueue_delta ::
  "air_transmitter \<Rightarrow> u16 \<Rightarrow> semantic_delta \<Rightarrow> u8 \<Rightarrow> air_transmitter \<times> u16 air_result" where
  "enqueue_delta t stream_id delta priority = enqueue_delta_with_signature t stream_id delta priority None"

definition next_frame :: "air_transmitter \<Rightarrow> air_transmitter \<times> sparse_radio_frame option" where
  "next_frame t = (case tx_queue t of [] \<Rightarrow> (t, None) | f # fs \<Rightarrow> (t\<lparr> tx_queue := fs \<rparr>, Some f))"

definition modulate_frame :: "libm \<Rightarrow> link_config \<Rightarrow> sparse_radio_frame \<Rightarrow> bytes \<Rightarrow> transmission air_result" where
  "modulate_frame L link frame frame_bytes =
     (case lc_modulation link of
        ByteTransport \<Rightarrow> Inr (TxBytes frame frame_bytes)
      | Bpsk config \<Rightarrow>
          rbind (burst_codec_new (lc_interleaver_columns link)) (\<lambda>codec.
          rbind (burst_encode codec frame_bytes) (\<lambda>bits.
          rbind (bpsk_new config) (\<lambda>modem.
          rbind (bpsk_modulate modem bits) (\<lambda>samples. Inr (TxIq frame samples)))))
      | Cpfsk config \<Rightarrow>
          rbind (burst_codec_new (lc_interleaver_columns link)) (\<lambda>codec.
          rbind (burst_encode codec frame_bytes) (\<lambda>bits.
          rbind (cpfsk_new config) (\<lambda>modem.
          rbind (cpfsk_modulate L modem bits) (\<lambda>samples. Inr (TxPcm frame samples))))))"

definition next_transmission :: "libm \<Rightarrow> air_transmitter \<Rightarrow> air_transmitter \<times> transmission option air_result" where
  "next_transmission L t =
     (case next_frame t of
        (t', None) \<Rightarrow> (t', Inr None)
      | (t', Some frame) \<Rightarrow>
          (t', rbind (frame_encode frame) (\<lambda>frame_bytes.
            rbind (modulate_frame L (tc_link (tx_config t)) frame frame_bytes) (\<lambda>tx. Inr (Some tx)))))"

section \<open>Every profile is a valid link\<close>

lemma profile_amplitudes:
  "f32_of (8 / 10) = Fin False (13421773 / 16777216)" "f32_of (7 / 10) = Fin False (11744051 / 16777216)"
  by code_simp+

lemma for_profile_valid: "link_validate (for_profile p) = Inr () \<and> lc_profile (for_profile p) = p"
  by (cases p)
    (simp_all only: for_profile.simps profile_amplitudes,
     simp_all add: link_validate_def byte_link_def cpfsk_link_def flags_contains_def FEC_def FLAGS_NONE_def
       bpsk_validate_def cpfsk_validate_def amplitude_ok_def cpfsk_samples_per_symbol_def saturating_double_def)

text \<open>Adding the signature flag to a valid flag byte keeps it valid.\<close>

lemma flags_union_valid:
  "flag_bits a AND 0x0f = 0 \<Longrightarrow> flag_bits b AND 0x0f = 0 \<Longrightarrow> flag_bits (flags_union a b) AND 0x0f = 0"
  by (simp add: flags_union_def bit.conj_disj_distrib2)

section \<open>The queue\<close>

text \<open>Invariant: never more frames than configured, and every queued frame encodes within the link's
  frame size.\<close>

definition link_flags_ok :: "link_config \<Rightarrow> bool" where
  "link_flags_ok l \<longleftrightarrow> flag_bits (lc_flags l) AND 0x0f = 0"

definition transmitter_inv :: "air_transmitter \<Rightarrow> bool" where
  "transmitter_inv t \<longleftrightarrow> length (tx_queue t) \<le> tc_max_queued_frames (tx_config t) \<and>
     tc_max_queued_frames (tx_config t) \<le> 1024 \<and> link_validate (tc_link (tx_config t)) = Inr () \<and>
     link_flags_ok (tc_link (tx_config t)) \<and>
     (\<forall>f\<in>set (tx_queue t). f_priority f \<le> 15 \<longrightarrow>
       (\<exists>bs. frame_encode f = Inr bs \<and> length bs \<le> lc_frame_mtu (tc_link (tx_config t))))"

end
