(* ===== verification/Air_Assist.thy ===== *)
theory Air_Assist
  imports Air_Modem
begin

text \<open>
  \<open>latentmesh-air-radio/src/assist.rs\<close>: the four-by-four-by-one online neural assist of the
  demodulator, in binary32 arithmetic; \<open>tanhf\<close> of the crate \<open>libm\<close> is a parameter. An array
  is a list.
\<close>

abbreviation (input) MIN_VERIFIED_SAMPLES :: nat where "MIN_VERIFIED_SAMPLES \<equiv> 32"

record assist_observation =
  ao_energy :: f32
  ao_noise :: f32
  ao_frequency_error :: f32

record assist_decision =
  ad_llr :: i8
  ad_used_neural :: bool
  ad_confidence :: f32

record tiny_neural_assist =
  na_w1 :: "f32 list list"
  na_b1 :: "f32 list"
  na_w2 :: "f32 list"
  na_b2 :: f32
  na_threshold :: f32
  na_verified_samples :: u32

definition assist_default :: tiny_neural_assist where
  "assist_default =
     \<lparr> na_w1 = [[f_one, f_zero, f_zero, f_zero], [f_zero, f32_of (1/2), f32_of (-1/2), f_zero],
         [f_zero, f_zero, f_zero, f32_of (1/2)], [f32_of (1/4), f32_of (1/4), f32_of (-1/4), f_zero]],
       na_b1 = [f_zero, f_zero, f_zero, f_zero],
       na_w2 = [f32_of (8/10), f32_of (1/10), f32_of (1/10), f32_of (2/10)],
       na_b2 = f_zero, na_threshold = f32_of (72/100), na_verified_samples = 0 \<rparr>"

definition assist_new :: "f32 \<Rightarrow> tiny_neural_assist air_result" where
  "assist_new threshold =
     (if \<not> fp_is_finite threshold \<or> \<not> (fp_le (f32_of (5/10)) threshold \<and> fp_le threshold (f32_of (99/100)))
      then Inl InvalidLength else Inr (assist_default\<lparr> na_threshold := threshold \<rparr>))"

definition finite_clamp :: "f32 \<Rightarrow> f32 \<Rightarrow> f32 \<Rightarrow> f32" where
  "finite_clamp v minimum maximum = (if fp_is_finite v then fp_clamp v minimum maximum else f_zero)"

definition bounded :: "f32 \<Rightarrow> f32" where
  "bounded v = finite_clamp v (f32_of (- 4)) (f32_of 4)"

definition i8_as_f32 :: "i8 \<Rightarrow> f32" where
  "i8_as_f32 w = f32_of (of_int (sint w))"

definition normalized_inputs :: "i8 \<Rightarrow> assist_observation \<Rightarrow> f32 list" where
  "normalized_inputs classical_llr observation =
     [f_div (i8_as_f32 classical_llr) (f32_of 127), finite_clamp (ao_energy observation) f_zero f_one,
      finite_clamp (ao_noise observation) f_zero f_one,
      finite_clamp (ao_frequency_error observation) (f32_of (- 1)) f_one]"

definition weighted_sum :: "f32 \<Rightarrow> f32 list \<Rightarrow> f32 list \<Rightarrow> f32" where
  "weighted_sum bias weights inputs = foldl (\<lambda>acc (weight, input). f_add acc (f_mul weight input)) bias (zip weights inputs)"

definition forward_values ::
  "libm \<Rightarrow> f32 list list \<Rightarrow> f32 list \<Rightarrow> f32 list \<Rightarrow> f32 \<Rightarrow> f32 list \<Rightarrow> f32 list \<times> f32" where
  "forward_values L w1 b1 w2 b2 inputs =
     (let hidden = map (\<lambda>(bias, weights). tanhf L (weighted_sum bias weights inputs)) (zip b1 w1)
      in (hidden, tanhf L (weighted_sum b2 w2 hidden)))"

definition assist_forward :: "libm \<Rightarrow> tiny_neural_assist \<Rightarrow> i8 \<Rightarrow> assist_observation \<Rightarrow> f32 list \<times> f32" where
  "assist_forward L a classical_llr observation =
     forward_values L (na_w1 a) (na_b1 a) (na_w2 a) (na_b2 a) (normalized_inputs classical_llr observation)"

text \<open>\<open>unsigned_abs\<close> of an \<open>i8\<close>.\<close>

definition unsigned_abs :: "i8 \<Rightarrow> nat" where
  "unsigned_abs w = nat \<bar>sint w\<bar>"

definition assist_refine :: "libm \<Rightarrow> tiny_neural_assist \<Rightarrow> i8 \<Rightarrow> assist_observation \<Rightarrow> assist_decision" where
  "assist_refine L a classical_llr observation =
     (let prediction = snd (assist_forward L a classical_llr observation); confidence = fp_abs prediction in
      if unat (na_verified_samples a) < MIN_VERIFIED_SAMPLES \<or> fp_lt confidence (na_threshold a)
        \<or> unsigned_abs classical_llr \<ge> 100
      then \<lparr> ad_llr = classical_llr, ad_used_neural = False, ad_confidence = confidence \<rparr>
      else
        let neural_llr = fp_clamp (f_mul prediction (f32_of 127)) (f32_of (- 127)) (f32_of 127);
            blended = f_add (f_mul (f32_of (6/10)) (i8_as_f32 classical_llr)) (f_mul (f32_of (4/10)) neural_llr)
        in \<lparr> ad_llr = fp_as_i8 (fp_clamp blended (f32_of (- 127)) (f32_of 127)), ad_used_neural = True,
             ad_confidence = confidence \<rparr>)"

definition refine_batch ::
  "libm \<Rightarrow> tiny_neural_assist \<Rightarrow> i8 list \<Rightarrow> assist_observation list \<Rightarrow> i8 list air_result" where
  "refine_batch L a classical_llrs observations =
     (if length classical_llrs \<noteq> length observations then Inl InvalidLength
      else Inr (map (\<lambda>(llr, observation). ad_llr (assist_refine L a llr observation)) (zip classical_llrs observations)))"

text \<open>One bounded gradient step on a weight or a bias.\<close>

definition nudge :: "f32 \<Rightarrow> f32 \<Rightarrow> f32" where
  "nudge w delta = bounded (f_add w delta)"

definition train_verified ::
  "libm \<Rightarrow> tiny_neural_assist \<Rightarrow> i8 \<Rightarrow> assist_observation \<Rightarrow> u8 \<Rightarrow> f32 \<Rightarrow> tiny_neural_assist \<times> unit air_result" where
  "train_verified L a classical_llr observation expected_bit learning_rate =
     (if expected_bit > 1 \<or> \<not> fp_is_finite learning_rate
        \<or> \<not> (fp_le (f32_of (1/10000)) learning_rate \<and> fp_le learning_rate (f32_of (1/10)))
      then (a, Inl InvalidLength)
      else
        let inputs = normalized_inputs classical_llr observation;
            (hidden, prediction) = forward_values L (na_w1 a) (na_b1 a) (na_w2 a) (na_b2 a) inputs;
            target = if expected_bit = 1 then f_one else f32_of (- 1);
            output_gradient = f_mul (f_sub target prediction) (f_sub f_one (f_mul prediction prediction));
            gradients = map (\<lambda>(old, h). f_mul (f_mul output_gradient old) (f_sub f_one (f_mul h h))) (zip (na_w2 a) hidden);
            w2 = map (\<lambda>(w, h). nudge w (f_mul (f_mul learning_rate output_gradient) h)) (zip (na_w2 a) hidden);
            b2 = nudge (na_b2 a) (f_mul learning_rate output_gradient);
            w1 = map (\<lambda>(row, g). map (\<lambda>(w, input). nudge w (f_mul (f_mul learning_rate g) input)) (zip row inputs))
              (zip (na_w1 a) gradients);
            b1 = map (\<lambda>(b, g). nudge b (f_mul learning_rate g)) (zip (na_b1 a) gradients)
        in (a\<lparr> na_w1 := w1, na_b1 := b1, na_w2 := w2, na_b2 := b2,
               na_verified_samples := (if na_verified_samples a = - 1 then - 1 else na_verified_samples a + 1) \<rparr>, Inr ()))"

section \<open>Invariant\<close>

text \<open>Every parameter is finite and within \<open>[-4, 4]\<close>, whatever the training data, and the arrays keep
  their shape.\<close>

definition weight_ok :: "f32 \<Rightarrow> bool" where
  "weight_ok w \<longleftrightarrow> fp_is_finite w \<and> \<bar>fp_value w\<bar> \<le> 4"

definition assist_inv :: "tiny_neural_assist \<Rightarrow> bool" where
  "assist_inv a \<longleftrightarrow> length (na_w1 a) = 4 \<and> (\<forall>row\<in>set (na_w1 a). length row = 4 \<and> list_all weight_ok row) \<and>
     length (na_b1 a) = 4 \<and> list_all weight_ok (na_b1 a) \<and> length (na_w2 a) = 4 \<and> list_all weight_ok (na_w2 a) \<and>
     weight_ok (na_b2 a)"

lemma four: "f32_of 4 = Fin False 4" "f32_of (- 4) = Fin True 4"
  by code_simp+

lemma bounded_ok [simp]: "weight_ok (bounded v)"
  by (cases v) (auto simp: weight_ok_def bounded_def finite_clamp_def fp_clamp_def four Let_def)

lemma nudge_ok [simp]: "weight_ok (nudge w d)"
  by (simp add: nudge_def)

lemma default_weights:
  "f32_of (1/2) = Fin False (1/2)" "f32_of (-1/2) = Fin True (1/2)" "f32_of (1/4) = Fin False (1/4)"
  "f32_of (-1/4) = Fin True (1/4)" "f32_of (8/10) = Fin False (13421773 / 16777216)"
  "f32_of (1/10) = Fin False (13421773 / 134217728)" "f32_of (2/10) = Fin False (13421773 / 67108864)"
  by code_simp+

lemma default_inv: "assist_inv assist_default"
  by (simp add: assist_inv_def assist_default_def weight_ok_def default_weights default_weights[simplified])

lemma new_inv: "assist_new threshold = Inr a \<Longrightarrow> assist_inv a"
  using default_inv by (auto simp: assist_new_def assist_inv_def split: if_splits)

lemma length_forward [simp]: "length (fst (forward_values L w1 b1 w2 b2 inputs)) = min (length b1) (length w1)"
  by (simp add: forward_values_def Let_def)

lemma length_inputs [simp]: "length (normalized_inputs l obs) = 4"
  by (simp add: normalized_inputs_def)

lemma train_inv: "assist_inv a \<Longrightarrow> assist_inv (fst (train_verified L a llr obs expected rate))"
  by (auto simp: assist_inv_def train_verified_def Let_def case_prod_beta list_all_iff dest!: set_zip_leftD)

type_synonym training = "i8 \<times> assist_observation \<times> u8 \<times> f32"

definition train_step :: "libm \<Rightarrow> tiny_neural_assist \<Rightarrow> training \<Rightarrow> tiny_neural_assist \<times> unit air_result" where
  "train_step L a = (\<lambda>(llr, obs, expected, rate). train_verified L a llr obs expected rate)"

interpretation assist: machine assist_inv "train_step L" for L
  by unfold_locales (simp add: train_step_def train_inv split: prod.split)

section \<open>Classical fallback\<close>

lemma verified_samples_step:
  "train_verified L a llr obs expected rate = (a', out) \<Longrightarrow>
   unat (na_verified_samples a') \<le> unat (na_verified_samples a) + (if is_ok out then 1 else 0)"
  by (auto simp: train_verified_def Let_def case_prod_beta unat_word_ariths split: if_splits)

lemma verified_samples_run:
  "unat (na_verified_samples (fst (run_machine (train_step L) a ts))) \<le>
     unat (na_verified_samples a) + length (filter is_ok (snd (run_machine (train_step L) a ts)))"
proof (induction ts arbitrary: a)
  case (Cons t ts)
  obtain a' out where step: "train_step L a t = (a', out)" by fastforce
  then have "unat (na_verified_samples a') \<le> unat (na_verified_samples a) + (if is_ok out then 1 else 0)"
    using verified_samples_step[of L a _ _ _ _ a' out] by (cases t) (simp add: train_step_def)
  then show ?case using Cons.IH[of a'] step by (auto simp: Let_def case_prod_beta)
qed simp

lemma refine_fallback: "unat (na_verified_samples a) < 32 \<Longrightarrow> ad_llr (assist_refine L a llr obs) = llr"
  by (simp add: assist_refine_def Let_def)

lemma refine_batch_fallback:
  "unat (na_verified_samples a) < 32 \<Longrightarrow> length llrs = length obs \<Longrightarrow> refine_batch L a llrs obs = Inr llrs"
  by (simp add: refine_batch_def refine_fallback case_prod_beta' flip: map_map[unfolded comp_def])

section \<open>Properties\<close>

text \<open>The neural assist stays subordinate: starting from the default weights, however it has been
  trained, every weight stays finite and within [-4, 4], and until 32 trainings have succeeded a batch
  is returned unchanged, whatever the observations and whatever \<open>tanhf\<close> computes.\<close>

theorem assist_subordinate:
  assumes "(a, outs) = run_machine (train_step L) assist_default trainings"
    and "length (filter is_ok outs) < 32" and "length llrs = length observations"
  shows "refine_batch L a llrs observations = Inr llrs \<and> assist_inv a"
proof -
  have "unat (na_verified_samples a) < 32"
    using verified_samples_run[of L assist_default trainings] assms(1)[symmetric] assms(2)
    by (simp add: assist_default_def)
  moreover have "assist_inv a" using assist.run_inv[OF default_inv, of L trainings] assms(1) by (metis fst_conv)
  ultimately show ?thesis using refine_batch_fallback[OF _ assms(3)] by blast
qed

definition demo_libm :: libm where
  "demo_libm = \<lparr> sinf = (\<lambda>x. f_zero), cosf = (\<lambda>x. f_one), tanhf = (\<lambda>x. x), powf = (\<lambda>x y. f_one), sqrtf = (\<lambda>x. f_one) \<rparr>"

theorem assist_subordinate_witness:
  "refine_batch demo_libm assist_default [40, - 3] [\<lparr> ao_energy = f_one, ao_noise = f_zero, ao_frequency_error = NaN \<rparr>,
     \<lparr> ao_energy = Inf False, ao_noise = f_zero, ao_frequency_error = f_zero \<rparr>] = Inr [40, - 3]"
  using assist_subordinate[of assist_default "[]" demo_libm "[]" "[40, - 3]"] by simp

end
