(* ===== verification/Replay_Window.thy ===== *)
theory Replay_Window
  imports Air_Error
begin

text \<open>
  \<open>latentmesh-air-core/src/replay.rs\<close>: the 64-entry anti-replay window over wrapping
  16-bit sequence numbers. The abstract window works on unbounded integers and keeps the
  set of numbers seen; the bitmap implements it as long as every number lies within half
  the sequence space of the highest one.
\<close>

section \<open>The window\<close>

datatype replay_decision = Accept | Duplicate | Too_Old

record replay_window =
  rw_initialized :: bool
  rw_highest :: u16
  rw_bitmap :: u64

definition replay_new :: replay_window where
  "replay_new = \<lparr> rw_initialized = False, rw_highest = 0, rw_bitmap = 0 \<rparr>"

definition replay_classify :: "replay_window \<Rightarrow> u16 \<Rightarrow> replay_decision" where
  "replay_classify w sequence =
     (if \<not> rw_initialized w then Accept
      else let forward = sequence - rw_highest w in
        if forward \<noteq> 0 \<and> forward < 0x8000 then Accept
        else if forward = 0 then Duplicate
        else let behind = rw_highest w - sequence in
          if behind \<ge> 64 then Too_Old
          else if rw_bitmap w AND push_bit (unat behind) 1 \<noteq> 0 then Duplicate
          else Accept)"

definition replay_commit :: "replay_window \<Rightarrow> u16 \<Rightarrow> replay_window \<times> unit air_result" where
  "replay_commit w sequence =
     (case replay_classify w sequence of
        Duplicate \<Rightarrow> (w, Inl Replay)
      | Too_Old \<Rightarrow> (w, Inl TooOld)
      | Accept \<Rightarrow>
          if \<not> rw_initialized w
          then (w\<lparr> rw_initialized := True, rw_highest := sequence, rw_bitmap := 1 \<rparr>, Inr ())
          else let forward = sequence - rw_highest w in
            if forward \<noteq> 0 \<and> forward < 0x8000
            then (w\<lparr> rw_bitmap := (if forward \<ge> 64 then 1
                                   else push_bit (unat forward) (rw_bitmap w) OR 1),
                     rw_highest := sequence \<rparr>, Inr ())
            else let behind = rw_highest w - sequence in
              (w\<lparr> rw_bitmap := rw_bitmap w OR push_bit (unat behind) 1 \<rparr>, Inr ()))"

definition replay_highest :: "replay_window \<Rightarrow> u16 option" where
  "replay_highest w = (if rw_initialized w then Some (rw_highest w) else None)"

section \<open>The abstract window\<close>

text \<open>\<open>Some (H, S)\<close>: \<open>H\<close> is the highest number committed, \<open>S\<close> the numbers committed.\<close>

type_synonym abs_window = "(int \<times> int set) option"

fun abs_classify :: "abs_window \<Rightarrow> int \<Rightarrow> replay_decision" where
  "abs_classify None n = Accept"
| "abs_classify (Some (H, S)) n =
     (if n > H then Accept else if H - n \<ge> 64 then Too_Old
      else if n \<in> S then Duplicate else Accept)"

fun abs_insert :: "abs_window \<Rightarrow> int \<Rightarrow> abs_window" where
  "abs_insert None n = Some (n, {n})"
| "abs_insert (Some (H, S)) n = Some (max H n, insert n S)"

definition abs_commit :: "abs_window \<Rightarrow> int \<Rightarrow> abs_window \<times> unit air_result" where
  "abs_commit a n =
     (case abs_classify a n of
        Duplicate \<Rightarrow> (a, Inl Replay)
      | Too_Old \<Rightarrow> (a, Inl TooOld)
      | Accept \<Rightarrow> (abs_insert a n, Inr ()))"

text \<open>Every number lies within half the sequence space of the highest before it.\<close>

fun in_half :: "int option \<Rightarrow> int \<Rightarrow> bool" where
  "in_half None n \<longleftrightarrow> True"
| "in_half (Some H) n \<longleftrightarrow> H - 2 ^ 15 \<le> n \<and> n < H + 2 ^ 15"

fun next_high :: "int option \<Rightarrow> int \<Rightarrow> int option" where
  "next_high None n = Some n"
| "next_high (Some H) n = Some (max H n)"

fun in_half_run :: "int option \<Rightarrow> int list \<Rightarrow> bool" where
  "in_half_run h [] \<longleftrightarrow> True"
| "in_half_run h (n # ns) \<longleftrightarrow> in_half h n \<and> in_half_run (next_high h n) ns"

section \<open>Refinement\<close>

definition window_rel :: "replay_window \<Rightarrow> abs_window \<Rightarrow> bool" where
  "window_rel w a =
     (case a of
        None \<Rightarrow> \<not> rw_initialized w
      | Some (H, S) \<Rightarrow> rw_initialized w \<and> rw_highest w = word_of_int H \<and> H \<in> S \<and>
          (\<forall>n\<in>S. n \<le> H) \<and> (\<forall>k<64. bit (rw_bitmap w) k \<longleftrightarrow> H - int k \<in> S))"

lemma window_rel_new: "window_rel replay_new None"
  by (simp add: window_rel_def replay_new_def)

lemma unat_word_of_int16: "0 \<le> d \<Longrightarrow> d < 2 ^ 16 \<Longrightarrow> unat (word_of_int d :: u16) = nat d"
  by (simp add: unat_eq_nat_uint uint_word_of_int)

lemma sub_word_of_int: "(word_of_int a :: u16) - word_of_int b = word_of_int (a - b)"
  by simp

lemma and_push_bit_one: "(w :: 'a::len word) AND push_bit k 1 \<noteq> 0 \<longleftrightarrow> bit w k"
  by (metis and_exp_eq_0_iff_not_bit push_bit_of_1)

text \<open>The signed distance to the highest number decides the branch taken.\<close>

lemma forward_cases:
  assumes "H - 2 ^ 15 \<le> n" and "n < H + 2 ^ 15"
  defines "fwd \<equiv> (word_of_int n - word_of_int H :: u16)"
  shows "fwd \<noteq> 0 \<and> fwd < 0x8000 \<longleftrightarrow> n > H" and "fwd = 0 \<longleftrightarrow> n = H"
    and "n > H \<Longrightarrow> unat fwd = nat (n - H)"
    and "n \<le> H \<Longrightarrow> unat (word_of_int H - word_of_int n :: u16) = nat (H - n)"
proof -
  have pos: "unat fwd = nat (n - H)" if "n \<ge> H"
    using that assms by (simp only: fwd_def sub_word_of_int) (rule unat_word_of_int16, auto)
  have neg: "unat fwd = nat (n - H + 2 ^ 16)" if "n < H"
  proof -
    have "fwd = word_of_int (n - H + 2 ^ 16)"
      by (simp add: fwd_def word_of_int_eq_iff take_bit_eq_mod)
    also have "unat \<dots> = nat (n - H + 2 ^ 16)"
      using that assms by (intro unat_word_of_int16) auto
    finally show ?thesis .
  qed
  show zero: "fwd = 0 \<longleftrightarrow> n = H"
    using pos neg assms by (cases "n < H") (auto simp flip: unat_eq_0)
  show "fwd \<noteq> 0 \<and> fwd < 0x8000 \<longleftrightarrow> n > H"
    using pos neg zero assms by (cases "n < H") (auto simp: word_less_nat_alt nat_less_iff)
  show "n > H \<Longrightarrow> unat fwd = nat (n - H)" using pos by simp
  show "n \<le> H \<Longrightarrow> unat (word_of_int H - word_of_int n :: u16) = nat (H - n)"
    using assms by (simp only: sub_word_of_int) (rule unat_word_of_int16, auto)
qed

definition abs_high :: "abs_window \<Rightarrow> int option" where
  "abs_high a = map_option fst a"

lemma classify_refines:
  assumes "window_rel w a" and "in_half (abs_high a) n"
  shows "replay_classify w (word_of_int n) = abs_classify a n"
proof (cases a)
  case None
  then show ?thesis using assms by (simp add: window_rel_def replay_classify_def)
next
  case (Some hs)
  obtain H S where a: "a = Some (H, S)" using Some by (cases hs) auto
  from assms a have half: "H - 2 ^ 15 \<le> n" "n < H + 2 ^ 15"
    and w: "rw_initialized w" "rw_highest w = word_of_int H" "H \<in> S"
    and bits: "\<forall>k<64. bit (rw_bitmap w) k \<longleftrightarrow> H - int k \<in> S"
    by (auto simp: window_rel_def abs_high_def)
  note fwd = forward_cases[OF half]
  show ?thesis
  proof (cases "n < H")
    case True
    with fwd(4) have behind: "unat (word_of_int H - word_of_int n :: u16) = nat (H - n)" by simp
    then have "(word_of_int H - word_of_int n :: u16) \<ge> 64 \<longleftrightarrow> H - n \<ge> 64"
      using True by (auto simp: word_le_nat_alt)
    moreover have "bit (rw_bitmap w) (nat (H - n)) \<longleftrightarrow> n \<in> S" if "H - n < 64"
      using bits[rule_format, of "nat (H - n)"] True that by simp
    ultimately show ?thesis
      using True a w fwd(1,2) behind
      by (auto simp: replay_classify_def Let_def and_exp_eq_0_iff_not_bit)
  next
    case False
    then show ?thesis
      using a w fwd(1,2) by (auto simp: replay_classify_def Let_def)
  qed
qed

lemma advance_bits:
  assumes "\<And>k. k < 64 \<Longrightarrow> bit (b :: u64) k \<longleftrightarrow> H - int k \<in> S" and "\<forall>m\<in>S. m \<le> H" and "n > H" and "k < 64"
  shows "bit (if n - H \<ge> 64 then 1 else push_bit (nat (n - H)) b OR 1) k \<longleftrightarrow> n - int k \<in> insert n S"
  using assms(1)[of "k - nat (n - H)"] assms(2-)
  by (cases "n - H \<ge> 64"; cases "nat (n - H) \<le> k")
    (auto simp: bit_simps of_nat_diff algebra_simps)

lemma mark_bits:
  assumes "\<And>k. k < 64 \<Longrightarrow> bit (b :: u64) k \<longleftrightarrow> H - int k \<in> S" and "n \<le> H" and "k < 64"
  shows "bit (b OR push_bit (nat (H - n)) 1) k \<longleftrightarrow> H - int k \<in> insert n S"
  using assms by (auto simp: bit_simps)

lemma commit_refines:
  assumes rel: "window_rel w a" and half: "in_half (abs_high a) n"
  shows "snd (replay_commit w (word_of_int n)) = snd (abs_commit a n)"
    and "window_rel (fst (replay_commit w (word_of_int n))) (fst (abs_commit a n))"
proof -
  note cls = classify_refines[OF rel half]
  show "snd (replay_commit w (word_of_int n)) = snd (abs_commit a n)"
    using cls by (simp add: replay_commit_def abs_commit_def Let_def split: replay_decision.splits)
  show "window_rel (fst (replay_commit w (word_of_int n))) (fst (abs_commit a n))"
  proof (cases "abs_classify a n = Accept")
    case False
    then show ?thesis using cls rel
      by (auto simp: replay_commit_def abs_commit_def split: replay_decision.splits)
  next
    case acc: True
    show ?thesis
    proof (cases a)
      case None
      then show ?thesis using rel cls acc
        by (auto simp: replay_commit_def abs_commit_def window_rel_def bit_1_iff)
    next
      case (Some hs)
      obtain H S where a: "a = Some (H, S)" using Some by (cases hs) auto
      from rel half a have bounds: "H - 2 ^ 15 \<le> n" "n < H + 2 ^ 15"
        and w: "rw_initialized w" "rw_highest w = word_of_int H" "H \<in> S" "\<forall>m\<in>S. m \<le> H"
        and bits: "\<And>k. k < 64 \<Longrightarrow> bit (rw_bitmap w) k \<longleftrightarrow> H - int k \<in> S"
        by (auto simp: window_rel_def abs_high_def)
      note fwd = forward_cases[OF bounds]
      show ?thesis
      proof (cases "n > H")
        case True
        have "(word_of_int n - word_of_int H :: u16) \<ge> 64 \<longleftrightarrow> n - H \<ge> 64"
          using fwd(3) True by (auto simp: word_le_nat_alt)
        moreover note advance_bits[OF bits w(4) True]
        ultimately show ?thesis
          using cls acc w a True fwd(1,3)
          by (auto simp: replay_commit_def abs_commit_def window_rel_def Let_def max_def)
      next
        case False
        then have "n < H" "n \<le> H" using acc a w(3) by (cases "n = H"; auto split: if_splits)+
        with mark_bits[OF bits, of n] show ?thesis
          using cls acc w a False \<open>n < H\<close> fwd(1,4)
          by (auto simp: replay_commit_def abs_commit_def window_rel_def Let_def max_def)
      qed
    qed
  qed
qed

section \<open>Runs\<close>

definition accepted :: "'i list \<Rightarrow> ('e + 'a) list \<Rightarrow> 'i list" where
  "accepted ns ys = map fst (filter (\<lambda>(_, y). is_ok y) (zip ns ys))"

lemma accepted_Nil [simp]: "accepted [] ys = []"
  by (simp add: accepted_def)

lemma accepted_Cons [simp]:
  "accepted (n # ns) (y # ys) = (if is_ok y then n # accepted ns ys else accepted ns ys)"
  by (simp add: accepted_def)

definition abs_wf :: "abs_window \<Rightarrow> bool" where
  "abs_wf a = (case a of None \<Rightarrow> True | Some (H, S) \<Rightarrow> H \<in> S \<and> (\<forall>n\<in>S. n \<le> H))"

definition seen :: "abs_window \<Rightarrow> int set" where
  "seen a = (case a of None \<Rightarrow> {} | Some (H, S) \<Rightarrow> S)"

lemma abs_commit_wf: "abs_wf a \<Longrightarrow> abs_wf (fst (abs_commit a n))"
  by (cases a) (fastforce simp: abs_wf_def abs_commit_def max_def)+

interpretation abs_window: machine abs_wf abs_commit
  by unfold_locales (rule abs_commit_wf)

lemma abs_commit_high: "abs_high (fst (abs_commit a n)) = next_high (abs_high a) n"
  by (cases a) (auto simp: abs_high_def abs_commit_def)

lemma abs_commit_ok:
  "abs_wf a \<Longrightarrow> is_ok (snd (abs_commit a n)) \<Longrightarrow> n \<notin> seen a \<and> n \<in> seen (fst (abs_commit a n))"
  by (cases a) (auto simp: abs_wf_def abs_commit_def seen_def split: if_splits)

lemma abs_commit_seen: "seen a \<subseteq> seen (fst (abs_commit a n))"
  by (cases a) (auto simp: abs_commit_def seen_def)

lemma run_Cons_proj:
  "snd (run_machine step s (i # is)) = snd (step s i) # snd (run_machine step (fst (step s i)) is)"
  by (simp add: Let_def case_prod_beta)

lemma abs_run_fresh:
  "abs_wf a \<Longrightarrow> set (accepted ns (snd (run_machine abs_commit a ns))) \<inter> seen a = {}"
proof (induction ns arbitrary: a)
  case Nil
  then show ?case by simp
next
  case (Cons n ns)
  have "set (accepted ns (snd (run_machine abs_commit (fst (abs_commit a n)) ns))) \<inter> seen a = {}"
    using Cons.IH[OF abs_commit_wf[OF Cons.prems], of n] abs_commit_seen[of a n] by blast
  then show ?case
    using abs_commit_ok[OF Cons.prems] by (simp add: run_Cons_proj del: run_machine.simps)
qed

lemma abs_run_distinct:
  "abs_wf a \<Longrightarrow> distinct (accepted ns (snd (run_machine abs_commit a ns)))"
proof (induction ns arbitrary: a)
  case Nil
  then show ?case by simp
next
  case (Cons n ns)
  note wf' = abs_commit_wf[OF Cons.prems, of n]
  show ?case
    using Cons.IH[OF wf'] abs_run_fresh[OF wf', of ns] abs_commit_ok[OF Cons.prems, of n]
    by (auto simp: run_Cons_proj simp del: run_machine.simps)
qed

lemma run_refines:
  assumes "window_rel w a" and "in_half_run (abs_high a) ns"
  shows "snd (run_machine replay_commit w (map word_of_int ns)) = snd (run_machine abs_commit a ns)"
  using assms
proof (induction ns arbitrary: w a)
  case Nil
  then show ?case by simp
next
  case (Cons n ns)
  then have half: "in_half (abs_high a) n" by simp
  note ref = commit_refines[OF Cons.prems(1) half]
  show ?case
    using Cons.IH[OF ref(2)] Cons.prems(2) ref(1)
    by (simp add: run_Cons_proj abs_commit_high del: run_machine.simps)
qed

lemma commit_then_classify:
  assumes "replay_commit w s = (w', Inr ())"
  shows "replay_classify w' s = Duplicate"
proof -
  have "bit (push_bit (unat (rw_highest w - s)) (1 :: u64)) (unat (rw_highest w - s))"
    if "rw_highest w - s < 64"
    using that by (simp add: bit_simps word_less_nat_alt)
  then show ?thesis
    using assms
    by (auto simp: replay_commit_def replay_classify_def Let_def and_exp_eq_0_iff_not_bit bit_or_iff not_le
        split: replay_decision.splits if_splits)
qed

section \<open>Properties\<close>

text \<open>C7. On every run of sequence numbers that stay within half the 16-bit space of the highest
  number before them, the bitmap window returns exactly the verdicts of the unbounded window that
  remembers every number committed: accept above the highest, reject 64 or more behind it, and
  in between accept once.\<close>

theorem replay_window_refines:
  assumes "in_half_run None ns"
  shows "snd (run_machine replay_commit replay_new (map word_of_int ns))
    = snd (run_machine abs_commit None ns)"
  using assms window_rel_new by (intro run_refines) (simp_all add: abs_high_def)

theorem replay_window_refines_witness:
  "snd (run_machine replay_commit replay_new (map word_of_int [65534, 65537, 65535, 65537, 65400]))
    = [Inr (), Inr (), Inr (), Inl Replay, Inl TooOld]"
proof -
  have "in_half_run None [65534, 65537, 65535, 65537, 65400]" by simp
  then have "snd (run_machine replay_commit replay_new (map word_of_int [65534, 65537, 65535, 65537, 65400]))
      = snd (run_machine abs_commit None [65534, 65537, 65535, 65537, 65400])"
    by (rule replay_window_refines)
  then show ?thesis by (simp add: abs_commit_def)
qed

text \<open>No sequence number is accepted twice in such a run, across any number of wraps of the
  16-bit counter.\<close>

theorem replay_accepts_once:
  assumes "in_half_run None ns"
  shows "distinct (accepted ns (snd (run_machine replay_commit replay_new (map word_of_int ns))))"
proof -
  have "snd (run_machine replay_commit replay_new (map word_of_int ns)) = snd (run_machine abs_commit None ns)"
    using assms window_rel_new by (intro run_refines) (simp_all add: abs_high_def)
  then show ?thesis using abs_run_distinct[of None ns] by (simp add: abs_wf_def)
qed

theorem replay_accepts_once_witness:
  "distinct (accepted [65535 :: int, 65536, 65535, 65536]
     (snd (run_machine replay_commit replay_new (map word_of_int [65535, 65536, 65535, 65536]))))"
  by (rule replay_accepts_once) simp

end
