(* ===== verification/Air_Receiver.thy ===== *)
theory Air_Receiver
  imports Air_Link Air_Assist Replay_Window
begin

text \<open>
  \<open>latentmesh-air-radio/src/receiver.rs\<close>: the receiver that decodes frames, reassembles messages,
  admits them (authentication, binding of the semantic content) and commits them to the replay
  window of their stream. The verifier is a parameter, \<open>None\<close> where the caller has none; the hash
  \<open>sha\<close> and the functions of \<open>libm\<close> are parameters as before.
\<close>

type_synonym verifier = "bytes \<Rightarrow> signature \<Rightarrow> bool"

record receiver_config =
  rx_link :: link_config
  rx_reassembly :: reassembler_config
  rx_max_streams :: nat
  rx_neural_assist :: bool

definition receiver_config_for_link :: "link_config \<Rightarrow> receiver_config" where
  "receiver_config_for_link link =
     \<lparr> rx_link = link, rx_reassembly = reassembler_config_default, rx_max_streams = 16, rx_neural_assist = False \<rparr>"

datatype receiver_state = Listening | Reassembling | MessageReady

section \<open>Received messages\<close>

record received_message =
  rxm_profile :: wire_profile
  rxm_flags :: frame_flags
  rxm_stream_id :: u16
  rxm_sequence :: u16
  rxm_class :: semantic_class
  rxm_priority :: u8
  rxm_state_tag :: u16
  rxm_bytes :: bytes

definition received :: "reassembled_message \<Rightarrow> received_message" where
  "received m =
     \<lparr> rxm_profile = rm_profile m, rxm_flags = rm_flags m, rxm_stream_id = rm_stream_id m,
       rxm_sequence = rm_sequence m, rxm_class = rm_class m, rxm_priority = rm_priority m,
       rxm_state_tag = rm_state_tag m, rxm_bytes = rm_bytes m \<rparr>"

definition message_envelope :: "received_message \<Rightarrow> semantic_envelope air_result" where
  "message_envelope m =
     rbind (envelope_decode (rxm_bytes m)) (\<lambda>envelope.
       if e_class envelope \<noteq> rxm_class m \<or> e_priority envelope \<noteq> rxm_priority m
         \<or> state_hash_tag (to_be_bytes (e_state_hash envelope)) \<noteq> rxm_state_tag m
         \<or> flags_contains (rxm_flags m) SIGNED_ENVELOPE \<noteq> (e_signature envelope \<noteq> None)
       then Inl ResultStateMismatch else Inr envelope)"

definition delta_from_envelope :: "received_message \<Rightarrow> semantic_envelope \<Rightarrow> semantic_delta air_result" where
  "delta_from_envelope m envelope =
     (if rxm_class m \<noteq> StateDelta then Inl InvalidClass
      else rbind (unwrap_delta envelope) (\<lambda>delta.
        if state_hash_tag (to_be_bytes (d_result_hash delta)) \<noteq> rxm_state_tag m then Inl ResultStateMismatch
        else Inr delta))"

definition message_delta :: "received_message \<Rightarrow> semantic_delta air_result" where
  "message_delta m =
     rbind (message_envelope m) (\<lambda>envelope.
       if e_signature envelope \<noteq> None then Inl AuthenticationRequired else delta_from_envelope m envelope)"

definition verified_envelope :: "received_message \<Rightarrow> verifier \<Rightarrow> semantic_envelope air_result" where
  "verified_envelope m verify =
     rbind (message_envelope m) (\<lambda>envelope.
       case e_signature envelope of
         None \<Rightarrow> Inl AuthenticationRequired
       | Some signature \<Rightarrow>
           rbind (authentication_bytes envelope) (\<lambda>auth.
             if \<not> verify auth signature then Inl AuthenticationFailed else Inr envelope))"

definition message_delta_verified :: "received_message \<Rightarrow> verifier \<Rightarrow> semantic_delta air_result" where
  "message_delta_verified m verify = rbind (verified_envelope m verify) (delta_from_envelope m)"

definition message_apply :: "sha256 \<Rightarrow> received_message \<Rightarrow> critical_state \<Rightarrow> critical_state air_result" where
  "message_apply sha m base = rbind (message_delta m) (\<lambda>delta. delta_apply sha delta base)"

definition message_apply_verified ::
  "sha256 \<Rightarrow> received_message \<Rightarrow> critical_state \<Rightarrow> verifier \<Rightarrow> critical_state air_result" where
  "message_apply_verified sha m base verify = rbind (message_delta_verified m verify) (\<lambda>delta. delta_apply sha delta base)"

definition validate_semantic_binding :: "received_message \<Rightarrow> unit air_result" where
  "validate_semantic_binding m = rbind (message_envelope m) (\<lambda>envelope. rbind (delta_from_envelope m envelope) (\<lambda>_. Inr ()))"

definition validate_admission :: "received_message \<Rightarrow> verifier option \<Rightarrow> unit air_result" where
  "validate_admission m verifier =
     (if flags_contains (rxm_flags m) SIGNED_ENVELOPE then
        (case verifier of
           None \<Rightarrow> Inl AuthenticationRequired
         | Some verify \<Rightarrow>
             rbind (verified_envelope m verify) (\<lambda>envelope.
               if rxm_class m = StateDelta then rbind (delta_from_envelope m envelope) (\<lambda>_. Inr ()) else Inr ()))
      else if rxm_class m = StateDelta then validate_semantic_binding m
      else Inr ())"

section \<open>The receiver\<close>

record stream_replay =
  sr_stream_id :: u16
  sr_window :: replay_window

record air_receiver =
  rv_config :: receiver_config
  rv_reassembler :: reassembler
  rv_replay :: "stream_replay list"
  rv_soft_burst :: soft_burst_receiver
  rv_assist :: "tiny_neural_assist option"
  rv_state :: receiver_state

definition receiver_new :: "receiver_config \<Rightarrow> air_receiver air_result" where
  "receiver_new config =
     rbind (link_validate (rx_link config)) (\<lambda>_.
       if rx_max_streams config = 0 \<or> rx_max_streams config > 256 then Inl InvalidLength
       else rbind (burst_codec_new (lc_interleaver_columns (rx_link config))) (\<lambda>codec.
         rbind (reassembler_new (rx_reassembly config)) (\<lambda>r.
           Inr \<lparr> rv_config = config, rv_reassembler = r, rv_replay = [], rv_soft_burst = soft_burst_new codec,
             rv_assist = (if rx_neural_assist config then Some assist_default else None),
             rv_state = Listening \<rparr>)))"

definition commit_replay :: "air_receiver \<Rightarrow> u16 \<Rightarrow> u16 \<Rightarrow> air_receiver \<times> unit air_result" where
  "commit_replay r stream_id sequence =
     (case position (\<lambda>entry. sr_stream_id entry = stream_id) (rv_replay r) of
        Some i \<Rightarrow>
          let (w, out) = replay_commit (sr_window (rv_replay r ! i)) sequence
          in (r\<lparr> rv_replay := (rv_replay r)[i := (rv_replay r ! i)\<lparr> sr_window := w \<rparr>] \<rparr>, out)
      | None \<Rightarrow>
          if length (rv_replay r) = rx_max_streams (rv_config r) then (r, Inl LimitExceeded)
          else let (w, out) = replay_commit replay_new sequence in
            (case out of
               Inl e \<Rightarrow> (r, Inl e)
             | Inr _ \<Rightarrow> (r\<lparr> rv_replay := rv_replay r @ [\<lparr> sr_stream_id = stream_id, sr_window = w \<rparr>] \<rparr>, Inr ())))"

text \<open>The replay check before reassembly: the error it returns, if any.\<close>

definition replay_check :: "air_receiver \<Rightarrow> sparse_radio_frame \<Rightarrow> air_error option" where
  "replay_check r frame =
     (case find (\<lambda>entry. sr_stream_id entry = f_stream_id frame) (rv_replay r) of
        None \<Rightarrow> None
      | Some entry \<Rightarrow>
          (case replay_classify (sr_window entry) (f_sequence frame) of
             Accept \<Rightarrow> None
           | Duplicate \<Rightarrow>
               if has_in_flight (rv_reassembler r) (f_stream_id frame) (f_sequence frame) then None else Some Replay
           | Too_Old \<Rightarrow> Some TooOld))"

type_synonym receive_output = "received_message option air_result"

definition ingest_frame_inner ::
  "air_receiver \<Rightarrow> sparse_radio_frame \<Rightarrow> verifier option \<Rightarrow> air_receiver \<times> receive_output" where
  "ingest_frame_inner r0 frame verifier =
     (let r = r0\<lparr> rv_state := Listening \<rparr> in
      if f_profile frame \<noteq> lc_profile (rx_link (rv_config r)) then (r, Inl InvalidProfile)
      else if flags_contains (lc_flags (rx_link (rv_config r))) FEC \<noteq> flags_contains (f_flags frame) FEC
      then (r, Inl InvalidFlags)
      else if flags_contains (f_flags frame) SIGNED_ENVELOPE \<and> verifier = None
      then (r\<lparr> rv_reassembler := reassembler_clear (rv_reassembler r) (f_stream_id frame) (f_sequence frame) \<rparr>,
            Inl AuthenticationRequired)
      else case replay_check r frame of
        Some e \<Rightarrow> (r, Inl e)
      | None \<Rightarrow>
          (case reassembler_push (rv_reassembler r) frame of
             (ra, Inl e) \<Rightarrow> (r\<lparr> rv_reassembler := ra \<rparr>, Inl e)
           | (ra, Inr None) \<Rightarrow> (r\<lparr> rv_reassembler := ra, rv_state := Reassembling \<rparr>, Inr None)
           | (ra, Inr (Some whole)) \<Rightarrow>
               let r1 = r\<lparr> rv_reassembler := ra \<rparr>; message = received whole in
               (case validate_admission message verifier of
                  Inl e \<Rightarrow> (r1, Inl e)
                | Inr _ \<Rightarrow>
                    (case commit_replay r1 (rxm_stream_id message) (rxm_sequence message) of
                       (r2, Inl e) \<Rightarrow> (r2, Inl e)
                     | (r2, Inr _) \<Rightarrow> (r2\<lparr> rv_state := MessageReady \<rparr>, Inr (Some message))))))"

definition ingest_frame_bytes :: "air_receiver \<Rightarrow> bytes \<Rightarrow> verifier option \<Rightarrow> air_receiver \<times> receive_output" where
  "ingest_frame_bytes r bs verifier =
     (case frame_decode bs of
        Inl e \<Rightarrow> (r\<lparr> rv_state := Listening \<rparr>, Inl e)
      | Inr frame \<Rightarrow> ingest_frame_inner (r\<lparr> rv_state := Listening \<rparr>) frame verifier)"

section \<open>Waveforms\<close>

definition assist_llrs :: "libm \<Rightarrow> air_receiver \<Rightarrow> i8 list \<Rightarrow> i8 list air_result" where
  "assist_llrs L r classical =
     (case rv_assist r of
        None \<Rightarrow> Inr classical
      | Some assist \<Rightarrow> refine_batch L assist classical (map (\<lambda>llr.
          let energy = f_div (f32_of (of_nat (unsigned_abs llr))) (f32_of 127)
          in \<lparr> ao_energy = energy, ao_noise = f_sub f_one energy, ao_frequency_error = f_zero \<rparr>) classical))"

definition decode_iq_burst :: "libm \<Rightarrow> air_receiver \<Rightarrow> iq_sample list \<Rightarrow> bytes air_result" where
  "decode_iq_burst L r samples =
     (case lc_modulation (rx_link (rv_config r)) of
        Bpsk config \<Rightarrow>
          rbind (bpsk_new config) (\<lambda>modem.
          rbind (bpsk_demodulate_soft modem samples) (\<lambda>classical.
          rbind (assist_llrs L r classical) (\<lambda>llrs.
          rbind (burst_codec_new (lc_interleaver_columns (rx_link (rv_config r)))) (\<lambda>codec. decode_aligned codec llrs))))
      | _ \<Rightarrow> Inl InvalidProfile)"

definition decode_pcm_burst :: "libm \<Rightarrow> air_receiver \<Rightarrow> i16 list \<Rightarrow> bytes air_result" where
  "decode_pcm_burst L r samples =
     (case lc_modulation (rx_link (rv_config r)) of
        Cpfsk config \<Rightarrow>
          rbind (cpfsk_new config) (\<lambda>modem.
          rbind (cpfsk_demodulate_soft L modem samples) (\<lambda>classical.
          rbind (assist_llrs L r classical) (\<lambda>llrs.
          rbind (burst_codec_new (lc_interleaver_columns (rx_link (rv_config r)))) (\<lambda>codec. decode_aligned codec llrs))))
      | _ \<Rightarrow> Inl InvalidProfile)"

definition ingest_iq_burst ::
  "libm \<Rightarrow> air_receiver \<Rightarrow> iq_sample list \<Rightarrow> verifier option \<Rightarrow> air_receiver \<times> receive_output" where
  "ingest_iq_burst L r samples verifier =
     (case decode_iq_burst L r samples of
        Inl e \<Rightarrow> (r, Inl e)
      | Inr frame \<Rightarrow> ingest_frame_bytes r frame verifier)"

definition ingest_pcm_burst ::
  "libm \<Rightarrow> air_receiver \<Rightarrow> i16 list \<Rightarrow> verifier option \<Rightarrow> air_receiver \<times> receive_output" where
  "ingest_pcm_burst L r samples verifier =
     (case decode_pcm_burst L r samples of
        Inl e \<Rightarrow> (r, Inl e)
      | Inr frame \<Rightarrow> ingest_frame_bytes r frame verifier)"

text \<open>The loop over the frames of a soft stream; the question mark drops the messages collected
  before an error.\<close>

fun ingest_frames ::
  "air_receiver \<Rightarrow> bytes list \<Rightarrow> verifier option \<Rightarrow> received_message list \<Rightarrow> air_receiver \<times> received_message list air_result" where
  "ingest_frames r [] verifier messages = (r, Inr messages)"
| "ingest_frames r (frame # frames) verifier messages =
     (case frame_decode frame of
        Inl e \<Rightarrow> (r, Inl e)
      | Inr decoded \<Rightarrow>
          (case ingest_frame_inner r decoded verifier of
             (r', Inl e) \<Rightarrow> (r', Inl e)
           | (r', Inr None) \<Rightarrow> ingest_frames r' frames verifier messages
           | (r', Inr (Some message)) \<Rightarrow> ingest_frames r' frames verifier (messages @ [message])))"

definition ingest_soft_stream ::
  "air_receiver \<Rightarrow> i8 list \<Rightarrow> verifier option \<Rightarrow> air_receiver \<times> received_message list air_result" where
  "ingest_soft_stream r llrs verifier =
     (case push_slice (rv_soft_burst r) llrs of
        (sb, Inl e) \<Rightarrow> (r\<lparr> rv_soft_burst := sb \<rparr>, Inl e)
      | (sb, Inr frame_bytes) \<Rightarrow> ingest_frames (r\<lparr> rv_soft_burst := sb \<rparr>) frame_bytes verifier [])"

section \<open>One received frame\<close>

lemma replay_commit_error: "replay_commit w s = (w', Inl e) \<Longrightarrow> w' = w"
  by (auto simp: replay_commit_def Let_def split: replay_decision.splits if_splits)

definition window_of :: "air_receiver \<Rightarrow> u16 \<Rightarrow> replay_window" where
  "window_of r s = (case find (\<lambda>entry. sr_stream_id entry = s) (rv_replay r) of
     None \<Rightarrow> replay_new | Some entry \<Rightarrow> sr_window entry)"

lemma commit_replay_None:
  "position (\<lambda>entry. sr_stream_id entry = s) (rv_replay r) = None \<Longrightarrow> commit_replay r s q =
    (if length (rv_replay r) = rx_max_streams (rv_config r) then (r, Inl LimitExceeded)
     else case replay_commit replay_new q of
       (w, Inl e) \<Rightarrow> (r, Inl e)
     | (w, Inr _) \<Rightarrow> (r\<lparr> rv_replay := rv_replay r @ [\<lparr> sr_stream_id = s, sr_window = w \<rparr>] \<rparr>, Inr ()))"
  by (simp add: commit_replay_def Let_def case_prod_beta split: sum.split del: position_None)

lemma commit_replay_Some:
  "position (\<lambda>entry. sr_stream_id entry = s) (rv_replay r) = Some i \<Longrightarrow> commit_replay r s q =
    (case replay_commit (sr_window (rv_replay r ! i)) q of
       (w, out) \<Rightarrow> (r\<lparr> rv_replay := (rv_replay r)[i := (rv_replay r ! i)\<lparr> sr_window := w \<rparr>] \<rparr>, out))"
  by (simp add: commit_replay_def Let_def)

lemma find_new: "find P xs = None \<Longrightarrow> P y \<Longrightarrow> find P (xs @ [y]) = Some y"
  by (induction xs) (auto split: if_splits)

lemma window_of_position:
  "position (\<lambda>entry. sr_stream_id entry = s) (rv_replay r) = Some i \<Longrightarrow> window_of r s = sr_window (rv_replay r ! i)"
  using position_find[of "\<lambda>entry. sr_stream_id entry = s" "rv_replay r"] by (simp add: window_of_def)

lemma commit_replay_error: "commit_replay r s q = (r', Inl e) \<Longrightarrow> r' = r"
proof -
  assume c: "commit_replay r s q = (r', Inl e)"
  show ?thesis
  proof (cases "position (\<lambda>entry. sr_stream_id entry = s) (rv_replay r)")
    case None
    then show ?thesis using c by (auto simp: commit_replay_None split: if_splits prod.splits sum.splits simp del: position_None)
  next
    case (Some i)
    obtain w where w: "replay_commit (sr_window (rv_replay r ! i)) q = (w, Inl e)"
      using c by (auto simp: commit_replay_Some[OF Some] split: prod.splits)
    then have "w = sr_window (rv_replay r ! i)" by (rule replay_commit_error)
    then have "r' = r\<lparr> rv_replay := (rv_replay r)[i := rv_replay r ! i] \<rparr>"
      using c w by (simp add: commit_replay_Some[OF Some])
    then show ?thesis by simp
  qed
qed

lemma commit_replay_ok:
  assumes c: "commit_replay r s q = (r', Inr ())" and d: "distinct (map sr_stream_id (rv_replay r))"
  shows "replay_commit (window_of r s) q = (window_of r' s, Inr ())"
    and "s' \<noteq> s \<Longrightarrow> window_of r' s' = window_of r s'"
    and "distinct (map sr_stream_id (rv_replay r'))"
    and "length (rv_replay r) \<le> rx_max_streams (rv_config r) \<Longrightarrow> length (rv_replay r') \<le> rx_max_streams (rv_config r')"
    and "r' = r\<lparr> rv_replay := rv_replay r' \<rparr>"
proof -
  let ?goal = "replay_commit (window_of r s) q = (window_of r' s, Inr ()) \<and>
    (s' \<noteq> s \<longrightarrow> window_of r' s' = window_of r s') \<and> distinct (map sr_stream_id (rv_replay r')) \<and>
    (length (rv_replay r) \<le> rx_max_streams (rv_config r) \<longrightarrow> length (rv_replay r') \<le> rx_max_streams (rv_config r')) \<and>
    r' = r\<lparr> rv_replay := rv_replay r' \<rparr>"
  have ?goal
  proof (cases "position (\<lambda>entry. sr_stream_id entry = s) (rv_replay r)")
    case None
    then have fresh: "s \<notin> sr_stream_id ` set (rv_replay r)" by auto
    then have find: "find (\<lambda>entry. sr_stream_id entry = s) (rv_replay r) = None" by (simp only: find_key_None not_False_eq_True)
    obtain w where w: "replay_commit replay_new q = (w, Inr ())"
      and r': "r' = r\<lparr> rv_replay := rv_replay r @ [\<lparr> sr_stream_id = s, sr_window = w \<rparr>] \<rparr>"
      and room: "length (rv_replay r) \<noteq> rx_max_streams (rv_config r)"
      using c unfolding commit_replay_None[OF None] by (auto split: if_splits prod.splits sum.splits)
    have "find (\<lambda>entry. sr_stream_id entry = s) (rv_replay r') = Some \<lparr> sr_stream_id = s, sr_window = w \<rparr>"
      using find by (simp add: r' find_new)
    moreover have "s' \<noteq> s \<Longrightarrow> find (\<lambda>entry. sr_stream_id entry = s') (rv_replay r') = find (\<lambda>entry. sr_stream_id entry = s') (rv_replay r)"
      by (simp add: r' find_append_last)
    ultimately show ?thesis using w find fresh d room by (simp add: window_of_def r')
  next
    case (Some i)
    have i: "i < length (rv_replay r)" "sr_stream_id (rv_replay r ! i) = s" using position_SomeD[OF Some] by blast+
    obtain w where w: "replay_commit (sr_window (rv_replay r ! i)) q = (w, Inr ())"
      and r': "r' = r\<lparr> rv_replay := (rv_replay r)[i := (rv_replay r ! i)\<lparr> sr_window := w \<rparr>] \<rparr>"
      using c by (auto simp: commit_replay_Some[OF Some] split: prod.splits)
    have keys: "map sr_stream_id (rv_replay r') = map sr_stream_id (rv_replay r)"
      using i by (simp add: r' map_key_update)
    have f: "find (\<lambda>entry. sr_stream_id entry = k) (rv_replay r') =
        (if k = s then Some ((rv_replay r ! i)\<lparr> sr_window := w \<rparr>) else find (\<lambda>entry. sr_stream_id entry = k) (rv_replay r))" for k
      using find_key_update[OF d i(1), of "(rv_replay r ! i)\<lparr> sr_window := w \<rparr>"] i by (simp add: r')
    have "window_of r' s = w" "s' \<noteq> s \<Longrightarrow> window_of r' s' = window_of r s'"
      by (simp_all add: window_of_def f)
    then show ?thesis using w d keys window_of_position[OF Some] by (simp add: r')
  qed
  then show "replay_commit (window_of r s) q = (window_of r' s, Inr ())"
    and "s' \<noteq> s \<Longrightarrow> window_of r' s' = window_of r s'" and "distinct (map sr_stream_id (rv_replay r'))"
    and "length (rv_replay r) \<le> rx_max_streams (rv_config r) \<Longrightarrow> length (rv_replay r') \<le> rx_max_streams (rv_config r')"
    and "r' = r\<lparr> rv_replay := rv_replay r' \<rparr>" by blast+
qed

text \<open>What a call of \<open>ingest_frame_inner\<close> can do: deliver a message that was admitted and committed, or
  leave the replay windows alone.\<close>

lemma ingest_delivers:
  assumes "ingest_frame_inner r frame verifier = (r', Inr (Some message))"
  obtains ra whole r2 where "reassembler_push (rv_reassembler r) frame = (ra, Inr (Some whole))"
    and "message = received whole" and "validate_admission message verifier = Inr ()"
    and "commit_replay (r\<lparr> rv_state := Listening, rv_reassembler := ra \<rparr>) (rxm_stream_id message) (rxm_sequence message) = (r2, Inr ())"
    and "r' = r2\<lparr> rv_state := MessageReady \<rparr>"
  using assms unfolding ingest_frame_inner_def Let_def
  by (auto split: if_splits option.splits sum.splits prod.splits)

lemma ingest_keeps_replay:
  assumes "ingest_frame_inner r frame verifier = (r', out)" and "\<And>message. out \<noteq> Inr (Some message)"
  shows "rv_replay r' = rv_replay r"
  using assms unfolding ingest_frame_inner_def Let_def
  by (auto split: if_splits option.splits sum.splits prod.splits dest: commit_replay_error)

lemma ingest_config: "ingest_frame_inner r frame verifier = (r', out) \<Longrightarrow>
    rv_config r' = rv_config r \<and> rv_soft_burst r' = rv_soft_burst r \<and> rv_assist r' = rv_assist r"
proof -
  assume i: "ingest_frame_inner r frame verifier = (r', out)"
  have same: "rv_config r2 = rv_config r1 \<and> rv_soft_burst r2 = rv_soft_burst r1 \<and> rv_assist r2 = rv_assist r1"
    if "commit_replay r1 s q = (r2, o2)" for r1 r2 s q o2
    using that by (auto simp: commit_replay_def Let_def split: option.splits prod.splits sum.splits if_splits)
  show ?thesis using i unfolding ingest_frame_inner_def Let_def
    by (auto split: if_splits option.splits sum.splits prod.splits dest!: same)
qed

section \<open>Invariant\<close>

definition receiver_inv :: "air_receiver \<Rightarrow> bool" where
  "receiver_inv r \<longleftrightarrow> length (rv_replay r) \<le> rx_max_streams (rv_config r) \<and>
     distinct (map sr_stream_id (rv_replay r)) \<and> reassembler_inv (rv_reassembler r) \<and>
     soft_burst_inv (rv_soft_burst r)"

lemma receiver_new_inv: "receiver_new config = Inr r \<Longrightarrow> receiver_inv r \<and> rv_config r = config \<and> rv_replay r = []"
  by (auto simp: receiver_new_def receiver_inv_def soft_burst_new_inv dest!: reassembler_new_inv split: if_splits)

lemma commit_inv: "receiver_inv r \<Longrightarrow> commit_replay r s q = (r', out) \<Longrightarrow> receiver_inv r'"
proof (cases out)
  case (Inl e)
  then show "receiver_inv r \<Longrightarrow> commit_replay r s q = (r', out) \<Longrightarrow> receiver_inv r'"
    using commit_replay_error by blast
next
  case (Inr u)
  assume inv: "receiver_inv r" and c: "commit_replay r s q = (r', out)"
  then have ok: "commit_replay r s q = (r', Inr ())" using Inr by simp
  have d: "distinct (map sr_stream_id (rv_replay r))" using inv by (simp add: receiver_inv_def)
  have r': "r' = r\<lparr> rv_replay := rv_replay r' \<rparr>" by (rule commit_replay_ok(5)[OF ok d])
  have "rv_reassembler r' = rv_reassembler r" "rv_soft_burst r' = rv_soft_burst r"
    by (subst r', simp)+
  then show "receiver_inv r'" using commit_replay_ok(3,4)[OF ok d] inv by (simp add: receiver_inv_def)
qed

lemma receiver_inv_state [simp]: "receiver_inv (r\<lparr> rv_state := st \<rparr>) = receiver_inv r"
  by (simp add: receiver_inv_def)

lemma receiver_inv_reassembler [simp]:
  "receiver_inv r \<Longrightarrow> receiver_inv (r\<lparr> rv_reassembler := ra \<rparr>) = reassembler_inv ra"
  by (simp add: receiver_inv_def)

lemma ingest_frame_inv: "receiver_inv r \<Longrightarrow> receiver_inv (fst (ingest_frame_inner r frame verifier))"
proof -
  assume inv: "receiver_inv r"
  have ra: "reassembler_inv (rv_reassembler r)" using inv by (simp add: receiver_inv_def)
  obtain ra' o' where push: "reassembler_push (rv_reassembler r) frame = (ra', o')" by fastforce
  have ra': "reassembler_inv ra'" using push_inv[OF ra, of frame] push by simp
  have i: "receiver_inv (r\<lparr> rv_state := Listening, rv_reassembler := ra' \<rparr>)" using inv ra' by simp
  have c: "receiver_inv r2" if "commit_replay (r\<lparr> rv_state := Listening, rv_reassembler := ra' \<rparr>) s q = (r2, o2)" for s q r2 o2
    by (rule commit_inv[OF i that])
  show ?thesis
    using inv ra' clear_inv[OF ra] unfolding ingest_frame_inner_def Let_def
    by (auto simp: push split: option.splits sum.splits prod.splits dest: c)
qed

lemma ingest_bytes_inv: "receiver_inv r \<Longrightarrow> receiver_inv (fst (ingest_frame_bytes r bs verifier))"
proof -
  assume "receiver_inv r"
  then have "receiver_inv (r\<lparr> rv_state := Listening \<rparr>)" by (simp add: receiver_inv_def)
  then show ?thesis using ingest_frame_inv by (simp add: ingest_frame_bytes_def split: sum.split)
qed

lemma ingest_frames_inv: "receiver_inv r \<Longrightarrow> receiver_inv (fst (ingest_frames r frames verifier ms))"
proof (induction frames arbitrary: r ms)
  case (Cons f frames)
  then show ?case
    using ingest_frame_inv[OF Cons.prems] by (auto split: sum.split prod.split option.split) (metis fst_conv)+
qed simp

lemma push_slice_loop_inv: "soft_burst_inv s \<Longrightarrow> soft_burst_inv (fst (push_slice_loop s llrs fs))"
proof (induction llrs arbitrary: s fs)
  case (Cons l llrs)
  then have "soft_burst_inv (fst (push_llr s l))" by (rule_tac push_llr_inv)
  then show ?case using Cons.IH by (auto simp: Let_def case_prod_beta split: sum.split option.split)
qed simp

lemma soft_stream_inv: "receiver_inv r \<Longrightarrow> receiver_inv (fst (ingest_soft_stream r llrs verifier))"
proof -
  assume inv: "receiver_inv r"
  obtain sb out where p: "push_slice (rv_soft_burst r) llrs = (sb, out)" by fastforce
  then have "soft_burst_inv sb"
    using push_slice_loop_inv[of "rv_soft_burst r" llrs "[]"] inv by (simp add: receiver_inv_def push_slice_def)
  then have "receiver_inv (r\<lparr> rv_soft_burst := sb \<rparr>)" using inv by (simp add: receiver_inv_def)
  then show ?thesis using p ingest_frames_inv by (simp add: ingest_soft_stream_def split: sum.split)
qed

text \<open>Every entry point of the receiver as one machine; its output is the messages handed to the
  caller.\<close>

datatype rx_op =
    RxFrame sparse_radio_frame "verifier option"
  | RxBytes bytes "verifier option"
  | RxIq "iq_sample list" "verifier option"
  | RxPcm "i16 list" "verifier option"
  | RxSoft "i8 list" "verifier option"

definition handed :: "receive_output \<Rightarrow> received_message list" where
  "handed out = (case out of Inr (Some m) \<Rightarrow> [m] | _ \<Rightarrow> [])"

fun rx_step :: "libm \<Rightarrow> air_receiver \<Rightarrow> rx_op \<Rightarrow> air_receiver \<times> received_message list" where
  "rx_step L r (RxFrame f v) = (let (r', out) = ingest_frame_inner r f v in (r', handed out))"
| "rx_step L r (RxBytes bs v) = (let (r', out) = ingest_frame_bytes r bs v in (r', handed out))"
| "rx_step L r (RxIq samples v) = (let (r', out) = ingest_iq_burst L r samples v in (r', handed out))"
| "rx_step L r (RxPcm samples v) = (let (r', out) = ingest_pcm_burst L r samples v in (r', handed out))"
| "rx_step L r (RxSoft llrs v) =
     (let (r', out) = ingest_soft_stream r llrs v in (r', case out of Inr ms \<Rightarrow> ms | Inl _ \<Rightarrow> []))"

lemma rx_step_inv: "receiver_inv r \<Longrightarrow> receiver_inv (fst (rx_step L r op))"
  using ingest_frame_inv ingest_bytes_inv soft_stream_inv
  by (cases op)
    (auto simp: case_prod_beta Let_def ingest_iq_burst_def ingest_pcm_burst_def split: sum.split)

interpretation receiver: machine receiver_inv "rx_step L" for L
  by unfold_locales (rule rx_step_inv)

section \<open>What a delivered message guarantees\<close>

text \<open>The contract of admission: a message flagged as signed carries an envelope whose signature the
  given verifier accepted, and a state delta is bound to its envelope and to the frame's hash tag.\<close>

definition vouched :: "verifier option \<Rightarrow> received_message \<Rightarrow> bool" where
  "vouched verifier m \<longleftrightarrow>
     (flags_contains (rxm_flags m) SIGNED_ENVELOPE \<longrightarrow>
       (\<exists>verify e signature auth. verifier = Some verify \<and> envelope_decode (rxm_bytes m) = Inr e \<and>
          e_signature e = Some signature \<and> authentication_bytes e = Inr auth \<and> verify auth signature)) \<and>
     (rxm_class m = StateDelta \<longrightarrow>
       (\<exists>e d. envelope_decode (rxm_bytes m) = Inr e \<and> unwrap_delta e = Inr d \<and> e_priority e = rxm_priority m \<and>
          (e_signature e \<noteq> None \<longleftrightarrow> flags_contains (rxm_flags m) SIGNED_ENVELOPE) \<and>
          state_hash_tag (to_be_bytes (d_result_hash d)) = rxm_state_tag m))"

lemma message_envelope_InrD:
  "message_envelope m = Inr e \<Longrightarrow> envelope_decode (rxm_bytes m) = Inr e \<and> e_priority e = rxm_priority m \<and>
     (e_signature e \<noteq> None \<longleftrightarrow> flags_contains (rxm_flags m) SIGNED_ENVELOPE)"
  by (auto simp: message_envelope_def split: if_splits)

lemma verified_envelope_InrD:
  "verified_envelope m verify = Inr e \<Longrightarrow> message_envelope m = Inr e \<and>
     (\<exists>signature auth. e_signature e = Some signature \<and> authentication_bytes e = Inr auth \<and> verify auth signature)"
  by (auto simp: verified_envelope_def split: option.splits if_splits)

lemma delta_from_envelope_InrD:
  "delta_from_envelope m e = Inr d \<Longrightarrow> unwrap_delta e = Inr d \<and> state_hash_tag (to_be_bytes (d_result_hash d)) = rxm_state_tag m"
  by (auto simp: delta_from_envelope_def split: if_splits)

lemma admission_vouched: "validate_admission m verifier = Inr () \<Longrightarrow> vouched verifier m"
  unfolding vouched_def validate_admission_def validate_semantic_binding_def
  by (auto split: if_splits option.splits
      dest!: verified_envelope_InrD message_envelope_InrD delta_from_envelope_InrD)

fun rx_verifier :: "rx_op \<Rightarrow> verifier option" where
  "rx_verifier (RxFrame f v) = v"
| "rx_verifier (RxBytes bs v) = v"
| "rx_verifier (RxIq samples v) = v"
| "rx_verifier (RxPcm samples v) = v"
| "rx_verifier (RxSoft llrs v) = v"

lemma handed_inner: "m \<in> set (handed (snd (ingest_frame_inner r f v))) \<Longrightarrow> vouched v m"
proof -
  assume "m \<in> set (handed (snd (ingest_frame_inner r f v)))"
  then obtain r' where "ingest_frame_inner r f v = (r', Inr (Some m))"
    by (cases "ingest_frame_inner r f v") (auto simp: handed_def split: sum.splits option.splits)
  then obtain "validate_admission m v = Inr ()" by (rule ingest_delivers) simp
  then show "vouched v m" by (rule admission_vouched)
qed

lemma handed_bytes: "m \<in> set (handed (snd (ingest_frame_bytes r bs v))) \<Longrightarrow> vouched v m"
  by (auto simp: ingest_frame_bytes_def split: sum.splits intro: handed_inner) (simp add: handed_def)

lemma handed_frames:
  "ingest_frames r frames v ms = (r', Inr out) \<Longrightarrow> \<forall>m\<in>set ms. vouched v m \<Longrightarrow> \<forall>m\<in>set out. vouched v m"
proof (induction frames arbitrary: r ms)
  case (Cons f frames)
  obtain decoded where d: "frame_decode f = Inr decoded" using Cons.prems(1) by (auto split: sum.splits)
  obtain r1 o1 where i: "ingest_frame_inner r decoded v = (r1, o1)" by fastforce
  show ?case
  proof (cases o1)
    case (Inl e)
    then show ?thesis using Cons.prems(1) by (simp add: d i)
  next
    case (Inr om)
    show ?thesis
    proof (cases om)
      case None
      then show ?thesis using Cons Inr by (simp add: d i)
    next
      case (Some m)
      then have "vouched v m" using handed_inner[of m r decoded v] Inr i by (simp add: handed_def)
      then show ?thesis using Cons.IH[of r1 "ms @ [m]"] Cons.prems Inr Some by (simp add: d i)
    qed
  qed
qed simp

section \<open>Delivery and the replay windows\<close>

definition frame_step :: "air_receiver \<Rightarrow> sparse_radio_frame \<times> verifier option \<Rightarrow> air_receiver \<times> receive_output" where
  "frame_step r i = ingest_frame_inner r (fst i) (snd i)"

interpretation frame_receiver: machine receiver_inv frame_step
  by unfold_locales (simp add: frame_step_def ingest_frame_inv)

definition delivered_on :: "u16 \<Rightarrow> receive_output list \<Rightarrow> u16 list" where
  "delivered_on s outs = map rxm_sequence (filter (\<lambda>m. rxm_stream_id m = s) (concat (map handed outs)))"

lemma delivered_on_simps [simp]:
  "delivered_on s [] = []"
  "delivered_on s (Inl e # outs) = delivered_on s outs"
  "delivered_on s (Inr None # outs) = delivered_on s outs"
  "delivered_on s (Inr (Some m) # outs) = (if rxm_stream_id m = s then rxm_sequence m # delivered_on s outs else delivered_on s outs)"
  by (simp_all add: delivered_on_def handed_def)

text \<open>Every delivery is a successful commit to the window of its stream, and nothing else moves the
  windows: the deliveries of a stream are a run of its window without an error.\<close>

lemma window_of_cong: "rv_replay r = rv_replay r' \<Longrightarrow> window_of r s = window_of r' s"
  by (simp add: window_of_def)

lemma deliveries_commit:
  "receiver_inv r \<Longrightarrow> run_machine frame_step r inputs = (r', outs) \<Longrightarrow>
   run_machine replay_commit (window_of r s) (delivered_on s outs) =
     (window_of r' s, map (\<lambda>_. Inr ()) (delivered_on s outs))"
proof (induction inputs arbitrary: r outs)
  case (Cons i inputs)
  obtain r1 o1 where one: "frame_step r i = (r1, o1)" by fastforce
  obtain outs1 where rest: "run_machine frame_step r1 inputs = (r', outs1)" and outs: "outs = o1 # outs1"
    using Cons.prems(2) one by (auto simp: Let_def case_prod_beta) (metis prod.collapse)
  have inv1: "receiver_inv r1" using frame_receiver.step_inv[OF Cons.prems(1), of i] one by simp
  note IH = Cons.IH[OF inv1 rest]
  show ?case
  proof (cases "\<exists>m. o1 = Inr (Some m)")
    case True
    then obtain m where m: "o1 = Inr (Some m)" by blast
    obtain ra r2 where c: "commit_replay (r\<lparr> rv_state := Listening, rv_reassembler := ra \<rparr>) (rxm_stream_id m) (rxm_sequence m) = (r2, Inr ())"
      and r1: "r1 = r2\<lparr> rv_state := MessageReady \<rparr>"
      using ingest_delivers[of r "fst i" "snd i" r1 m] one m unfolding frame_step_def by blast
    let ?r0 = "r\<lparr> rv_state := Listening, rv_reassembler := ra \<rparr>"
    have d: "distinct (map sr_stream_id (rv_replay ?r0))" using Cons.prems(1) by (simp add: receiver_inv_def)
    have w: "window_of ?r0 k = window_of r k" "window_of r1 k = window_of r2 k" for k
      by (rule window_of_cong, simp add: r1)+
    show ?thesis
    proof (cases "rxm_stream_id m = s")
      case True
      then show ?thesis using IH commit_replay_ok(1)[OF c d] by (simp add: outs m w)
    next
      case False
      then show ?thesis using IH commit_replay_ok(2)[OF c d, of s] by (simp add: outs m w)
    qed
  next
    case False
    then have "rv_replay r1 = rv_replay r" using ingest_keeps_replay one unfolding frame_step_def by blast
    then have "window_of r1 s = window_of r s" by (rule window_of_cong)
    moreover have "delivered_on s outs = delivered_on s outs1"
      using False outs by (cases o1; cases "projr o1") auto
    ultimately show ?thesis using IH by simp
  qed
qed simp

lemma accepted_all: "accepted ns (map (\<lambda>_. Inr ()) ns) = ns"
  by (induction ns) auto

lemma ingest_rejected:
  assumes "ingest_frame_inner r frame verifier = (r', out)" and "\<And>m. out \<noteq> Inr (Some m)"
  shows "rv_replay r' = rv_replay r \<and> rv_config r' = rv_config r \<and> rv_state r' \<noteq> MessageReady"
proof -
  have "rv_state r' \<noteq> MessageReady"
    using assms unfolding ingest_frame_inner_def Let_def
    by (auto split: if_splits option.splits sum.splits prod.splits dest: commit_replay_error)
  then show ?thesis using ingest_keeps_replay[OF assms] ingest_config[OF assms(1)] by blast
qed

text \<open>A link over bytes and a frame that is a whole message.\<close>

definition demo_config :: receiver_config where
  "demo_config = \<lparr> rx_link = byte_link Wifi 16,
     rx_reassembly = \<lparr> rc_max_contexts = 2, rc_max_message_bytes = 120, rc_max_fragments = 2 \<rparr>,
     rx_max_streams = 2, rx_neural_assist = False \<rparr>"

definition demo_receiver :: air_receiver where
  "demo_receiver = \<lparr> rv_config = demo_config,
     rv_reassembler = \<lparr> ra_config = rx_reassembly demo_config, ra_contexts = [] \<rparr>, rv_replay = [],
     rv_soft_burst = soft_burst_new \<lparr> interleaver_columns = 1 \<rparr>, rv_assist = None, rv_state = Listening \<rparr>"

lemma demo_receiver_new: "receiver_new demo_config = Inr demo_receiver"
  by (simp add: receiver_new_def demo_receiver_def demo_config_def byte_link_def link_validate_def
      burst_codec_new_def reassembler_new_def)

definition demo_frame :: "u16 \<Rightarrow> sparse_radio_frame" where
  "demo_frame q = meta_frame \<lparr> m_profile = Wifi, m_flags = FLAGS_NONE, m_stream_id = 7, m_sequence = q,
     m_class = Telemetry, m_priority = 1, m_state_tag = 0 \<rparr> 0 1 [1, 2]"

definition demo_message :: "u16 \<Rightarrow> received_message" where
  "demo_message q = \<lparr> rxm_profile = Wifi, rxm_flags = FLAGS_NONE, rxm_stream_id = 7, rxm_sequence = q,
     rxm_class = Telemetry, rxm_priority = 1, rxm_state_tag = 0, rxm_bytes = [1, 2] \<rparr>"

lemma demo_run:
  "snd (run_machine frame_step demo_receiver [(demo_frame 9, None), (demo_frame 9, None), (demo_frame 10, None)]) =
     [Inr (Some (demo_message 9)), Inl Replay, Inr (Some (demo_message 10))]"
  by code_simp

section \<open>Properties\<close>

text \<open>C4. At most once: over any run of frames on a fresh receiver, the sequence numbers delivered on a
  stream, read as numbers that stay within half the 16-bit space of the highest before them, are
  distinct, whatever verifiers were given and however the frames of other streams interleave.\<close>

theorem delivered_at_most_once:
  assumes "receiver_new config = Inr r" and "run_machine frame_step r inputs = (r', outs)"
    and "delivered_on s outs = map word_of_int ns" and "in_half_run None ns"
  shows "distinct ns"
proof -
  have inv: "receiver_inv r" and "rv_replay r = []" using receiver_new_inv[OF assms(1)] by auto
  then have "window_of r s = replay_new" by (simp add: window_of_def)
  then have "snd (run_machine replay_commit replay_new (map word_of_int ns)) = map (\<lambda>_. Inr ()) ns"
    using deliveries_commit[OF inv assms(2), of s] assms(3) by (simp add: comp_def)
  moreover have "snd (run_machine replay_commit replay_new (map word_of_int ns)) = snd (run_machine abs_commit None ns)"
    using assms(4) window_rel_new by (intro run_refines) (simp_all add: abs_high_def)
  ultimately have "accepted ns (snd (run_machine abs_commit None ns)) = ns"
    by (simp add: accepted_all)
  then show ?thesis using abs_run_distinct[of None ns] by (simp add: abs_wf_def)
qed

theorem delivered_at_most_once_witness:
  "distinct [9 :: int, 10] \<and> delivered_on 7 (snd (run_machine frame_step demo_receiver
     [(demo_frame 9, None), (demo_frame 9, None), (demo_frame 10, None)])) = [9, 10]"
proof
  obtain r' outs where run: "run_machine frame_step demo_receiver
      [(demo_frame 9, None), (demo_frame 9, None), (demo_frame 10, None)] = (r', outs)" by fastforce
  then have outs: "delivered_on 7 outs = map word_of_int [9, 10]" using demo_run by (simp add: demo_message_def)
  show "distinct [9 :: int, 10]" by (rule delivered_at_most_once[OF demo_receiver_new run outs]) simp
  show "delivered_on 7 (snd (run_machine frame_step demo_receiver
      [(demo_frame 9, None), (demo_frame 9, None), (demo_frame 10, None)])) = [9, 10]" using run outs by simp
qed

text \<open>C12. A receiver stays bounded and consistent through every mixture of entry points: at most
  \<open>max_streams\<close> replay windows with one per stream, a bounded reassembly table and a bounded
  deframer.\<close>

theorem receiver_stays_bounded:
  assumes "receiver_new config = Inr r"
  shows "receiver_inv (fst (run_machine (rx_step L) r ops))"
  using assms receiver_new_inv by (intro receiver.run_inv) blast

theorem receiver_stays_bounded_witness:
  "receiver_inv (fst (run_machine (rx_step demo_libm) demo_receiver [RxFrame (demo_frame 9) None, RxBytes [1, 2] None, RxSoft [5] None]))"
  by (rule receiver_stays_bounded[OF demo_receiver_new])

text \<open>A frame that does not complete an admitted message changes no replay window, so a rejected,
  forged or partial message never uses up a sequence number; and a signed frame without a verifier
  is refused with its partial message forgotten.\<close>

theorem rejected_leaves_windows:
  assumes "ingest_frame_inner r frame verifier = (r', out)" and "\<And>m. out \<noteq> Inr (Some m)"
  shows "rv_replay r' = rv_replay r \<and> rv_config r' = rv_config r \<and> rv_state r' \<noteq> MessageReady"
  by (rule ingest_rejected[OF assms])

theorem rejected_leaves_windows_witness:
  "rv_replay (fst (ingest_frame_inner demo_receiver ((demo_frame 9)\<lparr> f_profile := Ble \<rparr>) None)) = []"
proof -
  have "ingest_frame_inner demo_receiver ((demo_frame 9)\<lparr> f_profile := Ble \<rparr>) None = (demo_receiver, Inl InvalidProfile)"
    by (simp add: ingest_frame_inner_def demo_receiver_def demo_config_def byte_link_def demo_frame_def)
  from rejected_leaves_windows[OF this] show ?thesis
    by (simp add: demo_receiver_def ingest_frame_inner_def demo_config_def byte_link_def demo_frame_def)
qed

end
