(* ===== verification/Air_Session.thy ===== *)
theory Air_Session
  imports Air_Receiver
begin

text \<open>
  \<open>latentmesh-air-radio\<close>, end to end: what \<open>transmitter.rs\<close> queues and modulates, \<open>receiver.rs\<close>
  demodulates, reassembles and admits. The theory defines no part of the program beyond the two
  adapters that hand a transmission to the matching entry point of the receiver; it composes the
  lemmas of the modem, the burst codec, the fragmenter, the reassembler and the receiver.
\<close>

section \<open>The transmitter's queue\<close>

datatype tx_op =
    TxMessage u16 semantic_class u8 u16 bytes
  | TxDelta u16 semantic_delta u8 "signature option"
  | TxNext

fun tx_step :: "libm \<Rightarrow> air_transmitter \<Rightarrow> tx_op \<Rightarrow> air_transmitter \<times> transmission option air_result" where
  "tx_step L t (TxMessage s c p tag msg) = (let (t', out) = enqueue_message t s c p tag msg in (t', rbind out (\<lambda>_. Inr None)))"
| "tx_step L t (TxDelta s d p sig) = (let (t', out) = enqueue_delta_with_signature t s d p sig in (t', rbind out (\<lambda>_. Inr None)))"
| "tx_step L t TxNext = next_transmission L t"

lemma fragments_encode:
  assumes "fragment_message (message_meta t s c p tag flags) msg mtu = Inr fs" and "flag_bits flags AND 0x0f = 0"
    and "f \<in> set fs" and "f_priority f \<le> 15"
  shows "\<exists>bs. frame_encode f = Inr bs \<and> length bs \<le> mtu"
proof -
  let ?meta = "message_meta t s c p tag flags"
  obtain ps where "fs = frames_of ?meta ps" by (rule fragment_message_frames[OF assms(1)])
  then have "f_priority f = p" using assms(3) by (auto simp: frames_of_def meta_frame_def message_meta_def)
  then have "meta_ok ?meta" using assms(2,4) by (simp add: meta_ok_def message_meta_def)
  then show ?thesis using message_frames_encode[OF assms(1) _ assms(3)] by blast
qed

lemma enqueue_cases:
  assumes "enqueue_message_with_flags t s c p tag msg flags = (t', out)"
  obtains (refused) e where "out = Inl e" and "t' = t"
  | (queued) fs where "out = Inr (tx_next_sequence t)"
      and "fragment_message (message_meta t s c p tag flags) msg (lc_frame_mtu (tc_link (tx_config t))) = Inr fs"
      and "length (tx_queue t) + length fs \<le> tc_max_queued_frames (tx_config t)"
      and "t' = t\<lparr> tx_queue := tx_queue t @ fs, tx_next_sequence := tx_next_sequence t + 1 \<rparr>"
proof (cases "fragment_message (message_meta t s c p tag flags) msg (lc_frame_mtu (tc_link (tx_config t)))")
  case (Inl e)
  then have "out = Inl e" "t' = t" using assms by (simp_all add: enqueue_message_with_flags_def)
  then show thesis by (rule refused)
next
  case (Inr fs)
  let ?n = "length (tx_queue t) + length fs"
  let ?t = "t\<lparr> tx_queue := tx_queue t @ fs, tx_next_sequence := tx_next_sequence t + 1 \<rparr>"
  have t': "(t', out) = (if ?n \<ge> 2 ^ 64 \<or> ?n > tc_max_queued_frames (tx_config t) then (t, Inl LimitExceeded)
      else (?t, Inr (tx_next_sequence t)))"
    unfolding assms[symmetric] by (simp add: enqueue_message_with_flags_def Inr Let_def)
  show thesis
  proof (cases "?n \<ge> 2 ^ 64 \<or> ?n > tc_max_queued_frames (tx_config t)")
    case True
    then show thesis using t' by (intro refused) (simp_all only: if_True prod.inject)
  next
    case False
    then have "\<not> ?n > tc_max_queued_frames (tx_config t)" "(t', out) = (?t, Inr (tx_next_sequence t))"
      using t' by (simp_all only: if_False de_Morgan_disj not_False_eq_True simp_thms)
    then show thesis using queued[OF _ Inr] by (simp only: prod.inject not_less)
  qed
qed

lemma enqueue_inv:
  assumes "transmitter_inv t" and "flag_bits flags AND 0x0f = 0"
  shows "transmitter_inv (fst (enqueue_message_with_flags t s c p tag msg flags))"
proof -
  obtain t' out where e: "enqueue_message_with_flags t s c p tag msg flags = (t', out)" by fastforce
  then show ?thesis
  proof (cases rule: enqueue_cases)
    case refused
    then show ?thesis using assms(1) e by simp
  next
    case (queued fs)
    then show ?thesis
      using assms(1) e fragments_encode[OF queued(2) assms(2)] by (auto simp: transmitter_inv_def)
  qed
qed

lemma transmitter_new_inv:
  "transmitter_new config = Inr t \<Longrightarrow> link_flags_ok (tc_link config) \<Longrightarrow>
   transmitter_inv t \<and> tx_config t = config \<and> tx_queue t = [] \<and> tx_next_sequence t = tc_initial_sequence config"
  by (auto simp: transmitter_new_def transmitter_inv_def split: if_splits)

lemma next_inv: "transmitter_inv t \<Longrightarrow> transmitter_inv (fst (next_transmission L t))"
  by (auto simp: next_transmission_def next_frame_def transmitter_inv_def split: list.split)

lemma signed_flag_ok [simp]: "flag_bits SIGNED_ENVELOPE AND 0x0f = 0"
  by (simp add: SIGNED_ENVELOPE_def)

lemma delta_enqueue_inv: "transmitter_inv t \<Longrightarrow> transmitter_inv (fst (enqueue_delta_with_signature t s d p sig))"
proof -
  assume inv: "transmitter_inv t"
  then have f: "flag_bits (lc_flags (tc_link (tx_config t))) AND 0x0f = 0"
    by (simp add: transmitter_inv_def link_flags_ok_def)
  have logical: "transmitter_inv (t'\<lparr> tx_next_logical_sequence := n \<rparr>) = transmitter_inv t'" for t' n
    by (simp add: transmitter_inv_def)
  show ?thesis
    using enqueue_inv[OF inv f] enqueue_inv[OF inv flags_union_valid[OF f signed_flag_ok]]
    by (auto simp: enqueue_delta_with_signature_def Let_def case_prod_beta inv logical split: sum.split)
qed

lemma tx_step_inv: "transmitter_inv t \<Longrightarrow> transmitter_inv (fst (tx_step L t op))"
  using enqueue_inv[of t "lc_flags (tc_link (tx_config t))"] delta_enqueue_inv next_inv
  by (cases op) (auto simp: enqueue_message_def case_prod_beta Let_def transmitter_inv_def link_flags_ok_def)

interpretation transmitter: machine transmitter_inv "tx_step L" for L
  by unfold_locales (rule tx_step_inv)

section \<open>One frame over the air\<close>

text \<open>Links whose waveform provably survives a silent channel: bytes, and BPSK up to 238 samples per
  symbol (the longest burst then stays below the sample limit) and down to an amplitude of
  2 to the -100.\<close>

definition carrying :: "link_config \<Rightarrow> bool" where
  "carrying link \<longleftrightarrow> (case lc_modulation link of
     ByteTransport \<Rightarrow> True
   | Bpsk c \<Rightarrow> unat (bp_samples_per_symbol c) \<le> 238 \<and> pow2 (- 100) \<le> fp_value (bp_amplitude c)
   | Cpfsk c \<Rightarrow> False)"

fun receive :: "libm \<Rightarrow> verifier option \<Rightarrow> air_receiver \<Rightarrow> transmission \<Rightarrow> air_receiver \<times> receive_output" where
  "receive L v r (TxBytes f bs) = ingest_frame_bytes r bs v"
| "receive L v r (TxIq f samples) = ingest_iq_burst L r samples v"
| "receive L v r (TxPcm f samples) = ingest_pcm_burst L r samples v"

lemma burst_length:
  assumes "burst_encode codec frame = Inr bits" and "length frame \<le> 256"
  shows "length bits \<le> 4188 \<and> bit_list bits"
proof -
  obtain code coded where "convolutional_encode (bytes_to_bits_msb frame) = Inr code" "length coded = length code"
    "bits = sync_bits @ length_bits (word_of_nat (length coded)) @ coded" "bit_list coded"
    by (rule burst_encode_parts[OF assms(1)]) blast
  moreover from this have "length coded \<le> 4108" using assms(2) by (auto simp: convolutional_encode_iff)
  ultimately show ?thesis using bit_list_sync bit_list_length_bits
    by (simp add: bit_list_iff ball_Un del: bit_list_sync bit_list_length_bits)
qed

lemma decode_aligned_clean:
  assumes "burst_encode codec frame = Inr bits" and "clean llrs bits"
  shows "decode_aligned codec llrs = Inr frame"
proof -
  from assms(1) obtain code coded where code: "convolutional_encode (bytes_to_bits_msb frame) = Inr code"
    and copy: "interleave_copy code (interleaver_columns codec) = Inr coded"
    and bits: "bits = sync_bits @ length_bits (word_of_nat (length coded)) @ coded" and ok: "coded_len_ok (length coded)"
    and n: "unat (word_of_nat (length coded) :: u16) = length coded" and bl: "bit_list coded"
    by (rule burst_encode_parts) blast
  obtain sync header payload where l: "llrs = sync @ header @ payload" "length sync = 32" "length header = 48"
    "sign_bits sync = sync_bits" "sign_bits header = length_bits (word_of_nat (length coded))" "clean payload coded"
    using sign_bits_clean_parts[OF assms(2)[unfolded bits]] bl by auto
  have "length payload = length coded" using l(6) by (simp add: clean_def list_all2_lengthD)
  moreover have "distance (sign_bits sync) sync_bits \<le> 3"
    by (simp add: l distance_def zip_same_conv_map filter_map comp_def)
  ultimately show ?thesis
    using decode_aligned_parts[OF l(2), of header "word_of_nat (length coded)" payload codec] l n ok header_close_refl
      decode_coded_clean[OF code copy l(6)] by simp
qed

lemma frame_crosses:
  assumes link: "link_validate link = Inr ()" "carrying link" and f: "frame_encode f = Inr bs" "length bs \<le> lc_frame_mtu link"
    and r: "rx_link (rv_config r) = link" "rv_assist r = None"
  obtains x where "modulate_frame L link f bs = Inr x" and "receive L v r x = frame_step r (f, v)"
proof -
  have dec: "frame_decode bs = Inr f" by (rule frame_decode_encode[OF f(1)])
  then have bytes: "ingest_frame_bytes r bs v = frame_step r (f, v)"
    by (simp add: ingest_frame_bytes_def frame_step_def ingest_frame_inner_def)
  show thesis
  proof (cases "lc_modulation link")
    case ByteTransport
    then show thesis using that[of "TxBytes f bs"] bytes by (simp add: modulate_frame_def)
  next
    case (Bpsk c)
    let ?n = "lc_interleaver_columns link" and ?m = "\<lparr> bm_config = c \<rparr>"
    have codec: "burst_codec_new ?n = Inr \<lparr> interleaver_columns = ?n \<rparr>" (is "_ = Inr ?codec")
      using link(1) by (auto simp: link_validate_def burst_codec_new_def split: if_splits)
    have m: "bpsk_new c = Inr ?m"
      using link(1) Bpsk by (auto simp: link_validate_def bpsk_new_def split: if_splits)
    have len: "length bs \<le> 256" using f(2) link(1) by (auto simp: link_validate_def split: if_splits)
    obtain bits where bits: "burst_encode ?codec bs = Inr bits"
      using burst_encode_ok[OF burst_codec_new_ok[OF codec] len] by blast
    have bl: "length bits \<le> 4188" "bit_list bits" using burst_length[OF bits len] by simp_all
    have w: "unat (bp_samples_per_symbol c) \<le> 238" and a: "pow2 (- 100) \<le> fp_value (bp_amplitude c)"
      using link(2) Bpsk by (simp_all add: carrying_def)
    have "length bits * unat (bp_samples_per_symbol c) \<le> 4188 * 238" by (rule mult_le_mono[OF bl(1) w])
    moreover have "\<not> list_ex (\<lambda>b. 1 < b) bits" using bl(2) by (auto simp: list_ex_iff bit_list_iff)
    ultimately obtain samples where s: "bpsk_modulate ?m bits = Inr samples"
      using bl(1) by (simp add: bpsk_modulate_def Let_def)
    obtain llrs where llrs: "bpsk_demodulate_soft ?m samples = Inr llrs" "clean llrs bits"
      by (rule bpsk_soft_clean[OF m a s])
    have "modulate_frame L link f bs = Inr (TxIq f samples)"
      by (simp add: modulate_frame_def Bpsk codec bits m s)
    moreover have "decode_iq_burst L r samples = Inr bs"
      by (simp add: decode_iq_burst_def r Bpsk m llrs(1) assist_llrs_def codec decode_aligned_clean[OF bits llrs(2)])
    then have "receive L v r (TxIq f samples) = frame_step r (f, v)"
      by (simp add: ingest_iq_burst_def bytes)
    ultimately show thesis by (rule that)
  next
    case (Cpfsk c)
    then show thesis using link(2) by (simp add: carrying_def)
  qed
qed

section \<open>A whole message over the air\<close>

text \<open>The frames of one message, handed to a receiver that has no committed stream yet.\<close>

definition admits_frame :: "air_receiver \<Rightarrow> verifier option \<Rightarrow> sparse_radio_frame \<Rightarrow> bool" where
  "admits_frame r v f \<longleftrightarrow> f_profile f = lc_profile (rx_link (rv_config r)) \<and>
     flags_contains (lc_flags (rx_link (rv_config r))) FEC = flags_contains (f_flags f) FEC \<and>
     (flags_contains (f_flags f) SIGNED_ENVELOPE \<longrightarrow> v \<noteq> None)"

lemma frame_step_partial:
  assumes "rv_replay r = []" and "admits_frame r v f" and "reassembler_push (rv_reassembler r) f = (ra, Inr None)"
  shows "frame_step r (f, v) = (r\<lparr> rv_state := Reassembling, rv_reassembler := ra \<rparr>, Inr None)"
  using assms by (simp add: frame_step_def ingest_frame_inner_def replay_check_def admits_frame_def Let_def)

lemma commit_first: "rv_replay r = [] \<Longrightarrow> 0 < rx_max_streams (rv_config r) \<Longrightarrow> \<exists>r'. commit_replay r s q = (r', Inr ())"
  by (simp add: commit_replay_def replay_commit_def replay_classify_def replay_new_def Let_def)

lemma frame_step_complete:
  assumes "rv_replay r = []" and "admits_frame r v f" and "reassembler_push (rv_reassembler r) f = (ra, Inr (Some whole))"
    and "validate_admission (received whole) v = Inr ()" and "0 < rx_max_streams (rv_config r)"
  shows "snd (frame_step r (f, v)) = Inr (Some (received whole))"
proof -
  obtain r' where "commit_replay (r\<lparr> rv_state := Listening, rv_reassembler := ra \<rparr>)
      (rxm_stream_id (received whole)) (rxm_sequence (received whole)) = (r', Inr ())"
    using commit_first[of "r\<lparr> rv_state := Listening, rv_reassembler := ra \<rparr>"] assms(1,5) by auto
  then show ?thesis
    using assms by (simp add: frame_step_def ingest_frame_inner_def replay_check_def admits_frame_def Let_def)
qed

lemma frames_delivered:
  assumes "rv_replay r = []" and "0 < rx_max_streams (rv_config r)" and "\<And>g. g \<in> set (hs @ [f]) \<Longrightarrow> admits_frame r v g"
    and "snd (run_machine reassembler_push (rv_reassembler r) (hs @ [f])) =
      replicate (length hs) (Inr None) @ [Inr (Some whole)]"
    and "validate_admission (received whole) v = Inr ()"
  shows "snd (run_machine frame_step r (map (\<lambda>g. (g, v)) (hs @ [f]))) =
    replicate (length hs) (Inr None) @ [Inr (Some (received whole))]"
  using assms
proof (induction hs arbitrary: r)
  case Nil
  obtain ra o1 where push: "reassembler_push (rv_reassembler r) f = (ra, o1)" by fastforce
  then have "o1 = Inr (Some whole)" using Nil.prems(4) by simp
  then have "snd (frame_step r (f, v)) = Inr (Some (received whole))"
    using frame_step_complete[OF Nil.prems(1) _ _ Nil.prems(5,2)] Nil.prems(3) push by simp
  then show ?case by (simp add: case_prod_beta)
next
  case (Cons h hs)
  obtain ra o1 where push: "reassembler_push (rv_reassembler r) h = (ra, o1)" by fastforce
  let ?r = "r\<lparr> rv_state := Reassembling, rv_reassembler := ra \<rparr>"
  have o1: "o1 = Inr None" and rest: "snd (run_machine reassembler_push ra (hs @ [f])) =
      replicate (length hs) (Inr None) @ [Inr (Some whole)]"
    using Cons.prems(4) push by (simp_all add: run_Cons_proj del: run_machine.simps)
  have same: "admits_frame ?r v g = admits_frame r v g" for g by (simp add: admits_frame_def)
  have adm: "admits_frame ?r v g" if "g \<in> set (hs @ [f])" for g
    using Cons.prems(3)[of g] that same by simp
  have "snd (run_machine frame_step ?r (map (\<lambda>g. (g, v)) (hs @ [f]))) =
      replicate (length hs) (Inr None) @ [Inr (Some (received whole))]"
    using Cons.prems(1,2) by (intro Cons.IH Cons.prems(5)) (simp_all add: adm rest)
  moreover have "frame_step r (h, v) = (?r, Inr None)"
    using frame_step_partial[OF Cons.prems(1) _ push[unfolded o1]] Cons.prems(3) by simp
  ultimately show ?case by (simp add: run_Cons_proj del: run_machine.simps)
qed

text \<open>Draining the queue, and handing every transmission to the receiver.\<close>

abbreviation drained :: "libm \<Rightarrow> air_transmitter \<Rightarrow> transmission option air_result list" where
  "drained L t \<equiv> snd (run_machine (tx_step L) t (replicate (length (tx_queue t)) TxNext))"

lemma queue_crosses:
  assumes "link_validate link = Inr ()" and "carrying link" and "tc_link (tx_config t) = link"
    and "\<And>f. f \<in> set (tx_queue t) \<Longrightarrow> \<exists>bs. frame_encode f = Inr bs \<and> length bs \<le> lc_frame_mtu link"
    and "rx_link (rv_config r) = link" and "rv_assist r = None"
  shows "\<exists>txs. drained L t = map (\<lambda>x. Inr (Some x)) txs \<and>
    snd (run_machine (receive L v) r txs) = snd (run_machine frame_step r (map (\<lambda>f. (f, v)) (tx_queue t)))"
  using assms
proof (induction "tx_queue t" arbitrary: t r)
  case Nil
  then show ?case by (intro exI[of _ "[]"]) (simp flip: Nil.hyps)
next
  case (Cons f fs)
  let ?t = "t\<lparr> tx_queue := fs \<rparr>"
  have q: "tx_queue t = f # fs" by (rule Cons.hyps(2)[symmetric])
  obtain bs where bs: "frame_encode f = Inr bs" "length bs \<le> lc_frame_mtu link"
    using Cons.prems(4)[of f] q by auto
  obtain x where x: "modulate_frame L link f bs = Inr x" "receive L v r x = frame_step r (f, v)"
    by (rule frame_crosses[OF Cons.prems(1,2) bs Cons.prems(5,6)])
  obtain r1 o1 where one: "frame_step r (f, v) = (r1, o1)" by fastforce
  have keep: "rx_link (rv_config r1) = link" "rv_assist r1 = None"
    using ingest_config[of r f v r1 o1] one Cons.prems(5,6) by (simp_all add: frame_step_def)
  have next_t: "tx_step L t TxNext = (?t, Inr (Some x))"
    using bs(1) x(1) Cons.prems(3) by (simp add: next_transmission_def next_frame_def q)
  have "fs = tx_queue ?t" by simp
  moreover have "tc_link (tx_config ?t) = link" using Cons.prems(3) by simp
  moreover have "\<exists>bs. frame_encode g = Inr bs \<and> length bs \<le> lc_frame_mtu link" if "g \<in> set (tx_queue ?t)" for g
    using Cons.prems(4)[of g] that q by simp
  ultimately obtain txs where txs: "drained L ?t = map (\<lambda>x. Inr (Some x)) txs"
    "snd (run_machine (receive L v) r1 txs) = snd (run_machine frame_step r1 (map (\<lambda>f. (f, v)) (tx_queue ?t)))"
    using Cons.hyps(1)[OF _ Cons.prems(1,2) _ _ keep] by blast
  have "drained L t = map (\<lambda>x. Inr (Some x)) (x # txs)"
    using txs(1) next_t by (simp add: q run_Cons_proj del: run_machine.simps tx_step.simps)
  moreover have "snd (run_machine (receive L v) r (x # txs)) = snd (run_machine frame_step r (map (\<lambda>f. (f, v)) (tx_queue t)))"
    using txs(2) x(2) one by (simp add: q run_Cons_proj del: run_machine.simps)
  ultimately show ?case by blast
qed

text \<open>The configuration of the two ends, and the message in the queue of a fresh transmitter.\<close>

definition matched :: "transmitter_config \<Rightarrow> receiver_config \<Rightarrow> bool" where
  "matched tc rc \<longleftrightarrow> rx_link rc = tc_link tc \<and> carrying (tc_link tc) \<and> link_flags_ok (tc_link tc) \<and> \<not> rx_neural_assist rc"

lemma flags_fec_signed: "flags_contains (flags_union fl SIGNED_ENVELOPE) FEC = flags_contains fl FEC"
  by (simp add: flags_contains_def flags_union_def SIGNED_ENVELOPE_def FEC_def bit.conj_disj_distrib2)

lemma queued_message_crosses:
  fixes tc :: transmitter_config and rc :: receiver_config
  assumes ends: "transmitter_new tc = Inr t" "receiver_new rc = Inr r" "matched tc rc"
    and flags: "flags = lc_flags (tc_link tc) \<or> flags = flags_union (lc_flags (tc_link tc)) SIGNED_ENVELOPE"
    and enq: "enqueue_message_with_flags t s c p tag msg flags = (t', Inr q)" and p: "p \<le> 15"
    and fits: "length msg \<le> rc_max_message_bytes (rx_reassembly rc)"
      "length (tx_queue t') \<le> unat (rc_max_fragments (rx_reassembly rc))"
    and adm: "validate_admission (received (whole_message (message_meta t s c p tag flags) msg)) v = Inr ()"
    and v: "flags_contains flags SIGNED_ENVELOPE \<Longrightarrow> v \<noteq> None"
  shows "\<exists>txs. drained L t' = map (\<lambda>x. Inr (Some x)) txs \<and> 0 < length txs \<and>
    snd (run_machine (receive L v) r txs) = replicate (length txs - 1) (Inr None) @
      [Inr (Some (received (whole_message (message_meta t s c p tag flags) msg)))]"
proof -
  let ?meta = "message_meta t s c p tag flags"
  have fok: "link_flags_ok (tc_link tc)" and link: "carrying (tc_link tc)" "rx_link rc = tc_link tc" "\<not> rx_neural_assist rc"
    using ends(3) by (simp_all add: matched_def)
  have t: "transmitter_inv t" "tx_config t = tc" "tx_queue t = []" using transmitter_new_inv[OF ends(1) fok] by simp_all
  have lv: "link_validate (tc_link tc) = Inr ()" using t(1,2) by (simp add: transmitter_inv_def)
  have fl: "flag_bits flags AND 0x0f = 0"
    using flags fok flags_union_valid[OF _ signed_flag_ok] by (auto simp: link_flags_ok_def)
  have meta: "meta_ok ?meta" using p fl by (simp add: meta_ok_def message_meta_def)
  obtain fs where fs: "fragment_message ?meta msg (lc_frame_mtu (tc_link tc)) = Inr fs" and q: "tx_queue t' = fs"
    and t'c: "tx_config t' = tc"
    using enq t by (cases rule: enqueue_cases) auto
  obtain ps where ps: "fs = frames_of ?meta ps" "0 < length ps" "length ps \<le> 32"
    by (rule fragment_message_frames[OF fs]) blast
  have "fs \<noteq> []" using ps(1,2) by (auto simp: frames_of_def)
  then obtain hs f where hf: "fs = hs @ [f]" by (metis rev_exhaust)
  have "distinct (hs @ [f])" using frames_of_distinct[of ps ?meta] ps(1,3) hf by simp
  then have dist: "f \<notin> set hs" by simp
  have r: "rv_replay r = []" "rv_config r = rc" "reassembler_inv (rv_reassembler r)"
    using receiver_new_inv[OF ends(2)] by (auto simp: receiver_inv_def)
  have rr: "ra_contexts (rv_reassembler r) = []" "ra_config (rv_reassembler r) = rx_reassembly rc" "rv_assist r = None"
    "0 < rx_max_streams rc"
    using ends(2) link(3) by (auto simp: receiver_new_def reassembler_new_def split: if_splits)
  have "snd (run_machine reassembler_push (rv_reassembler r) (hs @ [f])) =
      replicate (length hs) (Inr None) @ [Inr (Some (whole_message ?meta msg))]"
    using fits q dist hf rr by (intro delivers_alone[OF fs meta _ _ r(3)]) simp_all
  moreover have "admits_frame r v g" if "g \<in> set (hs @ [f])" for g
  proof -
    have "g \<in> set (frames_of ?meta ps)" using that unfolding hf[symmetric] ps(1) .
    then have "f_profile g = lc_profile (tc_link tc)" "f_flags g = flags"
      using t(2) by (auto simp: frames_of_def meta_frame_def message_meta_def)
    then show ?thesis using flags v r(2) link(2) by (auto simp: admits_frame_def flags_fec_signed)
  qed
  ultimately have frames: "snd (run_machine frame_step r (map (\<lambda>g. (g, v)) (tx_queue t'))) =
      replicate (length hs) (Inr None) @ [Inr (Some (received (whole_message ?meta msg)))]"
    using frames_delivered[of r hs f v "whole_message ?meta msg"] r rr adm q hf by simp
  have "\<exists>bs. frame_encode g = Inr bs \<and> length bs \<le> lc_frame_mtu (tc_link tc)" if "g \<in> set (tx_queue t')" for g
    using message_frames_encode[OF fs meta] that q by blast
  then obtain txs where txs: "drained L t' = map (\<lambda>x. Inr (Some x)) txs"
    "snd (run_machine (receive L v) r txs) = snd (run_machine frame_step r (map (\<lambda>g. (g, v)) (tx_queue t')))"
    using queue_crosses[OF lv link(1), of t' r L v] t'c r link rr by auto
  have "length (snd (run_machine (receive L v) r txs)) = length hs + 1" by (simp add: txs(2) frames)
  then have "length txs = length hs + 1" by simp
  then show ?thesis using txs frames by (intro exI[of _ txs]) simp
qed

text \<open>A state delta in its envelope passes the receiver's admission, and its application is the one
  of the delta.\<close>

lemma flags_signed_union: "flags_contains (flags_union fl SIGNED_ENVELOPE) SIGNED_ENVELOPE"
proof -
  have "(x OR 2) AND 2 = (2 :: u8)" for x by (simp add: bit.conj_disj_distrib2 word_ao_absorbs)
  then show ?thesis by (simp add: flags_contains_def flags_union_def SIGNED_ENVELOPE_def)
qed

definition delta_message :: "fragment_meta \<Rightarrow> semantic_envelope \<Rightarrow> bytes \<Rightarrow> bool" where
  "delta_message meta e encoded \<longleftrightarrow> envelope_encode e = Inr encoded \<and> m_class meta = StateDelta \<and> e_class e = StateDelta \<and>
     m_priority meta = e_priority e \<and> m_state_tag meta = state_hash_tag (to_be_bytes (e_state_hash e)) \<and>
     flags_contains (m_flags meta) SIGNED_ENVELOPE = (e_signature e \<noteq> None)"

definition trusts :: "verifier option \<Rightarrow> semantic_envelope \<Rightarrow> bool" where
  "trusts v e \<longleftrightarrow> (case e_signature e of None \<Rightarrow> True | Some signature \<Rightarrow>
     (case v of None \<Rightarrow> False
      | Some verify \<Rightarrow> (case authentication_bytes e of Inl _ \<Rightarrow> True | Inr auth \<Rightarrow> verify auth signature)))"

lemma delta_message_delta:
  assumes "delta_message meta e encoded" and "unwrap_delta e = Inr d" and "d_result_hash d = e_state_hash e"
    and "m = received (whole_message meta encoded)" and "trusts v e"
  shows "message_envelope m = Inr e" and "delta_from_envelope m e = Inr d" and "validate_admission m v = Inr ()"
    and "e_signature e = None \<Longrightarrow> message_delta m = Inr d"
    and "e_signature e = Some sg \<Longrightarrow> v = Some verify \<Longrightarrow> message_delta_verified m verify = Inr d"
proof -
  have ok: "envelope_ok e" using assms(1) by (auto simp: delta_message_def envelope_encode_iff)
  have dec: "envelope_decode encoded = Inr e" using assms(1) by (auto simp: delta_message_def intro: envelope.dec_enc)
  show env: "message_envelope m = Inr e"
    using assms(1,4) dec by (simp add: message_envelope_def received_def whole_message_def delta_message_def)
  show del: "delta_from_envelope m e = Inr d"
    using assms by (simp add: delta_from_envelope_def received_def whole_message_def delta_message_def)
  have cls: "rxm_class m = StateDelta" "flags_contains (rxm_flags m) SIGNED_ENVELOPE \<longleftrightarrow> e_signature e \<noteq> None"
    using assms(1,4) by (simp_all add: received_def whole_message_def delta_message_def)
  show "e_signature e = None \<Longrightarrow> message_delta m = Inr d" by (simp add: message_delta_def env del)
  have ver: "verified_envelope m verify = Inr e" if h: "e_signature e = Some sg" "v = Some verify" for sg verify
  proof -
    obtain auth where "authentication_bytes e = Inr auth"
      using assms(1) h(1) by (auto simp: authentication_bytes_def delta_message_def)
    then show ?thesis using h assms(5) by (simp add: verified_envelope_def env trusts_def)
  qed
  then show "e_signature e = Some sg \<Longrightarrow> v = Some verify \<Longrightarrow> message_delta_verified m verify = Inr d"
    by (simp add: message_delta_verified_def del)
  show "validate_admission m v = Inr ()"
  proof (cases "e_signature e")
    case None
    then show ?thesis using cls by (simp add: validate_admission_def validate_semantic_binding_def env del)
  next
    case (Some sg)
    then obtain verify where "v = Some verify" using assms(5) by (auto simp: trusts_def split: option.splits)
    then show ?thesis using cls Some ver by (simp add: validate_admission_def del)
  qed
qed

lemma enqueue_delta_queued:
  assumes "enqueue_delta_with_signature t s d p sig = (t', Inr q)"
  obtains e encoded t1 where "wrap_delta d p (tx_next_logical_sequence t) sig = Inr e" and "envelope_encode e = Inr encoded"
    and "enqueue_message_with_flags t s StateDelta p (state_hash_tag (to_be_bytes (d_result_hash d))) encoded
      (if sig \<noteq> None then flags_union (lc_flags (tc_link (tx_config t))) SIGNED_ENVELOPE else lc_flags (tc_link (tx_config t))) = (t1, Inr q)"
    and "t' = t1\<lparr> tx_next_logical_sequence := tx_next_logical_sequence t1 + 1 \<rparr>"
proof -
  obtain e where e: "wrap_delta d p (tx_next_logical_sequence t) sig = Inr e"
    using assms by (cases "wrap_delta d p (tx_next_logical_sequence t) sig") (simp_all add: enqueue_delta_with_signature_def)
  obtain encoded where enc: "envelope_encode e = Inr encoded"
    using assms e by (cases "envelope_encode e") (simp_all add: enqueue_delta_with_signature_def)
  have sig: "e_signature e = sig" using wrap_deltaD[OF e] by blast
  obtain t1 out where enq: "enqueue_message_with_flags t s StateDelta p (state_hash_tag (to_be_bytes (d_result_hash d))) encoded
      (if sig \<noteq> None then flags_union (lc_flags (tc_link (tx_config t))) SIGNED_ENVELOPE else lc_flags (tc_link (tx_config t))) = (t1, out)"
    by fastforce
  have "(case out of Inl e \<Rightarrow> (t1, Inl e) | Inr sequence \<Rightarrow>
      (t1\<lparr> tx_next_logical_sequence := tx_next_logical_sequence t1 + 1 \<rparr>, Inr sequence)) = (t', Inr q)"
    unfolding assms[symmetric] by (simp only: enqueue_delta_with_signature_def e enc sig enq Let_def rbind_simps sum.case prod.case)
  then show thesis using that[OF e enc] enq by (cases out) auto
qed

lemma logical_drained:
  "snd (run_machine (tx_step L) (t\<lparr> tx_next_logical_sequence := n \<rparr>) (replicate k TxNext)) =
   snd (run_machine (tx_step L) t (replicate k TxNext))"
proof (induction k arbitrary: t)
  case (Suc k)
  have "tx_step L (t\<lparr> tx_next_logical_sequence := n \<rparr>) TxNext =
      ((fst (tx_step L t TxNext))\<lparr> tx_next_logical_sequence := n \<rparr>, snd (tx_step L t TxNext))"
    by (simp add: next_transmission_def next_frame_def split: list.split)
  then show ?case using Suc by (simp add: run_Cons_proj del: run_machine.simps tx_step.simps)
qed simp

text \<open>A signed control message for the witness.\<close>

definition demo_control :: semantic_envelope where
  "demo_control = \<lparr> e_class = Control, e_priority = 1, e_source_id = 1, e_epoch = 2, e_message_id = 3,
     e_logical_sequence = 4, e_state_hash = 0, e_body = [], e_signature = Some 5 \<rparr>"

definition demo_signed_meta :: fragment_meta where
  "demo_signed_meta = \<lparr> m_profile = Wifi, m_flags = SIGNED_ENVELOPE, m_stream_id = 7, m_sequence = 9,
     m_class = Control, m_priority = 1, m_state_tag = state_hash_tag (to_be_bytes (0 :: 128 word)) \<rparr>"

lemma small_fragment: "msg \<noteq> [] \<Longrightarrow> length msg \<le> 240 \<Longrightarrow> fragment_message meta msg 256 = Inr [meta_frame meta 0 1 msg]"
proof -
  assume m: "msg \<noteq> []" "length msg \<le> 240"
  then have "chunks 240 msg = [msg]" by (simp add: chunks.simps[of _ msg])
  moreover have "div_ceil (length msg) 240 = 1" using m by (cases msg) (auto simp: div_ceil_def)
  ultimately show ?thesis using m by (simp add: fragment_message_def Let_def)
qed

lemma demo_signed_delivery:
  "\<exists>f m. snd (rx_step L demo_receiver (RxFrame f (Some (\<lambda>_ signature. signature = 5)))) = [m] \<and>
     flags_contains (rxm_flags m) SIGNED_ENVELOPE \<and> rxm_class m = Control"
proof -
  let ?v = "Some (\<lambda>_ signature. signature = (5 :: signature))"
  have ok: "envelope_ok demo_control" by (simp add: envelope_ok_iff demo_control_def signature_len_def)
  then obtain bs where bs: "envelope_encode demo_control = Inr bs" by (simp add: envelope_encode_iff)
  have dec: "envelope_decode bs = Inr demo_control" by (rule envelope.dec_enc[OF bs])
  have len: "length bs = 112"
    using bs envelope_encode_length[OF bs] by (simp add: envelope_encoded_len_def demo_control_def signature_len_def)
  let ?f = "meta_frame demo_signed_meta 0 1 bs" and ?whole = "whole_message demo_signed_meta bs"
  have "bs \<noteq> []" using len by auto
  then have fs: "fragment_message demo_signed_meta bs 256 = Inr [?f]" using len by (simp add: small_fragment)
  have inv: "reassembler_inv (rv_reassembler demo_receiver)"
    using receiver_new_inv[OF demo_receiver_new] by (simp add: receiver_inv_def)
  have "snd (run_machine reassembler_push (rv_reassembler demo_receiver) ([] @ [?f])) =
      replicate (length ([] :: sparse_radio_frame list)) (Inr None) @ [Inr (Some ?whole)]"
    by (rule delivers_alone[OF fs _ _ _ inv])
      (simp_all add: meta_ok_def demo_signed_meta_def demo_receiver_def demo_config_def len)
  then obtain ra where push: "reassembler_push (rv_reassembler demo_receiver) ?f = (ra, Inr (Some ?whole))"
    by (cases "reassembler_push (rv_reassembler demo_receiver) ?f") simp
  have sg: "e_signature demo_control = Some 5" by (simp add: demo_control_def)
  obtain auth where auth: "authentication_bytes demo_control = Inr auth"
    using bs sg by (simp add: authentication_bytes_def)
  have env: "message_envelope (received ?whole) = Inr demo_control"
    using dec by (simp add: message_envelope_def received_def whole_message_def)
      (simp add: demo_control_def demo_signed_meta_def flags_contains_def)
  have "rxm_class (received ?whole) = Control" "flags_contains (rxm_flags (received ?whole)) SIGNED_ENVELOPE"
    by (simp_all add: received_def whole_message_def demo_signed_meta_def flags_contains_def)
  then have "validate_admission (received ?whole) ?v = Inr ()"
    by (simp add: validate_admission_def verified_envelope_def env sg auth)
  then have "snd (frame_step demo_receiver (?f, ?v)) = Inr (Some (received ?whole))"
    using push by (intro frame_step_complete)
      (simp_all add: admits_frame_def demo_receiver_def demo_config_def byte_link_def meta_frame_def demo_signed_meta_def
        flags_contains_def FLAGS_NONE_def FEC_def SIGNED_ENVELOPE_def)
  then have "snd (rx_step L demo_receiver (RxFrame ?f ?v)) = [received ?whole]"
    by (simp add: frame_step_def handed_def case_prod_beta)
  then show ?thesis
    by (intro exI conjI) (auto simp: received_def whole_message_def demo_signed_meta_def flags_contains_def)
qed

text \<open>The links of the witnesses: the default HF link, and the same with long frames.\<close>

definition hf_link :: "nat \<Rightarrow> link_config" where
  "hf_link mtu = (for_profile HfBpsk)\<lparr> lc_frame_mtu := mtu \<rparr>"

lemma hf_link_parts [simp]:
  "lc_frame_mtu (hf_link n) = n" "lc_flags (hf_link n) = FEC" "carrying (hf_link n)" "lc_profile (hf_link n) = HfBpsk"
proof -
  have "pow2 (- 100) \<le> fp_value (Fin False (13421773 / 16777216))"
    by (simp add: pow2_def power_int_def power_one_over field_simps)
  then show "carrying (hf_link n)"
    unfolding carrying_def hf_link_def for_profile.simps profile_amplitudes by simp
qed (simp_all add: hf_link_def)

lemma hf_ends:
  assumes "16 \<le> n" and "n \<le> 256"
  obtains t r where "transmitter_new (transmitter_config_for_link (hf_link n)) = Inr t"
    and "receiver_new (receiver_config_for_link (hf_link n)) = Inr r"
    and "matched (transmitter_config_for_link (hf_link n)) (receiver_config_for_link (hf_link n))"
    and "tx_queue t = []" and "tx_config t = transmitter_config_for_link (hf_link n)"
proof -
  have lv: "link_validate (hf_link n) = Inr ()"
    using for_profile_valid[of HfBpsk] assms by (auto simp: link_validate_def hf_link_def split: if_splits)
  obtain t where t: "transmitter_new (transmitter_config_for_link (hf_link n)) = Inr t"
    using lv by (simp add: transmitter_new_def transmitter_config_for_link_def)
  have cols: "lc_interleaver_columns (hf_link n) = 17" by (simp add: hf_link_def)
  obtain r where r: "receiver_new (receiver_config_for_link (hf_link n)) = Inr r"
    using lv by (simp add: receiver_new_def receiver_config_for_link_def burst_codec_new_def reassembler_new_def cols
        reassembler_config_default_def)
  have m: "matched (transmitter_config_for_link (hf_link n)) (receiver_config_for_link (hf_link n))"
    by (simp add: matched_def transmitter_config_for_link_def receiver_config_for_link_def link_flags_ok_def FEC_def)
  then have "tx_queue t = []" "tx_config t = transmitter_config_for_link (hf_link n)"
    using transmitter_new_inv[OF t] by (simp_all add: matched_def)
  then show thesis by (rule that[OF t r m])
qed

lemma long_fragments:
  assumes "length msg \<le> 7680"
  shows "\<exists>fs. fragment_message meta msg 256 = Inr fs \<and> length fs \<le> 32"
proof -
  have "div_ceil (length msg) 240 \<le> 32" using assms by (simp add: div_ceil_def)
  then obtain fs where fs: "fragment_message meta msg 256 = Inr fs"
    using assms by (cases "msg = []") (auto simp: fragment_message_def Let_def)
  obtain ps where "fs = frames_of meta ps" "length ps \<le> 32" by (rule fragment_message_frames[OF fs]) blast
  then show ?thesis using fs by simp
qed

lemma enqueue_delta_fits:
  assumes "delta_ok d" and "tx_queue t = []" and "p \<le> 15" and "lc_frame_mtu (tc_link (tx_config t)) = 256"
    and "32 \<le> tc_max_queued_frames (tx_config t)"
  shows "\<exists>t' q. enqueue_delta_with_signature t s d p sig = (t', Inr q)"
proof -
  have body: "delta_encode d = Inr (delta_bytes d)" using assms(1) by (simp add: delta_encode_iff)
  have len: "length (delta_bytes d) \<le> 3444" using delta_bytes_length[OF assms(1)] by blast
  obtain e where e: "wrap_delta d p (tx_next_logical_sequence t) sig = Inr e"
    using len assms(3) by (auto simp: wrap_delta_def Let_def body envelope_validate_def signature_len_def not_less
        split: option.splits)
  then obtain encoded where enc: "envelope_encode e = Inr encoded"
    using wrap_deltaD[OF e] by (auto simp: envelope_encode_iff)
  have "length encoded \<le> 7680"
    using envelope_encode_length[OF enc] wrap_deltaD[OF e] by (auto simp: envelope_ok_iff envelope_encoded_len_def)
  then have fs: "\<exists>fs. fragment_message meta encoded 256 = Inr fs \<and> length fs \<le> 32" for meta by (rule long_fragments)
  have enq: "\<exists>t1 q1. enqueue_message_with_flags t s StateDelta p tag encoded flags = (t1, Inr q1)" for tag flags
  proof -
    obtain fs where "fragment_message (message_meta t s StateDelta p tag flags) encoded 256 = Inr fs" "length fs \<le> 32"
      using fs by blast
    then show ?thesis using assms(2,4,5) by (simp add: enqueue_message_with_flags_def)
  qed
  show ?thesis
    using enq[of "state_hash_tag (to_be_bytes (d_result_hash d))"
        "if e_signature e \<noteq> None then flags_union (lc_flags (tc_link (tx_config t))) SIGNED_ENVELOPE
         else lc_flags (tc_link (tx_config t))"]
    by (auto simp: enqueue_delta_with_signature_def e enc Let_def)
qed

lemma bad_frames_lost:
  assumes "\<And>f. f \<in> set (tx_queue t) \<Longrightarrow> 15 < f_priority f"
  shows "(\<forall>out\<in>set (drained L t). \<exists>e. out = Inl e) \<and>
    transmitter_state (fst (run_machine (tx_step L) t (replicate (length (tx_queue t)) TxNext))) = Idle"
  using assms
proof (induction "tx_queue t" arbitrary: t)
  case Nil
  then show ?case by (simp add: transmitter_state_def)
next
  case (Cons f fs)
  let ?t = "t\<lparr> tx_queue := fs \<rparr>"
  have q: "tx_queue t = f # fs" by (rule Cons.hyps(2)[symmetric])
  then have "15 < f_priority f" using Cons.prems by simp
  then have "frame_encode f \<noteq> Inr bs" for bs by (auto simp: frame_encode_Inr dest!: frame_okD(1))
  then obtain e where "frame_encode f = Inl e" by (cases "frame_encode f") auto
  then have step: "tx_step L t TxNext = (?t, Inl e)" by (simp add: next_transmission_def next_frame_def q)
  have "15 < f_priority g" if "g \<in> set (tx_queue ?t)" for g using Cons.prems[of g] that q by simp
  note IH = Cons.hyps(1)[of ?t, simplified, OF this[simplified]]
  have "run_machine (tx_step L) t (TxNext # ops) =
      (fst (run_machine (tx_step L) ?t ops), Inl e # snd (run_machine (tx_step L) ?t ops))" for ops
    by (simp only: run_machine.simps step Let_def prod.case case_prod_beta fst_conv snd_conv)
  then show ?case using IH by (simp add: q del: run_machine.simps tx_step.simps)
qed

section \<open>Properties\<close>

text \<open>C3. Nothing reaches the caller unvouched: whatever entry point a message comes through, a signed
  one was accepted by the verifier of that call over exactly its authentication bytes, and a state
  delta is the body of an envelope bound to the frame's priority, signed flag and hash tag.\<close>

theorem delivery_vouched:
  assumes "m \<in> set (snd (rx_step L r op))"
  shows "vouched (rx_verifier op) m"
proof (cases op)
  case (RxSoft llrs v)
  obtain r' out where s: "ingest_soft_stream r llrs v = (r', out)" by fastforce
  then obtain ms where "out = Inr ms" "m \<in> set ms" using assms RxSoft by (auto split: sum.splits)
  moreover from this s obtain r1 frames where "ingest_frames r1 frames v [] = (r', Inr ms)"
    by (auto simp: ingest_soft_stream_def split: prod.splits sum.splits)
  ultimately show ?thesis using handed_frames[of r1 frames v "[]" r' ms] RxSoft by simp
qed (use assms handed_inner handed_bytes in \<open>auto simp: case_prod_beta Let_def ingest_iq_burst_def ingest_pcm_burst_def
    handed_def split: sum.splits\<close>)

theorem delivery_vouched_witness:
  "\<exists>m e auth. vouched (Some (\<lambda>_ signature. signature = 5)) m \<and>
     envelope_decode (rxm_bytes m) = Inr e \<and> e_signature e = Some 5 \<and> authentication_bytes e = Inr auth"
proof -
  obtain f m L where m: "snd (rx_step L demo_receiver (RxFrame f (Some (\<lambda>_ signature. signature = 5)))) = [m]"
    "flags_contains (rxm_flags m) SIGNED_ENVELOPE"
    using demo_signed_delivery by blast
  then have "vouched (rx_verifier (RxFrame f (Some (\<lambda>_ signature. signature = 5)))) m"
    by (intro delivery_vouched[of m L demo_receiver]) simp
  then have "vouched (Some (\<lambda>_ signature. signature = 5)) m" by simp
  then show ?thesis using m(2) by (auto simp: vouched_def)
qed

text \<open>C2. A message crosses the air: let a fresh transmitter and a fresh receiver have the same link, which
  is the byte transport, or BPSK with at most 238 samples per symbol and an amplitude of at least
  2^-100 (not CPFSK), with flags the transmitter accepts and without the signed-envelope flag, and let
  neural assistance be off. If the transmitter accepts a message that is no state delta, has a
  priority of at most 15 and lies within the receiver's reassembly limits (its bytes and its number
  of frames), then its transmissions all succeed, and the receiver returns nothing until the last one
  and then exactly that message, with its metadata.\<close>

theorem message_crosses_air:
  assumes "transmitter_new tc = Inr t" and "receiver_new rc = Inr r" and "matched tc rc"
    and "enqueue_message t s c p tag msg = (t', Inr q)" and "p \<le> 15" and "c \<noteq> StateDelta"
    and "\<not> flags_contains (lc_flags (tc_link tc)) SIGNED_ENVELOPE"
    and "length msg \<le> rc_max_message_bytes (rx_reassembly rc)"
    and "length (tx_queue t') \<le> unat (rc_max_fragments (rx_reassembly rc))"
  shows "\<exists>txs. snd (run_machine (tx_step L) t' (replicate (length (tx_queue t')) TxNext)) = map (\<lambda>x. Inr (Some x)) txs \<and>
    snd (run_machine (receive L v) r txs) = replicate (length txs - 1) (Inr None) @
      [Inr (Some \<lparr> rxm_profile = lc_profile (tc_link tc), rxm_flags = lc_flags (tc_link tc), rxm_stream_id = s,
         rxm_sequence = tc_initial_sequence tc, rxm_class = c, rxm_priority = p, rxm_state_tag = tag, rxm_bytes = msg \<rparr>)]"
proof -
  have t: "tx_config t = tc" "tx_next_sequence t = tc_initial_sequence tc"
    using transmitter_new_inv[OF assms(1)] assms(3) by (simp_all add: matched_def)
  let ?m = "received (whole_message (message_meta t s c p tag (lc_flags (tc_link tc))) msg)"
  have m: "?m = \<lparr> rxm_profile = lc_profile (tc_link tc), rxm_flags = lc_flags (tc_link tc), rxm_stream_id = s,
      rxm_sequence = tc_initial_sequence tc, rxm_class = c, rxm_priority = p, rxm_state_tag = tag, rxm_bytes = msg \<rparr>"
    by (simp add: received_def whole_message_def message_meta_def t)
  have enq: "enqueue_message_with_flags t s c p tag msg (lc_flags (tc_link tc)) = (t', Inr q)"
    using assms(4) by (simp add: enqueue_message_def t)
  have "validate_admission ?m v = Inr ()" using assms(6,7) by (simp add: m validate_admission_def)
  from queued_message_crosses[OF assms(1-3) _ enq assms(5,8,9) this] assms(7) show ?thesis
    unfolding m by blast
qed

theorem message_crosses_air_witness:
  "\<exists>t t' r txs m. enqueue_message t 7 Telemetry 3 9 [1, 2, 3] = (t', Inr 0) \<and>
     drained demo_libm t' = map (\<lambda>x. Inr (Some x)) txs \<and>
     snd (run_machine (receive demo_libm None) r txs) = replicate (length txs - 1) (Inr None) @ [Inr (Some m)] \<and>
     rxm_bytes m = [1, 2, 3]"
proof -
  let ?tc = "transmitter_config_for_link (hf_link 64)" and ?rc = "receiver_config_for_link (hf_link 64)"
  obtain t r where t: "transmitter_new ?tc = Inr t" and r: "receiver_new ?rc = Inr r" and m: "matched ?tc ?rc"
    and tx: "tx_queue t = []" "tx_config t = ?tc" by (rule hf_ends[of 64]) simp_all
  obtain fs where fs: "fragment_message (message_meta t 7 Telemetry 3 9 FEC) [1, 2, 3] 64 = Inr fs" "length fs = 1"
    by (simp add: fragment_message_def Let_def div_ceil_def chunks.simps)
  have "tx_next_sequence t = 0"
    using transmitter_new_inv[OF t] by (simp add: transmitter_config_for_link_def link_flags_ok_def FEC_def)
  then obtain t' where enq: "enqueue_message t 7 Telemetry 3 9 [1, 2, 3] = (t', Inr 0)" and q: "tx_queue t' = fs"
    using fs tx by (simp add: enqueue_message_def enqueue_message_with_flags_def transmitter_config_for_link_def)
  have "\<exists>txs. drained demo_libm t' = map (\<lambda>x. Inr (Some x)) txs \<and>
    snd (run_machine (receive demo_libm None) r txs) = replicate (length txs - 1) (Inr None) @
      [Inr (Some \<lparr> rxm_profile = lc_profile (tc_link ?tc), rxm_flags = lc_flags (tc_link ?tc), rxm_stream_id = 7,
         rxm_sequence = tc_initial_sequence ?tc, rxm_class = Telemetry, rxm_priority = 3, rxm_state_tag = 9, rxm_bytes = [1, 2, 3] \<rparr>)]"
    by (rule message_crosses_air[OF t r m enq])
      (simp_all add: q fs(2) transmitter_config_for_link_def receiver_config_for_link_def reassembler_config_default_def
        flags_contains_def FEC_def SIGNED_ENVELOPE_def)
  then show ?thesis using enq by fastforce
qed

text \<open>C1. State agreement over the air: the delta between two valid states with at most 64 field ids in
  the two together (beyond that a delta need not apply, see \<open>between_apply_overflow\<close>), enqueued by a
  fresh transmitter, modulated, demodulated, reassembled and admitted by a fresh receiver, and applied
  to the first state, gives the second, signed or not. Premises: both ends have the same link, which is
  the byte transport, or BPSK with at most 238 samples per symbol and an amplitude of at least 2^-100
  (not CPFSK), with flags the transmitter accepts and without the signed-envelope flag; no neural
  assistance; the transmitter accepts the delta, with a priority of at most 15; the verifier accepts a
  signature over the authentication bytes of the envelope that carries the delta; and the receiver
  has the default reassembly limits on message bytes and fragments.\<close>

theorem delta_crosses_air:
  assumes "transmitter_new tc = Inr t" and "receiver_new rc = Inr r" and "matched tc rc"
    and "state_ok before" and "state_ok after" and "card (fst ` set before \<union> fst ` set after) \<le> 64"
    and "delta_between sha src epoch mid before after rs = Inr d"
    and "enqueue_delta_with_signature t s d p sig = (t', Inr q)" and "p \<le> 15"
    and "\<forall>e. wrap_delta d p (tx_next_logical_sequence t) sig = Inr e \<longrightarrow> trusts v e"
    and "\<not> flags_contains (lc_flags (tc_link tc)) SIGNED_ENVELOPE"
    and "rc_max_message_bytes (rx_reassembly rc) = MAX_MESSAGE_BYTES" and "rc_max_fragments (rx_reassembly rc) = 32"
  shows "\<exists>txs m. snd (run_machine (tx_step L) t' (replicate (length (tx_queue t')) TxNext)) = map (\<lambda>x. Inr (Some x)) txs \<and>
    snd (run_machine (receive L v) r txs) = replicate (length txs - 1) (Inr None) @ [Inr (Some m)] \<and>
    (case sig of None \<Rightarrow> message_apply sha m before
     | Some _ \<Rightarrow> message_apply_verified sha m before (the v)) = Inr after"
proof -
  have t: "tx_config t = tc" using transmitter_new_inv[OF assms(1)] assms(3) by (simp add: matched_def)
  let ?l = "lc_flags (tc_link tc)"
  let ?flags = "if sig \<noteq> None then flags_union ?l SIGNED_ENVELOPE else ?l"
  let ?tag = "state_hash_tag (to_be_bytes (d_result_hash d))"
  obtain e encoded t1 where e: "wrap_delta d p (tx_next_logical_sequence t) sig = Inr e" "envelope_encode e = Inr encoded"
    and enq: "enqueue_message_with_flags t s StateDelta p ?tag encoded ?flags = (t1, Inr q)"
    and logical: "t' = t1\<lparr> tx_next_logical_sequence := tx_next_logical_sequence t1 + 1 \<rparr>"
    by (rule enqueue_delta_queued[OF assms(8), unfolded t])
  note wd = wrap_deltaD[OF e(1)]
  let ?meta = "message_meta t s StateDelta p ?tag ?flags"
  have dm: "delta_message ?meta e encoded"
    using wd e(2) assms(11) by (auto simp: delta_message_def message_meta_def flags_signed_union)
  note del = delta_message_delta[OF dm conjunct1[OF wd] _ refl, of v]
  have hash: "d_result_hash (delta_norm d) = e_state_hash e" using wd by (simp add: delta_norm_def)
  have tr: "trusts v e" using e(1) assms(10) by blast
  obtain fs where fs: "fragment_message ?meta encoded (lc_frame_mtu (tc_link tc)) = Inr fs" and q1: "tx_queue t1 = fs"
    using enq transmitter_new_inv[OF assms(1)] assms(3) by (cases rule: enqueue_cases) (auto simp: matched_def)
  obtain ps where "fs = frames_of ?meta ps" "length ps \<le> 32" and len: "length encoded \<le> MAX_MESSAGE_BYTES"
    by (rule fragment_message_frames[OF fs]) blast
  then have q32: "length (tx_queue t1) \<le> 32" by (simp add: q1 frames_of_def)
  have signed: "flags_contains ?flags SIGNED_ENVELOPE \<Longrightarrow> v \<noteq> None"
    using tr wd assms(11) by (auto simp: trusts_def split: if_splits option.splits)
  have "\<exists>txs. drained L t1 = map (\<lambda>x. Inr (Some x)) txs \<and> 0 < length txs \<and>
    snd (run_machine (receive L v) r txs) = replicate (length txs - 1) (Inr None) @
      [Inr (Some (received (whole_message ?meta encoded)))]"
    by (rule queued_message_crosses[OF assms(1-3) _ enq assms(9) _ _ del(3)[OF hash tr] signed])
      (use q32 assms(12,13) len in simp_all)
  then obtain txs where txs: "drained L t1 = map (\<lambda>x. Inr (Some x)) txs"
    "snd (run_machine (receive L v) r txs) = replicate (length txs - 1) (Inr None) @
      [Inr (Some (received (whole_message ?meta encoded)))]" by blast
  have apply_after: "case sig of None \<Rightarrow> message_apply sha (received (whole_message ?meta encoded)) before = Inr after
     | Some _ \<Rightarrow> message_apply_verified sha (received (whole_message ?meta encoded)) before (the v) = Inr after"
    using del(4,5)[OF hash tr] between_norm_apply[OF assms(4-7)] wd tr
    by (auto simp: message_apply_def message_apply_verified_def trusts_def split: option.splits)
  show ?thesis
    using txs(1) logical_drained[of L _ t1] apply_after
    by (intro exI[of _ txs] exI[of _ "received (whole_message ?meta encoded)"] conjI txs(2))
      (simp_all add: logical split: option.splits)
qed

theorem delta_crosses_air_witness:
  "\<exists>d t t' q r txs m. delta_between (\<lambda>_. 0) 1 2 3 state_one state_two [] = Inr d \<and>
     enqueue_delta_with_signature t 7 d 1 (Some 5) = (t', Inr q) \<and> drained demo_libm t' = map (\<lambda>x. Inr (Some x)) txs \<and>
     snd (run_machine (receive demo_libm (Some (\<lambda>_ _. True))) r txs) = replicate (length txs - 1) (Inr None) @ [Inr (Some m)] \<and>
     message_apply_verified (\<lambda>_. 0) m state_one (\<lambda>_ _. True) = Inr state_two"
proof -
  let ?tc = "transmitter_config_for_link (hf_link 256)" and ?rc = "receiver_config_for_link (hf_link 256)"
  obtain t r where t: "transmitter_new ?tc = Inr t" and r: "receiver_new ?rc = Inr r" and m: "matched ?tc ?rc"
    and tx: "tx_queue t = []" "tx_config t = ?tc" by (rule hf_ends[of 256]) simp_all
  have "fst ` set state_one \<union> fst ` set state_two = {1, 2, 3}" by (auto simp: state_one_def state_two_def)
  then have card: "card (fst ` set state_one \<union> fst ` set state_two) \<le> 64" by simp
  obtain d where d: "delta_between (\<lambda>_. 0) 1 2 3 state_one state_two [] = Inr d"
    by (simp add: delta_between_Inr demo_updates delta_ok_iff update_ok_def value_ok_def)
  have dok: "delta_ok d" using d by (auto simp: delta_between_Inr)
  obtain t' q where enq: "enqueue_delta_with_signature t 7 d 1 (Some 5) = (t', Inr q)"
    using enqueue_delta_fits[of d t 1 7 "Some 5"] dok tx by (auto simp: transmitter_config_for_link_def)
  have "\<exists>txs m. drained demo_libm t' = map (\<lambda>x. Inr (Some x)) txs \<and>
    snd (run_machine (receive demo_libm (Some (\<lambda>_ _. True))) r txs) = replicate (length txs - 1) (Inr None) @ [Inr (Some m)] \<and>
    (case Some (5 :: signature) of None \<Rightarrow> message_apply (\<lambda>_. 0) m state_one
     | Some _ \<Rightarrow> message_apply_verified (\<lambda>_. 0) m state_one (the (Some (\<lambda>_ _. True)))) = Inr state_two"
    by (rule delta_crosses_air[OF t r m demo_states_ok card d enq])
      (simp_all add: trusts_def option.case_eq_if sum.case_eq_if transmitter_config_for_link_def receiver_config_for_link_def reassembler_config_default_def
        flags_contains_def FEC_def SIGNED_ENVELOPE_def)
  then obtain txs m where "drained demo_libm t' = map (\<lambda>x. Inr (Some x)) txs"
    "snd (run_machine (receive demo_libm (Some (\<lambda>_ _. True))) r txs) = replicate (length txs - 1) (Inr None) @ [Inr (Some m)]"
    "message_apply_verified (\<lambda>_. 0) m state_one (\<lambda>_ _. True) = Inr state_two"
    by auto
  then show ?thesis using d enq by blast
qed

text \<open>The transmitter stays bounded: through every mixture of enqueued messages, enqueued deltas and
  transmissions its queue holds at most \<open>max_queued_frames\<close> frames, and each of them that has a legal
  priority encodes within the frame size of the link.\<close>

theorem transmitter_stays_bounded:
  assumes "transmitter_new tc = Inr t" and "link_flags_ok (tc_link tc)"
  shows "transmitter_inv (fst (run_machine (tx_step L) t ops))"
  using assms transmitter_new_inv by (intro transmitter.run_inv) blast

theorem transmitter_stays_bounded_witness:
  "\<exists>t. transmitter_inv (fst (run_machine (tx_step demo_libm) t [TxMessage 7 Control 1 0 [1, 2], TxNext, TxNext]))"
proof -
  obtain t where "transmitter_new (transmitter_config_for_link (hf_link 64)) = Inr t" by (rule hf_ends[of 64]) simp_all
  moreover have "link_flags_ok (tc_link (transmitter_config_for_link (hf_link 64)))"
    by (simp add: transmitter_config_for_link_def link_flags_ok_def FEC_def)
  ultimately show ?thesis using transmitter_stays_bounded by blast
qed

text \<open>C13. An illegal priority loses the message: \<open>enqueue_message\<close> accepts a priority above 15 and uses up
  a sequence number, but every transmission of it is an error and the frames are gone.\<close>

theorem illegal_priority_lost:
  assumes "enqueue_message t s c p tag msg = (t', Inr q)" and "tx_queue t = []" and "15 < p"
  shows "tx_next_sequence t' = q + 1 \<and> (\<forall>out\<in>set (drained L t'). \<exists>e. out = Inl e) \<and>
    transmitter_state (fst (run_machine (tx_step L) t' (replicate (length (tx_queue t')) TxNext))) = Idle"
proof -
  obtain fs where fs: "fragment_message (message_meta t s c p tag (lc_flags (tc_link (tx_config t)))) msg
      (lc_frame_mtu (tc_link (tx_config t))) = Inr fs" and t': "tx_queue t' = fs" "tx_next_sequence t' = q + 1"
    using assms(1,2) unfolding enqueue_message_def by (cases rule: enqueue_cases) auto
  obtain ps where "fs = frames_of (message_meta t s c p tag (lc_flags (tc_link (tx_config t)))) ps"
    by (rule fragment_message_frames[OF fs])
  then have bad: "15 < f_priority f" if "f \<in> set (tx_queue t')" for f
    using that assms(3) t' by (auto simp: frames_of_def meta_frame_def message_meta_def)
  then show ?thesis using bad_frames_lost[of t' L] t' by simp
qed

theorem illegal_priority_lost_witness:
  "\<exists>t t'. enqueue_message t 7 Telemetry 16 9 [1, 2, 3] = (t', Inr 0) \<and> tx_next_sequence t' = 1 \<and>
     (\<forall>out\<in>set (drained demo_libm t'). \<exists>e. out = Inl e)"
proof -
  obtain t where t: "transmitter_new (transmitter_config_for_link (hf_link 64)) = Inr t"
    and tx: "tx_queue t = []" "tx_config t = transmitter_config_for_link (hf_link 64)" by (rule hf_ends[of 64]) simp_all
  have "tx_next_sequence t = 0"
    using transmitter_new_inv[OF t] by (simp add: transmitter_config_for_link_def link_flags_ok_def FEC_def)
  then obtain t' where enq: "enqueue_message t 7 Telemetry 16 9 [1, 2, 3] = (t', Inr 0)"
    using tx by (simp add: enqueue_message_def enqueue_message_with_flags_def transmitter_config_for_link_def
        fragment_message_def Let_def div_ceil_def chunks.simps)
  from illegal_priority_lost[OF this tx(1), of demo_libm] enq show ?thesis by auto
qed

end
