(* ===== verification/Air_Channel.thy ===== *)
theory Air_Channel
  imports Air_Assist
begin

text \<open>
  \<open>latentmesh-air-radio/src/channel.rs\<close>: the reproducible channel simulators, with their xorshift
  generator, in binary32 arithmetic over the functions of \<open>libm\<close>.
\<close>

record channel_config =
  cc_snr_db :: f32
  cc_gain :: f32
  cc_frequency_offset :: f32
  cc_erasure_period :: "u32 option"
  cc_erasure_samples :: u16
  cc_seed :: u64

definition channel_config_default :: channel_config where
  "channel_config_default =
     \<lparr> cc_snr_db = f32_of 30, cc_gain = f_one, cc_frequency_offset = f_zero, cc_erasure_period = None,
       cc_erasure_samples = 0, cc_seed = 0x4c4d4149522d7631 \<rparr>"

definition f32_within :: "rat \<Rightarrow> rat \<Rightarrow> f32 \<Rightarrow> bool" where
  "f32_within lo hi x \<longleftrightarrow> fp_is_finite x \<and> fp_le (f32_of lo) x \<and> fp_le x (f32_of hi)"

definition channel_validate :: "channel_config \<Rightarrow> unit air_result" where
  "channel_validate c =
     (if \<not> f32_within (- 20) 80 (cc_snr_db c) \<or> \<not> f32_within 0 4 (cc_gain c)
        \<or> \<not> f32_within (- 1 / 4) (1 / 4) (cc_frequency_offset c) \<or> cc_seed c = 0
      then Inl InvalidLength
      else case cc_erasure_period c of
        Some period \<Rightarrow> if period = 0 \<or> unat (cc_erasure_samples c) > unat period then Inl InvalidLength else Inr ()
      | None \<Rightarrow> if cc_erasure_samples c \<noteq> 0 then Inl InvalidLength else Inr ())"

section \<open>The generator\<close>

definition xorshift_next :: "u64 \<Rightarrow> u64" where
  "xorshift_next v0 =
     (let v1 = v0 XOR push_bit 13 v0; v2 = v1 XOR drop_bit 7 v1 in v2 XOR push_bit 17 v2)"

text \<open>A draw returns the new state of the generator and the number.\<close>

definition xorshift_uniform :: "u64 \<Rightarrow> u64 \<times> f32" where
  "xorshift_uniform rng =
     (let rng' = xorshift_next rng; mantissa = drop_bit 40 rng'
      in (rng', f_div (f32_of (of_nat (unat mantissa))) (f32_of 16777216)))"

definition normalish :: "u64 \<Rightarrow> u64 \<times> f32" where
  "normalish rng =
     foldl (\<lambda>(rng, sum) _. let (rng', u) = xorshift_uniform rng in (rng', f_add sum u)) (rng, f32_of (- 6)) [0..<12]"

definition noise_sigma :: "libm \<Rightarrow> f32 \<Rightarrow> f32 \<Rightarrow> f32" where
  "noise_sigma L snr_db gain =
     (let linear = powf L (f32_of 10) (f_div snr_db (f32_of 10)) in f_div gain (sqrtf L (f_mul (f32_of 2) linear)))"

definition is_erased :: "channel_config \<Rightarrow> u64 \<Rightarrow> bool" where
  "is_erased c sample_index =
     (case cc_erasure_period c of
        None \<Rightarrow> False
      | Some period \<Rightarrow> unat sample_index mod unat period < unat (cc_erasure_samples c))"

section \<open>Complex baseband\<close>

record iq_channel =
  ic_config :: channel_config
  ic_rng :: u64
  ic_phase :: f32
  ic_sample_index :: u64

definition iq_channel_new :: "channel_config \<Rightarrow> iq_channel air_result" where
  "iq_channel_new c = rbind (channel_validate c) (\<lambda>_.
     Inr \<lparr> ic_config = c, ic_rng = cc_seed c, ic_phase = f_zero, ic_sample_index = 0 \<rparr>)"

definition wrap_phase :: "f32 \<Rightarrow> f32" where
  "wrap_phase phase =
     (if fp_lt f32_PI phase then f_sub phase (f_mul (f32_of 2) f32_PI)
      else if fp_lt phase (fp_neg f32_PI) then f_add phase (f_mul (f32_of 2) f32_PI) else phase)"

definition iq_step :: "libm \<Rightarrow> f32 \<Rightarrow> f32 \<Rightarrow> iq_channel \<Rightarrow> iq_sample \<Rightarrow> iq_channel \<times> iq_sample" where
  "iq_step L sigma dphase ch sample =
     (let c = ic_config ch;
          (i, q) = if is_erased c (ic_sample_index ch) then (f_zero, f_zero)
            else let cosine = cosf L (ic_phase ch); sine = sinf L (ic_phase ch) in
              (f_mul (cc_gain c) (f_sub (f_mul (iq_i sample) cosine) (f_mul (iq_q sample) sine)),
               f_mul (cc_gain c) (f_add (f_mul (iq_i sample) sine) (f_mul (iq_q sample) cosine)));
          (rng1, noise_i) = normalish (ic_rng ch);
          (rng2, noise_q) = normalish rng1
      in (ch\<lparr> ic_rng := rng2, ic_phase := wrap_phase (f_add (ic_phase ch) dphase),
             ic_sample_index := ic_sample_index ch + 1 \<rparr>,
          \<lparr> iq_i = f_add i (f_mul sigma noise_i), iq_q = f_add q (f_mul sigma noise_q) \<rparr>))"

definition iq_process :: "libm \<Rightarrow> iq_channel \<Rightarrow> iq_sample list \<Rightarrow> iq_channel \<times> iq_sample list" where
  "iq_process L ch input =
     (let c = ic_config ch; sigma = noise_sigma L (cc_snr_db c) (cc_gain c);
          dphase = f_mul (f_mul (f32_of 2) f32_PI) (cc_frequency_offset c)
      in run_machine (iq_step L sigma dphase) ch input)"

section \<open>Audio\<close>

record audio_channel =
  au_config :: channel_config
  au_rng :: u64
  au_sample_index :: u64

definition audio_channel_new :: "channel_config \<Rightarrow> audio_channel air_result" where
  "audio_channel_new c = rbind (channel_validate c) (\<lambda>_.
     Inr \<lparr> au_config = c, au_rng = cc_seed c, au_sample_index = 0 \<rparr>)"

definition audio_step :: "f32 \<Rightarrow> audio_channel \<Rightarrow> i16 \<Rightarrow> audio_channel \<times> i16" where
  "audio_step sigma ch sample =
     (let c = au_config ch;
          signal = if is_erased c (au_sample_index ch) then f_zero
            else f_mul (f_div (i16_as_f32 sample) (f32_of 32767)) (cc_gain c);
          (rng', noise) = normalish (au_rng ch);
          v = fp_clamp (f_add signal (f_mul sigma noise)) (f32_of (- 1)) f_one
      in (ch\<lparr> au_rng := rng', au_sample_index := au_sample_index ch + 1 \<rparr>, fp_as_i16 (f_mul v (f32_of 32767))))"

definition audio_process :: "libm \<Rightarrow> audio_channel \<Rightarrow> i16 list \<Rightarrow> audio_channel \<times> i16 list" where
  "audio_process L ch input =
     (let c = au_config ch; sigma = noise_sigma L (cc_snr_db c) (cc_gain c) in run_machine (audio_step sigma) ch input)"

section \<open>The generator never gets stuck\<close>

lemma push_bit_fixpoint:
  fixes v :: "'a::len word"
  assumes "push_bit n v = v" and "0 < n" shows "v = 0"
proof (rule bit_word_eqI)
  fix i
  show "i < LENGTH('a) \<Longrightarrow> bit v i \<longleftrightarrow> bit (0 :: 'a word) i"
  proof (induction i rule: less_induct)
    case (less i)
    have "bit v i \<longleftrightarrow> n \<le> i \<and> bit v (i - n)"
      using less.prems by (subst assms(1)[symmetric]) (simp add: bit_push_bit_iff)
    then show ?case using less.IH[of "i - n"] less.prems assms(2) by auto
  qed
qed

lemma drop_bit_fixpoint:
  fixes v :: "'a::len word"
  assumes "drop_bit n v = v" and "0 < n" shows "v = 0"
proof -
  have step: "bit v i \<longleftrightarrow> bit v (n + i)" for i
    by (subst assms(1)[symmetric]) (simp add: bit_drop_bit_eq)
  have far: "bit v i \<longleftrightarrow> bit v (k * n + i)" for k i
    by (induction k) (simp, metis step add.assoc mult_Suc)
  have "\<not> bit v i" for i
  proof
    assume "bit v i"
    then have "bit v (LENGTH('a) * n + i)" using far by blast
    then have "LENGTH('a) * n + i < LENGTH('a)" by (rule bit_imp_le_length)
    then show False using assms(2) by (cases n) auto
  qed
  then show ?thesis by (simp add: bit_word_eqI)
qed

lemma xor_zero_iff: "a XOR b = 0 \<Longrightarrow> b = (a :: 'a::len word)"
  by (metis bit.xor_left_self xor.right_neutral)

lemma xorshift_nonzero: "v \<noteq> 0 \<Longrightarrow> xorshift_next v \<noteq> 0"
proof -
  have left: "w XOR push_bit n w \<noteq> 0" if "w \<noteq> 0" "0 < n" for w :: u64 and n
    using push_bit_fixpoint[of n w] that xor_zero_iff[of w "push_bit n w"] by auto
  have right: "w XOR drop_bit 7 w \<noteq> 0" if "w \<noteq> 0" for w :: u64
    using drop_bit_fixpoint[of 7 w] that xor_zero_iff[of w "drop_bit 7 w"] by auto
  assume "v \<noteq> 0"
  then show ?thesis using left right unfolding xorshift_next_def Let_def by (metis zero_less_numeral)
qed

lemma uniform_rng: "fst (xorshift_uniform r) = xorshift_next r"
  by (simp add: xorshift_uniform_def Let_def)

lemma normalish_nonzero: "r \<noteq> 0 \<Longrightarrow> fst (normalish r) \<noteq> 0"
proof -
  have loop: "fst (foldl (\<lambda>(rng, sum) _. let (rng', u) = xorshift_uniform rng in (rng', f_add sum u)) (r, s) xs) \<noteq> 0"
    if "r \<noteq> 0" for r s and xs :: "nat list"
    using that
  proof (induction xs arbitrary: r s)
    case (Cons x xs)
    then show ?case
      using xorshift_nonzero[of r] uniform_rng[of r] by (simp add: Let_def case_prod_beta)
  qed simp
  assume "r \<noteq> 0"
  then show ?thesis unfolding normalish_def by (rule loop)
qed

interpretation iq_noise: machine "\<lambda>ch. ic_rng ch \<noteq> 0" "iq_step L sigma dphase" for L sigma dphase
  by unfold_locales (simp add: iq_step_def Let_def case_prod_beta normalish_nonzero)

interpretation audio_noise: machine "\<lambda>ch. au_rng ch \<noteq> 0" "audio_step sigma" for sigma
  by unfold_locales (simp add: audio_step_def Let_def case_prod_beta normalish_nonzero)

section \<open>Uniform draws\<close>

text \<open>The uniform draw is the top 24 bits of the new state, over 2 to the 24, without rounding.\<close>

lemma uniform_value:
  "is_value (snd (xorshift_uniform r)) (of_nat (unat (drop_bit 40 (xorshift_next r))) / 16777216)"
proof -
  define n where "n = unat (drop_bit 40 (xorshift_next r))"
  have "n = unat (xorshift_next r) div 2 ^ 40"
    unfolding n_def using unat_drop_bit_eq[of 40 "xorshift_next r"] by (simp add: drop_bit_eq_div)
  then have n: "n < 2 ^ 24"
    using unsigned_less[of "xorshift_next r", where ?'a = nat] by (simp add: less_mult_imp_div_less)
  have "pow2 24 = 16777216" by (simp add: pow2_def)
  then have c: "f32_of 16777216 = Fin False 16777216" using fp_round_exact[of 1 binary32 24] by (simp add: fp_of_rat_def)
  have p: "pow2 (- 24) = 1 / 16777216" by (simp add: pow2_def power_int_minus)
  have "f32_of (of_nat n) = Fin False (of_nat n)"
    using fp_round_exact[of n binary32 0] n by (simp add: fp_of_rat_def)
  moreover have "fp_round binary32 False (of_nat n / 16777216) = Fin False (of_nat n / 16777216)"
    using fp_round_exact[of n binary32 "- 24"] n by (simp add: p)
  ultimately show ?thesis
    unfolding xorshift_uniform_def Let_def n_def[symmetric] snd_conv by (simp add: c is_value_def)
qed

section \<open>Properties\<close>

text \<open>The noise source is sound: from an accepted configuration the xorshift state never becomes
  zero, on either channel and after any input, and every uniform draw is an exact multiple of 2 to the
  -24 in [0, 1).\<close>

theorem channel_noise_sound:
  assumes "iq_channel_new c = Inr iq" and "audio_channel_new c = Inr au"
  shows "ic_rng (fst (iq_process L iq samples)) \<noteq> 0 \<and> au_rng (fst (audio_process L au pcm)) \<noteq> 0 \<and>
    (\<exists>n < 2 ^ 24. is_value (snd (xorshift_uniform r)) (of_nat n / 2 ^ 24))"
proof (intro conjI)
  have seed: "cc_seed c \<noteq> 0" using assms(1) by (auto simp: iq_channel_new_def channel_validate_def split: if_splits)
  then show "ic_rng (fst (iq_process L iq samples)) \<noteq> 0"
    using assms(1) by (auto simp: iq_process_def Let_def iq_channel_new_def intro!: iq_noise.run_inv)
  show "au_rng (fst (audio_process L au pcm)) \<noteq> 0"
    using seed assms(2) by (auto simp: audio_process_def Let_def audio_channel_new_def intro!: audio_noise.run_inv)
  have "unat (drop_bit 40 (xorshift_next r)) < 2 ^ 24"
    using unat_drop_bit_eq[of 40 "xorshift_next r"] unsigned_less[of "xorshift_next r", where ?'a = nat]
    by (simp add: drop_bit_eq_div less_mult_imp_div_less)
  then show "\<exists>n < 2 ^ 24. is_value (snd (xorshift_uniform r)) (of_nat n / 2 ^ 24)"
    using uniform_value[of r] by (intro exI[of _ "unat (drop_bit 40 (xorshift_next r))"]) simp
qed


theorem channel_noise_sound_witness:
  "\<exists>iq au. iq_channel_new channel_config_default = Inr iq \<and> audio_channel_new channel_config_default = Inr au \<and>
     ic_rng (fst (iq_process demo_libm iq [\<lparr> iq_i = f_one, iq_q = f_zero \<rparr>])) \<noteq> 0 \<and>
     au_rng (fst (audio_process demo_libm au [1, 2])) \<noteq> 0"
proof -
  have lits: "f32_of 30 = Fin False 30" "f32_of (- 20) = Fin True 20" "f32_of 80 = Fin False 80"
    "f32_of (- 1 / 4) = Fin True (1 / 4)" "f32_of (1 / 4) = Fin False (1 / 4)" "f32_of 4 = Fin False 4"
    by code_simp+
  have "channel_validate channel_config_default = Inr ()"
    by (simp add: channel_validate_def channel_config_default_def f32_within_def lits lits[simplified] f32_ints)
  then obtain iq au where "iq_channel_new channel_config_default = Inr iq" "audio_channel_new channel_config_default = Inr au"
    by (simp add: iq_channel_new_def audio_channel_new_def)
  then show ?thesis using channel_noise_sound by blast
qed

end
