(* ===== verification/Latent_Core.thy ===== *)
theory Latent_Core
  imports Fec Floating
begin

text \<open>
  \<open>latentmesh-core/src/lib.rs\<close>: the latent frame, its payload encodings and its authority ladder.
  The half-precision conversions of the crate \<open>half\<close>, the JSON encoder of \<open>serde_json\<close> and SHA-256
  are parameters. A Rust \<open>String\<close> is a \<open>string\<close>, a 32-bit integer that the code computes with is an
  \<open>int\<close> with its overflow written out.
\<close>

section \<open>The bits of a single-precision float\<close>

text \<open>\<open>f32::to_bits\<close> and \<open>f32::from_bits\<close>; the payload of a NaN is not represented, and a NaN has the
  canonical pattern.\<close>

fun f32_bits :: "f32 \<Rightarrow> u32" where
  "f32_bits NaN = 0x7fc00000"
| "f32_bits (Inf s) = word_of_int ((if s then 2 ^ 31 else 0) + 0x7f800000)"
| "f32_bits (Fin s m) = word_of_int ((if s then 2 ^ 31 else 0) +
     (if m < pow2 (- 126) then \<lfloor>m * pow2 149\<rfloor>
      else (ilog2 m + 126) * 2 ^ 23 + \<lfloor>m * pow2 (23 - ilog2 m)\<rfloor>))"

definition f32_from_bits :: "u32 \<Rightarrow> f32" where
  "f32_from_bits w =
     (let n = uint w; s = n \<ge> 2 ^ 31; e = (n div 2 ^ 23) mod 256; f = n mod 2 ^ 23 in
      if e = 255 then (if f = 0 then Inf s else NaN)
      else if e = 0 then Fin s (of_int f * pow2 (- 149))
      else Fin s (of_int (2 ^ 23 + f) * pow2 (e - 150)))"

definition f32_to_le_bytes :: "f32 \<Rightarrow> bytes" where
  "f32_to_le_bytes x = to_le_bytes (f32_bits x)"

definition f32_from_le_bytes :: "bytes \<Rightarrow> f32" where
  "f32_from_le_bytes bs = f32_from_bits (from_le_bytes bs)"

text \<open>\<open>f32::round\<close>: to the nearest integer, ties away from zero.\<close>

fun fp_round_away :: "fp \<Rightarrow> fp" where
  "fp_round_away (Fin s m) = Fin s (of_int \<lfloor>m + 1 / 2\<rfloor>)"
| "fp_round_away x = x"

abbreviation I32_MIN :: int where "I32_MIN \<equiv> - 2147483648"
abbreviation I32_MAX :: int where "I32_MAX \<equiv> 2147483647"

definition f32_as_i32 :: "f32 \<Rightarrow> int" where
  "f32_as_i32 x = fp_to_int I32_MIN I32_MAX x"

text \<open>A 32-bit addition or subtraction; \<open>None\<close> is the panic of a build that checks overflow.\<close>

definition i32_checked :: "int \<Rightarrow> int option" where
  "i32_checked n = (if I32_MIN \<le> n \<and> n \<le> I32_MAX then Some n else None)"

abbreviation F32_MAX :: f32 where "F32_MAX \<equiv> Fin False (16777215 * pow2 104)"
abbreviation F32_MIN :: f32 where "F32_MIN \<equiv> Fin True (16777215 * pow2 104)"

section \<open>Payloads\<close>

datatype encoding = F32 | F16 | Int8

fun bytes_per_element :: "encoding \<Rightarrow> nat" where
  "bytes_per_element F32 = 4"
| "bytes_per_element F16 = 2"
| "bytes_per_element Int8 = 1"

record payload =
  pl_encoding :: encoding
  pl_dim :: nat
  pl_bytes :: bytes
  pl_int8_params :: "(f32 \<times> int) option"

text \<open>The crate \<open>half\<close>.\<close>

record half_ops =
  f16_to_le_bytes :: "f32 \<Rightarrow> bytes"
  f16_from_le_bytes :: "bytes \<Rightarrow> f32"

text \<open>The parameters of the affine quantization: scale and zero point.\<close>

definition int8_scale :: "f32 list \<Rightarrow> f32 \<times> int" where
  "int8_scale vs =
     (let (lo, hi) = foldl (\<lambda>(lo, hi) v. (fp_min lo v, fp_max hi v)) (F32_MAX, F32_MIN) vs;
          (lo, hi) = (if fp_eq lo hi then (f_sub lo f_one, f_add hi f_one) else (lo, hi));
          scale = f_div (f_sub hi lo) (f32_of 255)
      in (scale, f32_as_i32 (fp_round_away (f_div (fp_neg lo) scale))))"

definition int8_quantize :: "f32 \<Rightarrow> int \<Rightarrow> f32 \<Rightarrow> u8 option" where
  "int8_quantize scale zero_point v =
     map_option (\<lambda>q. word_of_int (max 0 (min 255 q)))
       (i32_checked (f32_as_i32 (fp_round_away (f_div v scale)) + zero_point))"

definition payload_encode :: "half_ops \<Rightarrow> f32 list \<Rightarrow> encoding \<Rightarrow> payload option" where
  "payload_encode H vs enc =
     (case enc of
        F32 \<Rightarrow> Some \<lparr> pl_encoding = enc, pl_dim = length vs, pl_bytes = concat (map f32_to_le_bytes vs),
          pl_int8_params = None \<rparr>
      | F16 \<Rightarrow> Some \<lparr> pl_encoding = enc, pl_dim = length vs, pl_bytes = concat (map (f16_to_le_bytes H) vs),
          pl_int8_params = None \<rparr>
      | Int8 \<Rightarrow>
          let (scale, zero_point) = int8_scale vs in
          map_option (\<lambda>bs. \<lparr> pl_encoding = enc, pl_dim = length vs, pl_bytes = bs,
            pl_int8_params = Some (scale, zero_point) \<rparr>) (those (map (int8_quantize scale zero_point) vs)))"

definition int8_dequantize :: "f32 \<Rightarrow> int \<Rightarrow> u8 \<Rightarrow> f32 option" where
  "int8_dequantize scale zero_point b =
     map_option (\<lambda>d. f_mul (f32_of (of_int d)) scale) (i32_checked (int (unat b) - zero_point))"

definition payload_decode :: "half_ops \<Rightarrow> payload \<Rightarrow> f32 list option" where
  "payload_decode H p =
     (case pl_encoding p of
        F32 \<Rightarrow> Some (map f32_from_le_bytes (chunks_exact 4 (pl_bytes p)))
      | F16 \<Rightarrow> Some (map (f16_from_le_bytes H) (chunks_exact 2 (pl_bytes p)))
      | Int8 \<Rightarrow>
          let (scale, zero_point) = (case pl_int8_params p of None \<Rightarrow> (f_one, 0) | Some ps \<Rightarrow> ps) in
          those (map (int8_dequantize scale zero_point) (pl_bytes p)))"

definition wire_bytes :: "payload \<Rightarrow> nat" where
  "wire_bytes p = length (pl_bytes p) + (if pl_int8_params p \<noteq> None then 8 else 0)"

section \<open>Provenance, authority and frames\<close>

record provenance =
  pv_sender_model :: string
  pv_context_hash :: string
  pv_parents :: "string list"

datatype authority = ObserveOnly | ContextInject | LatentPrefix | ActionInfluencing

text \<open>The derived order of the ladder.\<close>

fun rank :: "authority \<Rightarrow> nat" where
  "rank ObserveOnly = 0"
| "rank ContextInject = 1"
| "rank LatentPrefix = 2"
| "rank ActionInfluencing = 3"

lemma rank_inject [simp]: "rank a = rank b \<longleftrightarrow> a = b"
  by (cases a; cases b) auto

lemma rank_le_3 [simp]: "rank a \<le> 3"
  by (cases a) auto

instantiation authority :: linorder
begin

definition less_eq_authority :: "authority \<Rightarrow> authority \<Rightarrow> bool" where
  "less_eq_authority a b \<longleftrightarrow> rank a \<le> rank b"

definition less_authority :: "authority \<Rightarrow> authority \<Rightarrow> bool" where
  "less_authority a b \<longleftrightarrow> rank a < rank b"

instance
  by standard (auto simp: less_eq_authority_def less_authority_def)

end

lemma observe_only_least [simp]: "ObserveOnly \<le> a" "a \<le> ObserveOnly \<longleftrightarrow> a = ObserveOnly"
  by (cases a; simp add: less_eq_authority_def)+

record latent_frame =
  lf_id :: string
  lf_sender_model :: string
  lf_receiver_space :: string
  lf_transform_hash :: string
  lf_sequence :: u64
  lf_payload :: payload
  lf_confidence :: f32
  lf_provenance :: provenance
  lf_authority :: authority
  lf_timestamp :: u64

text \<open>The JSON encoding of \<open>serde_json\<close>: \<open>to_vec\<close> and \<open>from_slice\<close>, \<open>None\<close> where they return an error.\<close>

record frame_json =
  to_vec :: "latent_frame \<Rightarrow> bytes option"
  from_slice :: "bytes \<Rightarrow> latent_frame option"

definition hex_digit :: "nat \<Rightarrow> char" where
  "hex_digit n = ''0123456789abcdef'' ! n"

definition hex_encode :: "bytes \<Rightarrow> string" where
  "hex_encode bs = concat (map (\<lambda>b. [hex_digit (unat b div 16), hex_digit (unat b mod 16)]) bs)"

definition content_hash :: "frame_json \<Rightarrow> (bytes \<Rightarrow> bytes) \<Rightarrow> latent_frame \<Rightarrow> string" where
  "content_hash J sha f = hex_encode (sha (case to_vec J f of None \<Rightarrow> [] | Some bs \<Rightarrow> bs))"

section \<open>Bits and floats\<close>

lemma bits_of_normal:
  assumes "1 \<le> e" and "e \<le> 254" and "0 \<le> f" and "f < 2 ^ 23"
  shows "f32_bits (Fin s (of_int (2 ^ 23 + f) * pow2 (e - 150))) =
    word_of_int ((if s then 2 ^ 31 else 0) + e * 2 ^ 23 + f)"
proof -
  let ?m = "of_int (2 ^ 23 + f) * pow2 (e - 150)"
  have m: "pow2 23 \<le> (of_int (2 ^ 23 + f) :: rat)" "(of_int (2 ^ 23 + f) :: rat) < pow2 24"
    using assms(3,4) by (simp_all add: pow2_def flip: of_int_add)
  have "pow2 23 * pow2 (e - 150) \<le> ?m" "?m < pow2 24 * pow2 (e - 150)"
    using m by (simp_all add: mult_right_mono mult_strict_right_mono)
  then have lo: "pow2 (e - 127) \<le> ?m" and hi: "?m < pow2 (e - 127 + 1)"
    by (simp_all flip: pow2_add)
  then have log: "ilog2 ?m = e - 127" by (intro ilog2_unique)
  have "pow2 (- 126) \<le> pow2 (e - 127)" using assms(1) by (intro pow2_mono) simp
  then have small: "\<not> ?m < pow2 (- 126)" using lo by linarith
  have mant: "?m * pow2 (23 - ilog2 ?m) = of_int (2 ^ 23 + f)"
    unfolding log by (simp add: mult.assoc flip: pow2_add)
  have "f32_bits (Fin s ?m) = word_of_int ((if s then 2 ^ 31 else 0) + ((ilog2 ?m + 126) * 2 ^ 23 + (2 ^ 23 + f)))"
    unfolding f32_bits.simps mant floor_of_int using small by (simp only: if_False)
  also have "(ilog2 ?m + 126) * 2 ^ 23 + (2 ^ 23 + f) = e * 2 ^ 23 + f" unfolding log by (simp add: algebra_simps)
  finally show ?thesis by (simp only: add.assoc)
qed

lemma bits_of_subnormal:
  assumes "0 \<le> f" and "f < 2 ^ 23"
  shows "f32_bits (Fin s (of_int f * pow2 (- 149))) = word_of_int ((if s then 2 ^ 31 else 0) + f)"
proof -
  have "(of_int f :: rat) < of_int (2 ^ 23)" using assms(2) by (simp only: of_int_less_iff)
  then have "(of_int f :: rat) < pow2 23" by (simp add: pow2_def)
  then have "of_int f * pow2 (- 149) < pow2 23 * pow2 (- 149)" by (intro mult_strict_right_mono) simp_all
  then have "of_int f * pow2 (- 149) < pow2 (- 126)" by (simp flip: pow2_add)
  moreover have e: "of_int f * pow2 (- 149) * pow2 149 = of_int f"
    unfolding mult.assoc pow2_add[symmetric] by simp
  ultimately show ?thesis unfolding f32_bits.simps e floor_of_int by (simp only: if_True)
qed

text \<open>The fields of a bit pattern.\<close>

lemma pattern_fields:
  fixes n :: int
  assumes "0 \<le> n" and "n < 2 ^ 32"
  shows "n = (if 2 ^ 31 \<le> n then 2 ^ 31 else 0) + ((n div 2 ^ 23) mod 256) * 2 ^ 23 + n mod 2 ^ 23"
    and "0 \<le> (n div 2 ^ 23) mod 256" and "(n div 2 ^ 23) mod 256 \<le> 255" and "0 \<le> n mod 2 ^ 23" and "n mod 2 ^ 23 < 2 ^ 23"
proof -
  have q: "n div 2 ^ 23 < 512" "0 \<le> n div 2 ^ 23" using assms by simp_all
  have "(n div 2 ^ 23) mod 256 = n div 2 ^ 23 - (if 2 ^ 31 \<le> n then 256 else 0)"
  proof (cases "2 ^ 31 \<le> n")
    case True
    then have "256 \<le> n div 2 ^ 23" by simp
    then have "(n div 2 ^ 23 - 256) mod 256 = n div 2 ^ 23 - 256" using q by (intro mod_pos_pos_trivial) simp_all
    then show ?thesis using True by (simp only: if_True) (simp add: mod_diff_right_eq[of _ 256, symmetric] del: mod_diff_right_eq)
  next
    case False
    then show ?thesis using q by simp
  qed
  then have "(if 2 ^ 31 \<le> n then 2 ^ 31 else 0) + ((n div 2 ^ 23) mod 256) * 2 ^ 23 = n div 2 ^ 23 * 2 ^ 23"
    by (auto simp: algebra_simps)
  then show "n = (if 2 ^ 31 \<le> n then 2 ^ 31 else 0) + ((n div 2 ^ 23) mod 256) * 2 ^ 23 + n mod 2 ^ 23"
    using div_mult_mod_eq[of n "2 ^ 23"] by simp
  show "(n div 2 ^ 23) mod 256 \<le> 255" using pos_mod_bound[of 256 "n div 2 ^ 23"] by simp
qed simp_all

lemma bits_from_bits:
  assumes "f32_from_bits w \<noteq> NaN"
  shows "f32_bits (f32_from_bits w) = w"
proof -
  let ?n = "uint w"
  let ?e = "(?n div 2 ^ 23) mod 256" and ?f = "?n mod 2 ^ 23" and ?s = "?n \<ge> 2 ^ 31"
  have n: "0 \<le> ?n" "?n < 2 ^ 32" using uint_lt2p[of w] by simp_all
  note fields = pattern_fields[OF n]
  have w: "word_of_int ((if ?s then 2 ^ 31 else 0) + ?e * 2 ^ 23 + ?f) = w"
    unfolding fields(1)[symmetric] by (rule word_of_int_uint)
  consider (inf) "?e = 255" "?f = 0" | (sub) "?e = 0" | (normal) "1 \<le> ?e" "?e \<le> 254"
    using assms fields(2,3) by (fastforce simp: f32_from_bits_def Let_def split: if_splits)
  then show ?thesis
  proof cases
    case inf
    then have "f32_from_bits w = Inf ?s" unfolding f32_from_bits_def Let_def by (simp only: if_True refl)
    then show ?thesis using w unfolding inf by simp
  next
    case sub
    then have "f32_from_bits w = Fin ?s (of_int ?f * pow2 (- 149))"
      unfolding f32_from_bits_def Let_def by (simp only: if_True if_False zero_neq_numeral refl)
    then have "f32_bits (f32_from_bits w) = word_of_int ((if ?s then 2 ^ 31 else 0) + ?e * 2 ^ 23 + ?f)"
      using bits_of_subnormal[OF fields(4,5), of ?s] by (simp only: sub mult_zero_left add_0_right)
    then show ?thesis unfolding w .
  next
    case normal
    then have "?e \<noteq> 255" "?e \<noteq> 0" by linarith+
    then have "f32_from_bits w = Fin ?s (of_int (2 ^ 23 + ?f) * pow2 (?e - 150))"
      unfolding f32_from_bits_def Let_def by (simp only: if_False)
    then have "f32_bits (f32_from_bits w) = word_of_int ((if ?s then 2 ^ 31 else 0) + ?e * 2 ^ 23 + ?f)"
      using bits_of_normal[OF normal fields(4,5), of ?s] by (simp only:)
    then show ?thesis unfolding w .
  qed
qed

definition is_f32 :: "f32 \<Rightarrow> bool" where
  "is_f32 x \<longleftrightarrow> (\<exists>w. x = f32_from_bits w)"

lemma from_bits_of_bits: "is_f32 x \<Longrightarrow> f32_from_bits (f32_bits x) = x"
proof (cases "x = NaN")
  case True
  then show ?thesis by (simp add: f32_from_bits_def)
next
  case False
  then show "is_f32 x \<Longrightarrow> ?thesis" using bits_from_bits by (auto simp: is_f32_def)
qed

lemma f32_bytes_roundtrip: "is_f32 x \<Longrightarrow> f32_from_le_bytes (f32_to_le_bytes x) = x"
  by (simp add: f32_from_le_bytes_def f32_to_le_bytes_def from_bits_of_bits)

section \<open>Payload shapes\<close>

lemma length_concat_const: "(\<And>x. x \<in> set xs \<Longrightarrow> length (f x) = n) \<Longrightarrow> length (concat (map f xs)) = length xs * n"
  by (induction xs) auto

lemma those_length: "those xs = Some ys \<Longrightarrow> length ys = length xs"
  by (induction xs arbitrary: ys) (auto split: option.splits)

lemma payload_shape:
  assumes "payload_encode H vs enc = Some p" and "\<And>v. length (f16_to_le_bytes H v) = 2"
  shows "pl_encoding p = enc \<and> pl_dim p = length vs \<and> length (pl_bytes p) = pl_dim p * bytes_per_element enc \<and>
    (pl_int8_params p \<noteq> None \<longleftrightarrow> enc = Int8)"
  using assms(1)
  by (cases enc)
    (auto simp: payload_encode_def length_concat_const assms(2) f32_to_le_bytes_def case_prod_beta Let_def dest!: those_length)

lemma f32_payload_decode:
  assumes "list_all is_f32 vs"
  shows "map f32_from_le_bytes (chunks_exact 4 (concat (map f32_to_le_bytes vs))) = vs"
proof -
  have "chunks_exact 4 (concat (map f32_to_le_bytes vs)) = map f32_to_le_bytes vs"
    by (rule chunks_exact_concat) (simp_all add: list_all_iff f32_to_le_bytes_def)
  moreover have "map (f32_from_le_bytes \<circ> f32_to_le_bytes) vs = vs"
    using assms by (induction vs) (simp_all add: f32_bytes_roundtrip)
  ultimately show ?thesis by simp
qed

section \<open>A constant payload of large values\<close>

abbreviation large :: rat where "large \<equiv> 1073741824"

lemma ilog2_large: "ilog2 (large - 1) = 29" "ilog2 (large + 1) = 30"
  by (intro ilog2_unique; simp add: pow2_def)+

lemma round_large:
  "fp_round binary32 z (large - 1) = Fin False large" "fp_round binary32 z (large + 1) = Fin False large"
proof -
  have a: "round_half_even (1073741823 / 64) = 16777216" and b: "round_half_even (1073741825 / 128) = 8388608"
    by (simp_all add: round_half_even_def Let_def floor_divide_of_int_eq[where ?'a = rat, of 1073741823 64, simplified]
      floor_divide_of_int_eq[where ?'a = rat, of 1073741825 128, simplified])
  have "round_magnitude binary32 (large - 1) = large" "round_magnitude binary32 (large + 1) = large"
    using a b ilog2_large by (simp_all add: round_magnitude_def binary32_def Let_def pow2_def)
  then show "fp_round binary32 z (large - 1) = Fin False large" "fp_round binary32 z (large + 1) = Fin False large"
    by (simp_all add: fp_round_def Let_def binary32_def pow2_def)
qed

lemma extremes_large: "fp_min F32_MAX (Fin False large) = Fin False large" "fp_max F32_MIN (Fin False large) = Fin False large"
  by (simp_all add: fp_min_def fp_max_def pow2_def)

lemma fold_large:
  "foldl (\<lambda>(lo, hi) v. (fp_min lo v, fp_max hi v)) (Fin False large, Fin False large) (replicate n (Fin False large)) =
    (Fin False large, Fin False large)"
  by (induction n) (simp_all add: fp_min_def fp_max_def)

lemma scale_large: "int8_scale (replicate (Suc n) (Fin False large)) = (Fin False 0, I32_MIN)"
proof -
  have sub: "f_sub (Fin False large) f_one = Fin False large" using round_large by (simp add: fp_sub_def)
  have zero: "f_sub (Fin False large) (Fin False large) = Fin False 0" by (simp add: fp_sub_def fp_round_def)
  have eq: "fp_eq (Fin False large) (Fin False large)" by (simp add: fp_eq_def)
  have f255: "f32_of 255 = Fin False 255" by code_simp
  have "int8_scale (replicate (Suc n) (Fin False large)) =
      (f_div (Fin False 0) (Fin False 255), f32_as_i32 (fp_round_away (f_div (fp_neg (Fin False large)) (f_div (Fin False 0) (Fin False 255)))))"
    by (simp add: int8_scale_def extremes_large fold_large Let_def eq sub zero f255 round_large(2)[simplified] del: fp_div.simps fp_neg.simps)
  then show ?thesis by (simp add: fp_round_def f32_as_i32_def)
qed

section \<open>Properties\<close>

text \<open>A single-precision payload round trips exactly: decoding what \<open>Payload::encode\<close> packs gives
  back every vector of floats, in four bytes per element.\<close>

theorem payload_f32_exact:
  assumes "list_all is_f32 vs"
  shows "\<exists>p. payload_encode H vs F32 = Some p \<and> payload_decode H p = Some vs \<and> wire_bytes p = 4 * length vs"
  using f32_payload_decode[OF assms]
  by (simp add: payload_encode_def payload_decode_def wire_bytes_def length_concat_const f32_to_le_bytes_def)

theorem payload_f32_exact_witness:
  "\<exists>p. payload_encode \<lparr> f16_to_le_bytes = \<lambda>_. [0, 0], f16_from_le_bytes = \<lambda>_. f_zero \<rparr> [f32_from_bits 0x3f000000, NaN] F32 = Some p \<and>
     payload_decode \<lparr> f16_to_le_bytes = \<lambda>_. [0, 0], f16_from_le_bytes = \<lambda>_. f_zero \<rparr> p = Some [f32_from_bits 0x3f000000, NaN]"
proof -
  have "f32_from_bits 0x7fc00000 = NaN" by (simp add: f32_from_bits_def)
  then have "list_all is_f32 [f32_from_bits 0x3f000000, NaN]" unfolding is_f32_def by (simp, metis)
  from payload_f32_exact[OF this] show ?thesis by blast
qed

text \<open>The 8-bit quantization loses a constant vector of large values: for any number of elements
  equal to 2 to the 30 the scale is zero and the zero point is the smallest 32-bit integer, and
  decoding overflows in the subtraction of the zero point.\<close>

theorem int8_constant_lost:
  "payload_encode H (replicate (Suc n) (Fin False 1073741824)) Int8 =
     Some \<lparr> pl_encoding = Int8, pl_dim = Suc n, pl_bytes = replicate (Suc n) 0, pl_int8_params = Some (Fin False 0, I32_MIN) \<rparr> \<and>
   payload_decode H \<lparr> pl_encoding = Int8, pl_dim = Suc n, pl_bytes = replicate (Suc n) 0,
     pl_int8_params = Some (Fin False 0, I32_MIN) \<rparr> = None"
proof -
  have q: "int8_quantize (Fin False 0) I32_MIN (Fin False 1073741824) = Some 0"
    by (simp add: int8_quantize_def i32_checked_def f32_as_i32_def)
  have "those (map (int8_quantize (Fin False 0) I32_MIN) (replicate k (Fin False 1073741824))) = Some (replicate k 0)" for k
    by (induction k) (simp_all add: q)
  then show ?thesis
    using scale_large[of n] by (simp add: payload_encode_def payload_decode_def int8_dequantize_def i32_checked_def q
        del: replicate_Suc) (simp add: int8_dequantize_def i32_checked_def)
qed

end
