(* ===== verification/Latent_Gate.thy ===== *)
theory Latent_Gate
  imports Latent_Core
begin

text \<open>
  \<open>latentmesh-gate/src/lib.rs\<close> and \<open>causal.rs\<close>: the admission gate for latent frames, its policy, and
  the causal verification of an edge from which the policy's authority ceilings come. The random
  generator of the crate \<open>rand\<close> is a parameter. The texts of the reasons are not modelled: a rejection
  keeps the values that its text shows.
\<close>

section \<open>Causal verification\<close>

text \<open>\<open>StdRng\<close>: \<open>seed_from_u64\<close> and \<open>gen_bool(0.5)\<close>.\<close>

record 'r rng =
  seed_from_u64 :: "u64 \<Rightarrow> 'r"
  gen_coin :: "'r \<Rightarrow> bool \<times> 'r"

record edge_trial =
  tr_real :: "f64 list"
  tr_zero :: "f64 list"
  tr_random :: "f64 list"
  tr_mismatched :: "f64 list"
  tr_self_generated :: "f64 list"
  tr_text_equivalent :: "f64 list"

definition trial_controls :: "edge_trial \<Rightarrow> (string \<times> f64 list) list" where
  "trial_controls t =
     [(''zero'', tr_zero t), (''random'', tr_random t), (''mismatched'', tr_mismatched t),
      (''self_generated'', tr_self_generated t), (''text_equivalent'', tr_text_equivalent t)]"

datatype reject_reason =
    ControlLength string nat nat
  | NoTrials
  | NotSignificant f64 string f64 f64

datatype edge_verdict =
    Admit f64 f64
  | Reject reject_reason

definition d_sum :: "f64 list \<Rightarrow> f64" where
  "d_sum xs = foldl d_add (Fin False 0) xs"

definition d_mean :: "f64 list \<Rightarrow> f64" where
  "d_mean xs = d_div (d_sum xs) (f64_of (of_nat (length xs)))"

text \<open>One resample: every difference keeps or flips its sign as a coin says.\<close>

fun flip_signs :: "'r rng \<Rightarrow> 'r \<Rightarrow> f64 list \<Rightarrow> f64 list \<times> 'r" where
  "flip_signs R r [] = ([], r)"
| "flip_signs R r (d # ds) =
     (let (keep, r1) = gen_coin R r; (ds', r2) = flip_signs R r1 ds
      in ((if keep then d else fp_neg d) # ds', r2))"

fun count_extreme :: "'r rng \<Rightarrow> f64 list \<Rightarrow> f64 \<Rightarrow> nat \<Rightarrow> 'r \<Rightarrow> nat \<Rightarrow> nat" where
  "count_extreme R ds observed 0 r k = k"
| "count_extreme R ds observed (Suc n) r k =
     (let (permuted, r') = flip_signs R r ds
      in count_extreme R ds observed n r' (if fp_le observed (d_mean permuted) then k + 1 else k))"

definition sign_flip_permutation_test :: "'r rng \<Rightarrow> f64 list \<Rightarrow> nat \<Rightarrow> u64 \<Rightarrow> f64" where
  "sign_flip_permutation_test R differences resamples seed =
     (if differences = [] then Fin False 1
      else let k = count_extreme R differences (d_mean differences) resamples (seed_from_u64 R seed) 0
        in d_div (d_add (f64_of (of_nat k)) (Fin False 1)) (d_add (f64_of (of_nat resamples)) (Fin False 1)))"

text \<open>The worst of the five p-values, with the name of its control; the controls have distinct seeds.\<close>

definition control_p :: "'r rng \<Rightarrow> edge_trial \<Rightarrow> nat \<Rightarrow> u64 \<Rightarrow> nat \<Rightarrow> f64 list \<Rightarrow> f64" where
  "control_p R t resamples seed i c =
     sign_flip_permutation_test R (map2 d_sub (tr_real t) c) resamples (seed + of_nat i + 1)"

definition worst_control :: "'r rng \<Rightarrow> edge_trial \<Rightarrow> nat \<Rightarrow> u64 \<Rightarrow> f64 \<times> string" where
  "worst_control R t resamples seed =
     foldl (\<lambda>(worst, worst_name) (i, name, c).
         let p = control_p R t resamples seed i c
         in if fp_lt worst p then (p, name) else (worst, worst_name))
       (Fin False 0, []) (enumerate 0 (trial_controls t))"

definition edge_delta_v :: "edge_trial \<Rightarrow> f64" where
  "edge_delta_v t = d_sub (d_mean (tr_real t)) (d_mean (concat (map snd (trial_controls t))))"

definition verify_edge :: "'r rng \<Rightarrow> edge_trial \<Rightarrow> f64 \<Rightarrow> nat \<Rightarrow> u64 \<Rightarrow> edge_verdict" where
  "verify_edge R t alpha resamples seed =
     (let n = length (tr_real t) in
      case find (\<lambda>(name, c). length c \<noteq> n) (trial_controls t) of
        Some (name, c) \<Rightarrow> Reject (ControlLength name (length c) n)
      | None \<Rightarrow>
          if n = 0 then Reject NoTrials
          else let delta_v = edge_delta_v t; (worst, name) = worst_control R t resamples seed in
            if fp_lt (Fin False 0) delta_v \<and> fp_lt worst alpha then Admit delta_v worst
            else Reject (NotSignificant delta_v name worst alpha))"

section \<open>The policy\<close>

record ceiling_thresholds =
  action_influencing_dv :: f64
  latent_prefix_dv :: f64

definition thresholds_default :: ceiling_thresholds where
  "thresholds_default = \<lparr> action_influencing_dv = Fin False 1, latent_prefix_dv = Fin False (1 / 2) \<rparr>"

definition thresholds_run1 :: ceiling_thresholds where
  "thresholds_run1 = \<lparr> action_influencing_dv = f64_of (15 / 100), latent_prefix_dv = f64_of (5 / 100) \<rparr>"

record gate_policy =
  gp_ceilings :: "(string \<times> string) \<Rightarrow> authority option"
  gp_risk_threshold :: f32
  gp_transforms :: "string set"
  gp_thresholds :: ceiling_thresholds

definition policy_new :: "f32 \<Rightarrow> gate_policy" where
  "policy_new risk =
     \<lparr> gp_ceilings = \<lambda>_. None, gp_risk_threshold = risk, gp_transforms = {}, gp_thresholds = thresholds_default \<rparr>"

definition trust_transform :: "gate_policy \<Rightarrow> string \<Rightarrow> gate_policy" where
  "trust_transform p h = p\<lparr> gp_transforms := insert h (gp_transforms p) \<rparr>"

definition ceiling_from_verdict_with :: "edge_verdict \<Rightarrow> ceiling_thresholds \<Rightarrow> authority" where
  "ceiling_from_verdict_with v th =
     (case v of
        Reject _ \<Rightarrow> ObserveOnly
      | Admit delta_v _ \<Rightarrow>
          if fp_lt (action_influencing_dv th) delta_v then ActionInfluencing
          else if fp_lt (latent_prefix_dv th) delta_v then LatentPrefix
          else ContextInject)"

definition ceiling_from_verdict :: "edge_verdict \<Rightarrow> authority" where
  "ceiling_from_verdict v = ceiling_from_verdict_with v thresholds_default"

definition set_ceiling_from_verdict :: "gate_policy \<Rightarrow> string \<Rightarrow> string \<Rightarrow> edge_verdict \<Rightarrow> gate_policy" where
  "set_ceiling_from_verdict p sender receiver v =
     p\<lparr> gp_ceilings := (gp_ceilings p)((sender, receiver) \<mapsto> ceiling_from_verdict_with v (gp_thresholds p)) \<rparr>"

section \<open>Admission\<close>

datatype admission_error =
    UnknownTransform string
  | AuthorityExceedsCeiling authority authority
  | UnresolvedProvenance string
  | RiskTooHigh f32 f32

fun authority_weight :: "authority \<Rightarrow> f32" where
  "authority_weight ObserveOnly = f32_of (5 / 100)"
| "authority_weight ContextInject = f32_of (2 / 10)"
| "authority_weight LatentPrefix = f32_of (45 / 100)"
| "authority_weight ActionInfluencing = Fin False (3 / 4)"

definition estimate_risk :: "latent_frame \<Rightarrow> f32" where
  "estimate_risk f =
     (let penalty = fp_clamp (f_sub f_one (lf_confidence f)) f_zero f_one;
          bonus = fp_min (f_div (f32_of (of_nat (length (pv_parents (lf_provenance f))))) (Fin False 8)) (f32_of (2 / 10))
      in fp_clamp (f_sub (f_add (authority_weight (lf_authority f)) (f_mul (Fin False (1 / 2)) penalty)) bonus) f_zero f_one)"

definition edge_ceiling :: "gate_policy \<Rightarrow> string \<Rightarrow> string \<Rightarrow> authority" where
  "edge_ceiling p sender receiver = (case gp_ceilings p (sender, receiver) of None \<Rightarrow> ObserveOnly | Some a \<Rightarrow> a)"

definition gate_admit :: "latent_frame \<Rightarrow> gate_policy \<Rightarrow> admission_error + unit" where
  "gate_admit f p =
     (let ceiling = edge_ceiling p (lf_sender_model f) (lf_receiver_space f); risk = estimate_risk f in
      if lf_transform_hash f \<notin> gp_transforms p then Inl (UnknownTransform (lf_transform_hash f))
      else if lf_authority f > ceiling then Inl (AuthorityExceedsCeiling (lf_authority f) ceiling)
      else if pv_context_hash (lf_provenance f) = [] then Inl (UnresolvedProvenance ''empty context_hash'')
      else if fp_le (gp_risk_threshold p) risk then Inl (RiskTooHigh risk (gp_risk_threshold p))
      else Inr ())"

section \<open>P-values\<close>

text \<open>A positive number of moderate size rounds to a positive one of about that size.\<close>

lemma round64_positive:
  assumes "pow2 (- 1022) \<le> v" and "v \<le> pow2 1000"
  obtains m where "fp_round binary64 z v = Fin False m" and "v / 2 \<le> m" and "m \<le> 2 * v"
proof -
  let ?m = "round_magnitude binary64 v"
  have v: "0 < v" using assms(1) pow2_simps(2)[of "- 1022"] by linarith
  have "\<bar>?m - v\<bar> \<le> v * pow2 (- int (ff_precision binary64))"
    using assms v by (intro round_magnitude_error) (simp_all add: binary64_def)
  also have "pow2 (- int (ff_precision binary64)) \<le> 1 / 2"
    by (simp add: binary64_def pow2_def power_int_minus)
  then have "v * pow2 (- int (ff_precision binary64)) \<le> v * (1 / 2)" using v by (intro mult_left_mono) simp_all
  finally have err: "\<bar>?m - v\<bar> \<le> v / 2" by simp
  have bounds: "v / 2 \<le> ?m" "?m \<le> 2 * v" using err v by linarith+
  have "2 * pow2 1000 < pow2 1024" by (simp add: pow2_def)
  then have "?m < pow2 1024" using bounds(2) assms(2) by linarith
  then have "fp_round binary64 z v = Fin False ?m" using v by (simp add: fp_round_def Let_def binary64_def)
  then show thesis using bounds by (rule that)
qed

lemma pow2_1000: "(2 :: rat) ^ 80 \<le> pow2 1000" "pow2 (- 1022) \<le> 1 / 2 ^ 80"
  by (simp_all add: pow2_def power_int_minus field_simps)

text \<open>A count plus one, as the code computes it.\<close>

lemma count_plus_one:
  assumes "n < 2 ^ 64"
  obtains m where "d_add (f64_of (of_nat n)) (Fin False 1) = Fin False m" and "1 / 2 \<le> m" and "m \<le> 2 ^ 68"
proof -
  have n: "(of_nat n :: rat) \<le> 2 ^ 64" using assms by (metis less_imp_le of_nat_le_iff of_nat_numeral of_nat_power)
  have *: "\<exists>a. f64_of (of_nat n) = Fin False a \<and> 0 \<le> a \<and> a \<le> 2 ^ 65"
  proof (cases "n = 0")
    case True
    then show ?thesis by (simp add: fp_of_rat_def fp_round_def)
  next
    case False
    then have "1 \<le> (of_nat n :: rat)" by simp
    then obtain a where "f64_of (of_nat n) = Fin False a" "of_nat n / 2 \<le> a" "a \<le> 2 * (of_nat n :: rat)"
      using round64_positive[of "of_nat n" False] pow2_1000 n unfolding fp_of_rat_def by force
    then show ?thesis using n \<open>1 \<le> (of_nat n :: rat)\<close> by (intro exI[of _ a]) simp
  qed
  then obtain a where a: "f64_of (of_nat n) = Fin False a" "0 \<le> a" "a \<le> 2 ^ 65" by blast
  obtain m where "fp_round binary64 False (a + 1) = Fin False m" "(a + 1) / 2 \<le> m" "m \<le> 2 * (a + 1)"
    using round64_positive[of "a + 1" False] pow2_1000 a by force
  then show thesis using a by (intro that[of m]) simp_all
qed

lemma count_extreme_le: "count_extreme R ds observed n r k \<le> n + k"
proof (induction n arbitrary: r k)
  case (Suc n)
  obtain permuted r' where "flip_signs R r ds = (permuted, r')" by fastforce
  then show ?case using Suc[of r' "k + 1"] Suc[of r' k] by simp
qed simp

lemma p_value_positive:
  assumes "resamples < 2 ^ 64"
  shows "\<exists>m. sign_flip_permutation_test R ds resamples seed = Fin False m \<and> 0 < m"
proof (cases "ds = []")
  case False
  let ?k = "count_extreme R ds (d_mean ds) resamples (seed_from_u64 R seed) 0"
  have k: "?k < 2 ^ 64" using count_extreme_le[of R ds "d_mean ds" resamples "seed_from_u64 R seed" 0] assms by linarith
  obtain x where x: "d_add (f64_of (of_nat ?k)) (Fin False 1) = Fin False x" "1 / 2 \<le> x" "x \<le> 2 ^ 68"
    by (rule count_plus_one[OF k])
  obtain y where y: "d_add (f64_of (of_nat resamples)) (Fin False 1) = Fin False y" "1 / 2 \<le> y" "y \<le> 2 ^ 68"
    by (rule count_plus_one[OF assms])
  have pos: "0 < x" "0 < y" using x(2) y(2) by linarith+
  have "x / y \<le> 2 ^ 68 / (1 / 2)" using x(3) y(2) pos by (intro frac_le) simp_all
  moreover have "(1 / 2) / 2 ^ 68 \<le> x / y" using x(2) y(3) pos by (intro frac_le) simp_all
  ultimately obtain m where "fp_round binary64 False (x / y) = Fin False m" "x / y / 2 \<le> m"
    using round64_positive[of "x / y" False] pow2_1000 by force
  moreover have "0 < x / y" using pos by simp
  then have "0 < m" using \<open>x / y / 2 \<le> m\<close> by (meson half_gt_zero less_le_trans)
  ultimately show ?thesis using False pos x(1) y(1) by (simp add: sign_flip_permutation_test_def Let_def)
qed (simp add: sign_flip_permutation_test_def)

text \<open>The fold over the controls keeps the largest p-value.\<close>

lemma worst_fold:
  assumes P: "\<And>i c. \<exists>m. P i c = Fin False m" and "0 \<le> w0"
    and "foldl (\<lambda>(worst, worst_name) (i, name, c). let p = P i c in if fp_lt worst p then (p, name) else (worst, worst_name))
      (Fin False w0, n0) xs = (w, nm)"
  shows "\<exists>m. w = Fin False m \<and> w0 \<le> m \<and> (\<forall>(i, name, c)\<in>set xs. fp_value (P i c) \<le> m) \<and>
    (w = Fin False w0 \<and> nm = n0 \<or> (\<exists>(i, name, c)\<in>set xs. w = P i c \<and> nm = name))"
  using assms(2-)
proof (induction xs arbitrary: w0 n0)
  case (Cons x xs)
  obtain i name c where x: "x = (i, name, c)" by (cases x) auto
  obtain m where m: "P i c = Fin False m" using P by blast
  let ?step = "\<lambda>(worst, worst_name) (i, name, c). let p = P i c in if fp_lt worst p then (p, name) else (worst, worst_name)"
  show ?case
  proof (cases "w0 < m")
    case True
    then have "foldl ?step (Fin False m, name) xs = (w, nm)" using Cons.prems(2) x m by simp
    from Cons.IH[OF _ this] True Cons.prems(1) obtain m' where
      "w = Fin False m'" "m \<le> m'" "\<forall>(i, name, c)\<in>set xs. fp_value (P i c) \<le> m'"
      "w = Fin False m \<and> nm = name \<or> (\<exists>(i, name, c)\<in>set xs. w = P i c \<and> nm = name)" by auto
    then show ?thesis using True x m by (intro exI[of _ m']) auto
  next
    case False
    then have "foldl ?step (Fin False w0, n0) xs = (w, nm)" using Cons.prems(2) x m by simp
    from Cons.IH[OF Cons.prems(1) this] obtain m' where
      "w = Fin False m'" "w0 \<le> m'" "\<forall>(i, name, c)\<in>set xs. fp_value (P i c) \<le> m'"
      "w = Fin False w0 \<and> nm = n0 \<or> (\<exists>(i, name, c)\<in>set xs. w = P i c \<and> nm = name)" by auto
    then show ?thesis using False x m by (intro exI[of _ m']) auto
  qed
qed auto

section \<open>Risk\<close>

lemma clamp_unit:
  assumes "x \<noteq> NaN"
  shows "fp_le f_zero (fp_clamp x f_zero f_one)" and "fp_is_finite (fp_clamp x f_zero f_one)"
  using assms by (cases x; auto simp: fp_clamp_def Let_def)+

lemma fp_round_not_NaN: "fp_round F z x \<noteq> NaN"
  by (simp add: fp_round_def Let_def)

lemma finite_ops_not_NaN:
  assumes "fp_is_finite a" and "fp_is_finite b"
  shows "fp_add F a b \<noteq> NaN" and "fp_mul F a b \<noteq> NaN"
  using assms by (cases a; cases b; simp add: fp_round_not_NaN)+

lemma weight_finite: "fp_is_finite (authority_weight a)"
proof -
  have "fp_is_finite (f32_of (5 / 100))" "fp_is_finite (f32_of (2 / 10))" "fp_is_finite (f32_of (45 / 100))" by code_simp+
  then show ?thesis by (cases a) (simp_all only: authority_weight.simps fp_is_finite.simps)
qed

text \<open>The lineage bonus is finite whatever the number of parents.\<close>

lemma bonus_finite: "fp_is_finite (fp_min (f_div (f32_of (of_nat n)) (Fin False 8)) (f32_of (2 / 10)))"
proof -
  have fifth: "fp_is_finite (f32_of (2 / 10))" by code_simp
  have pos: "\<exists>m. f32_of (of_nat n) = Fin False m \<and> 0 \<le> m \<or> f32_of (of_nat n) = Inf False"
    by (auto simp: fp_of_rat_def fp_round_def Let_def round_magnitude_nonneg)
  have "f_div (f32_of (of_nat n)) (Fin False 8) \<noteq> Inf True \<and> f_div (f32_of (of_nat n)) (Fin False 8) \<noteq> NaN"
    using pos fp_round_not_NaN by (auto simp: fp_round_def Let_def split: if_splits)
  then show ?thesis using fifth
    by (cases "f_div (f32_of (of_nat n)) (Fin False 8)"; cases "f32_of (2 / 10)") (auto simp: fp_min_def)
qed

lemma risk_nonneg:
  assumes "fp_is_finite (lf_confidence f)"
  shows "fp_le f_zero (estimate_risk f)"
proof -
  let ?penalty = "fp_clamp (f_sub f_one (lf_confidence f)) f_zero f_one"
  have neg: "fp_is_finite (fp_neg x) = fp_is_finite x" for x by (cases x) simp_all
  have "f_sub f_one (lf_confidence f) \<noteq> NaN"
    unfolding fp_sub_def by (rule finite_ops_not_NaN) (simp_all add: neg assms)
  then have "fp_is_finite ?penalty" by (rule clamp_unit)
  then have half: "f_mul (Fin False (1 / 2)) ?penalty \<noteq> NaN" by (intro finite_ops_not_NaN) simp_all
  have add: "fp_add F a b \<noteq> NaN" if "fp_is_finite a" "b \<noteq> NaN" for F a b
    using that by (cases a; cases b) (simp_all add: fp_round_not_NaN)
  have add': "fp_add F b a \<noteq> NaN" if "fp_is_finite a" "b \<noteq> NaN" for F a b
    using that by (cases a; cases b) (simp_all add: fp_round_not_NaN)
  show ?thesis
    unfolding estimate_risk_def Let_def
    by (subst (2) fp_sub_def, rule clamp_unit(1), rule add'[OF _ add[OF weight_finite half]]) (simp only: neg bonus_finite)
qed

section \<open>The verdicts a policy is built from\<close>

datatype policy_op = Trust string | SetCeiling string string edge_verdict

fun policy_step :: "gate_policy \<Rightarrow> policy_op \<Rightarrow> gate_policy \<times> unit" where
  "policy_step p (Trust h) = (trust_transform p h, ())"
| "policy_step p (SetCeiling s r v) = (set_ceiling_from_verdict p s r v, ())"

definition built_policy :: "f32 \<Rightarrow> policy_op list \<Rightarrow> gate_policy" where
  "built_policy risk ops = fst (run_machine policy_step (policy_new risk) ops)"

text \<open>The last verdict recorded for an edge.\<close>

fun last_verdict :: "policy_op list \<Rightarrow> string \<Rightarrow> string \<Rightarrow> edge_verdict option" where
  "last_verdict [] s r = None"
| "last_verdict (op # ops) s r =
     (case last_verdict ops s r of
        Some v \<Rightarrow> Some v
      | None \<Rightarrow> (case op of Trust h \<Rightarrow> None | SetCeiling s' r' v \<Rightarrow> if s' = s \<and> r' = r then Some v else None))"

lemma built_ceilings:
  "gp_thresholds (fst (run_machine policy_step p ops)) = gp_thresholds p \<and>
   gp_ceilings (fst (run_machine policy_step p ops)) (s, r) =
     (case last_verdict ops s r of None \<Rightarrow> gp_ceilings p (s, r) | Some v \<Rightarrow> Some (ceiling_from_verdict_with v (gp_thresholds p)))"
proof (induction ops arbitrary: p)
  case (Cons op ops)
  show ?case
    using Cons[of "fst (policy_step p op)"]
    by (cases op) (auto simp: case_prod_beta Let_def trust_transform_def set_ceiling_from_verdict_def split: option.splits)
qed simp

section \<open>An edge and its frame\<close>

definition demo_rng :: "nat rng" where
  "demo_rng = \<lparr> seed_from_u64 = \<lambda>_. 0, gen_coin = \<lambda>n. (n mod 2 = 1, n + 1) \<rparr>"

definition demo_trial :: edge_trial where
  "demo_trial = \<lparr> tr_real = [Fin False 1, Fin False 1], tr_zero = [Fin False 0, Fin False 0],
     tr_random = [Fin False 0, Fin False 0], tr_mismatched = [Fin False 0, Fin False 0],
     tr_self_generated = [Fin False 0, Fin False 0], tr_text_equivalent = [Fin False 0, Fin False 0] \<rparr>"

lemma small_round64 [simp]:
  "numeral k < (2 :: nat) ^ 53 \<Longrightarrow> fp_round binary64 False (numeral k) = Fin False (numeral k)"
  "fp_round binary64 False 1 = Fin False 1" "fp_round binary64 False (1 / 4) = Fin False (1 / 4)"
  using fp_round_exact[of "numeral k" binary64 0] fp_round_exact[of 1 binary64 0] fp_round_exact[of 1 binary64 "- 2"]
  by (simp_all add: pow2_def power_int_minus)

lemma round64_zero [simp]: "fp_round binary64 s 0 = Fin s 0"
  by (simp add: fp_round_def)

lemma minus_one_round64 [simp]: "fp_round binary64 s (- 1) = Fin True 1"
  using round_magnitude_exact[of 1 binary64 0] by (simp add: fp_round_def Let_def pow2_def)

lemma demo_p: "sign_flip_permutation_test demo_rng [Fin False 1, Fin False 1] 3 seed = Fin False (1 / 4)"
proof -
  have mean: "d_mean [Fin False 1, Fin False 1] = Fin False 1" by (simp add: d_mean_def d_sum_def fp_of_rat_def)
  have mixed: "d_mean [Fin True 1, Fin False 1] = Fin False 0" by (simp add: d_mean_def d_sum_def fp_of_rat_def)
  have flip: "flip_signs demo_rng n [Fin False 1, Fin False 1] = ([Fin True 1, Fin False 1], n + 2)" if "n mod 2 = 0" for n
    using that by (simp add: demo_rng_def Let_def mod_Suc)
  have "count_extreme demo_rng [Fin False 1, Fin False 1] (Fin False 1) k n 0 = 0" if "n mod 2 = 0" for k n
    using that by (induction k arbitrary: n) (simp_all add: flip mixed del: flip_signs.simps)
  then show ?thesis
    by (simp add: sign_flip_permutation_test_def mean Let_def fp_of_rat_def) (simp add: demo_rng_def)
qed

lemma demo_verdict: "verify_edge demo_rng demo_trial (Fin False (1 / 2)) 3 7 = Admit (Fin False 1) (Fin False (1 / 4))"
proof -
  have p: "control_p demo_rng demo_trial 3 7 i [Fin False 0, Fin False 0] = Fin False (1 / 4)" for i
    by (simp add: control_p_def demo_trial_def fp_sub_def demo_p)
  have "worst_control demo_rng demo_trial 3 7 = (Fin False (1 / 4), ''zero'')"
    unfolding worst_control_def by (simp add: trial_controls_def demo_trial_def[unfolded demo_trial_def])
      (simp add: p[unfolded demo_trial_def] demo_trial_def)
  moreover have "edge_delta_v demo_trial = Fin False 1"
    by (simp add: edge_delta_v_def trial_controls_def demo_trial_def d_mean_def d_sum_def fp_of_rat_def fp_sub_def)
  moreover have "tr_real demo_trial \<noteq> []" "find (\<lambda>(name, c). length c \<noteq> length (tr_real demo_trial)) (trial_controls demo_trial) = None"
    by (simp_all add: demo_trial_def trial_controls_def)
  ultimately show ?thesis by (simp add: verify_edge_def Let_def)
qed

definition demo_payload :: payload where
  "demo_payload = \<lparr> pl_encoding = F32, pl_dim = 0, pl_bytes = [], pl_int8_params = None \<rparr>"

definition demo_latent :: "u64 \<Rightarrow> authority \<Rightarrow> latent_frame" where
  "demo_latent n a = \<lparr> lf_id = ''f'', lf_sender_model = ''s'', lf_receiver_space = ''r'', lf_transform_hash = ''t'',
     lf_sequence = n, lf_payload = demo_payload, lf_confidence = Fin False 1,
     lf_provenance = \<lparr> pv_sender_model = ''s'', pv_context_hash = ''c'', pv_parents = [] \<rparr>,
     lf_authority = a, lf_timestamp = 0 \<rparr>"

definition demo_ops :: "policy_op list" where
  "demo_ops = [Trust ''t'', SetCeiling ''s'' ''r'' (Admit (Fin False (3 / 2)) (Fin False (1 / 4)))]"

lemma demo_admitted: "gate_admit (demo_latent n ActionInfluencing) (built_policy (Fin False (7 / 8)) demo_ops) = Inr ()"
  by code_simp

section \<open>Properties\<close>

text \<open>C14. What an admitted edge has shown, for any \<open>usize\<close> number of resamples: the trials are paired and not empty, the reported gain is the
  difference of the means and positive, and the p-value against each one of the five controls is below
  the significance level; the reported p-value is that of one of the five, and none of them has a larger
  one.\<close>

theorem verify_edge_sound:
  assumes "verify_edge R t alpha resamples seed = Admit delta_v worst" and "resamples < 2 ^ 64"
  shows "tr_real t \<noteq> [] \<and> (\<forall>(name, c)\<in>set (trial_controls t). length c = length (tr_real t)) \<and>
    delta_v = edge_delta_v t \<and> fp_lt (Fin False 0) delta_v \<and> fp_lt worst alpha \<and>
    (\<forall>(i, name, c)\<in>set (enumerate 0 (trial_controls t)).
      fp_lt (control_p R t resamples seed i c) alpha \<and> fp_le (control_p R t resamples seed i c) worst) \<and>
    (\<exists>(i, name, c)\<in>set (enumerate 0 (trial_controls t)). worst = control_p R t resamples seed i c)"
proof -
  let ?P = "control_p R t resamples seed"
  obtain nm where w: "worst_control R t resamples seed = (worst, nm)"
    and paired: "find (\<lambda>(name, c). length c \<noteq> length (tr_real t)) (trial_controls t) = None"
    and basic: "tr_real t \<noteq> []" "delta_v = edge_delta_v t" "fp_lt (Fin False 0) delta_v" "fp_lt worst alpha"
    using assms(1) by (auto simp: verify_edge_def Let_def case_prod_beta split: option.splits if_splits) (metis prod.collapse)
  have pos: "\<exists>m. ?P i c = Fin False m \<and> 0 < m" for i c
    using p_value_positive[OF assms(2)] unfolding control_p_def by blast
  then have P: "\<exists>m. ?P i c = Fin False m" for i c by blast
  obtain m where m: "worst = Fin False m" "\<forall>(i, name, c)\<in>set (enumerate 0 (trial_controls t)). fp_value (?P i c) \<le> m"
    and chosen: "worst = Fin False 0 \<and> nm = [] \<or> (\<exists>(i, name, c)\<in>set (enumerate 0 (trial_controls t)). worst = ?P i c \<and> nm = name)"
    using worst_fold[OF P order_refl w[unfolded worst_control_def]] by blast
  have zero: "(0, ''zero'', tr_zero t) \<in> set (enumerate 0 (trial_controls t))" by (simp add: trial_controls_def)
  obtain q where "?P 0 (tr_zero t) = Fin False q" "0 < q" using pos by blast
  then have "0 < m" using bspec[OF m(2) zero] by simp
  then have one: "\<exists>(i, name, c)\<in>set (enumerate 0 (trial_controls t)). worst = ?P i c" using chosen m(1) by auto
  have "fp_lt (?P i c) alpha \<and> fp_le (?P i c) worst" if "(i, name, c) \<in> set (enumerate 0 (trial_controls t))" for i name c
  proof -
    obtain q where q: "?P i c = Fin False q" using P by blast
    then have "q \<le> m" using m(2) that by auto
    then show ?thesis using basic(4) m(1) q by (cases alpha) auto
  qed
  moreover have "length c = length (tr_real t)" if "(name, c) \<in> set (trial_controls t)" for name c
    using paired that by (auto simp: find_None_iff)
  ultimately show ?thesis using basic one by blast
qed

theorem verify_edge_sound_witness:
  "fp_lt (control_p demo_rng demo_trial 3 7 0 (tr_zero demo_trial)) (Fin False (1 / 2)) \<and>
   fp_lt (control_p demo_rng demo_trial 3 7 4 (tr_text_equivalent demo_trial)) (Fin False (1 / 2))"
proof -
  have mem: "(0, ''zero'', tr_zero demo_trial) \<in> set (enumerate 0 (trial_controls demo_trial))"
    "(4, ''text_equivalent'', tr_text_equivalent demo_trial) \<in> set (enumerate 0 (trial_controls demo_trial))"
    by (simp_all add: trial_controls_def)
  have few: "(3 :: nat) < 2 ^ 64" by simp
  have every: "\<forall>(i, name, c)\<in>set (enumerate 0 (trial_controls demo_trial)).
      fp_lt (control_p demo_rng demo_trial 3 7 i c) (Fin False (1 / 2)) \<and>
      fp_le (control_p demo_rng demo_trial 3 7 i c) (Fin False (1 / 4))"
    using verify_edge_sound[OF demo_verdict few] by (elim conjE)
  show ?thesis using bspec[OF every mem(1)] bspec[OF every mem(2)] unfolding prod.case by (elim conjE) (intro conjI)
qed

text \<open>C15. Authority is earned: under a policy built by \<open>trust_transform\<close> and \<open>set_ceiling_from_verdict\<close>
  alone, a frame that is admitted with more authority than observing travels on an edge whose last
  recorded verdict admits it, with a gain above the threshold of the authority requested.\<close>

theorem authority_is_earned:
  assumes "gate_admit f (built_policy risk ops) = Inr ()" and "lf_authority f \<noteq> ObserveOnly"
  shows "\<exists>delta_v p. last_verdict ops (lf_sender_model f) (lf_receiver_space f) = Some (Admit delta_v p) \<and>
    (LatentPrefix \<le> lf_authority f \<longrightarrow> fp_lt (Fin False (1 / 2)) delta_v) \<and>
    (lf_authority f = ActionInfluencing \<longrightarrow> fp_lt (Fin False 1) delta_v)"
proof -
  let ?v = "last_verdict ops (lf_sender_model f) (lf_receiver_space f)"
  have le: "lf_authority f \<le> edge_ceiling (built_policy risk ops) (lf_sender_model f) (lf_receiver_space f)"
    using assms(1) by (auto simp: gate_admit_def Let_def not_less split: if_splits)
  have ceil: "edge_ceiling (built_policy risk ops) (lf_sender_model f) (lf_receiver_space f) =
      (case ?v of None \<Rightarrow> ObserveOnly | Some v \<Rightarrow> ceiling_from_verdict v)"
    using built_ceilings[of "policy_new risk" ops]
    by (auto simp: edge_ceiling_def built_policy_def policy_new_def ceiling_from_verdict_def split: option.splits)
  then obtain v where v: "?v = Some v" "lf_authority f \<le> ceiling_from_verdict v"
    using le assms(2) by (cases ?v) auto
  then obtain delta_v p where a: "v = Admit delta_v p"
    using assms(2) by (cases v) (auto simp: ceiling_from_verdict_def ceiling_from_verdict_with_def)
  have "fp_lt (Fin False (1 / 2)) delta_v" if "fp_lt (Fin False 1) delta_v" using that by (cases delta_v) auto
  then show ?thesis using v a
    by (cases "lf_authority f")
      (auto simp: ceiling_from_verdict_def ceiling_from_verdict_with_def thresholds_default_def less_eq_authority_def split: if_splits)
qed

theorem authority_is_earned_witness:
  "\<exists>delta_v p. last_verdict demo_ops ''s'' ''r'' = Some (Admit delta_v p) \<and> fp_lt (Fin False (1 / 2)) delta_v"
  using authority_is_earned[OF demo_admitted[of 0]] by (auto simp: demo_latent_def less_eq_authority_def)

text \<open>The risk rule fails open on a NaN: a policy with risk threshold zero refuses every frame whose
  confidence is a finite number, but the same frame with a NaN as its confidence passes the rule under
  every threshold.\<close>

theorem nan_confidence_admitted:
  assumes "gp_risk_threshold p = f_zero" and "fp_is_finite (lf_confidence f)"
    and "lf_transform_hash f \<in> gp_transforms p"
    and "lf_authority f \<le> edge_ceiling p (lf_sender_model f) (lf_receiver_space f)"
    and "pv_context_hash (lf_provenance f) \<noteq> []"
  shows "gate_admit f p = Inl (RiskTooHigh (estimate_risk f) f_zero) \<and>
    gate_admit (f\<lparr> lf_confidence := NaN \<rparr>) (p\<lparr> gp_risk_threshold := any \<rparr>) = Inr ()"
proof -
  have "f_mul (Fin False (1 / 2)) NaN = NaN" "fp_add F x NaN = NaN" "fp_add F NaN x = NaN" for F x by (cases x; simp)+
  then have "estimate_risk (f\<lparr> lf_confidence := NaN \<rparr>) = NaN"
    by (simp add: estimate_risk_def fp_sub_def fp_clamp_def)
  moreover have "\<not> fp_le any NaN" by (cases any) simp_all
  ultimately show ?thesis
    using assms risk_nonneg[OF assms(2)] by (auto simp: gate_admit_def Let_def not_less edge_ceiling_def)
qed

theorem nan_confidence_admitted_witness:
  "gate_admit ((demo_latent 0 ObserveOnly)\<lparr> lf_confidence := NaN \<rparr>) (trust_transform (policy_new f_zero) ''t'') = Inr ()"
proof -
  let ?p = "trust_transform (policy_new f_zero) ''t''" and ?f = "demo_latent 0 ObserveOnly"
  have "gate_admit (?f\<lparr> lf_confidence := NaN \<rparr>) (?p\<lparr> gp_risk_threshold := f_zero \<rparr>) = Inr ()"
    by (rule conjunct2[OF nan_confidence_admitted]) (simp_all add: demo_latent_def trust_transform_def policy_new_def)
  then show ?thesis by (simp add: trust_transform_def policy_new_def)
qed

end
