(* ===== verification/Latent_Stream.thy ===== *)
theory Latent_Stream
  imports Latent_Gate Replay_Window
begin

text \<open>
  \<open>latentmesh-stream/src\<close>: \<open>sequence.rs\<close>, \<open>escalation.rs\<close> and \<open>receiver.rs\<close>. A receiver admits a frame
  at the gate, places it in the total order of its stream and computes the authority the stream has
  earned. The texts of the errors are not modelled: an error keeps the values that its text shows.
\<close>

datatype stream_error =
    FrameTooLarge nat nat
  | Malformed
  | Rejected admission_error
  | DuplicateSequence u64
  | RegressedSequence u64 u64
  | TransportError string

type_synonym 'a stream_result = "stream_error + 'a"

section \<open>Sequence numbers\<close>

record stream_sender =
  ss_next_sequence :: u64

definition sender_new :: stream_sender where
  "sender_new = \<lparr> ss_next_sequence = 0 \<rparr>"

definition stamp :: "stream_sender \<Rightarrow> latent_frame \<Rightarrow> stream_sender \<times> latent_frame \<times> u64" where
  "stamp s f =
     (let n = ss_next_sequence s in
      (s\<lparr> ss_next_sequence := (if n = - 1 then n else n + 1) \<rparr>, f\<lparr> lf_sequence := n \<rparr>, n))"

datatype sequence_event = InOrder | Gap u64

record sequence_tracker =
  st_next_expected :: "u64 option"

definition tracker_new :: sequence_tracker where
  "tracker_new = \<lparr> st_next_expected = None \<rparr>"

definition watermark :: "sequence_tracker \<Rightarrow> u64 option" where
  "watermark t = map_option (\<lambda>n. n - 1) (st_next_expected t)"

text \<open>\<open>u64::MAX\<close> is \<open>- 1\<close>.\<close>

definition observe_sequence :: "sequence_tracker \<Rightarrow> u64 \<Rightarrow> sequence_tracker \<times> sequence_event stream_result" where
  "observe_sequence t n =
     (if n = - 1 then (t, Inl Malformed)
      else case st_next_expected t of
        None \<Rightarrow> (t\<lparr> st_next_expected := Some (n + 1) \<rparr>, Inr InOrder)
      | Some expected \<Rightarrow>
          if n + 1 = expected then (t, Inl (DuplicateSequence n))
          else if n < expected then (t, Inl (RegressedSequence n (expected - 1)))
          else (t\<lparr> st_next_expected := Some (n + 1) \<rparr>,
                Inr (if n - expected = 0 then InOrder else Gap (n - expected))))"

section \<open>Escalation\<close>

record escalation_config =
  ec_ema_alpha :: f32
  ec_context_inject :: f32
  ec_latent_prefix :: f32
  ec_action_influencing :: f32
  ec_min_frames_per_rung :: u32

definition escalation_default :: escalation_config where
  "escalation_default = \<lparr> ec_ema_alpha = f32_of (3 / 10), ec_context_inject = f32_of (5 / 10),
     ec_latent_prefix = f32_of (75 / 100), ec_action_influencing = f32_of (9 / 10), ec_min_frames_per_rung = 3 \<rparr>"

fun threshold_for :: "escalation_config \<Rightarrow> authority \<Rightarrow> f32" where
  "threshold_for c ObserveOnly = f_zero"
| "threshold_for c ContextInject = ec_context_inject c"
| "threshold_for c LatentPrefix = ec_latent_prefix c"
| "threshold_for c ActionInfluencing = ec_action_influencing c"

fun next_rung :: "authority \<Rightarrow> authority option" where
  "next_rung ObserveOnly = Some ContextInject"
| "next_rung ContextInject = Some LatentPrefix"
| "next_rung LatentPrefix = Some ActionInfluencing"
| "next_rung ActionInfluencing = None"

fun previous_rung :: "authority \<Rightarrow> authority option" where
  "previous_rung ObserveOnly = None"
| "previous_rung ContextInject = Some ObserveOnly"
| "previous_rung LatentPrefix = Some ContextInject"
| "previous_rung ActionInfluencing = Some LatentPrefix"

record authority_escalator =
  es_config :: escalation_config
  es_current :: authority
  es_ema :: f32
  es_frames_at_rung :: u32
  es_seen_any :: bool

definition escalator_new :: "escalation_config \<Rightarrow> authority_escalator" where
  "escalator_new c = \<lparr> es_config = c, es_current = ObserveOnly, es_ema = f_zero, es_frames_at_rung = 0, es_seen_any = False \<rparr>"

definition escalator_reset :: "authority_escalator \<Rightarrow> authority_escalator" where
  "escalator_reset e = e\<lparr> es_current := ObserveOnly, es_ema := f_zero, es_frames_at_rung := 0, es_seen_any := False \<rparr>"

lemma previous_rung_rank: "previous_rung a = Some b \<Longrightarrow> rank a = Suc (rank b)"
  by (cases a) auto

lemma next_rung_rank: "next_rung a = Some b \<Longrightarrow> rank b = Suc (rank a)"
  by (cases a) auto

text \<open>The loop that drops rungs until the average supports the level.\<close>

function descend :: "authority_escalator \<Rightarrow> authority_escalator" where
  "descend e =
     (if fp_lt (es_ema e) (threshold_for (es_config e) (es_current e))
      then (case previous_rung (es_current e) of
              Some lower \<Rightarrow> descend (e\<lparr> es_current := lower, es_frames_at_rung := 0 \<rparr>)
            | None \<Rightarrow> e)
      else e)"
  by pat_completeness auto
termination by (relation "measure (rank \<circ> es_current)") (auto dest: previous_rung_rank)

declare descend.simps [simp del]

definition climb :: "authority_escalator \<Rightarrow> authority_escalator" where
  "climb e =
     (if es_frames_at_rung e \<ge> ec_min_frames_per_rung (es_config e)
      then (case next_rung (es_current e) of
              Some higher \<Rightarrow>
                if fp_le (threshold_for (es_config e) higher) (es_ema e)
                then e\<lparr> es_current := higher, es_frames_at_rung := 0 \<rparr> else e
            | None \<Rightarrow> e)
      else e)"

definition fold_confidence :: "authority_escalator \<Rightarrow> f32 \<Rightarrow> authority_escalator" where
  "fold_confidence e confidence =
     (let c = fp_clamp confidence f_zero f_one; alpha = ec_ema_alpha (es_config e);
          frames = (if es_frames_at_rung e = - 1 then es_frames_at_rung e else es_frames_at_rung e + 1)
      in if es_seen_any e
         then e\<lparr> es_ema := f_add (f_mul alpha c) (f_mul (f_sub f_one alpha) (es_ema e)), es_frames_at_rung := frames \<rparr>
         else e\<lparr> es_ema := c, es_seen_any := True, es_frames_at_rung := frames \<rparr>)"

definition observe_authority :: "authority_escalator \<Rightarrow> authority \<Rightarrow> f32 \<Rightarrow> authority_escalator \<times> authority" where
  "observe_authority e declared confidence =
     (let e' = climb (descend (fold_confidence e confidence)) in (e', min (es_current e') declared))"

section \<open>The receiver\<close>

record admitted_frame =
  af_frame :: latent_frame
  af_effective_authority :: authority
  af_sequence_event :: sequence_event

record stream_receiver =
  sr_policy :: gate_policy
  sr_tracker :: sequence_tracker
  sr_escalator :: authority_escalator

definition stream_receiver_new :: "gate_policy \<Rightarrow> escalation_config \<Rightarrow> stream_receiver" where
  "stream_receiver_new p c = \<lparr> sr_policy = p, sr_tracker = tracker_new, sr_escalator = escalator_new c \<rparr>"

definition earned_authority :: "stream_receiver \<Rightarrow> authority" where
  "earned_authority r = es_current (sr_escalator r)"

definition stream_ingest :: "stream_receiver \<Rightarrow> latent_frame \<Rightarrow> stream_receiver \<times> admitted_frame stream_result" where
  "stream_ingest r f =
     (case gate_admit f (sr_policy r) of
        Inl e \<Rightarrow> (r, Inl (Rejected e))
      | Inr _ \<Rightarrow>
          (case observe_sequence (sr_tracker r) (lf_sequence f) of
             (t, Inl e) \<Rightarrow> (r\<lparr> sr_tracker := t \<rparr>, Inl e)
           | (t, Inr event) \<Rightarrow>
               let e = (case event of Gap _ \<Rightarrow> escalator_reset (sr_escalator r) | InOrder \<Rightarrow> sr_escalator r);
                   (e', authority) = observe_authority e (lf_authority f) (lf_confidence f)
               in (r\<lparr> sr_tracker := t, sr_escalator := e' \<rparr>,
                   Inr \<lparr> af_frame = f, af_effective_authority = authority, af_sequence_event = event \<rparr>)))"

section \<open>Order\<close>

text \<open>What a stream may report: every accepted number is above the one before it, and the event says
  how many were skipped.\<close>

fun reported :: "u64 option \<Rightarrow> (u64 \<times> sequence_event) list \<Rightarrow> bool" where
  "reported w [] \<longleftrightarrow> True"
| "reported None ((n, event) # rest) \<longleftrightarrow> event = InOrder \<and> reported (Some n) rest"
| "reported (Some w) ((n, event) # rest) \<longleftrightarrow>
     w < n \<and> event = (if n = w + 1 then InOrder else Gap (n - w - 1)) \<and> reported (Some n) rest"

definition tracker_ok :: "sequence_tracker \<Rightarrow> bool" where
  "tracker_ok t \<longleftrightarrow> (\<forall>n. st_next_expected t = Some n \<longrightarrow> n \<noteq> 0)"

lemma successor_nonzero: "(n :: u64) \<noteq> - 1 \<Longrightarrow> n + 1 \<noteq> 0"
  by (metis add.commute add_eq_0_iff)

lemma pred_lt: "(e :: u64) \<noteq> 0 \<Longrightarrow> e \<le> n \<Longrightarrow> e - 1 < n"
  by uint_arith

lemma observe_cases:
  assumes "observe_sequence t n = (t', out)" and "tracker_ok t"
  obtains (refused) e where "out = Inl e" and "t' = t"
  | (first) "watermark t = None" and "out = Inr InOrder" and "watermark t' = Some n" and "tracker_ok t'"
  | (forward) w where "watermark t = Some w" and "w < n" and "watermark t' = Some n" and "tracker_ok t'"
      and "out = Inr (if n = w + 1 then InOrder else Gap (n - w - 1))"
proof (cases "n = - 1")
  case True
  then show thesis using assms(1) refused[of Malformed] by (auto simp: observe_sequence_def)
next
  case False
  note nz = successor_nonzero[OF False]
  show thesis
  proof (cases "st_next_expected t")
    case None
    then have "t' = t\<lparr> st_next_expected := Some (n + 1) \<rparr>" "out = Inr InOrder"
      using assms(1) False by (auto simp: observe_sequence_def)
    then show thesis using None nz by (intro first) (simp_all add: watermark_def tracker_ok_def)
  next
    case (Some expected)
    have e0: "expected \<noteq> 0" using assms(2) Some by (simp add: tracker_ok_def)
    show thesis
    proof (cases "n + 1 = expected \<or> n < expected")
      case True
      then obtain e where "out = Inl e" "t' = t"
        using assms(1) False Some by (auto simp: observe_sequence_def split: if_splits)
      then show thesis by (rule refused)
    next
      case no: False
      then have lt: "expected - 1 < n" using e0 by (intro pred_lt) (auto simp: not_less)
      have t': "t' = t\<lparr> st_next_expected := Some (n + 1) \<rparr>" and out: "out = Inr (if n = expected then InOrder else Gap (n - expected))"
        using assms(1) False Some no by (auto simp: observe_sequence_def)
      have "expected - 1 + 1 = expected" "n - (expected - 1) - 1 = n - expected" by (simp_all add: algebra_simps)
      then have "out = Inr (if n = expected - 1 + 1 then InOrder else Gap (n - (expected - 1) - 1))"
        unfolding out by (simp only:)
      then show thesis using lt Some nz t' by (intro forward[of "expected - 1"]) (simp_all add: watermark_def tracker_ok_def)
    qed
  qed
qed

text \<open>The numbers a run accepts, with their events.\<close>

fun accepted_events :: "u64 list \<Rightarrow> sequence_event stream_result list \<Rightarrow> (u64 \<times> sequence_event) list" where
  "accepted_events (n # ns) (Inr event # outs) = (n, event) # accepted_events ns outs"
| "accepted_events (n # ns) (Inl e # outs) = accepted_events ns outs"
| "accepted_events _ _ = []"

lemma tracker_run:
  assumes "tracker_ok t"
  shows "reported (watermark t) (accepted_events ns (snd (run_machine observe_sequence t ns)))"
  using assms
proof (induction ns arbitrary: t)
  case (Cons n ns)
  obtain t' out where o: "observe_sequence t n = (t', out)" by fastforce
  show ?case using o Cons.prems
  proof (cases rule: observe_cases)
    case (refused e)
    then show ?thesis using Cons o by (simp add: run_Cons_proj del: run_machine.simps)
  next
    case first
    then show ?thesis using Cons.IH[of t'] o by (simp add: run_Cons_proj del: run_machine.simps)
  next
    case (forward w)
    then show ?thesis using Cons.IH[of t'] o by (simp add: run_Cons_proj del: run_machine.simps)
  qed
qed simp

section \<open>The climb\<close>

text \<open>The rate limit: the rungs climbed, times the frames per rung, plus the frames at the current rung,
  never exceed the frames observed.\<close>

definition climb_budget :: "authority_escalator \<Rightarrow> nat" where
  "climb_budget e = rank (es_current e) * unat (ec_min_frames_per_rung (es_config e)) + unat (es_frames_at_rung e)"

lemma descend_facts:
  "es_config (descend e) = es_config e \<and> es_ema (descend e) = es_ema e \<and> rank (es_current (descend e)) \<le> rank (es_current e) \<and>
   climb_budget (descend e) \<le> climb_budget e"
proof (induction e rule: descend.induct)
  case (1 e)
  show ?case
  proof (cases "fp_lt (es_ema e) (threshold_for (es_config e) (es_current e)) \<and> previous_rung (es_current e) \<noteq> None")
    case True
    then obtain lower where l: "previous_rung (es_current e) = Some lower" by blast
    have "descend e = descend (e\<lparr> es_current := lower, es_frames_at_rung := 0 \<rparr>)"
      using True l by (subst descend.simps) simp
    then show ?thesis
      using 1[OF conjunct1[OF True] l] previous_rung_rank[OF l] by (auto simp: climb_budget_def intro: order_trans)
  next
    case False
    then have "descend e = e" by (subst descend.simps) (auto split: option.split)
    then show ?thesis by simp
  qed
qed

lemma climb_facts:
  "es_config (climb e) = es_config e \<and> es_ema (climb e) = es_ema e \<and>
   rank (es_current (climb e)) \<le> rank (es_current e) + 1 \<and> rank (es_current e) \<le> rank (es_current (climb e)) \<and>
   climb_budget (climb e) \<le> climb_budget e"
  by (auto simp: climb_def climb_budget_def word_le_nat_alt split: option.split dest!: next_rung_rank)

lemma u32_succ: "(w :: u32) \<noteq> - 1 \<Longrightarrow> unat (w + 1) = unat w + 1"
proof -
  assume "w \<noteq> - 1"
  then have "1 + w \<noteq> 0" by (metis add_eq_0_iff)
  then show ?thesis using unatSuc[of w] by (simp add: add.commute)
qed

lemma fold_facts:
  "es_config (fold_confidence e c) = es_config e \<and> es_current (fold_confidence e c) = es_current e \<and>
   climb_budget (fold_confidence e c) \<le> climb_budget e + 1"
  by (auto simp: fold_confidence_def Let_def climb_budget_def u32_succ)

lemma observe_authority_facts:
  assumes "observe_authority e declared c = (e', effective)"
  shows "effective \<le> declared" and "effective \<le> es_current e'" and "rank (es_current e') \<le> rank (es_current e) + 1"
    and "climb_budget e' \<le> climb_budget e + 1" and "es_config e' = es_config e"
proof -
  have e': "e' = climb (descend (fold_confidence e c))" and eff: "effective = min (es_current e') declared"
    using assms by (auto simp: observe_authority_def Let_def)
  show "effective \<le> declared" "effective \<le> es_current e'" by (simp_all add: eff)
  show "rank (es_current e') \<le> rank (es_current e) + 1" "climb_budget e' \<le> climb_budget e + 1" "es_config e' = es_config e"
    using fold_facts[of e c] descend_facts[of "fold_confidence e c"] climb_facts[of "descend (fold_confidence e c)"]
    by (auto simp: e')
qed

definition escalator_step :: "authority_escalator \<Rightarrow> authority \<times> f32 \<Rightarrow> authority_escalator \<times> authority" where
  "escalator_step e i = observe_authority e (fst i) (snd i)"

lemma escalator_run:
  "climb_budget (fst (run_machine escalator_step e inputs)) \<le> climb_budget e + length inputs \<and>
   es_config (fst (run_machine escalator_step e inputs)) = es_config e"
proof (induction inputs arbitrary: e)
  case (Cons i inputs)
  obtain e' eff where s: "escalator_step e i = (e', eff)" by fastforce
  have "climb_budget e' \<le> climb_budget e + 1" "es_config e' = es_config e"
    using observe_authority_facts[of e "fst i" "snd i" e' eff] s by (simp_all add: escalator_step_def)
  then show ?case using Cons[of e'] s by (auto simp: case_prod_beta Let_def)
qed simp

section \<open>A NaN in the average\<close>

lemma nan_mul: "fp_mul F NaN x = NaN" "fp_mul F x NaN = NaN"
  by (cases x; simp)+

lemma nan_add: "fp_add F NaN x = NaN" "fp_add F x NaN = NaN"
  by (cases x; simp)+

lemma nan_keeps_rung:
  assumes "es_seen_any e" and "es_ema e = NaN"
  shows "observe_authority e declared c = (fold_confidence e c, min (es_current e) declared) \<and>
    es_ema (fold_confidence e c) = NaN \<and> es_seen_any (fold_confidence e c) \<and> es_current (fold_confidence e c) = es_current e"
proof -
  let ?f = "fold_confidence e c"
  have f: "es_ema ?f = NaN" "es_seen_any ?f" "es_current ?f = es_current e"
    using assms by (simp_all add: fold_confidence_def Let_def nan_mul nan_add)
  have "descend ?f = ?f" using f by (subst descend.simps) simp
  moreover have "\<not> fp_le x NaN" for x by (cases x) simp_all
  then have "climb ?f = ?f" using f by (auto simp: climb_def split: option.split)
  ultimately show ?thesis using f by (simp add: observe_authority_def Let_def)
qed

lemma nan_run:
  assumes "es_seen_any e" and "es_ema e = NaN"
  shows "es_current (fst (run_machine escalator_step e inputs)) = es_current e"
  using assms
proof (induction inputs arbitrary: e)
  case (Cons i inputs)
  have "escalator_step e i = (fold_confidence e (snd i), min (es_current e) (fst i))"
    using nan_keeps_rung[OF Cons.prems] by (simp add: escalator_step_def)
  then show ?case
    using Cons.IH[of "fold_confidence e (snd i)"] nan_keeps_rung[OF Cons.prems, of "fst i" "snd i"]
    by (simp add: case_prod_beta Let_def)
qed simp

lemma nan_observation:
  assumes "es_seen_any e"
  shows "es_current (fst (observe_authority e declared NaN)) = es_current e \<and>
    es_ema (fst (observe_authority e declared NaN)) = NaN \<and> es_seen_any (fst (observe_authority e declared NaN))"
proof -
  let ?f = "fold_confidence e NaN"
  have f: "es_ema ?f = NaN" "es_seen_any ?f" "es_current ?f = es_current e"
    using assms by (simp_all add: fold_confidence_def Let_def fp_clamp_def nan_mul nan_add)
  have "descend ?f = ?f" using f by (subst descend.simps) simp
  moreover have "\<not> fp_le x NaN" for x by (cases x) simp_all
  then have "climb ?f = ?f" using f by (auto simp: climb_def split: option.split)
  ultimately show ?thesis using f by (simp add: observe_authority_def Let_def)
qed

section \<open>One ingested frame\<close>

lemma ingest_accepts:
  assumes "stream_ingest r f = (r', Inr a)"
  obtains t event e e' where "gate_admit f (sr_policy r) = Inr ()"
    and "observe_sequence (sr_tracker r) (lf_sequence f) = (t, Inr event)"
    and "e = (case event of Gap _ \<Rightarrow> escalator_reset (sr_escalator r) | InOrder \<Rightarrow> sr_escalator r)"
    and "observe_authority e (lf_authority f) (lf_confidence f) = (e', af_effective_authority a)"
    and "r' = r\<lparr> sr_tracker := t, sr_escalator := e' \<rparr>" and "af_frame a = f" and "af_sequence_event a = event"
  using assms unfolding stream_ingest_def Let_def
  by (auto split: sum.splits prod.splits)

lemma observe_error: "observe_sequence t n = (t', Inl e) \<Longrightarrow> t' = t"
  by (auto simp: observe_sequence_def split: if_splits option.splits)

lemma stream_ingest_refuses: "stream_ingest r f = (r', Inl e) \<Longrightarrow> r' = r"
  unfolding stream_ingest_def Let_def by (auto split: sum.splits prod.splits dest: observe_error)

lemma reset_facts: "climb_budget (escalator_reset e) = 0 \<and> es_config (escalator_reset e) = es_config e \<and>
    es_current (escalator_reset e) = ObserveOnly"
  by (simp add: escalator_reset_def climb_budget_def)

lemma ingest_facts:
  assumes "stream_ingest r f = (r', Inr a)"
  shows "lf_authority f \<le> edge_ceiling (sr_policy r) (lf_sender_model f) (lf_receiver_space f)"
    and "af_effective_authority a \<le> lf_authority f" and "af_effective_authority a \<le> earned_authority r'"
    and "rank (earned_authority r') \<le> rank (earned_authority r) + 1"
    and "af_sequence_event a \<noteq> InOrder \<Longrightarrow> earned_authority r' \<le> ContextInject"
    and "climb_budget (sr_escalator r') \<le> climb_budget (sr_escalator r) + 1"
    and "es_config (sr_escalator r') = es_config (sr_escalator r)" and "sr_policy r' = sr_policy r" and "af_frame a = f"
proof -
  obtain t event e e' where parts: "gate_admit f (sr_policy r) = Inr ()"
    "e = (case event of Gap _ \<Rightarrow> escalator_reset (sr_escalator r) | InOrder \<Rightarrow> sr_escalator r)"
    "observe_authority e (lf_authority f) (lf_confidence f) = (e', af_effective_authority a)"
    "r' = r\<lparr> sr_tracker := t, sr_escalator := e' \<rparr>" "af_frame a = f" "af_sequence_event a = event"
    by (rule ingest_accepts[OF assms]) blast
  have e: "climb_budget e \<le> climb_budget (sr_escalator r)" "es_config e = es_config (sr_escalator r)"
    "rank (es_current e) \<le> rank (es_current (sr_escalator r))" "event \<noteq> InOrder \<Longrightarrow> es_current e = ObserveOnly"
    using reset_facts[of "sr_escalator r"] by (auto simp: parts(2) split: sequence_event.split)
  note o = observe_authority_facts[OF parts(3)]
  show "lf_authority f \<le> edge_ceiling (sr_policy r) (lf_sender_model f) (lf_receiver_space f)"
    using parts(1) by (auto simp: gate_admit_def Let_def not_less split: if_splits)
  show "af_sequence_event a \<noteq> InOrder \<Longrightarrow> earned_authority r' \<le> ContextInject"
    using o(3) e(4) parts(4,6) by (auto simp: earned_authority_def less_eq_authority_def)
  show "af_effective_authority a \<le> lf_authority f" "af_effective_authority a \<le> earned_authority r'"
    "rank (earned_authority r') \<le> rank (earned_authority r) + 1"
    "climb_budget (sr_escalator r') \<le> climb_budget (sr_escalator r) + 1"
    "es_config (sr_escalator r') = es_config (sr_escalator r)" "sr_policy r' = sr_policy r" "af_frame a = f"
    using o e parts by (auto simp: earned_authority_def)
qed

text \<open>The frames a run admits, with what sequencing said of them.\<close>

fun admitted :: "admitted_frame stream_result list \<Rightarrow> (u64 \<times> sequence_event) list" where
  "admitted [] = []"
| "admitted (Inr a # outs) = (lf_sequence (af_frame a), af_sequence_event a) # admitted outs"
| "admitted (Inl e # outs) = admitted outs"

lemma admitted_reported:
  assumes "tracker_ok (sr_tracker r)"
  shows "reported (watermark (sr_tracker r)) (admitted (snd (run_machine stream_ingest r frames)))"
  using assms
proof (induction frames arbitrary: r)
  case (Cons f frames)
  obtain r' out where i: "stream_ingest r f = (r', out)" by fastforce
  show ?case
  proof (cases out)
    case (Inl e)
    then have "r' = r" using i stream_ingest_refuses by blast
    then show ?thesis using Cons i Inl by (simp add: run_Cons_proj del: run_machine.simps)
  next
    case (Inr a)
    obtain t event e' where parts: "observe_sequence (sr_tracker r) (lf_sequence f) = (t, Inr event)"
      "r' = r\<lparr> sr_tracker := t, sr_escalator := e' \<rparr>" "af_frame a = f" "af_sequence_event a = event"
      by (rule ingest_accepts[OF i[unfolded Inr]]) blast
    from parts(1) Cons.prems show ?thesis
    proof (cases rule: observe_cases)
      case first
      then show ?thesis using Cons.IH[of r'] i Inr parts by (simp add: run_Cons_proj del: run_machine.simps)
    next
      case (forward w)
      then show ?thesis using Cons.IH[of r'] i Inr parts by (simp add: run_Cons_proj del: run_machine.simps)
    qed simp
  qed
qed simp

lemma receiver_budget:
  "climb_budget (sr_escalator (fst (run_machine stream_ingest r frames))) \<le>
     climb_budget (sr_escalator r) + length (admitted (snd (run_machine stream_ingest r frames))) \<and>
   es_config (sr_escalator (fst (run_machine stream_ingest r frames))) = es_config (sr_escalator r)"
proof (induction frames arbitrary: r)
  case (Cons f frames)
  obtain r' out where i: "stream_ingest r f = (r', out)" by fastforce
  show ?case
  proof (cases out)
    case (Inl e)
    then have "r' = r" using i stream_ingest_refuses by blast
    then show ?thesis using Cons[of r] i Inl by (simp add: case_prod_beta Let_def)
  next
    case (Inr a)
    then show ?thesis using Cons[of r'] i ingest_facts(6,7)[OF i[unfolded Inr]] by (simp add: case_prod_beta Let_def)
  qed
qed simp

section \<open>Properties\<close>

text \<open>C16. A stream is consumed in order: whatever frames reach a fresh receiver, the admitted ones have
  strictly increasing sequence numbers, and each event tells exactly how many numbers were skipped.\<close>

theorem stream_in_order:
  "reported None (admitted (snd (run_machine stream_ingest (stream_receiver_new policy config) frames)))"
  using admitted_reported[of "stream_receiver_new policy config" frames]
  by (simp add: stream_receiver_new_def tracker_new_def tracker_ok_def watermark_def)

text \<open>The authority a consumer may use is below what the frame declares, below the ceiling of its
  edge and below what the stream has earned; a frame raises the earned authority by at most one rung, a
  gap leaves at most one rung, and a refused frame changes nothing.\<close>

theorem effective_authority_bounded:
  assumes "stream_ingest r f = (r', out)"
  shows "case out of
      Inl e \<Rightarrow> r' = r
    | Inr a \<Rightarrow> af_effective_authority a \<le> lf_authority f \<and>
        lf_authority f \<le> edge_ceiling (sr_policy r) (lf_sender_model f) (lf_receiver_space f) \<and>
        af_effective_authority a \<le> earned_authority r' \<and>
        rank (earned_authority r') \<le> rank (earned_authority r) + 1 \<and>
        (af_sequence_event a = InOrder \<or> earned_authority r' \<le> ContextInject)"
proof (cases out)
  case (Inl e)
  then show ?thesis using assms stream_ingest_refuses by simp
next
  case (Inr a)
  then show ?thesis using ingest_facts[OF assms[unfolded Inr]] by auto
qed

text \<open>Authority takes time: the rungs a receiver has climbed, times the frames required per rung,
  never exceed the number of frames it admitted, whatever their confidence and their gaps.\<close>

theorem climb_takes_frames:
  "rank (earned_authority (fst (run_machine stream_ingest (stream_receiver_new policy config) frames)))
     * unat (ec_min_frames_per_rung config)
   \<le> length (admitted (snd (run_machine stream_ingest (stream_receiver_new policy config) frames)))"
proof -
  let ?r = "stream_receiver_new policy config"
  let ?e = "sr_escalator (fst (run_machine stream_ingest ?r frames))"
  have "climb_budget (sr_escalator ?r) = 0" "es_config (sr_escalator ?r) = config"
    by (simp_all add: stream_receiver_new_def escalator_new_def climb_budget_def)
  then have "climb_budget ?e \<le> length (admitted (snd (run_machine stream_ingest ?r frames)))" "es_config ?e = config"
    using receiver_budget[of ?r frames] by simp_all
  then show ?thesis by (simp add: earned_authority_def climb_budget_def)
qed

text \<open>A NaN freezes the ladder: after one observation whose confidence is a NaN, no later frame,
  whatever its confidence, lowers the earned authority again; only a gap does.\<close>

theorem nan_freezes_authority:
  assumes "es_seen_any e"
  shows "es_current (fst (run_machine escalator_step (fst (observe_authority e declared NaN)) inputs)) = es_current e"
  using nan_observation[OF assms] nan_run by simp

definition demo_escalator :: authority_escalator where
  "demo_escalator = (escalator_new escalation_default)\<lparr> es_current := ActionInfluencing, es_seen_any := True \<rparr>"

theorem nan_freezes_authority_witness:
  "es_current (fst (run_machine escalator_step (fst (observe_authority demo_escalator ActionInfluencing NaN))
     (replicate 100 (ObserveOnly, f_zero)))) = ActionInfluencing"
  using nan_freezes_authority[of demo_escalator ActionInfluencing] by (simp add: demo_escalator_def)

theorem effective_authority_bounded_witness:
  "\<exists>r' a. stream_ingest (stream_receiver_new (built_policy (Fin False (7 / 8)) demo_ops) escalation_default)
      (demo_latent 4 ActionInfluencing) = (r', Inr a) \<and> af_effective_authority a \<le> earned_authority r'"
proof -
  let ?r = "stream_receiver_new (built_policy (Fin False (7 / 8)) demo_ops) escalation_default"
  obtain r' a where "stream_ingest ?r (demo_latent 4 ActionInfluencing) = (r', Inr a)"
    using demo_admitted[of 4]
    by (simp add: stream_ingest_def stream_receiver_new_def observe_sequence_def tracker_new_def demo_latent_def case_prod_beta Let_def)
  with effective_authority_bounded[OF this] show ?thesis by auto
qed

end
