(* ===== verification/Latent_Codec.thy ===== *)
theory Latent_Codec
  imports Latent_Stream
begin

text \<open>
  \<open>latentmesh-stream/src\<close>: \<open>codec.rs\<close>, \<open>transport.rs\<close> and \<open>quic.rs\<close>. Frames travel as a length prefix and
  the JSON of \<open>serde_json\<close>, which is a parameter; a decoder reassembles them from chunks of any size. The
  channel of \<open>std::sync::mpsc\<close> is the queue of the messages in flight; a byte stream is the list of
  the results its reads will give.
\<close>

definition MAX_FRAME_BYTES :: nat where "MAX_FRAME_BYTES = 1048576"
definition MAX_BUFFERED_BYTES :: nat where "MAX_BUFFERED_BYTES = 2 * (MAX_FRAME_BYTES + 4)"

section \<open>Encoding and decoding\<close>

text \<open>\<open>usize::checked_mul\<close> fails at 2 to the 64.\<close>

definition validate_payload_shape :: "latent_frame \<Rightarrow> unit stream_result" where
  "validate_payload_shape f =
     (let p = lf_payload f; expected = pl_dim p * bytes_per_element (pl_encoding p) in
      if expected \<ge> 2 ^ 64 then Inl Malformed
      else if length (pl_bytes p) \<noteq> expected then Inl Malformed
      else case (pl_encoding p, pl_int8_params p) of
        (Int8, None) \<Rightarrow> Inl Malformed
      | (Int8, Some (scale, _)) \<Rightarrow> if fp_is_finite scale then Inr () else Inl Malformed
      | (F32, Some _) \<Rightarrow> Inl Malformed
      | (F16, Some _) \<Rightarrow> Inl Malformed
      | _ \<Rightarrow> Inr ())"

definition encode_frame :: "frame_json \<Rightarrow> latent_frame \<Rightarrow> bytes stream_result" where
  "encode_frame J f =
     rbind (validate_payload_shape f) (\<lambda>_.
       case to_vec J f of
         None \<Rightarrow> Inl Malformed
       | Some body \<Rightarrow>
           if length body > MAX_FRAME_BYTES then Inl (FrameTooLarge (length body) MAX_FRAME_BYTES)
           else Inr (to_be_bytes (word_of_nat (length body) :: u32) @ body))"

definition decode_frame :: "frame_json \<Rightarrow> bytes \<Rightarrow> (latent_frame \<times> nat) option stream_result" where
  "decode_frame J input =
     (if length input < 4 then Inr None
      else let declared = unat (from_be_bytes (take 4 input) :: u32) in
        if declared > MAX_FRAME_BYTES then Inl (FrameTooLarge declared MAX_FRAME_BYTES)
        else if length input < 4 + declared then Inr None
        else case from_slice J (slice 4 (4 + declared) input) of
          None \<Rightarrow> Inl Malformed
        | Some f \<Rightarrow> rbind (validate_payload_shape f) (\<lambda>_. Inr (Some (f, 4 + declared))))"

section \<open>The incremental decoder\<close>

record byte_decoder =
  bd_buffer :: bytes

definition decoder_new :: byte_decoder where
  "decoder_new = \<lparr> bd_buffer = [] \<rparr>"

definition decoder_push :: "byte_decoder \<Rightarrow> bytes \<Rightarrow> byte_decoder \<times> unit stream_result" where
  "decoder_push d chunk =
     (if length (bd_buffer d) + length chunk > MAX_BUFFERED_BYTES
      then (d\<lparr> bd_buffer := [] \<rparr>, Inl (TransportError ''decoder buffer bound exceeded (caller must drain frames)''))
      else let buffer = bd_buffer d @ chunk; declared = unat (from_be_bytes (take 4 buffer) :: u32) in
        if length buffer \<ge> 4 \<and> declared > MAX_FRAME_BYTES
        then (d\<lparr> bd_buffer := [] \<rparr>, Inl (FrameTooLarge declared MAX_FRAME_BYTES))
        else (d\<lparr> bd_buffer := buffer \<rparr>, Inr ()))"

definition decoder_next :: "frame_json \<Rightarrow> byte_decoder \<Rightarrow> byte_decoder \<times> latent_frame option stream_result" where
  "decoder_next J d =
     (case decode_frame J (bd_buffer d) of
        Inl e \<Rightarrow> (d, Inl e)
      | Inr None \<Rightarrow> (d, Inr None)
      | Inr (Some (f, consumed)) \<Rightarrow> (d\<lparr> bd_buffer := drop consumed (bd_buffer d) \<rparr>, Inr (Some f)))"

section \<open>The in-process channel\<close>

text \<open>One direction of a pair: the chunks in flight, whether each end is still there, and the decoder of
  the receiving end.\<close>

record channel =
  ch_queue :: "bytes list"
  ch_sender_alive :: bool
  ch_receiver_alive :: bool
  ch_decoder :: byte_decoder

definition channel_new :: channel where
  "channel_new = \<lparr> ch_queue = [], ch_sender_alive = True, ch_receiver_alive = True, ch_decoder = decoder_new \<rparr>"

definition send_frame :: "frame_json \<Rightarrow> channel \<Rightarrow> latent_frame \<Rightarrow> channel \<times> unit stream_result" where
  "send_frame J c f =
     (case encode_frame J f of
        Inl e \<Rightarrow> (c, Inl e)
      | Inr bs \<Rightarrow>
          if ch_receiver_alive c then (c\<lparr> ch_queue := ch_queue c @ [bs] \<rparr>, Inr ())
          else (c, Inl (TransportError ''channel closed'')))"

text \<open>The loop of \<open>try_recv_frame\<close>; every turn takes a chunk off the queue.\<close>

fun recv_loop ::
  "frame_json \<Rightarrow> byte_decoder \<Rightarrow> bool \<Rightarrow> bytes list \<Rightarrow> byte_decoder \<times> bytes list \<times> latent_frame option stream_result" where
  "recv_loop J d alive queue =
     (case decoder_next J d of
        (d', Inl e) \<Rightarrow> (d', queue, Inl e)
      | (d', Inr (Some f)) \<Rightarrow> (d', queue, Inr (Some f))
      | (d', Inr None) \<Rightarrow>
          (case queue of
             [] \<Rightarrow>
               (d', [], if \<not> alive \<and> bd_buffer d' \<noteq> [] then Inl (TransportError ''peer closed mid-frame'') else Inr None)
           | chunk # rest \<Rightarrow>
               (case decoder_push d' chunk of
                  (d'', Inl e) \<Rightarrow> (d'', rest, Inl e)
                | (d'', Inr _) \<Rightarrow> recv_loop J d'' alive rest)))"

declare recv_loop.simps [simp del]

definition try_recv_frame :: "frame_json \<Rightarrow> channel \<Rightarrow> channel \<times> latent_frame option stream_result" where
  "try_recv_frame J c =
     (let (d, queue, out) = recv_loop J (ch_decoder c) (ch_sender_alive c) (ch_queue c)
      in (c\<lparr> ch_decoder := d, ch_queue := queue \<rparr>, out))"

section \<open>A byte stream\<close>

text \<open>\<open>recv_frame\<close> over the results of the reads to come: an error, or the bytes read, none at the end of
  the stream. A list that runs out stands for a read that has not returned yet, \<open>None\<close>.\<close>

fun recv_frame ::
  "frame_json \<Rightarrow> byte_decoder \<Rightarrow> bytes stream_result list \<Rightarrow>
   (byte_decoder \<times> bytes stream_result list \<times> latent_frame option stream_result) option" where
  "recv_frame J d reads =
     (case decoder_next J d of
        (d', Inl e) \<Rightarrow> Some (d', reads, Inl e)
      | (d', Inr (Some f)) \<Rightarrow> Some (d', reads, Inr (Some f))
      | (d', Inr None) \<Rightarrow>
          (case reads of
             [] \<Rightarrow> None
           | Inl e # rest \<Rightarrow> Some (d', rest, Inl e)
           | Inr chunk # rest \<Rightarrow>
               if chunk = [] then
                 Some (d', rest, if bd_buffer d' \<noteq> [] then Inl (TransportError ''peer closed mid-frame'') else Inr None)
               else (case decoder_push d' chunk of
                  (d'', Inl e) \<Rightarrow> Some (d'', rest, Inl e)
                | (d'', Inr _) \<Rightarrow> recv_frame J d'' rest)))"

declare recv_frame.simps [simp del]

section \<open>Frames that the JSON encoder carries\<close>

text \<open>The documented behaviour of \<open>serde_json\<close> for a frame: it encodes, and decodes to itself.\<close>

definition json_carries :: "frame_json \<Rightarrow> latent_frame \<Rightarrow> bool" where
  "json_carries J f \<longleftrightarrow> (\<exists>body. to_vec J f = Some body \<and> from_slice J body = Some f)"

lemma encode_frame_Inr:
  assumes "encode_frame J f = Inr bs" and "json_carries J f"
  obtains body where "bs = to_be_bytes (word_of_nat (length body) :: u32) @ body" and "length body \<le> MAX_FRAME_BYTES"
    and "from_slice J body = Some f" and "validate_payload_shape f = Inr ()"
    and "unat (word_of_nat (length body) :: u32) = length body"
proof -
  obtain body where b: "to_vec J f = Some body" "from_slice J body = Some f" using assms(2) by (auto simp: json_carries_def)
  then have len: "length body \<le> MAX_FRAME_BYTES" and rest: "bs = to_be_bytes (word_of_nat (length body) :: u32) @ body"
    "validate_payload_shape f = Inr ()"
    using assms(1) by (auto simp: encode_frame_def split: if_splits)
  have "length body < 2 ^ 32" using len by (simp add: MAX_FRAME_BYTES_def)
  then have "unat (word_of_nat (length body) :: u32) = length body" by (simp add: unsigned_of_nat take_bit_nat_eq_self)
  then show thesis using that b rest len by blast
qed

lemma decode_frame_encoded:
  assumes "encode_frame J f = Inr bs" and "json_carries J f"
  shows "decode_frame J (bs @ rest) = Inr (Some (f, length bs))" and "4 \<le> length bs" and "length bs \<le> MAX_FRAME_BYTES + 4"
    and "k < length bs \<Longrightarrow> decode_frame J (take k bs) = Inr None"
    and "unat (from_be_bytes (take 4 bs) :: u32) \<le> MAX_FRAME_BYTES"
proof -
  obtain body where b: "bs = to_be_bytes (word_of_nat (length body) :: u32) @ body" "length body \<le> MAX_FRAME_BYTES"
    "from_slice J body = Some f" "validate_payload_shape f = Inr ()" "unat (word_of_nat (length body) :: u32) = length body"
    by (rule encode_frame_Inr[OF assms])
  have len: "length bs = 4 + length body" by (simp add: b(1))
  have t4: "take 4 (bs @ rest) = to_be_bytes (word_of_nat (length body) :: u32)" by (simp add: b(1))
  have dec: "unat (from_be_bytes (take 4 (bs @ rest)) :: u32) = length body" unfolding t4 by (simp add: b(5) from_to_be_bytes)
  have sl: "slice 4 (4 + length body) (bs @ rest) = body" by (simp add: b(1) slice_def)
  show "decode_frame J (bs @ rest) = Inr (Some (f, length bs))"
    using b(2,3,4) len unfolding decode_frame_def Let_def dec sl by simp
  show "4 \<le> length bs" "length bs \<le> MAX_FRAME_BYTES + 4" using len b(2) by simp_all
  show "unat (from_be_bytes (take 4 bs) :: u32) \<le> MAX_FRAME_BYTES" using b dec by (simp add: from_to_be_bytes)
  assume k: "k < length bs"
  show "decode_frame J (take k bs) = Inr None"
  proof (cases "k < 4")
    case False
    then have "take 4 (take k bs) = to_be_bytes (word_of_nat (length body) :: u32)"
      by (simp add: min_absorb1 b(1))
    then have "unat (from_be_bytes (take 4 (take k bs)) :: u32) = length body" by (simp add: b(5) from_to_be_bytes)
    then show ?thesis using k b(2) len False unfolding decode_frame_def Let_def by simp
  qed (simp add: decode_frame_def min.strict_coboundedI2)
qed

section \<open>Errors of the decoder\<close>

lemma decode_error_persists:
  assumes "decode_frame J buffer = Inl e"
  shows "decode_frame J (buffer @ extra) = Inl e"
proof -
  let ?n = "unat (from_be_bytes (take 4 buffer) :: u32)"
  have len: "4 \<le> length buffer" using assms by (auto simp: decode_frame_def split: if_splits)
  then have t4: "take 4 (buffer @ extra) = take 4 buffer" by simp
  show ?thesis
  proof (cases "?n > MAX_FRAME_BYTES")
    case True
    then show ?thesis using assms len unfolding decode_frame_def t4 Let_def by simp
  next
    case False
    then have whole: "4 + ?n \<le> length buffer"
      using assms len by (auto simp: decode_frame_def Let_def split: if_splits)
    then have "slice 4 (4 + ?n) (buffer @ extra) = slice 4 (4 + ?n) buffer" by (simp add: slice_def)
    then show ?thesis using assms len whole False unfolding decode_frame_def t4 Let_def by simp
  qed
qed

datatype decoder_op = PushChunk bytes | PullFrame

fun decoder_step :: "frame_json \<Rightarrow> byte_decoder \<Rightarrow> decoder_op \<Rightarrow> byte_decoder \<times> latent_frame option stream_result" where
  "decoder_step J d (PushChunk chunk) = (let (d', out) = decoder_push d chunk in (d', rbind out (\<lambda>_. Inr None)))"
| "decoder_step J d PullFrame = decoder_next J d"

definition decoder_bounded :: "byte_decoder \<Rightarrow> bool" where
  "decoder_bounded d \<longleftrightarrow> length (bd_buffer d) \<le> MAX_BUFFERED_BYTES"

lemma decoder_step_bounded: "decoder_bounded d \<Longrightarrow> decoder_bounded (fst (decoder_step J d op))"
  by (cases op)
    (auto simp: decoder_bounded_def decoder_push_def decoder_next_def Let_def case_prod_beta split: sum.split option.split)

interpretation byte_decoder: machine decoder_bounded "decoder_step J" for J
  by unfold_locales (rule decoder_step_bounded)

section \<open>Frames out of a byte stream\<close>

text \<open>One call of \<open>recv_frame\<close>, wherever the reads cut the stream of encoded frames.\<close>

lemma next_whole:
  assumes "encode_frame J f = Inr bs" and "json_carries J f"
  shows "decoder_next J \<lparr> bd_buffer = bs @ rest \<rparr> = (\<lparr> bd_buffer = rest \<rparr>, Inr (Some f))"
  using decode_frame_encoded(1)[OF assms] by (simp add: decoder_next_def)

lemma next_partial:
  assumes "encode_frame J f = Inr bs" and "json_carries J f" and "b @ x = bs @ rest" and "length b < length bs"
  shows "decoder_next J \<lparr> bd_buffer = b \<rparr> = (\<lparr> bd_buffer = b \<rparr>, Inr None)"
proof -
  have "b = take (length b) (b @ x)" by simp
  also have "\<dots> = take (length b) bs" unfolding assms(3) using assms(4) by simp
  finally show ?thesis using decode_frame_encoded(4)[OF assms(1,2,4)] by (simp add: decoder_next_def)
qed

lemma push_partial:
  assumes "encode_frame J f = Inr bs" and "json_carries J f" and "b @ c @ x = bs @ rest" and "length b < length bs"
    and "length c \<le> MAX_FRAME_BYTES + 4"
  shows "decoder_push \<lparr> bd_buffer = b \<rparr> c = (\<lparr> bd_buffer = b @ c \<rparr>, Inr ())"
proof -
  note enc = decode_frame_encoded[OF assms(1,2)]
  have room: "\<not> length b + length c > MAX_BUFFERED_BYTES"
    using assms(4,5) enc(3) by (simp add: MAX_BUFFERED_BYTES_def)
  have "unat (from_be_bytes (take 4 (b @ c)) :: u32) \<le> MAX_FRAME_BYTES" if "4 \<le> length (b @ c)"
  proof -
    have "take 4 (b @ c) = take 4 ((b @ c) @ x)" using that by simp
    also have "\<dots> = take 4 bs" using assms(3) enc(2) by simp
    finally show ?thesis using enc(5) by simp
  qed
  then show ?thesis using room by (auto simp: decoder_push_def Let_def)
qed

lemma recv_one:
  assumes "encode_frame J f = Inr bs" and "json_carries J f" and "b @ concat cs = bs @ rest"
    and "\<And>c. c \<in> set cs \<Longrightarrow> c \<noteq> [] \<and> length c \<le> MAX_FRAME_BYTES + 4"
  shows "\<exists>b' cs'. recv_frame J \<lparr> bd_buffer = b \<rparr> (map Inr cs @ tail) = Some (\<lparr> bd_buffer = b' \<rparr>, map Inr cs' @ tail, Inr (Some f)) \<and>
    b' @ concat cs' = rest \<and> set cs' \<subseteq> set cs"
  using assms(3,4)
proof (induction cs arbitrary: b)
  case Nil
  then have "b = bs @ rest" by simp
  then show ?case using next_whole[OF assms(1,2)] by (intro exI[of _ rest] exI[of _ "[]"]) (simp add: recv_frame.simps)
next
  case (Cons c cs)
  show ?case
  proof (cases "length b < length bs")
    case True
    have n: "decoder_next J \<lparr> bd_buffer = b \<rparr> = (\<lparr> bd_buffer = b \<rparr>, Inr None)"
      by (rule next_partial[OF assms(1,2) Cons.prems(1) True])
    have p: "decoder_push \<lparr> bd_buffer = b \<rparr> c = (\<lparr> bd_buffer = b @ c \<rparr>, Inr ())"
      using Cons.prems by (intro push_partial[OF assms(1,2) _ True, of c "concat cs" rest]) simp_all
    have c: "c \<noteq> []" using Cons.prems(2) by simp
    have "recv_frame J \<lparr> bd_buffer = b \<rparr> (map Inr (c # cs) @ tail) = recv_frame J \<lparr> bd_buffer = b @ c \<rparr> (map Inr cs @ tail)"
      using n p c by (subst recv_frame.simps) simp
    moreover have "(b @ c) @ concat cs = bs @ rest" using Cons.prems(1) by simp
    ultimately show ?thesis using Cons.IH[of "b @ c"] Cons.prems(2) by fastforce
  next
    case False
    then obtain b' where b: "b = bs @ b'" "b' @ concat (c # cs) = rest"
      using Cons.prems(1) by (auto simp: append_eq_append_conv2)
    then have "recv_frame J \<lparr> bd_buffer = b \<rparr> (map Inr (c # cs) @ tail) = Some (\<lparr> bd_buffer = b' \<rparr>, map Inr (c # cs) @ tail, Inr (Some f))"
      using next_whole[OF assms(1,2), of b'] by (subst recv_frame.simps) simp
    then show ?thesis using b(2) by (intro exI[of _ b'] exI[of _ "c # cs"]) simp
  qed
qed

text \<open>Receiving until the stream ends: the frames, in order.\<close>

fun recv_frames ::
  "frame_json \<Rightarrow> nat \<Rightarrow> byte_decoder \<Rightarrow> bytes stream_result list \<Rightarrow> latent_frame option stream_result list" where
  "recv_frames J 0 d reads = []"
| "recv_frames J (Suc n) d reads =
     (case recv_frame J d reads of
        None \<Rightarrow> []
      | Some (d', reads', out) \<Rightarrow> out # recv_frames J n d' reads')"

lemma recv_all:
  assumes "list_all2 (\<lambda>f bs. encode_frame J f = Inr bs \<and> json_carries J f) fs bss" and "b @ concat cs = concat bss"
    and "\<And>c. c \<in> set cs \<Longrightarrow> c \<noteq> [] \<and> length c \<le> MAX_FRAME_BYTES + 4"
  shows "recv_frames J (Suc (length fs)) \<lparr> bd_buffer = b \<rparr> (map Inr cs @ [Inr []]) = map (\<lambda>f. Inr (Some f)) fs @ [Inr None]"
  using assms
proof (induction fs arbitrary: bss b cs)
  case Nil
  then have "b = []" "concat cs = []" by simp_all
  then have "cs = []" using Nil.prems(3) by (cases cs) auto
  then show ?case using \<open>b = []\<close> by (simp add: recv_frame.simps decoder_next_def decode_frame_def)
next
  case (Cons f fs)
  obtain bs bss' where bss: "bss = bs # bss'" and enc: "encode_frame J f = Inr bs" "json_carries J f"
    and rest: "list_all2 (\<lambda>f bs. encode_frame J f = Inr bs \<and> json_carries J f) fs bss'"
    using Cons.prems(1) by (auto simp: list_all2_Cons1)
  obtain b' cs' where step: "recv_frame J \<lparr> bd_buffer = b \<rparr> (map Inr cs @ [Inr []]) =
      Some (\<lparr> bd_buffer = b' \<rparr>, map Inr cs' @ [Inr []], Inr (Some f))"
    and "b' @ concat cs' = concat bss'" "set cs' \<subseteq> set cs"
    using recv_one[OF enc, of b cs "concat bss'" "[Inr []]"] Cons.prems(2,3) bss by auto
  then show ?case using Cons.IH[OF rest, of b' cs'] Cons.prems(3) by auto
qed

section \<open>The channel as a queue\<close>

datatype channel_op = Send latent_frame | Receive

fun channel_step :: "frame_json \<Rightarrow> channel \<Rightarrow> channel_op \<Rightarrow> channel \<times> latent_frame option stream_result" where
  "channel_step J c (Send f) = (let (c', out) = send_frame J c f in (c', rbind out (\<lambda>_. Inr None)))"
| "channel_step J c Receive = try_recv_frame J c"

text \<open>The abstract channel: a queue of frames that refuses what does not encode.\<close>

fun queue_step :: "frame_json \<Rightarrow> latent_frame list \<Rightarrow> channel_op \<Rightarrow> latent_frame list \<times> latent_frame option stream_result" where
  "queue_step J q (Send f) = (case encode_frame J f of Inl e \<Rightarrow> (q, Inl e) | Inr _ \<Rightarrow> (q @ [f], Inr None))"
| "queue_step J [] Receive = ([], Inr None)"
| "queue_step J (f # q) Receive = (q, Inr (Some f))"

definition channel_rel :: "frame_json \<Rightarrow> channel \<Rightarrow> latent_frame list \<Rightarrow> bool" where
  "channel_rel J c q \<longleftrightarrow> ch_receiver_alive c \<and> bd_buffer (ch_decoder c) = [] \<and>
     list_all2 (\<lambda>f bs. encode_frame J f = Inr bs \<and> json_carries J f) q (ch_queue c)"

lemma channel_refines:
  assumes "channel_rel J c q" and "\<And>f. op = Send f \<Longrightarrow> json_carries J f"
  shows "snd (channel_step J c op) = snd (queue_step J q op) \<and> channel_rel J (fst (channel_step J c op)) (fst (queue_step J q op))"
proof (cases op)
  case (Send f)
  then show ?thesis
    using assms by (auto simp: channel_rel_def send_frame_def list_all2_appendI split: sum.split)
next
  case Receive
  have empty: "decoder_next J (ch_decoder c) = (ch_decoder c, Inr None)"
    using assms(1) by (simp add: channel_rel_def decoder_next_def decode_frame_def)
  show ?thesis
  proof (cases q)
    case Nil
    then have "ch_queue c = []" using assms(1) by (simp add: channel_rel_def)
    then show ?thesis
      using assms(1) Nil Receive empty by (simp add: try_recv_frame_def recv_loop.simps channel_rel_def)
  next
    case (Cons f q')
    then obtain bs rest where q: "ch_queue c = bs # rest" and enc: "encode_frame J f = Inr bs" "json_carries J f"
      and rel: "list_all2 (\<lambda>f bs. encode_frame J f = Inr bs \<and> json_carries J f) q' rest"
      using assms(1) by (auto simp: channel_rel_def list_all2_Cons1)
    have d: "ch_decoder c = \<lparr> bd_buffer = [] \<rparr>" using assms(1) by (simp add: channel_rel_def)
    have "bs \<noteq> []" "length bs \<le> MAX_FRAME_BYTES + 4" using decode_frame_encoded(2,3)[OF enc] by auto
    then have "decoder_push (ch_decoder c) bs = (\<lparr> bd_buffer = bs \<rparr>, Inr ())"
      using push_partial[OF enc, of "[]" bs "[]" "[]"] d by simp
    moreover have "decoder_next J \<lparr> bd_buffer = bs \<rparr> = (\<lparr> bd_buffer = [] \<rparr>, Inr (Some f))"
      using next_whole[OF enc, of "[]"] by simp
    ultimately have "recv_loop J (ch_decoder c) (ch_sender_alive c) (bs # rest) = (\<lparr> bd_buffer = [] \<rparr>, rest, Inr (Some f))"
      using empty by (subst recv_loop.simps, simp) (subst recv_loop.simps, simp)
    then show ?thesis
      using assms(1) Cons Receive q rel by (simp add: try_recv_frame_def channel_rel_def)
  qed
qed

section \<open>Properties\<close>

lemma run_Cons_fst: "fst (run_machine step s (i # is)) = fst (run_machine step (fst (step s i)) is)"
  by (simp add: Let_def case_prod_beta)

text \<open>C17. A byte stream gives back the frames that were sent: however the reads cut the encoded frames into
  chunks, \<open>recv_frame\<close> returns each frame once, in order, and then the end of the stream.\<close>

theorem stream_recovers_frames:
  assumes "map (encode_frame J) fs = map Inr bss" and "\<forall>f\<in>set fs. json_carries J f"
    and "concat cs = concat bss" and "\<forall>c\<in>set cs. c \<noteq> [] \<and> length c \<le> MAX_FRAME_BYTES + 4"
  shows "recv_frames J (Suc (length fs)) decoder_new (map Inr cs @ [Inr []]) = map (\<lambda>f. Inr (Some f)) fs @ [Inr None]"
proof -
  have "length fs = length bss" using map_eq_imp_length_eq[OF assms(1)] .
  then have "list_all2 (\<lambda>f bs. encode_frame J f = Inr bs \<and> json_carries J f) fs bss"
    using assms(1,2) by (induction fs bss rule: list_induct2) simp_all
  then show ?thesis unfolding decoder_new_def using assms(3,4) by (intro recv_all) auto
qed

text \<open>A toy encoder for the witnesses: it knows one frame and writes it as two bytes.\<close>

definition tiny_frame :: latent_frame where
  "tiny_frame = \<lparr> lf_id = ''f1'', lf_sender_model = ''a'', lf_receiver_space = ''b'', lf_transform_hash = ''t'',
     lf_sequence = 1,
     lf_payload = \<lparr> pl_encoding = Int8, pl_dim = 2, pl_bytes = [7, 9], pl_int8_params = Some (Fin False 1, 0) \<rparr>,
     lf_confidence = Fin False 1,
     lf_provenance = \<lparr> pv_sender_model = ''a'', pv_context_hash = ''c'', pv_parents = [] \<rparr>,
     lf_authority = ContextInject, lf_timestamp = 1 \<rparr>"

definition tiny_json :: frame_json where
  "tiny_json = \<lparr> to_vec = \<lambda>_. Some [0x7b, 0x7d],
     from_slice = \<lambda>bs. if bs = [0x7b, 0x7d] then Some tiny_frame else None \<rparr>"

lemma tiny_frame_encodes: "encode_frame tiny_json tiny_frame = Inr [0, 0, 0, 2, 0x7b, 0x7d]"
proof -
  have "to_be_bytes (2 :: u32) = [0, 0, 0, 2]" by code_simp
  then show ?thesis
    by (simp add: encode_frame_def tiny_json_def tiny_frame_def validate_payload_shape_def Let_def MAX_FRAME_BYTES_def)
qed

lemma tiny_bounds: "7 \<le> MAX_FRAME_BYTES" "11 \<le> MAX_BUFFERED_BYTES"
  by (simp_all add: MAX_BUFFERED_BYTES_def MAX_FRAME_BYTES_def)

lemma tiny_frame_carried: "json_carries tiny_json tiny_frame"
  by (simp add: json_carries_def tiny_json_def)

theorem stream_recovers_frames_witness:
  "recv_frames tiny_json 3 decoder_new (map Inr [[0, 0, 0], [2, 0x7b, 0x7d, 0, 0, 0, 2], [0x7b], [0x7d]] @ [Inr []]) =
     [Inr (Some tiny_frame), Inr (Some tiny_frame), Inr None]"
  using stream_recovers_frames[of tiny_json "[tiny_frame, tiny_frame]" "replicate 2 [0, 0, 0, 2, 0x7b, 0x7d]"
      "[[0, 0, 0], [2, 0x7b, 0x7d, 0, 0, 0, 2], [0x7b], [0x7d]]"]
    tiny_frame_encodes tiny_frame_carried tiny_bounds(1)
  by (simp add: numeral_2_eq_2 numeral_3_eq_3)

text \<open>The channel is a queue of frames: for every sequence of sends and receives, the results of the
  byte channel are those of the queue of frames, and its state stays related to the queue's.\<close>

theorem channel_refines_queue:
  assumes "\<forall>f. Send f \<in> set ops \<longrightarrow> json_carries J f"
  shows "snd (run_machine (channel_step J) channel_new ops) = snd (run_machine (queue_step J) [] ops) \<and>
    channel_rel J (fst (run_machine (channel_step J) channel_new ops)) (fst (run_machine (queue_step J) [] ops))"
proof -
  have "snd (run_machine (channel_step J) c ops) = snd (run_machine (queue_step J) q ops) \<and>
    channel_rel J (fst (run_machine (channel_step J) c ops)) (fst (run_machine (queue_step J) q ops))"
    if "channel_rel J c q" for c q
    using that assms
  proof (induction ops arbitrary: c q)
    case (Cons op ops)
    then have step: "snd (channel_step J c op) = snd (queue_step J q op)"
      "channel_rel J (fst (channel_step J c op)) (fst (queue_step J q op))"
      using channel_refines[of J c q op] by auto
    then show ?case using Cons.IH[OF step(2)] Cons.prems(2) by (simp add: run_Cons_proj run_Cons_fst del: run_machine.simps)
  qed simp
  moreover have "channel_rel J channel_new []" by (simp add: channel_rel_def channel_new_def decoder_new_def)
  ultimately show ?thesis by blast
qed

theorem channel_refines_queue_witness:
  "snd (run_machine (channel_step tiny_json) channel_new [Receive, Send tiny_frame, Send tiny_frame, Receive, Receive, Receive]) =
     [Inr None, Inr None, Inr None, Inr (Some tiny_frame), Inr (Some tiny_frame), Inr None]"
  using channel_refines_queue[of "[Receive, Send tiny_frame, Send tiny_frame, Receive, Receive, Receive]" tiny_json]
    tiny_frame_carried tiny_frame_encodes by auto

text \<open>The decoder never holds more than its bound, whatever chunks arrive and however rarely the
  caller drains it.\<close>

theorem decoder_stays_bounded:
  "length (bd_buffer (fst (run_machine (decoder_step J) decoder_new ops))) \<le> MAX_BUFFERED_BYTES"
  using byte_decoder.run_inv[of decoder_new J ops] by (simp add: decoder_bounded_def decoder_new_def)

text \<open>A malformed frame wedges the decoder: \<open>next_frame\<close> reports the error and keeps the bytes, so
  whatever chunks are pushed afterwards, as long as the pushes succeed, every later call reports the same
  error and no frame behind the malformed one is ever returned.\<close>

theorem decoder_wedged:
  assumes "decoder_next J d = (d', Inl e)"
    and "\<forall>out\<in>set (snd (run_machine (decoder_step J) d' (map PushChunk cs))). out = Inr None"
  shows "snd (run_machine (decoder_step J) d' (map PushChunk cs @ [PullFrame])) = replicate (length cs) (Inr None) @ [Inl e]"
proof -
  have err: "decode_frame J (bd_buffer d) = Inl e" and d': "d' = d"
    using assms(1) by (auto simp: decoder_next_def split: sum.splits option.splits)
  have "snd (run_machine (decoder_step J) d' (map PushChunk cs)) = replicate (length cs) (Inr None) \<and>
    snd (decoder_next J (fst (run_machine (decoder_step J) d' (map PushChunk cs)))) = Inl e"
    using assms(2) err unfolding d'
  proof (induction cs arbitrary: d)
    case Nil
    then show ?case by (simp add: decoder_next_def)
  next
    case (Cons c cs)
    let ?s = "decoder_step J d (PushChunk c)"
    have "snd ?s = Inr None" using Cons.prems(1) by (simp add: run_Cons_proj del: run_machine.simps)
    then have "bd_buffer (fst ?s) = bd_buffer d @ c"
      by (auto simp: decoder_push_def Let_def split: if_splits)
    then have "decode_frame J (bd_buffer (fst ?s)) = Inl e" using decode_error_persists[OF Cons.prems(2)] by simp
    moreover have "\<forall>out\<in>set (snd (run_machine (decoder_step J) (fst ?s) (map PushChunk cs))). out = Inr None"
      using Cons.prems(1) unfolding list.map(2) run_Cons_proj by simp
    ultimately have "snd (run_machine (decoder_step J) (fst ?s) (map PushChunk cs)) = replicate (length cs) (Inr None) \<and>
      snd (decoder_next J (fst (run_machine (decoder_step J) (fst ?s) (map PushChunk cs)))) = Inl e"
      by (intro Cons.IH)
    then show ?case unfolding list.map(2) run_Cons_proj run_Cons_fst \<open>snd ?s = Inr None\<close> by (metis length_Cons replicate_Suc)
  qed
  then show ?thesis by (simp add: run_machine_append Let_def case_prod_beta)
qed

theorem decoder_wedged_witness:
  "snd (run_machine (decoder_step tiny_json) \<lparr> bd_buffer = [0, 0, 0, 1, 0] \<rparr> (map PushChunk [[0, 0, 0, 2, 0x7b, 0x7d]] @ [PullFrame])) =
     [Inr None, Inl Malformed]"
proof -
  have n: "from_be_bytes [0, 0, 0, 1] = (1 :: u32)" by code_simp
  have "decoder_next tiny_json \<lparr> bd_buffer = [0, 0, 0, 1, 0] \<rparr> = (\<lparr> bd_buffer = [0, 0, 0, 1, 0] \<rparr>, Inl Malformed)"
    by (simp add: decoder_next_def decode_frame_def n tiny_json_def slice_def MAX_FRAME_BYTES_def Let_def)
  moreover have "snd (decoder_push \<lparr> bd_buffer = [0, 0, 0, 1, 0] \<rparr> [0, 0, 0, 2, 0x7b, 0x7d]) = Inr ()"
    using tiny_bounds by (simp add: decoder_push_def n)
  ultimately show ?thesis
    using decoder_wedged[of tiny_json _ _ Malformed "[[0, 0, 0, 2, 0x7b, 0x7d]]"] by (simp add: Let_def case_prod_beta)
qed

end
