(* ===== verification/Fixed_Point.thy ===== *)
theory Fixed_Point
  imports Latent_Core
begin

text \<open>
  Unit values in fixed point, as two of the wire formats carry them: a clamped single-precision value times
  the number of steps, rounded, in 16 bits; and back, by a division.
\<close>

definition quantize_unit :: "nat \<Rightarrow> f32 \<Rightarrow> u16" where
  "quantize_unit N x =
     word_of_int (fp_to_int 0 65535 (fp_round_away (f_mul (fp_clamp x f_zero f_one) (f32_of (of_nat N)))))"

definition unit_of_steps :: "nat \<Rightarrow> u16 \<Rightarrow> f32" where
  "unit_of_steps N w = f_div (f32_of (of_int (uint w))) (f32_of (of_nat N))"

lemma f32_of_nat: "n < 2 ^ 24 \<Longrightarrow> f32_of (of_nat n) = Fin False (of_nat n)"
  using fp_round_exact[of n binary32 0] by (simp add: fp_of_rat_def)

lemma round_away_near:
  assumes "is_value x v" and "\<bar>v - of_nat n\<bar> < 1 / 2"
  shows "fp_to_int 0 65535 (fp_round_away x) = min 65535 (int n)"
proof -
  obtain s m where x: "x = Fin s m" "fp_value (Fin s m) = v" using is_valueD[OF assms(1)] by blast
  have "\<lfloor>m + 1 / 2\<rfloor> = (if s then - int n else int n)"
  proof (cases s)
    case True
    then have "\<bar>- m - of_nat n\<bar> < 1 / 2" using assms(2) x(2) by simp
    then have "of_int (- int n) \<le> m + 1 / 2" "m + 1 / 2 < of_int (- int n) + 1" by (simp_all add: abs_less_iff; linarith)+
    then show ?thesis using True by (simp add: floor_unique)
  next
    case False
    then have "\<bar>m - of_nat n\<bar> < 1 / 2" using assms(2) x(2) by simp
    then have "of_int (int n) \<le> m + 1 / 2" "m + 1 / 2 < of_int (int n) + 1" by (simp_all add: abs_less_iff; linarith)+
    then have "\<lfloor>m + 1 / 2\<rfloor> = int n" by (rule floor_unique)
    then show ?thesis using False by simp
  qed
  then show ?thesis by (simp add: x(1) truncate_rat_def max_def)
qed

lemma clamp_near:
  assumes "is_value x u" and "near u v" and "0 < v" and "v \<le> 1"
  shows "\<exists>c. is_value (fp_clamp x f_zero f_one) c \<and> near c v"
proof -
  obtain s m where x: "x = Fin s m" "fp_value (Fin s m) = u" using is_valueD[OF assms(1)] by blast
  have "\<bar>u - v\<bar> \<le> v / 16777216" using assms(2,3) by (simp add: near_def)
  moreover have "v / 16777216 \<le> v" using assms(3) by simp
  ultimately have u: "0 \<le> u" by linarith
  show ?thesis
  proof (cases "1 < u")
    case True
    then have "near 1 v" using assms(2-4) by (simp add: near_def abs_le_iff)
    moreover have "fp_clamp x f_zero f_one = f_one"
      unfolding fp_clamp_def x(1) Let_def using True u x(2) by (simp del: fp_value.simps) (simp split: if_splits)
    ultimately show ?thesis by (intro exI[of _ 1]) (simp add: is_value_def)
  next
    case False
    have "fp_clamp x f_zero f_one = x"
      unfolding fp_clamp_def x(1) Let_def using False u x(2) by (auto split: if_splits)
    then show ?thesis using assms(1,2) by auto
  qed
qed

text \<open>The steps survive the rounding of the division and of the multiplication.\<close>

lemma steps_roundtrip:
  assumes "0 < N" and "N \<le> 65535" and "unat w \<le> N"
  shows "quantize_unit N (unit_of_steps N w) = w"
proof (cases "unat w = 0")
  case True
  then have "w = 0" by (simp add: unat_eq_0)
  then have "unit_of_steps N w = Fin False 0"
    using assms(1,2) f32_of_nat[of N] f32_ints(1) by (simp add: unit_of_steps_def fp_round_def)
  then show ?thesis
    using \<open>w = 0\<close> assms f32_of_nat[of N] by (simp add: quantize_unit_def fp_clamp_def fp_round_def truncate_rat_def)
next
  case False
  define v :: rat where "v = of_nat (unat w) / of_nat N"
  have N: "f32_of (of_nat N) = Fin False (of_nat N)" using assms(2) by (intro f32_of_nat) simp
  have n: "f32_of (of_int (uint w)) = Fin False (of_nat (unat w))"
    using f32_of_nat[of "unat w"] less_trans[OF unat_u16_lt[of w], of "2 ^ 24"] by simp
  have pos: "0 < (of_nat (unat w) :: rat)" "(of_nat (unat w) :: rat) \<le> of_nat N"
    using False assms(3) by (simp_all only: of_nat_0_less_iff of_nat_le_iff neq0_conv)
  have v: "0 < v" "v \<le> 1" using pos unfolding v_def by (simp_all only: divide_pos_pos divide_le_eq_1_pos)
  have vN: "v * of_nat N = of_nat (unat w)" using assms(1) by (simp add: v_def)
  have low: "1 / 65535 \<le> v"
  proof -
    have "1 / (65535 :: rat) \<le> 1 / of_nat N" using assms(1,2) by (intro divide_left_mono) simp_all
    also have "\<dots> \<le> v" unfolding v_def
    proof (rule divide_right_mono)
      show "1 \<le> (of_nat (unat w) :: rat)" using False by (metis One_nat_def Suc_leI neq0_conv of_nat_1 of_nat_le_iff)
    qed simp
    finally show ?thesis .
  qed
  have small: "pow2 (- 126) \<le> 1 / 131070" by (simp add: pow2_def power_int_minus)
  have big: "65536 \<le> pow2 100" by (simp add: pow2_def)
  have "in_normal_range v" using v low small big by (simp add: in_normal_range_def)
  then obtain u where u: "is_value (unit_of_steps N w) u" "near u v"
    using fp_ops_near(3)[of "Fin False (of_nat (unat w))" "of_nat (unat w)" "Fin False (of_nat N)" "of_nat N"]
    unfolding unit_of_steps_def N n by (auto simp: is_value_def v_def)
  then obtain c where c: "is_value (fp_clamp (unit_of_steps N w) f_zero f_one) c" "near c v"
    using clamp_near v by blast
  have cN: "\<bar>c * of_nat N - of_nat (unat w)\<bar> \<le> of_nat (unat w) / 16777216"
  proof -
    have "\<bar>c - v\<bar> * of_nat N \<le> v / 16777216 * of_nat N"
      using c(2) v by (intro mult_right_mono) (simp_all add: near_def)
    moreover have "\<bar>c - v\<bar> * of_nat N = \<bar>c * of_nat N - of_nat (unat w)\<bar>"
      unfolding vN[symmetric] left_diff_distrib[symmetric] abs_mult by simp
    ultimately show ?thesis using vN by simp
  qed
  have w: "1 \<le> (of_nat (unat w) :: rat)" "(of_nat (unat w) :: rat) \<le> 65535"
  proof -
    show "1 \<le> (of_nat (unat w) :: rat)" using False by (metis One_nat_def Suc_leI neq0_conv of_nat_1 of_nat_le_iff)
    have "unat w \<le> 65535" using assms(2,3) by simp
    then show "(of_nat (unat w) :: rat) \<le> 65535" by (metis of_nat_le_iff of_nat_numeral)
  qed
  have bounds: "1 / 2 \<le> c * of_nat N" "c * of_nat N \<le> 65536" using cN w by (simp_all add: abs_le_iff; linarith)+
  then have "in_normal_range (c * of_nat N)" using small big by (simp add: in_normal_range_def)
  then obtain r where r: "is_value (f_mul (fp_clamp (unit_of_steps N w) f_zero f_one) (f32_of (of_nat N))) r"
    "near r (c * of_nat N)"
    using fp_ops_near(2)[OF c(1), of "Fin False (of_nat N)" "of_nat N"] unfolding N by (auto simp: is_value_def)
  have "\<bar>r - of_nat (unat w)\<bar> < 1 / 2" 
  proof -
    have "\<bar>r - c * of_nat N\<bar> \<le> c * of_nat N / 16777216" using r(2) bounds by (simp add: near_def)
    then show ?thesis using cN w bounds by linarith
  qed
  then have "fp_to_int 0 65535 (fp_round_away (f_mul (fp_clamp (unit_of_steps N w) f_zero f_one) (f32_of (of_nat N)))) =
      min 65535 (int (unat w))"
    by (rule round_away_near[OF r(1)])
  moreover have "min 65535 (int (unat w)) = uint w"
  proof -
    have "int (unat w) \<le> 65535" using assms(2,3) by linarith
    then show ?thesis by simp
  qed
  ultimately show ?thesis by (simp add: quantize_unit_def)
qed

lemma round_magnitude_le:
  assumes "0 < x" and "x \<le> of_nat n" and "n < 2 ^ 23"
  shows "round_magnitude binary32 x < of_nat n + 1 / 2"
proof (cases "pow2 (- 126) \<le> x")
  case True
  then have "\<bar>round_magnitude binary32 x - x\<bar> \<le> x * pow2 (- 24)"
    using round_magnitude_error[of x binary32] assms(1) by simp
  moreover have "x * pow2 (- 24) < pow2 23 * pow2 (- 24)"
  proof (rule mult_strict_right_mono)
    have "(of_nat n :: rat) < of_nat (2 ^ 23)" using assms(3) by (simp only: of_nat_less_iff)
    then show "x < pow2 23" using assms(2) by (simp add: pow2_def)
  qed simp
  moreover have "pow2 23 * pow2 (- 24) = 1 / 2" by (simp add: pow2_def power_int_minus)
  ultimately show ?thesis using assms(2) by linarith
next
  case False
  let ?u = "pow2 (- 149)"
  have "pow2 (ilog2 x) < pow2 (- 126)" using False ilog2_bounds(1)[OF assms(1)] by linarith
  then have "max (ilog2 x) (- 126) = - 126" unfolding pow2_less_iff by simp
  then have "round_magnitude binary32 x = of_int (round_half_even (x / ?u)) * ?u"
    by (simp add: round_magnitude_def Let_def)
  also have "\<dots> \<le> (x / ?u + 1 / 2) * ?u" using round_half_even_bounds(1)[of "x / ?u"] by (intro mult_right_mono) simp_all
  also have "\<dots> = x + ?u / 2" by (simp add: distrib_right)
  also have "\<dots> < of_nat n + 1 / 2" using assms(2) pow2_strict[of "- 149" 0] by simp
  finally show ?thesis .
qed

lemma clamp_unit_cases:
  "fp_clamp x f_zero f_one = NaN \<or> (\<exists>s m. fp_clamp x f_zero f_one = Fin s m \<and> 0 \<le> fp_value (Fin s m) \<and> fp_value (Fin s m) \<le> 1)"
  by (cases x) (auto simp: fp_clamp_def Let_def)

lemma scaled_unit_range:
  assumes "0 < N" and "N < 2 ^ 23" and "int N \<le> hi"
  shows "\<exists>k. 0 \<le> k \<and> k \<le> int N \<and> fp_to_int 0 hi (fp_round_away (f_mul (fp_clamp x f_zero f_one) (f32_of (of_nat N)))) = k"
  using clamp_unit_cases[of x]
proof (elim disjE exE conjE)
  assume "fp_clamp x f_zero f_one = NaN"
  then show ?thesis by simp
next
  have N: "f32_of (of_nat N) = Fin False (of_nat N)" using assms(2) by (intro f32_of_nat) simp
  fix s m assume c: "fp_clamp x f_zero f_one = Fin s m" and v: "0 \<le> fp_value (Fin s m)" "fp_value (Fin s m) \<le> 1"
  let ?p = "fp_value (Fin s m) * of_nat N"
  have mul: "f_mul (Fin s m) (f32_of (of_nat N)) = fp_round binary32 s ?p" unfolding N by simp
  have p: "0 \<le> ?p" "?p \<le> of_nat N" using v assms(1) by (simp_all add: mult_left_le_one_le del: fp_value.simps)
  show ?thesis
  proof (cases "?p = 0")
    case True
    have "\<lfloor>(1 :: rat) / 2\<rfloor> = 0" by (rule floor_unique) simp_all
    then show ?thesis unfolding c mul True using assms(3) by (simp add: fp_round_def truncate_rat_def)
  next
    case False
    then have pos: "0 < ?p" using p(1) by (metis order_le_less)
    let ?r = "round_magnitude binary32 ?p"
    have r: "?r < of_nat N + 1 / 2" "0 \<le> ?r"
      using round_magnitude_le[OF pos p(2) assms(2)] round_magnitude_nonneg[of ?p binary32] pos by simp_all
    have "of_nat N + 1 / 2 < pow2 128"
    proof -
      have "(of_nat N :: rat) < of_nat (2 ^ 23)" using assms(2) by (simp only: of_nat_less_iff)
      moreover have "of_nat (2 ^ 23) + 1 < pow2 128" by (simp add: pow2_def)
      ultimately show ?thesis by linarith
    qed
    then have "fp_round binary32 s ?p = Fin False ?r"
      using False pos r by (simp add: fp_round_def Let_def del: fp_value.simps mult_eq_0_iff)
    moreover have "0 \<le> \<lfloor>?r + 1 / 2\<rfloor>" "\<lfloor>?r + 1 / 2\<rfloor> \<le> int N" using r by (simp_all add: floor_le_iff)
    ultimately show ?thesis unfolding c mul using assms(3) by (simp add: truncate_rat_def)
  qed
qed

lemma quantize_bound:
  assumes "0 < N" and "N \<le> 65535"
  shows "unat (quantize_unit N x) \<le> N"
proof -
  obtain k where k: "0 \<le> k" "k \<le> int N" "quantize_unit N x = word_of_int k"
    using scaled_unit_range[of N 65535 x] assms by (auto simp: quantize_unit_def)
  have "k < 2 ^ 16" using k(2) assms(2) by simp
  then have "uint (quantize_unit N x) = k" unfolding k(3) using k(1) by (simp only: unsigned_of_int) (simp add: take_bit_int_eq_self)
  then have "int (unat (quantize_unit N x)) \<le> int N" using k(2) by simp
  then show ?thesis by linarith
qed

end
