(* ===== verification/Reasoning_Envelope.thy ===== *)
theory Reasoning_Envelope
  imports Fixed_Point Envelope
begin

text \<open>
  \<open>latentmesh-reasoning/src\<close>: the handshake and the codec numbers of \<open>compat.rs\<close>, and \<open>envelope.rs\<close>,
  the transport object of a reasoning delta with its canonical encoding. A digest or an identifier of a
  fixed number of bytes is a word of that width.
\<close>

type_synonym digest = "256 word"
type_synonym id16 = "128 word"

section \<open>The compatibility handshake\<close>

record compatibility_descriptor =
  cd_model_family :: id16
  cd_model_fingerprint :: digest
  cd_checkpoint_digest :: digest
  cd_latent_schema_version :: u16
  cd_layer_or_workspace_id :: u32
  cd_hidden_dimension :: u32
  cd_normalization_scheme :: u8
  cd_position_encoding_id :: u16
  cd_adapter_id :: u32
  cd_adapter_digest :: digest
  cd_quantizer_id :: u16
  cd_codec_version :: u16
  cd_training_domain_tag :: "u32 option"

record verified_adapter =
  va_adapter_digest :: digest
  va_source_model_fingerprint :: digest
  va_target_model_fingerprint :: digest
  va_benchmarked :: bool

datatype compatibility_decision =
  IdentityAdapter
| UseVerifiedAdapter digest
| SemanticFallback
| RejectDelta

definition evaluate_handshake ::
  "compatibility_descriptor \<Rightarrow> compatibility_descriptor \<Rightarrow> verified_adapter option \<Rightarrow> bool \<Rightarrow> compatibility_decision" where
  "evaluate_handshake local remote adapter fallback =
     (let other = (if fallback then SemanticFallback else RejectDelta) in
      if cd_model_fingerprint local = cd_model_fingerprint remote
         \<and> cd_checkpoint_digest local = cd_checkpoint_digest remote
         \<and> cd_latent_schema_version local = cd_latent_schema_version remote
      then IdentityAdapter
      else case adapter of
        Some a \<Rightarrow>
          if va_benchmarked a \<and> va_source_model_fingerprint a = cd_model_fingerprint remote
             \<and> va_target_model_fingerprint a = cd_model_fingerprint local
             \<and> va_adapter_digest a = cd_adapter_digest remote
          then UseVerifiedAdapter (va_adapter_digest a)
          else other
      | None \<Rightarrow> other)"

datatype codec_id = Raw | SparseResidualInt8 | LowRank | LearnedBottleneck | SemanticCodec

fun codec_to_u8 :: "codec_id \<Rightarrow> u8" where
  "codec_to_u8 Raw = 0"
| "codec_to_u8 SparseResidualInt8 = 1"
| "codec_to_u8 LowRank = 2"
| "codec_to_u8 LearnedBottleneck = 3"
| "codec_to_u8 SemanticCodec = 4"

datatype compat_error = UnknownCodec u8 | EmptyInput | TooManyComponents | TruncatedPayload | LengthMismatch

definition codec_try_from :: "u8 \<Rightarrow> compat_error + codec_id" where
  "codec_try_from b =
     (if b = 0 then Inr Raw else if b = 1 then Inr SparseResidualInt8 else if b = 2 then Inr LowRank
      else if b = 3 then Inr LearnedBottleneck else if b = 4 then Inr SemanticCodec else Inl (UnknownCodec b))"

lemma codec_try_from_to [simp]: "codec_try_from (codec_to_u8 c) = Inr c"
  by (cases c) (simp_all add: codec_try_from_def)

lemma codec_try_from_Inr: "codec_try_from b = Inr c \<Longrightarrow> codec_to_u8 c = b"
  by (auto simp: codec_try_from_def split: if_splits)

section \<open>The envelope\<close>

definition DELTA_ENVELOPE_MAGIC :: bytes where "DELTA_ENVELOPE_MAGIC = ascii ''LMRD''"

abbreviation (input) DELTA_ENVELOPE_VERSION :: u16 where "DELTA_ENVELOPE_VERSION \<equiv> 1"
abbreviation (input) MAX_BODY_BYTES :: nat where "MAX_BODY_BYTES \<equiv> 1048576"
abbreviation (input) FIXED_HEADER_BYTES :: nat where "FIXED_HEADER_BYTES \<equiv> 282"
abbreviation (input) Q15_MAX :: nat where "Q15_MAX \<equiv> 32767"

definition q15_from_unit :: "f32 \<Rightarrow> u16" where
  "q15_from_unit value =
     word_of_int (fp_to_int 0 65535 (fp_round_away (f_mul (fp_clamp value f_zero f_one) (f32_of (of_nat Q15_MAX)))))"

definition unit_from_q15 :: "u16 \<Rightarrow> f32" where
  "unit_from_q15 raw = f_div (f32_of (of_int (uint raw))) (f32_of (of_nat Q15_MAX))"

datatype delta_envelope_error =
  BadMarker | BadVersion | BadFlags | BadCodec u8 | OverLimit | CutShort

record delta_envelope =
  de_version :: u16
  de_session_id :: id16
  de_edge_id :: id16
  de_sender_id :: digest
  de_model_fingerprint :: digest
  de_checkpoint_digest :: digest
  de_latent_schema :: u16
  de_adapter_digest :: digest
  de_codec :: codec_id
  de_iteration :: u32
  de_parent_state_hash :: digest
  de_result_state_hash :: digest
  de_causal_score_q15 :: u16
  de_confidence_q15 :: u16
  de_risk_class :: u8
  de_reconstruction_error_q15 :: u16
  de_provenance_root :: digest
  de_body :: bytes
  de_signature :: "signature option"

definition de_validate :: "delta_envelope \<Rightarrow> delta_envelope_error + unit" where
  "de_validate e =
     (if de_version e \<noteq> DELTA_ENVELOPE_VERSION then Inl BadVersion
      else if length (de_body e) > MAX_BODY_BYTES then Inl OverLimit
      else Inr ())"

definition de_overhead_bytes :: "delta_envelope \<Rightarrow> nat" where
  "de_overhead_bytes e = FIXED_HEADER_BYTES + (if de_signature e \<noteq> None then ENVELOPE_SIGNATURE_BYTES else 0)"

definition de_encoded_len :: "delta_envelope \<Rightarrow> nat" where
  "de_encoded_len e = de_overhead_bytes e + length (de_body e)"

definition de_header :: "delta_envelope \<Rightarrow> bytes" where
  "de_header e =
     DELTA_ENVELOPE_MAGIC @ to_be_bytes (de_version e) @ to_be_bytes (de_session_id e) @ to_be_bytes (de_edge_id e)
     @ to_be_bytes (de_sender_id e) @ to_be_bytes (de_model_fingerprint e) @ to_be_bytes (de_checkpoint_digest e)
     @ to_be_bytes (de_latent_schema e) @ to_be_bytes (de_adapter_digest e) @ [codec_to_u8 (de_codec e)]
     @ to_be_bytes (de_iteration e) @ to_be_bytes (de_parent_state_hash e) @ to_be_bytes (de_result_state_hash e)
     @ to_be_bytes (de_causal_score_q15 e) @ to_be_bytes (de_confidence_q15 e) @ [de_risk_class e]
     @ to_be_bytes (de_reconstruction_error_q15 e) @ to_be_bytes (de_provenance_root e)
     @ to_be_bytes (word_of_nat (length (de_body e)) :: u32)
     @ [if de_signature e \<noteq> None then word_of_nat ENVELOPE_SIGNATURE_BYTES else 0, 0]"

definition de_signature_bytes :: "delta_envelope \<Rightarrow> bytes" where
  "de_signature_bytes e = (case de_signature e of None \<Rightarrow> [] | Some s \<Rightarrow> to_be_bytes s)"

definition de_encode :: "delta_envelope \<Rightarrow> delta_envelope_error + bytes" where
  "de_encode e = rbind (de_validate e) (\<lambda>_. Inr (de_header e @ de_body e @ de_signature_bytes e))"

text \<open>The fields as they are read, and the checks.\<close>

definition de_read :: "bytes \<Rightarrow> codec_id \<Rightarrow> delta_envelope" where
  "de_read input codec =
     (let body_end = FIXED_HEADER_BYTES + unat (from_be_bytes (slice 276 280 input) :: u32);
          signature_len = unat (input ! 280)
      in \<lparr> de_version = from_be_bytes (slice 4 6 input),
           de_session_id = from_be_bytes (slice 6 22 input),
           de_edge_id = from_be_bytes (slice 22 38 input),
           de_sender_id = from_be_bytes (slice 38 70 input),
           de_model_fingerprint = from_be_bytes (slice 70 102 input),
           de_checkpoint_digest = from_be_bytes (slice 102 134 input),
           de_latent_schema = from_be_bytes (slice 134 136 input),
           de_adapter_digest = from_be_bytes (slice 136 168 input),
           de_codec = codec,
           de_iteration = from_be_bytes (slice 169 173 input),
           de_parent_state_hash = from_be_bytes (slice 173 205 input),
           de_result_state_hash = from_be_bytes (slice 205 237 input),
           de_causal_score_q15 = from_be_bytes (slice 237 239 input),
           de_confidence_q15 = from_be_bytes (slice 239 241 input),
           de_risk_class = input ! 241,
           de_reconstruction_error_q15 = from_be_bytes (slice 242 244 input),
           de_provenance_root = from_be_bytes (slice 244 276 input),
           de_body = slice FIXED_HEADER_BYTES body_end input,
           de_signature = (if signature_len = ENVELOPE_SIGNATURE_BYTES
             then Some (from_be_bytes (slice body_end (body_end + signature_len) input)) else None) \<rparr>)"

definition de_decode :: "bytes \<Rightarrow> delta_envelope_error + delta_envelope" where
  "de_decode input =
     (if length input < FIXED_HEADER_BYTES then Inl CutShort
      else if slice 0 4 input \<noteq> DELTA_ENVELOPE_MAGIC then Inl BadMarker
      else if (from_be_bytes (slice 4 6 input) :: u16) \<noteq> DELTA_ENVELOPE_VERSION then Inl BadVersion
      else case codec_try_from (input ! 168) of
        Inl _ \<Rightarrow> Inl (BadCodec (input ! 168))
      | Inr codec \<Rightarrow>
          let body_len = unat (from_be_bytes (slice 276 280 input) :: u32); signature_len = unat (input ! 280) in
          if input ! 281 \<noteq> 0 then Inl BadFlags
          else if signature_len \<noteq> 0 \<and> signature_len \<noteq> ENVELOPE_SIGNATURE_BYTES then Inl BadFlags
          else if body_len > MAX_BODY_BYTES then Inl OverLimit
          else if FIXED_HEADER_BYTES + body_len + signature_len \<noteq> length input then Inl CutShort
          else rbind (de_validate (de_read input codec)) (\<lambda>_. Inr (de_read input codec)))"

section \<open>The codec\<close>

lemma length_DELTA_ENVELOPE_MAGIC [simp]: "length DELTA_ENVELOPE_MAGIC = 4"
  by (simp add: DELTA_ENVELOPE_MAGIC_def)

lemma length_de_header [simp]: "length (de_header e) = 282"
  by (simp add: de_header_def)

definition de_ok :: "delta_envelope \<Rightarrow> bool" where
  "de_ok e \<longleftrightarrow> de_validate e = Inr ()"

lemma de_ok_iff: "de_ok e \<longleftrightarrow> de_version e = 1 \<and> length (de_body e) \<le> 1048576"
  by (simp add: de_ok_def de_validate_def)

lemma de_encode_iff: "de_encode e = Inr bs \<longleftrightarrow> de_ok e \<and> bs = de_header e @ de_body e @ de_signature_bytes e"
  by (auto simp: de_encode_def de_ok_def)

lemma de_header_slices:
  fixes e r
  defines "bs \<equiv> de_header e @ r"
  shows "slice 0 4 bs = DELTA_ENVELOPE_MAGIC"
    and "slice 4 6 bs = to_be_bytes (de_version e)"
    and "slice 6 22 bs = to_be_bytes (de_session_id e)"
    and "slice 22 38 bs = to_be_bytes (de_edge_id e)"
    and "slice 38 70 bs = to_be_bytes (de_sender_id e)"
    and "slice 70 102 bs = to_be_bytes (de_model_fingerprint e)"
    and "slice 102 134 bs = to_be_bytes (de_checkpoint_digest e)"
    and "slice 134 136 bs = to_be_bytes (de_latent_schema e)"
    and "slice 136 168 bs = to_be_bytes (de_adapter_digest e)"
    and "slice 168 169 bs = [codec_to_u8 (de_codec e)]"
    and "slice 169 173 bs = to_be_bytes (de_iteration e)"
    and "slice 173 205 bs = to_be_bytes (de_parent_state_hash e)"
    and "slice 205 237 bs = to_be_bytes (de_result_state_hash e)"
    and "slice 237 239 bs = to_be_bytes (de_causal_score_q15 e)"
    and "slice 239 241 bs = to_be_bytes (de_confidence_q15 e)"
    and "slice 241 242 bs = [de_risk_class e]"
    and "slice 242 244 bs = to_be_bytes (de_reconstruction_error_q15 e)"
    and "slice 244 276 bs = to_be_bytes (de_provenance_root e)"
    and "slice 276 280 bs = to_be_bytes (word_of_nat (length (de_body e)) :: u32)"
    and "slice 280 282 bs = [if de_signature e \<noteq> None then 64 else 0, 0]"
  unfolding bs_def de_header_def append_assoc by (simp_all add: slice_append_left slice_head del: append_Cons append_Nil)

lemma de_header_nth:
  assumes "282 \<le> length bs"
  shows "bs ! 168 = hd (slice 168 169 bs)" "bs ! 241 = hd (slice 241 242 bs)"
    "bs ! 280 = slice 280 282 bs ! 0" "bs ! 281 = slice 280 282 bs ! 1"
  using assms by (simp_all add: slice_one slice_nth)

lemma de_header_split:
  assumes "282 \<le> length bs"
  shows "slice 0 4 bs @ slice 4 6 bs @ slice 6 22 bs @ slice 22 38 bs @ slice 38 70 bs @ slice 70 102 bs
    @ slice 102 134 bs @ slice 134 136 bs @ slice 136 168 bs @ slice 168 169 bs @ slice 169 173 bs @ slice 173 205 bs
    @ slice 205 237 bs @ slice 237 239 bs @ slice 239 241 bs @ slice 241 242 bs @ slice 242 244 bs @ slice 244 276 bs
    @ slice 276 280 bs @ slice 280 282 bs @ drop 282 bs = bs"
proof -
  have step: "slice a b bs @ drop b bs = drop a bs" if "a \<le> b" for a b
    using that append_take_drop_id[of "b - a" "drop a bs"] by (simp add: slice_def)
  show ?thesis by (simp add: step)
qed

lemma de_signature_len: "length (de_signature_bytes e) = (if de_signature e = None then 0 else 64)"
  by (auto simp: de_signature_bytes_def)

lemma de_decode_encoded:
  assumes ok: "de_ok e"
  shows "de_decode (de_header e @ de_body e @ de_signature_bytes e) = Inr e"
proof -
  let ?bs = "de_header e @ de_body e @ de_signature_bytes e" and ?n = "length (de_body e)"
  note sl = de_header_slices[of e "de_body e @ de_signature_bytes e"]
  have v: "de_version e = 1" and small: "?n \<le> 1048576" using ok by (simp_all add: de_ok_iff)
  have n: "unat (word_of_nat ?n :: u32) = ?n" using small by (simp add: unat_of_nat)
  have long: "282 \<le> length ?bs" and len: "length ?bs = 282 + ?n + (if de_signature e = None then 0 else 64)"
    by (simp_all add: de_signature_len)
  have nth: "?bs ! 168 = codec_to_u8 (de_codec e)" "?bs ! 241 = de_risk_class e"
    "?bs ! 280 = (if de_signature e \<noteq> None then 64 else 0)" "?bs ! 281 = 0"
    unfolding de_header_nth[OF long] sl by simp_all
  have body: "slice 282 (282 + ?n) ?bs = de_body e" by (rule slice_field) simp_all
  have sig: "slice (282 + ?n) (282 + ?n + length (de_signature_bytes e)) ?bs = de_signature_bytes e"
    using slice_field[of "de_header e @ de_body e" _ "de_signature_bytes e" _ "[]"] by simp
  have valid: "de_validate e = Inr ()" using ok by (simp add: de_ok_def)
  have read: "de_read ?bs (de_codec e) = e"
  proof (cases "de_signature e")
    case None
    then show ?thesis
      unfolding de_read_def Let_def nth sl by (simp add: n body from_to_be_bytes)
  next
    case (Some sg)
    then have "slice (282 + ?n) (346 + ?n) ?bs = to_be_bytes sg"
      using sig by (simp add: de_signature_bytes_def add.commute)
    with Some show ?thesis
      unfolding de_read_def Let_def nth sl by (simp add: n body from_to_be_bytes)
  qed
  show ?thesis
    using long len v small unfolding de_decode_def Let_def nth sl codec_try_from_to sum.case read valid
    by (simp add: n from_to_be_bytes del: length_append)
qed

lemma de_decode_InrE:
  assumes "de_decode bs = Inr e"
  obtains codec where "codec_try_from (bs ! 168) = Inr codec" and "e = de_read bs codec" and "282 \<le> length bs"
    and "length bs = 282 + unat (from_be_bytes (slice 276 280 bs) :: u32) + unat (bs ! 280)"
    and "slice 0 4 bs = DELTA_ENVELOPE_MAGIC" and "bs ! 281 = 0" and "unat (bs ! 280) = 64 \<or> unat (bs ! 280) = 0"
    and "de_ok e"
proof (cases "codec_try_from (bs ! 168)")
  case (Inl x)
  then show ?thesis using assms by (simp add: de_decode_def split: if_splits)
next
  case (Inr codec)
  show ?thesis
    by (rule that[OF Inr]; use assms Inr in \<open>auto simp: de_decode_def Let_def de_ok_def not_less split: if_splits\<close>)
qed

lemma de_decode_InrD:
  assumes "de_decode bs = Inr e"
  shows "de_ok e \<and> bs = de_header e @ de_body e @ de_signature_bytes e"
proof -
  let ?n = "unat (from_be_bytes (slice 276 280 bs) :: u32)" and ?s = "unat (bs ! 280)"
  from assms obtain codec where c: "codec_try_from (bs ! 168) = Inr codec" and read: "e = de_read bs codec"
    and len: "282 \<le> length bs" "length bs = 282 + ?n + ?s"
    and magic: "slice 0 4 bs = DELTA_ENVELOPE_MAGIC" "bs ! 281 = 0" and auth: "?s = 64 \<or> ?s = 0" and ok: "de_ok e"
    by (rule de_decode_InrE)
  note e = read[unfolded de_read_def Let_def]
  have body: "length (de_body e) = ?n" using len by (simp add: e)
  have sig: "de_signature_bytes e = slice (282 + ?n) (282 + ?n + ?s) bs"
    using auth len by (auto simp: de_signature_bytes_def e to_from_be_bytes)
  have s280: "slice 280 282 bs = [bs ! 280, bs ! 281]" using slice_two[of 280 bs] len(1) by simp
  have one: "slice 168 169 bs = [bs ! 168]" "slice 241 242 bs = [bs ! 241]" using len(1) by (simp_all add: slice_one)
  have flag: "(if de_signature e \<noteq> None then word_of_nat 64 else 0) = bs ! 280"
    using auth u8_of_unat[of "bs ! 280"] by (cases "?s = 64") (simp_all add: e)
  have fields:
    "to_be_bytes (de_version e) = slice 4 6 bs"
    "to_be_bytes (de_session_id e) = slice 6 22 bs"
    "to_be_bytes (de_edge_id e) = slice 22 38 bs"
    "to_be_bytes (de_sender_id e) = slice 38 70 bs"
    "to_be_bytes (de_model_fingerprint e) = slice 70 102 bs"
    "to_be_bytes (de_checkpoint_digest e) = slice 102 134 bs"
    "to_be_bytes (de_latent_schema e) = slice 134 136 bs"
    "to_be_bytes (de_adapter_digest e) = slice 136 168 bs"
    "to_be_bytes (de_iteration e) = slice 169 173 bs"
    "to_be_bytes (de_parent_state_hash e) = slice 173 205 bs"
    "to_be_bytes (de_result_state_hash e) = slice 205 237 bs"
    "to_be_bytes (de_causal_score_q15 e) = slice 237 239 bs"
    "to_be_bytes (de_confidence_q15 e) = slice 239 241 bs"
    "to_be_bytes (de_reconstruction_error_q15 e) = slice 242 244 bs"
    "to_be_bytes (de_provenance_root e) = slice 244 276 bs"
    "to_be_bytes (word_of_nat ?n :: u32) = slice 276 280 bs" "codec_to_u8 (de_codec e) = bs ! 168" "de_risk_class e = bs ! 241"
    using len(1) codec_try_from_Inr[OF c] by (simp_all add: e to_from_be_bytes)
  have "de_header e = slice 0 4 bs @ slice 4 6 bs @ slice 6 22 bs @ slice 22 38 bs @ slice 38 70 bs @ slice 70 102 bs
      @ slice 102 134 bs @ slice 134 136 bs @ slice 136 168 bs @ slice 168 169 bs @ slice 169 173 bs @ slice 173 205 bs
      @ slice 205 237 bs @ slice 237 239 bs @ slice 239 241 bs @ slice 241 242 bs @ slice 242 244 bs @ slice 244 276 bs
      @ slice 276 280 bs @ slice 280 282 bs"
    unfolding de_header_def body flag fields magic(1)[symmetric] s280 one magic(2) by (rule refl)
  moreover have "drop 282 bs = de_body e @ de_signature_bytes e"
  proof -
    have parts: "de_body e = take ?n (drop 282 bs)" by (simp add: e slice_def)
    have "de_signature_bytes e = take ?s (drop ?n (drop 282 bs))" unfolding sig slice_def by (simp add: add.commute)
    moreover have "length (drop ?n (drop 282 bs)) = ?s" using len(2) by simp
    ultimately have "de_signature_bytes e = drop ?n (drop 282 bs)" by (simp only: take_all order.refl)
    then show ?thesis unfolding parts by (simp only: append_take_drop_id)
  qed
  ultimately show ?thesis using ok de_header_split[OF len(1)] by simp
qed

interpretation delta_envelope: wire_codec de_ok "\<lambda>e. e" de_encode de_decode
  using de_decode_encoded de_decode_InrD by unfold_locales (auto simp: de_encode_iff)

section \<open>Properties\<close>

text \<open>Reasoning envelopes are canonical: \<open>encode\<close> yields \<open>bs\<close> if and only if \<open>decode\<close> reads \<open>bs\<close> as
  the envelope; every envelope of the current version with a body within the bound encodes, into
  \<open>encoded_len\<close> bytes.\<close>

theorem delta_envelope_roundtrip:
  "(de_encode e = Inr bs \<longleftrightarrow> de_decode bs = Inr e) \<and>
   (de_version e' = 1 \<and> length (de_body e') \<le> 1048576 \<longleftrightarrow>
     (\<exists>bs'. de_encode e' = Inr bs' \<and> length bs' = de_encoded_len e'))"
  using delta_envelope.dec_enc delta_envelope.enc_dec
  by (auto simp: de_encode_iff de_ok_iff de_encoded_len_def de_overhead_bytes_def de_signature_len)

lemma q15_fixed_point: "q15_from_unit = quantize_unit 32767" "unit_from_q15 = unit_of_steps 32767"
  by (simp_all add: fun_eq_iff q15_from_unit_def quantize_unit_def unit_from_q15_def unit_of_steps_def)

text \<open>A score in Q15 survives its conversion: reading a raw value as a float and quantizing it again gives
  the same raw value, whatever the rounding of the division and of the multiplication; every float,
  infinite or not, quantizes within the range, and a NaN to zero.\<close>

theorem q15_roundtrip:
  assumes "unat raw \<le> 32767"
  shows "q15_from_unit (unit_from_q15 raw) = raw \<and> unat (q15_from_unit x) \<le> 32767 \<and> q15_from_unit NaN = 0"
proof -
  have "q15_from_unit NaN = 0" by (simp add: q15_from_unit_def fp_clamp_def)
  then show ?thesis
    using steps_roundtrip[of 32767 raw] quantize_bound[of 32767 x] assms by (simp add: q15_fixed_point)
qed

theorem q15_roundtrip_witness: "q15_from_unit (unit_from_q15 12345) = 12345 \<and> unat (q15_from_unit (Inf False)) \<le> 32767"
  using q15_roundtrip[of 12345 "Inf False"] by simp

text \<open>Latent state is merged only on identity: an identity adapter needs equal fingerprints, checkpoints and
  schemas, any other adapter a benchmark and matching digests, and no other field of the two descriptors,
  the hidden dimension in particular, has any influence on the decision.\<close>

theorem handshake_by_identity:
  assumes "cd_model_fingerprint l = cd_model_fingerprint l'" and "cd_checkpoint_digest l = cd_checkpoint_digest l'"
    and "cd_latent_schema_version l = cd_latent_schema_version l'"
    and "cd_model_fingerprint r = cd_model_fingerprint r'" and "cd_checkpoint_digest r = cd_checkpoint_digest r'"
    and "cd_latent_schema_version r = cd_latent_schema_version r'" and "cd_adapter_digest r = cd_adapter_digest r'"
  shows "evaluate_handshake l r a fb = evaluate_handshake l' r' a fb \<and>
    (evaluate_handshake l r a fb = IdentityAdapter \<longleftrightarrow>
      cd_model_fingerprint l = cd_model_fingerprint r \<and> cd_checkpoint_digest l = cd_checkpoint_digest r \<and>
      cd_latent_schema_version l = cd_latent_schema_version r) \<and>
    (evaluate_handshake l r (Some v) fb = UseVerifiedAdapter d \<longrightarrow>
      va_benchmarked v \<and> d = va_adapter_digest v \<and> d = cd_adapter_digest r \<and>
      va_source_model_fingerprint v = cd_model_fingerprint r \<and> va_target_model_fingerprint v = cd_model_fingerprint l)"
  using assms by (auto simp: evaluate_handshake_def Let_def split: option.splits)

definition demo_descriptor :: "digest \<Rightarrow> u32 \<Rightarrow> compatibility_descriptor" where
  "demo_descriptor checkpoint width = \<lparr> cd_model_family = 0, cd_model_fingerprint = 1, cd_checkpoint_digest = checkpoint,
     cd_latent_schema_version = 1, cd_layer_or_workspace_id = 0, cd_hidden_dimension = width, cd_normalization_scheme = 1,
     cd_position_encoding_id = 0, cd_adapter_id = 0, cd_adapter_digest = 0, cd_quantizer_id = 0, cd_codec_version = 1,
     cd_training_domain_tag = None \<rparr>"

lemma demo_descriptor_fields:
  "cd_model_fingerprint (demo_descriptor c w) = 1" "cd_checkpoint_digest (demo_descriptor c w) = c"
  "cd_latent_schema_version (demo_descriptor c w) = 1" "cd_adapter_digest (demo_descriptor c w) = 0"
  by (simp_all add: demo_descriptor_def)

theorem handshake_by_identity_witness:
  "evaluate_handshake (demo_descriptor 7 1536) (demo_descriptor 8 1536) None True =
   evaluate_handshake (demo_descriptor 7 64) (demo_descriptor 8 4096) None True \<and>
   evaluate_handshake (demo_descriptor 7 1536) (demo_descriptor 8 1536) None True \<noteq> IdentityAdapter"
  using handshake_by_identity[of "demo_descriptor 7 1536" "demo_descriptor 7 64" "demo_descriptor 8 1536"
      "demo_descriptor 8 4096" None True "\<lparr> va_adapter_digest = 0, va_source_model_fingerprint = 1,
        va_target_model_fingerprint = 1, va_benchmarked = True \<rparr>" 0]
  by (simp add: demo_descriptor_fields) metis

end
