(* ===== verification/Float_Bits.thy ===== *)
theory Float_Bits
  imports Latent_Core
begin

text \<open>
  The result of every single-precision operation is a single-precision number: it is the value of a bit
  pattern, and survives a trip over the wire.
\<close>

lemma from_bits_pattern:
  assumes "0 \<le> e" and "e \<le> 255" and "0 \<le> f" and "f < 2 ^ 23"
  shows "f32_from_bits (word_of_int ((if s then 2 ^ 31 else 0) + e * 2 ^ 23 + f)) =
    (if e = 255 then (if f = 0 then Inf s else NaN)
     else if e = 0 then Fin s (of_int f * pow2 (- 149))
     else Fin s (of_int (2 ^ 23 + f) * pow2 (e - 150)))"
proof -
  define n :: int where "n = (if s then 2 ^ 31 else 0) + e * 2 ^ 23 + f"
  have bound: "0 \<le> n" "n < 2 ^ 32" using assms by (auto simp: n_def)
  have u: "uint (word_of_int n :: u32) = n" using bound unfolding unsigned_of_int by (simp add: take_bit_int_eq_self)
  have sign: "(n \<ge> 2 ^ 31) = s" using assms by (auto simp: n_def)
  define q :: int where "q = (if s then 256 else 0) + e"
  have n: "n = f + q * 2 ^ 23" by (simp add: n_def q_def)
  have frac: "n mod 2 ^ 23 = f" unfolding n mod_mult_self1 using assms by simp
  have "n div 2 ^ 23 = q + f div 2 ^ 23" unfolding n by (rule div_mult_self1) simp
  then have top: "n div 2 ^ 23 = (if s then 256 else 0) + e" using assms by (simp add: q_def)
  have ex: "(n div 2 ^ 23) mod 256 = e" unfolding top using assms by simp
  show ?thesis unfolding n_def[symmetric] f32_from_bits_def u Let_def sign frac ex by (rule refl)
qed

lemma is_f32_pattern:
  assumes "0 \<le> f" and "f < 2 ^ 23"
  shows "is_f32 (Fin s (of_int f * pow2 (- 149)))"
    and "1 \<le> e \<Longrightarrow> e \<le> 254 \<Longrightarrow> is_f32 (Fin s (of_int (2 ^ 23 + f) * pow2 (e - 150)))"
  unfolding is_f32_def using from_bits_pattern[of 0 f s] from_bits_pattern[of e f s] assms
  by (simp_all split: if_splits) metis+

lemma is_f32_special [simp]: "is_f32 NaN" "is_f32 (Inf s)" "is_f32 (Fin s 0)"
proof -
  show "is_f32 (Inf s)" unfolding is_f32_def using from_bits_pattern[of 255 0 s] by simp metis
  show "is_f32 NaN" unfolding is_f32_def using from_bits_pattern[of 255 1 False] by simp metis
  show "is_f32 (Fin s 0)" using is_f32_pattern(1)[of 0 s] by simp
qed

lemma is_f32_round [simp]: "is_f32 (fp_round binary32 z x)"
proof (cases "x = 0 \<or> pow2 128 \<le> round_magnitude binary32 \<bar>x\<bar>")
  case True
  then show ?thesis by (auto simp: fp_round_def Let_def)
next
  case False
  define e where "e = max (ilog2 \<bar>x\<bar>) (- 126)"
  define k where "k = round_half_even (\<bar>x\<bar> / pow2 (e - 23))"
  have pos: "0 < \<bar>x\<bar>" using False by simp
  have m: "round_magnitude binary32 \<bar>x\<bar> = of_int k * pow2 (e - 23)"
    by (simp add: round_magnitude_def k_def e_def Let_def)
  have r: "fp_round binary32 z x = Fin (x < 0) (of_int k * pow2 (e - 23))"
    using False by (simp add: fp_round_def Let_def m)
  have small: "of_int k * pow2 (e - 23) < pow2 128" using False by (simp add: m)
  have "\<bar>x\<bar> < pow2 (e + 1)"
    using ilog2_bounds(2)[OF pos] pow2_mono[of "ilog2 \<bar>x\<bar> + 1" "e + 1"] by (simp add: e_def)
  also have "pow2 (e + 1) = of_int (2 ^ 24) * pow2 (e - 23)" using pow2_add[of 24 "e - 23"] by (simp add: pow2_def add.commute)
  finally have "\<bar>x\<bar> / pow2 (e - 23) \<le> of_int (2 ^ 24)" by (simp add: pos_divide_le_eq)
  then have k: "k \<le> 2 ^ 24" using round_half_even_mono[of "\<bar>x\<bar> / pow2 (e - 23)" "of_int (2 ^ 24)"]
    unfolding k_def round_half_even_int by simp
  have k0: "0 \<le> k"
    using round_half_even_mono[of "of_int 0" "\<bar>x\<bar> / pow2 (e - 23)"] unfolding k_def round_half_even_int by simp
  have normal: "2 ^ 23 \<le> k" if "- 126 \<le> ilog2 \<bar>x\<bar>"
  proof -
    have "of_int (2 ^ 23) * pow2 (e - 23) = pow2 e" using pow2_add[of 23 "e - 23"] by (simp add: pow2_def)
    also have "\<dots> \<le> \<bar>x\<bar>" using ilog2_bounds(1)[OF pos] that by (simp add: e_def)
    finally have "of_int (2 ^ 23) \<le> \<bar>x\<bar> / pow2 (e - 23)" by (simp add: pos_le_divide_eq)
    then show ?thesis using round_half_even_mono[of "of_int (2 ^ 23)" "\<bar>x\<bar> / pow2 (e - 23)"]
      unfolding k_def round_half_even_int by simp
  qed
  have e126: "- 126 \<le> e" by (simp add: e_def)
  consider (sub) "k < 2 ^ 23" | (norm) "2 ^ 23 \<le> k" "k < 2 ^ 24" | (carry) "k = 2 ^ 24" using k by linarith
  then show ?thesis
  proof cases
    case sub
    then have "e = - 126" using normal by (cases "- 126 \<le> ilog2 \<bar>x\<bar>") (auto simp: e_def)
    then show ?thesis using is_f32_pattern(1)[OF k0 sub] by (simp add: r)
  next
    case norm
    have "pow2 e = of_int (2 ^ 23) * pow2 (e - 23)" using pow2_add[of 23 "e - 23"] by (simp add: pow2_def)
    also have "\<dots> \<le> of_int k * pow2 (e - 23)" using norm(1) by (intro mult_right_mono) (simp_all only: of_int_le_iff pow2_simps)
    finally have "pow2 e < pow2 128" using small by linarith
    then have "e < 128" unfolding pow2_less_iff .
    then show ?thesis using is_f32_pattern(2)[of "k - 2 ^ 23" "e + 127" "x < 0"] norm e126 by (simp add: r)
  next
    case carry
    have "of_int k * pow2 (e - 23) = pow2 (e + 1)" using pow2_add[of 24 "e - 23"] by (simp add: carry pow2_def add.commute)
    then have "e + 1 < 128" and v: "of_int k * pow2 (e - 23) = of_int (2 ^ 23) * pow2 (e - 22)"
      using small pow2_add[of 23 "e - 22"] by (simp_all add: pow2_less_iff) (simp add: pow2_def add.commute)
    then show ?thesis using is_f32_pattern(2)[of 0 "e + 128" "x < 0"] e126 unfolding r v by simp
  qed
qed

lemma is_f32_ops [simp]: "is_f32 (f_add a b)" "is_f32 (f_sub a b)" "is_f32 (f_mul a b)" "is_f32 (f_div a b)" "is_f32 (f32_of q)"
proof -
  show add: "is_f32 (f_add a b)" for a b by (cases "(binary32, a, b)" rule: fp_add.cases) (simp_all del: fp_value.simps)
  show "is_f32 (f_sub a b)" unfolding fp_sub_def by (rule add)
  show "is_f32 (f_mul a b)" by (cases "(binary32, a, b)" rule: fp_mul.cases) (simp_all del: fp_value.simps)
  show "is_f32 (f_div a b)" by (cases "(binary32, a, b)" rule: fp_div.cases) (simp_all del: fp_value.simps)
  show "is_f32 (f32_of q)" by (simp add: fp_of_rat_def)
qed

end
