(* ===== verification/Float_Order.thy ===== *)
theory Float_Order
  imports Floating
begin

text \<open>
  Sums of floats, and the order: rounding preserves it, and so do the operations on numbers that are not negative, up
  to overflow.
\<close>

definition f_sum :: "f32 list \<Rightarrow> f32" where
  "f_sum xs = foldl f_add f_zero xs"

lemma round_magnitude_mono:
  assumes "0 < x" and "x \<le> y" and "0 < ff_precision F"
  shows "round_magnitude F x \<le> round_magnitude F y"
proof -
  let ?p = "int (ff_precision F)"
  define ex where "ex = max (ilog2 x) (ff_emin F)"
  define ey where "ey = max (ilog2 y) (ff_emin F)"
  have r: "round_magnitude F x = of_int (round_half_even (x / pow2 (ex - ?p + 1))) * pow2 (ex - ?p + 1)"
    "round_magnitude F y = of_int (round_half_even (y / pow2 (ey - ?p + 1))) * pow2 (ey - ?p + 1)"
    by (simp_all add: round_magnitude_def Let_def ex_def ey_def)
  have le: "ex \<le> ey" using ilog2_mono[OF assms(1,2)] by (auto simp: ex_def ey_def)
  show ?thesis
  proof (cases "ex = ey")
    case True
    have "round_half_even (x / pow2 (ey - ?p + 1)) \<le> round_half_even (y / pow2 (ey - ?p + 1))"
      using assms(2) by (intro round_half_even_mono divide_right_mono) simp_all
    then show ?thesis unfolding r True by (intro mult_right_mono) simp_all
  next
    case False
    have "x < pow2 (ex + 1)" using ilog2_bounds(2)[OF assms(1)] pow2_mono[of "ilog2 x + 1" "ex + 1"] by (simp add: ex_def)
    also have "pow2 (ex + 1) = of_int (2 ^ ff_precision F) * pow2 (ex - ?p + 1)"
      by (simp flip: pow2_nat pow2_add)
    finally have "round_half_even (x / pow2 (ex - ?p + 1)) \<le> round_half_even (of_int (2 ^ ff_precision F))"
      by (intro round_half_even_mono) (simp add: pos_divide_le_eq)
    then have "round_magnitude F x \<le> of_int (2 ^ ff_precision F) * pow2 (ex - ?p + 1)"
      unfolding r round_half_even_int by (intro mult_right_mono) (simp_all only: of_int_le_iff pow2_simps)
    also have "\<dots> = pow2 (ex + 1)" by (simp flip: pow2_nat pow2_add)
    also have "\<dots> \<le> pow2 ey" using False le by (intro pow2_mono) simp
    also have "pow2 ey = of_int (2 ^ (ff_precision F - 1)) * pow2 (ey - ?p + 1)"
      using assms(3) by (simp flip: pow2_nat pow2_add add: of_nat_diff)
    also have "\<dots> \<le> round_magnitude F y" unfolding r
    proof (rule mult_right_mono)
      have "ey = ilog2 y" using False le by (auto simp: ex_def ey_def)
      then have "of_int (2 ^ (ff_precision F - 1)) * pow2 (ey - ?p + 1) \<le> y"
        using ilog2_bounds(1)[of y] assms by (simp flip: pow2_nat pow2_add add: of_nat_diff)
      then have "round_half_even (of_int (2 ^ (ff_precision F - 1))) \<le> round_half_even (y / pow2 (ey - ?p + 1))"
        by (intro round_half_even_mono) (simp add: pos_le_divide_eq)
      then show "of_int (2 ^ (ff_precision F - 1)) \<le> (of_int (round_half_even (y / pow2 (ey - ?p + 1))) :: rat)"
        unfolding round_half_even_int by (simp only: of_int_le_iff)
    qed simp
    finally show ?thesis .
  qed
qed

lemma fp_round_mono:
  assumes "0 \<le> x" and "x \<le> y" and "0 < ff_precision F"
  shows "fp_le (fp_round F s x) (fp_round F t y)"
proof (cases "x = 0")
  case True
  then show ?thesis using assms(2) round_magnitude_nonneg[of y F] by (simp add: fp_round_def Let_def)
next
  case False
  then show ?thesis using round_magnitude_mono[of x y F] round_magnitude_nonneg[of x F] assms
    by (auto simp: fp_round_def Let_def)
qed

lemma fp_round_nonneg [simp]: "0 \<le> x \<Longrightarrow> fp_le f_zero (fp_round F s x)"
  using round_magnitude_nonneg[of x F] by (simp add: fp_round_def Let_def)

lemma fp_round_top [simp]: "fp_le (fp_round F s x) (Inf False)"
  by (simp add: fp_round_def Let_def)

text \<open>A number that is not negative is a magnitude or positive infinity.\<close>

lemma fp_nonneg_cases:
  assumes "fp_le f_zero x"
  obtains "x = Inf False" | s m where "x = Fin s m" "0 \<le> fp_value (Fin s m)"
  using assms by (cases x) (auto split: if_splits)

lemma fp_le_trans: "fp_le a b \<Longrightarrow> fp_le b c \<Longrightarrow> fp_le a c"
  by (cases a; cases b; cases c) (auto split: if_splits)

lemma fp_le_not_lt: "fp_le a b \<Longrightarrow> \<not> fp_lt b a"
  by (cases a; cases b) auto

lemma fp_not_lt_le: "a \<noteq> NaN \<Longrightarrow> b \<noteq> NaN \<Longrightarrow> \<not> fp_lt a b \<Longrightarrow> fp_le b a"
  by (cases a; cases b) auto

lemma fp_add_nonneg: "fp_le f_zero a \<Longrightarrow> fp_le f_zero b \<Longrightarrow> fp_le f_zero (fp_add F a b)"
  by (elim fp_nonneg_cases) simp_all

lemma fp_below_finite:
  assumes "fp_le f_zero b" and "fp_le b (Fin t k)"
  obtains s m where "b = Fin s m" "0 \<le> fp_value b" "fp_value b \<le> fp_value (Fin t k)"
  using assms by (cases b) (auto split: if_splits)

lemma fp_add_mono:
  assumes "fp_le f_zero a" and "fp_le f_zero b" and "fp_le a a'" and "fp_le b b'" and "0 < ff_precision F"
  shows "fp_le (fp_add F a b) (fp_add F a' b')"
proof -
  have n: "fp_le f_zero a'" "fp_le f_zero b'" using assms fp_le_trans by blast+
  show ?thesis
  proof (cases "a' = Inf False \<or> b' = Inf False")
    case True
    then have "fp_add F a' b' = Inf False" using n by (elim fp_nonneg_cases) simp_all
    moreover have "fp_le (fp_add F a b) (Inf False)" using assms(1,2) by (elim fp_nonneg_cases) simp_all
    ultimately show ?thesis by simp
  next
    case False
    then obtain s m t k where a': "a' = Fin s m" and b': "b' = Fin t k" using n by (elim fp_nonneg_cases) simp_all
    obtain s' m' where a: "a = Fin s' m'" "0 \<le> fp_value a" "fp_value a \<le> fp_value a'"
      using fp_below_finite[OF assms(1) assms(3)[unfolded a']] a' by metis
    obtain t' k' where b: "b = Fin t' k'" "0 \<le> fp_value b" "fp_value b \<le> fp_value b'"
      using fp_below_finite[OF assms(2) assms(4)[unfolded b']] b' by metis
    show ?thesis using assms(5) a b by (simp add: a' b' fp_round_mono add_mono del: fp_value.simps)
  qed
qed

text \<open>A finite number greater than zero.\<close>

fun fp_positive :: "fp \<Rightarrow> bool" where
  "fp_positive (Fin False m) \<longleftrightarrow> 0 < m"
| "fp_positive _ \<longleftrightarrow> False"

lemma fp_positiveD: "fp_positive w \<Longrightarrow> \<exists>m. w = Fin False m \<and> 0 < m"
  by (cases w rule: fp_positive.cases) simp_all

lemma fp_scale_nonneg: "fp_positive w \<Longrightarrow> fp_le f_zero b \<Longrightarrow> fp_le f_zero (fp_mul F w b)"
  by (drule fp_positiveD, elim fp_nonneg_cases) auto

lemma fp_scale_mono:
  assumes "fp_positive w" and "fp_le f_zero b" and "fp_le b b'" and "0 < ff_precision F"
  shows "fp_le (fp_mul F w b) (fp_mul F w b')"
proof -
  obtain m where w: "w = Fin False m" "0 < m" using fp_positiveD[OF assms(1)] by blast
  have n: "fp_le f_zero b'" using assms(2,3) fp_le_trans by blast
  show ?thesis
  proof (cases "b' = Inf False")
    case True
    moreover have "fp_le (fp_mul F w b) (Inf False)" using assms(2) w by (elim fp_nonneg_cases) simp_all
    ultimately show ?thesis using w by simp
  next
    case False
    then obtain t k where b': "b' = Fin t k" using n by (elim fp_nonneg_cases) simp_all
    then obtain s m where b: "b = Fin s m" "0 \<le> fp_value b" "fp_value b \<le> fp_value b'"
      using fp_below_finite[OF assms(2) assms(3)[unfolded b']] b' by metis
    then show ?thesis using assms(4) w
      by (simp add: b' fp_round_mono mult_left_mono)
  qed
qed

lemma fp_div_nonneg:
  assumes "fp_is_finite a" and "fp_le f_zero a" and "fp_is_finite s" and "fp_lt f_zero s"
  shows "fp_le f_zero (fp_div F a s)"
proof -
  obtain p m q k where v: "a = Fin p m" "s = Fin q k" using assms(1,3) by (cases a; cases s) auto
  then have "0 \<le> fp_value (Fin p m)" "0 < fp_value (Fin q k)" using assms(2,4) by simp_all
  then have "0 \<le> fp_value (Fin p m) / fp_value (Fin q k)" "k \<noteq> 0" by (simp, auto split: if_splits)
  then show ?thesis by (simp add: v del: fp_value.simps)
qed

lemma fp_div_mono:
  assumes "fp_is_finite b" and "fp_le f_zero a" and "fp_le a b" and "fp_is_finite s" and "fp_lt f_zero s" and "0 < ff_precision F"
  shows "fp_le (fp_div F a s) (fp_div F b s)"
proof -
  obtain p m q k where v: "b = Fin p m" "s = Fin q k" using assms(1,4) by (cases b; cases s) auto
  obtain p' m' where a: "a = Fin p' m'" "0 \<le> fp_value a" "fp_value a \<le> fp_value b"
    using fp_below_finite[OF assms(2) assms(3)[unfolded v]] v by metis
  have "0 < fp_value (Fin q k)" using assms(5) by (simp add: v)
  then have "0 \<le> fp_value a / fp_value s" "fp_value a / fp_value s \<le> fp_value b / fp_value s" "k \<noteq> 0"
    using a by (simp add: v, simp add: v divide_right_mono, auto split: if_splits)
  then show ?thesis using assms(6) by (simp add: v a(1) fp_round_mono del: fp_value.simps)
qed

lemma fp_zero_le: "fp_le f_zero x \<Longrightarrow> fp_le (Fin s 0) x"
  by (cases x) auto

text \<open>A larger divisor gives no larger quotient.\<close>

lemma fp_div_antimono:
  assumes "fp_is_finite g" and "fp_le f_zero g" and "fp_lt f_zero d" and "fp_le d d'" and "0 < ff_precision F"
  shows "fp_le (fp_div F g d') (fp_div F g d)"
proof -
  obtain p m where g: "g = Fin p m" "0 \<le> fp_value g" using assms(1,2) by (cases g) auto
  show ?thesis
  proof (cases d')
    case (Fin t k')
    obtain s k where d: "d = Fin s k" "0 < fp_value d" "fp_value d \<le> fp_value d'"
      using assms(3,4) by (cases d) (auto simp: Fin split: if_splits)
    then have nz: "k \<noteq> 0" "k' \<noteq> 0" by (auto simp: Fin split: if_splits)
    have "0 \<le> fp_value g / fp_value d'" "fp_value g / fp_value d' \<le> fp_value g / fp_value d"
      using g(2) d(2,3) by (simp_all add: divide_left_mono)
    then show ?thesis using assms(5) nz by (simp add: g(1) d(1) Fin fp_round_mono del: fp_value.simps)
  next
    case (Inf t)
    have "fp_le f_zero (fp_div F g d)"
    proof (cases d)
      case (Fin s k)
      then show ?thesis using fp_div_nonneg[OF assms(1,2) _ assms(3)] by simp
    qed (use assms(3) g in auto)
    then show ?thesis by (simp add: g(1) Inf fp_zero_le)
  qed (use assms(4) in \<open>cases d; simp\<close>)
qed

end
