(* ===== verification/Sort_By.thy ===== *)
theory Sort_By
  imports "HOL-Library.Multiset"
begin

text \<open>
  \<open>slice::sort_by\<close>, the stable sort by a comparison: \<open>le x y\<close> says that \<open>x\<close> is not greater than \<open>y\<close>. The
  result is that of insertion sort. For a comparison that is not an order the library leaves the result
  open; the laws assume an order on the elements.
\<close>

fun insert_by :: "('a \<Rightarrow> 'a \<Rightarrow> bool) \<Rightarrow> 'a \<Rightarrow> 'a list \<Rightarrow> 'a list" where
  "insert_by le x [] = [x]"
| "insert_by le x (y # ys) = (if le x y then x # y # ys else y # insert_by le x ys)"

definition sort_by :: "('a \<Rightarrow> 'a \<Rightarrow> bool) \<Rightarrow> 'a list \<Rightarrow> 'a list" where
  "sort_by le xs = foldr (insert_by le) xs []"

lemma sort_by_simps [simp]: "sort_by le [] = []" "sort_by le (x # xs) = insert_by le x (sort_by le xs)"
  by (simp_all add: sort_by_def)

lemma mset_insert_by [simp]: "mset (insert_by le x ys) = add_mset x (mset ys)"
  by (induction ys) simp_all

lemma mset_sort_by [simp]: "mset (sort_by le xs) = mset xs"
  by (induction xs) simp_all

lemma set_sort_by [simp]: "set (sort_by le xs) = set xs"
  by (metis mset_sort_by set_mset_mset)

lemma length_sort_by [simp]: "length (sort_by le xs) = length xs"
  by (metis mset_sort_by size_mset)

lemma distinct_sort_by [simp]: "distinct (sort_by le xs) = distinct xs"
  by (metis mset_eq_imp_distinct_iff mset_sort_by)

lemma distinct_map_sort_by [simp]: "distinct (map f (sort_by le xs)) = distinct (map f xs)"
  by (metis mset_eq_imp_distinct_iff mset_map mset_sort_by)

definition order_on :: "('a \<Rightarrow> 'a \<Rightarrow> bool) \<Rightarrow> 'a set \<Rightarrow> bool" where
  "order_on le A \<longleftrightarrow> (\<forall>x\<in>A. \<forall>y\<in>A. le x y \<or> le y x) \<and> (\<forall>x\<in>A. \<forall>y\<in>A. \<forall>z\<in>A. le x y \<longrightarrow> le y z \<longrightarrow> le x z)"

lemma order_on_subset: "order_on le A \<Longrightarrow> B \<subseteq> A \<Longrightarrow> order_on le B"
  unfolding order_on_def by blast

lemma sorted_insert_by:
  assumes "order_on le (insert x (set ys))" and "sorted_wrt le ys"
  shows "sorted_wrt le (insert_by le x ys)"
  using assms
proof (induction ys)
  case (Cons y ys)
  have set: "set (insert_by le x ys) = insert x (set ys)" by (metis mset_insert_by set_mset_add_mset_insert set_mset_mset)
  have "order_on le (insert x (set ys))" using Cons.prems(1) by (rule order_on_subset) auto
  then have "sorted_wrt le (insert_by le x ys)" using Cons.IH Cons.prems(2) by simp
  then show ?case
  proof (cases "le x y")
    case True
    have "le x z" if "z \<in> set ys" for z
    proof -
      have "le y z" using Cons.prems(2) that by simp
      then show ?thesis using Cons.prems(1) True that unfolding order_on_def by (meson insertI1 insertI2 list.set_intros)
    qed
    then show ?thesis using True Cons.prems(2) by simp
  next
    case False
    then have "le y x" using Cons.prems(1) unfolding order_on_def by (meson insertI1 insertI2 list.set_intros(1))
    then show ?thesis using False Cons.prems(2) \<open>sorted_wrt le (insert_by le x ys)\<close> by (simp add: set)
  qed
qed simp

lemma sorted_sort_by: "order_on le (set xs) \<Longrightarrow> sorted_wrt le (sort_by le xs)"
proof (induction xs)
  case (Cons x xs)
  then have "sorted_wrt le (sort_by le xs)" using order_on_subset[of le "set (x # xs)" "set xs"] by auto
  then show ?case using Cons.prems by (simp add: sorted_insert_by)
qed simp

text \<open>What a sorted list keeps at the front is not greater than what it drops.\<close>

lemma sorted_take_drop:
  assumes "sorted_wrt le xs" and "x \<in> set (take k xs)" and "y \<in> set (drop k xs)"
  shows "le x y"
  using assms sorted_wrt_append[of le "take k xs" "drop k xs"] by simp

end
