(* ===== verification/Reasoning_Codec.thy ===== *)
theory Reasoning_Codec
  imports Reasoning_Envelope Float_Bits Float_Order Sort_By
begin

text \<open>
  \<open>latentmesh-reasoning/src/compat.rs\<close>: the sparse codec of a reasoning delta, which keeps the \<open>k\<close> largest
  components in 8 bits. For a delta with a NaN, which has no place in the order of magnitudes, the sort of
  the library leaves the selection open and may panic; the model then takes the order of insertion sort,
  and the properties assume that there is none.
\<close>

definition f32_to_be_bytes :: "f32 \<Rightarrow> bytes" where
  "f32_to_be_bytes x = to_be_bytes (f32_bits x)"

definition f32_from_be_bytes :: "bytes \<Rightarrow> f32" where
  "f32_from_be_bytes bs = f32_from_bits (from_be_bytes bs)"

section \<open>The encoder\<close>

definition sparse_scale :: "f32 list \<Rightarrow> f32" where
  "sparse_scale delta =
     (let max_abs = foldl (\<lambda>acc v. fp_max acc (fp_abs v)) f_zero delta in
      if fp_lt f_zero max_abs then f_div max_abs (f32_of 127) else f_one)"

text \<open>The comparison of the ranking: descending magnitude, then ascending index.\<close>

definition rank_before :: "nat \<times> f32 \<Rightarrow> nat \<times> f32 \<Rightarrow> bool" where
  "rank_before a b \<longleftrightarrow>
     fp_lt (fp_abs (snd b)) (fp_abs (snd a)) \<or> (\<not> fp_lt (fp_abs (snd a)) (fp_abs (snd b)) \<and> fst a \<le> fst b)"

definition top_k :: "nat \<Rightarrow> f32 list \<Rightarrow> (nat \<times> f32) list" where
  "top_k k delta =
     sort_by (\<lambda>a b. fst a \<le> fst b) (take (min k (length delta)) (sort_by rank_before (enumerate 0 delta)))"

definition sparse_quantize :: "f32 \<Rightarrow> f32 \<Rightarrow> i8" where
  "sparse_quantize scale v =
     word_of_int (fp_to_int (- 128) 127 (fp_clamp (fp_round_away (f_div v scale)) (f32_of (- 127)) (f32_of 127)))"

definition sparse_encode :: "nat \<Rightarrow> f32 list \<Rightarrow> compat_error + bytes" where
  "sparse_encode k delta =
     (if delta = [] then Inl EmptyInput
      else if length delta > 2 ^ 32 - 1 then Inl TooManyComponents
      else let scale = sparse_scale delta; ranked = top_k k delta in
        Inr (to_be_bytes (word_of_nat (length ranked) :: u16) @ to_be_bytes (word_of_nat (length delta) :: u32)
          @ f32_to_be_bytes scale
          @ concat (map (\<lambda>(i, v). to_be_bytes (word_of_nat i :: u32) @ [sparse_quantize scale v]) ranked)))"

section \<open>The decoder\<close>

text \<open>The loop over the pairs; the bytes left are those after \<open>cursor\<close>.\<close>

fun sparse_fill :: "f32 \<Rightarrow> nat \<Rightarrow> bytes \<Rightarrow> f32 list \<Rightarrow> compat_error + f32 list" where
  "sparse_fill scale 0 rest out = Inr out"
| "sparse_fill scale (Suc n) rest out =
     (let index = unat (from_be_bytes (take 4 rest) :: u32); raw = sint (rest ! 4 :: i8) in
      if index \<ge> length out then Inl LengthMismatch
      else sparse_fill scale n (drop 5 rest) (out[index := f_mul (f32_of (of_int raw)) scale]))"

definition sparse_decode :: "bytes \<Rightarrow> nat \<Rightarrow> compat_error + f32 list" where
  "sparse_decode encoded output_len =
     (if length encoded < 10 then Inl TruncatedPayload
      else let k = unat (from_be_bytes (slice 0 2 encoded) :: u16);
               declared_len = unat (from_be_bytes (slice 2 6 encoded) :: u32) in
        if declared_len \<noteq> output_len then Inl LengthMismatch
        else if length encoded \<noteq> 10 + k * 5 then Inl TruncatedPayload
        else sparse_fill (f32_from_be_bytes (slice 6 10 encoded)) k (drop 10 encoded) (replicate output_len f_zero))"

text \<open>\<open>powi(2)\<close> is a product; the square root is a parameter.\<close>

definition reconstruction_error :: "libm \<Rightarrow> f32 list \<Rightarrow> f32 list \<Rightarrow> f32" where
  "reconstruction_error L original reconstructed =
     (let sum_sq_diff = f_sum (map2 (\<lambda>a b. f_mul (f_sub a b) (f_sub a b)) original reconstructed);
          sum_sq_orig = f_sum (map (\<lambda>v. f_mul v v) original)
      in f_div (sqrtf L sum_sq_diff) (fp_max (sqrtf L sum_sq_orig) (f32_of (1 / 100000000))))"

section \<open>The selection\<close>

lemma rank_order: "NaN \<notin> set delta \<Longrightarrow> order_on rank_before (set (enumerate 0 delta))"
proof -
  assume nan: "NaN \<notin> set delta"
  have fin: "fp_abs (snd p) \<noteq> NaN" if "p \<in> set (enumerate 0 delta)" for p
  proof -
    have "snd p \<in> set delta" using that by (metis image_eqI map_snd_enumerate set_map)
    then have "snd p \<noteq> NaN" using nan by metis
    then show ?thesis by (cases "snd p") simp_all
  qed
  have lt: "fp_lt a b \<or> fp_lt b a \<or> (\<not> fp_lt a b \<and> \<not> fp_lt b a)" for a b by blast
  have asym: "fp_lt a b \<Longrightarrow> \<not> fp_lt b a" for a b by (cases a; cases b; auto)
  have trans: "\<not> fp_lt a b \<Longrightarrow> \<not> fp_lt b c \<Longrightarrow> \<not> fp_lt a c" if "a \<noteq> NaN" "b \<noteq> NaN" "c \<noteq> NaN" for a b c
    using that by (cases a; cases b; cases c; auto)
  show ?thesis
    unfolding order_on_def rank_before_def
    by (intro conjI ballI impI; use asym trans fin in \<open>smt (verit, ccfv_SIG) nle_le order_trans\<close>)
qed

lemma top_k_facts:
  assumes "NaN \<notin> set delta"
  shows "length (top_k k delta) = min k (length delta)" and "distinct (map fst (top_k k delta))"
    and "set (top_k k delta) \<subseteq> set (enumerate 0 delta)"
    and "a \<in> set (top_k k delta) \<Longrightarrow> b \<in> set (enumerate 0 delta) \<Longrightarrow> b \<notin> set (top_k k delta) \<Longrightarrow>
      \<not> fp_lt (fp_abs (snd a)) (fp_abs (snd b))"
proof -
  let ?s = "sort_by rank_before (enumerate 0 delta)" and ?k = "min k (length delta)"
  show "length (top_k k delta) = min k (length delta)" by (simp add: top_k_def)
  have "distinct (map fst ?s)" by simp
  then have "distinct (map fst (take ?k ?s))" by (simp add: take_map flip: take_map)
  then show "distinct (map fst (top_k k delta))" by (simp add: top_k_def)
  show "set (top_k k delta) \<subseteq> set (enumerate 0 delta)"
    using set_take_subset[of ?k ?s] by (simp add: top_k_def)
  assume a: "a \<in> set (top_k k delta)" and b: "b \<in> set (enumerate 0 delta)" "b \<notin> set (top_k k delta)"
  have "a \<in> set (take ?k ?s)" using a by (simp add: top_k_def)
  moreover have "b \<in> set (drop ?k ?s)"
  proof -
    have "b \<in> set (take ?k ?s @ drop ?k ?s)" using b(1) by (simp only: append_take_drop_id set_sort_by)
    moreover have "b \<notin> set (take ?k ?s)" using b(2) by (simp add: top_k_def)
    ultimately show ?thesis by (simp only: set_append Un_iff) blast
  qed
  ultimately have "rank_before a b"
    using sorted_take_drop[OF sorted_sort_by[OF rank_order[OF assms]]] by blast
  then show "\<not> fp_lt (fp_abs (snd a)) (fp_abs (snd b))"
    unfolding rank_before_def by (cases "fp_abs (snd a)"; cases "fp_abs (snd b)") auto
qed

section \<open>Decoding what was encoded\<close>

definition sparse_pairs :: "f32 \<Rightarrow> (nat \<times> f32) list \<Rightarrow> bytes" where
  "sparse_pairs scale ps = concat (map (\<lambda>(i, v). to_be_bytes (word_of_nat i :: u32) @ [sparse_quantize scale v]) ps)"

definition dequantized :: "f32 \<Rightarrow> f32 \<Rightarrow> f32" where
  "dequantized scale v = f_mul (f32_of (of_int (sint (sparse_quantize scale v)))) scale"

lemma fill_pairs:
  assumes "\<And>p. p \<in> set ps \<Longrightarrow> fst p < length out" and "length out < 2 ^ 32"
  shows "sparse_fill scale (length ps) (sparse_pairs scale ps) out =
    Inr (foldl (\<lambda>out (i, v). out[i := dequantized scale v]) out ps)"
  using assms
proof (induction ps arbitrary: out)
  case (Cons p ps)
  obtain i v where p: "p = (i, v)" by fastforce
  let ?rest = "sparse_pairs scale (p # ps)"
  have rest: "?rest = to_be_bytes (word_of_nat i :: u32) @ sparse_quantize scale v # sparse_pairs scale ps"
    by (simp add: sparse_pairs_def p)
  have i: "i < length out" using Cons.prems(1)[of p] p by simp
  then have "i < 2 ^ 32" using Cons.prems(2) by linarith
  then have idx: "unat (word_of_nat i :: u32) = i" by (simp add: unsigned_of_nat take_bit_nat_eq_self)
  have "length (to_be_bytes (word_of_nat i :: u32)) = 4" by simp
  then have t: "take 4 ?rest = to_be_bytes (word_of_nat i :: u32)" "?rest ! 4 = sparse_quantize scale v"
    "drop 5 ?rest = sparse_pairs scale ps"
    unfolding rest by (simp_all add: nth_append drop_Cons')
  have "sparse_fill scale (length (p # ps)) ?rest out = sparse_fill scale (length ps) (sparse_pairs scale ps) (out[i := dequantized scale v])"
    unfolding list.size(4) add_0_right One_nat_def add_Suc_right sparse_fill.simps t from_be_u32 idx Let_def
    using i by (simp add: dequantized_def)
  also have "\<dots> = Inr (foldl (\<lambda>out (i, v). out[i := dequantized scale v]) out (p # ps))"
    using Cons.prems by (subst Cons.IH) (simp_all add: p)
  finally show ?case .
qed (simp add: sparse_pairs_def)

lemma length_foldl_updates [simp]: "length (foldl (\<lambda>out (i, v). out[i := g v]) out ps) = length out"
  by (induction ps arbitrary: out) (auto simp: case_prod_beta)

lemma foldl_updates:
  assumes "distinct (map fst ps)" and "i < length out"
  shows "foldl (\<lambda>out (i, v). out[i := g v]) out ps ! i = (case map_of ps i of None \<Rightarrow> out ! i | Some v \<Rightarrow> g v)"
  using assms
proof (induction ps arbitrary: out)
  case (Cons p ps)
  obtain j w where p: "p = (j, w)" by fastforce
  then have "map_of ps j = None" using Cons.prems(1) by (simp add: map_of_eq_None_iff)
  then show ?case using Cons.IH[of "out[j := g w]"] Cons.prems by (cases "i = j") (simp_all add: p split: option.split)
qed simp

lemma length_sparse_pairs: "length (sparse_pairs scale ps) = 5 * length ps"
  by (induction ps) (simp_all add: sparse_pairs_def case_prod_beta)

lemma sparse_encode_Inr:
  assumes "delta \<noteq> []" and "length delta < 2 ^ 32"
  shows "sparse_encode k delta = Inr (to_be_bytes (word_of_nat (length (top_k k delta)) :: u16)
    @ to_be_bytes (word_of_nat (length delta) :: u32) @ f32_to_be_bytes (sparse_scale delta)
    @ sparse_pairs (sparse_scale delta) (top_k k delta))"
  using assms by (simp add: sparse_encode_def sparse_pairs_def Let_def)

lemma is_f32_sparse_scale: "is_f32 (sparse_scale delta)"
proof -
  have "is_f32 f_one" using is_f32_ops(5)[of 1] by (simp only: f32_ints)
  then show ?thesis by (simp add: sparse_scale_def Let_def)
qed

lemma sparse_decode_header:
  assumes "n < 2 ^ 32" and "is_f32 scale"
  shows "sparse_decode (to_be_bytes (k :: u16) @ to_be_bytes (word_of_nat n :: u32) @ f32_to_be_bytes scale @ rest) n =
    (if length rest \<noteq> unat k * 5 then Inl TruncatedPayload else sparse_fill scale (unat k) rest (replicate n f_zero))"
proof -
  have n: "unat (word_of_nat n :: u32) = n" using assms(1) by (simp add: unsigned_of_nat take_bit_nat_eq_self)
  have s: "f32_from_be_bytes (f32_to_be_bytes scale) = scale" "length (f32_to_be_bytes scale) = 4"
    using assms(2) by (simp_all add: f32_from_be_bytes_def f32_to_be_bytes_def from_bits_of_bits)
  let ?bs = "to_be_bytes k @ to_be_bytes (word_of_nat n :: u32) @ f32_to_be_bytes scale @ rest"
  have sl: "slice 0 2 ?bs = to_be_bytes k" "slice 2 6 ?bs = to_be_bytes (word_of_nat n :: u32)"
    "slice 6 10 ?bs = f32_to_be_bytes scale" "drop 10 ?bs = rest" "length ?bs = 10 + length rest"
    by (simp_all add: slice_def s(2))
  show ?thesis unfolding sparse_decode_def sl Let_def from_be_u16 from_be_u32 n s(1) by simp
qed

section \<open>Properties\<close>

text \<open>What the sparse codec keeps: without a NaN and with at most 65535 kept components, decoding the encoded
  delta gives a vector of the same length; exactly \<open>k\<close> components, or all of a shorter vector, are kept, each
  as its quantized value times the scale, the others are zero, and no dropped component is larger in
  magnitude than a kept one.\<close>

theorem sparse_codec_keeps_largest:
  assumes "NaN \<notin> set delta" and "sparse_encode k delta = Inr bs" and "min k (length delta) \<le> 65535"
  shows "\<exists>out kept. sparse_decode bs (length delta) = Inr out \<and> length out = length delta \<and>
    kept \<subseteq> {..<length delta} \<and> card kept = min k (length delta) \<and>
    out = map (\<lambda>i. if i \<in> kept then dequantized (sparse_scale delta) (delta ! i) else f_zero) [0..<length delta] \<and>
    (\<forall>i\<in>kept. \<forall>j\<in>{..<length delta} - kept. \<not> fp_lt (fp_abs (delta ! i)) (fp_abs (delta ! j)))"
proof -
  let ?n = "length delta" and ?scale = "sparse_scale delta" and ?ps = "top_k k delta"
  note facts = top_k_facts[OF assms(1), where k = k]
  have n: "delta \<noteq> []" "?n < 2 ^ 32" using assms(2) by (auto simp: sparse_encode_def split: if_splits)
  have bs: "bs = to_be_bytes (word_of_nat (length ?ps) :: u16) @ to_be_bytes (word_of_nat ?n :: u32) @ f32_to_be_bytes ?scale
      @ sparse_pairs ?scale ?ps"
    using sparse_encode_Inr[OF n] assms(2) by simp
  have k: "unat (word_of_nat (length ?ps) :: u16) = length ?ps" using assms(3) facts(1) by (simp add: unat_of_nat)
  have elems: "fst p < ?n \<and> delta ! fst p = snd p" if "p \<in> set ?ps" for p
    using that facts(3) by (auto simp: set_conv_nth nth_enumerate_eq)
  let ?out = "foldl (\<lambda>out (i, v). out[i := dequantized ?scale v]) (replicate ?n f_zero) ?ps"
  have dec: "sparse_decode bs ?n = Inr ?out"
    unfolding bs sparse_decode_header[OF n(2) is_f32_sparse_scale] k
    using fill_pairs[of ?ps "replicate ?n f_zero" ?scale] elems n(2) by (simp add: length_sparse_pairs)
  let ?kept = "fst ` set ?ps"
  have card: "card ?kept = min k ?n" using facts(1,2) by (metis distinct_card length_map list.set_map)
  have out: "?out = map (\<lambda>i. if i \<in> ?kept then dequantized ?scale (delta ! i) else f_zero) [0..<?n]"
  proof (rule nth_equalityI)
    fix i assume "i < length ?out"
    then have i: "i < ?n" by simp
    have "?out ! i = (case map_of ?ps i of None \<Rightarrow> replicate ?n f_zero ! i | Some v \<Rightarrow> dequantized ?scale v)"
      using i by (intro foldl_updates[OF facts(2)]) simp
    also have "\<dots> = (if i \<in> ?kept then dequantized ?scale (delta ! i) else f_zero)"
    proof (cases "map_of ?ps i")
      case None
      then have "i \<notin> ?kept" unfolding map_of_eq_None_iff .
      then show ?thesis using i None by simp
    next
      case (Some v)
      then have "(i, v) \<in> set ?ps" by (rule map_of_SomeD)
      then show ?thesis using Some elems[of "(i, v)"] by force
    qed
    finally show "?out ! i = map (\<lambda>i. if i \<in> ?kept then dequantized ?scale (delta ! i) else f_zero) [0..<?n] ! i"
      using i by simp
  qed simp
  have "\<not> fp_lt (fp_abs (delta ! i)) (fp_abs (delta ! j))" if i: "i \<in> ?kept" and j: "j \<in> {..<?n} - ?kept" for i j
  proof -
    obtain v where v: "(i, v) \<in> set ?ps" using i by auto
    have "(j, delta ! j) \<in> set (enumerate 0 delta)" using j by (auto simp: in_set_enumerate_eq)
    moreover have "(j, delta ! j) \<notin> set ?ps" using j by force
    ultimately have "\<not> fp_lt (fp_abs v) (fp_abs (delta ! j))" using facts(4)[OF v] by fastforce
    then show ?thesis using elems[OF v] by simp
  qed
  then show ?thesis
    using dec card out elems by (intro exI[of _ ?out] exI[of _ ?kept]) auto
qed

theorem sparse_codec_keeps_largest_witness:
  "\<exists>bs out. sparse_encode 1 [Fin False 1, Fin True 2, f_zero] = Inr bs \<and> sparse_decode bs 3 = Inr out \<and> length out = 3"
proof -
  let ?d = "[Fin False 1, Fin True 2, f_zero]"
  obtain bs where enc: "sparse_encode 1 ?d = Inr bs" using sparse_encode_Inr[of ?d 1] by simp
  have "\<exists>out. sparse_decode bs (length ?d) = Inr out \<and> length out = length ?d"
    using sparse_codec_keeps_largest[OF _ enc] by fastforce
  then show ?thesis using enc by (auto simp: numeral_3_eq_3)
qed

text \<open>The count of the kept components wraps: with more than 65535 of them, which \<open>encode\<close> accepts, the
  16-bit count on the wire is too small, and the decoder refuses what the encoder produced as truncated.\<close>

theorem sparse_count_wraps:
  assumes "NaN \<notin> set delta" and "65535 < min k (length delta)" and "length delta < 2 ^ 32"
  shows "\<exists>bs. sparse_encode k delta = Inr bs \<and> sparse_decode bs (length delta) = Inl TruncatedPayload"
proof -
  let ?ps = "top_k k delta"
  have len: "length ?ps = min k (length delta)" by (rule top_k_facts(1)[OF assms(1)])
  have "delta \<noteq> []" using assms(2) by auto
  note enc = sparse_encode_Inr[OF this assms(3), of k]
  have "unat (word_of_nat (length ?ps) :: u16) < length ?ps" using assms(2) len by (simp add: unat_of_nat) linarith
  then show ?thesis unfolding enc using sparse_decode_header[OF assms(3) is_f32_sparse_scale]
    by (simp add: length_sparse_pairs)
qed

theorem sparse_count_wraps_witness:
  "\<exists>bs. sparse_encode 70000 (replicate 70000 f_one) = Inr bs \<and> sparse_decode bs 70000 = Inl TruncatedPayload"
  using sparse_count_wraps[of "replicate 70000 f_one" 70000] by simp

end
