(* ===== verification/Reasoning_Budget.thy ===== *)
theory Reasoning_Budget
  imports Fixed_Point Float_Order
begin

text \<open>
  \<open>latentmesh-reasoning/src\<close>: \<open>budget.rs\<close>, the routing of a compute budget and the stop rules of the
  iteration, and \<open>workspace.rs\<close>, the iterated latent workspace. Square roots are a parameter.
\<close>

section \<open>The routing of a budget\<close>

definition clamp01 :: "f32 \<Rightarrow> f32" where
  "clamp01 x = fp_clamp x f_zero f_one"

text \<open>\<open>None\<close> is the overflow of the addition, a panic in a build that checks it.\<close>

definition scale_u32 :: "u32 \<Rightarrow> u32 \<Rightarrow> f32 \<Rightarrow> u32 option" where
  "scale_u32 lo hi t =
     (if hi \<le> lo then Some lo
      else let steps = fp_to_int 0 (2 ^ 32 - 1) (fp_round_away (f_mul (f32_of (of_int (uint (hi - lo)))) (clamp01 t)))
        in if uint lo + steps < 2 ^ 32 then Some (lo + word_of_int steps) else None)"

definition scale_f32 :: "f32 \<Rightarrow> f32 \<Rightarrow> f32 \<Rightarrow> f32" where
  "scale_f32 lo hi t = f_add lo (f_mul (f_sub hi lo) (clamp01 t))"

record difficulty_signals =
  ds_uncertainty :: f32
  ds_structural_difficulty :: f32
  ds_novelty :: f32
  ds_historical_failure_rate :: f32
  ds_risk :: f32
  ds_latency_pressure :: f32
  ds_energy_pressure :: f32

record budget_weights =
  bw_uncertainty :: f32
  bw_structural_difficulty :: f32
  bw_novelty :: f32
  bw_historical_failure_rate :: f32
  bw_risk :: f32
  bw_latency_pressure :: f32
  bw_energy_pressure :: f32

definition weights_default :: budget_weights where
  "weights_default = \<lparr> bw_uncertainty = f32_of (25 / 100), bw_structural_difficulty = f32_of (25 / 100),
     bw_novelty = f32_of (15 / 100), bw_historical_failure_rate = f32_of (20 / 100), bw_risk = f32_of (15 / 100),
     bw_latency_pressure = f32_of (15 / 100), bw_energy_pressure = f32_of (10 / 100) \<rparr>"

datatype risk_class = Routine | Elevated | SafetyCritical

definition protects_verification_floor :: "risk_class \<Rightarrow> bool" where
  "protects_verification_floor c \<longleftrightarrow> c = SafetyCritical"

record controller_config =
  cc_min_iterations :: u32
  cc_max_iterations :: u32
  cc_min_memory_depth :: u32
  cc_max_memory_depth :: u32
  cc_min_latent_width :: u32
  cc_max_latent_width :: u32
  cc_min_verification_threshold :: f32
  cc_max_verification_threshold :: f32
  cc_safety_critical_iteration_floor :: u32
  cc_safety_critical_verification_floor :: f32
  cc_convergence_epsilon :: f32
  cc_latency_budget_ceiling :: f32
  cc_risk_ceiling_routine :: f32
  cc_risk_ceiling_elevated :: f32
  cc_risk_ceiling_safety_critical :: f32
  cc_weights :: budget_weights

definition controller_default :: controller_config where
  "controller_default = \<lparr> cc_min_iterations = 1, cc_max_iterations = 8, cc_min_memory_depth = 1,
     cc_max_memory_depth = 4, cc_min_latent_width = 64, cc_max_latent_width = 512,
     cc_min_verification_threshold = f32_of (5 / 10), cc_max_verification_threshold = f32_of (9 / 10),
     cc_safety_critical_iteration_floor = 4, cc_safety_critical_verification_floor = f32_of (85 / 100),
     cc_convergence_epsilon = f32_of (1 / 100), cc_latency_budget_ceiling = f32_of 1,
     cc_risk_ceiling_routine = f32_of (5 / 10), cc_risk_ceiling_elevated = f32_of (3 / 10),
     cc_risk_ceiling_safety_critical = f32_of (1 / 10), cc_weights = weights_default \<rparr>"

record reasoning_budget =
  rb_iterations :: u32
  rb_memory_depth :: u32
  rb_latent_width :: u32
  rb_verification_threshold :: f32

datatype budget_tier = LowTier | MediumTier | HighTier

definition tier_from_score :: "f32 \<Rightarrow> budget_tier" where
  "tier_from_score score =
     (let s = clamp01 score in
      if fp_lt s (f_div f_one (f32_of 3)) then LowTier
      else if fp_lt s (f_div (f32_of 2) (f32_of 3)) then MediumTier
      else HighTier)"

record routing_decision =
  rd_budget :: reasoning_budget
  rd_tier :: budget_tier
  rd_score :: f32

definition budget_score :: "controller_config \<Rightarrow> difficulty_signals \<Rightarrow> risk_class \<Rightarrow> f32" where
  "budget_score cfg signals risk_class =
     (let w = cc_weights cfg;
          (latency_term, energy_term) =
            (if protects_verification_floor risk_class then (f_zero, f_zero)
             else (f_mul (bw_latency_pressure w) (clamp01 (ds_latency_pressure signals)),
                   f_mul (bw_energy_pressure w) (clamp01 (ds_energy_pressure signals))));
          a = f_mul (bw_uncertainty w) (clamp01 (ds_uncertainty signals));
          b = f_add a (f_mul (bw_structural_difficulty w) (clamp01 (ds_structural_difficulty signals)));
          c = f_add b (f_mul (bw_novelty w) (clamp01 (ds_novelty signals)));
          d = f_add c (f_mul (bw_risk w) (clamp01 (ds_risk signals)));
          e = f_add d (f_mul (bw_historical_failure_rate w) (clamp01 (ds_historical_failure_rate signals)))
      in clamp01 (f_sub (f_sub e latency_term) energy_term))"

definition route_budget :: "controller_config \<Rightarrow> difficulty_signals \<Rightarrow> risk_class \<Rightarrow> routing_decision option" where
  "route_budget cfg signals risk_class =
     (let protected = protects_verification_floor risk_class; score = budget_score cfg signals risk_class;
          threshold = scale_f32 (cc_min_verification_threshold cfg) (cc_max_verification_threshold cfg) score
      in case (scale_u32 (cc_min_iterations cfg) (cc_max_iterations cfg) score,
               scale_u32 (cc_min_memory_depth cfg) (cc_max_memory_depth cfg) score,
               scale_u32 (cc_min_latent_width cfg) (cc_max_latent_width cfg) score) of
           (Some iterations, Some memory_depth, Some latent_width) \<Rightarrow>
             Some \<lparr> rd_budget = \<lparr>
                 rb_iterations = (if protected then max iterations (cc_safety_critical_iteration_floor cfg) else iterations),
                 rb_memory_depth = memory_depth, rb_latent_width = latent_width,
                 rb_verification_threshold =
                   (if protected then fp_max threshold (cc_safety_critical_verification_floor cfg) else threshold) \<rparr>,
               rd_tier = tier_from_score score, rd_score = score \<rparr>
         | _ \<Rightarrow> None)"

section \<open>The stop rules\<close>

record iteration_measurement =
  im_iteration :: u32
  im_convergence_delta :: f32
  im_verifier_confidence :: f32
  im_policy_safe :: bool
  im_risk_signal :: f32
  im_latency_used_fraction :: f32

record rule_trace =
  rt_min_iterations_met :: bool
  rt_convergence_satisfied :: bool
  rt_confidence_satisfied :: bool
  rt_risk_satisfied :: bool
  rt_policy_safe :: bool
  rt_latency_satisfied :: bool
  rt_ceiling_satisfied :: bool

datatype stop_reason = Converged | ComputeCeiling | LatencyBudgetExceeded
datatype stop_outcome = ContinueIterating | StopFor stop_reason

record step_decision =
  sd_iteration :: u32
  sd_rules :: rule_trace
  sd_outcome :: stop_outcome

fun risk_ceiling :: "controller_config \<Rightarrow> risk_class \<Rightarrow> f32" where
  "risk_ceiling cfg Routine = cc_risk_ceiling_routine cfg"
| "risk_ceiling cfg Elevated = cc_risk_ceiling_elevated cfg"
| "risk_ceiling cfg SafetyCritical = cc_risk_ceiling_safety_critical cfg"

definition evaluate_rules :: "controller_config \<Rightarrow> reasoning_budget \<Rightarrow> iteration_measurement \<Rightarrow> risk_class \<Rightarrow> rule_trace" where
  "evaluate_rules cfg budget m risk_class = \<lparr>
     rt_min_iterations_met = (im_iteration m \<ge> cc_min_iterations cfg),
     rt_convergence_satisfied = fp_le (im_convergence_delta m) (cc_convergence_epsilon cfg),
     rt_confidence_satisfied = fp_le (rb_verification_threshold budget) (im_verifier_confidence m),
     rt_risk_satisfied = fp_le (im_risk_signal m) (risk_ceiling cfg risk_class),
     rt_policy_safe = im_policy_safe m,
     rt_latency_satisfied = fp_lt (im_latency_used_fraction m) (cc_latency_budget_ceiling cfg),
     rt_ceiling_satisfied = (im_iteration m < rb_iterations budget) \<rparr>"

definition evaluate_step :: "controller_config \<Rightarrow> reasoning_budget \<Rightarrow> iteration_measurement \<Rightarrow> risk_class \<Rightarrow> step_decision" where
  "evaluate_step cfg budget m risk_class =
     (let rules = evaluate_rules cfg budget m risk_class;
          converged = rt_min_iterations_met rules \<and> rt_convergence_satisfied rules \<and> rt_confidence_satisfied rules
            \<and> rt_policy_safe rules \<and> rt_risk_satisfied rules;
          outcome =
            (if converged then StopFor Converged
             else if \<not> rt_ceiling_satisfied rules then StopFor ComputeCeiling
             else if \<not> rt_latency_satisfied rules then StopFor LatencyBudgetExceeded
             else ContinueIterating)
      in \<lparr> sd_iteration = im_iteration m, sd_rules = rules, sd_outcome = outcome \<rparr>)"

section \<open>The workspace\<close>

record convergence_signal =
  cs_iteration :: u32
  cs_absolute :: f32
  cs_relative :: f32

datatype workspace_error = WrongDimension nat nat | NonFiniteIterate

record reasoning_workspace =
  ws_context_ref :: "256 word"
  ws_state :: "f32 list"
  ws_iteration :: u32
  ws_last_signal :: "convergence_signal option"

definition EPSILON_NORM :: f32 where "EPSILON_NORM = f32_of (1 / 100000000)"

definition l2_norm :: "libm \<Rightarrow> f32 list \<Rightarrow> f32" where
  "l2_norm L v = sqrtf L (f_sum (map (\<lambda>x. f_mul x x) v))"

definition l2_distance :: "libm \<Rightarrow> f32 list \<Rightarrow> f32 list \<Rightarrow> f32" where
  "l2_distance L a b = sqrtf L (f_sum (map2 (\<lambda>x y. f_mul (f_sub x y) (f_sub x y)) a b))"

definition workspace_seed :: "256 word \<Rightarrow> f32 list \<Rightarrow> workspace_error + reasoning_workspace" where
  "workspace_seed context_ref initial =
     (if \<not> list_all fp_is_finite initial then Inl NonFiniteIterate
      else Inr \<lparr> ws_context_ref = context_ref, ws_state = initial, ws_iteration = 0, ws_last_signal = None \<rparr>)"

definition workspace_step ::
  "libm \<Rightarrow> reasoning_workspace \<Rightarrow> f32 list \<Rightarrow> reasoning_workspace \<times> (workspace_error + convergence_signal)" where
  "workspace_step L w nxt =
     (if length nxt \<noteq> length (ws_state w) then (w, Inl (WrongDimension (length (ws_state w)) (length nxt)))
      else if \<not> list_all fp_is_finite nxt then (w, Inl NonFiniteIterate)
      else let prev_norm = l2_norm L (ws_state w);
               absolute = l2_distance L (ws_state w) nxt;
               relative = f_div absolute (fp_max prev_norm EPSILON_NORM);
               signal = \<lparr> cs_iteration = ws_iteration w + 1, cs_absolute = absolute, cs_relative = relative \<rparr>
        in (w\<lparr> ws_state := nxt, ws_iteration := ws_iteration w + 1, ws_last_signal := Some signal \<rparr>, Inr signal))"

section \<open>Laws\<close>

lemma fp_mul_commute: "fp_mul F a b = fp_mul F b a"
  by (cases a; cases b) (auto simp: mult.commute)

lemma f_mul_NaN [simp]: "f_mul x NaN = NaN" "f_mul NaN x = NaN"
  by (cases x; simp)+

lemma f_add_NaN [simp]: "f_add x NaN = NaN" "f_add NaN x = NaN"
  by (cases x; simp)+

lemma f_sub_NaN [simp]: "f_sub NaN x = NaN"
  by (simp add: fp_sub_def)

lemma clamp01_NaN [simp]: "clamp01 NaN = NaN"
  by (simp add: clamp01_def fp_clamp_def)

lemma scale_u32_in_range:
  assumes "lo \<le> hi" and "unat (hi - lo) < 2 ^ 23"
  shows "\<exists>r. scale_u32 lo hi t = Some r \<and> lo \<le> r \<and> r \<le> hi"
proof (cases "hi \<le> lo")
  case True
  then show ?thesis using assms(1) by (simp add: scale_u32_def)
next
  case False
  let ?N = "unat (hi - lo)"
  have N: "0 < ?N" using False by (simp add: unat_gt_0)
  have diff: "int ?N = uint hi - uint lo" using assms(1) by (simp add: uint_minus_simple_alt)
  obtain k where k: "0 \<le> k" "k \<le> int ?N"
    "fp_to_int 0 (2 ^ 32 - 1) (fp_round_away (f_mul (fp_clamp t f_zero f_one) (f32_of (of_nat ?N)))) = k"
  proof -
    have "int ?N < int (2 ^ 23)" using assms(2) by (simp only: of_nat_less_iff)
    moreover have "int (2 ^ 23) \<le> 2 ^ 32 - 1" by simp
    ultimately have "int ?N \<le> 2 ^ 32 - 1" by linarith
    then show thesis using scaled_unit_range[OF N assms(2), of "2 ^ 32 - 1" t] that by blast
  qed
  have steps: "fp_to_int 0 (2 ^ 32 - 1) (fp_round_away (f_mul (f32_of (of_int (uint (hi - lo)))) (clamp01 t))) = k"
    using k(3) fp_mul_commute[of binary32 "fp_clamp t f_zero f_one" "f32_of (of_nat ?N)"] by (simp add: clamp01_def)
  have hi: "uint hi < 2 ^ 32" using uint_lt2p[of hi] by simp
  then have sum: "uint lo + k < 2 ^ 32" "0 \<le> uint lo + k" using k diff by simp_all
  have "uint (lo + word_of_int k) = uint lo + k"
  proof -
    have "k < 2 ^ 32" using sum(1) uint_ge_0[of lo] by linarith
    then have "uint (word_of_int k :: u32) = k" using k(1) unfolding unsigned_of_int by (simp add: take_bit_int_eq_self)
    then show ?thesis using sum by (simp add: uint_word_ariths(1))
  qed
  then have "lo \<le> lo + word_of_int k" "lo + word_of_int k \<le> hi" using k diff by (simp_all add: word_le_def)
  then show ?thesis using False sum(1) unfolding scale_u32_def steps Let_def by simp
qed

lemma scale_u32_NaN [simp]: "scale_u32 lo hi NaN = Some lo"
  using uint_lt2p[of lo] by (simp add: scale_u32_def)

text \<open>The range of the counts of a configuration, for which the arithmetic is exact.\<close>

definition config_ok :: "controller_config \<Rightarrow> bool" where
  "config_ok cfg \<longleftrightarrow>
     cc_min_iterations cfg \<le> cc_max_iterations cfg \<and> unat (cc_max_iterations cfg - cc_min_iterations cfg) < 2 ^ 23 \<and>
     cc_min_memory_depth cfg \<le> cc_max_memory_depth cfg \<and> unat (cc_max_memory_depth cfg - cc_min_memory_depth cfg) < 2 ^ 23 \<and>
     cc_min_latent_width cfg \<le> cc_max_latent_width cfg \<and> unat (cc_max_latent_width cfg - cc_min_latent_width cfg) < 2 ^ 23"

lemma controller_default_ok: "config_ok controller_default"
  by (simp add: config_ok_def controller_default_def)

lemma workspace_step_Inr:
  assumes "workspace_step L w nxt = (w', Inr signal)"
  shows "cs_iteration signal = ws_iteration w + 1 \<and> ws_iteration w' = ws_iteration w + 1 \<and> ws_state w' = nxt \<and>
    length nxt = length (ws_state w) \<and> list_all fp_is_finite nxt \<and> ws_context_ref w' = ws_context_ref w"
  using assms by (auto simp: workspace_step_def Let_def split: if_splits)

lemma workspace_run_iterations:
  assumes "snd (run_machine (workspace_step L) w iterates) = map Inr signals"
  shows "map cs_iteration signals = map (\<lambda>i. ws_iteration w + of_nat (Suc i)) [0..<length iterates]"
  using assms
proof (induction iterates arbitrary: w signals)
  case (Cons nxt rest)
  obtain w' out where step: "workspace_step L w nxt = (w', out)" by fastforce
  then obtain sig sigs where sigs: "signals = sig # sigs" "out = Inr sig" "snd (run_machine (workspace_step L) w' rest) = map Inr sigs"
    using Cons.prems by (cases signals) (auto simp: Let_def case_prod_beta)
  have it: "cs_iteration sig = ws_iteration w + 1" "ws_iteration w' = ws_iteration w + 1"
    using workspace_step_Inr[of L w nxt w' sig] step sigs(2) by auto
  have "[0..<length (nxt # rest)] = 0 # map Suc [0..<length rest]" by (simp only: list.size(4) add_0_right One_nat_def add_Suc_right map_Suc_upt upt_conv_Cons[OF zero_less_Suc])
  then show ?case using Cons.IH[OF sigs(3)] by (simp add: sigs(1) it add.assoc)
qed simp

section \<open>Properties\<close>

lemma budget_score_pressure:
  assumes "ds_uncertainty s = ds_uncertainty s'" and "ds_structural_difficulty s = ds_structural_difficulty s'"
    and "ds_novelty s = ds_novelty s'" and "ds_historical_failure_rate s = ds_historical_failure_rate s'"
    and "ds_risk s = ds_risk s'"
  shows "budget_score cfg s SafetyCritical = budget_score cfg s' SafetyCritical"
  using assms by (simp add: budget_score_def protects_verification_floor_def)

lemma fp_max_ge: "b \<noteq> NaN \<Longrightarrow> fp_le b (fp_max a b)"
  by (cases a; cases b) (auto simp: fp_max_def)

text \<open>A routed budget stays within the configuration: the routing never overflows, the counts lie in the
  configured ranges, whatever the signals are, a NaN or an infinity included; a safety-critical task
  gets at least the iterations and the verification threshold of its floors, and neither latency nor energy
  pressure changes anything for it.\<close>

theorem budget_within_config:
  assumes "config_ok cfg" and "cc_safety_critical_verification_floor cfg \<noteq> NaN"
  shows "\<exists>d. route_budget cfg s c = Some d \<and>
    cc_min_iterations cfg \<le> rb_iterations (rd_budget d) \<and>
    rb_iterations (rd_budget d) \<le> (if c = SafetyCritical then max (cc_max_iterations cfg) (cc_safety_critical_iteration_floor cfg)
      else cc_max_iterations cfg) \<and>
    rb_memory_depth (rd_budget d) \<in> {cc_min_memory_depth cfg..cc_max_memory_depth cfg} \<and>
    rb_latent_width (rd_budget d) \<in> {cc_min_latent_width cfg..cc_max_latent_width cfg} \<and>
    (c = SafetyCritical \<longrightarrow>
      cc_safety_critical_iteration_floor cfg \<le> rb_iterations (rd_budget d) \<and>
      fp_le (cc_safety_critical_verification_floor cfg) (rb_verification_threshold (rd_budget d)) \<and>
      route_budget cfg (s\<lparr> ds_latency_pressure := l, ds_energy_pressure := e \<rparr>) c = Some d)"
proof -
  let ?score = "budget_score cfg s c"
  obtain i m w where
    i: "scale_u32 (cc_min_iterations cfg) (cc_max_iterations cfg) ?score = Some i"
      "cc_min_iterations cfg \<le> i" "i \<le> cc_max_iterations cfg"
    and m: "scale_u32 (cc_min_memory_depth cfg) (cc_max_memory_depth cfg) ?score = Some m"
      "cc_min_memory_depth cfg \<le> m" "m \<le> cc_max_memory_depth cfg"
    and w: "scale_u32 (cc_min_latent_width cfg) (cc_max_latent_width cfg) ?score = Some w"
      "cc_min_latent_width cfg \<le> w" "w \<le> cc_max_latent_width cfg"
    using assms(1) scale_u32_in_range unfolding config_ok_def by meson
  have score: "budget_score cfg (s\<lparr> ds_latency_pressure := l, ds_energy_pressure := e \<rparr>) SafetyCritical = budget_score cfg s SafetyCritical"
    by (rule budget_score_pressure) simp_all
  show ?thesis
    using i m w assms(2)
    by (auto simp: route_budget_def Let_def protects_verification_floor_def score fp_max_ge le_max_iff_disj max.coboundedI1)
qed

definition demo_signals :: "f32 \<Rightarrow> difficulty_signals" where
  "demo_signals x = \<lparr> ds_uncertainty = x, ds_structural_difficulty = f_zero, ds_novelty = f_zero,
     ds_historical_failure_rate = f_zero, ds_risk = f_zero, ds_latency_pressure = f_one, ds_energy_pressure = Inf False \<rparr>"

theorem budget_within_config_witness:
  "\<exists>d. route_budget controller_default (demo_signals (Inf False)) SafetyCritical = Some d \<and>
     4 \<le> rb_iterations (rd_budget d) \<and> rb_iterations (rd_budget d) \<le> 8"
proof -
  have "fp_round binary32 False (85 / 100) \<noteq> NaN" by (simp add: fp_round_def Let_def)
  then have "cc_safety_critical_verification_floor controller_default \<noteq> NaN"
    by (simp add: controller_default_def fp_of_rat_def)
  from budget_within_config[OF controller_default_ok this, of "demo_signals (Inf False)" SafetyCritical]
  show ?thesis by (auto simp: controller_default_def)
qed

text \<open>A NaN signal is routed as the hardest tier with the smallest budget: the tier is high, the counts are the
  minima of the configuration, and outside safety-critical tasks the verification threshold is a NaN that
  no confidence meets, so no iteration ever stops as converged.\<close>

theorem nan_signal_misrouted:
  assumes "ds_uncertainty s = NaN" and "c \<noteq> SafetyCritical"
  shows "\<exists>d. route_budget cfg s c = Some d \<and> rd_tier d = HighTier \<and>
    rb_iterations (rd_budget d) = cc_min_iterations cfg \<and> rb_latent_width (rd_budget d) = cc_min_latent_width cfg \<and>
    sd_outcome (evaluate_step cfg (rd_budget d) m c) \<noteq> StopFor Converged"
proof -
  have score: "budget_score cfg s c = NaN" by (simp add: budget_score_def Let_def assms(1) case_prod_beta)
  have "tier_from_score NaN = HighTier" by (simp add: tier_from_score_def)
  then show ?thesis
    using assms(2) by (simp add: route_budget_def Let_def score protects_verification_floor_def scale_f32_def
        evaluate_step_def evaluate_rules_def)
qed

theorem nan_signal_misrouted_witness:
  "\<exists>d. route_budget controller_default (demo_signals NaN) Routine = Some d \<and> rd_tier d = HighTier \<and>
     rb_iterations (rd_budget d) = 1"
  using nan_signal_misrouted[of "demo_signals NaN" Routine controller_default undefined]
  by (auto simp: demo_signals_def controller_default_def)

text \<open>C24. Every run of iterations stops: for each budget of at least one iteration, once a fresh workspace has taken
  as many steps as the budget allows, the stop rules have ended the run at one of them at the latest, whatever the
  iterates, the confidence, the risk and the latency that were measured.\<close>

theorem reasoning_stops:
  assumes "workspace_seed ref initial = Inr w"
    and "snd (run_machine (workspace_step L) w iterates) = map Inr signals"
    and "0 < rb_iterations budget" and "unat (rb_iterations budget) \<le> length iterates"
    and "\<forall>i<length signals. im_iteration (measure_of i) = cs_iteration (signals ! i)"
  shows "\<exists>i<unat (rb_iterations budget). \<exists>reason. sd_outcome (evaluate_step cfg budget (measure_of i) c) = StopFor reason"
proof -
  let ?n = "unat (rb_iterations budget)"
  have w: "ws_iteration w = 0" using assms(1) by (auto simp: workspace_seed_def split: if_splits)
  have n: "0 < ?n" using assms(3) by (simp add: unat_gt_0)
  have len: "length signals = length iterates" using assms(2) by (metis length_map length_run_machine)
  define i where "i = ?n - 1"
  have i: "i < ?n" "i < length iterates" "Suc i = ?n" using n assms(4) by (simp_all add: i_def)
  have "cs_iteration (signals ! i) = map cs_iteration signals ! i" using i len by simp
  also have "\<dots> = of_nat (Suc i)" unfolding workspace_run_iterations[OF assms(2)] using i(2) by (simp add: w)
  also have "\<dots> = rb_iterations budget" by (rule trans[OF arg_cong[OF i(3), of of_nat]]) simp
  finally have "im_iteration (measure_of i) = rb_iterations budget" using assms(5) i len by simp
  then have "sd_outcome (evaluate_step cfg budget (measure_of i) c) \<noteq> ContinueIterating"
    by (simp add: evaluate_step_def evaluate_rules_def Let_def)
  then have "\<exists>reason. sd_outcome (evaluate_step cfg budget (measure_of i) c) = StopFor reason"
    by (cases "sd_outcome (evaluate_step cfg budget (measure_of i) c)") auto
  then show ?thesis using i(1) by blast
qed

definition root_libm :: libm where
  "root_libm = \<lparr> sinf = \<lambda>x. x, cosf = \<lambda>x. x, tanhf = \<lambda>x. x, powf = \<lambda>x y. x, sqrtf = \<lambda>x. x \<rparr>"

definition tiny_budget :: reasoning_budget where
  "tiny_budget = \<lparr> rb_iterations = 2, rb_memory_depth = 1, rb_latent_width = 64, rb_verification_threshold = f_one \<rparr>"

definition low_measure :: "nat \<Rightarrow> iteration_measurement" where
  "low_measure i = \<lparr> im_iteration = of_nat (Suc i), im_convergence_delta = f_one, im_verifier_confidence = f_zero,
     im_policy_safe = True, im_risk_signal = f_zero, im_latency_used_fraction = f_zero \<rparr>"

theorem reasoning_stops_witness:
  "\<exists>i<2. \<exists>reason. sd_outcome (evaluate_step controller_default tiny_budget (low_measure i) Routine) = StopFor reason"
proof -
  obtain w where w: "workspace_seed 7 [f_zero] = Inr w" by (simp add: workspace_seed_def)
  then have w0: "ws_iteration w = 0" "ws_state w = [f_zero]" by (auto simp: workspace_seed_def)
  obtain s1 s2 where run: "snd (run_machine (workspace_step root_libm) w [[f_zero], [f_zero]]) = map Inr [s1, s2]"
    by (simp add: workspace_step_def Let_def w0)
  have its: "map cs_iteration [s1, s2] = [1, 2]" using workspace_run_iterations[OF run] by (simp add: w0)
  have "\<forall>i<length [s1, s2]. im_iteration (low_measure i) = cs_iteration ([s1, s2] ! i)"
    using its by (auto simp: less_Suc_eq low_measure_def)
  from reasoning_stops[OF w run _ _ this, of tiny_budget controller_default Routine] show ?thesis
    by (simp add: tiny_budget_def)
qed

end
