(* ===== verification/Reasoning_Context.thy ===== *)
theory Reasoning_Context
  imports Float_Bits Semantic
begin

text \<open>
  \<open>latentmesh-reasoning/src/context.rs\<close>: the recurrent task context, a hash-chained current checkpoint with a
  bounded history for rollback. SHA-256 is a parameter; a \<open>String\<close> is its bytes.
\<close>

type_synonym digest = "256 word"

record context_capacity =
  cp_max_dim :: nat
  cp_max_history :: nat

record provenance_ref =
  pr_evidence_hash :: digest
  pr_source :: bytes

record context_checkpoint =
  ck_sequence :: u64
  ck_state :: "f32 list"
  ck_parent_hash :: digest
  ck_result_hash :: digest
  ck_confidence :: f32
  ck_provenance :: "provenance_ref list"
  ck_model_fingerprint :: "digest option"
  ck_adapter_fingerprint :: "digest option"

datatype context_error =
  CapacityExceeded nat nat | NonFiniteState | ConfidenceOutOfRange f32 | EmptyHistory | UnknownCheckpoint digest

record context_state =
  cx_capacity :: context_capacity
  cx_current :: context_checkpoint
  cx_history :: "context_checkpoint list"
  cx_next_sequence :: u64

section \<open>The content hash\<close>

definition len_bytes :: "'a list \<Rightarrow> bytes" where
  "len_bytes xs = to_le_bytes (word_of_nat (length xs) :: u64)"

definition provenance_bytes :: "provenance_ref \<Rightarrow> bytes" where
  "provenance_bytes p = to_be_bytes (pr_evidence_hash p) @ len_bytes (pr_source p) @ pr_source p"

definition fingerprint_bytes :: "digest option \<Rightarrow> bytes" where
  "fingerprint_bytes f = (case f of None \<Rightarrow> [0] | Some d \<Rightarrow> 1 # to_be_bytes d)"

definition checkpoint_preimage ::
  "u64 \<Rightarrow> f32 list \<Rightarrow> digest \<Rightarrow> f32 \<Rightarrow> provenance_ref list \<Rightarrow> digest option \<Rightarrow> digest option \<Rightarrow> bytes" where
  "checkpoint_preimage sequence state parent_hash confidence provenance model adapter =
     ascii ''latentmesh-reasoning.context.v1'' @ to_le_bytes sequence @ len_bytes state
     @ concat (map f32_to_le_bytes state) @ to_be_bytes parent_hash @ f32_to_le_bytes confidence
     @ len_bytes provenance @ concat (map provenance_bytes provenance)
     @ fingerprint_bytes model @ fingerprint_bytes adapter"

definition checkpoint_hash ::
  "sha256 \<Rightarrow> u64 \<Rightarrow> f32 list \<Rightarrow> digest \<Rightarrow> f32 \<Rightarrow> provenance_ref list \<Rightarrow> digest option \<Rightarrow> digest option \<Rightarrow> digest" where
  "checkpoint_hash sha sequence state parent_hash confidence provenance model adapter =
     sha (checkpoint_preimage sequence state parent_hash confidence provenance model adapter)"

section \<open>Operations\<close>

definition context_genesis :: "sha256 \<Rightarrow> context_capacity \<Rightarrow> nat \<Rightarrow> context_error + context_state" where
  "context_genesis sha capacity width =
     (if width > cp_max_dim capacity then Inl (CapacityExceeded width (cp_max_dim capacity))
      else let state = replicate width f_zero;
               current = \<lparr> ck_sequence = 0, ck_state = state, ck_parent_hash = 0,
                 ck_result_hash = checkpoint_hash sha 0 state 0 f_one [] None None, ck_confidence = f_one,
                 ck_provenance = [], ck_model_fingerprint = None, ck_adapter_fingerprint = None \<rparr>
        in Inr \<lparr> cx_capacity = capacity, cx_current = current, cx_history = [], cx_next_sequence = 1 \<rparr>)"

text \<open>The ring of the rollback history, which evicts from the front.\<close>

definition push_history :: "nat \<Rightarrow> context_checkpoint list \<Rightarrow> context_checkpoint \<Rightarrow> context_checkpoint list" where
  "push_history max_history history previous =
     (if max_history = 0 then []
      else drop (Suc (length history) - max_history) (history @ [previous]))"

definition context_update ::
  "sha256 \<Rightarrow> context_state \<Rightarrow> f32 list \<Rightarrow> f32 \<Rightarrow> provenance_ref list \<Rightarrow> digest option \<Rightarrow> digest option
   \<Rightarrow> context_state \<times> (context_error + context_checkpoint)" where
  "context_update sha s new_state confidence provenance model adapter =
     (if length new_state > cp_max_dim (cx_capacity s)
      then (s, Inl (CapacityExceeded (length new_state) (cp_max_dim (cx_capacity s))))
      else if \<not> list_all fp_is_finite new_state then (s, Inl NonFiniteState)
      else if \<not> fp_is_finite confidence \<or> \<not> (fp_le f_zero confidence \<and> fp_le confidence f_one)
      then (s, Inl (ConfidenceOutOfRange confidence))
      else let sequence = cx_next_sequence s;
               parent = ck_result_hash (cx_current s);
               nxt = \<lparr> ck_sequence = sequence, ck_state = new_state, ck_parent_hash = parent,
                 ck_result_hash = checkpoint_hash sha sequence new_state parent confidence provenance model adapter,
                 ck_confidence = confidence, ck_provenance = provenance, ck_model_fingerprint = model,
                 ck_adapter_fingerprint = adapter \<rparr>
        in (s\<lparr> cx_current := nxt,
               cx_history := push_history (cp_max_history (cx_capacity s)) (cx_history s) (cx_current s),
               cx_next_sequence := cx_next_sequence s + 1 \<rparr>, Inr nxt))"

definition context_rollback :: "context_state \<Rightarrow> context_state \<times> (context_error + context_checkpoint)" where
  "context_rollback s =
     (if cx_history s = [] then (s, Inl EmptyHistory)
      else (s\<lparr> cx_current := last (cx_history s), cx_history := butlast (cx_history s) \<rparr>, Inr (last (cx_history s))))"

definition context_rollback_to :: "context_state \<Rightarrow> digest \<Rightarrow> context_state \<times> (context_error + context_checkpoint)" where
  "context_rollback_to s h =
     (if ck_result_hash (cx_current s) = h then (s, Inr (cx_current s))
      else case position (\<lambda>c. ck_result_hash c = h) (cx_history s) of
        None \<Rightarrow> (s, Inl (UnknownCheckpoint h))
      | Some idx \<Rightarrow> (s\<lparr> cx_current := cx_history s ! idx, cx_history := take idx (cx_history s) \<rparr>,
          Inr (cx_history s ! idx)))"

section \<open>What the hash covers\<close>

lemma len_bytes_inj:
  assumes "length xs < 2 ^ 64" and "length ys < 2 ^ 64" and "len_bytes xs = len_bytes ys"
  shows "length xs = length ys"
proof -
  have "from_le_bytes (len_bytes zs) = (word_of_nat (length zs) :: u64)" for zs :: "'c list"
    by (simp add: len_bytes_def from_le_bytes_def to_le_bytes_def)
  then have "(word_of_nat (length xs) :: u64) = word_of_nat (length ys)" using assms(3) by metis
  then have "unat (word_of_nat (length xs) :: u64) = unat (word_of_nat (length ys) :: u64)" by simp
  then show ?thesis using assms(1,2) by (simp add: unat_of_nat)
qed

lemma length_len_bytes [simp]: "length (len_bytes xs) = 8"
  by (simp add: len_bytes_def to_le_bytes_def)

lemma to_be_inj:
  assumes "8 dvd LENGTH('a::len)" and "to_be_bytes (v :: 'a word) = to_be_bytes w"
  shows "v = w"
  using assms from_to_be_bytes by metis

lemma to_le_u64_inj: "to_le_bytes (v :: u64) = to_le_bytes w \<Longrightarrow> v = w"
  by (simp add: to_le_bytes_def) (metis from_be_u64)

lemma length_f32_bytes [simp]: "length (f32_to_le_bytes x) = 4"
  by (simp add: f32_to_le_bytes_def)

lemma f32_bytes_inj: "is_f32 x \<Longrightarrow> is_f32 y \<Longrightarrow> f32_to_le_bytes x = f32_to_le_bytes y \<Longrightarrow> x = y"
  using f32_bytes_roundtrip by metis

lemma floats_bytes_inj:
  assumes "list_all is_f32 xs" and "list_all is_f32 ys" and "length xs = length ys"
    and "concat (map f32_to_le_bytes xs) @ r = concat (map f32_to_le_bytes ys) @ q"
  shows "xs = ys \<and> r = q"
  using assms(3,1,2,4)
  by (induction xs ys rule: list_induct2) (auto dest: f32_bytes_inj)

definition provenance_ok :: "provenance_ref \<Rightarrow> bool" where
  "provenance_ok p \<longleftrightarrow> length (pr_source p) < 2 ^ 64"

lemma provenance_bytes_inj:
  assumes "provenance_ok p" and "provenance_ok q" and "provenance_bytes p @ r = provenance_bytes q @ t"
  shows "p = q \<and> r = t"
proof -
  have e: "to_be_bytes (pr_evidence_hash p) = to_be_bytes (pr_evidence_hash q)"
    "len_bytes (pr_source p) = len_bytes (pr_source q)" "pr_source p @ r = pr_source q @ t"
    using assms(3) by (simp_all add: provenance_bytes_def)
  have "length (pr_source p) = length (pr_source q)" using e(2) assms(1,2) by (intro len_bytes_inj) (simp_all add: provenance_ok_def)
  moreover have "pr_evidence_hash p = pr_evidence_hash q" using e(1) by (intro to_be_inj) simp_all
  ultimately show ?thesis using e(3) by (cases p; cases q) simp
qed

lemma provenances_bytes_inj:
  assumes "list_all provenance_ok ps" and "list_all provenance_ok qs" and "length ps = length qs"
    and "concat (map provenance_bytes ps) @ r = concat (map provenance_bytes qs) @ t"
  shows "ps = qs \<and> r = t"
  using assms(3,1,2,4)
proof (induction ps qs rule: list_induct2)
  case (Cons p ps q qs)
  then have "p = q \<and> concat (map provenance_bytes ps) @ r = concat (map provenance_bytes qs) @ t"
    by (intro provenance_bytes_inj) simp_all
  then show ?case using Cons by simp
qed simp

lemma fingerprint_bytes_inj: "fingerprint_bytes f @ r = fingerprint_bytes g @ t \<Longrightarrow> f = g \<and> r = t"
  by (auto simp: fingerprint_bytes_def split: option.splits intro: to_be_inj)

text \<open>The values a checkpoint can hold: single-precision numbers, and lists that fit a 64-bit length.\<close>

definition checkpoint_typed :: "context_checkpoint \<Rightarrow> bool" where
  "checkpoint_typed c \<longleftrightarrow> list_all is_f32 (ck_state c) \<and> length (ck_state c) < 2 ^ 64 \<and> is_f32 (ck_confidence c) \<and>
     list_all provenance_ok (ck_provenance c) \<and> length (ck_provenance c) < 2 ^ 64"

definition preimage_of :: "context_checkpoint \<Rightarrow> bytes" where
  "preimage_of c = checkpoint_preimage (ck_sequence c) (ck_state c) (ck_parent_hash c) (ck_confidence c)
     (ck_provenance c) (ck_model_fingerprint c) (ck_adapter_fingerprint c)"

lemma preimage_inj:
  assumes "checkpoint_typed c" and "checkpoint_typed d" and "preimage_of c = preimage_of d"
    and "ck_result_hash c = ck_result_hash d"
  shows "c = d"
proof -
  have len64: "length (to_le_bytes (w :: u64)) = 8" for w by (simp add: to_le_bytes_def)
  have a: "to_le_bytes (ck_sequence c) = to_le_bytes (ck_sequence d)" "len_bytes (ck_state c) = len_bytes (ck_state d)"
    and b: "concat (map f32_to_le_bytes (ck_state c)) @ to_be_bytes (ck_parent_hash c) @ f32_to_le_bytes (ck_confidence c)
      @ len_bytes (ck_provenance c) @ concat (map provenance_bytes (ck_provenance c))
      @ fingerprint_bytes (ck_model_fingerprint c) @ fingerprint_bytes (ck_adapter_fingerprint c) =
      concat (map f32_to_le_bytes (ck_state d)) @ to_be_bytes (ck_parent_hash d) @ f32_to_le_bytes (ck_confidence d)
      @ len_bytes (ck_provenance d) @ concat (map provenance_bytes (ck_provenance d))
      @ fingerprint_bytes (ck_model_fingerprint d) @ fingerprint_bytes (ck_adapter_fingerprint d)"
    using assms(3) by (simp_all add: preimage_of_def checkpoint_preimage_def len64)
  have "length (ck_state c) = length (ck_state d)"
    using a(2) assms(1,2) by (intro len_bytes_inj) (simp_all add: checkpoint_typed_def)
  then have state: "ck_state c = ck_state d"
    and r: "to_be_bytes (ck_parent_hash c) @ f32_to_le_bytes (ck_confidence c)
      @ len_bytes (ck_provenance c) @ concat (map provenance_bytes (ck_provenance c))
      @ fingerprint_bytes (ck_model_fingerprint c) @ fingerprint_bytes (ck_adapter_fingerprint c) =
      to_be_bytes (ck_parent_hash d) @ f32_to_le_bytes (ck_confidence d)
      @ len_bytes (ck_provenance d) @ concat (map provenance_bytes (ck_provenance d))
      @ fingerprint_bytes (ck_model_fingerprint d) @ fingerprint_bytes (ck_adapter_fingerprint d)"
    using floats_bytes_inj[OF _ _ _ b] assms(1,2) by (simp_all add: checkpoint_typed_def)
  have parent: "ck_parent_hash c = ck_parent_hash d" and conf: "ck_confidence c = ck_confidence d"
    and pl: "len_bytes (ck_provenance c) = len_bytes (ck_provenance d)"
    and p: "concat (map provenance_bytes (ck_provenance c))
      @ fingerprint_bytes (ck_model_fingerprint c) @ fingerprint_bytes (ck_adapter_fingerprint c) =
      concat (map provenance_bytes (ck_provenance d))
      @ fingerprint_bytes (ck_model_fingerprint d) @ fingerprint_bytes (ck_adapter_fingerprint d)"
    using r assms(1,2) by (auto simp: checkpoint_typed_def intro: to_be_inj f32_bytes_inj)
  have "length (ck_provenance c) = length (ck_provenance d)"
    using pl assms(1,2) by (intro len_bytes_inj) (simp_all add: checkpoint_typed_def)
  then have prov: "ck_provenance c = ck_provenance d"
    and f: "fingerprint_bytes (ck_model_fingerprint c) @ fingerprint_bytes (ck_adapter_fingerprint c) =
      fingerprint_bytes (ck_model_fingerprint d) @ fingerprint_bytes (ck_adapter_fingerprint d)"
    using provenances_bytes_inj[OF _ _ _ p] assms(1,2) by (simp_all add: checkpoint_typed_def)
  have "ck_model_fingerprint c = ck_model_fingerprint d" "ck_adapter_fingerprint c = ck_adapter_fingerprint d"
    using fingerprint_bytes_inj[OF f] fingerprint_bytes_inj[of "ck_adapter_fingerprint c" "[]" "ck_adapter_fingerprint d" "[]"]
    by simp_all
  then show ?thesis using state parent conf prov to_le_u64_inj[OF a(1)] assms(4) by (cases c; cases d) simp
qed

section \<open>The lineage\<close>

datatype context_op =
  Update "f32 list" f32 "provenance_ref list" "digest option" "digest option"
| Rollback
| RollbackTo digest

fun context_step :: "sha256 \<Rightarrow> context_state \<Rightarrow> context_op \<Rightarrow> context_state \<times> (context_error + context_checkpoint)" where
  "context_step sha s (Update v c p m a) = context_update sha s v c p m a"
| "context_step sha s Rollback = context_rollback s"
| "context_step sha s (RollbackTo h) = context_rollback_to s h"

text \<open>All the checkpoints a context holds, the oldest first.\<close>

definition checkpoints :: "context_state \<Rightarrow> context_checkpoint list" where
  "checkpoints s = cx_history s @ [cx_current s]"

definition checkpoint_ok :: "sha256 \<Rightarrow> context_capacity \<Rightarrow> context_checkpoint \<Rightarrow> bool" where
  "checkpoint_ok sha cap c \<longleftrightarrow> length (ck_state c) \<le> cp_max_dim cap \<and> list_all fp_is_finite (ck_state c) \<and>
     fp_le f_zero (ck_confidence c) \<and> fp_le (ck_confidence c) f_one \<and> ck_result_hash c = sha (preimage_of c)"

definition chained :: "context_checkpoint list \<Rightarrow> bool" where
  "chained cs \<longleftrightarrow> successively (\<lambda>a b. ck_parent_hash b = ck_result_hash a) cs"

definition context_ok :: "sha256 \<Rightarrow> context_state \<Rightarrow> bool" where
  "context_ok sha s \<longleftrightarrow> length (cx_history s) \<le> cp_max_history (cx_capacity s) \<and>
     list_all (checkpoint_ok sha (cx_capacity s)) (checkpoints s) \<and> chained (checkpoints s)"

lemma push_history_eq: "push_history n h p = drop (Suc (length h) - n) (h @ [p])"
  by (simp add: push_history_def)

lemma successively_drop: "successively P xs \<Longrightarrow> successively P (drop n xs)"
  by (metis append_take_drop_id successively_append_iff)

lemma successively_take: "successively P xs \<Longrightarrow> successively P (take n xs)"
  by (metis append_take_drop_id successively_append_iff)

lemma list_all_drop: "list_all P xs \<Longrightarrow> list_all P (drop n xs)"
  by (metis append_take_drop_id list_all_append)

lemma list_all_take: "list_all P xs \<Longrightarrow> list_all P (take n xs)"
  by (metis append_take_drop_id list_all_append)

text \<open>Each operation on the list of checkpoints.\<close>

lemma update_checkpoints:
  assumes "context_update sha s v c p m a = (s', Inr out)"
  shows "checkpoints s' = drop (length (checkpoints s) - cp_max_history (cx_capacity s)) (checkpoints s) @ [out]"
    and "cx_capacity s' = cx_capacity s" and "cx_current s' = out" and "ck_parent_hash out = ck_result_hash (cx_current s)"
    and "checkpoint_ok sha (cx_capacity s) out"
  using assms
  by (auto simp: context_update_def Let_def checkpoints_def push_history_eq checkpoint_ok_def preimage_of_def
      checkpoint_hash_def not_less split: if_splits)

lemma update_error: "context_update sha s v c p m a = (s', Inl e) \<Longrightarrow> s' = s"
  by (auto simp: context_update_def Let_def split: if_splits)

lemma rollback_checkpoints:
  assumes "context_rollback s = (s', Inr out)"
  shows "checkpoints s' = butlast (checkpoints s)" and "cx_capacity s' = cx_capacity s" and "cx_current s' = out"
    and "cx_history s \<noteq> []" and "s' = s\<lparr> cx_current := last (cx_history s), cx_history := butlast (cx_history s) \<rparr>"
  using assms by (auto simp: context_rollback_def checkpoints_def split: if_splits)

lemma rollback_to_checkpoints:
  assumes "context_rollback_to s h = (s', Inr out)"
  shows "\<exists>n>0. checkpoints s' = take n (checkpoints s) \<and> cx_history s' = take (n - 1) (cx_history s)"
    and "cx_capacity s' = cx_capacity s" and "cx_current s' = out" and "ck_result_hash out = h"
proof -
  have "\<exists>n>0. checkpoints s' = take n (checkpoints s) \<and> cx_history s' = take (n - 1) (cx_history s) \<and>
    cx_capacity s' = cx_capacity s \<and> cx_current s' = out \<and> ck_result_hash out = h"
  proof (cases "ck_result_hash (cx_current s) = h")
    case True
    then show ?thesis using assms
      by (intro exI[of _ "Suc (length (cx_history s))"]) (auto simp: context_rollback_to_def checkpoints_def)
  next
    case False
    show ?thesis
    proof (cases "position (\<lambda>c. ck_result_hash c = h) (cx_history s)")
      case None
      then show ?thesis using assms False by (simp add: context_rollback_to_def del: position_None)
    next
      case (Some i)
      have s': "s' = s\<lparr> cx_current := cx_history s ! i, cx_history := take i (cx_history s) \<rparr>" "out = cx_history s ! i"
        using assms False Some by (auto simp: context_rollback_to_def)
      show ?thesis
        using position_SomeD[OF Some] by (intro exI[of _ "Suc i"]) (simp add: s' checkpoints_def take_Suc_conv_app_nth)
    qed
  qed
  then show "\<exists>n>0. checkpoints s' = take n (checkpoints s) \<and> cx_history s' = take (n - 1) (cx_history s)"
    and "cx_capacity s' = cx_capacity s" and "cx_current s' = out" and "ck_result_hash out = h" by blast+
qed

lemma context_error_keeps: "context_step sha s op = (s', Inl e) \<Longrightarrow> s' = s"
  by (cases op) (auto simp: context_rollback_def context_rollback_to_def dest: update_error split: if_splits option.splits)

lemma context_step_ok:
  assumes ok: "context_ok sha s"
  shows "context_ok sha (fst (context_step sha s op))"
proof -
  obtain s' r where step: "context_step sha s op = (s', r)" by fastforce
  have "context_ok sha s'"
  proof (cases r)
    case (Inl e)
    then show ?thesis using context_error_keeps step ok by blast
  next
    case (Inr out)
    show ?thesis
    proof (cases op)
      case (Update v c p m a)
      then have u: "context_update sha s v c p m a = (s', Inr out)" using step Inr by simp
      note f = update_checkpoints[OF u]
      let ?k = "length (checkpoints s) - cp_max_history (cx_capacity s)"
      have "successively (\<lambda>a b. ck_parent_hash b = ck_result_hash a) (checkpoints s @ [out])"
        using ok f(4) by (auto simp: context_ok_def chained_def successively_append_iff checkpoints_def)
      then have "chained (drop ?k (checkpoints s @ [out]))" unfolding chained_def by (rule successively_drop)
      then have "chained (checkpoints s')" unfolding f(1) by simp
      moreover have "list_all (checkpoint_ok sha (cx_capacity s)) (checkpoints s')"
        using ok f(5) unfolding f(1) by (simp add: context_ok_def list_all_drop)
      moreover have "length (cx_history s') \<le> cp_max_history (cx_capacity s)"
        using arg_cong[OF f(1), of length] by (simp add: checkpoints_def)
      ultimately show ?thesis by (simp add: context_ok_def f(2))
    next
      case Rollback
      then have u: "context_rollback s = (s', Inr out)" using step Inr by simp
      note f = rollback_checkpoints[OF u]
      have "length (cx_history s) \<le> cp_max_history (cx_capacity s)" using ok by (simp add: context_ok_def)
      then have "length (cx_history s') \<le> cp_max_history (cx_capacity s)" by (simp add: f(5) le_diff_conv)
      then show ?thesis
        using ok unfolding context_ok_def chained_def f(1,2) butlast_conv_take
        by (simp add: list_all_take successively_take)
    next
      case (RollbackTo h)
      then have u: "context_rollback_to s h = (s', Inr out)" using step Inr by simp
      obtain n where n: "checkpoints s' = take n (checkpoints s)" "cx_history s' = take (n - 1) (cx_history s)"
        using rollback_to_checkpoints(1)[OF u] by blast
      have "length (cx_history s) \<le> cp_max_history (cx_capacity s)" using ok by (simp add: context_ok_def)
      then have "length (cx_history s') \<le> cp_max_history (cx_capacity s)" by (simp add: n(2) min.coboundedI1)
      then show ?thesis
        using ok unfolding context_ok_def chained_def n(1) rollback_to_checkpoints(2)[OF u]
        by (simp add: list_all_take successively_take)
    qed
  qed
  then show ?thesis by (simp add: step)
qed

interpretation task_context: machine "context_ok sha" "context_step sha" for sha
  by unfold_locales (rule context_step_ok)

lemma genesis_ok: "context_genesis sha cap d = Inr s \<Longrightarrow> context_ok sha s"
  by (auto simp: context_genesis_def Let_def context_ok_def checkpoints_def chained_def checkpoint_ok_def preimage_of_def
      checkpoint_hash_def list_all_iff split: if_splits)

text \<open>Updates followed by as many rollbacks, on the reversed list of checkpoints.\<close>

fun is_update :: "context_op \<Rightarrow> bool" where
  "is_update (Update v c p m a) = True"
| "is_update Rollback = False"
| "is_update (RollbackTo h) = False"

lemma run_fst_Cons: "fst (run_machine step s (i # is)) = fst (run_machine step (fst (step s i)) is)"
  and run_snd_Cons: "snd (run_machine step s (i # is)) = snd (step s i) # snd (run_machine step (fst (step s i)) is)"
  by (simp_all add: Let_def case_prod_beta)

lemma take_append_take: "take n (xs @ take n ys) = take n (xs @ ys)"
  by (simp add: min_def)

lemma updates_checkpoints:
  assumes "\<forall>op\<in>set ops. is_update op" and "\<forall>out\<in>set (snd (run_machine (context_step sha) s ops)). is_ok out"
    and "length (checkpoints s) \<le> Suc (cp_max_history (cx_capacity s))"
  shows "\<exists>news. length news = length ops \<and>
    rev (checkpoints (fst (run_machine (context_step sha) s ops))) =
      take (Suc (cp_max_history (cx_capacity s))) (rev news @ rev (checkpoints s))"
  using assms
proof (induction ops arbitrary: s)
  case (Cons op ops)
  let ?m = "cp_max_history (cx_capacity s)"
  obtain v c p m a where op: "op = Update v c p m a" using Cons.prems(1) by (cases op) auto
  obtain s1 r where "context_step sha s op = (s1, r)" by fastforce
  moreover from this obtain out where "r = Inr out" using Cons.prems(2) by (auto simp: run_snd_Cons is_ok_iff simp del: run_machine.simps)
  ultimately have step: "context_step sha s op = (s1, Inr out)" by simp
  then have u: "context_update sha s v c p m a = (s1, Inr out)" by (simp add: op)
  note f = update_checkpoints[OF u]
  have rev1: "rev (checkpoints s1) = take (Suc ?m) (out # rev (checkpoints s))"
    unfolding f(1) by (cases "?m \<le> length (checkpoints s)") (simp_all add: rev_drop)
  then have "length (rev (checkpoints s1)) \<le> Suc ?m" by simp
  then have "length (checkpoints s1) \<le> Suc (cp_max_history (cx_capacity s1))" by (simp add: f(2))
  then obtain news where "length news = length ops"
    "rev (checkpoints (fst (run_machine (context_step sha) s1 ops))) = take (Suc ?m) (rev news @ rev (checkpoints s1))"
    using Cons.IH[of s1] Cons.prems(1,2) by (auto simp: run_snd_Cons step f(2) simp del: run_machine.simps)
  then show ?case
    unfolding run_fst_Cons step fst_conv rev1 take_append_take by (intro exI[of _ "out # news"]) simp
qed simp

lemma rollbacks_checkpoints:
  assumes "k < length (checkpoints s)"
  shows "rev (checkpoints (fst (run_machine (context_step sha) s (replicate k Rollback)))) = drop k (rev (checkpoints s))"
  using assms
proof (induction k arbitrary: s)
  case (Suc k)
  then have "cx_history s \<noteq> []" by (auto simp: checkpoints_def)
  then obtain s1 out where u: "context_rollback s = (s1, Inr out)" by (simp add: context_rollback_def)
  note f = rollback_checkpoints[OF u]
  have "rev (checkpoints s1) = tl (rev (checkpoints s))" unfolding f(1) by (metis butlast_rev rev_swap)
  then show ?case using Suc.IH[of s1] Suc.prems u f(1)
    unfolding replicate_Suc run_fst_Cons by (simp add: drop_Suc)
qed simp

section \<open>Properties\<close>

text \<open>C22. The lineage of a context is authenticated: after any sequence of updates and rollbacks, each held checkpoint
  is within the dimension, finite and with a confidence in the unit interval, carries the hash of its own contents, and
  names the hash of the one before it as its parent; the rollback history never exceeds its bound.\<close>

theorem context_stays_chained:
  assumes "context_genesis sha cap d = Inr s0" and "s = fst (run_machine (context_step sha) s0 ops)"
  shows "length (cx_history s) \<le> cp_max_history (cx_capacity s) \<and>
    list_all (checkpoint_ok sha (cx_capacity s)) (cx_history s @ [cx_current s]) \<and>
    successively (\<lambda>a b. ck_parent_hash b = ck_result_hash a) (cx_history s @ [cx_current s])"
  using task_context.run_inv[OF genesis_ok[OF assms(1)], of ops]
  by (simp add: assms(2) context_ok_def checkpoints_def chained_def)

definition small_capacity :: context_capacity where
  "small_capacity = \<lparr> cp_max_dim = 2, cp_max_history = 1 \<rparr>"

theorem context_stays_chained_witness:
  "\<exists>s0. context_genesis (\<lambda>_. 7) small_capacity 1 = Inr s0 \<and>
     length (cx_history (fst (run_machine (context_step (\<lambda>_. 7)) s0
       [Update [f_one] f_one [] None None, Update [f_one, f_zero] f_zero [] None None, Rollback]))) \<le> 1"
proof -
  obtain s0 where s0: "context_genesis (\<lambda>_. 7) small_capacity 1 = Inr s0"
    by (simp add: context_genesis_def small_capacity_def Let_def)
  let ?ops = "[Update [f_one] f_one [] None None, Update [f_one, f_zero] f_zero [] None None, Rollback]"
  have "cx_capacity s0 = small_capacity" using s0 by (auto simp: context_genesis_def Let_def split: if_splits)
  then have "cx_capacity (fst (run_machine (context_step (\<lambda>_. 7)) s0 ?ops)) = small_capacity"
    by (simp add: context_update_def context_rollback_def Let_def case_prod_beta)
  then show ?thesis using context_stays_chained[OF s0 refl, of ?ops] s0 by (simp only:) (simp add: small_capacity_def)
qed

text \<open>Rollback undoes updates: after any number of accepted updates up to the bound of the history, as many rollbacks
  restore the checkpoint the context started from.\<close>

theorem rollback_restores:
  assumes "context_ok sha s" and "\<forall>op\<in>set ops. is_update op"
    and "\<forall>out\<in>set (snd (run_machine (context_step sha) s ops)). is_ok out"
    and "length ops \<le> cp_max_history (cx_capacity s)"
  shows "cx_current (fst (run_machine (context_step sha) s (ops @ replicate (length ops) Rollback))) = cx_current s"
proof -
  let ?s' = "fst (run_machine (context_step sha) s ops)" and ?m = "cp_max_history (cx_capacity s)" and ?k = "length ops"
  have "length (checkpoints s) \<le> Suc ?m" using assms(1) by (simp add: context_ok_def checkpoints_def)
  then obtain news where news: "length news = ?k" "rev (checkpoints ?s') = take (Suc ?m) (rev news @ rev (checkpoints s))"
    using updates_checkpoints[OF assms(2,3)] by blast
  have "length (rev (checkpoints ?s')) = min (?k + length (checkpoints s)) (Suc ?m)" unfolding news(2) by (simp add: news(1))
  then have k: "?k < length (checkpoints ?s')" using assms(4) by (simp add: checkpoints_def)
  let ?s'' = "fst (run_machine (context_step sha) ?s' (replicate ?k Rollback))"
  have "rev (checkpoints ?s'') = drop ?k (rev (checkpoints ?s'))" by (rule rollbacks_checkpoints[OF k])
  then have "hd (rev (checkpoints ?s'')) = rev (checkpoints ?s') ! ?k" using k by (simp add: hd_drop_conv_nth)
  also have "\<dots> = (rev news @ rev (checkpoints s)) ! ?k" unfolding news(2) using assms(4) by (intro nth_take) simp
  also have "\<dots> = cx_current s" by (simp add: nth_append news(1) checkpoints_def)
  finally show ?thesis by (simp add: run_machine_append Let_def case_prod_beta checkpoints_def)
qed

theorem rollback_restores_witness:
  "\<exists>s0. context_genesis (\<lambda>_. 7) small_capacity 1 = Inr s0 \<and>
     cx_current (fst (run_machine (context_step (\<lambda>_. 7)) s0 [Update [f_zero, f_one] f_one [] None None, Rollback]))
       = cx_current s0"
proof -
  obtain s0 where s0: "context_genesis (\<lambda>_. 7) small_capacity 1 = Inr s0"
    by (simp add: context_genesis_def small_capacity_def Let_def)
  then have "cx_capacity s0 = small_capacity" by (auto simp: context_genesis_def Let_def split: if_splits)
  then show ?thesis
    using rollback_restores[OF genesis_ok[OF s0], of "[Update [f_zero, f_one] f_one [] None None]"] s0
    by (simp add: context_update_def small_capacity_def Let_def is_ok_def)
qed

text \<open>A hash determines the whole lineage: when SHA-256 has no collision among the contents of the checkpoints held
  by two contexts, equal current hashes mean that the two contexts agree on their current checkpoint and on every
  checkpoint of their histories, back to where the shorter one was cut off.\<close>

theorem lineage_determined:
  assumes "context_ok sha s" and "context_ok sha t"
    and "\<forall>c\<in>set (cx_history s @ [cx_current s]). \<forall>d\<in>set (cx_history t @ [cx_current t]).
      checkpoint_typed c \<and> checkpoint_typed d \<and> (sha (preimage_of c) = sha (preimage_of d) \<longrightarrow> preimage_of c = preimage_of d)"
    and "ck_result_hash (cx_current s) = ck_result_hash (cx_current t)"
    and "i < min (length (cx_history s)) (length (cx_history t))"
  shows "cx_current s = cx_current t \<and> rev (cx_history s) ! i = rev (cx_history t) ! i"
proof -
  let ?cs = "checkpoints s" and ?ds = "checkpoints t"
  have same: "c = d" if "c \<in> set ?cs" "d \<in> set ?ds" "ck_result_hash c = ck_result_hash d" for c d
  proof (rule preimage_inj)
    have "ck_result_hash c = sha (preimage_of c)" "ck_result_hash d = sha (preimage_of d)"
      using assms(1,2) that(1,2) by (auto simp: context_ok_def list_all_iff checkpoint_ok_def)
    then show "checkpoint_typed c" "checkpoint_typed d" "preimage_of c = preimage_of d"
      using assms(3) that unfolding checkpoints_def by metis+
  qed (rule that(3))
  have parent: "ck_parent_hash (rev xs ! j) = ck_result_hash (rev xs ! Suc j)"
    if ch: "chained xs" and j: "Suc j < length xs" for xs j
  proof -
    let ?i = "length xs - Suc (Suc j)"
    have "Suc ?i = length xs - Suc j" using j by simp
    moreover have "ck_parent_hash (xs ! Suc ?i) = ck_result_hash (xs ! ?i)"
      using ch j by (simp add: chained_def successively_conv_nth)
    ultimately show ?thesis using j by (simp add: rev_nth)
  qed
  have agree: "rev ?cs ! j = rev ?ds ! j" if "j < min (length ?cs) (length ?ds)" for j
    using that
  proof (induction j)
    case 0
    then show ?case using same[of "cx_current s" "cx_current t"] assms(4) by (simp add: checkpoints_def)
  next
    case (Suc j)
    then have "rev ?cs ! j = rev ?ds ! j" by simp
    then have "ck_result_hash (rev ?cs ! Suc j) = ck_result_hash (rev ?ds ! Suc j)"
      using parent[of ?cs j] parent[of ?ds j] Suc.prems assms(1,2) by (simp add: context_ok_def)
    moreover have "rev ?cs ! Suc j \<in> set ?cs" "rev ?ds ! Suc j \<in> set ?ds"
      using Suc.prems by (metis length_rev min_less_iff_conj nth_mem set_rev)+
    ultimately show ?case using same by blast
  qed
  show ?thesis using agree[of 0] agree[of "Suc i"] assms(5) by (simp add: checkpoints_def)
qed

definition by_length :: sha256 where
  "by_length b = word_of_nat (length b)"

lemma is_f32_one: "is_f32 f_one"
  using is_f32_ops(5)[of 1] by (simp add: f32_ints)

theorem lineage_determined_witness:
  "\<exists>s. length (cx_history s) = 1 \<and> context_ok by_length s \<and> rev (cx_history s) ! 0 = rev (cx_history s) ! 0"
proof -
  obtain s0 where s0: "context_genesis by_length small_capacity 0 = Inr s0" "cx_capacity s0 = small_capacity"
      "cx_history s0 = []" "ck_state (cx_current s0) = []" "checkpoint_typed (cx_current s0)"
      "ck_provenance (cx_current s0) = []" "ck_model_fingerprint (cx_current s0) = None"
      "ck_adapter_fingerprint (cx_current s0) = None"
    by (simp add: context_genesis_def small_capacity_def Let_def checkpoint_typed_def is_f32_one)
  obtain s c where u: "context_update by_length s0 [f_one] f_one [] None None = (s, Inr c)" "cx_current s = c"
      "cx_history s = [cx_current s0]" "ck_state c = [f_one]" "checkpoint_typed c"
      "ck_provenance c = []" "ck_model_fingerprint c = None" "ck_adapter_fingerprint c = None"
    by (simp add: context_update_def s0 small_capacity_def Let_def checkpoint_typed_def push_history_eq is_f32_one)
  have ok: "context_ok by_length s"
    using context_step_ok[OF genesis_ok[OF s0(1)], of "Update [f_one] f_one [] None None"] by (simp add: u(1))
  have "length (preimage_of c) = length (preimage_of (cx_current s0)) + 4"
    by (simp add: preimage_of_def checkpoint_preimage_def u s0 fingerprint_bytes_def to_le_bytes_def)
  moreover have "length (preimage_of (cx_current s0)) < 200"
    by (simp add: preimage_of_def checkpoint_preimage_def s0 fingerprint_bytes_def ascii_def to_le_bytes_def)
  ultimately have "by_length (preimage_of c) \<noteq> by_length (preimage_of (cx_current s0))"
    by (simp add: by_length_def)
  then show ?thesis
    using lineage_determined[OF ok ok, of 0] ok s0(5) u(5) by (intro exI[of _ s]) (simp add: u(2,3))
qed

end
