(* ===== verification/Reasoning_Routing.thy ===== *)
theory Reasoning_Routing
  imports Float_Order Prelude
begin

text \<open>
  \<open>latentmesh-reasoning/src/routing.rs\<close>: the utility density of a representation and the router that picks the
  representation to communicate with, silence included. All numbers are \<open>f64\<close>.
\<close>

record resource_cost =
  rc_bytes :: f64
  rc_latency_seconds :: f64
  rc_energy_joules :: f64
  rc_risk :: f64

definition resource_cost_ZERO :: resource_cost where
  "resource_cost_ZERO = \<lparr> rc_bytes = f_zero, rc_latency_seconds = f_zero, rc_energy_joules = f_zero, rc_risk = f_zero \<rparr>"

definition is_finite_and_nonnegative :: "resource_cost \<Rightarrow> bool" where
  "is_finite_and_nonnegative c = list_all (\<lambda>x. fp_is_finite x \<and> fp_le f_zero x)
     [rc_bytes c, rc_latency_seconds c, rc_energy_joules c, rc_risk c]"

record cost_scale =
  cs_bytes :: f64
  cs_latency_seconds :: f64
  cs_energy_joules :: f64
  cs_risk :: f64

definition scale_is_valid :: "cost_scale \<Rightarrow> bool" where
  "scale_is_valid s = list_all (\<lambda>x. fp_is_finite x \<and> fp_lt f_zero x)
     [cs_bytes s, cs_latency_seconds s, cs_energy_joules s, cs_risk s]"

record cost_weights =
  cw_bandwidth :: f64
  cw_latency :: f64
  cw_energy :: f64
  cw_risk :: f64

definition cost_weights_default :: cost_weights where
  "cost_weights_default =
     \<lparr> cw_bandwidth = Fin False (1 / 4), cw_latency = Fin False (1 / 4), cw_energy = Fin False (1 / 4), cw_risk = Fin False (1 / 4) \<rparr>"

datatype utility_density_error = InvalidScale | InvalidCost | ZeroCost

definition utility_density ::
  "f64 \<Rightarrow> resource_cost \<Rightarrow> cost_scale \<Rightarrow> cost_weights \<Rightarrow> utility_density_error + f64" where
  "utility_density delta_v cost s w =
     (if \<not> scale_is_valid s then Inl InvalidScale
      else if \<not> is_finite_and_nonnegative cost then Inl InvalidCost
      else let denom = d_add (d_add (d_add (d_mul (cw_bandwidth w) (d_div (rc_bytes cost) (cs_bytes s)))
             (d_mul (cw_latency w) (d_div (rc_latency_seconds cost) (cs_latency_seconds s))))
             (d_mul (cw_energy w) (d_div (rc_energy_joules cost) (cs_energy_joules s))))
             (d_mul (cw_risk w) (d_div (rc_risk cost) (cs_risk s)))
        in if fp_le denom f_zero then Inl ZeroCost else Inr (d_div delta_v denom))"

datatype representation_mode =
  NoMessage | Text | SymbolicDelta | SparseFeature | HiddenPrefix | MultiLayerLatent | KvState | RecurrentCheckpoint

datatype gain_measurement = GainUnmeasured | Measured f64

record mode_candidate =
  mc_mode :: representation_mode
  mc_gain :: gain_measurement
  mc_cost :: resource_cost

datatype score_outcome = Unmeasured | Invalid | Scored f64

record route_decision =
  rd_selected :: representation_mode
  rd_selected_score :: f64
  rd_considered :: "(representation_mode \<times> score_outcome) list"

record representation_router =
  rr_scale :: cost_scale
  rr_weights :: cost_weights

text \<open>One iteration of the loop over the candidates, and the loop.\<close>

definition route_candidate ::
  "representation_router \<Rightarrow> representation_mode \<times> f64 \<Rightarrow> mode_candidate \<Rightarrow> (representation_mode \<times> f64) \<times> score_outcome" where
  "route_candidate r best c =
     (case mc_gain c of
        GainUnmeasured \<Rightarrow> (best, Unmeasured)
      | Measured delta_v \<Rightarrow>
          (case utility_density delta_v (mc_cost c) (rr_scale r) (rr_weights r) of
             Inr score \<Rightarrow> (if fp_lt (snd best) score then (mc_mode c, score) else best, Scored score)
           | Inl _ \<Rightarrow> (best, Invalid)))"

fun route_loop ::
  "representation_router \<Rightarrow> representation_mode \<times> f64 \<Rightarrow> mode_candidate list
   \<Rightarrow> (representation_mode \<times> f64) \<times> (representation_mode \<times> score_outcome) list" where
  "route_loop r best [] = (best, [])"
| "route_loop r best (c # cs) =
     (let (best', outcome) = route_candidate r best c; (final, rest) = route_loop r best' cs
      in (final, (mc_mode c, outcome) # rest))"

definition route :: "representation_router \<Rightarrow> mode_candidate list \<Rightarrow> route_decision" where
  "route r cs =
     (let ((mode, score), considered) = route_loop r (NoMessage, f_zero) cs
      in \<lparr> rd_selected = mode, rd_selected_score = score, rd_considered = considered \<rparr>)"

section \<open>Selection\<close>

text \<open>How a candidate is scored, whatever stands before it.\<close>

definition outcome_of :: "representation_router \<Rightarrow> mode_candidate \<Rightarrow> score_outcome" where
  "outcome_of r c = snd (route_candidate r (NoMessage, f_zero) c)"

lemma route_candidate_eq:
  "route_candidate r best c =
     (case outcome_of r c of
        Scored v \<Rightarrow> (if fp_lt (snd best) v then (mc_mode c, v) else best, Scored v)
      | out \<Rightarrow> (best, out))"
  by (simp add: outcome_of_def route_candidate_def split: gain_measurement.split sum.split)

lemma route_loop_considered:
  "snd (route_loop r best cs) = map (\<lambda>c. (mc_mode c, outcome_of r c)) cs"
  by (induction cs arbitrary: best)
    (simp_all add: Let_def case_prod_beta route_candidate_eq split: score_outcome.split)

lemma fp_lt_trans: "fp_lt a b \<Longrightarrow> fp_lt b c \<Longrightarrow> fp_lt a c"
  by (cases a; cases b; cases c) auto

lemma fp_not_lt_trans: "\<not> fp_lt a b \<Longrightarrow> fp_lt a c \<Longrightarrow> \<not> fp_lt c b"
  using fp_lt_trans by blast

text \<open>The loop keeps the first candidate whose score is not exceeded.\<close>

definition best_among :: "representation_router \<Rightarrow> representation_mode \<times> f64 \<Rightarrow> mode_candidate list
   \<Rightarrow> representation_mode \<times> f64 \<Rightarrow> bool" where
  "best_among r start cs best \<longleftrightarrow>
     (\<forall>c\<in>set cs. \<forall>v. outcome_of r c = Scored v \<longrightarrow> \<not> fp_lt (snd best) v) \<and>
     (best = start \<or> fp_lt (snd start) (snd best) \<and> (\<exists>xs c ys. cs = xs @ c # ys \<and>
        outcome_of r c = Scored (snd best) \<and> fst best = mc_mode c \<and>
        (\<forall>d\<in>set xs. \<forall>v. outcome_of r d = Scored v \<longrightarrow> \<not> fp_le (snd best) v)))"

lemma fp_not_le: "fp_lt a b \<Longrightarrow> \<not> fp_le b a"
  by (cases a; cases b) auto

lemma best_amongI:
  assumes "best_among r (fst (route_candidate r start c)) cs best"
  shows "best_among r start (c # cs) best"
proof (cases "\<exists>v. outcome_of r c = Scored v \<and> fp_lt (snd start) v")
  case True
  then obtain v where v: "outcome_of r c = Scored v" "fp_lt (snd start) v" by blast
  then have start: "fst (route_candidate r start c) = (mc_mode c, v)" by (simp add: route_candidate_eq)
  have irr: "\<not> fp_lt v v" by (cases v) auto
  show ?thesis
  proof (cases "best = (mc_mode c, v)")
    case True
    then show ?thesis using assms v irr unfolding start best_among_def
      by (auto intro!: exI[of _ "[]"])
  next
    case False
    then obtain xs d ys where d: "fp_lt v (snd best)" "cs = xs @ d # ys" "outcome_of r d = Scored (snd best)"
      "fst best = mc_mode d" "\<forall>e\<in>set xs. \<forall>v. outcome_of r e = Scored v \<longrightarrow> \<not> fp_le (snd best) v"
      using assms unfolding start best_among_def snd_conv by blast
    have "\<forall>e\<in>set (c # xs). \<forall>u. outcome_of r e = Scored u \<longrightarrow> \<not> fp_le (snd best) u"
      using d(1,5) v(1) fp_not_le by auto
    then have "\<exists>zs e ys. c # cs = zs @ e # ys \<and> outcome_of r e = Scored (snd best) \<and> fst best = mc_mode e \<and>
      (\<forall>e\<in>set zs. \<forall>v. outcome_of r e = Scored v \<longrightarrow> \<not> fp_le (snd best) v)"
      using d(2-4) by (intro exI[of _ "c # xs"] exI[of _ d] exI[of _ ys]) simp
    moreover have "fp_lt (snd start) (snd best)" using v(2) d(1) by (rule fp_lt_trans)
    moreover have "\<forall>e\<in>set (c # cs). \<forall>u. outcome_of r e = Scored u \<longrightarrow> \<not> fp_lt (snd best) u"
      using assms v(1) d(1) irr fp_lt_trans[of v "snd best" v] unfolding best_among_def by auto
    ultimately show ?thesis unfolding best_among_def by blast
  qed
next
  case False
  then have start: "fst (route_candidate r start c) = start"
    by (auto simp: route_candidate_eq split: score_outcome.split)
  show ?thesis
  proof (cases "best = start")
    case True
    then show ?thesis using assms False unfolding start best_among_def by auto
  next
    case differs: False
    then obtain xs d ys where d: "fp_lt (snd start) (snd best)" "cs = xs @ d # ys" "outcome_of r d = Scored (snd best)"
      "fst best = mc_mode d" "\<forall>e\<in>set xs. \<forall>v. outcome_of r e = Scored v \<longrightarrow> \<not> fp_le (snd best) v"
      using assms unfolding start best_among_def by blast
    have c: "\<not> fp_le (snd best) v" "\<not> fp_lt (snd best) v" if "outcome_of r c = Scored v" for v
      using False that d(1) by (cases "snd best"; cases v; cases "snd start"; force)+
    have "\<exists>zs e ys. c # cs = zs @ e # ys \<and> outcome_of r e = Scored (snd best) \<and> fst best = mc_mode e \<and>
      (\<forall>e\<in>set zs. \<forall>v. outcome_of r e = Scored v \<longrightarrow> \<not> fp_le (snd best) v)"
      using d(2-5) c(1) by (intro exI[of _ "c # xs"] exI[of _ d] exI[of _ ys]) auto
    then show ?thesis using assms d(1) c(2) unfolding start best_among_def by auto
  qed
qed

lemma route_loop_best: "best_among r start cs (fst (route_loop r start cs))"
proof (induction cs arbitrary: start)
  case Nil
  show ?case by (simp add: best_among_def)
next
  case (Cons c cs)
  show ?case using best_amongI[OF Cons] by (simp add: Let_def case_prod_beta)
qed

section \<open>The density falls with the cost\<close>

definition cost_le :: "resource_cost \<Rightarrow> resource_cost \<Rightarrow> bool" where
  "cost_le a b \<longleftrightarrow> fp_le (rc_bytes a) (rc_bytes b) \<and> fp_le (rc_latency_seconds a) (rc_latency_seconds b) \<and>
     fp_le (rc_energy_joules a) (rc_energy_joules b) \<and> fp_le (rc_risk a) (rc_risk b)"

definition weights_positive :: "cost_weights \<Rightarrow> bool" where
  "weights_positive w \<longleftrightarrow> fp_positive (cw_bandwidth w) \<and> fp_positive (cw_latency w) \<and> fp_positive (cw_energy w) \<and> fp_positive (cw_risk w)"

lemma density_term_nonneg:
  assumes "fp_positive w" and "fp_is_finite s" and "fp_lt f_zero s" and "fp_is_finite a" and "fp_le f_zero a"
  shows "fp_le f_zero (d_mul w (d_div a s))"
  by (rule fp_scale_nonneg[OF assms(1) fp_div_nonneg[OF assms(4,5,2,3)]])

lemma density_term_mono:
  assumes "fp_positive w" and "fp_is_finite s" and "fp_lt f_zero s" and "fp_le f_zero a" and "fp_le a b"
    and "fp_is_finite a" and "fp_is_finite b"
  shows "fp_le (d_mul w (d_div a s)) (d_mul w (d_div b s))"
  using fp_scale_mono[OF assms(1) fp_div_nonneg[OF assms(6,4,2,3)] fp_div_mono[OF assms(7,4,5,2,3)], of binary64 binary64]
  by simp

section \<open>Properties\<close>

text \<open>What a candidate deserves, stated apart from the loop: nothing is known of one whose gain was never measured; a
  measured one is scored with its utility density where that exists, and is invalid where it does not.\<close>

definition deserved :: "representation_router \<Rightarrow> mode_candidate \<Rightarrow> score_outcome \<Rightarrow> bool" where
  "deserved r c out \<longleftrightarrow>
     (mc_gain c = GainUnmeasured \<longrightarrow> out = Unmeasured) \<and>
     (\<forall>g v. mc_gain c = Measured g \<and> utility_density g (mc_cost c) (rr_scale r) (rr_weights r) = Inr v \<longrightarrow> out = Scored v) \<and>
     (\<forall>g e. mc_gain c = Measured g \<and> utility_density g (mc_cost c) (rr_scale r) (rr_weights r) = Inl e \<longrightarrow> out = Invalid)"

lemma deserved_outcome: "deserved r c out \<longleftrightarrow> out = outcome_of r c"
  by (auto simp: deserved_def outcome_of_def route_candidate_def split: gain_measurement.split sum.split)

text \<open>C23. The router picks the best measured representation and silence when none beats it: no candidate scores above
  the selected score; either nothing is sent at score zero, or the selection is the first candidate with the greatest
  score, which is positive. The report lists every candidate in order with the outcome it deserves: a candidate whose
  gain was never measured is reported as unmeasured, a measured one with its utility density, or as invalid where the
  scale or the cost admits none.\<close>

theorem route_selects_best:
  "(\<forall>c\<in>set cs. \<forall>v. deserved r c (Scored v) \<longrightarrow> \<not> fp_lt (rd_selected_score (route r cs)) v) \<and>
   (rd_selected (route r cs) = NoMessage \<and> rd_selected_score (route r cs) = f_zero \<or>
     fp_lt f_zero (rd_selected_score (route r cs)) \<and>
     (\<exists>xs c ys. cs = xs @ c # ys \<and> deserved r c (Scored (rd_selected_score (route r cs))) \<and>
        rd_selected (route r cs) = mc_mode c \<and> mc_gain c \<noteq> GainUnmeasured \<and>
        (\<forall>d\<in>set xs. \<forall>v. deserved r d (Scored v) \<longrightarrow> \<not> fp_le (rd_selected_score (route r cs)) v))) \<and>
   list_all2 (\<lambda>c (mode, out). mode = mc_mode c \<and> deserved r c out) cs (rd_considered (route r cs))"
proof -
  obtain m v where best: "fst (route_loop r (NoMessage, f_zero) cs) = (m, v)" by fastforce
  have d: "rd_selected (route r cs) = m" "rd_selected_score (route r cs) = v"
    and considered: "rd_considered (route r cs) = map (\<lambda>c. (mc_mode c, outcome_of r c)) cs"
    using best route_loop_considered[of r "(NoMessage, f_zero)" cs] by (simp_all add: route_def case_prod_beta)
  have measured: "mc_gain c \<noteq> GainUnmeasured" if "outcome_of r c = Scored v" for c
    using that by (auto simp: outcome_of_def route_candidate_def)
  have all: "list_all2 (\<lambda>c (mode, out). mode = mc_mode c \<and> deserved r c out) cs (rd_considered (route r cs))"
    by (simp add: considered deserved_outcome list_all2_conv_all_nth)
  have "\<forall>c\<in>set cs. \<forall>u. outcome_of r c = Scored u \<longrightarrow> \<not> fp_lt v u"
    and "(m, v) = (NoMessage, f_zero) \<or> fp_lt f_zero v \<and> (\<exists>xs c ys. cs = xs @ c # ys \<and>
      outcome_of r c = Scored v \<and> m = mc_mode c \<and> (\<forall>d\<in>set xs. \<forall>u. outcome_of r d = Scored u \<longrightarrow> \<not> fp_le v u))"
    using route_loop_best[of r "(NoMessage, f_zero)" cs] unfolding best best_among_def fst_conv snd_conv by blast+
  then show ?thesis using all measured unfolding d deserved_outcome eq_commute[of "Scored _"] by blast
qed

definition unit_router :: representation_router where
  "unit_router =
     \<lparr> rr_scale = \<lparr> cs_bytes = f_one, cs_latency_seconds = f_one, cs_energy_joules = f_one, cs_risk = f_one \<rparr>,
       rr_weights = \<lparr> cw_bandwidth = f_one, cw_latency = f_one, cw_energy = f_one, cw_risk = f_one \<rparr> \<rparr>"

definition byte_cost :: "rat \<Rightarrow> resource_cost" where
  "byte_cost n = resource_cost_ZERO\<lparr> rc_bytes := Fin False n \<rparr>"

lemma exact64:
  "fp_round binary64 False 1 = f_one" "fp_round binary64 False 2 = Fin False 2"
  "fp_round binary64 False (1 / 2) = Fin False (1 / 2)" "fp_round binary64 False 0 = f_zero"
  using fp_round_exact[of 1 binary64 0] fp_round_exact[of 2 binary64 0] fp_round_exact[of 1 binary64 "- 1"]
  by (simp_all add: pow2_def power_int_minus) (simp add: fp_round_def)

lemma density_examples:
  "utility_density f_one (byte_cost 1) (rr_scale unit_router) (rr_weights unit_router) = Inr f_one"
  "utility_density f_one (byte_cost 2) (rr_scale unit_router) (rr_weights unit_router) = Inr (Fin False (1 / 2))"
  by (simp_all add: utility_density_def scale_is_valid_def is_finite_and_nonnegative_def unit_router_def byte_cost_def
      resource_cost_ZERO_def exact64)

theorem route_selects_best_witness:
  "rd_selected (route unit_router
     [\<lparr> mc_mode = KvState, mc_gain = GainUnmeasured, mc_cost = byte_cost 1 \<rparr>,
      \<lparr> mc_mode = Text, mc_gain = Measured f_one, mc_cost = byte_cost 1 \<rparr>]) = Text"
proof -
  let ?kv = "\<lparr> mc_mode = KvState, mc_gain = GainUnmeasured, mc_cost = byte_cost 1 \<rparr>"
  let ?text = "\<lparr> mc_mode = Text, mc_gain = Measured f_one, mc_cost = byte_cost 1 \<rparr>"
  have "deserved unit_router ?text (Scored f_one)" by (simp add: deserved_def density_examples)
  then show ?thesis
    using route_selects_best[of "[?kv, ?text]" unit_router] by (auto simp: Cons_eq_append_conv)
qed

text \<open>A dearer message never has the higher density: with positive weights and a finite gain that is not negative,
  raising any cost of a representation does not raise its score, in double precision as computed.\<close>

theorem cost_never_helps:
  assumes "weights_positive w" and "cost_le lo hi" and "fp_is_finite v" and "fp_le f_zero v"
    and "utility_density v lo s w = Inr a" and "utility_density v hi s w = Inr b"
  shows "fp_le b a"
proof -
  have valid: "scale_is_valid s" "is_finite_and_nonnegative lo" "is_finite_and_nonnegative hi"
    using assms(5,6) by (auto simp: utility_density_def split: if_splits)
  note terms = assms(1,2) valid
  let ?t = "\<lambda>c. d_add (d_add (d_add (d_mul (cw_bandwidth w) (d_div (rc_bytes c) (cs_bytes s)))
       (d_mul (cw_latency w) (d_div (rc_latency_seconds c) (cs_latency_seconds s))))
       (d_mul (cw_energy w) (d_div (rc_energy_joules c) (cs_energy_joules s))))
       (d_mul (cw_risk w) (d_div (rc_risk c) (cs_risk s)))"
  have le: "fp_le f_zero (?t lo) \<and> fp_le (?t lo) (?t hi)"
    using terms by (intro conjI fp_add_mono fp_add_nonneg density_term_nonneg density_term_mono)
      (simp_all add: weights_positive_def cost_le_def scale_is_valid_def is_finite_and_nonnegative_def)
  have "\<not> fp_le (?t lo) f_zero" "a = d_div v (?t lo)" "b = d_div v (?t hi)"
    using assms(5,6) valid by (auto simp: utility_density_def Let_def split: if_splits)
  moreover from this have "fp_lt f_zero (?t lo)" using le by (cases "?t lo") auto
  ultimately show ?thesis using fp_div_antimono[OF assms(3,4), of "?t lo" "?t hi"] le by simp
qed

theorem cost_never_helps_witness: "fp_le (Fin False (1 / 2)) f_one"
  using cost_never_helps[OF _ _ _ _ density_examples]
  by (simp add: weights_positive_def cost_le_def unit_router_def byte_cost_def resource_cost_ZERO_def)

end
