(* ===== verification/Federation.thy ===== *)
theory Federation
  imports Fixed_Point Envelope "HOL-Library.List_Lexorder" "HOL-Library.Product_Lexorder"
begin

text \<open>
  \<open>latentmesh-federation\<close>: the transition rule and its codec (\<open>rule.rs\<close>), a node's world model
  (\<open>model.rs\<close>), and rules over the radio (\<open>transport.rs\<close>). Labels are the UTF-8 bytes of the strings.
\<close>

abbreviation (input) MAX_RULE_BYTES :: nat where "MAX_RULE_BYTES \<equiv> 200"
abbreviation (input) RULE_HEADER_BYTES :: nat where "RULE_HEADER_BYTES \<equiv> 19"
abbreviation (input) MAX_LABEL_BYTES :: nat where "MAX_LABEL_BYTES \<equiv> 48"

definition RULE_MAGIC :: bytes where "RULE_MAGIC = ascii ''LMFR''"

datatype rule_scope = Global | Cluster u32 | Private | Unresolved

fun scope_code :: "rule_scope \<Rightarrow> u8" where
  "scope_code Global = 0"
| "scope_code (Cluster c) = 1"
| "scope_code Private = 2"
| "scope_code Unresolved = 3"

fun scope_cluster_id :: "rule_scope \<Rightarrow> u32" where
  "scope_cluster_id (Cluster c) = c"
| "scope_cluster_id _ = 0"

datatype federation_error = PrivateRule | TooLarge nat | Malformed string | Air air_error

record transition_rule =
  rl_pre :: bytes
  rl_action :: bytes
  rl_post :: bytes
  rl_support :: u32
  rl_confidence :: f32
  rl_scope :: rule_scope

section \<open>The codec of rules\<close>

definition rule_labels :: "transition_rule \<Rightarrow> bytes list" where
  "rule_labels r = [rl_pre r, rl_action r, rl_post r]"

definition rule_bytes :: "transition_rule \<Rightarrow> bytes" where
  "rule_bytes r =
     RULE_MAGIC @ [1, scope_code (rl_scope r)] @ to_be_bytes (scope_cluster_id (rl_scope r)) @ to_be_bytes (rl_support r)
     @ to_be_bytes (quantize_unit 1000 (rl_confidence r)) @ map (\<lambda>l. word_of_nat (length l)) (rule_labels r)
     @ concat (rule_labels r)"

definition encode_for_transmission :: "transition_rule \<Rightarrow> federation_error + bytes" where
  "encode_for_transmission r =
     (if rl_scope r = Private then Inl PrivateRule
      else case find (\<lambda>l. length l > MAX_LABEL_BYTES) (rule_labels r) of
        Some l \<Rightarrow> Inl (TooLarge (length l))
      | None \<Rightarrow>
          let total = RULE_HEADER_BYTES + sum_list (map length (rule_labels r)) in
          if total > MAX_RULE_BYTES then Inl (TooLarge total) else Inr (rule_bytes r))"

fun read_labels :: "bytes \<Rightarrow> nat \<Rightarrow> nat list \<Rightarrow> federation_error + bytes list" where
  "read_labels input cursor [] = Inr []"
| "read_labels input cursor (n # ns) =
     (let label = slice cursor (cursor + n) input in
      if utf8_valid label then rbind (read_labels input (cursor + n) ns) (\<lambda>rest. Inr (label # rest))
      else Inl (Malformed ''label not utf-8''))"

definition decode_scope :: "u8 \<Rightarrow> u32 \<Rightarrow> federation_error + rule_scope" where
  "decode_scope code cluster =
     (if code = 0 then Inr Global
      else if code = 1 then Inr (Cluster cluster)
      else if code = 2 then Inl (Malformed ''private rule on the wire'')
      else if code = 3 then Inr Unresolved
      else Inl (Malformed ''unknown scope''))"

definition rule_decode :: "bytes \<Rightarrow> federation_error + transition_rule" where
  "rule_decode input =
     (if length input > MAX_RULE_BYTES then Inl (TooLarge (length input))
      else if length input < RULE_HEADER_BYTES then Inl (Malformed ''truncated header'')
      else if slice 0 4 input \<noteq> RULE_MAGIC then Inl (Malformed ''bad magic'')
      else if input ! 4 \<noteq> 1 then Inl (Malformed ''unsupported version'')
      else rbind (decode_scope (input ! 5) (from_be_bytes (slice 6 10 input))) (\<lambda>scope.
        let support = from_be_bytes (slice 10 14 input);
            confidence_milli = from_be_bytes (slice 14 16 input) :: u16;
            lens = [unat (input ! 16), unat (input ! 17), unat (input ! 18)]
        in if confidence_milli > 1000 then Inl (Malformed ''confidence above 1.0'')
           else if list_ex (\<lambda>n. n > MAX_LABEL_BYTES) lens then Inl (Malformed ''label too long'')
           else if length input \<noteq> RULE_HEADER_BYTES + sum_list lens then Inl (Malformed ''length mismatch'')
           else rbind (read_labels input RULE_HEADER_BYTES lens) (\<lambda>labels.
             Inr \<lparr> rl_pre = labels ! 0, rl_action = labels ! 1, rl_post = labels ! 2, rl_support = support,
                   rl_confidence = unit_of_steps 1000 confidence_milli, rl_scope = scope \<rparr>)))"

section \<open>The world model\<close>

record transition =
  ts_pre :: bytes
  ts_action :: bytes
  ts_post :: bytes

record world_model =
  wm_rules :: "(bytes \<times> bytes, transition_rule) btree"
  wm_holdout :: "transition list"

definition world_new :: world_model where
  "world_new = \<lparr> wm_rules = [], wm_holdout = [] \<rparr>"

definition world_install :: "world_model \<Rightarrow> transition_rule \<Rightarrow> world_model" where
  "world_install w r = w\<lparr> wm_rules := bt_insert (rl_pre r, rl_action r) r (wm_rules w) \<rparr>"

definition world_remove :: "world_model \<Rightarrow> bytes \<Rightarrow> bytes \<Rightarrow> world_model \<times> transition_rule option" where
  "world_remove w pre action =
     (w\<lparr> wm_rules := bt_remove (pre, action) (wm_rules w) \<rparr>, bt_get (wm_rules w) (pre, action))"

definition rule_count :: "world_model \<Rightarrow> nat" where
  "rule_count w = length (wm_rules w)"

definition world_rules :: "world_model \<Rightarrow> transition_rule list" where
  "world_rules w = map snd (wm_rules w)"

definition predict :: "world_model \<Rightarrow> bytes \<Rightarrow> bytes \<Rightarrow> bytes option" where
  "predict w pre action = map_option rl_post (bt_get (wm_rules w) (pre, action))"

definition record_holdout :: "world_model \<Rightarrow> transition \<Rightarrow> world_model" where
  "record_holdout w t = w\<lparr> wm_holdout := wm_holdout w @ [t] \<rparr>"

definition holdout_score :: "world_model \<Rightarrow> transition_rule option \<Rightarrow> transition \<Rightarrow> f64" where
  "holdout_score w candidate t =
     (let predicted = (case candidate of
            Some c \<Rightarrow> (if rl_pre c = ts_pre t \<and> rl_action c = ts_action t then Some (rl_post c)
                      else predict w (ts_pre t) (ts_action t))
          | None \<Rightarrow> predict w (ts_pre t) (ts_action t))
      in case predicted of Some p \<Rightarrow> (if p = ts_post t then f_one else f_zero) | None \<Rightarrow> f_zero)"

definition holdout_scores :: "world_model \<Rightarrow> transition_rule option \<Rightarrow> f64 list" where
  "holdout_scores w candidate = map (holdout_score w candidate) (wm_holdout w)"

section \<open>Rules over the radio\<close>

definition rule_state_hash :: "sha256 \<Rightarrow> bytes \<Rightarrow> hash16" where
  "rule_state_hash sha rule = from_be_bytes (take 16 (to_be_bytes (sha (ascii ''LatentMesh-Federation-Rule-v1'' @ rule))))"

definition encode_rule_envelope ::
  "sha256 \<Rightarrow> transition_rule \<Rightarrow> u32 \<Rightarrow> u32 \<Rightarrow> u32 \<Rightarrow> u64 \<Rightarrow> u8 \<Rightarrow> signature option
   \<Rightarrow> federation_error + semantic_envelope" where
  "encode_rule_envelope sha r source_id epoch message_id logical_sequence priority signature =
     rbind (encode_for_transmission r) (\<lambda>body.
       let envelope = \<lparr> e_class = Control, e_priority = priority, e_source_id = source_id, e_epoch = epoch,
             e_message_id = message_id, e_logical_sequence = logical_sequence,
             e_state_hash = rule_state_hash sha body, e_body = body, e_signature = signature \<rparr>
       in case envelope_validate envelope of Inl e \<Rightarrow> Inl (Air e) | Inr _ \<Rightarrow> Inr envelope)"

definition decode_rule_envelope :: "sha256 \<Rightarrow> semantic_envelope \<Rightarrow> federation_error + transition_rule" where
  "decode_rule_envelope sha e =
     (if e_class e \<noteq> Control then Inl (Malformed ''not a control envelope'')
      else if e_state_hash e \<noteq> rule_state_hash sha (e_body e) then Inl (Malformed ''state hash does not bind body'')
      else rule_decode (e_body e))"

definition offerable_to :: "transition_rule \<Rightarrow> u32 \<Rightarrow> bool" where
  "offerable_to r peer_cluster =
     (case rl_scope r of Private \<Rightarrow> False | Cluster c \<Rightarrow> c = peer_cluster | Global \<Rightarrow> True | Unresolved \<Rightarrow> True)"

definition should_transmit :: "transition_rule \<Rightarrow> world_model \<Rightarrow> bool" where
  "should_transmit r shared =
     (case predict shared (rl_pre r) (rl_action r) of Some post \<Rightarrow> post \<noteq> rl_post r | None \<Rightarrow> True)"

definition should_transmit_to :: "transition_rule \<Rightarrow> world_model \<Rightarrow> u32 \<Rightarrow> bool" where
  "should_transmit_to r shared peer_cluster =
     (if \<not> offerable_to r peer_cluster then False else should_transmit r shared)"

section \<open>What the codec accepts\<close>

definition rule_ok :: "transition_rule \<Rightarrow> bool" where
  "rule_ok r \<longleftrightarrow> rl_scope r \<noteq> Private \<and> list_all (\<lambda>l. length l \<le> MAX_LABEL_BYTES) (rule_labels r)"

definition labels_utf8 :: "transition_rule \<Rightarrow> bool" where
  "labels_utf8 r \<longleftrightarrow> list_all utf8_valid (rule_labels r)"

lemma encode_rule_iff: "encode_for_transmission r = Inr bs \<longleftrightarrow> rule_ok r \<and> bs = rule_bytes r"
  by (auto simp: encode_for_transmission_def rule_ok_def rule_labels_def not_less split: if_splits)

text \<open>The layout of a rule on the wire, with its cluster and its confidence as raw numbers.\<close>

definition rule_layout :: "u8 \<Rightarrow> u32 \<Rightarrow> u32 \<Rightarrow> u16 \<Rightarrow> bytes list \<Rightarrow> bytes" where
  "rule_layout code cluster support milli labels =
     RULE_MAGIC @ [1, code] @ to_be_bytes cluster @ to_be_bytes support @ to_be_bytes milli
     @ map (\<lambda>l. word_of_nat (length l)) labels @ concat labels"

lemma rule_bytes_layout:
  "rule_bytes r = rule_layout (scope_code (rl_scope r)) (scope_cluster_id (rl_scope r)) (rl_support r)
     (quantize_unit 1000 (rl_confidence r)) (rule_labels r)"
  by (simp add: rule_bytes_def rule_layout_def)

lemma length_magic [simp]: "length RULE_MAGIC = 4"
  by (simp add: RULE_MAGIC_def ascii_def)

lemma length_layout: "length labels = 3 \<Longrightarrow> length (rule_layout a c s m labels) = 19 + sum_list (map length labels)"
  by (simp add: rule_layout_def length_concat)

lemma read_labels_concat:
  assumes "list_all utf8_valid ls"
  shows "read_labels (pre @ concat ls) (length pre) (map length ls) = Inr ls"
  using assms
proof (induction ls arbitrary: pre)
  case (Cons l ls)
  have "slice (length pre) (length pre + length l) (pre @ l @ concat ls) = l" by (rule slice_field) simp_all
  then show ?case using Cons.IH[of "pre @ l"] Cons.prems by (simp add: Let_def)
qed simp

lemma read_labels_InrD:
  assumes "read_labels bs cursor ns = Inr ls" and "cursor + sum_list ns \<le> length bs"
  shows "map length ls = ns \<and> list_all utf8_valid ls \<and> concat ls = slice cursor (cursor + sum_list ns) bs"
  using assms
proof (induction bs cursor ns arbitrary: ls rule: read_labels.induct)
  case (2 bs cursor n ns)
  then obtain rest where r: "ls = slice cursor (cursor + n) bs # rest" "utf8_valid (slice cursor (cursor + n) bs)"
      "read_labels bs (cursor + n) ns = Inr rest"
    by (auto simp: Let_def split: if_splits)
  have "slice cursor (cursor + n) bs @ slice (cursor + n) (cursor + n + sum_list ns) bs =
      slice cursor (cursor + n + sum_list ns) bs"
    using slice_split[of cursor "cursor + n" "cursor + n + sum_list ns" bs] by simp
  then show ?case using "2.IH"[OF refl r(2,3)] "2.prems"(2) r(1,2) by (simp add: add.assoc)
qed simp

lemma layout_slices:
  fixes code cluster support milli labels
  assumes "length labels = 3"
  defines "bs \<equiv> rule_layout code cluster support milli labels"
  shows "slice 0 4 bs = RULE_MAGIC" and "slice 4 6 bs = [1, code]" and "slice 6 10 bs = to_be_bytes cluster"
    and "slice 10 14 bs = to_be_bytes support" and "slice 14 16 bs = to_be_bytes milli"
    and "slice 16 19 bs = map (\<lambda>l. word_of_nat (length l)) labels"
  unfolding bs_def rule_layout_def using assms(1) by (simp_all add: slice_append_left slice_head del: append_Cons append_Nil)

lemma rule_nth:
  assumes "19 \<le> length bs"
  shows "bs ! 4 = slice 4 6 bs ! 0" "bs ! 5 = slice 4 6 bs ! 1" "bs ! 16 = slice 16 19 bs ! 0"
    "bs ! 17 = slice 16 19 bs ! 1" "bs ! 18 = slice 16 19 bs ! 2"
  using assms by (simp_all add: slice_nth)

lemma slice_three: "a + 3 \<le> length bs \<Longrightarrow> slice a (a + 3) bs = [bs ! a, bs ! (a + 1), bs ! (a + 2)]"
  by (intro nth_equalityI) (auto simp: slice_nth less_Suc_eq numeral_eq_Suc)

lemma length_u8_48: "length l \<le> 48 \<Longrightarrow> unat (word_of_nat (length l) :: u8) = length l"
  by (simp add: unat_of_nat)

lemma decode_layout:
  assumes labels: "length labels = 3" "list_all (\<lambda>l. length l \<le> 48) labels" "list_all utf8_valid labels"
    and scope: "decode_scope code cluster = Inr scope" and milli: "milli \<le> 1000"
  shows "rule_decode (rule_layout code cluster support milli labels) =
    Inr \<lparr> rl_pre = labels ! 0, rl_action = labels ! 1, rl_post = labels ! 2, rl_support = support,
          rl_confidence = unit_of_steps 1000 milli, rl_scope = scope \<rparr>"
proof -
  obtain a b c where l: "labels = [a, b, c]" using labels(1) by (auto simp: numeral_eq_Suc length_Suc_conv)
  let ?bs = "rule_layout code cluster support milli labels"
  have len: "length ?bs = 19 + (length a + length b + length c)" using length_layout[OF labels(1)] by (simp add: l)
  then have long: "19 \<le> length ?bs" by simp
  have small: "length a \<le> 48" "length b \<le> 48" "length c \<le> 48" using labels(2) by (simp_all add: l)
  note sl = layout_slices[OF labels(1), of code cluster support milli]
  have nth: "?bs ! 4 = 1" "?bs ! 5 = code" "unat (?bs ! 16) = length a" "unat (?bs ! 17) = length b" "unat (?bs ! 18) = length c"
    unfolding rule_nth[OF long] sl using small by (simp_all add: l length_u8_48)
  have "?bs = (RULE_MAGIC @ [1, code] @ to_be_bytes cluster @ to_be_bytes support @ to_be_bytes milli
      @ map (\<lambda>l. word_of_nat (length l)) labels) @ concat labels"
    by (simp add: rule_layout_def)
  then have "read_labels ?bs 19 [length a, length b, length c] = Inr labels"
    using read_labels_concat[OF labels(3), of "RULE_MAGIC @ [1, code] @ to_be_bytes cluster @ to_be_bytes support
      @ to_be_bytes milli @ map (\<lambda>l. word_of_nat (length l)) labels"] by (simp add: l)
  then show ?thesis
    unfolding rule_decode_def Let_def nth sl using len small milli by (simp add: not_less l scope del: read_labels.simps)
qed

lemma decode_scope_InrD: "decode_scope code cluster = Inr scope \<Longrightarrow>
    code = scope_code scope \<and> scope \<noteq> Private \<and> (\<forall>c. scope = Cluster c \<longrightarrow> c = cluster)"
  by (auto simp: decode_scope_def split: if_splits)

lemma rule_decode_InrD:
  assumes "rule_decode bs = Inr r"
  shows "rule_ok r \<and> labels_utf8 r \<and>
    (\<exists>cluster milli. milli \<le> 1000 \<and> rl_confidence r = unit_of_steps 1000 milli \<and>
       decode_scope (scope_code (rl_scope r)) cluster = Inr (rl_scope r) \<and>
       bs = rule_layout (scope_code (rl_scope r)) cluster (rl_support r) milli (rule_labels r))"
proof -
  let ?cluster = "from_be_bytes (slice 6 10 bs) :: u32" and ?milli = "from_be_bytes (slice 14 16 bs) :: u16"
  let ?lens = "[unat (bs ! 16), unat (bs ! 17), unat (bs ! 18)]"
  obtain labels where len: "19 \<le> length bs" "length bs = 19 + sum_list ?lens" and magic: "slice 0 4 bs = RULE_MAGIC" "bs ! 4 = 1"
    and scope: "decode_scope (bs ! 5) ?cluster = Inr (rl_scope r)" and milli: "?milli \<le> 1000"
    and small: "list_all (\<lambda>n. n \<le> 48) ?lens" and read: "read_labels bs 19 ?lens = Inr labels"
    and fields: "rl_pre r = labels ! 0" "rl_action r = labels ! 1" "rl_post r = labels ! 2"
      "rl_support r = from_be_bytes (slice 10 14 bs)" "rl_confidence r = unit_of_steps 1000 ?milli"
    using assms by (auto simp: rule_decode_def Let_def not_less simp del: read_labels.simps split: if_splits)
  have lab: "map length labels = ?lens" "list_all utf8_valid labels" "concat labels = slice 19 (length bs) bs"
    using read_labels_InrD[OF read] len(2) by simp_all
  have "length (map length labels) = 3" unfolding lab(1) by simp
  then have "length labels = 3" by simp
  then have labels: "rule_labels r = labels" using fields(1-3)
    by (auto simp: rule_labels_def numeral_eq_Suc length_Suc_conv)
  have "bs = slice 0 4 bs @ slice 4 6 bs @ slice 6 10 bs @ slice 10 14 bs @ slice 14 16 bs @ slice 16 19 bs @ slice 19 (length bs) bs"
    using len(1) by (simp add: slice_split)
  also have "slice 4 6 bs = [bs ! 4, bs ! 5]" using slice_two[of 4 bs] len(1) by simp
  also have "slice 16 19 bs = map word_of_nat ?lens" using slice_three[of 16 bs] len(1) by simp
  finally have "bs = rule_layout (bs ! 5) ?cluster (rl_support r) ?milli labels"
    using len(1) magic lab(3) unfolding rule_layout_def fields(4) lab(1)[symmetric]
    by (simp add: to_from_be_bytes comp_def)
  moreover have "bs ! 5 = scope_code (rl_scope r)" "rl_scope r \<noteq> Private" using decode_scope_InrD[OF scope] by simp_all
  moreover have "list_all (\<lambda>l. length l \<le> 48) labels" using small unfolding lab(1)[symmetric] by (simp add: list_all_iff)
  ultimately show ?thesis using scope milli fields(5) lab(2) by (auto simp: rule_ok_def labels_utf8_def labels)
qed

lemma rule_ok_layout:
  assumes "rule_ok r" and "labels_utf8 r" and "milli \<le> 1000"
    and "decode_scope (scope_code (rl_scope r)) cluster = Inr (rl_scope r)"
  shows "rule_decode (rule_layout (scope_code (rl_scope r)) cluster (rl_support r) milli (rule_labels r)) =
    Inr (r\<lparr> rl_confidence := unit_of_steps 1000 milli \<rparr>)"
  using assms
  by (subst decode_layout[OF _ _ _ assms(4)]) (simp_all add: rule_ok_def labels_utf8_def rule_labels_def)

lemma decode_scope_code: "s \<noteq> Private \<Longrightarrow> decode_scope (scope_code s) (scope_cluster_id s) = Inr s"
  by (cases s) (simp_all add: decode_scope_def)

text \<open>What a receiver makes of a rule: the confidence is in thousandths.\<close>

definition rule_received :: "transition_rule \<Rightarrow> transition_rule" where
  "rule_received r = r\<lparr> rl_confidence := unit_of_steps 1000 (quantize_unit 1000 (rl_confidence r)) \<rparr>"

lemma milli_bound: "quantize_unit 1000 x \<le> 1000"
  using quantize_bound[of 1000 x] by (simp add: word_le_nat_alt)

lemma decode_encoded:
  assumes "labels_utf8 r" and "encode_for_transmission r = Inr bs"
  shows "rule_decode bs = Inr (rule_received r)"
proof -
  have ok: "rule_ok r" and bs: "bs = rule_bytes r" using assms(2) by (simp_all add: encode_rule_iff)
  then show ?thesis unfolding bs rule_bytes_layout rule_received_def
    by (intro rule_ok_layout[OF ok assms(1) milli_bound decode_scope_code]) (simp add: rule_ok_def)
qed

lemma length_rule_bytes: "rule_ok r \<Longrightarrow> length (rule_bytes r) \<le> 163"
  by (simp add: rule_bytes_def rule_ok_def rule_labels_def)

section \<open>Properties\<close>

text \<open>C20. A rule that is encoded is decoded as it was, its confidence rounded to thousandths, from at most 163 bytes; and a
  rule that is decoded encodes again to bytes that decode to the same rule, to the very same bytes unless a rule without
  a cluster carried a cluster number.\<close>

theorem rule_roundtrip:
  assumes "labels_utf8 r" and "encode_for_transmission r = Inr bs" and "rule_decode cs = Inr q"
  shows "length bs \<le> 163 \<and> rule_decode bs = Inr (rule_received r) \<and>
    (\<exists>ds. encode_for_transmission q = Inr ds \<and> rule_decode ds = Inr q \<and>
      (ds = cs \<or> scope_cluster_id (rl_scope q) = 0 \<and> slice 6 10 cs \<noteq> to_be_bytes (0 :: u32)))"
proof (intro conjI)
  show "length bs \<le> 163" using assms(2) length_rule_bytes by (simp add: encode_rule_iff)
  show "rule_decode bs = Inr (rule_received r)" by (rule decode_encoded[OF assms(1,2)])
  obtain cluster milli where q: "rule_ok q" "labels_utf8 q" "milli \<le> 1000" "rl_confidence q = unit_of_steps 1000 milli"
    and scope: "decode_scope (scope_code (rl_scope q)) cluster = Inr (rl_scope q)"
    and cs: "cs = rule_layout (scope_code (rl_scope q)) cluster (rl_support q) milli (rule_labels q)"
    using rule_decode_InrD[OF assms(3)] by blast
  have milli: "quantize_unit 1000 (rl_confidence q) = milli"
    using q(3) steps_roundtrip[of 1000 milli] by (simp add: q(4) word_le_nat_alt)
  have enc: "encode_for_transmission q = Inr (rule_bytes q)" using q(1) by (simp add: encode_rule_iff)
  have "rule_received q = q" by (simp add: rule_received_def milli flip: q(4))
  then have dec: "rule_decode (rule_bytes q) = Inr q" using decode_encoded[OF q(2) enc] by simp
  have "slice 6 10 cs = to_be_bytes cluster" unfolding cs by (intro layout_slices) (simp add: rule_labels_def)
  moreover have "rule_bytes q = cs" if "cluster = scope_cluster_id (rl_scope q)"
    using that by (simp add: rule_bytes_layout milli cs)
  moreover have "cluster = scope_cluster_id (rl_scope q) \<or> scope_cluster_id (rl_scope q) = 0"
    using decode_scope_InrD[OF scope] by (cases "rl_scope q") auto
  ultimately have "rule_bytes q = cs \<or> scope_cluster_id (rl_scope q) = 0 \<and> slice 6 10 cs \<noteq> to_be_bytes (0 :: u32)"
    by (metis from_be_u32)
  then show "\<exists>ds. encode_for_transmission q = Inr ds \<and> rule_decode ds = Inr q \<and>
      (ds = cs \<or> scope_cluster_id (rl_scope q) = 0 \<and> slice 6 10 cs \<noteq> to_be_bytes (0 :: u32))"
    using enc dec by blast
qed

definition demo_rule :: "rule_scope \<Rightarrow> transition_rule" where
  "demo_rule scope = \<lparr> rl_pre = ascii ''hot'', rl_action = ascii ''cool'', rl_post = ascii ''warm'', rl_support = 12,
     rl_confidence = f_one, rl_scope = scope \<rparr>"

lemma demo_rule_ok: "labels_utf8 (demo_rule s)" "rule_ok (demo_rule s) \<longleftrightarrow> s \<noteq> Private"
  by (simp_all add: labels_utf8_def rule_ok_def rule_labels_def demo_rule_def ascii_def)

theorem rule_roundtrip_witness:
  "\<exists>bs. encode_for_transmission (demo_rule (Cluster 7)) = Inr bs \<and> length bs \<le> 163 \<and>
     rule_decode bs = Inr (rule_received (demo_rule (Cluster 7)))"
proof -
  obtain bs where bs: "encode_for_transmission (demo_rule (Cluster 7)) = Inr bs" by (simp add: encode_rule_iff demo_rule_ok)
  have "rule_decode bs = Inr (rule_received (demo_rule (Cluster 7)))" by (rule decode_encoded[OF demo_rule_ok(1) bs])
  then show ?thesis using rule_roundtrip[OF demo_rule_ok(1) bs] bs by blast
qed

text \<open>C19. A private rule never leaves the node: the encoder refuses it, so no envelope is ever built of it, it is offered to
  no peer, and no bytes decode to one; a rule of a cluster is offered to peers of that cluster only.\<close>

theorem private_never_leaves:
  assumes "rl_scope r = Private" and "rl_scope q = Cluster c" and "rule_decode bs = Inr p"
  shows "encode_for_transmission r = Inl PrivateRule \<and>
    encode_rule_envelope sha r src epoch msg seq prio sig = Inl PrivateRule \<and>
    \<not> should_transmit_to r w peer \<and> rl_scope p \<noteq> Private \<and> (should_transmit_to q w peer \<longrightarrow> peer = c)"
  using assms rule_decode_InrD[OF assms(3)]
  by (auto simp: encode_for_transmission_def encode_rule_envelope_def should_transmit_to_def offerable_to_def rule_ok_def
      split: if_splits)

theorem private_never_leaves_witness:
  "\<exists>bs p. rule_decode bs = Inr p \<and> rl_scope p \<noteq> Private \<and>
     encode_for_transmission (demo_rule Private) = Inl PrivateRule \<and> \<not> should_transmit_to (demo_rule (Cluster 3)) world_new 4"
proof -
  obtain bs where "encode_for_transmission (demo_rule Global) = Inr bs" by (simp add: encode_rule_iff demo_rule_ok)
  then have p: "rule_decode bs = Inr (rule_received (demo_rule Global))" by (rule decode_encoded[OF demo_rule_ok(1)])
  have scopes: "rl_scope (demo_rule Private) = Private" "rl_scope (demo_rule (Cluster 3)) = Cluster 3"
    by (simp_all add: demo_rule_def)
  show ?thesis using private_never_leaves[OF scopes p, of undefined 0 0 0 0 0 None world_new 4] p by auto
qed

lemma carried_Inr: "(case v of Inl e \<Rightarrow> Inl (Air e) | Inr _ \<Rightarrow> Inr x) = Inr y \<longleftrightarrow> v = Inr () \<and> y = x"
  by (cases v) auto

text \<open>A rule crosses the radio: the envelope built around a rule encodes, and the receiver that decodes the bytes and
  unwraps the envelope gets the rule; an envelope is unwrapped only when it is a control envelope whose state hash is the
  hash of its body.\<close>

theorem rule_crosses_envelope:
  assumes "labels_utf8 r" and "encode_rule_envelope sha r src epoch msg seq prio sig = Inr e"
  shows "(\<exists>bs. envelope_encode e = Inr bs \<and> envelope_decode bs = Inr e) \<and>
    decode_rule_envelope sha e = Inr (rule_received r) \<and> e_source_id e = src \<and> e_message_id e = msg \<and>
    (decode_rule_envelope sha e' = Inr q \<longrightarrow>
      e_class e' = Control \<and> e_state_hash e' = rule_state_hash sha (e_body e') \<and> rule_decode (e_body e') = Inr q)"
proof -
  obtain body where body: "encode_for_transmission r = Inr body"
    and e: "e = \<lparr> e_class = Control, e_priority = prio, e_source_id = src, e_epoch = epoch, e_message_id = msg,
      e_logical_sequence = seq, e_state_hash = rule_state_hash sha body, e_body = body, e_signature = sig \<rparr>"
    and valid: "envelope_validate e = Inr ()"
    using assms(2) by (auto simp: encode_rule_envelope_def Let_def carried_Inr)
  obtain bs where bs: "envelope_encode e = Inr bs" using valid by (simp add: envelope_encode_def)
  moreover have "decode_rule_envelope sha e = Inr (rule_received r)"
    using decode_encoded[OF assms(1) body] by (simp add: decode_rule_envelope_def e)
  ultimately show ?thesis using envelope.dec_enc[OF bs]
    by (auto simp: decode_rule_envelope_def e split: if_splits)
qed

theorem rule_crosses_envelope_witness:
  "\<exists>e. encode_rule_envelope (\<lambda>_. 5) (demo_rule Global) 7 1 100 1 8 None = Inr e \<and>
     decode_rule_envelope (\<lambda>_. 5) e = Inr (rule_received (demo_rule Global))"
proof -
  have "length (rule_bytes (demo_rule Global)) \<le> 163" by (rule length_rule_bytes) (simp add: demo_rule_ok)
  then obtain e where "encode_rule_envelope (\<lambda>_. 5) (demo_rule Global) 7 1 100 1 8 None = Inr e"
    by (simp add: encode_rule_envelope_def encode_rule_iff[THEN iffD2] demo_rule_ok envelope_validate_def signature_len_def Let_def)
  then show ?thesis using rule_crosses_envelope[OF demo_rule_ok(1)] by blast
qed

text \<open>A node is silent exactly when speaking would change nothing: a rule is transmitted if and only if installing it
  in the shared model changes a prediction; when it is withheld, every prediction and every held-out score of the shared
  model is what it would be with the rule.\<close>

theorem silence_changes_nothing:
  "(should_transmit r w \<longleftrightarrow> predict (world_install w r) \<noteq> predict w) \<and>
   (should_transmit r w \<or> holdout_scores w (Some r) = holdout_scores w None \<and>
     holdout_scores (world_install w r) None = holdout_scores w None)"
proof -
  have after: "predict (world_install w r) p a = (if p = rl_pre r \<and> a = rl_action r then Some (rl_post r) else predict w p a)" for p a
    by (simp add: predict_def world_install_def)
  have iff: "should_transmit r w \<longleftrightarrow> predict w (rl_pre r) (rl_action r) \<noteq> Some (rl_post r)"
    by (auto simp: should_transmit_def split: option.split)
  have "predict (world_install w r) = predict w \<longleftrightarrow> \<not> should_transmit r w" by (auto simp: fun_eq_iff after iff)
  moreover have "holdout_score w (Some r) = holdout_score w None" if "\<not> should_transmit r w"
    using that by (auto simp: fun_eq_iff holdout_score_def Let_def iff)
  moreover have "holdout_score (world_install w r) None = holdout_score w None" if "predict (world_install w r) = predict w"
    using that by (simp add: fun_eq_iff holdout_score_def)
  ultimately show ?thesis by (auto simp: holdout_scores_def world_install_def)
qed

end
