(* ===== verification/Fed_Admission.thy ===== *)
theory Fed_Admission
  imports Federation Latent_Gate
begin

text \<open>
  \<open>latentmesh-federation/src/admission.rs\<close>: a node validates a rule offered by a peer against its own held-out
  transitions. The generator and the shuffle of the crate \<open>rand\<close> are parameters; a rejection keeps the values that
  its text shows.
\<close>

record admission_config =
  ad_alpha :: f64
  ad_resamples :: nat
  ad_seed :: u64
  ad_min_holdout :: nat

definition admission_default :: admission_config where
  "admission_default = \<lparr> ad_alpha = f64_of (5 / 100), ad_resamples = 1000, ad_seed = 0x4c4d46454431, ad_min_holdout = 8 \<rparr>"

datatype rule_reason =
  ForeignCluster u32 u32 | NotFederable | ThinHoldout nat nat | Underperforms f64 | NotEarned f64 f64 f64

datatype rule_verdict = RuleAdmit f64 f64 | RuleReject string rule_reason

text \<open>The three controls: no rule, the candidate with a wrong outcome, and the candidate in the wrong place.\<close>

definition shuffled_decoy :: "(bytes list \<Rightarrow> bytes list) \<Rightarrow> world_model \<Rightarrow> transition_rule \<Rightarrow> transition_rule" where
  "shuffled_decoy shuffle w c =
     c\<lparr> rl_post := (case find (\<lambda>p. p \<noteq> rl_post c) (shuffle (map ts_post (wm_holdout w))) of
         Some p \<Rightarrow> p | None \<Rightarrow> ascii ''__shuffled__'') \<rparr>"

definition mismatched_decoy :: "transition_rule \<Rightarrow> transition_rule" where
  "mismatched_decoy c = c\<lparr> rl_pre := ascii ''__not_'' @ rl_pre c \<rparr>"

definition rule_controls ::
  "(bytes list \<Rightarrow> bytes list) \<Rightarrow> world_model \<Rightarrow> transition_rule \<Rightarrow> (string \<times> f64 list) list" where
  "rule_controls shuffle w c =
     [(''no_rule'', holdout_scores w None),
      (''support_shuffled'', holdout_scores w (Some (shuffled_decoy shuffle w c))),
      (''scope_mismatched'', holdout_scores w (Some (mismatched_decoy c)))]"

text \<open>The loop over the controls, which stops at the first one that the candidate underperforms.\<close>

fun admission_loop ::
  "'r rng \<Rightarrow> admission_config \<Rightarrow> f64 list \<Rightarrow> nat \<Rightarrow> (string \<times> f64 list) list \<Rightarrow> f64 \<times> string \<times> f64
   \<Rightarrow> rule_verdict + f64 \<times> string \<times> f64" where
  "admission_loop R cfg scores i [] state = Inr state"
| "admission_loop R cfg scores i ((name, control) # rest) (worst_p, worst_name, gain) =
     (let differences = map2 d_sub scores control;
          mean_diff = d_mean differences;
          gain = (if name = ''no_rule'' then mean_diff else gain);
          p = sign_flip_permutation_test R differences (ad_resamples cfg) (ad_seed cfg + of_nat i + 1);
          (worst_p, worst_name) = (if fp_lt worst_p p then (p, name) else (worst_p, worst_name))
      in if fp_lt mean_diff f_zero then Inl (RuleReject name (Underperforms mean_diff))
         else admission_loop R cfg scores (Suc i) rest (worst_p, worst_name, gain))"

definition validate_candidate ::
  "'r rng \<Rightarrow> ('r \<Rightarrow> bytes list \<Rightarrow> bytes list) \<Rightarrow> world_model \<Rightarrow> transition_rule \<Rightarrow> u32 \<Rightarrow> admission_config \<Rightarrow> rule_verdict" where
  "validate_candidate R shuffle w c local_cluster cfg =
     (let n = length (wm_holdout w);
          judged = (let shuffle' = shuffle (seed_from_u64 R (ad_seed cfg)) in
            case admission_loop R cfg (holdout_scores w (Some c)) 0 (rule_controls shuffle' w c) (f_zero, [], f_zero) of
              Inl verdict \<Rightarrow> verdict
            | Inr (worst_p, worst_name, gain) \<Rightarrow>
                if fp_lt f_zero gain \<and> fp_lt worst_p (ad_alpha cfg) then RuleAdmit gain worst_p
                else RuleReject worst_name (NotEarned gain worst_p (ad_alpha cfg)));
          local_check = (if n < ad_min_holdout cfg then RuleReject ''holdout'' (ThinHoldout n (ad_min_holdout cfg)) else judged)
      in case rl_scope c of
           Cluster k \<Rightarrow> (if k \<noteq> local_cluster then RuleReject ''scope'' (ForeignCluster k local_cluster) else local_check)
         | Private \<Rightarrow> RuleReject ''scope'' NotFederable
         | _ \<Rightarrow> local_check)"

section \<open>The loop\<close>

definition beats :: "'r rng \<Rightarrow> admission_config \<Rightarrow> f64 list \<Rightarrow> nat \<Rightarrow> f64 list \<Rightarrow> f64 \<Rightarrow> bool" where
  "beats R cfg scores i control worst \<longleftrightarrow>
     \<not> fp_lt (d_mean (map2 d_sub scores control)) f_zero \<and>
     fp_le (sign_flip_permutation_test R (map2 d_sub scores control) (ad_resamples cfg) (ad_seed cfg + of_nat i + 1)) worst"

lemma admission_loop_Inr:
  assumes "admission_loop R cfg scores i controls (Fin False w0, n0, g0) = Inr (worst, nm, gain)"
    and "ad_resamples cfg < 2 ^ 64"
  shows "(\<exists>m. worst = Fin False m \<and> w0 \<le> m) \<and>
    (\<forall>(j, name, control)\<in>set (enumerate i controls). beats R cfg scores j control worst)"
  using assms(1)
proof (induction controls arbitrary: i w0 n0 g0)
  case (Cons x controls)
  obtain name control where x: "x = (name, control)" by fastforce
  let ?ds = "map2 d_sub scores control"
  obtain q where q: "sign_flip_permutation_test R ?ds (ad_resamples cfg) (ad_seed cfg + of_nat i + 1) = Fin False q"
    using p_value_positive[OF assms(2)] by blast
  have kept: "\<not> fp_lt (d_mean ?ds) f_zero" using Cons.prems by (auto simp: x Let_def)
  obtain n1 g1 where "admission_loop R cfg scores (Suc i) controls (Fin False (max w0 q), n1, g1) = Inr (worst, nm, gain)"
    using Cons.prems kept q by (auto simp: x Let_def max_def not_less not_le split: if_splits)
  then obtain m where "worst = Fin False m" "max w0 q \<le> m"
    "\<forall>(j, name, control)\<in>set (enumerate (Suc i) controls). beats R cfg scores j control worst"
    using Cons.IH by blast
  then show ?case using kept q by (auto simp: x beats_def)
qed auto

lemma admission_loop_gain:
  assumes "admission_loop R cfg scores i controls (w0, n0, g0) = Inr (worst, nm, gain)"
    and "\<forall>(name, control)\<in>set controls. name \<noteq> ''no_rule''"
  shows "gain = g0"
  using assms by (induction controls arbitrary: i w0 n0) (auto simp: Let_def case_prod_beta split: if_splits)

section \<open>The gain\<close>

lemma fp_round_nonpos: "x \<le> 0 \<Longrightarrow> fp_le (fp_round F s x) f_zero"
  using round_magnitude_nonneg[of "- x" F] by (simp add: fp_round_def Let_def)

lemma mean_nonpos:
  assumes "\<forall>d\<in>set ds. fp_le d f_zero" and "0 < length ds" and "length ds < 2 ^ 53"
  shows "\<not> fp_lt f_zero (d_mean ds)"
proof -
  have step: "fp_le (d_add a b) f_zero" if "fp_le a f_zero" "fp_le b f_zero" for a b
    using that by (cases a; cases b) (auto simp: fp_round_nonpos split: if_splits)
  have "fp_le (foldl d_add a ds) f_zero" if "fp_le a f_zero" for a
    using that assms(1) by (induction ds arbitrary: a) (simp_all add: step)
  then have sum: "fp_le (d_sum ds) f_zero" by (simp add: d_sum_def)
  have "f64_of (of_nat (length ds)) = Fin False (of_nat (length ds))"
    using fp_round_exact[of "length ds" binary64 0] assms(3) by (simp add: fp_of_rat_def)
  moreover have "fp_le (d_div x (Fin False (of_nat (length ds)))) f_zero" if "fp_le x f_zero" for x
    using that assms(2) by (cases x) (auto simp: fp_round_nonpos divide_nonpos_pos split: if_splits)
  ultimately have "fp_le (d_mean ds) f_zero" using sum by (simp add: d_mean_def)
  then show ?thesis by (cases "d_mean ds") auto
qed

lemma score_cases: "holdout_score w c t = f_zero \<or> holdout_score w c t = f_one"
  by (simp add: holdout_score_def Let_def split: option.split)

text \<open>A candidate that corrects no held-out prediction gains nothing.\<close>

lemma no_correction_no_gain:
  assumes "\<forall>t\<in>set (wm_holdout w). holdout_score w (Some c) t = f_one \<longrightarrow> holdout_score w None t = f_one"
    and "0 < length (wm_holdout w)" and "length (wm_holdout w) < 2 ^ 53"
  shows "\<not> fp_lt f_zero (d_mean (map2 d_sub (holdout_scores w (Some c)) (holdout_scores w None)))"
proof (rule mean_nonpos)
  have "fp_le (d_sub (holdout_score w (Some c) t) (holdout_score w None t)) f_zero" if "t \<in> set (wm_holdout w)" for t
    using assms(1) that score_cases[of w "Some c" t] score_cases[of w None t]
    by (auto simp: fp_sub_def fp_round_nonpos)
  then show "\<forall>d\<in>set (map2 d_sub (holdout_scores w (Some c)) (holdout_scores w None)). fp_le d f_zero"
    by (auto simp: holdout_scores_def zip_map_map zip_same_conv_map)
qed (use assms(2,3) in \<open>simp_all add: holdout_scores_def\<close>)

lemma mean_empty: "d_mean [] = NaN"
  by (simp add: d_mean_def d_sum_def fp_of_rat_def fp_round_def)

lemma judged_admit:
  assumes "validate_candidate R shuffle w c local_cluster cfg = RuleAdmit gain worst"
  obtains nm where "offerable_to c local_cluster" and "ad_min_holdout cfg \<le> length (wm_holdout w)"
    and "admission_loop R cfg (holdout_scores w (Some c)) 0 (rule_controls (shuffle (seed_from_u64 R (ad_seed cfg))) w c)
      (f_zero, [], f_zero) = Inr (worst, nm, gain)"
    and "fp_lt f_zero gain" and "fp_lt worst (ad_alpha cfg)"
proof -
  define loop where "loop = admission_loop R cfg (holdout_scores w (Some c)) 0
    (rule_controls (shuffle (seed_from_u64 R (ad_seed cfg))) w c) (f_zero, [], f_zero)"
  have never: "v \<noteq> RuleAdmit gain worst" if "loop = Inl v" for v
    using that unfolding loop_def rule_controls_def by (auto simp: Let_def case_prod_beta split: if_splits)
  have "offerable_to c local_cluster \<and> ad_min_holdout cfg \<le> length (wm_holdout w) \<and>
    (\<exists>nm. loop = Inr (worst, nm, gain)) \<and> fp_lt f_zero gain \<and> fp_lt worst (ad_alpha cfg)"
    using assms never unfolding validate_candidate_def Let_def loop_def[symmetric]
    by (auto simp: offerable_to_def not_less split: rule_scope.splits if_splits sum.splits prod.splits)
  then show thesis using that unfolding loop_def by blast
qed

section \<open>Properties\<close>

text \<open>C18. A rule from a peer is admitted on local evidence only: its scope allows this cluster, the held-out log is long
  enough, and the rule corrects a held-out transition that the node's own model predicts wrongly or not at all, so that the
  sender had something to say; it is no worse than any of the three controls, and significant against each of them.\<close>

theorem admitted_rule_earned:
  assumes "validate_candidate R shuffle w c local_cluster cfg = RuleAdmit gain worst"
    and "ad_resamples cfg < 2 ^ 64" and "length (wm_holdout w) < 2 ^ 53"
  shows "should_transmit_to c w local_cluster \<and> ad_min_holdout cfg \<le> length (wm_holdout w) \<and>
    (\<exists>t\<in>set (wm_holdout w). rl_pre c = ts_pre t \<and> rl_action c = ts_action t \<and> rl_post c = ts_post t \<and>
       predict w (ts_pre t) (ts_action t) \<noteq> Some (ts_post t)) \<and>
    fp_lt f_zero gain \<and> fp_lt worst (ad_alpha cfg) \<and>
    (\<forall>(i, name, control)\<in>set (enumerate 0 (rule_controls (shuffle (seed_from_u64 R (ad_seed cfg))) w c)).
       beats R cfg (holdout_scores w (Some c)) i control worst)"
proof -
  obtain nm where offer: "offerable_to c local_cluster" and n: "ad_min_holdout cfg \<le> length (wm_holdout w)"
    and loop: "admission_loop R cfg (holdout_scores w (Some c)) 0 (rule_controls (shuffle (seed_from_u64 R (ad_seed cfg))) w c)
      (f_zero, [], f_zero) = Inr (worst, nm, gain)"
    and gain: "fp_lt f_zero gain" and worst: "fp_lt worst (ad_alpha cfg)"
    by (rule judged_admit[OF assms(1)])
  let ?no_rule = "d_mean (map2 d_sub (holdout_scores w (Some c)) (holdout_scores w None))"
  have "\<exists>w1 n1. admission_loop R cfg (holdout_scores w (Some c)) 1 (tl (rule_controls (shuffle (seed_from_u64 R (ad_seed cfg))) w c))
      (w1, n1, ?no_rule) = Inr (worst, nm, gain)"
    using loop unfolding rule_controls_def by (simp add: Let_def case_prod_beta split: if_splits) metis+
  then have "gain = ?no_rule" by (rule exE) (erule exE, erule admission_loop_gain, simp add: rule_controls_def)
  then have nonempty: "wm_holdout w \<noteq> []" and positive: "fp_lt f_zero ?no_rule"
    using gain by (auto simp: holdout_scores_def mean_empty)
  obtain t where t: "t \<in> set (wm_holdout w)" "holdout_score w (Some c) t = f_one" "holdout_score w None t \<noteq> f_one"
    using no_correction_no_gain[of w c] nonempty positive assms(3) by auto
  have right: "rl_pre c = ts_pre t \<and> rl_action c = ts_action t \<and> rl_post c = ts_post t \<and>
      predict w (ts_pre t) (ts_action t) \<noteq> Some (ts_post t)"
    using t(2,3) by (auto simp: holdout_score_def Let_def split: option.splits if_splits)
  then have "should_transmit_to c w local_cluster"
    using offer by (auto simp: should_transmit_to_def should_transmit_def split: option.split)
  moreover have "\<forall>(i, name, control)\<in>set (enumerate 0 (rule_controls (shuffle (seed_from_u64 R (ad_seed cfg))) w c)).
      beats R cfg (holdout_scores w (Some c)) i control worst"
    using admission_loop_Inr[OF loop assms(2)] by (elim conjE)
  ultimately show ?thesis using n gain worst t(1) right by blast
qed

definition demo_world :: world_model where
  "demo_world = (let t = \<lparr> ts_pre = ascii ''hot'', ts_action = ascii ''cool'', ts_post = ascii ''warm'' \<rparr>
     in record_holdout (record_holdout world_new t) t)"

definition demo_admission :: admission_config where
  "demo_admission = \<lparr> ad_alpha = Fin False (1 / 2), ad_resamples = 3, ad_seed = 7, ad_min_holdout = 2 \<rparr>"

lemma demo_admits: "validate_candidate demo_rng (\<lambda>_. rev) demo_world (demo_rule Global) 4 demo_admission = RuleAdmit f_one (Fin False (1 / 4))"
proof -
  have scores: "holdout_scores demo_world (Some (demo_rule Global)) = [f_one, f_one]" "holdout_scores demo_world None = [f_zero, f_zero]"
    "holdout_scores demo_world (Some (shuffled_decoy rev demo_world (demo_rule Global))) = [f_zero, f_zero]"
    "holdout_scores demo_world (Some (mismatched_decoy (demo_rule Global))) = [f_zero, f_zero]"
    "length (wm_holdout demo_world) = 2"
    by (simp_all add: demo_world_def Let_def demo_rule_def holdout_scores_def holdout_score_def record_holdout_def world_new_def
        predict_def shuffled_decoy_def mismatched_decoy_def ascii_def)
  have minus: "d_sub f_one f_zero = f_one" by (simp add: fp_sub_def)
  have mean: "d_mean [f_one, f_one] = f_one" by (simp add: d_mean_def d_sum_def fp_of_rat_def)
  have "rl_scope (demo_rule Global) = Global" by (simp add: demo_rule_def)
  then show ?thesis
    by (simp add: validate_candidate_def rule_controls_def scores minus mean demo_p demo_admission_def Let_def)
qed

theorem admitted_rule_earned_witness:
  "should_transmit_to (demo_rule Global) demo_world 4 \<and> fp_lt (Fin False (1 / 4)) (ad_alpha demo_admission)"
proof -
  have "ad_resamples demo_admission < 2 ^ 64" "length (wm_holdout demo_world) < 2 ^ 53"
    by (simp_all add: demo_admission_def demo_world_def Let_def record_holdout_def world_new_def)
  then show ?thesis using admitted_rule_earned[OF demo_admits] by blast
qed

end
