(* ===== verification/Latent_Memory.thy ===== *)
theory Latent_Memory
  imports Latent_Core Float_Order BTree Sort_By "HOL-Library.List_Lexorder"
begin

text \<open>
  \<open>latentmesh-memory\<close>: the records and the fidelity continuum (\<open>record.rs\<close>), the measured compression
  (\<open>compress.rs\<close>) and the in-memory store (\<open>store.rs\<close>). The crate \<open>half\<close> and the square root are
  parameters; \<open>None\<close> is the arithmetic panic of the Int8 codec. Strings are their bytes.
\<close>

section \<open>Records\<close>

datatype fidelity = Raw | Compressed | Prototype | Rule

fun fidelity_rank :: "fidelity \<Rightarrow> nat" where
  "fidelity_rank Raw = 0"
| "fidelity_rank Compressed = 1"
| "fidelity_rank Prototype = 2"
| "fidelity_rank Rule = 3"

lemma fidelity_rank_inject [simp]: "fidelity_rank a = fidelity_rank b \<longleftrightarrow> a = b"
  by (cases a; cases b) auto

instantiation fidelity :: linorder
begin

definition less_eq_fidelity :: "fidelity \<Rightarrow> fidelity \<Rightarrow> bool" where
  "less_eq_fidelity a b \<longleftrightarrow> fidelity_rank a \<le> fidelity_rank b"

definition less_fidelity :: "fidelity \<Rightarrow> fidelity \<Rightarrow> bool" where
  "less_fidelity a b \<longleftrightarrow> fidelity_rank a < fidelity_rank b"

instance
  by standard (auto simp: less_eq_fidelity_def less_fidelity_def)

end

record trajectory_record =
  tj_id :: bytes
  tj_latent :: "f32 list"
  tj_reward :: f32
  tj_context_hash :: bytes
  tj_action :: bytes
  tj_outcome :: bytes
  tj_causal_value :: f64
  tj_fidelity :: fidelity
  tj_reconstruction_error :: f32
  tj_parents :: "bytes list"

record topology_record =
  tp_family :: bytes
  tp_agent_sequence :: "bytes list"
  tp_successful_uses :: u32

record symbolic_rule =
  sy_family :: bytes
  sy_rule :: bytes
  sy_promoted_from :: bytes
  sy_uses :: u32

section \<open>Compression\<close>

record compression_outcome =
  co_latent :: "f32 list"
  co_mean_abs_error :: f32
  co_wire_bytes :: nat

definition compress_latent :: "half_ops \<Rightarrow> f32 list \<Rightarrow> encoding \<Rightarrow> compression_outcome option" where
  "compress_latent H latent enc =
     Option.bind (payload_encode H latent enc) (\<lambda>payload.
       Option.bind (payload_decode H payload) (\<lambda>decoded.
         let mean_abs_error = (if latent = [] then f_zero
               else f_div (f_sum (map2 (\<lambda>a b. fp_abs (f_sub a b)) latent decoded)) (f32_of (of_nat (length latent))))
         in Some \<lparr> co_latent = decoded, co_mean_abs_error = mean_abs_error, co_wire_bytes = wire_bytes payload \<rparr>))"

section \<open>The store\<close>

record memory_config =
  mo_dimensions :: nat
  mo_raw_tier_causal_floor :: f64
  mo_rule_promotion_uses :: u32

definition memory_default :: memory_config where
  "memory_default = \<lparr> mo_dimensions = 64, mo_raw_tier_causal_floor = Fin False (1 / 2), mo_rule_promotion_uses = 3 \<rparr>"

datatype memory_error =
    DimensionMismatch nat nat | DuplicateId bytes | UnknownId bytes | CausalValueBelowFloor f64 f64
  | FidelityRegression fidelity fidelity | NotEnoughMembers nat | NotReusedEnough u32 u32

record memory_store =
  ms_config :: memory_config
  ms_records :: "(bytes, trajectory_record) btree"
  ms_insertion_order :: "bytes list"
  ms_topologies :: "topology_record list"
  ms_rules :: "symbolic_rule list"

record recalled =
  re_record :: trajectory_record
  re_similarity :: f32

definition f32_EPSILON :: f32 where "f32_EPSILON = Fin False (1 / 8388608)"

definition cosine :: "libm \<Rightarrow> f32 list \<Rightarrow> f32 list \<Rightarrow> f32" where
  "cosine L a b =
     (let dot = f_sum (map2 f_mul a b);
          na = sqrtf L (f_sum (map (\<lambda>x. f_mul x x) a));
          nb = sqrtf L (f_sum (map (\<lambda>x. f_mul x x) b))
      in if fp_le na f32_EPSILON \<or> fp_le nb f32_EPSILON then f_zero else f_div dot (f_mul na nb))"

definition admit_fidelity :: "trajectory_record \<Rightarrow> memory_config \<Rightarrow> memory_error + unit" where
  "admit_fidelity r cfg =
     (if length (tj_latent r) \<noteq> mo_dimensions cfg then Inl (DimensionMismatch (length (tj_latent r)) (mo_dimensions cfg))
      else if tj_fidelity r = Raw \<and> fp_lt (tj_causal_value r) (mo_raw_tier_causal_floor cfg)
      then Inl (CausalValueBelowFloor (tj_causal_value r) (mo_raw_tier_causal_floor cfg))
      else Inr ())"

definition memory_new :: "memory_config \<Rightarrow> memory_store" where
  "memory_new cfg = \<lparr> ms_config = cfg, ms_records = [], ms_insertion_order = [], ms_topologies = [], ms_rules = [] \<rparr>"

definition memory_get :: "memory_store \<Rightarrow> bytes \<Rightarrow> trajectory_record option" where
  "memory_get s i = bt_get (ms_records s) i"

definition memory_len :: "memory_store \<Rightarrow> nat" where
  "memory_len s = length (ms_records s)"

definition store_topology :: "memory_store \<Rightarrow> topology_record \<Rightarrow> memory_store" where
  "store_topology s t = s\<lparr> ms_topologies := ms_topologies s @ [t] \<rparr>"

text \<open>\<open>max_by_key\<close> over the topologies of a family: the index of the last one with the most uses.\<close>

definition most_used :: "bytes \<Rightarrow> topology_record list \<Rightarrow> nat option" where
  "most_used family ts =
     foldl (\<lambda>best i. if tp_family (ts ! i) \<noteq> family then best
         else case best of None \<Rightarrow> Some i
         | Some j \<Rightarrow> (if tp_successful_uses (ts ! j) \<le> tp_successful_uses (ts ! i) then Some i else best))
       None [0..<length ts]"

definition recall_topology :: "memory_store \<Rightarrow> bytes \<Rightarrow> topology_record option" where
  "recall_topology s family = map_option (nth (ms_topologies s)) (most_used family (ms_topologies s))"

definition record_topology_use :: "memory_store \<Rightarrow> bytes \<Rightarrow> memory_store" where
  "record_topology_use s family =
     (case most_used family (ms_topologies s) of
        None \<Rightarrow> s
      | Some i \<Rightarrow>
          let t = ms_topologies s ! i;
              uses = (if tp_successful_uses t = - 1 then - 1 else tp_successful_uses t + 1)
          in s\<lparr> ms_topologies := (ms_topologies s)[i := t\<lparr> tp_successful_uses := uses \<rparr>] \<rparr>)"

definition promote_to_rule :: "memory_store \<Rightarrow> bytes \<Rightarrow> u32 \<Rightarrow> bytes \<Rightarrow> memory_store \<times> (memory_error + unit)" where
  "promote_to_rule s i uses rule_text =
     (case bt_get (ms_records s) i of
        None \<Rightarrow> (s, Inl (UnknownId i))
      | Some proto \<Rightarrow>
          if uses < mo_rule_promotion_uses (ms_config s)
          then (s, Inl (NotReusedEnough uses (mo_rule_promotion_uses (ms_config s))))
          else (s\<lparr> ms_records := bt_insert i (proto\<lparr> tj_fidelity := Rule \<rparr>) (ms_records s),
                   ms_rules := ms_rules s @
                     [\<lparr> sy_family = tj_action proto, sy_rule = rule_text, sy_promoted_from = i, sy_uses = uses \<rparr>] \<rparr>, Inr ()))"

definition store_record :: "memory_store \<Rightarrow> trajectory_record \<Rightarrow> memory_store \<times> (memory_error + unit)" where
  "store_record s r =
     (case admit_fidelity r (ms_config s) of
        Inl e \<Rightarrow> (s, Inl e)
      | Inr _ \<Rightarrow>
          if bt_get (ms_records s) (tj_id r) \<noteq> None then (s, Inl (DuplicateId (tj_id r)))
          else (s\<lparr> ms_insertion_order := ms_insertion_order s @ [tj_id r],
                   ms_records := bt_insert (tj_id r) r (ms_records s) \<rparr>, Inr ()))"

definition store_compressed :: "half_ops \<Rightarrow> memory_store \<Rightarrow> trajectory_record \<Rightarrow> (memory_store \<times> (memory_error + unit)) option" where
  "store_compressed H s r =
     map_option (\<lambda>outcome. store_record s (r\<lparr> tj_latent := co_latent outcome,
         tj_reconstruction_error := f_add (tj_reconstruction_error r) (co_mean_abs_error outcome),
         tj_fidelity := Compressed \<rparr>))
       (compress_latent H (tj_latent r) Int8)"

text \<open>\<open>partial_cmp\<close> with the operands exchanged, \<open>Equal\<close> when there is no order: a stable descending sort.\<close>

definition not_less_similar :: "recalled \<Rightarrow> recalled \<Rightarrow> bool" where
  "not_less_similar a b \<longleftrightarrow> \<not> fp_lt (re_similarity a) (re_similarity b)"

definition recall_hits :: "libm \<Rightarrow> memory_store \<Rightarrow> f32 list \<Rightarrow> recalled list" where
  "recall_hits L s query =
     map (\<lambda>r. \<lparr> re_record = r, re_similarity = cosine L query (tj_latent r) \<rparr>)
       (List.map_filter (bt_get (ms_records s)) (ms_insertion_order s))"

definition memory_recall :: "libm \<Rightarrow> memory_store \<Rightarrow> f32 list \<Rightarrow> nat \<Rightarrow> memory_error + recalled list" where
  "memory_recall L s query k =
     (if length query \<noteq> mo_dimensions (ms_config s)
      then Inl (DimensionMismatch (length query) (mo_dimensions (ms_config s)))
      else Inr (take k (sort_by not_less_similar (recall_hits L s query))))"

definition compress_to :: "half_ops \<Rightarrow> memory_store \<Rightarrow> bytes \<Rightarrow> fidelity \<Rightarrow> (memory_store \<times> (memory_error + f32)) option" where
  "compress_to H s i target =
     (case bt_get (ms_records s) i of
        None \<Rightarrow> Some (s, Inl (UnknownId i))
      | Some r \<Rightarrow>
          if target \<le> tj_fidelity r then Some (s, Inl (FidelityRegression (tj_fidelity r) target))
          else map_option (\<lambda>outcome.
              let err = f_add (tj_reconstruction_error r) (co_mean_abs_error outcome)
              in (s\<lparr> ms_records := bt_insert i (r\<lparr> tj_latent := co_latent outcome, tj_reconstruction_error := err,
                    tj_fidelity := target \<rparr>) (ms_records s) \<rparr>, Inr err))
            (compress_latent H (tj_latent r) (if target = Compressed then F16 else Int8)))"

text \<open>The loop over the members of a prototype: the sums of their latents, rewards and causal values.\<close>

definition add_latent :: "f32 list \<Rightarrow> f32 list \<Rightarrow> f32 list" where
  "add_latent centroid latent = map2 f_add centroid latent @ drop (length latent) centroid"

fun sum_members ::
  "(bytes, trajectory_record) btree \<Rightarrow> bytes list \<Rightarrow> f32 list \<times> f32 \<times> f64 \<Rightarrow> memory_error + f32 list \<times> f32 \<times> f64" where
  "sum_members records [] acc = Inr acc"
| "sum_members records (i # is) (centroid, reward, causal) =
     (case bt_get records i of
        None \<Rightarrow> Inl (UnknownId i)
      | Some m \<Rightarrow> sum_members records is
          (add_latent centroid (tj_latent m), f_add reward (tj_reward m), d_add causal (tj_causal_value m)))"

definition promote_to_prototype ::
  "memory_store \<Rightarrow> bytes \<Rightarrow> bytes \<Rightarrow> bytes list \<Rightarrow> memory_store \<times> (memory_error + unit)" where
  "promote_to_prototype s prototype_id family member_ids =
     (if length member_ids < 2 then (s, Inl (NotEnoughMembers (length member_ids)))
      else case sum_members (ms_records s) member_ids (replicate (mo_dimensions (ms_config s)) f_zero, f_zero, f_zero) of
        Inl e \<Rightarrow> (s, Inl e)
      | Inr (centroid, reward, causal) \<Rightarrow>
          let n = f32_of (of_nat (length member_ids))
          in store_record s
              \<lparr> tj_id = prototype_id, tj_latent = map (\<lambda>c. f_div c n) centroid, tj_reward = f_div reward n,
                tj_context_hash = ascii ''prototype:'' @ family, tj_action = family, tj_outcome = ascii ''prototype'',
                tj_causal_value = d_div causal (f64_of (of_nat (length member_ids))), tj_fidelity = Prototype,
                tj_reconstruction_error = f_zero, tj_parents = member_ids \<rparr>)"

section \<open>The invariant\<close>

datatype memory_op =
    Store trajectory_record
  | StoreCompressed trajectory_record
  | CompressTo bytes fidelity
  | PromoteToPrototype bytes bytes "bytes list"
  | PromoteToRule bytes u32 bytes
  | StoreTopology topology_record
  | RecordTopologyUse bytes

text \<open>A panic leaves the store as it is: the arithmetic comes before the assignments.\<close>

fun memory_step :: "half_ops \<Rightarrow> memory_store \<Rightarrow> memory_op \<Rightarrow> memory_store \<times> (memory_error + unit) option" where
  "memory_step H s (Store r) = apsnd Some (store_record s r)"
| "memory_step H s (StoreCompressed r) =
     (case store_compressed H s r of None \<Rightarrow> (s, None) | Some (s', out) \<Rightarrow> (s', Some out))"
| "memory_step H s (CompressTo i target) =
     (case compress_to H s i target of None \<Rightarrow> (s, None) | Some (s', out) \<Rightarrow> (s', Some (rbind out (\<lambda>_. Inr ()))))"
| "memory_step H s (PromoteToPrototype i family ids) = apsnd Some (promote_to_prototype s i family ids)"
| "memory_step H s (PromoteToRule i uses body) = apsnd Some (promote_to_rule s i uses body)"
| "memory_step H s (StoreTopology t) = (store_topology s t, Some (Inr ()))"
| "memory_step H s (RecordTopologyUse family) = (record_topology_use s family, Some (Inr ()))"

definition record_ok :: "memory_config \<Rightarrow> bytes \<times> trajectory_record \<Rightarrow> bool" where
  "record_ok cfg e \<longleftrightarrow> tj_id (snd e) = fst e \<and> length (tj_latent (snd e)) = mo_dimensions cfg \<and>
     (tj_fidelity (snd e) = Raw \<longrightarrow> \<not> fp_lt (tj_causal_value (snd e)) (mo_raw_tier_causal_floor cfg))"

definition rule_sound :: "memory_store \<Rightarrow> symbolic_rule \<Rightarrow> bool" where
  "rule_sound s r \<longleftrightarrow> mo_rule_promotion_uses (ms_config s) \<le> sy_uses r \<and>
     (\<exists>p. bt_get (ms_records s) (sy_promoted_from r) = Some p \<and> tj_fidelity p = Rule \<and> tj_action p = sy_family r)"

definition memory_ok :: "memory_store \<Rightarrow> bool" where
  "memory_ok s \<longleftrightarrow> bt_ok (ms_records s) \<and> list_all (record_ok (ms_config s)) (ms_records s) \<and>
     distinct (ms_insertion_order s) \<and> set (ms_insertion_order s) = fst ` set (ms_records s) \<and>
     list_all (rule_sound s) (ms_rules s)"

text \<open>\<open>half\<close> writes two bytes for a number.\<close>

definition half_sized :: "half_ops \<Rightarrow> bool" where
  "half_sized H \<longleftrightarrow> (\<forall>v. length (f16_to_le_bytes H v) = 2)"

lemma those_map_length: "those (map f xs) = Some ys \<Longrightarrow> length ys = length xs"
  using those_length[of "map f xs" ys] by simp

lemma compress_latent_length:
  assumes "compress_latent H vs enc = Some out" and "half_sized H"
  shows "length (co_latent out) = length vs"
proof -
  obtain p ws where p: "payload_encode H vs enc = Some p" and ws: "payload_decode H p = Some ws" and out: "co_latent out = ws"
    using assms(1) by (auto simp: compress_latent_def Let_def split: bind_splits)
  have shape: "pl_encoding p = enc" "length (pl_bytes p) = length vs * bytes_per_element enc"
    using payload_shape[OF p] assms(2) by (simp_all add: half_sized_def)
  show ?thesis
  proof (cases enc)
    case Int8
    then show ?thesis using ws shape by (auto simp: out payload_decode_def case_prod_beta Let_def dest!: those_map_length)
  next
    case F32
    then have "pl_bytes p = concat (map f32_to_le_bytes vs)" using p by (auto simp: payload_encode_def)
    then have "chunks_exact 4 (pl_bytes p) = map f32_to_le_bytes vs"
      by (simp only:) (rule chunks_exact_concat; simp add: f32_to_le_bytes_def list_all_iff)
    then show ?thesis using ws shape(1) F32 by (auto simp: out payload_decode_def)
  next
    case F16
    then have "pl_bytes p = concat (map (f16_to_le_bytes H) vs)" using p by (auto simp: payload_encode_def)
    then have "chunks_exact 2 (pl_bytes p) = map (f16_to_le_bytes H) vs"
      using assms(2) by (simp only:) (rule chunks_exact_concat; simp add: half_sized_def list_all_iff)
    then show ?thesis using ws shape(1) F16 by (auto simp: out payload_decode_def)
  qed
qed

text \<open>Replacing a stored record by one that is as good, and storing a new one.\<close>

lemma record_set_insert: "bt_ok m \<Longrightarrow> list_all P m \<Longrightarrow> P (k, v) \<Longrightarrow> list_all P (bt_insert k v m)"
  using bt_insert_set[of k v m] by (auto simp: list_all_iff)

lemma rule_kept:
  assumes "rule_sound s r" and "ms_config t = ms_config s"
    and "\<And>i p. bt_get (ms_records s) i = Some p \<Longrightarrow> tj_fidelity p = Rule \<Longrightarrow>
      \<exists>q. bt_get (ms_records t) i = Some q \<and> tj_fidelity q = Rule \<and> tj_action q = tj_action p"
  shows "rule_sound t r"
  using assms unfolding rule_sound_def by fastforce

lemma replace_ok:
  assumes ok: "memory_ok s" and r: "bt_get (ms_records s) i = Some r" and r': "record_ok (ms_config s) (i, r')"
    and keep: "tj_action r' = tj_action r" "tj_fidelity r = Rule \<longrightarrow> tj_fidelity r' = Rule"
  shows "memory_ok (s\<lparr> ms_records := bt_insert i r' (ms_records s) \<rparr>)"
proof -
  let ?t = "s\<lparr> ms_records := bt_insert i r' (ms_records s) \<rparr>"
  have "i \<in> fst ` set (ms_records s)" using r by (metis bt_get_dom option.distinct(1))
  moreover have "rule_sound ?t x" if "rule_sound s x" for x
    by (rule rule_kept[OF that]) (use r keep in auto)
  ultimately show ?thesis using ok r'
    by (auto simp: memory_ok_def bt_insert_ok record_set_insert list_all_iff[of "rule_sound _"])
qed

lemma store_record_ok:
  assumes ok: "memory_ok s"
  shows "memory_ok (fst (store_record s r))"
proof (cases "admit_fidelity r (ms_config s) = Inr () \<and> bt_get (ms_records s) (tj_id r) = None")
  case True
  let ?t = "s\<lparr> ms_insertion_order := ms_insertion_order s @ [tj_id r], ms_records := bt_insert (tj_id r) r (ms_records s) \<rparr>"
  have new: "tj_id r \<notin> fst ` set (ms_records s)" using True by (metis bt_get_dom)
  have good: "record_ok (ms_config s) (tj_id r, r)" using True by (auto simp: admit_fidelity_def record_ok_def split: if_splits)
  have "rule_sound ?t x" if "rule_sound s x" for x
    by (rule rule_kept[OF that]) (use True in auto)
  then have "memory_ok ?t" using ok new good
    by (auto simp: memory_ok_def bt_insert_ok record_set_insert list_all_iff[of "rule_sound _"])
  then show ?thesis using True by (simp add: store_record_def)
next
  case False
  then show ?thesis using ok by (auto simp: store_record_def split: sum.split)
qed

lemma store_compressed_ok: "memory_ok s \<Longrightarrow> store_compressed H s r = Some (s', out) \<Longrightarrow> memory_ok s'"
  using store_record_ok[of s] by (auto simp: store_compressed_def) (metis fst_conv)

lemma stored_ok: "memory_ok s \<Longrightarrow> bt_get (ms_records s) i = Some r \<Longrightarrow> record_ok (ms_config s) (i, r)"
  using map_of_SomeD by (fastforce simp: memory_ok_def list_all_iff)

lemma compress_to_ok:
  assumes ok: "memory_ok s" and "half_sized H" and step: "compress_to H s i target = Some (s', out)"
  shows "memory_ok s'"
proof (cases "bt_get (ms_records s) i")
  case None
  then show ?thesis using ok step by (simp add: compress_to_def)
next
  case (Some r)
  show ?thesis
  proof (cases "target \<le> tj_fidelity r")
    case True
    then show ?thesis using ok step Some by (simp add: compress_to_def)
  next
    case False
    then obtain outcome where c: "compress_latent H (tj_latent r) (if target = Compressed then F16 else Int8) = Some outcome"
      and s': "s' = s\<lparr> ms_records := bt_insert i (r\<lparr> tj_latent := co_latent outcome,
        tj_reconstruction_error := f_add (tj_reconstruction_error r) (co_mean_abs_error outcome), tj_fidelity := target \<rparr>) (ms_records s) \<rparr>"
      using step Some by (auto simp: compress_to_def Let_def)
    have "record_ok (ms_config s) (i, r)" by (rule stored_ok[OF ok Some])
    moreover have "target \<noteq> Raw" "tj_fidelity r = Rule \<longrightarrow> target = Rule"
      using False by (cases target; cases "tj_fidelity r"; simp add: less_eq_fidelity_def)+
    ultimately show ?thesis unfolding s' using compress_latent_length[OF c assms(2)]
      by (intro replace_ok[OF ok Some]) (simp_all add: record_ok_def)
  qed
qed

lemma promote_to_rule_ok:
  assumes ok: "memory_ok s"
  shows "memory_ok (fst (promote_to_rule s i uses body))"
proof (cases "bt_get (ms_records s) i")
  case (Some r)
  let ?t = "s\<lparr> ms_records := bt_insert i (r\<lparr> tj_fidelity := Rule \<rparr>) (ms_records s) \<rparr>"
  have "memory_ok ?t" using stored_ok[OF ok Some] by (intro replace_ok[OF ok Some]) (simp_all add: record_ok_def)
  then show ?thesis using ok Some
    by (auto simp: promote_to_rule_def memory_ok_def rule_sound_def[abs_def] list_all_iff not_less)
qed (use ok in \<open>simp add: promote_to_rule_def\<close>)

lemma promote_to_prototype_ok: "memory_ok s \<Longrightarrow> memory_ok (fst (promote_to_prototype s i family ids))"
  using store_record_ok by (auto simp: promote_to_prototype_def Let_def split: sum.split)

lemma topology_ok: "memory_ok s \<Longrightarrow> memory_ok (s\<lparr> ms_topologies := ts \<rparr>)"
  by (simp add: memory_ok_def rule_sound_def[abs_def])

lemma memory_step_ok:
  assumes "memory_ok s" and "half_sized H"
  shows "memory_ok (fst (memory_step H s op))"
proof (cases op)
  case (RecordTopologyUse family)
  then show ?thesis using assms topology_ok by (simp add: record_topology_use_def Let_def split: option.split)
qed (use assms in \<open>auto simp: store_record_ok promote_to_prototype_ok promote_to_rule_ok store_topology_def topology_ok
    split: option.split dest: store_compressed_ok compress_to_ok\<close>)

interpretation memory: machine "\<lambda>s. half_sized H \<and> memory_ok s" "memory_step H" for H
  by unfold_locales (simp add: memory_step_ok)

lemma memory_new_ok: "memory_ok (memory_new cfg)"
  by (simp add: memory_ok_def memory_new_def)

text \<open>What a later store keeps of an earlier one: every record, at the same fidelity or a lower one.\<close>

definition degraded :: "trajectory_record \<Rightarrow> trajectory_record \<Rightarrow> bool" where
  "degraded r r' \<longleftrightarrow> tj_fidelity r \<le> tj_fidelity r' \<and> tj_reward r' = tj_reward r \<and> tj_context_hash r' = tj_context_hash r \<and>
     tj_action r' = tj_action r \<and> tj_outcome r' = tj_outcome r \<and> tj_causal_value r' = tj_causal_value r \<and>
     tj_parents r' = tj_parents r \<and> (tj_fidelity r' = tj_fidelity r \<longrightarrow> r' = r)"

definition retained :: "memory_store \<Rightarrow> memory_store \<Rightarrow> bool" where
  "retained s s' \<longleftrightarrow> (\<forall>i r. bt_get (ms_records s) i = Some r \<longrightarrow> (\<exists>r'. bt_get (ms_records s') i = Some r' \<and> degraded r r'))"

lemma degraded_refl [simp]: "degraded r r"
  by (simp add: degraded_def)

lemma degraded_trans: "degraded a b \<Longrightarrow> degraded b c \<Longrightarrow> degraded a c"
  unfolding degraded_def by (metis order_trans order_antisym)

lemma retained_refl: "retained s s"
  by (auto simp: retained_def)

lemma retained_insert:
  assumes "ms_records s' = bt_insert i r' (ms_records s)" and "\<And>r. bt_get (ms_records s) i = Some r \<Longrightarrow> degraded r r'"
  shows "retained s s'"
  using assms by (auto simp: retained_def)

lemma store_record_retained: "retained s (fst (store_record s r))"
proof (cases "admit_fidelity r (ms_config s) = Inr () \<and> bt_get (ms_records s) (tj_id r) = None")
  case True
  then show ?thesis by (intro retained_insert[of _ "tj_id r" r]) (simp_all add: store_record_def)
next
  case False
  then show ?thesis by (auto simp: store_record_def retained_refl split: sum.split)
qed

lemma rule_greatest: "x \<le> Rule" "Rule \<le> x \<longleftrightarrow> x = Rule"
  by (cases x; simp add: less_eq_fidelity_def)+

lemma memory_step_retained: "retained s (fst (memory_step H s op))"
proof (cases op)
  case (Store r)
  then show ?thesis by (simp add: store_record_retained)
next
  case (StoreCompressed r)
  then show ?thesis
  proof (cases "store_compressed H s r")
    case (Some out)
    then obtain r' where "out = store_record s r'" by (auto simp: store_compressed_def)
    then show ?thesis using StoreCompressed Some store_record_retained[of s r'] by (simp add: case_prod_beta)
  qed (simp add: StoreCompressed retained_refl)
next
  case (CompressTo i target)
  then show ?thesis
  proof (cases "compress_to H s i target")
    case (Some out)
    have "retained s (fst out)"
    proof (cases "fst out = s")
      case False
      then obtain r r' where r: "bt_get (ms_records s) i = Some r" "ms_records (fst out) = bt_insert i r' (ms_records s)" "degraded r r'"
        using Some by (auto simp: compress_to_def Let_def degraded_def not_le split: option.splits if_splits)
      show ?thesis by (rule retained_insert[OF r(2)]) (use r in simp)
    qed (simp add: retained_refl)
    then show ?thesis using CompressTo Some by (simp add: case_prod_beta)
  qed (simp add: CompressTo retained_refl)
next
  case (PromoteToPrototype i family ids)
  then show ?thesis using store_record_retained
    by (auto simp: promote_to_prototype_def Let_def retained_refl split: sum.split)
next
  case (PromoteToRule i uses body)
  show ?thesis
  proof (cases "bt_get (ms_records s) i = None \<or> uses < mo_rule_promotion_uses (ms_config s)")
    case True
    then show ?thesis using PromoteToRule by (auto simp: promote_to_rule_def retained_refl split: option.split)
  next
    case False
    then obtain r where r: "bt_get (ms_records s) i = Some r" by auto
    then show ?thesis using PromoteToRule False
      by (intro retained_insert[of _ i "r\<lparr> tj_fidelity := Rule \<rparr>"]) (auto simp: promote_to_rule_def degraded_def rule_greatest)
  qed
next
  case (StoreTopology t)
  then show ?thesis by (auto simp: store_topology_def retained_def)
next
  case (RecordTopologyUse family)
  then show ?thesis by (auto simp: record_topology_use_def Let_def retained_def split: option.split)
qed

interpretation memory_since: machine "retained s0" "memory_step H" for s0 H
proof
  fix s :: memory_store and op :: memory_op
  assume "retained s0 s"
  then show "retained s0 (fst (memory_step H s op))"
    using memory_step_retained[of s H op] unfolding retained_def by (meson degraded_trans)
qed

text \<open>No operation touches the configuration.\<close>

lemma store_record_config: "ms_config (fst (store_record s r)) = ms_config s"
  by (auto simp: store_record_def split: sum.split)

lemma memory_step_config: "ms_config (fst (memory_step H s op)) = ms_config s"
proof (cases op)
  case (StoreCompressed r)
  show ?thesis
  proof (cases "store_compressed H s r")
    case (Some out)
    then have "ms_config (fst out) = ms_config s" by (auto simp: store_compressed_def store_record_config)
    then show ?thesis using StoreCompressed Some by (simp add: case_prod_beta)
  qed (simp add: StoreCompressed)
next
  case (PromoteToPrototype i family ids)
  then show ?thesis
    by (simp add: promote_to_prototype_def Let_def case_prod_beta store_record_config split: sum.split)
next
  case (CompressTo i target)
  then show ?thesis by (auto simp: compress_to_def Let_def split: option.splits if_splits)
qed (auto simp: store_record_config promote_to_prototype_def promote_to_rule_def store_topology_def
      record_topology_use_def Let_def split: sum.split option.split)

interpretation memory_config_kept: machine "\<lambda>s. ms_config s = cfg" "memory_step H" for cfg H
  by unfold_locales (simp add: memory_step_config)

section \<open>Topologies\<close>

abbreviation of_family :: "bytes \<Rightarrow> topology_record list \<Rightarrow> nat \<Rightarrow> bool" where
  "of_family family ts i \<equiv> i < length ts \<and> tp_family (ts ! i) = family"

definition best_topology :: "bytes \<Rightarrow> topology_record list \<Rightarrow> nat \<Rightarrow> nat option \<Rightarrow> bool" where
  "best_topology family ts n best \<longleftrightarrow>
     (case best of
        None \<Rightarrow> \<forall>j<n. tp_family (ts ! j) \<noteq> family
      | Some i \<Rightarrow> i < n \<and> tp_family (ts ! i) = family \<and>
          (\<forall>j<n. tp_family (ts ! j) = family \<longrightarrow>
             (if i < j then tp_successful_uses (ts ! j) < tp_successful_uses (ts ! i)
              else tp_successful_uses (ts ! j) \<le> tp_successful_uses (ts ! i))))"

lemma best_topology_unique:
  assumes "best_topology family ts n (Some i)" and "best_topology family ts n (Some j)"
  shows "i = j"
proof (rule ccontr)
  assume "i \<noteq> j"
  then consider "i < j" | "j < i" by linarith
  then show False using assms by cases (auto simp: best_topology_def not_le[symmetric])
qed

lemma best_topology_eq: "best_topology family ts n (Some i) \<Longrightarrow> best_topology family ts n b \<Longrightarrow> b = Some i"
proof (cases b)
  case None
  assume "best_topology family ts n (Some i)" "best_topology family ts n b"
  then show ?thesis using None by (auto simp: best_topology_def)
qed (auto dest: best_topology_unique)

lemma most_used_best: "best_topology family ts (length ts) (most_used family ts)"
proof -
  let ?step = "\<lambda>best i. if tp_family (ts ! i) \<noteq> family then best
         else case best of None \<Rightarrow> Some i
         | Some j \<Rightarrow> (if tp_successful_uses (ts ! j) \<le> tp_successful_uses (ts ! i) then Some i else best)"
  have "best_topology family ts n (foldl ?step None [0..<n])" for n
  proof (induction n)
    case (Suc n)
    let ?b = "foldl ?step None [0..<n]"
    show ?case
    proof (cases ?b)
      case None
      then show ?thesis using Suc by (auto simp: best_topology_def less_Suc_eq)
    next
      case (Some i)
      then have i: "i < n" "tp_family (ts ! i) = family"
        and best: "\<And>j. j < n \<Longrightarrow> tp_family (ts ! j) = family \<Longrightarrow> tp_successful_uses (ts ! j) \<le> tp_successful_uses (ts ! i) \<and>
          (i < j \<longrightarrow> tp_successful_uses (ts ! j) < tp_successful_uses (ts ! i))"
        using Suc by (auto simp: best_topology_def less_imp_le split: if_splits)
      consider "tp_family (ts ! n) \<noteq> family" | "tp_family (ts ! n) = family" "tp_successful_uses (ts ! i) \<le> tp_successful_uses (ts ! n)"
        | "tp_family (ts ! n) = family" "tp_successful_uses (ts ! n) < tp_successful_uses (ts ! i)" by fastforce
      then show ?thesis
      proof cases
        case 2
        have "tp_successful_uses (ts ! j) \<le> tp_successful_uses (ts ! n)" if "j < n" "tp_family (ts ! j) = family" for j
          using best[OF that] 2(2) by (meson order_trans)
        then show ?thesis using Some 2 by (auto simp: best_topology_def less_Suc_eq)
      qed (use Some i best in \<open>auto simp: best_topology_def less_Suc_eq\<close>)
    qed
  qed (simp add: best_topology_def)
  then show ?thesis by (simp add: most_used_def)
qed

text \<open>A use keeps the topology it counts the most used one.\<close>

lemma best_after_use:
  assumes "best_topology family ts (length ts) (Some i)" and "tp_successful_uses (ts ! i) \<le> u"
  shows "best_topology family (ts[i := (ts ! i)\<lparr> tp_successful_uses := u \<rparr>]) (length ts) (Some i)"
  using assms by (auto simp: best_topology_def nth_list_update intro: order_trans less_le_trans split: if_splits)

section \<open>The hits of a recall\<close>

lemma map_filter_ids:
  assumes "\<forall>i\<in>set xs. \<exists>r. f i = Some r \<and> g r = i"
  shows "map g (List.map_filter f xs) = xs"
  using assms by (induction xs) (auto simp: map_filter_simps)

lemma map_filter_set: "r \<in> set (List.map_filter f xs) \<longleftrightarrow> (\<exists>i\<in>set xs. f i = Some r)"
  by (induction xs) (auto simp: map_filter_simps split: option.splits)

lemma stored_in_order:
  assumes "memory_ok s"
  shows "map tj_id (List.map_filter (bt_get (ms_records s)) (ms_insertion_order s)) = ms_insertion_order s"
    and "set (List.map_filter (bt_get (ms_records s)) (ms_insertion_order s)) = set (map snd (ms_records s))"
    and "r \<in> set (map snd (ms_records s)) \<longleftrightarrow> bt_get (ms_records s) (tj_id r) = Some r"
    and "length (ms_insertion_order s) = memory_len s"
proof -
  have ok: "bt_ok (ms_records s)" and order: "set (ms_insertion_order s) = fst ` set (ms_records s)" "distinct (ms_insertion_order s)"
    using assms by (simp_all add: memory_ok_def)
  have keyed: "tj_id r = i" if "bt_get (ms_records s) i = Some r" for i r
    using stored_ok[OF assms that] by (simp add: record_ok_def)
  have "\<exists>r. bt_get (ms_records s) i = Some r \<and> tj_id r = i" if "i \<in> set (ms_insertion_order s)" for i
    using keyed that unfolding order by (metis bt_get_dom option.exhaust)
  then show "map tj_id (List.map_filter (bt_get (ms_records s)) (ms_insertion_order s)) = ms_insertion_order s"
    by (intro map_filter_ids) blast
  have entry: "(i, r) \<in> set (ms_records s) \<longleftrightarrow> bt_get (ms_records s) i = Some r" for i r
    using bt_distinct[OF ok] by simp
  have "r \<in> set (map snd (ms_records s)) \<longleftrightarrow> (\<exists>i. bt_get (ms_records s) i = Some r)" for r
    unfolding entry[symmetric] by force
  then show stored: "r \<in> set (map snd (ms_records s)) \<longleftrightarrow> bt_get (ms_records s) (tj_id r) = Some r" for r
    using keyed by metis
  have "r \<in> set (List.map_filter (bt_get (ms_records s)) (ms_insertion_order s)) \<longleftrightarrow>
      (\<exists>i\<in>fst ` set (ms_records s). bt_get (ms_records s) i = Some r)" for r
    by (simp add: map_filter_set order)
  also have "\<dots> r \<longleftrightarrow> bt_get (ms_records s) (tj_id r) = Some r" for r
    using keyed bt_get_dom[of "ms_records s" "tj_id r"] by (metis option.distinct(1))
  finally show "set (List.map_filter (bt_get (ms_records s)) (ms_insertion_order s)) = set (map snd (ms_records s))"
    using stored by blast
  show "length (ms_insertion_order s) = memory_len s"
    using distinct_card[OF order(2)] bt_length_card[OF ok] by (simp add: order(1) memory_len_def)
qed

lemma not_less_similar_order:
  assumes "\<forall>h\<in>A. re_similarity h \<noteq> NaN"
  shows "order_on not_less_similar A"
proof -
  have le: "not_less_similar a b \<longleftrightarrow> fp_le (re_similarity b) (re_similarity a)" if "a \<in> A" "b \<in> A" for a b
    using fp_not_lt_le fp_le_not_lt assms that unfolding not_less_similar_def by metis
  have "fp_le x y \<or> fp_le y x" if "x \<noteq> NaN" "y \<noteq> NaN" for x y using that by (cases x; cases y) auto
  then have "not_less_similar a b \<or> not_less_similar b a" if "a \<in> A" "b \<in> A" for a b
    using assms le that by blast
  moreover have "not_less_similar a c" if "a \<in> A" "b \<in> A" "c \<in> A" "not_less_similar a b" "not_less_similar b c" for a b c
    using le[of a b] le[of b c] le[of a c] that fp_le_trans by blast
  ultimately show ?thesis unfolding order_on_def by blast
qed

section \<open>Properties\<close>

text \<open>C21. The store keeps the continuum, with the configuration it was made with: whatever is done to a new store (given
  that the half-precision library writes two bytes for a number), every record stands under its own id with a latent of
  the configured dimension, at the raw tier only with a causal value that is not below the floor, and no later operation
  removes it, raises its fidelity, or changes anything of it but its latent and its error, and these only with a drop in
  fidelity; and every symbolic rule names a record at the rule tier and enough uses.\<close>

theorem memory_continuum:
  assumes "half_sized H" and "s = fst (run_machine (memory_step H) (memory_new cfg) ops)"
  shows "ms_config s = cfg \<and>
    (\<forall>i r. bt_get (ms_records s) i = Some r \<longrightarrow>
      tj_id r = i \<and> length (tj_latent r) = mo_dimensions cfg \<and>
      (tj_fidelity r = Raw \<longrightarrow> \<not> fp_lt (tj_causal_value r) (mo_raw_tier_causal_floor cfg)) \<and>
      (\<forall>later. \<exists>r'. bt_get (ms_records (fst (run_machine (memory_step H) s later))) i = Some r' \<and> degraded r r')) \<and>
    (\<forall>rule\<in>set (ms_rules s). rule_sound s rule)"
proof -
  have ok: "memory_ok s" using memory.run_inv[of H "memory_new cfg" ops] assms memory_new_ok by simp
  have cfg: "ms_config s = cfg"
    using memory_config_kept.run_inv[of "memory_new cfg" cfg H ops] by (simp add: assms(2) memory_new_def)
  have "retained s (fst (run_machine (memory_step H) s later))" for later by (rule memory_since.run_inv[OF retained_refl])
  then show ?thesis
    using stored_ok[OF ok] ok cfg by (auto simp: record_ok_def memory_ok_def retained_def list_all_iff)
qed

text \<open>Recall returns the nearest records: as many as asked for or as many as there are, distinct, in descending order of
  similarity, each with its own similarity to the query, and no record that was left out is more similar than one that was
  returned.\<close>

theorem recall_ranks:
  assumes "memory_ok s" and "memory_recall L s query k = Inr hits"
    and "\<forall>r\<in>set (map snd (ms_records s)). cosine L query (tj_latent r) \<noteq> NaN"
  shows "length hits = min k (memory_len s) \<and> distinct (map re_record hits) \<and>
    sorted_wrt (\<lambda>a b. fp_le (re_similarity b) (re_similarity a)) hits \<and>
    (\<forall>h\<in>set hits. memory_get s (tj_id (re_record h)) = Some (re_record h) \<and>
       re_similarity h = cosine L query (tj_latent (re_record h))) \<and>
    (\<forall>h\<in>set hits. \<forall>r\<in>set (map snd (ms_records s)) - re_record ` set hits.
       fp_le (cosine L query (tj_latent r)) (re_similarity h))"
proof -
  let ?sort = "sort_by not_less_similar (recall_hits L s query)"
  let ?stored = "List.map_filter (bt_get (ms_records s)) (ms_insertion_order s)"
  note stored = stored_in_order[OF assms(1)]
  have hits: "hits = take k ?sort" using assms(2) by (auto simp: memory_recall_def split: if_splits)
  have all: "map re_record (recall_hits L s query) = ?stored" by (simp add: recall_hits_def comp_def)
  have sim: "re_similarity h = cosine L query (tj_latent (re_record h)) \<and> re_record h \<in> set (map snd (ms_records s))"
    if "h \<in> set ?sort" for h
    using that unfolding stored(2)[symmetric] by (auto simp: recall_hits_def)
  then have number: "\<forall>h\<in>set ?sort. re_similarity h \<noteq> NaN" using assms(3) by metis
  have sorted: "sorted_wrt not_less_similar ?sort"
    by (rule sorted_sort_by) (use not_less_similar_order[OF number] in simp)
  have le: "fp_le (re_similarity b) (re_similarity a)" if "not_less_similar a b" "a \<in> set ?sort" "b \<in> set ?sort" for a b
    using that number fp_not_lt_le unfolding not_less_similar_def by blast
  have sub: "set hits \<subseteq> set ?sort" unfolding hits by (rule set_take_subset)
  have "length ?stored = memory_len s" using arg_cong[OF stored(1), of length] stored(4) by simp
  then have "length hits = min k (memory_len s)" unfolding hits all[symmetric] by simp
  moreover have "distinct (map re_record hits)"
  proof -
    have "distinct ?stored" using stored(1) assms(1) by (metis distinct_map memory_ok_def)
    then have "distinct (map re_record ?sort)" by (simp add: all)
    then show ?thesis unfolding hits by (simp add: take_map[symmetric] distinct_take)
  qed
  moreover have "sorted_wrt (\<lambda>a b. fp_le (re_similarity b) (re_similarity a)) hits"
    using sorted_wrt_take[OF sorted, of k] unfolding hits[symmetric]
    by (rule sorted_wrt_mono_rel[rotated]) (use le sub in blast)
  moreover have "memory_get s (tj_id (re_record h)) = Some (re_record h)" if "h \<in> set hits" for h
    using sim sub that stored(3) unfolding memory_get_def by blast
  moreover have "fp_le (cosine L query (tj_latent r)) (re_similarity h)"
    if h: "h \<in> set hits" and r: "r \<in> set (map snd (ms_records s)) - re_record ` set hits" for h r
  proof -
    obtain x where x: "x \<in> set ?sort" "re_record x = r"
      using r stored(2) all by (metis Diff_iff image_iff set_map set_sort_by)
    then have "x \<in> set (drop k ?sort)" using r hits append_take_drop_id[of k ?sort] by (metis DiffD2 Un_iff image_eqI set_append)
    then have "not_less_similar h x" using sorted_take_drop[OF sorted] h unfolding hits by blast
    then show ?thesis using le sim x h sub by (metis subsetD)
  qed
  ultimately show ?thesis using sim sub by blast
qed

definition demo_libm :: libm where
  "demo_libm = \<lparr> sinf = \<lambda>x. x, cosf = \<lambda>x. x, tanhf = \<lambda>x. x, powf = \<lambda>x y. x, sqrtf = \<lambda>x. f_one \<rparr>"

definition demo_half :: half_ops where
  "demo_half = \<lparr> f16_to_le_bytes = \<lambda>x. [0, 0], f16_from_le_bytes = \<lambda>bs. f_zero \<rparr>"

definition demo_memory_config :: memory_config where
  "demo_memory_config = \<lparr> mo_dimensions = 1, mo_raw_tier_causal_floor = Fin False (1 / 2), mo_rule_promotion_uses = 3 \<rparr>"

definition demo_record :: "u8 \<Rightarrow> f32 \<Rightarrow> trajectory_record" where
  "demo_record i x = \<lparr> tj_id = [i], tj_latent = [x], tj_reward = f_one, tj_context_hash = [], tj_action = [7], tj_outcome = [],
     tj_causal_value = f_one, tj_fidelity = Raw, tj_reconstruction_error = f_zero, tj_parents = [] \<rparr>"

definition demo_store :: memory_store where
  "demo_store = fst (run_machine (memory_step demo_half) (memory_new demo_memory_config)
     [Store (demo_record 1 f_zero), Store (demo_record 2 f_one), PromoteToRule [2] 3 []])"

lemma demo_store_records:
  "ms_records demo_store = [([1], demo_record 1 f_zero), ([2], (demo_record 2 f_one)\<lparr> tj_fidelity := Rule \<rparr>)]"
  "ms_rules demo_store = [\<lparr> sy_family = [7], sy_rule = [], sy_promoted_from = [2], sy_uses = 3 \<rparr>]"
  "ms_insertion_order demo_store = [[1], [2]]" "ms_config demo_store = demo_memory_config" "ms_topologies demo_store = []"
  unfolding demo_store_def demo_memory_config_def by code_simp+

lemma demo_half_sized: "half_sized demo_half"
  by (simp add: half_sized_def demo_half_def)

lemma demo_store_ok: "memory_ok demo_store"
  using memory.run_inv[of demo_half "memory_new demo_memory_config"] memory_new_ok demo_half_sized
  unfolding demo_store_def by blast

theorem memory_continuum_witness:
  "\<exists>r'. bt_get (ms_records (fst (run_machine (memory_step demo_half) demo_store [CompressTo [1] Compressed]))) [1] = Some r' \<and>
     degraded (demo_record 1 f_zero) r'"
proof -
  have "bt_get (ms_records demo_store) [1] = Some (demo_record 1 f_zero)" by (simp add: demo_store_records)
  then show ?thesis using memory_continuum[OF demo_half_sized demo_store_def] by blast
qed

theorem recall_ranks_witness:
  "\<exists>hits. memory_recall demo_libm demo_store [f_one] 1 = Inr hits \<and> length hits = 1 \<and>
     (\<exists>h. hits = [h] \<and> fp_le (re_similarity h) f_one)"
proof -
  have cos: "cosine demo_libm [f_one] [f_zero] = f_zero" "cosine demo_libm [f_one] [f_one] = f_one"
    by code_simp+
  obtain hits where hits: "memory_recall demo_libm demo_store [f_one] 1 = Inr hits"
    by (simp add: memory_recall_def demo_store_records demo_memory_config_def)
  have "\<forall>r\<in>set (map snd (ms_records demo_store)). cosine demo_libm [f_one] (tj_latent r) \<noteq> NaN"
    by (simp add: demo_store_records demo_record_def cos)
  note ranks = recall_ranks[OF demo_store_ok hits this]
  have "length hits = 1" using ranks by (simp add: memory_len_def demo_store_records)
  then obtain h where h: "hits = [h]" by (auto simp: length_Suc_conv)
  then have "re_similarity h = cosine demo_libm [f_one] (tj_latent (re_record h))"
    "memory_get demo_store (tj_id (re_record h)) = Some (re_record h)" using ranks by simp_all
  then have "fp_le (re_similarity h) f_one"
    by (auto simp: memory_get_def demo_store_records demo_record_def cos split: if_splits dest!: sym[of _ "re_record h"])
  then show ?thesis using hits h by simp
qed

text \<open>A topology that proves itself stays the warm start: the topology recalled for a family has the most uses of its
  family, and after its use is recorded the same one is recalled, with one use more unless the counter is saturated.\<close>

theorem warm_start_sticks:
  assumes "recall_topology s family = Some t"
  shows "recall_topology (record_topology_use s family) family =
      Some (t\<lparr> tp_successful_uses := (if tp_successful_uses t = - 1 then - 1 else tp_successful_uses t + 1) \<rparr>) \<and>
    tp_family t = family \<and>
    (\<forall>t'\<in>set (ms_topologies s). tp_family t' = family \<longrightarrow> tp_successful_uses t' \<le> tp_successful_uses t)"
proof -
  let ?ts = "ms_topologies s"
  obtain i where i: "most_used family ?ts = Some i" "t = ?ts ! i" using assms by (auto simp: recall_topology_def)
  have best: "best_topology family ?ts (length ?ts) (Some i)" using most_used_best[of family ?ts] i by simp
  define u where "u = (if tp_successful_uses t = - 1 then - 1 else tp_successful_uses t + 1)"
  let ?ts' = "?ts[i := t\<lparr> tp_successful_uses := u \<rparr>]"
  have less: "i < length ?ts" using best by (simp add: best_topology_def)
  have "u \<le> u + 1" if "u \<noteq> - 1" for u :: u32
  proof -
    have "1 + u \<noteq> 0" using that by (metis add.commute eq_neg_iff_add_eq_0)
    then show ?thesis using unatSuc[of u] by (simp add: word_le_nat_alt add.commute)
  qed
  then have "tp_successful_uses t \<le> u" by (simp add: u_def)
  then have "best_topology family ?ts' (length ?ts') (Some i)" using best_after_use[OF best, of u] i(2) by simp
  then have "most_used family ?ts' = Some i"
    using best_topology_eq[OF _ most_used_best[of family ?ts']] by simp
  moreover have "record_topology_use s family = s\<lparr> ms_topologies := ?ts' \<rparr>"
    using i by (simp add: record_topology_use_def u_def Let_def)
  ultimately have "recall_topology (record_topology_use s family) family = Some (t\<lparr> tp_successful_uses := u \<rparr>)"
    using less by (simp add: recall_topology_def)
  moreover have "\<forall>t'\<in>set ?ts. tp_family t' = family \<longrightarrow> tp_successful_uses t' \<le> tp_successful_uses t"
  proof -
    have "tp_successful_uses (?ts ! j) \<le> tp_successful_uses t" if "j < length ?ts" "tp_family (?ts ! j) = family" for j
      using best that i(2) by (cases "i < j") (auto simp: best_topology_def less_imp_le)
    then show ?thesis by (auto simp: in_set_conv_nth)
  qed
  ultimately show ?thesis using best i(2) unfolding u_def by (simp add: best_topology_def)
qed

definition demo_topology :: "bytes \<Rightarrow> u32 \<Rightarrow> topology_record" where
  "demo_topology family uses = \<lparr> tp_family = family, tp_agent_sequence = [[1], [2]], tp_successful_uses = uses \<rparr>"

theorem warm_start_sticks_witness:
  "recall_topology (record_topology_use (demo_store\<lparr> ms_topologies := [demo_topology [1] 5, demo_topology [1] 9, demo_topology [2] 11] \<rparr>) [1]) [1]
     = Some (demo_topology [1] 10)"
proof -
  have "recall_topology (demo_store\<lparr> ms_topologies := [demo_topology [1] 5, demo_topology [1] 9, demo_topology [2] 11] \<rparr>) [1]
      = Some (demo_topology [1] 9)"
    by (simp add: recall_topology_def most_used_def demo_topology_def)
  from warm_start_sticks[OF this] show ?thesis by (simp add: demo_topology_def)
qed

section \<open>Prototypes\<close>

text \<open>The sums over the members, column by column.\<close>

lemma add_latent_eq: "length a = length b \<Longrightarrow> add_latent a b = map2 f_add a b"
  by (simp add: add_latent_def)

lemma sum_members_Inr:
  assumes "sum_members records ids (centroid, reward, causal) = Inr (centroid', reward', causal')"
    and "\<forall>i r. bt_get records i = Some r \<longrightarrow> length (tj_latent r) = length centroid"
  shows "\<exists>rs. map (bt_get records) ids = map Some rs \<and> length centroid' = length centroid \<and>
    (\<forall>j<length centroid. centroid' ! j = foldl f_add (centroid ! j) (map (\<lambda>r. tj_latent r ! j) rs)) \<and>
    reward' = foldl f_add reward (map tj_reward rs) \<and> causal' = foldl d_add causal (map tj_causal_value rs)"
  using assms
proof (induction ids arbitrary: centroid reward causal)
  case (Cons i ids)
  then obtain m where m: "bt_get records i = Some m"
    and rest: "sum_members records ids (add_latent centroid (tj_latent m), f_add reward (tj_reward m), d_add causal (tj_causal_value m))
      = Inr (centroid', reward', causal')"
    by (auto split: option.splits)
  have len: "length (tj_latent m) = length centroid" using Cons.prems(2) m by blast
  then have same: "length (add_latent centroid (tj_latent m)) = length centroid" by (simp add: add_latent_eq)
  obtain rs where "map (bt_get records) ids = map Some rs" "length centroid' = length centroid"
    "\<forall>j<length centroid. centroid' ! j = foldl f_add (add_latent centroid (tj_latent m) ! j) (map (\<lambda>r. tj_latent r ! j) rs)"
    "reward' = foldl f_add (f_add reward (tj_reward m)) (map tj_reward rs)"
    "causal' = foldl d_add (d_add causal (tj_causal_value m)) (map tj_causal_value rs)"
    using Cons.IH[OF rest] Cons.prems(2) same by auto
  then show ?case using m len by (intro exI[of _ "m # rs"]) (simp add: add_latent_eq)
qed auto

text \<open>A prototype is the centroid of its members: it is stored under its own name only when at least two ids name stored
  records, each component of its latent is the sum of that component over the members in the order named, divided by their
  number, and its lineage is the list of the ids; whatever errors of reconstruction the members carry, its own is zero.\<close>

theorem prototype_is_centroid:
  assumes "memory_ok s" and "promote_to_prototype s i family ids = (s', Inr ())"
  shows "\<exists>rs p. map (memory_get s) ids = map Some rs \<and> 2 \<le> length rs \<and> memory_get s i = None \<and> memory_get s' i = Some p \<and>
    length (tj_latent p) = mo_dimensions (ms_config s) \<and>
    (\<forall>j<length (tj_latent p). tj_latent p ! j =
       f_div (f_sum (map (\<lambda>r. tj_latent r ! j) rs)) (f32_of (of_nat (length rs)))) \<and>
    tj_fidelity p = Prototype \<and> tj_parents p = ids \<and> tj_reconstruction_error p = f_zero"
proof -
  let ?n = "f32_of (of_nat (length ids))" and ?z = "replicate (mo_dimensions (ms_config s)) f_zero"
  obtain centroid reward causal where two: "2 \<le> length ids"
    and sums: "sum_members (ms_records s) ids (?z, f_zero, f_zero) = Inr (centroid, reward, causal)"
    and put: "store_record s
      \<lparr> tj_id = i, tj_latent = map (\<lambda>c. f_div c ?n) centroid, tj_reward = f_div reward ?n,
        tj_context_hash = ascii ''prototype:'' @ family, tj_action = family, tj_outcome = ascii ''prototype'',
        tj_causal_value = d_div causal (f64_of (of_nat (length ids))), tj_fidelity = Prototype,
        tj_reconstruction_error = f_zero, tj_parents = ids \<rparr> = (s', Inr ())"
    using assms(2) by (auto simp: promote_to_prototype_def Let_def not_less split: if_splits sum.splits)
  have "\<forall>i r. bt_get (ms_records s) i = Some r \<longrightarrow> length (tj_latent r) = length ?z"
    using stored_ok[OF assms(1)] by (auto simp: record_ok_def)
  from sum_members_Inr[OF sums this] obtain rs where rs: "map (bt_get (ms_records s)) ids = map Some rs"
      "length centroid = mo_dimensions (ms_config s)"
      "\<forall>j<length centroid. centroid ! j = f_sum (map (\<lambda>r. tj_latent r ! j) rs)"
    by (auto simp: f_sum_def)
  moreover have "length rs = length ids" using arg_cong[OF rs(1), of length] by simp
  moreover obtain p where "bt_get (ms_records s) i = None" "memory_get s' i = Some p"
      "tj_latent p = map (\<lambda>c. f_div c ?n) centroid" "tj_fidelity p = Prototype" "tj_parents p = ids" "tj_reconstruction_error p = f_zero"
    using put by (auto simp: store_record_def memory_get_def split: sum.splits if_splits)
  moreover have "map (memory_get s) ids = map Some rs" using rs(1) by (simp add: memory_get_def[abs_def])
  ultimately show ?thesis using two by (intro exI[of _ rs] exI[of _ p]) (simp add: memory_get_def)
qed

theorem prototype_is_centroid_witness:
  "\<exists>s' p. promote_to_prototype demo_store [9] [7] [[1], [2]] = (s', Inr ()) \<and> memory_get s' [9] = Some p \<and>
     length (tj_latent p) = 1 \<and> tj_parents p = [[1], [2]]"
proof -
  obtain s' where s': "promote_to_prototype demo_store [9] [7] [[1], [2]] = (s', Inr ())"
    by (simp add: promote_to_prototype_def demo_store_records Let_def store_record_def admit_fidelity_def demo_memory_config_def
        demo_record_def add_latent_def)
  then show ?thesis using prototype_is_centroid[OF demo_store_ok s'] by (auto simp: demo_store_records demo_memory_config_def)
qed

text \<open>The floor of the raw tier does not stop a causal value that is not a number: a fresh record of the right dimension
  with a NaN for its causal value is stored at the raw tier whatever the floor, where any number below the floor is refused.\<close>

theorem nan_passes_floor:
  assumes "length (tj_latent r) = mo_dimensions (ms_config s)" and "memory_get s (tj_id r) = None" and "tj_fidelity r = Raw"
    and "fp_lt v (mo_raw_tier_causal_floor (ms_config s))"
  shows "snd (store_record s (r\<lparr> tj_causal_value := NaN \<rparr>)) = Inr () \<and>
    memory_get (fst (store_record s (r\<lparr> tj_causal_value := NaN \<rparr>))) (tj_id r) = Some (r\<lparr> tj_causal_value := NaN \<rparr>) \<and>
    store_record s (r\<lparr> tj_causal_value := v \<rparr>) = (s, Inl (CausalValueBelowFloor v (mo_raw_tier_causal_floor (ms_config s))))"
  using assms by (simp add: store_record_def admit_fidelity_def memory_get_def)

theorem nan_passes_floor_witness:
  "snd (store_record (memory_new memory_default) ((demo_record 1 f_one)\<lparr> tj_latent := replicate 64 f_zero, tj_causal_value := NaN \<rparr>)) = Inr ()"
  using nan_passes_floor[of "(demo_record 1 f_one)\<lparr> tj_latent := replicate 64 f_zero \<rparr>" "memory_new memory_default" f_zero]
  by (simp add: memory_new_def memory_default_def memory_get_def demo_record_def)

end
