(* ===== verification/Evolve_Topology.thy ===== *)
theory Evolve_Topology
  imports Latent_Gate BTree "HOL-Library.Product_Lexorder"
begin

text \<open>
  \<open>latentmesh-evolve/src/topology.rs\<close> and the mutation applier of \<open>darwin.rs\<close>: the evolved
  communication graph, the constitution it lives under (the caps of the authorities and the mandatory
  edges), and the mutations a search may propose.
\<close>

section \<open>Topologies\<close>

type_synonym agent_id = u8

record edge =
  ed_from :: agent_id
  ed_to :: agent_id
  ed_encoding :: encoding
  ed_authority :: authority
  ed_mandatory :: bool

record topology =
  tg_active :: "agent_id list"
  tg_edges :: "(agent_id \<times> agent_id, edge) btree"
  tg_caps :: "(agent_id \<times> agent_id, authority) btree"

definition connect :: "authority \<Rightarrow> topology \<Rightarrow> agent_id \<times> agent_id \<Rightarrow> topology" where
  "connect cap t k =
     (if fst k = snd k then t
      else t\<lparr> tg_caps := bt_insert k cap (tg_caps t),
              tg_edges := bt_insert k \<lparr> ed_from = fst k, ed_to = snd k, ed_encoding = F32,
                ed_authority = min ContextInject cap, ed_mandatory = False \<rparr> (tg_edges t) \<rparr>)"

definition fully_connected :: "agent_id list \<Rightarrow> authority \<Rightarrow> topology" where
  "fully_connected agents cap =
     foldl (connect cap) \<lparr> tg_active = agents, tg_edges = [], tg_caps = [] \<rparr> (List.product agents agents)"

definition cap_for :: "topology \<Rightarrow> agent_id \<Rightarrow> agent_id \<Rightarrow> authority" where
  "cap_for t f s = (case bt_get (tg_caps t) (f, s) of None \<Rightarrow> ObserveOnly | Some a \<Rightarrow> a)"

definition edge_cost :: "edge \<Rightarrow> f64" where
  "edge_cost e = d_div (f64_of (of_nat (512 * bytes_per_element (ed_encoding e)))) (Fin False 100)"

definition compute_proxy :: "topology \<Rightarrow> f64" where
  "compute_proxy t =
     (let agent_cost = d_mul (f64_of (of_nat (length (tg_active t)))) (Fin False 100);
          edge_cost = d_sum (map (edge_cost \<circ> snd) (tg_edges t))
      in d_add agent_cost edge_cost)"

definition is_live :: "topology \<Rightarrow> edge \<Rightarrow> bool" where
  "is_live t e \<longleftrightarrow> ed_from e \<in> set (tg_active t) \<and> ed_to e \<in> set (tg_active t)"

definition live_edges :: "topology \<Rightarrow> edge list" where
  "live_edges t = filter (is_live t) (map snd (tg_edges t))"

section \<open>Mutations\<close>

datatype mutation =
    AddEdge agent_id agent_id
  | RemoveEdge agent_id agent_id
  | RaiseAuthority agent_id agent_id
  | LowerAuthority agent_id agent_id
  | ChangeEncoding agent_id agent_id encoding
  | DeactivateAgent agent_id
  | ReactivateAgent agent_id

datatype mutation_error =
    AuthorityExceedsCap authority authority
  | MandatoryEdge agent_id agent_id
  | InvalidMutation string

fun raise_authority :: "authority \<Rightarrow> authority option" where
  "raise_authority ObserveOnly = Some ContextInject"
| "raise_authority ContextInject = Some LatentPrefix"
| "raise_authority LatentPrefix = Some ActionInfluencing"
| "raise_authority ActionInfluencing = None"

fun lower_authority :: "authority \<Rightarrow> authority option" where
  "lower_authority ObserveOnly = None"
| "lower_authority ContextInject = Some ObserveOnly"
| "lower_authority LatentPrefix = Some ContextInject"
| "lower_authority ActionInfluencing = Some LatentPrefix"

text \<open>\<open>get_mut\<close> of an edge that is there: the entry is replaced under its key.\<close>

definition put_edge :: "topology \<Rightarrow> agent_id \<times> agent_id \<Rightarrow> edge \<Rightarrow> topology" where
  "put_edge t k e = t\<lparr> tg_edges := bt_insert k e (tg_edges t) \<rparr>"

text \<open>A refused mutation leaves the topology as it is.\<close>

fun apply_mutation :: "topology \<Rightarrow> mutation \<Rightarrow> mutation_error + topology" where
  "apply_mutation t (AddEdge f s) =
     (if f = s then Inl (InvalidMutation ''self edge'')
      else case bt_get (tg_edges t) (f, s) of
        Some _ \<Rightarrow> Inr t
      | None \<Rightarrow> Inr (put_edge t (f, s) \<lparr> ed_from = f, ed_to = s, ed_encoding = Int8,
          ed_authority = min ObserveOnly (cap_for t f s), ed_mandatory = False \<rparr>))"
| "apply_mutation t (RemoveEdge f s) =
     (case bt_get (tg_edges t) (f, s) of
        None \<Rightarrow> Inr t
      | Some e \<Rightarrow>
          if ed_mandatory e then Inl (MandatoryEdge f s)
          else Inr (t\<lparr> tg_edges := bt_remove (f, s) (tg_edges t) \<rparr>))"
| "apply_mutation t (RaiseAuthority f s) =
     (case bt_get (tg_edges t) (f, s) of
        None \<Rightarrow> Inl (InvalidMutation ''no such edge'')
      | Some e \<Rightarrow>
          case raise_authority (ed_authority e) of
            Some a \<Rightarrow>
              if a \<le> cap_for t f s then Inr (put_edge t (f, s) (e\<lparr> ed_authority := a \<rparr>))
              else Inl (AuthorityExceedsCap a (cap_for t f s))
          | None \<Rightarrow> Inl (AuthorityExceedsCap ActionInfluencing (cap_for t f s)))"
| "apply_mutation t (LowerAuthority f s) =
     (case bt_get (tg_edges t) (f, s) of
        None \<Rightarrow> Inl (InvalidMutation ''no such edge'')
      | Some e \<Rightarrow>
          case lower_authority (ed_authority e) of
            Some a \<Rightarrow> Inr (put_edge t (f, s) (e\<lparr> ed_authority := a \<rparr>))
          | None \<Rightarrow> Inr t)"
| "apply_mutation t (ChangeEncoding f s enc) =
     (case bt_get (tg_edges t) (f, s) of
        None \<Rightarrow> Inl (InvalidMutation ''no such edge'')
      | Some e \<Rightarrow> Inr (put_edge t (f, s) (e\<lparr> ed_encoding := enc \<rparr>)))"
| "apply_mutation t (DeactivateAgent a) =
     (if \<exists>e\<in>set (map snd (tg_edges t)). ed_mandatory e \<and> (ed_from e = a \<or> ed_to e = a)
      then Inl (MandatoryEdge a a)
      else Inr (t\<lparr> tg_active := filter (\<lambda>b. b \<noteq> a) (tg_active t) \<rparr>))"
| "apply_mutation t (ReactivateAgent a) =
     (if a \<in> set (tg_active t) then Inr t
      else Inr (t\<lparr> tg_active := sort (tg_active t @ [a]) \<rparr>))"

section \<open>The constitution\<close>

text \<open>
  What every mutation must keep: the maps are well formed and each edge stands under its own ends,
  which are distinct known agents; no edge has more authority than its cap and the caps are the
  given ones; the active agents are distinct known agents in ascending order; the mandatory edges
  are there, marked as such, between active agents.
\<close>

definition edge_ok :: "agent_id set \<Rightarrow> topology \<Rightarrow> (agent_id \<times> agent_id) \<times> edge \<Rightarrow> bool" where
  "edge_ok A t ke \<longleftrightarrow>
     fst ke = (ed_from (snd ke), ed_to (snd ke)) \<and> ed_from (snd ke) \<noteq> ed_to (snd ke) \<and>
     ed_from (snd ke) \<in> A \<and> ed_to (snd ke) \<in> A \<and>
     ed_authority (snd ke) \<le> cap_for t (ed_from (snd ke)) (ed_to (snd ke))"

definition mandatory_ok :: "topology \<Rightarrow> agent_id \<times> agent_id \<Rightarrow> bool" where
  "mandatory_ok t k \<longleftrightarrow>
     (\<exists>e. bt_get (tg_edges t) k = Some e \<and> ed_mandatory e) \<and>
     fst k \<in> set (tg_active t) \<and> snd k \<in> set (tg_active t)"

definition constitution ::
  "agent_id set \<Rightarrow> (agent_id \<times> agent_id, authority) btree \<Rightarrow> (agent_id \<times> agent_id) set \<Rightarrow> topology \<Rightarrow> bool" where
  "constitution A caps M t \<longleftrightarrow>
     bt_ok (tg_edges t) \<and> (\<forall>ke\<in>set (tg_edges t). edge_ok A t ke) \<and> tg_caps t = caps \<and>
     sorted_wrt (<) (tg_active t) \<and> set (tg_active t) \<subseteq> A \<and> (\<forall>k\<in>M. mandatory_ok t k)"

fun mutation_agents :: "mutation \<Rightarrow> agent_id set" where
  "mutation_agents (AddEdge f s) = {f, s}"
| "mutation_agents (RemoveEdge f s) = {f, s}"
| "mutation_agents (RaiseAuthority f s) = {f, s}"
| "mutation_agents (LowerAuthority f s) = {f, s}"
| "mutation_agents (ChangeEncoding f s enc) = {f, s}"
| "mutation_agents (DeactivateAgent a) = {a}"
| "mutation_agents (ReactivateAgent a) = {a}"

lemmas constitution_defs = constitution_def edge_ok_def mandatory_ok_def

lemma raise_authority_Some: "raise_authority a = Some b \<Longrightarrow> a < b"
  by (cases a) (auto simp: less_authority_def)

lemma lower_authority_Some: "lower_authority a = Some b \<Longrightarrow> b < a"
  by (cases a) (auto simp: less_authority_def)

lemma put_edge_constitution:
  assumes "constitution A caps M t" and "edge_ok A t (k, e)"
    and "\<And>e'. bt_get (tg_edges t) k = Some e' \<Longrightarrow> ed_mandatory e' \<Longrightarrow> ed_mandatory e"
  shows "constitution A caps M (put_edge t k e)"
proof -
  have "\<forall>ke\<in>set (bt_insert k e (tg_edges t)). edge_ok A t ke"
    using assms(1,2) bt_insert_set[of k e "tg_edges t"] by (auto simp: constitution_def)
  then show ?thesis using assms(1,3)
    by (auto simp: constitution_def put_edge_def mandatory_ok_def edge_ok_def cap_for_def bt_insert_ok)
qed

lemma edge_at:
  assumes "constitution A caps M t" and "bt_get (tg_edges t) (f, s) = Some e"
  shows "edge_ok A t ((f, s), e)"
  using assms map_of_SomeD[OF assms(2)] by (auto simp: constitution_def)

lemma apply_mutation_constitution:
  assumes "constitution A caps M t" and "mutation_agents m \<subseteq> A" and "apply_mutation t m = Inr t'"
  shows "constitution A caps M t'"
proof (cases m)
  case (AddEdge f s)
  then show ?thesis using assms
    by (auto split: if_splits option.splits intro!: put_edge_constitution simp: edge_ok_def min_def)
next
  case (RemoveEdge f s)
  show ?thesis
  proof (cases "bt_get (tg_edges t) (f, s)")
    case (Some e)
    then have e: "\<not> ed_mandatory e" "t' = t\<lparr> tg_edges := bt_remove (f, s) (tg_edges t) \<rparr>"
      using assms(3) RemoveEdge by (auto split: if_splits)
    have ok: "bt_ok (tg_edges t)" using assms(1) by (simp add: constitution_def)
    have "mandatory_ok t' k" if "k \<in> M" for k
      using assms(1) that e Some by (auto simp: constitution_def mandatory_ok_def bt_get_remove[OF ok])
    moreover have "edge_ok A t' ke" if "ke \<in> set (tg_edges t')" for ke
      using assms(1) that e bt_remove_set[of "(f, s)" "tg_edges t"]
      by (auto simp: constitution_def edge_ok_def cap_for_def)
    ultimately show ?thesis using assms(1) e bt_remove_ok[OF ok] by (simp add: constitution_def)
  qed (use assms RemoveEdge in simp)
next
  case (RaiseAuthority f s)
  then obtain e a where e: "bt_get (tg_edges t) (f, s) = Some e" "a \<le> cap_for t f s"
    "t' = put_edge t (f, s) (e\<lparr> ed_authority := a \<rparr>)"
    using assms(3) by (auto split: option.splits if_splits)
  show ?thesis unfolding e(3)
    using edge_at[OF assms(1) e(1)] e(1,2) by (intro put_edge_constitution assms(1)) (auto simp: edge_ok_def)
next
  case (LowerAuthority f s)
  show ?thesis
  proof (cases "t' = t")
    case False
    then obtain e a where e: "bt_get (tg_edges t) (f, s) = Some e" "lower_authority (ed_authority e) = Some a"
      "t' = put_edge t (f, s) (e\<lparr> ed_authority := a \<rparr>)"
      using assms(3) LowerAuthority by (auto split: option.splits)
    show ?thesis unfolding e(3)
      using edge_at[OF assms(1) e(1)] e(1) lower_authority_Some[OF e(2)]
      by (intro put_edge_constitution assms(1)) (auto simp: edge_ok_def)
  qed (use assms(1) in simp)
next
  case (ChangeEncoding f s enc)
  then obtain e where e: "bt_get (tg_edges t) (f, s) = Some e" "t' = put_edge t (f, s) (e\<lparr> ed_encoding := enc \<rparr>)"
    using assms(3) by (auto split: option.splits)
  show ?thesis unfolding e(2)
    using edge_at[OF assms(1) e(1)] e(1) by (intro put_edge_constitution assms(1)) (auto simp: edge_ok_def)
next
  case (DeactivateAgent a)
  then have a: "\<forall>e\<in>set (map snd (tg_edges t)). ed_mandatory e \<longrightarrow> ed_from e \<noteq> a \<and> ed_to e \<noteq> a"
    and t': "t' = t\<lparr> tg_active := filter (\<lambda>b. b \<noteq> a) (tg_active t) \<rparr>"
    using assms(3) by (auto split: if_splits)
  have "mandatory_ok t' k" if "k \<in> M" for k
  proof -
    have "mandatory_ok t k" using assms(1) that by (simp add: constitution_def)
    then obtain e where e: "bt_get (tg_edges t) k = Some e" "ed_mandatory e" by (auto simp: mandatory_ok_def)
    have "edge_ok A t (k, e)" using assms(1) map_of_SomeD[OF e(1)] by (auto simp: constitution_def)
    then have "k = (ed_from e, ed_to e)" by (simp add: edge_ok_def)
    moreover have "ed_from e \<noteq> a" "ed_to e \<noteq> a" using a e map_of_SomeD[OF e(1)] by auto
    ultimately show ?thesis using assms(1) that e t' by (auto simp: constitution_def mandatory_ok_def)
  qed
  then show ?thesis using assms(1) t' by (auto simp: constitution_def edge_ok_def cap_for_def sorted_wrt_filter)
next
  case (ReactivateAgent a)
  show ?thesis
  proof (cases "a \<in> set (tg_active t)")
    case False
    then have t': "t' = t\<lparr> tg_active := sort (tg_active t @ [a]) \<rparr>" using assms(3) ReactivateAgent by simp
    have "distinct (tg_active t @ [a])" using assms(1) False by (auto simp: constitution_def strict_sorted_iff)
    then have "sorted_wrt (<) (tg_active t')" by (simp add: t' strict_sorted_iff)
    then show ?thesis using assms ReactivateAgent
      by (auto simp: constitution_def t' mandatory_ok_def edge_ok_def cap_for_def)
  qed (use assms ReactivateAgent in simp)
qed

section \<open>The starting topology\<close>

lemma connect_fold:
  fixes cap
  defines "full \<equiv> \<lambda>k. \<lparr> ed_from = fst k, ed_to = snd k, ed_encoding = F32, ed_authority = min ContextInject cap,
    ed_mandatory = False \<rparr>"
  shows "bt_ok (tg_edges t) \<Longrightarrow>
    bt_ok (tg_edges (foldl (connect cap) t ks)) \<and>
    bt_get (tg_edges (foldl (connect cap) t ks)) =
      (\<lambda>k. if k \<in> set ks \<and> fst k \<noteq> snd k then Some (full k) else bt_get (tg_edges t) k) \<and>
    bt_get (tg_caps (foldl (connect cap) t ks)) =
      (\<lambda>k. if k \<in> set ks \<and> fst k \<noteq> snd k then Some cap else bt_get (tg_caps t) k) \<and>
    tg_active (foldl (connect cap) t ks) = tg_active t"
proof (induction ks arbitrary: t)
  case (Cons k ks)
  have "bt_ok (tg_edges (connect cap t k))" using Cons.prems by (simp add: connect_def bt_insert_ok)
  from Cons.IH[OF this] show ?case by (auto simp: connect_def full_def fun_eq_iff)
qed simp

lemma fully_connected_get:
  "bt_ok (tg_edges (fully_connected agents cap))"
  "bt_get (tg_edges (fully_connected agents cap)) k =
     (if fst k \<in> set agents \<and> snd k \<in> set agents \<and> fst k \<noteq> snd k
      then Some \<lparr> ed_from = fst k, ed_to = snd k, ed_encoding = F32, ed_authority = min ContextInject cap,
        ed_mandatory = False \<rparr> else None)"
  "cap_for (fully_connected agents cap) f s =
     (if f \<in> set agents \<and> s \<in> set agents \<and> f \<noteq> s then cap else ObserveOnly)"
  "tg_active (fully_connected agents cap) = agents"
  using connect_fold[of "\<lparr> tg_active = agents, tg_edges = [], tg_caps = [] \<rparr>" cap "List.product agents agents"]
  by (auto simp: fully_connected_def cap_for_def mem_Times_iff)

lemma fully_connected_constitution:
  assumes "sorted_wrt (<) agents"
  shows "constitution (set agents) (tg_caps (fully_connected agents cap)) {} (fully_connected agents cap)"
proof -
  have "edge_ok (set agents) (fully_connected agents cap) (k, e)" if "(k, e) \<in> set (tg_edges (fully_connected agents cap))" for k e
  proof -
    have "bt_get (tg_edges (fully_connected agents cap)) k = Some e"
      using that bt_distinct[OF fully_connected_get(1)] by (simp add: map_of_is_SomeI)
    then show ?thesis by (auto simp: fully_connected_get edge_ok_def split: if_splits)
  qed
  then show ?thesis using assms by (auto simp: constitution_def fully_connected_get)
qed

text \<open>An agent nobody knows is not refused: \<open>AddEdge\<close> and \<open>ReactivateAgent\<close> take any number.\<close>

theorem unknown_agent_accepted:
  "apply_mutation (fully_connected [0, 1] LatentPrefix) (AddEdge 0 200) =
     Inr (put_edge (fully_connected [0, 1] LatentPrefix) (0, 200)
       \<lparr> ed_from = 0, ed_to = 200, ed_encoding = Int8, ed_authority = ObserveOnly, ed_mandatory = False \<rparr>)"
  "apply_mutation (fully_connected [0, 1] LatentPrefix) (ReactivateAgent 200) =
     Inr (fully_connected [0, 1] LatentPrefix\<lparr> tg_active := [0, 1, 200] \<rparr>)"
  by (simp_all add: fully_connected_get min_def)

end
