(* ===== verification/Decimal.thy ===== *)
theory Decimal
  imports Prelude
begin

text \<open>
  Texts of the standard library, as their UTF-8 bytes: the decimal \<open>Display\<close> of integers (with the zero padding
  of \<open>{:02}\<close>), \<open>FromStr\<close> of the unsigned ones, and the trimming of white space.
\<close>

section \<open>Printing and parsing\<close>

definition digit :: "nat \<Rightarrow> u8" where
  "digit n = word_of_nat (48 + n mod 10)"

fun decimal :: "nat \<Rightarrow> bytes" where
  "decimal n = (if n < 10 then [] else decimal (n div 10)) @ [digit n]"

declare decimal.simps [simp del]

text \<open>\<open>{:0w}\<close>: padded with zeros on the left to at least \<open>w\<close> characters.\<close>

definition padded :: "nat \<Rightarrow> nat \<Rightarrow> bytes" where
  "padded w n = replicate (w - length (decimal n)) 48 @ decimal n"

definition is_digit :: "u8 \<Rightarrow> bool" where
  "is_digit b \<longleftrightarrow> 48 \<le> b \<and> b \<le> 57"

text \<open>\<open>from_str\<close> of an unsigned type with maximum \<open>m\<close>: an optional plus sign, then digits, each step
  checked for overflow.\<close>

fun parse_digits :: "nat \<Rightarrow> nat \<Rightarrow> bytes \<Rightarrow> nat option" where
  "parse_digits m acc [] = Some acc"
| "parse_digits m acc (b # bs) =
     (if \<not> is_digit b then None
      else let n = acc * 10 + (unat b - 48) in if m < n then None else parse_digits m n bs)"

definition parse_unsigned :: "nat \<Rightarrow> bytes \<Rightarrow> nat option" where
  "parse_unsigned m bs =
     (case bs of [] \<Rightarrow> None
      | b # r \<Rightarrow> if b = 43 then (if r = [] then None else parse_digits m 0 r) else parse_digits m 0 bs)"

definition decimal_signed :: "int \<Rightarrow> bytes" where
  "decimal_signed n = (if n < 0 then 45 # decimal (nat (- n)) else decimal (nat n))"

section \<open>White space\<close>

text \<open>The encodings of the characters with the Unicode property \<open>White_Space\<close>.\<close>

definition white_space :: "bytes list" where
  "white_space =
     map (\<lambda>b. [b]) [9, 10, 11, 12, 13, 32] @ [[0xc2, 0x85], [0xc2, 0xa0], [0xe1, 0x9a, 0x80]] @
     map (\<lambda>b. [0xe2, 0x80, b]) [0x80, 0x81, 0x82, 0x83, 0x84, 0x85, 0x86, 0x87, 0x88, 0x89, 0x8a, 0xa8, 0xa9, 0xaf] @
     [[0xe2, 0x81, 0x9f], [0xe3, 0x80, 0x80]]"

text \<open>Drop the given chunks from the front as long as there is one.\<close>

function drop_chunks :: "bytes list \<Rightarrow> bytes \<Rightarrow> bytes" where
  "drop_chunks ws bs =
     (case find (\<lambda>w. w \<noteq> [] \<and> take (length w) bs = w) ws of
        None \<Rightarrow> bs
      | Some w \<Rightarrow> drop_chunks ws (drop (length w) bs))"
  by pat_completeness auto

termination
proof (relation "measure (length \<circ> snd)")
  fix ws :: "bytes list" and bs w
  assume "find (\<lambda>w. w \<noteq> [] \<and> take (length w) bs = w) ws = Some w"
  then have "w \<noteq> []" "take (length w) bs = w" by (auto simp: find_Some_iff)
  then have "bs \<noteq> []" by auto
  then show "((ws, drop (length w) bs), (ws, bs)) \<in> measure (length \<circ> snd)" using \<open>w \<noteq> []\<close> by simp
qed simp

definition trim_start :: "bytes \<Rightarrow> bytes" where
  "trim_start bs = drop_chunks white_space bs"

definition trim_end :: "bytes \<Rightarrow> bytes" where
  "trim_end bs = rev (drop_chunks (map rev white_space) (rev bs))"

definition trim :: "bytes \<Rightarrow> bytes" where
  "trim bs = trim_end (trim_start bs)"

section \<open>Laws\<close>

lemma unat_digit: "unat (digit n) = 48 + n mod 10"
proof -
  have "n mod 10 < 10" by simp
  then have "48 + n mod 10 < 256" by linarith
  then show ?thesis unfolding digit_def unat_of_nat by (intro mod_less) simp
qed

lemma is_digit_unat: "is_digit b \<longleftrightarrow> 48 \<le> unat b \<and> unat b \<le> 57"
  by (simp add: is_digit_def word_le_nat_alt)

lemma digit_is_digit [simp]: "is_digit (digit n)"
  using mod_less_divisor[of 10 n] by (simp add: is_digit_unat unat_digit)

lemma decimal_digits: "b \<in> set (decimal n) \<Longrightarrow> is_digit b"
proof (induction n rule: decimal.induct)
  case (1 n)
  show ?case using "1.prems" by (subst (asm) decimal.simps) (auto dest: "1.IH" split: if_splits)
qed

lemma decimal_not_Nil [simp]: "decimal n \<noteq> []"
  by (subst decimal.simps) simp

lemma parse_digits_append:
  "parse_digits m acc (xs @ ys) = Option.bind (parse_digits m acc xs) (\<lambda>n. parse_digits m n ys)"
  by (induction m acc xs rule: parse_digits.induct) (simp_all add: Let_def)

lemma parse_digits_decimal: "n \<le> m \<Longrightarrow> parse_digits m 0 (decimal n) = Some n"
proof (induction n rule: decimal.induct)
  case (1 n)
  have "parse_digits m 0 (if n < 10 then [] else decimal (n div 10)) = Some (n div 10)"
    using 1 by (auto intro: order_trans[OF div_le_dividend])
  then show ?case
    using "1.prems" by (subst decimal.simps, subst parse_digits_append) (simp add: unat_digit)
qed

lemma parse_unsigned_decimal: "n \<le> m \<Longrightarrow> parse_unsigned m (decimal n) = Some n"
proof -
  assume n: "n \<le> m"
  obtain b r where br: "decimal n = b # r" by (cases "decimal n") auto
  then have "is_digit b" using decimal_digits[of b n] by simp
  then have "b \<noteq> 43" by (auto simp: is_digit_unat)
  then show ?thesis using parse_digits_decimal[OF n] br by (simp add: parse_unsigned_def)
qed

lemma decimal_inject [simp]: "decimal a = decimal b \<longleftrightarrow> a = b"
proof
  assume eq: "decimal a = decimal b"
  have "Some a = parse_digits (max a b) 0 (decimal a)" by (rule parse_digits_decimal[symmetric]) simp
  also have "\<dots> = Some b" unfolding eq by (rule parse_digits_decimal) simp
  finally show "a = b" by simp
qed simp

end
