(* ===== verification/Evolve.thy ===== *)
theory Evolve
  imports Evolve_Topology Latent_Memory Decimal Float_Order
begin

text \<open>
  \<open>latentmesh-evolve/src/env.rs\<close>, \<open>fitness.rs\<close>, the loop of \<open>darwin.rs\<close> and \<open>receipt.rs\<close>: the synthetic
  world, the causal fitness of a topology with its cache of verdicts, the elitist search over
  mutations, its memory between runs and the acceptance report. The random generator is a parameter.
  \<open>None\<close> is the panic of an index out of range.
\<close>

section \<open>The random generator\<close>

text \<open>\<open>StdRng\<close> again, with the further samplers of this crate: \<open>gen_range\<close> over floats, over \<open>usize\<close> indices and over
  bytes below a bound, and the index that \<open>SliceRandom::choose\<close> draws, which is sampled apart from \<open>gen_range\<close> (over \<open>u32\<close> for
  a short slice).\<close>

record 'r darwin_rng =
  dr_std :: "'r rng"
  dr_float :: "f64 \<Rightarrow> f64 \<Rightarrow> 'r \<Rightarrow> f64 \<times> 'r"
  dr_index :: "nat \<Rightarrow> 'r \<Rightarrow> nat \<times> 'r"
  dr_u8 :: "nat \<Rightarrow> 'r \<Rightarrow> nat \<times> 'r"
  dr_choose :: "nat \<Rightarrow> 'r \<Rightarrow> nat \<times> 'r"

definition indices_in_range :: "'r darwin_rng \<Rightarrow> bool" where
  "indices_in_range R \<longleftrightarrow> (\<forall>n r. 0 < n \<longrightarrow> fst (dr_index R n r) < n \<and> fst (dr_choose R n r) < n)"

section \<open>The environment\<close>

record synthetic_env =
  se_seed :: u64
  se_true_value :: "f64 list list"
  se_mandatory_edges :: "(agent_id \<times> agent_id) list"

definition env_useful :: "(nat \<times> nat \<times> f64) list" where
  "env_useful =
     [(0, 1, f64_of (12 / 10)), (2, 1, f64_of (7 / 10)), (3, 0, f64_of (9 / 10)), (4, 1, f64_of (6 / 10)),
      (1, 4, Fin False (1 / 2)), (0, 4, f64_of (4 / 10)), (2, 0, f64_of (3 / 10))]"

definition env_jitter :: "'r darwin_rng \<Rightarrow> f64 list list \<times> 'r \<Rightarrow> nat \<times> nat \<times> f64 \<Rightarrow> f64 list list \<times> 'r" where
  "env_jitter R s u =
     (let (tv, r) = s; (f, t, v) = u; (j, r') = dr_float R (fp_neg (f64_of (5 / 100))) (f64_of (5 / 100)) r
      in (tv[f := (tv ! f)[t := d_add v j]], r'))"

definition env_new :: "'r darwin_rng \<Rightarrow> u64 \<Rightarrow> synthetic_env" where
  "env_new R seed =
     (let tv = fst (foldl (env_jitter R)
            (replicate 10 (replicate 10 (Fin False 0)), seed_from_u64 (dr_std R) (seed XOR 0x454e5631)) env_useful)
      in \<lparr> se_seed = seed, se_true_value = tv, se_mandatory_edges = [(9, 1)] \<rparr>)"

definition env_agents :: "agent_id list" where
  "env_agents = map word_of_nat [0..<10]"

definition env_true_value :: "synthetic_env \<Rightarrow> agent_id \<Rightarrow> agent_id \<Rightarrow> f64 option" where
  "env_true_value env f t =
     (if unat f < 10 \<and> unat t < 10 then Some (se_true_value env ! unat f ! unat t) else None)"

fun env_sample :: "'r darwin_rng \<Rightarrow> f64 \<Rightarrow> nat \<Rightarrow> 'r \<Rightarrow> f64 list \<times> 'r" where
  "env_sample R offset 0 r = ([], r)"
| "env_sample R offset (Suc n) r =
     (let (j, r1) = dr_float R (fp_neg (f64_of (15 / 100))) (f64_of (15 / 100)) r;
          (xs, r2) = env_sample R offset n r1
      in (d_add offset j # xs, r2))"

definition edge_id :: "agent_id \<Rightarrow> agent_id \<Rightarrow> u64" where
  "edge_id f t = push_bit 8 (ucast f) OR ucast t"

definition env_edge_trial :: "'r darwin_rng \<Rightarrow> synthetic_env \<Rightarrow> agent_id \<Rightarrow> agent_id \<Rightarrow> nat \<Rightarrow> edge_trial option" where
  "env_edge_trial R env f t trials =
     map_option (\<lambda>value.
       let r = seed_from_u64 (dr_std R) (se_seed env * 0x9e3779b97f4a7c15 + edge_id f t);
           half = Fin False (1 / 2);
           (real, r) = env_sample R (d_add half value) trials r;
           (zero, r) = env_sample R half trials r;
           (random, r) = env_sample R half trials r;
           (mismatched, r) = env_sample R half trials r;
           (self_generated, r) = env_sample R half trials r;
           (text_equivalent, r) = env_sample R (d_add half (d_mul value (f64_of (15 / 100)))) trials r
       in \<lparr> tr_real = real, tr_zero = zero, tr_random = random, tr_mismatched = mismatched,
            tr_self_generated = self_generated, tr_text_equivalent = text_equivalent \<rparr>)
       (env_true_value env f t)"

definition task_success :: "synthetic_env \<Rightarrow> (agent_id \<times> agent_id) list \<Rightarrow> f64 option" where
  "task_success env ks =
     map_option (\<lambda>vs. fp_min (d_sum vs) (Fin False 5)) (those (map (\<lambda>k. env_true_value env (fst k) (snd k)) ks))"

section \<open>Fitness\<close>

record fitness_weights =
  fw_lambda_cost :: f64
  fw_mu_latency :: f64
  fw_rho_risk :: f64
  fw_alpha :: f64
  fw_trials :: nat
  fw_resamples :: nat

definition fitness_weights_default :: fitness_weights where
  "fitness_weights_default =
     \<lparr> fw_lambda_cost = f64_of (2 / 1000), fw_mu_latency = f64_of (1 / 100), fw_rho_risk = Fin False (1 / 2),
       fw_alpha = f64_of (5 / 100), fw_trials = 24, fw_resamples = 600 \<rparr>"

record fitness_breakdown =
  fb_quality :: f64
  fb_cost :: f64
  fb_latency :: f64
  fb_risk :: f64
  fb_fitness :: f64
  fb_task_success :: f64
  fb_edge_results :: "(agent_id \<times> agent_id \<times> f64 \<times> bool) list"
  fb_verification_evaluations :: nat

fun authority_risk :: "authority \<Rightarrow> f64" where
  "authority_risk ObserveOnly = f64_of (5 / 100)"
| "authority_risk ContextInject = f64_of (2 / 10)"
| "authority_risk LatentPrefix = f64_of (45 / 100)"
| "authority_risk ActionInfluencing = Fin False (3 / 4)"

type_synonym verification_cache = "(agent_id \<times> agent_id, f64 \<times> bool) btree"

text \<open>The verdict on an edge, a function of its ends.\<close>

definition edge_result ::
  "'r darwin_rng \<Rightarrow> synthetic_env \<Rightarrow> fitness_weights \<Rightarrow> u64 \<Rightarrow> agent_id \<times> agent_id \<Rightarrow> (f64 \<times> bool) option" where
  "edge_result R env w seed k =
     map_option (\<lambda>trial.
       case verify_edge (dr_std R) trial (fw_alpha w) (fw_resamples w) (seed * 0x100 + edge_id (fst k) (snd k)) of
         Admit delta_v _ \<Rightarrow> (delta_v, True)
       | Reject _ \<Rightarrow> (Fin False 0, False))
       (env_edge_trial R env (fst k) (snd k) (fw_trials w))"

definition cached_result ::
  "'r darwin_rng \<Rightarrow> synthetic_env \<Rightarrow> fitness_weights \<Rightarrow> u64 \<Rightarrow> agent_id \<times> agent_id \<Rightarrow> verification_cache \<Rightarrow>
    ((f64 \<times> bool) \<times> nat \<times> verification_cache) option" where
  "cached_result R env w seed k cache =
     (case bt_get cache k of
        Some res \<Rightarrow> Some (res, 0, cache)
      | None \<Rightarrow> map_option (\<lambda>res. (res, fw_trials w * 5, bt_insert k res cache)) (edge_result R env w seed k))"

record edge_sums =
  es_quality :: f64
  es_risk :: f64
  es_results :: "(agent_id \<times> agent_id \<times> f64 \<times> bool) list"
  es_evaluations :: nat

definition edge_sums_zero :: edge_sums where
  "edge_sums_zero = \<lparr> es_quality = Fin False 0, es_risk = Fin False 0, es_results = [], es_evaluations = 0 \<rparr>"

definition add_edge_result :: "edge_sums \<Rightarrow> edge \<Rightarrow> f64 \<times> bool \<Rightarrow> nat \<Rightarrow> edge_sums" where
  "add_edge_result s e res n =
     \<lparr> es_quality = (if snd res then d_add (es_quality s) (fst res) else es_quality s),
       es_risk = d_add (es_risk s) (authority_risk (ed_authority e)),
       es_results = es_results s @ [(ed_from e, ed_to e, res)],
       es_evaluations = es_evaluations s + n \<rparr>"

fun sum_edges ::
  "'r darwin_rng \<Rightarrow> synthetic_env \<Rightarrow> fitness_weights \<Rightarrow> u64 \<Rightarrow> edge list \<Rightarrow> edge_sums \<Rightarrow> verification_cache \<Rightarrow>
    (edge_sums \<times> verification_cache) option" where
  "sum_edges R env w seed [] s cache = Some (s, cache)"
| "sum_edges R env w seed (e # es) s cache =
     Option.bind (cached_result R env w seed (ed_from e, ed_to e) cache) (\<lambda>(res, n, cache').
       sum_edges R env w seed es (add_edge_result s e res n) cache')"

definition topology_latency :: "topology \<Rightarrow> f64" where
  "topology_latency t =
     (if tg_active t = [] then Fin False 0
      else d_div (f64_of (of_nat (length (live_edges t)))) (f64_of (of_nat (length (tg_active t)))))"

definition fitness_of :: "fitness_weights \<Rightarrow> f64 \<Rightarrow> f64 \<Rightarrow> f64 \<Rightarrow> f64 \<Rightarrow> f64" where
  "fitness_of w quality cost latency risk =
     d_sub (d_sub (d_sub quality (d_mul (fw_lambda_cost w) cost)) (d_mul (fw_mu_latency w) latency))
       (d_mul (fw_rho_risk w) risk)"

definition evaluate ::
  "'r darwin_rng \<Rightarrow> topology \<Rightarrow> synthetic_env \<Rightarrow> fitness_weights \<Rightarrow> u64 \<Rightarrow> verification_cache \<Rightarrow>
    (fitness_breakdown \<times> verification_cache) option" where
  "evaluate R t env w seed cache =
     Option.bind (sum_edges R env w seed (live_edges t) edge_sums_zero cache) (\<lambda>(s, cache').
       map_option (\<lambda>success.
         let cost = compute_proxy t; latency = topology_latency t in
         (\<lparr> fb_quality = es_quality s, fb_cost = cost, fb_latency = latency, fb_risk = es_risk s,
            fb_fitness = fitness_of w (es_quality s) cost latency (es_risk s), fb_task_success = success,
            fb_edge_results = es_results s, fb_verification_evaluations = es_evaluations s \<rparr>, cache'))
         (task_success env (map (\<lambda>e. (ed_from e, ed_to e)) (live_edges t))))"

section \<open>The search\<close>

record darwin_config =
  dc_seed :: u64
  dc_generations :: nat
  dc_population :: nat
  dc_mutations_per_child :: nat
  dc_weights :: fitness_weights

definition darwin_default :: darwin_config where
  "darwin_default =
     \<lparr> dc_seed = 0x44415257, dc_generations = 40, dc_population = 12, dc_mutations_per_child = 3,
       dc_weights = fitness_weights_default \<rparr>"

record evolve_outcome =
  eo_initial :: fitness_breakdown
  eo_best :: fitness_breakdown
  eo_best_topology :: topology
  eo_generations_run :: nat
  eo_mutations_proposed :: nat
  eo_mutations_rejected :: nat
  eo_total_verifications :: nat
  eo_warm_started :: bool

definition pick :: "'r darwin_rng \<Rightarrow> 'a list \<Rightarrow> 'r \<Rightarrow> 'a \<times> 'r" where
  "pick R xs r = (let (i, r') = dr_index R (length xs) r in (xs ! i, r'))"

text \<open>\<open>choose\<close>: nothing, and no draw, from an empty slice.\<close>

definition slice_choose :: "'r darwin_rng \<Rightarrow> 'a list \<Rightarrow> 'r \<Rightarrow> 'a option \<times> 'r" where
  "slice_choose R xs r =
     (if xs = [] then (None, r) else let (i, r') = dr_choose R (length xs) r in (Some (xs ! i), r'))"

definition random_mutation ::
  "'r darwin_rng \<Rightarrow> agent_id list \<Rightarrow> topology \<Rightarrow> 'r \<Rightarrow> mutation \<times> 'r" where
  "random_mutation R agents t r =
     (let existing = bt_keys (tg_edges t);
          add_edge = (\<lambda>r. let (f, r1) = pick R agents r; (s, r2) = pick R agents r1 in (AddEdge f s, r2));
          on_edge = (\<lambda>m r. let (k, r1) = pick R existing r in (m (fst k) (snd k), r1))
      in if existing = [] then add_edge r
         else let (c, r) = dr_u8 R 10 r in
           if c = 0 then add_edge r
           else if c \<le> 3 then on_edge RemoveEdge r
           else if c = 4 then on_edge RaiseAuthority r
           else if c = 5 then on_edge LowerAuthority r
           else if c \<le> 7 then
             (let (k, r1) = pick R existing r; (enc, r2) = slice_choose R [F32, F16, Int8] r1
              in (ChangeEncoding (fst k) (snd k) (case enc of Some e \<Rightarrow> e | None \<Rightarrow> Int8), r2))
           else if c = 8 then (let (a, r1) = pick R agents r in (DeactivateAgent a, r1))
           else (let (a, r1) = pick R agents r in (ReactivateAgent a, r1)))"

text \<open>The mutations of one child; the count is of the refused ones.\<close>

fun mutate_child :: "'r darwin_rng \<Rightarrow> agent_id list \<Rightarrow> nat \<Rightarrow> topology \<Rightarrow> 'r \<Rightarrow> nat \<Rightarrow> topology \<times> 'r \<times> nat" where
  "mutate_child R agents 0 t r rejected = (t, r, rejected)"
| "mutate_child R agents (Suc n) t r rejected =
     (let (m, r') = random_mutation R agents t r in
      case apply_mutation t m of
        Inr t' \<Rightarrow> mutate_child R agents n t' r' rejected
      | Inl _ \<Rightarrow> mutate_child R agents n t r' (rejected + 1))"

record 'r search_state =
  ss_rng :: 'r
  ss_cache :: verification_cache
  ss_proposed :: nat
  ss_rejected :: nat
  ss_verifications :: nat

fun breed ::
  "'r darwin_rng \<Rightarrow> synthetic_env \<Rightarrow> darwin_config \<Rightarrow> topology \<Rightarrow> nat \<Rightarrow> 'r search_state \<Rightarrow>
    ((topology \<times> fitness_breakdown) list \<times> 'r search_state) option" where
  "breed R env cfg best 0 s = Some ([], s)"
| "breed R env cfg best (Suc n) s =
     (let (child, r, rejected) = mutate_child R env_agents (dc_mutations_per_child cfg) best (ss_rng s) (ss_rejected s)
      in Option.bind (evaluate R child env (dc_weights cfg) (dc_seed cfg) (ss_cache s)) (\<lambda>(fb, cache).
           map_option (\<lambda>(children, s'). ((child, fb) # children, s'))
             (breed R env cfg best n
               \<lparr> ss_rng = r, ss_cache = cache, ss_proposed = ss_proposed s + dc_mutations_per_child cfg,
                 ss_rejected = rejected, ss_verifications = ss_verifications s + fb_verification_evaluations fb \<rparr>)))"

text \<open>\<open>max_by\<close> over the fitness: the last greatest; values that do not compare count as equal.\<close>

definition fitter :: "topology \<times> fitness_breakdown \<Rightarrow> topology \<times> fitness_breakdown \<Rightarrow> topology \<times> fitness_breakdown" where
  "fitter x y = (if fp_lt (fb_fitness (snd y)) (fb_fitness (snd x)) then x else y)"

fun fittest :: "(topology \<times> fitness_breakdown) list \<Rightarrow> (topology \<times> fitness_breakdown) option" where
  "fittest [] = None"
| "fittest (x # xs) = Some (foldl fitter x xs)"

definition select_best ::
  "topology \<times> fitness_breakdown \<Rightarrow> (topology \<times> fitness_breakdown) list \<Rightarrow> topology \<times> fitness_breakdown" where
  "select_best best children =
     (case fittest children of
        None \<Rightarrow> best
      | Some c \<Rightarrow> if fp_lt (fb_fitness (snd best)) (fb_fitness (snd c)) then c else best)"

fun run_generations ::
  "'r darwin_rng \<Rightarrow> synthetic_env \<Rightarrow> darwin_config \<Rightarrow> nat \<Rightarrow> topology \<times> fitness_breakdown \<Rightarrow> 'r search_state \<Rightarrow>
    ((topology \<times> fitness_breakdown) \<times> 'r search_state) option" where
  "run_generations R env cfg 0 best s = Some (best, s)"
| "run_generations R env cfg (Suc n) best s =
     Option.bind (breed R env cfg (fst best) (dc_population cfg) s) (\<lambda>(children, s').
       run_generations R env cfg n (select_best best children) s')"

text \<open>The final audit: unverified edges that are not mandatory go, stranded edges too, and then the agents
  without an edge.\<close>

definition audit_keeps :: "topology \<Rightarrow> fitness_breakdown \<Rightarrow> (agent_id \<times> agent_id) \<times> edge \<Rightarrow> bool" where
  "audit_keeps t fb ke \<longleftrightarrow>
     (let unverified = map (\<lambda>(f, s, _, _). (f, s)) (filter (\<lambda>(_, _, _, verified). \<not> verified) (fb_edge_results fb))
      in ed_mandatory (snd ke) \<or>
         fst ke \<notin> set unverified \<and> fst (fst ke) \<in> set (tg_active t) \<and> snd (fst ke) \<in> set (tg_active t))"

definition audit :: "topology \<Rightarrow> fitness_breakdown \<Rightarrow> topology" where
  "audit t fb =
     (let edges = filter (audit_keeps t fb) (tg_edges t);
          needed = concat (map (\<lambda>(_, e). [ed_from e, ed_to e]) edges)
      in t\<lparr> tg_edges := edges, tg_active := filter (\<lambda>a. a \<in> set needed) (tg_active t) \<rparr>)"

text \<open>The agents that a remembered topology names.\<close>

definition strip_prefix :: "bytes \<Rightarrow> bytes \<Rightarrow> bytes option" where
  "strip_prefix p bs = (if take (length p) bs = p then Some (drop (length p) bs) else None)"

definition agent_of_name :: "bytes \<Rightarrow> agent_id option" where
  "agent_of_name name =
     Option.bind (strip_prefix (ascii ''agent-'') name) (\<lambda>n. map_option word_of_nat (parse_unsigned 255 n))"

definition agent_name :: "agent_id \<Rightarrow> bytes" where
  "agent_name a = ascii ''agent-'' @ decimal (unat a)"

definition warm_start :: "synthetic_env \<Rightarrow> (memory_store \<times> bytes) option \<Rightarrow> topology \<Rightarrow> topology \<times> bool" where
  "warm_start env memory base =
     (case memory of None \<Rightarrow> (base, False)
      | Some (store, family) \<Rightarrow>
          case recall_topology store family of None \<Rightarrow> (base, False)
          | Some rec \<Rightarrow>
              let keep = List.map_filter agent_of_name (tp_agent_sequence rec);
                  mandatory = concat (map (\<lambda>(f, s). [f, s]) (se_mandatory_edges env))
              in if keep = [] then (base, False)
                 else (base\<lparr> tg_active := filter (\<lambda>a. a \<in> set keep \<or> a \<in> set mandatory) (tg_active base) \<rparr>, True))"

definition mark_mandatory :: "topology \<Rightarrow> agent_id \<times> agent_id \<Rightarrow> topology" where
  "mark_mandatory t k =
     (case bt_get (tg_edges t) k of None \<Rightarrow> t | Some e \<Rightarrow> put_edge t k (e\<lparr> ed_mandatory := True \<rparr>))"

definition base_topology :: "synthetic_env \<Rightarrow> topology" where
  "base_topology env = foldl mark_mandatory (fully_connected env_agents LatentPrefix) (se_mandatory_edges env)"

definition evolve ::
  "'r darwin_rng \<Rightarrow> synthetic_env \<Rightarrow> darwin_config \<Rightarrow> (memory_store \<times> bytes) option \<Rightarrow> evolve_outcome option" where
  "evolve R env cfg memory =
     (let (base, warm) = warm_start env memory (base_topology env) in
      Option.bind (evaluate R base env (dc_weights cfg) (dc_seed cfg) []) (\<lambda>(initial, cache).
        Option.bind (run_generations R env cfg (dc_generations cfg) (base, initial)
            \<lparr> ss_rng = seed_from_u64 (dr_std R) (dc_seed cfg), ss_cache = cache, ss_proposed = 0, ss_rejected = 0,
              ss_verifications = fb_verification_evaluations initial \<rparr>) (\<lambda>((t, fb), s).
          map_option (\<lambda>(audited_fit, _).
            let (best_topology, best) =
              (if fp_le (fb_fitness fb) (fb_fitness audited_fit) then (audit t fb, audited_fit) else (t, fb))
            in \<lparr> eo_initial = initial, eo_best = best, eo_best_topology = best_topology,
                 eo_generations_run = dc_generations cfg, eo_mutations_proposed = ss_proposed s,
                 eo_mutations_rejected = ss_rejected s, eo_total_verifications = ss_verifications s,
                 eo_warm_started = warm \<rparr>)
            (evaluate R (audit t fb) env (dc_weights cfg) (dc_seed cfg) (ss_cache s)))))"

definition remember_topology :: "memory_store \<Rightarrow> bytes \<Rightarrow> evolve_outcome \<Rightarrow> memory_store" where
  "remember_topology store family outcome =
     store_topology store
       \<lparr> tp_family = family, tp_agent_sequence = map agent_name (tg_active (eo_best_topology outcome)),
         tp_successful_uses = 1 \<rparr>"

section \<open>The acceptance report\<close>

record acceptance_report =
  ar_compute_reduction :: f64
  ar_compute_reduction_target :: f64
  ar_compute_reduction_met :: bool
  ar_task_success_before :: f64
  ar_task_success_after :: f64
  ar_task_success_maintained :: bool
  ar_surviving_edges :: nat
  ar_unverified_nonmandatory_edges :: nat
  ar_all_surviving_edges_verified :: bool
  ar_passed :: bool

definition compute_reduction :: "f64 \<Rightarrow> f64 \<Rightarrow> f64" where
  "compute_reduction before after =
     (if fp_lt (Fin False 0) before then d_sub (Fin False 1) (d_div after before) else Fin False 0)"

definition unverified_nonmandatory :: "topology \<Rightarrow> fitness_breakdown \<Rightarrow> (agent_id \<times> agent_id) list" where
  "unverified_nonmandatory t fb =
     (let mandatory = map (\<lambda>e. (ed_from e, ed_to e)) (filter ed_mandatory (map snd (tg_edges t)))
      in map (\<lambda>(f, s, _). (f, s))
           (filter (\<lambda>(f, s, _, verified). \<not> verified \<and> (f, s) \<notin> set mandatory) (fb_edge_results fb)))"

definition acceptance_check :: "evolve_outcome \<Rightarrow> acceptance_report" where
  "acceptance_check out =
     (let reduction = compute_reduction (fb_cost (eo_initial out)) (fb_cost (eo_best out));
          target = f64_of (30 / 100);
          met = fp_le target reduction;
          maintained = fp_le (d_sub (fb_task_success (eo_initial out)) (f64_of (1 / 1000000000))) (fb_task_success (eo_best out));
          unverified = length (unverified_nonmandatory (eo_best_topology out) (eo_best out))
      in \<lparr> ar_compute_reduction = reduction, ar_compute_reduction_target = target, ar_compute_reduction_met = met,
           ar_task_success_before = fb_task_success (eo_initial out), ar_task_success_after = fb_task_success (eo_best out),
           ar_task_success_maintained = maintained, ar_surviving_edges = length (fb_edge_results (eo_best out)),
           ar_unverified_nonmandatory_edges = unverified, ar_all_surviving_edges_verified = (unverified = 0),
           ar_passed = (met \<and> maintained \<and> unverified = 0) \<rparr>)"

record evolve_receipt =
  er_schema :: string
  er_evidence :: string
  er_seed :: u64
  er_generations :: nat
  er_population :: nat
  er_warm_started :: bool
  er_fitness_before :: f64
  er_fitness_after :: f64
  er_quality_after :: f64
  er_compute_before :: f64
  er_compute_after :: f64
  er_mutations_proposed :: nat
  er_mutations_rejected :: nat
  er_verification_evaluations :: nat
  er_acceptance :: acceptance_report
  er_not_claimed :: "string list"

definition receipt_from_outcome :: "darwin_config \<Rightarrow> evolve_outcome \<Rightarrow> evolve_receipt" where
  "receipt_from_outcome cfg out =
     \<lparr> er_schema = ''latentmesh-evolve-receipt-v1'', er_evidence = ''simulated'', er_seed = dc_seed cfg,
       er_generations = eo_generations_run out, er_population = dc_population cfg, er_warm_started = eo_warm_started out,
       er_fitness_before = fb_fitness (eo_initial out), er_fitness_after = fb_fitness (eo_best out),
       er_quality_after = fb_quality (eo_best out), er_compute_before = fb_cost (eo_initial out),
       er_compute_after = fb_cost (eo_best out), er_mutations_proposed = eo_mutations_proposed out,
       er_mutations_rejected = eo_mutations_rejected out, er_verification_evaluations = eo_total_verifications out,
       er_acceptance = acceptance_check out,
       er_not_claimed = [''live multi-agent workload evidence is absent'', ''real model routing evidence is absent'',
         ''production MidStream bandwidth control is absent''] \<rparr>"

section \<open>The cache\<close>

definition cache_sound :: "'r darwin_rng \<Rightarrow> synthetic_env \<Rightarrow> fitness_weights \<Rightarrow> u64 \<Rightarrow> verification_cache \<Rightarrow> bool" where
  "cache_sound R env w seed cache \<longleftrightarrow> (\<forall>k res. bt_get cache k = Some res \<longrightarrow> edge_result R env w seed k = Some res)"

text \<open>The sums over the edges with their results, as a reference without a cache.\<close>

definition edge_key :: "edge \<Rightarrow> agent_id \<times> agent_id" where
  "edge_key e = (ed_from e, ed_to e)"

definition plain_sums ::
  "'r darwin_rng \<Rightarrow> synthetic_env \<Rightarrow> fitness_weights \<Rightarrow> u64 \<Rightarrow> edge list \<Rightarrow> edge_sums \<Rightarrow> edge_sums" where
  "plain_sums R env w seed es s =
     foldl (\<lambda>s e. add_edge_result s e (the (edge_result R env w seed (edge_key e))) 0) s es"

lemma plain_sums_simps [simp]:
  "plain_sums R env w seed [] s = s"
  "plain_sums R env w seed (e # es) s =
     plain_sums R env w seed es (add_edge_result s e (the (edge_result R env w seed (edge_key e))) 0)"
  by (simp_all add: plain_sums_def)

lemma bt_key_member: "bt_get m k = Some v \<Longrightarrow> k \<in> fst ` set m"
  by (metis bt_get_dom option.discI)

lemma cached_result_sound:
  assumes "cache_sound R env w seed cache"
  shows "(case edge_result R env w seed k of
      None \<Rightarrow> cached_result R env w seed k cache = None
    | Some res \<Rightarrow> \<exists>n cache'. cached_result R env w seed k cache = Some (res, n, cache') \<and>
        cache_sound R env w seed cache' \<and> fst ` set cache' = insert k (fst ` set cache) \<and>
        (bt_get cache k \<noteq> None \<longrightarrow> n = 0 \<and> cache' = cache))"
proof (cases "bt_get cache k")
  case None
  then show ?thesis using assms
    by (cases "edge_result R env w seed k") (auto simp: cached_result_def cache_sound_def)
next
  case (Some res)
  then have "edge_result R env w seed k = Some res" using assms unfolding cache_sound_def by blast
  then show ?thesis using Some assms by (auto simp: cached_result_def dest: bt_key_member)
qed

lemma sum_edges_sound:
  assumes "cache_sound R env w seed cache"
  shows "(if \<exists>e\<in>set es. edge_result R env w seed (edge_key e) = None
     then sum_edges R env w seed es s cache = None
     else \<exists>s' cache'. sum_edges R env w seed es s cache = Some (s', cache') \<and>
        s'\<lparr> es_evaluations := 0 \<rparr> = plain_sums R env w seed es (s\<lparr> es_evaluations := 0 \<rparr>) \<and>
        cache_sound R env w seed cache' \<and> fst ` set cache' = edge_key ` set es \<union> fst ` set cache \<and>
        (edge_key ` set es \<subseteq> fst ` set cache \<longrightarrow> es_evaluations s' = es_evaluations s \<and> cache' = cache))"
  using assms
proof (induction es arbitrary: s cache)
  case (Cons e es)
  let ?k = "(ed_from e, ed_to e)"
  note step = cached_result_sound[OF Cons.prems, of ?k]
  show ?case
  proof (cases "edge_result R env w seed ?k")
    case None
    then show ?thesis using step by (simp add: edge_key_def)
  next
    case (Some res)
    then obtain n cache1 where c: "cached_result R env w seed ?k cache = Some (res, n, cache1)"
      "cache_sound R env w seed cache1" "fst ` set cache1 = insert ?k (fst ` set cache)"
      "bt_get cache ?k \<noteq> None \<longrightarrow> n = 0 \<and> cache1 = cache" using step by auto
    note IH = Cons.IH[OF c(2), of "add_edge_result s e res n"]
    have ev: "es_evaluations (add_edge_result s e res n) = es_evaluations s + n" by (simp add: add_edge_result_def)
    have key: "the (edge_result R env w seed (edge_key e)) = res" "edge_key e = ?k" using Some by (simp_all add: edge_key_def)
    show ?thesis
    proof (cases "\<exists>e\<in>set es. edge_result R env w seed (edge_key e) = None")
      case True
      then show ?thesis using IH c(1) by simp
    next
      case False
      then obtain s' cache' where s': "sum_edges R env w seed es (add_edge_result s e res n) cache1 = Some (s', cache')"
        "s'\<lparr> es_evaluations := 0 \<rparr> = plain_sums R env w seed es ((add_edge_result s e res n)\<lparr> es_evaluations := 0 \<rparr>)"
        "cache_sound R env w seed cache'" "fst ` set cache' = edge_key ` set es \<union> fst ` set cache1"
        "edge_key ` set es \<subseteq> fst ` set cache1 \<longrightarrow>
          es_evaluations s' = es_evaluations (add_edge_result s e res n) \<and> cache' = cache1" using IH unfolding if_not_P[OF False] by blast
      have "s'\<lparr> es_evaluations := 0 \<rparr> = plain_sums R env w seed (e # es) (s\<lparr> es_evaluations := 0 \<rparr>)"
        unfolding s'(2) plain_sums_simps key(1) by (simp add: add_edge_result_def)
      moreover have "fst ` set cache' = edge_key ` set (e # es) \<union> fst ` set cache"
        unfolding s'(4) c(3) by (simp add: key(2))
      moreover have "es_evaluations s' = es_evaluations s \<and> cache' = cache" if "edge_key ` set (e # es) \<subseteq> fst ` set cache"
      proof -
        have "bt_get cache ?k \<noteq> None" unfolding bt_get_dom using that key(2) by simp
        then show ?thesis using that s'(5) c(4) ev by simp
      qed
      moreover have "\<not> (\<exists>e\<in>set (e # es). edge_result R env w seed (edge_key e) = None)" using False Some key(2) by simp
      ultimately show ?thesis using s'(1,3) c(1) by auto
    qed
  qed
qed simp

definition cost_free :: "fitness_breakdown \<Rightarrow> fitness_breakdown" where
  "cost_free fb = fb\<lparr> fb_verification_evaluations := 0 \<rparr>"

lemma cost_free_simps [simp]:
  "fb_fitness (cost_free fb) = fb_fitness fb" "fb_edge_results (cost_free fb) = fb_edge_results fb"
  "cost_free (cost_free fb) = cost_free fb"
  by (simp_all add: cost_free_def)

text \<open>The evaluation without a cache.\<close>

definition plain_evaluate ::
  "'r darwin_rng \<Rightarrow> topology \<Rightarrow> synthetic_env \<Rightarrow> fitness_weights \<Rightarrow> u64 \<Rightarrow> fitness_breakdown option" where
  "plain_evaluate R t env w seed =
     (if \<exists>e\<in>set (live_edges t). edge_result R env w seed (edge_key e) = None then None
      else let s = plain_sums R env w seed (live_edges t) edge_sums_zero in
        map_option (\<lambda>success.
          \<lparr> fb_quality = es_quality s, fb_cost = compute_proxy t, fb_latency = topology_latency t, fb_risk = es_risk s,
            fb_fitness = fitness_of w (es_quality s) (compute_proxy t) (topology_latency t) (es_risk s),
            fb_task_success = success, fb_edge_results = es_results s, fb_verification_evaluations = 0 \<rparr>)
          (task_success env (map edge_key (live_edges t))))"

lemma evaluate_sound:
  assumes "cache_sound R env w seed cache"
  shows "(case plain_evaluate R t env w seed of
      None \<Rightarrow> evaluate R t env w seed cache = None
    | Some fb \<Rightarrow> \<exists>fb' cache'. evaluate R t env w seed cache = Some (fb', cache') \<and> cost_free fb' = fb \<and>
        cache_sound R env w seed cache' \<and> fst ` set cache' = edge_key ` set (live_edges t) \<union> fst ` set cache \<and>
        (edge_key ` set (live_edges t) \<subseteq> fst ` set cache \<longrightarrow> fb_verification_evaluations fb' = 0 \<and> cache' = cache))"
proof (cases "\<exists>e\<in>set (live_edges t). edge_result R env w seed (edge_key e) = None")
  case True
  then show ?thesis using sum_edges_sound[OF assms, of "live_edges t" edge_sums_zero]
    by (simp add: plain_evaluate_def evaluate_def)
next
  case False
  obtain s cache' where s: "sum_edges R env w seed (live_edges t) edge_sums_zero cache = Some (s, cache')"
    "s\<lparr> es_evaluations := 0 \<rparr> = plain_sums R env w seed (live_edges t) (edge_sums_zero\<lparr> es_evaluations := 0 \<rparr>)"
    "cache_sound R env w seed cache'" "fst ` set cache' = edge_key ` set (live_edges t) \<union> fst ` set cache"
    "edge_key ` set (live_edges t) \<subseteq> fst ` set cache \<longrightarrow> es_evaluations s = es_evaluations edge_sums_zero \<and> cache' = cache"
    using sum_edges_sound[OF assms, of "live_edges t" edge_sums_zero] unfolding if_not_P[OF False] by blast
  have p: "plain_sums R env w seed (live_edges t) edge_sums_zero = s\<lparr> es_evaluations := 0 \<rparr>"
    using s(2) by (simp add: edge_sums_zero_def)
  have keys: "map (\<lambda>e. (ed_from e, ed_to e)) es = map edge_key es" for es by (simp add: edge_key_def)
  show ?thesis unfolding plain_evaluate_def if_not_P[OF False] p evaluate_def keys
    using s(1,3,4,5)
    by (cases "task_success env (map edge_key (live_edges t))")
      (simp_all add: Let_def cost_free_def edge_sums_zero_def)
qed

text \<open>The cache changes the cost of an evaluation, never its result: with a cache whose verdicts are those of
  the environment, an evaluation panics exactly when the evaluation without a cache does, agrees with it in every value
  but the count of the verifications, and leaves such a cache; evaluating the same topology again costs nothing.\<close>

theorem cache_changes_cost_only:
  assumes "cache_sound R env w seed cache"
  shows "map_option (cost_free \<circ> fst) (evaluate R t env w seed cache) =
      map_option (cost_free \<circ> fst) (evaluate R t env w seed []) \<and>
    (\<forall>fb cache'. evaluate R t env w seed cache = Some (fb, cache') \<longrightarrow>
      cache_sound R env w seed cache' \<and> evaluate R t env w seed cache' = Some (cost_free fb, cache'))"
proof (intro conjI allI impI)
  have empty: "cache_sound R env w seed []" by (simp add: cache_sound_def)
  show "map_option (cost_free \<circ> fst) (evaluate R t env w seed cache) = map_option (cost_free \<circ> fst) (evaluate R t env w seed [])"
    using evaluate_sound[OF assms, of t] evaluate_sound[OF empty, of t]
    by (cases "plain_evaluate R t env w seed") auto
  fix fb cache'
  assume e: "evaluate R t env w seed cache = Some (fb, cache')"
  have plain: "plain_evaluate R t env w seed = Some (cost_free fb)"
    and sound: "cache_sound R env w seed cache'"
    and keys: "fst ` set cache' = edge_key ` set (live_edges t) \<union> fst ` set cache"
    using evaluate_sound[OF assms, of t] e by (auto split: option.splits)
  obtain fb' cache'' where e': "evaluate R t env w seed cache' = Some (fb', cache'')" "cost_free fb' = cost_free fb"
    "edge_key ` set (live_edges t) \<subseteq> fst ` set cache' \<longrightarrow> fb_verification_evaluations fb' = 0 \<and> cache'' = cache'"
    using evaluate_sound[OF sound, of t] unfolding plain option.case by blast
  have "fb_verification_evaluations fb' = 0" "cache'' = cache'" using e'(3) keys by auto
  moreover have "fb' = cost_free fb'" using calculation(1) by (simp add: cost_free_def)
  ultimately show "evaluate R t env w seed cache' = Some (cost_free fb, cache')" using e' by simp
  show "cache_sound R env w seed cache'" by (rule sound)
qed

section \<open>A run of the search\<close>

lemma pick_in: "indices_in_range R \<Longrightarrow> xs \<noteq> [] \<Longrightarrow> pick R xs r = (x, r') \<Longrightarrow> x \<in> set xs"
  by (auto simp: pick_def indices_in_range_def split: prod.splits) (metis fst_conv length_greater_0_conv nth_mem)

lemma edge_key_known:
  assumes "constitution A caps M t" and "k \<in> set (bt_keys (tg_edges t))"
  shows "fst k \<in> A" and "snd k \<in> A"
  using assms by (force simp: constitution_def edge_ok_def)+

lemma random_mutation_known:
  assumes R: "indices_in_range R" and "agents \<noteq> []" and t: "constitution (set agents) caps M t"
    and m: "random_mutation R agents t r = (m, r')"
  shows "mutation_agents m \<subseteq> set agents"
proof -
  have pick1: "x \<in> set agents" if "pick R agents r = (x, r')" for x r r' using pick_in[OF R assms(2) that] .
  have pick2: "fst k \<in> set agents \<and> snd k \<in> set agents"
    if "tg_edges t \<noteq> []" "pick R (bt_keys (tg_edges t)) r = (k, r')" for k r r'
    using edge_key_known[OF t pick_in[OF R _ that(2)]] that(1) by simp
  show ?thesis using m pick1 pick2
    by (fastforce simp: random_mutation_def Let_def split: prod.splits if_splits)
qed

lemma mutate_child_constitution:
  assumes R: "indices_in_range R" and "agents \<noteq> []"
  shows "constitution (set agents) caps M t \<Longrightarrow> mutate_child R agents n t r k = (t', r', k') \<Longrightarrow>
    constitution (set agents) caps M t'"
proof (induction n arbitrary: t r k)
  case (Suc n)
  obtain m r1 where m: "random_mutation R agents t r = (m, r1)" by (cases "random_mutation R agents t r")
  note known = random_mutation_known[OF R assms(2) Suc.prems(1) m]
  show ?case
  proof (cases "apply_mutation t m")
    case (Inl e)
    then show ?thesis using Suc.IH[OF Suc.prems(1)] Suc.prems(2) m by simp
  next
    case (Inr t1)
    then show ?thesis
      using Suc.IH[OF apply_mutation_constitution[OF Suc.prems(1) known Inr]] Suc.prems(2) m by simp
  qed
qed simp

lemma env_agents_eq: "set env_agents = {a. unat a < 10}"
proof -
  have "a \<in> word_of_nat ` {0..<10}" if "unat a < 10" for a :: u8
    using that by (intro image_eqI[of _ _ "unat a"]) simp_all
  then show ?thesis by (auto simp: env_agents_def unat_of_nat)
qed

lemma env_agents_sorted: "sorted_wrt (<) env_agents"
  by (simp add: env_agents_def upt_rec)

text \<open>Under the constitution no index is out of range.\<close>

lemma live_edge_of: "e \<in> set (live_edges t) \<Longrightarrow> \<exists>k. (k, e) \<in> set (tg_edges t)"
  by (force simp: live_edges_def)

lemma plain_evaluate_total:
  assumes "constitution (set env_agents) caps M t"
  obtains fb where "plain_evaluate R t env w seed = Some fb"
proof -
  have ends: "unat (ed_from e) < 10 \<and> unat (ed_to e) < 10" if "e \<in> set (live_edges t)" for e
    using assms live_edge_of[OF that] by (force simp: constitution_def edge_ok_def env_agents_eq)
  then have "edge_result R env w seed (edge_key e) \<noteq> None" if "e \<in> set (live_edges t)" for e
    using that by (simp add: edge_result_def edge_key_def env_edge_trial_def env_true_value_def)
  moreover have "\<exists>vs. those (map (\<lambda>e. env_true_value env (ed_from e) (ed_to e)) es) = Some vs"
    if "\<forall>e\<in>set es. unat (ed_from e) < 10 \<and> unat (ed_to e) < 10" for es
    using that by (induction es) (auto simp: env_true_value_def)
  then have "task_success env (map edge_key (live_edges t)) \<noteq> None"
    using ends by (auto simp: task_success_def edge_key_def comp_def)
  ultimately have "plain_evaluate R t env w seed \<noteq> None" by (auto simp: plain_evaluate_def Let_def)
  then show thesis using that by blast
qed

lemma evaluate_total:
  assumes "constitution (set env_agents) caps M t" and "cache_sound R env w seed cache"
  obtains fb cache' where "evaluate R t env w seed cache = Some (fb, cache')"
    and "plain_evaluate R t env w seed = Some (cost_free fb)" and "cache_sound R env w seed cache'"
proof -
  obtain fb where "plain_evaluate R t env w seed = Some fb" by (rule plain_evaluate_total[OF assms(1)])
  then show thesis using evaluate_sound[OF assms(2), of t] that by auto
qed

text \<open>A candidate of the search: it lives under the constitution and carries its own evaluation.\<close>

definition candidate_ok ::
  "'r darwin_rng \<Rightarrow> synthetic_env \<Rightarrow> darwin_config \<Rightarrow> (agent_id \<times> agent_id, authority) btree \<Rightarrow>
    (agent_id \<times> agent_id) set \<Rightarrow> topology \<times> fitness_breakdown \<Rightarrow> bool" where
  "candidate_ok R env cfg caps M c \<longleftrightarrow>
     constitution (set env_agents) caps M (fst c) \<and>
     plain_evaluate R (fst c) env (dc_weights cfg) (dc_seed cfg) = Some (cost_free (snd c))"

abbreviation search_sound :: "'r darwin_rng \<Rightarrow> synthetic_env \<Rightarrow> darwin_config \<Rightarrow> 'r search_state \<Rightarrow> bool" where
  "search_sound R env cfg s \<equiv> cache_sound R env (dc_weights cfg) (dc_seed cfg) (ss_cache s)"

lemma breed_ok:
  assumes R: "indices_in_range R" and best: "constitution (set env_agents) caps M best"
  shows "search_sound R env cfg s \<Longrightarrow>
    \<exists>children s'. breed R env cfg best n s = Some (children, s') \<and>
      (\<forall>c\<in>set children. candidate_ok R env cfg caps M c) \<and> search_sound R env cfg s'"
proof (induction n arbitrary: s)
  case (Suc n)
  obtain child r k where m: "mutate_child R env_agents (dc_mutations_per_child cfg) best (ss_rng s) (ss_rejected s) = (child, r, k)"
    by (cases "mutate_child R env_agents (dc_mutations_per_child cfg) best (ss_rng s) (ss_rejected s)") auto
  have "env_agents \<noteq> []" by (simp add: env_agents_def)
  from mutate_child_constitution[OF R this best m] have child: "constitution (set env_agents) caps M child" .
  obtain fb cache' where e: "evaluate R child env (dc_weights cfg) (dc_seed cfg) (ss_cache s) = Some (fb, cache')"
    "plain_evaluate R child env (dc_weights cfg) (dc_seed cfg) = Some (cost_free fb)"
    "cache_sound R env (dc_weights cfg) (dc_seed cfg) cache'" by (rule evaluate_total[OF child Suc.prems])
  let ?s = "\<lparr> ss_rng = r, ss_cache = cache', ss_proposed = ss_proposed s + dc_mutations_per_child cfg,
    ss_rejected = k, ss_verifications = ss_verifications s + fb_verification_evaluations fb \<rparr>"
  obtain children s' where b: "breed R env cfg best n ?s = Some (children, s')"
    "\<forall>c\<in>set children. candidate_ok R env cfg caps M c" "search_sound R env cfg s'"
    using Suc.IH[of ?s] e(3) by auto
  then show ?case using m e child by (simp add: candidate_ok_def)
qed simp

lemma fittest_in: "fittest xs = Some c \<Longrightarrow> c \<in> set xs"
proof (cases xs)
  case (Cons x ys)
  have "foldl fitter x ys = x \<or> foldl fitter x ys \<in> set ys" for x
  proof (induction ys arbitrary: x)
    case (Cons y ys)
    have "fitter x y = x \<or> fitter x y = y" by (simp add: fitter_def)
    then show ?case using Cons.IH[of "fitter x y"] by (metis foldl_Cons list.set_intros)
  qed simp
  then have "foldl fitter x ys = x \<or> foldl fitter x ys \<in> set ys" .
  then show "fittest xs = Some c \<Longrightarrow> c \<in> set xs" using Cons by auto
qed simp

definition no_worse :: "fitness_breakdown \<Rightarrow> fitness_breakdown \<Rightarrow> bool" where
  "no_worse a b \<longleftrightarrow> b = a \<or> fp_le (fb_fitness a) (fb_fitness b)"

lemma no_worse_refl [simp]: "no_worse a a"
  by (simp add: no_worse_def)

lemma no_worse_trans: "no_worse a b \<Longrightarrow> no_worse b c \<Longrightarrow> no_worse a c"
  by (auto simp: no_worse_def intro: fp_le_trans)

lemma fp_lt_imp_le: "fp_lt a b \<Longrightarrow> fp_le a b"
  by (cases a; cases b) auto

lemma select_best_ok:
  assumes "candidate_ok R env cfg caps M best" and "\<forall>c\<in>set children. candidate_ok R env cfg caps M c"
  shows "candidate_ok R env cfg caps M (select_best best children)" and "no_worse (snd best) (snd (select_best best children))"
  using assms fittest_in[of children]
  by (auto simp: select_best_def no_worse_def fp_lt_imp_le split: option.split)

lemma run_generations_ok:
  assumes R: "indices_in_range R"
  shows "candidate_ok R env cfg caps M best \<Longrightarrow> search_sound R env cfg s \<Longrightarrow>
    \<exists>best' s'. run_generations R env cfg n best s = Some (best', s') \<and> candidate_ok R env cfg caps M best' \<and>
      no_worse (snd best) (snd best') \<and> search_sound R env cfg s'"
proof (induction n arbitrary: best s)
  case (Suc n)
  have "constitution (set env_agents) caps M (fst best)" using Suc.prems(1) by (simp add: candidate_ok_def)
  from breed_ok[OF R this Suc.prems(2)] obtain children s1 where
    b: "breed R env cfg (fst best) (dc_population cfg) s = Some (children, s1)"
    "\<forall>c\<in>set children. candidate_ok R env cfg caps M c" "search_sound R env cfg s1" by blast
  note sel = select_best_ok[OF Suc.prems(1) b(2)]
  from Suc.IH[OF sel(1) b(3)] obtain best' s' where
    "run_generations R env cfg n (select_best best children) s1 = Some (best', s')"
    "candidate_ok R env cfg caps M best'" "no_worse (snd (select_best best children)) (snd best')" "search_sound R env cfg s'"
    by blast
  then show ?case using b(1) no_worse_trans[OF sel(2)] by (intro exI[of _ best'] exI[of _ s']) simp
qed auto

lemma bt_ok_filter: "bt_ok m \<Longrightarrow> bt_ok (filter P m)"
  by (induction m) (auto simp: bt_ok_Cons)

lemma bt_get_filter: "bt_ok m \<Longrightarrow> bt_get m k = Some v \<Longrightarrow> P (k, v) \<Longrightarrow> bt_get (filter P m) k = Some v"
  by (intro map_of_is_SomeI bt_distinct[OF bt_ok_filter]) (auto dest: map_of_SomeD)

lemma audit_constitution:
  assumes t: "constitution A caps M t"
  shows "constitution A caps M (audit t fb)"
proof -
  have P: "tg_edges (audit t fb) = filter (audit_keeps t fb) (tg_edges t)" "\<And>k e. ed_mandatory e \<Longrightarrow> audit_keeps t fb (k, e)"
    by (simp_all add: audit_def audit_keeps_def)
  have active: "a \<in> set (tg_active (audit t fb)) \<longleftrightarrow>
      a \<in> set (tg_active t) \<and> (\<exists>ke\<in>set (tg_edges (audit t fb)). a = ed_from (snd ke) \<or> a = ed_to (snd ke))" for a
    by (auto simp: audit_def Let_def)
  have "mandatory_ok (audit t fb) k" if k: "k \<in> M" for k
  proof -
    have old: "mandatory_ok t k" using t k by (simp add: constitution_def)
    then obtain e where e: "bt_get (tg_edges t) k = Some e" "ed_mandatory e" by (auto simp: mandatory_ok_def)
    have get: "bt_get (tg_edges (audit t fb)) k = Some e"
      unfolding P(1) using t e P(2) by (intro bt_get_filter) (simp_all add: constitution_def)
    have "edge_ok A t (k, e)" using t map_of_SomeD[OF e(1)] by (simp add: constitution_def)
    then have "fst k = ed_from e" "snd k = ed_to e" by (simp_all add: edge_ok_def)
    moreover have "(k, e) \<in> set (tg_edges (audit t fb))" using get by (rule map_of_SomeD)
    ultimately show ?thesis using old get e(2) unfolding mandatory_ok_def active by force
  qed
  moreover have "edge_ok A (audit t fb) ke" if "ke \<in> set (tg_edges (audit t fb))" for ke
  proof -
    have "tg_caps (audit t fb) = tg_caps t" by (simp add: audit_def Let_def)
    moreover have "ke \<in> set (tg_edges t)" using that by (simp add: P(1))
    then have "edge_ok A t ke" using t by (simp add: constitution_def)
    ultimately show ?thesis by (simp add: edge_ok_def cap_for_def)
  qed
  ultimately show ?thesis using t active P(1)
    by (auto simp: constitution_def bt_ok_filter) (simp_all add: audit_def Let_def sorted_wrt_filter)
qed

lemma mark_mandatory_constitution:
  assumes t: "constitution A caps M t" and e: "bt_get (tg_edges t) k = Some e"
    and "fst k \<in> set (tg_active t)" and "snd k \<in> set (tg_active t)"
  shows "constitution A caps (insert k M) (mark_mandatory t k)"
proof -
  have "edge_ok A t (k, e\<lparr> ed_mandatory := True \<rparr>)"
    using t map_of_SomeD[OF e] by (auto simp: constitution_def edge_ok_def)
  then have "constitution A caps M (put_edge t k (e\<lparr> ed_mandatory := True \<rparr>))"
    by (intro put_edge_constitution t) simp_all
  then show ?thesis using assms(3,4) e
    by (simp add: constitution_def mark_mandatory_def) (simp add: mandatory_ok_def put_edge_def)
qed

abbreviation base_caps :: "(agent_id \<times> agent_id, authority) btree" where
  "base_caps \<equiv> tg_caps (fully_connected env_agents LatentPrefix)"

lemma nine_one: "(9 :: u8) \<in> set env_agents" "(1 :: u8) \<in> set env_agents"
  by (simp_all add: env_agents_eq)

lemma base_constitution:
  assumes "se_mandatory_edges env = [(9, 1)]"
  shows "constitution (set env_agents) base_caps {(9, 1)} (base_topology env)"
    and "tg_active (base_topology env) = env_agents"
  unfolding base_topology_def assms
  using mark_mandatory_constitution[OF fully_connected_constitution[OF env_agents_sorted, of LatentPrefix], of "(9, 1)"]
    nine_one
  by (simp_all add: fully_connected_get mark_mandatory_def put_edge_def)

lemma warm_start_constitution:
  assumes t: "constitution A caps {(9, 1)} t" and env: "se_mandatory_edges env = [(9, 1)]"
  shows "constitution A caps {(9, 1)} (fst (warm_start env memory t))"
proof -
  have "constitution A caps {(9, 1)} (t\<lparr> tg_active := filter (\<lambda>a. a \<in> K \<or> a = 9 \<or> a = 1) (tg_active t) \<rparr>)" for K
    using t by (auto simp: constitution_def mandatory_ok_def edge_ok_def cap_for_def sorted_wrt_filter)
  then show ?thesis using t
    by (simp add: warm_start_def env Let_def split: option.split prod.split)
qed

lemma mutate_child_rejected: "mutate_child R agents n t r k = (t', r', k') \<Longrightarrow> k \<le> k' \<and> k' \<le> k + n"
proof (induction n arbitrary: t r k)
  case (Suc n)
  obtain m r1 where m: "random_mutation R agents t r = (m, r1)" by (cases "random_mutation R agents t r")
  then show ?case using Suc.prems Suc.IH[of t r1 "k + 1"] Suc.IH[of _ r1 k]
    by (cases "apply_mutation t m") fastforce+
qed simp

lemma breed_counts:
  "breed R env cfg best n s = Some (children, s') \<Longrightarrow>
    ss_proposed s' = ss_proposed s + n * dc_mutations_per_child cfg \<and> length children = n \<and>
    (ss_rejected s \<le> ss_proposed s \<longrightarrow> ss_rejected s' \<le> ss_proposed s')"
proof (induction n arbitrary: s children)
  case (Suc n)
  obtain child r k where m: "mutate_child R env_agents (dc_mutations_per_child cfg) best (ss_rng s) (ss_rejected s) = (child, r, k)"
    by (cases "mutate_child R env_agents (dc_mutations_per_child cfg) best (ss_rng s) (ss_rejected s)") auto
  obtain fb cache cs where e: "evaluate R child env (dc_weights cfg) (dc_seed cfg) (ss_cache s) = Some (fb, cache)"
    "breed R env cfg best n
      \<lparr> ss_rng = r, ss_cache = cache, ss_proposed = ss_proposed s + dc_mutations_per_child cfg, ss_rejected = k,
        ss_verifications = ss_verifications s + fb_verification_evaluations fb \<rparr> = Some (cs, s')"
    "children = (child, fb) # cs"
    using Suc.prems m by (auto simp: bind_eq_Some_conv)
  show ?case using Suc.IH[OF e(2)] mutate_child_rejected[OF m] e(3) by auto
qed simp

lemma generations_counts:
  "run_generations R env cfg n best s = Some (best', s') \<Longrightarrow>
    ss_proposed s' = ss_proposed s + n * (dc_population cfg * dc_mutations_per_child cfg) \<and>
    (ss_rejected s \<le> ss_proposed s \<longrightarrow> ss_rejected s' \<le> ss_proposed s')"
proof (induction n arbitrary: best s)
  case (Suc n)
  obtain children s1 where b: "breed R env cfg (fst best) (dc_population cfg) s = Some (children, s1)"
    "run_generations R env cfg n (select_best best children) s1 = Some (best', s')"
    using Suc.prems by (auto simp: bind_eq_Some_conv)
  show ?case using breed_counts[OF b(1)] Suc.IH[OF b(2)] by auto
qed simp

lemma evolve_ok:
  assumes R: "indices_in_range R" and env: "se_mandatory_edges env = [(9, 1)]"
  shows "\<exists>out. evolve R env cfg memory = Some out \<and>
    candidate_ok R env cfg base_caps {(9, 1)} (eo_best_topology out, eo_best out) \<and>
    no_worse (eo_initial out) (eo_best out) \<and>
    eo_mutations_proposed out = dc_generations cfg * (dc_population cfg * dc_mutations_per_child cfg) \<and>
    eo_mutations_rejected out \<le> eo_mutations_proposed out"
proof -
  let ?eval = "\<lambda>t. evaluate R t env (dc_weights cfg) (dc_seed cfg)"
  obtain base warm where w: "warm_start env memory (base_topology env) = (base, warm)" by fastforce
  have base: "constitution (set env_agents) base_caps {(9, 1)} base"
    using warm_start_constitution[OF base_constitution(1)[OF env] env, of memory] w by simp
  have empty: "cache_sound R env (dc_weights cfg) (dc_seed cfg) []" by (simp add: cache_sound_def)
  obtain initial cache where i: "?eval base [] = Some (initial, cache)"
    "plain_evaluate R base env (dc_weights cfg) (dc_seed cfg) = Some (cost_free initial)"
    "cache_sound R env (dc_weights cfg) (dc_seed cfg) cache" by (rule evaluate_total[OF base empty])
  let ?s = "\<lparr> ss_rng = seed_from_u64 (dr_std R) (dc_seed cfg), ss_cache = cache, ss_proposed = 0, ss_rejected = 0,
    ss_verifications = fb_verification_evaluations initial \<rparr>"
  have c0: "candidate_ok R env cfg base_caps {(9, 1)} (base, initial)" using base i(2) by (simp add: candidate_ok_def)
  obtain t fb s where g: "run_generations R env cfg (dc_generations cfg) (base, initial) ?s = Some ((t, fb), s)"
    "candidate_ok R env cfg base_caps {(9, 1)} (t, fb)" "no_worse initial fb" "search_sound R env cfg s"
    using run_generations_ok[OF R c0, of ?s "dc_generations cfg"] i(3) by auto
  have t: "constitution (set env_agents) base_caps {(9, 1)} t" using g(2) by (simp add: candidate_ok_def)
  obtain afb cache' where a: "?eval (audit t fb) (ss_cache s) = Some (afb, cache')"
    "plain_evaluate R (audit t fb) env (dc_weights cfg) (dc_seed cfg) = Some (cost_free afb)"
    by (rule evaluate_total[OF audit_constitution[OF t] g(4)])
  have "candidate_ok R env cfg base_caps {(9, 1)} (audit t fb, afb)"
    using audit_constitution[OF t] a(2) by (simp add: candidate_ok_def)
  moreover have "no_worse initial afb" if "fp_le (fb_fitness fb) (fb_fitness afb)"
    using g(3) that by (intro no_worse_trans[OF g(3)]) (simp add: no_worse_def)
  moreover note generations_counts[OF g(1)]
  ultimately show ?thesis using w i(1) g(1,2,3) a(1) by (simp add: evolve_def)
qed

lemma env_new_mandatory [simp]: "se_mandatory_edges (env_new R seed) = [(9, 1)]"
  by (simp add: env_new_def Let_def)

section \<open>What a run guarantees\<close>

text \<open>C26. A run always comes to its end: with a generator whose indices are in range no index of the code is out of
  range, the run returns an outcome after exactly the configured number of mutations, and no more of them were
  refused than proposed.\<close>

theorem evolve_returns:
  assumes "indices_in_range R"
  shows "\<exists>out. evolve R (env_new R seed) cfg memory = Some out \<and>
    eo_mutations_proposed out = dc_generations cfg * (dc_population cfg * dc_mutations_per_child cfg) \<and>
    eo_mutations_rejected out \<le> eo_mutations_proposed out"
  using evolve_ok[OF assms env_new_mandatory[of R seed], of cfg memory] by blast

definition first_rng :: "unit darwin_rng" where
  "first_rng = \<lparr> dr_std = \<lparr> seed_from_u64 = \<lambda>_. (), gen_coin = \<lambda>r. (True, r) \<rparr>, dr_float = \<lambda>lo hi r. (lo, r),
     dr_index = \<lambda>n r. (0, r), dr_u8 = \<lambda>n r. (0, r), dr_choose = \<lambda>n r. (0, r) \<rparr>"

lemma first_rng_in_range: "indices_in_range first_rng"
  by (simp add: indices_in_range_def first_rng_def)

theorem cache_changes_cost_only_witness:
  "\<exists>fb cache. evaluate first_rng (base_topology (env_new first_rng 7)) (env_new first_rng 7) fitness_weights_default 7 [] =
      Some (fb, cache) \<and>
    evaluate first_rng (base_topology (env_new first_rng 7)) (env_new first_rng 7) fitness_weights_default 7 cache =
      Some (cost_free fb, cache)"
proof -
  have empty: "cache_sound first_rng (env_new first_rng 7) fitness_weights_default 7 []" by (simp add: cache_sound_def)
  obtain fb cache where "evaluate first_rng (base_topology (env_new first_rng 7)) (env_new first_rng 7)
      fitness_weights_default 7 [] = Some (fb, cache)"
    by (rule evaluate_total[OF base_constitution(1)[OF env_new_mandatory] empty])
  then show ?thesis using cache_changes_cost_only[OF empty, of "base_topology (env_new first_rng 7)"] by blast
qed

theorem evolve_returns_witness:
  "\<exists>out. evolve first_rng (env_new first_rng 7) darwin_default None = Some out \<and>
    eo_mutations_proposed out = 1440 \<and> eo_mutations_rejected out \<le> 1440"
  using evolve_returns[OF first_rng_in_range, of 7 darwin_default None] by (auto simp: darwin_default_def)

text \<open>C25. Every surviving topology is well formed under the constitution, whatever the search proposed and whatever
  the fitness was: its edges stand under their own ends, between two distinct known agents, none with more authority
  than its cap; the caps are the ones the run started with; the active agents are known, distinct and in order; and the
  mandatory edge is still there, marked, between active agents.\<close>

theorem evolve_keeps_constitution:
  assumes "indices_in_range R"
  shows "\<exists>out. evolve R (env_new R seed) cfg memory = Some out \<and>
    constitution (set env_agents) (tg_caps (fully_connected env_agents LatentPrefix)) {(9, 1)} (eo_best_topology out)"
  using evolve_ok[OF assms env_new_mandatory[of R seed], of cfg memory] by (auto simp: candidate_ok_def)

theorem evolve_keeps_constitution_witness:
  "\<exists>out. evolve first_rng (env_new first_rng 7) darwin_default None = Some out \<and>
    constitution (set env_agents) (tg_caps (fully_connected env_agents LatentPrefix)) {(9, 1)} (eo_best_topology out)"
  by (rule evolve_keeps_constitution[OF first_rng_in_range])

text \<open>The fitness of the survivor is its own, and not below that of the start (or the start itself survives).\<close>

theorem evolve_never_worse:
  assumes "indices_in_range R"
  shows "\<exists>out. evolve R (env_new R seed) cfg memory = Some out \<and>
    plain_evaluate R (eo_best_topology out) (env_new R seed) (dc_weights cfg) (dc_seed cfg) = Some (cost_free (eo_best out)) \<and>
    no_worse (eo_initial out) (eo_best out)"
  using evolve_ok[OF assms env_new_mandatory[of R seed], of cfg memory] by (auto simp: candidate_ok_def)

lemma plain_sums_results:
  "es_results (plain_sums R env w seed es s) =
     es_results s @ map (\<lambda>e. (ed_from e, ed_to e, the (edge_result R env w seed (edge_key e)))) es"
  by (induction es arbitrary: s) (simp_all add: add_edge_result_def)

text \<open>An edge whose trial passes the test against the five controls.\<close>

definition edge_admitted :: "'r darwin_rng \<Rightarrow> synthetic_env \<Rightarrow> darwin_config \<Rightarrow> edge \<Rightarrow> bool" where
  "edge_admitted R env cfg e \<longleftrightarrow>
     (case env_edge_trial R env (ed_from e) (ed_to e) (fw_trials (dc_weights cfg)) of
        None \<Rightarrow> False
      | Some trial \<Rightarrow>
          case verify_edge (dr_std R) trial (fw_alpha (dc_weights cfg)) (fw_resamples (dc_weights cfg))
            (dc_seed cfg * 0x100 + edge_id (ed_from e) (ed_to e)) of
            Admit _ _ \<Rightarrow> True
          | Reject _ \<Rightarrow> False)"

lemma edge_admitted_result:
  "edge_result R env (dc_weights cfg) (dc_seed cfg) (edge_key e) = Some res \<Longrightarrow> snd res \<longleftrightarrow> edge_admitted R env cfg e"
proof (cases "env_edge_trial R env (ed_from e) (ed_to e) (fw_trials (dc_weights cfg))")
  case (Some trial)
  then show "edge_result R env (dc_weights cfg) (dc_seed cfg) (edge_key e) = Some res \<Longrightarrow> ?thesis"
    by (cases "verify_edge (dr_std R) trial (fw_alpha (dc_weights cfg)) (fw_resamples (dc_weights cfg))
      (dc_seed cfg * 0x100 + edge_id (ed_from e) (ed_to e))") (auto simp: edge_result_def edge_admitted_def edge_key_def)
qed (simp add: edge_result_def edge_key_def)

lemma same_ends_same_edge:
  assumes "constitution A caps M t" and "(k, e) \<in> set (tg_edges t)" and "(k', e') \<in> set (tg_edges t)"
    and "edge_key e = edge_key e'"
  shows "e = e'"
proof -
  have "k = edge_key e" "k' = edge_key e'" using assms(1-3) by (auto simp: constitution_def edge_ok_def edge_key_def)
  then have "k = k'" using assms(4) by simp
  moreover have "distinct (bt_keys (tg_edges t))" using assms(1) by (simp add: constitution_def bt_distinct)
  ultimately show ?thesis using assms(2,3) by (metis map_of_is_SomeI option.inject)
qed

lemma unverified_count:
  assumes c: "candidate_ok R env cfg caps M (t, fb)"
  shows "length (unverified_nonmandatory t fb) =
    length (filter (\<lambda>e. \<not> ed_mandatory e \<and> \<not> edge_admitted R env cfg e) (live_edges t))"
proof -
  let ?res = "\<lambda>e. edge_result R env (dc_weights cfg) (dc_seed cfg) (edge_key e)"
  have t: "constitution (set env_agents) caps M t"
    and p: "plain_evaluate R t env (dc_weights cfg) (dc_seed cfg) = Some (cost_free fb)"
    using c by (simp_all add: candidate_ok_def)
  have "map_option fb_edge_results (plain_evaluate R t env (dc_weights cfg) (dc_seed cfg)) = Some (fb_edge_results fb)"
    using p by simp
  then have results: "fb_edge_results fb = map (\<lambda>e. (ed_from e, ed_to e, the (?res e))) (live_edges t)"
    and some: "\<forall>e\<in>set (live_edges t). ?res e \<noteq> None"
    using plain_sums_results[of R env "dc_weights cfg" "dc_seed cfg" "live_edges t" edge_sums_zero]
    by (auto simp: plain_evaluate_def Let_def edge_sums_zero_def split: if_splits)
  have admitted: "snd (the (?res e)) \<longleftrightarrow> edge_admitted R env cfg e" if "e \<in> set (live_edges t)" for e
    using some that edge_admitted_result by fastforce
  have mandatory: "(ed_from e, ed_to e) \<in> (\<lambda>e. (ed_from e, ed_to e)) ` {e \<in> snd ` set (tg_edges t). ed_mandatory e} \<longleftrightarrow>
      ed_mandatory e" if e: "e \<in> set (live_edges t)" for e
  proof -
    obtain k where k: "(k, e) \<in> set (tg_edges t)" using live_edge_of[OF e] by blast
    have "e = e'" if "(k', e') \<in> set (tg_edges t)" "ed_from e = ed_from e'" "ed_to e = ed_to e'" for k' e'
      using same_ends_same_edge[OF t k that(1)] that(2,3) by (simp add: edge_key_def)
    then show ?thesis using k by (force simp: image_iff)
  qed
  show ?thesis unfolding unverified_nonmandatory_def results Let_def
    using admitted mandatory
    by (simp add: filter_map comp_def case_prod_unfold) (intro arg_cong[of _ _ length] filter_cong; auto)
qed

text \<open>The report counts what it claims: the unverified edges it counts are the live edges of the surviving topology
  that are not mandatory and fail the test against the five controls, so that the report that all edges are verified
  says that there is none.\<close>

theorem report_counts_unverified:
  assumes "indices_in_range R"
  shows "\<exists>out. evolve R (env_new R seed) cfg memory = Some out \<and>
    ar_unverified_nonmandatory_edges (acceptance_check out) =
      length (filter (\<lambda>e. \<not> ed_mandatory e \<and> \<not> edge_admitted R (env_new R seed) cfg e) (live_edges (eo_best_topology out))) \<and>
    ar_all_surviving_edges_verified (acceptance_check out) =
      (filter (\<lambda>e. \<not> ed_mandatory e \<and> \<not> edge_admitted R (env_new R seed) cfg e) (live_edges (eo_best_topology out)) = []) \<and>
    ar_passed (acceptance_check out) =
      (ar_compute_reduction_met (acceptance_check out) \<and> ar_task_success_maintained (acceptance_check out) \<and>
       ar_all_surviving_edges_verified (acceptance_check out))"
proof -
  obtain out where out: "evolve R (env_new R seed) cfg memory = Some out"
    "candidate_ok R (env_new R seed) cfg base_caps {(9, 1)} (eo_best_topology out, eo_best out)"
    using evolve_ok[OF assms env_new_mandatory[of R seed], of cfg memory] by blast
  show ?thesis using out(1) unverified_count[OF out(2)]
    by (intro exI[of _ out]) (simp add: acceptance_check_def Let_def)
qed

theorem report_counts_unverified_witness:
  "\<exists>out. evolve first_rng (env_new first_rng 7) darwin_default None = Some out \<and>
    ar_unverified_nonmandatory_edges (acceptance_check out) =
      length (filter (\<lambda>e. \<not> ed_mandatory e \<and> \<not> edge_admitted first_rng (env_new first_rng 7) darwin_default e)
        (live_edges (eo_best_topology out)))"
  using report_counts_unverified[OF first_rng_in_range, of 7 darwin_default None] by blast

section \<open>Memory between runs\<close>

lemma strip_prefix_append [simp]: "strip_prefix p (p @ bs) = Some bs"
  by (simp add: strip_prefix_def)

lemma agent_name_roundtrip [simp]: "agent_of_name (agent_name a) = Some a"
  using unat_u8_lt[of a] by (simp add: agent_of_name_def agent_name_def parse_unsigned_decimal del: unat_u8_lt)

lemma recall_stored:
  assumes "\<forall>t\<in>set (ms_topologies s). tp_family t = family \<longrightarrow> tp_successful_uses t \<le> tp_successful_uses new"
    and "tp_family new = family"
  shows "recall_topology (store_topology s new) family = Some new"
proof -
  let ?ts = "ms_topologies s @ [new]"
  have "best_topology family ?ts (length ?ts) (Some (length (ms_topologies s)))"
    using assms by (auto simp: best_topology_def nth_append less_Suc_eq)
  then have "most_used family ?ts = Some (length (ms_topologies s))"
    using best_topology_eq[OF _ most_used_best] by blast
  then show ?thesis by (simp add: recall_topology_def store_topology_def)
qed

text \<open>A run resumes where the last one ended: after an outcome is remembered in a store that holds no topology of
  the family with more than one use, the next run for the family starts warm, with exactly the agents that survived.\<close>

theorem warm_start_resumes:
  assumes "indices_in_range R"
    and "\<forall>t\<in>set (ms_topologies store). tp_family t = family \<longrightarrow> tp_successful_uses t \<le> 1"
  shows "\<exists>out. evolve R (env_new R seed) cfg memory = Some out \<and>
    warm_start (env_new R seed') (Some (remember_topology store family out, family)) (base_topology (env_new R seed')) =
      ((base_topology (env_new R seed'))\<lparr> tg_active := tg_active (eo_best_topology out) \<rparr>, True)"
proof -
  obtain out where out: "evolve R (env_new R seed) cfg memory = Some out"
    "candidate_ok R (env_new R seed) cfg base_caps {(9, 1)} (eo_best_topology out, eo_best out)"
    using evolve_ok[OF assms(1) env_new_mandatory[of R seed], of cfg memory] by blast
  let ?active = "tg_active (eo_best_topology out)" and ?base = "base_topology (env_new R seed')"
  have best: "sorted_wrt (<) ?active" "set ?active \<subseteq> set env_agents" "9 \<in> set ?active" "1 \<in> set ?active"
    using out(2) by (auto simp: candidate_ok_def constitution_def mandatory_ok_def)
  have "recall_topology (remember_topology store family out) family =
      Some \<lparr> tp_family = family, tp_agent_sequence = map agent_name ?active, tp_successful_uses = 1 \<rparr>"
    unfolding remember_topology_def using assms(2) by (intro recall_stored) simp_all
  moreover have "List.map_filter agent_of_name (map agent_name as) = as" for as
    by (induction as) (simp_all add: List.map_filter_simps)
  moreover have "filter (\<lambda>a. a \<in> set ?active \<or> a = 9 \<or> a = 1) (tg_active ?base) = ?active"
    using best env_agents_sorted base_constitution(2)[OF env_new_mandatory[of R seed']]
    by (intro strict_sorted_equal) (auto simp: sorted_wrt_filter)
  moreover have "?active \<noteq> []" using best(3) by auto
  ultimately have "warm_start (env_new R seed') (Some (remember_topology store family out, family)) ?base =
      (?base\<lparr> tg_active := ?active \<rparr>, True)"
    by (simp add: warm_start_def Let_def)
  then show ?thesis using out(1) by blast
qed

theorem warm_start_resumes_witness:
  "\<exists>out. evolve first_rng (env_new first_rng 7) darwin_default None = Some out \<and>
    warm_start (env_new first_rng 8) (Some (remember_topology (memory_new memory_default) (ascii ''coding'') out, ascii ''coding''))
      (base_topology (env_new first_rng 8)) =
      ((base_topology (env_new first_rng 8))\<lparr> tg_active := tg_active (eo_best_topology out) \<rparr>, True)"
  by (rule warm_start_resumes[OF first_rng_in_range]) (simp add: memory_new_def)

end
