(* ===== verification/Calendar.thy ===== *)
theory Calendar
  imports Decimal
begin

text \<open>
  \<open>latentmesh-cognitum-client/src/timestamp.rs\<close>: seconds since the Unix epoch as an ISO 8601 text,
  with the calendar conversion it rests on, and a calendar that counts days directly as its reference. All
  values stay far inside 64 bits (\<open>timestamp_in_range\<close>), so they are integers here.
\<close>

section \<open>The conversion\<close>

definition year_of_era :: "int \<Rightarrow> int" where
  "year_of_era doe = (doe - doe div 1460 + doe div 36524 - doe div 146096) div 365"

definition civil_from_days :: "int \<Rightarrow> int \<times> int \<times> int" where
  "civil_from_days days_since_epoch =
     (let z = days_since_epoch + 719468;
          era = z div 146097;
          doe = z mod 146097;
          yoe = year_of_era doe;
          year = yoe + era * 400;
          doy = doe - (365 * yoe + yoe div 4 - yoe div 100);
          mp = (5 * doy + 2) div 153;
          day = doy - (153 * mp + 2) div 5 + 1;
          month = (if mp < 10 then mp + 3 else mp - 9);
          year = (if month \<le> 2 then year + 1 else year)
      in (year, month, day))"

text \<open>\<open>{:04}\<close> of a signed number: the sign counts to the width and stands before the zeros.\<close>

definition padded_signed :: "nat \<Rightarrow> int \<Rightarrow> bytes" where
  "padded_signed w n = (if n < 0 then 45 # padded (w - 1) (nat (- n)) else padded w (nat n))"

definition unix_to_iso8601_utc :: "int \<Rightarrow> bytes" where
  "unix_to_iso8601_utc unix_secs =
     (let days = unix_secs div 86400;
          secs_of_day = unix_secs mod 86400;
          (year, month, day) = civil_from_days days;
          hour = secs_of_day div 3600;
          minute = (secs_of_day mod 3600) div 60;
          second = secs_of_day mod 60
      in padded_signed 4 year @ ascii ''-'' @ padded 2 (nat month) @ ascii ''-'' @ padded 2 (nat day) @ ascii ''T'' @
         padded 2 (nat hour) @ ascii '':'' @ padded 2 (nat minute) @ ascii '':'' @ padded 2 (nat second) @ ascii ''Z'')"

section \<open>The reference calendar\<close>

definition leap_year :: "int \<Rightarrow> bool" where
  "leap_year y \<longleftrightarrow> 4 dvd y \<and> (\<not> 100 dvd y \<or> 400 dvd y)"

definition month_length :: "int \<Rightarrow> int \<Rightarrow> int" where
  "month_length y m =
     (if m = 2 then (if leap_year y then 29 else 28) else if m = 4 \<or> m = 6 \<or> m = 9 \<or> m = 11 then 30 else 31)"

definition valid_date :: "int \<times> int \<times> int \<Rightarrow> bool" where
  "valid_date = (\<lambda>(y, m, d). 1 \<le> m \<and> m \<le> 12 \<and> 1 \<le> d \<and> d \<le> month_length y m)"

text \<open>The day on which a year begins, fixed by its value for 1970 and the length of every year.\<close>

definition new_year :: "int \<Rightarrow> int" where
  "new_year y = 365 * (y - 1970) + (y - 1) div 4 - (y - 1) div 100 + (y - 1) div 400 - 477"

lemma new_year_1970: "new_year 1970 = 0"
  by (simp add: new_year_def)

lemma div_Suc_int: "0 < k \<Longrightarrow> (d + 1) div k = d div k + (if k dvd d + 1 then 1 else 0)" for d k :: int
proof -
  assume k: "0 < k"
  have "(d + 1) div k = d div k + (d mod k + 1) div k"
    using div_mult_self3[of k "d div k" "d mod k + 1"] k by (simp add: algebra_simps)
  moreover have "k dvd d + 1 \<longleftrightarrow> k dvd d mod k + 1" by (metis dvd_mod_iff mod_add_left_eq dvd_eq_mod_eq_0)
  moreover have "0 \<le> d mod k" "d mod k < k" using k by simp_all
  then have "(d mod k + 1) div k = (if k dvd d mod k + 1 then 1 else 0)"
    by (cases "d mod k + 1 = k") (auto simp: zdvd_imp_le dest: zdvd_imp_le)
  ultimately show ?thesis by simp
qed

lemma new_year_next: "new_year (y + 1) = new_year y + (if leap_year y then 366 else 365)"
proof -
  define A B C where "A \<longleftrightarrow> 4 dvd y" and "B \<longleftrightarrow> 100 dvd y" and "C \<longleftrightarrow> 400 dvd y"
  note dvds = this
  have "100 dvd y" if "400 dvd y" by (rule dvd_trans[OF _ that]) simp
  moreover have "4 dvd y" if "100 dvd y" by (rule dvd_trans[OF _ that]) simp
  ultimately have nested: "C \<longrightarrow> B" "B \<longrightarrow> A" unfolding dvds by blast+
  have "y div k = (y - 1) div k + (if k dvd y then 1 else 0)" if "0 < k" for k
    using div_Suc_int[OF that, of "y - 1"] by simp
  from this[of 4] this[of 100] this[of 400]
  have steps: "y div 4 = (y - 1) div 4 + (if A then 1 else 0)" "y div 100 = (y - 1) div 100 + (if B then 1 else 0)"
    "y div 400 = (y - 1) div 400 + (if C then 1 else 0)" unfolding dvds by simp_all
  have total: "365 * (y + 1 - 1970) + (a + (if A then 1 else 0)) - (b + (if B then 1 else 0)) + (c + (if C then 1 else 0)) - 477 =
      365 * (y - 1970) + a - b + c - 477 + (if A \<and> (\<not> B \<or> C) then 366 else 365)" for a b c :: int
    using nested by (cases A; cases B; cases C) simp_all
  show ?thesis unfolding new_year_def leap_year_def add_diff_cancel_right' dvds[symmetric] steps by (rule total)
qed

definition day_number :: "int \<times> int \<times> int \<Rightarrow> int" where
  "day_number = (\<lambda>(y, m, d). new_year y + sum_list (map (month_length y) [1..m - 1]) + d - 1)"

section \<open>The years of an era\<close>

text \<open>The days of an era before its \<open>n\<close>-th year, which begins in March.\<close>

definition era_start :: "int \<Rightarrow> int" where
  "era_start n = 365 * n + n div 4 - n div 100 + n div 400"

definition year_numerator :: "int \<Rightarrow> int" where
  "year_numerator d = d - d div 1460 + d div 36524 - d div 146096"

lemma year_numerator_mono:
  assumes "0 \<le> a" and "a \<le> b"
  shows "year_numerator a \<le> year_numerator b"
proof -
  have step: "year_numerator d \<le> year_numerator (d + 1)" for d
  proof -
    have four: "(d + 1) div 1460 \<le> d div 1460 + 1" by (subst div_Suc_int) simp_all
    have "36524 dvd d + 1" if "146096 dvd d + 1" by (rule dvd_trans[OF _ that]) simp
    then have "(d + 1) div 146096 - d div 146096 \<le> (d + 1) div 36524 - d div 36524"
      by (cases "146096 dvd d + 1") (simp_all only: div_Suc_int[of 146096] div_Suc_int[of 36524], simp_all)
    then show ?thesis using four unfolding year_numerator_def by linarith
  qed
  have "year_numerator a \<le> year_numerator (a + int n)" for n
  proof (induction n)
    case (Suc n)
    have "a + int (Suc n) = (a + int n) + 1" by simp
    then show ?case using Suc step[of "a + int n"] by (simp only:)
  qed simp
  from this[of "nat (b - a)"] show ?thesis using assms by simp
qed

lemma year_table:
  "\<forall>n\<in>set [0..399]. 365 * n \<le> year_numerator (era_start n) \<and> year_numerator (era_start (n + 1) - 1) < 365 * (n + 1)"
  by code_simp

lemma year_of_era_eq:
  assumes "0 \<le> n" and "n < 400" and "era_start n \<le> doe" and "doe < era_start (n + 1)"
  shows "year_of_era doe = n"
proof -
  have n: "n \<in> set [0..399]" using assms(1,2) by simp
  have "0 \<le> era_start n" using assms(1) by (simp add: era_start_def)
  then have "365 * n \<le> year_numerator doe" "year_numerator doe < 365 * (n + 1)"
    using year_table n year_numerator_mono[of "era_start n" doe] year_numerator_mono[of doe "era_start (n + 1) - 1"] assms(3,4)
    by force+
  then show ?thesis unfolding year_of_era_def year_numerator_def[symmetric]
    by (intro int_div_pos_eq[of _ 365 n "year_numerator doe - 365 * n"]) simp_all
qed

lemma era_start_next: "era_start (n + 1) = era_start n + (if leap_year (n + 1) then 366 else 365)"
proof -
  have "new_year (n + 1 + 1) - new_year (n + 1) = era_start (n + 1) - era_start n"
    by (simp add: era_start_def new_year_def add.commute)
  then show ?thesis using new_year_next[of "n + 1"] by linarith
qed

lemma era_start_new_year: "new_year (y + 1) = era_start y - 719162"
  by (simp add: new_year_def era_start_def)

lemma era_start_era: "era_start (n + era * 400) = era_start n + 146097 * era"
proof -
  have "(n + era * 400) div 4 = n div 4 + era * 100" "(n + era * 400) div 100 = n div 100 + era * 4"
    using div_mult_self1[of 4 n "era * 100"] div_mult_self1[of 100 n "era * 4"] by (simp_all add: mult.assoc)
  then show ?thesis by (simp add: era_start_def)
qed

lemma leap_year_era: "leap_year (n + era * 400) = leap_year n"
  by (auto simp: leap_year_def dvd_add_left_iff)

lemma era_year_exists:
  "0 \<le> doe \<Longrightarrow> doe < era_start (int k) \<Longrightarrow> \<exists>n. 0 \<le> n \<and> n < int k \<and> era_start n \<le> doe \<and> doe < era_start (n + 1)"
proof (induction k)
  case (Suc k)
  show ?case
  proof (cases "doe < era_start (int k)")
    case True
    then show ?thesis using Suc by fastforce
  next
    case False
    then show ?thesis using Suc.prems by (intro exI[of _ "int k"]) (simp add: add.commute)
  qed
qed (simp add: era_start_def)

text \<open>The months of a year that begins in March.\<close>

definition march_month :: "int \<Rightarrow> int" where
  "march_month doy = (let mp = (5 * doy + 2) div 153 in if mp < 10 then mp + 3 else mp - 9)"

definition march_day :: "int \<Rightarrow> int" where
  "march_day doy = doy - (153 * ((5 * doy + 2) div 153) + 2) div 5 + 1"

definition days_before_month :: "bool \<Rightarrow> int \<Rightarrow> int" where
  "days_before_month leap m =
     (if m \<le> 2 then 31 * (m - 1) else (153 * (m - 3) + 2) div 5 + (if leap then 60 else 59))"

lemma days_before_month_eq:
  assumes "1 \<le> m" and "m \<le> 12"
  shows "sum_list (map (month_length y) [1..m - 1]) = days_before_month (leap_year y) m"
proof -
  have "m = 1 \<or> m = 2 \<or> m = 3 \<or> m = 4 \<or> m = 5 \<or> m = 6 \<or> m = 7 \<or> m = 8 \<or> m = 9 \<or> m = 10 \<or> m = 11 \<or> m = 12"
    using assms by presburger
  then show ?thesis by (elim disjE; simp add: upto_rec2 month_length_def days_before_month_def)
qed

lemma march_table:
  assumes "0 \<le> doy" and "doy \<le> 365"
  shows "1 \<le> march_month doy \<and> march_month doy \<le> 12 \<and> 1 \<le> march_day doy \<and>
     march_day doy \<le> month_length (if doy = 365 then 4 else 1) (march_month doy) \<and>
     doy = (if march_month doy \<le> 2 then days_before_month False (march_month doy) + 306
            else days_before_month False (march_month doy) - 59) + march_day doy - 1"
proof -
  define mp where "mp = (5 * doy + 2) div 153"
  have "5 * doy + 2 = 153 * mp + (5 * doy + 2) mod 153" by (simp add: mp_def)
  moreover have "0 \<le> (5 * doy + 2) mod 153" "(5 * doy + 2) mod 153 < 153" by simp_all
  ultimately have bounds: "153 * mp \<le> 5 * doy + 2" "5 * doy + 2 < 153 * mp + 153" by linarith+
  have "0 \<le> mp" "mp \<le> 11" using bounds assms by linarith+
  then have "mp = 0 \<or> mp = 1 \<or> mp = 2 \<or> mp = 3 \<or> mp = 4 \<or> mp = 5 \<or> mp = 6 \<or> mp = 7 \<or> mp = 8 \<or> mp = 9 \<or>
    mp = 10 \<or> mp = 11" by presburger
  moreover have "\<not> leap_year 1" "leap_year 4" by (simp_all add: leap_year_def)
  ultimately show ?thesis using bounds assms unfolding march_month_def march_day_def mp_def[symmetric] Let_def
    by (elim disjE; simp add: month_length_def days_before_month_def)
qed

text \<open>C40. The conversion agrees with the calendar: for every day, before or after the epoch, the date it gives exists,
  and counting the days of the years and months up to that date gives the day back.\<close>

theorem civil_from_days_correct:
  "valid_date (civil_from_days days) \<and> day_number (civil_from_days days) = days"
proof -
  define era where "era = (days + 719468) div 146097"
  define doe where "doe = (days + 719468) mod 146097"
  have doe: "0 \<le> doe" "doe < 146097" by (simp_all add: doe_def)
  have z: "days + 719468 = 146097 * era + doe" by (simp add: era_def doe_def)
  have "doe < era_start (int 400)" using doe(2) by (simp add: era_start_def)
  then obtain n where n: "0 \<le> n" "n < 400" "era_start n \<le> doe" "doe < era_start (n + 1)"
    using era_year_exists[OF doe(1)] by fastforce
  define doy where "doy = doe - era_start n"
  have start: "365 * n + n div 4 - n div 100 = era_start n" using n(1,2) by (simp add: era_start_def)
  let ?leap = "leap_year (n + 1)"
  have doy: "0 \<le> doy" "doy < (if ?leap then 366 else 365)" using n(3,4) era_start_next[of n] by (simp_all add: doy_def)
  then have "doy \<le> 365" by (simp split: if_splits)
  from march_table[OF doy(1) this] have m: "1 \<le> march_month doy" "march_month doy \<le> 12" "1 \<le> march_day doy"
    "march_day doy \<le> month_length (if doy = 365 then 4 else 1) (march_month doy)"
    "doy = (if march_month doy \<le> 2 then days_before_month False (march_month doy) + 306
            else days_before_month False (march_month doy) - 59) + march_day doy - 1" by blast+
  define Y where "Y = n + era * 400"
  have civil: "civil_from_days days = (if march_month doy \<le> 2 then Y + 1 else Y, march_month doy, march_day doy)"
    unfolding civil_from_days_def Let_def era_def[symmetric] doe_def[symmetric] year_of_era_eq[OF n] start doy_def[symmetric]
    by (simp add: march_month_def march_day_def Let_def Y_def)
  have leap: "leap_year (Y + 1) = ?leap" using leap_year_era[of "n + 1" era] by (simp add: Y_def algebra_simps)
  have march_leap: "\<not> leap_year 1" "leap_year 4" by (simp_all add: leap_year_def)
  have "march_day doy \<le> month_length (if march_month doy \<le> 2 then Y + 1 else Y) (march_month doy)"
    using m(4) doy(2) leap march_leap by (auto simp: month_length_def split: if_splits)
  moreover have "days = new_year (Y + 1) - 306 + doy"
    using z doy_def era_start_era[of n era] era_start_new_year[of Y] by (simp add: Y_def)
  then have "day_number (civil_from_days days) = days"
    unfolding civil day_number_def prod.case days_before_month_eq[OF m(1,2)]
    using m(5) new_year_next[of Y] by (auto simp: days_before_month_def split: if_splits)
  ultimately show ?thesis using m(1-3) by (simp add: civil valid_date_def)
qed

lemma civil_from_days_inject: "civil_from_days a = civil_from_days b \<Longrightarrow> a = b"
  by (metis civil_from_days_correct)

section \<open>The text\<close>

lemma parse_zeros: "parse_digits m 0 (replicate k 48 @ xs) = parse_digits m 0 xs"
  by (induction k) (simp_all add: is_digit_def)

lemma parse_padded: "n \<le> m \<Longrightarrow> parse_digits m 0 (padded w n) = Some n"
  by (simp add: padded_def parse_zeros parse_digits_decimal)

lemma padded_inject [simp]: "padded w a = padded w b \<longleftrightarrow> a = b"
proof
  assume eq: "padded w a = padded w b"
  have "Some a = parse_digits (max a b) 0 (padded w a)" by (rule parse_padded[symmetric]) simp
  also have "\<dots> = Some b" unfolding eq by (rule parse_padded) simp
  finally show "a = b" by simp
qed simp

lemma padded_digits: "b \<in> set (padded w n) \<Longrightarrow> is_digit b"
  by (auto simp: padded_def is_digit_def[of 48] dest: decimal_digits)

lemma padded_not_Nil [simp]: "padded w n \<noteq> []"
  by (simp add: padded_def)

lemma padded_signed_inject [simp]: "padded_signed w a = padded_signed w b \<longleftrightarrow> a = b"
proof -
  have hd: "hd (padded w n) \<noteq> 45" for w n
    using padded_digits[OF list.set_sel(1)[OF padded_not_Nil[of w n]]] by (auto simp: is_digit_def)
  have "45 # xs \<noteq> padded w n" for xs n using hd[of w n] by (metis list.sel(1))
  then show ?thesis by (auto simp: padded_signed_def) metis+
qed

lemma length_padded_2: "n < 100 \<Longrightarrow> length (padded 2 n) = 2"
proof -
  assume "n < 100"
  then have "n div 10 < 10" by simp
  then have "length (decimal n) = (if n < 10 then 1 else 2)"
    by (subst decimal.simps) (simp, subst decimal.simps, simp)
  then show ?thesis by (simp add: padded_def split: if_splits)
qed

definition iso_tail :: "int \<Rightarrow> int \<Rightarrow> int \<Rightarrow> bytes" where
  "iso_tail month day secs =
     ascii ''-'' @ padded 2 (nat month) @ ascii ''-'' @ padded 2 (nat day) @ ascii ''T'' @
     padded 2 (nat (secs div 3600)) @ ascii '':'' @ padded 2 (nat ((secs mod 3600) div 60)) @ ascii '':'' @
     padded 2 (nat (secs mod 60)) @ ascii ''Z''"

lemma unix_to_iso_parts:
  "civil_from_days (s div 86400) = (y, m, d) \<Longrightarrow>
    unix_to_iso8601_utc s = padded_signed 4 y @ iso_tail m d (s mod 86400)"
  by (simp add: unix_to_iso8601_utc_def iso_tail_def Let_def)

definition iso_tail_ok :: "int \<Rightarrow> int \<Rightarrow> int \<Rightarrow> bool" where
  "iso_tail_ok m d s \<longleftrightarrow> 1 \<le> m \<and> m \<le> 12 \<and> 1 \<le> d \<and> d \<le> 31 \<and> 0 \<le> s \<and> s < 86400"

lemma iso_tail_fields:
  assumes "iso_tail_ok m d s"
  shows "nat m < 100" "nat d < 100" "nat (s div 3600) < 100" "nat ((s mod 3600) div 60) < 100" "nat (s mod 60) < 100"
proof -
  have "s div 3600 < 24" "(s mod 3600) div 60 < 60" "s mod 60 < 60"
    using assms by (auto simp: iso_tail_ok_def int_div_less_self intro: div_int_pos_iff)
  moreover have "m \<le> 12" "d \<le> 31" using assms by (simp_all add: iso_tail_ok_def)
  ultimately show "nat m < 100" "nat d < 100" "nat (s div 3600) < 100" "nat ((s mod 3600) div 60) < 100" "nat (s mod 60) < 100"
    by linarith+
qed

lemma length_iso_tail: "iso_tail_ok m d s \<Longrightarrow> length (iso_tail m d s) = 16"
  by (simp add: iso_tail_def length_padded_2 iso_tail_fields)

lemma iso_tail_inject:
  assumes "iso_tail_ok m d s" and "iso_tail_ok m' d' s'" and "iso_tail m d s = iso_tail m' d' s'"
  shows "m = m' \<and> d = d' \<and> s = s'"
proof -
  note f = length_padded_2[OF iso_tail_fields(1)] length_padded_2[OF iso_tail_fields(2)] length_padded_2[OF iso_tail_fields(3)]
    length_padded_2[OF iso_tail_fields(4)] length_padded_2[OF iso_tail_fields(5)]
  have "nat m = nat m' \<and> nat d = nat d' \<and> nat (s div 3600) = nat (s' div 3600) \<and>
    nat ((s mod 3600) div 60) = nat ((s' mod 3600) div 60) \<and> nat (s mod 60) = nat (s' mod 60)"
    using assms(3) unfolding iso_tail_def
    by (simp only: append_eq_append_conv append_assoc f[OF assms(1)] f[OF assms(2)] length_append same_append_eq padded_inject simp_thms)
  moreover have "0 \<le> m" "0 \<le> m'" "0 \<le> d" "0 \<le> d'" "0 \<le> s div 3600" "0 \<le> s' div 3600"
    "0 \<le> (s mod 3600) div 60" "0 \<le> (s' mod 3600) div 60" "0 \<le> s mod 60" "0 \<le> s' mod 60"
    using assms(1,2) by (simp_all add: iso_tail_ok_def pos_imp_zdiv_nonneg_iff)
  ultimately have "m = m'" "d = d'" and parts: "s div 3600 = s' div 3600" "(s mod 3600) div 60 = (s' mod 3600) div 60" "s mod 60 = s' mod 60"
    by (simp_all only: eq_nat_nat_iff)
  have split: "x = 3600 * (x div 3600) + (60 * ((x mod 3600) div 60) + x mod 60)" for x :: int
  proof -
    have "x mod 3600 = 60 * ((x mod 3600) div 60) + (x mod 3600) mod 60" by simp
    moreover have "(x mod 3600) mod 60 = x mod 60" by (simp add: mod_mod_cancel)
    ultimately show ?thesis using mult_div_mod_eq[of 3600 x] by linarith
  qed
  have "s = 3600 * (s' div 3600) + (60 * ((s' mod 3600) div 60) + s' mod 60)" using split[of s] unfolding parts .
  also have "\<dots> = s'" by (rule split[symmetric])
  finally have "s = s'" .
  then show ?thesis using \<open>m = m'\<close> \<open>d = d'\<close> by simp
qed

text \<open>A timestamp determines its second: different seconds, before or after the epoch, have different texts.\<close>

theorem timestamp_inject: "unix_to_iso8601_utc a = unix_to_iso8601_utc b \<longleftrightarrow> a = b"
proof
  assume eq: "unix_to_iso8601_utc a = unix_to_iso8601_utc b"
  obtain y m d y' m' d' where c: "civil_from_days (a div 86400) = (y, m, d)" "civil_from_days (b div 86400) = (y', m', d')"
    using prod_cases3 by metis
  have ok: "iso_tail_ok m d (a mod 86400)" "iso_tail_ok m' d' (b mod 86400)"
    using civil_from_days_correct[of "a div 86400"] civil_from_days_correct[of "b div 86400"]
    by (auto simp: c valid_date_def iso_tail_ok_def month_length_def split: if_splits)
  have "padded_signed 4 y @ iso_tail m d (a mod 86400) = padded_signed 4 y' @ iso_tail m' d' (b mod 86400)"
    using eq c by (simp add: unix_to_iso_parts)
  then have "padded_signed 4 y = padded_signed 4 y'" and tail: "iso_tail m d (a mod 86400) = iso_tail m' d' (b mod 86400)"
    using length_iso_tail[OF ok(1)] length_iso_tail[OF ok(2)] by (simp_all add: append_eq_append_conv)
  then have "civil_from_days (a div 86400) = civil_from_days (b div 86400)" "a mod 86400 = b mod 86400"
    using iso_tail_inject[OF ok tail] c by simp_all
  then show "a = b" using civil_from_days_inject mult_div_mod_eq[of 86400 a] mult_div_mod_eq[of 86400 b] by metis
qed simp

text \<open>The bounds that let the 64-bit code be read over the integers: for every 64-bit second the shifted day
  and the year stay far below the limits.\<close>

lemma timestamp_in_range:
  assumes "- (2 ^ 63) \<le> s" and "s < 2 ^ 63"
  shows "\<bar>s div 86400 + 719468\<bar> < 2 ^ 62" and "\<bar>fst (civil_from_days (s div 86400))\<bar> < 2 ^ 62"
proof -
  define z where "z = s div 86400 + 719468"
  have "- (2 ^ 47) \<le> s div 86400" "s div 86400 < 2 ^ 47"
    using zdiv_mono1[OF assms(1), of 86400] zdiv_mono1[of s "2 ^ 63 - 1" 86400] assms(2) by simp_all
  then have z: "- (2 ^ 48) \<le> z" "z < 2 ^ 48" by (simp_all add: z_def)
  then show "\<bar>s div 86400 + 719468\<bar> < 2 ^ 62" unfolding z_def[symmetric] by simp
  have doe: "0 \<le> z mod 146097" "z mod 146097 \<le> 146096" by simp_all
  have "year_numerator 0 \<le> year_numerator (z mod 146097)" "year_numerator (z mod 146097) \<le> year_numerator 146096"
    using doe by (intro year_numerator_mono; simp)+
  then have "0 \<le> year_numerator (z mod 146097)" "year_numerator (z mod 146097) \<le> 146000"
    by (simp_all add: year_numerator_def)
  then have yoe: "0 \<le> year_of_era (z mod 146097)" "year_of_era (z mod 146097) \<le> 400"
    unfolding year_of_era_def year_numerator_def[symmetric] using zdiv_mono1[of "year_numerator (z mod 146097)" 146000 365]
    by (simp_all add: pos_imp_zdiv_nonneg_iff)
  have "- (2 ^ 48) \<le> z div 146097" "z div 146097 \<le> 2 ^ 48"
    using zdiv_mono1[OF z(1), of 146097] zdiv_mono1[of z "2 ^ 48" 146097] z(2) by simp_all
  moreover define Y where "Y = year_of_era (z mod 146097) + z div 146097 * 400"
  moreover have "- (2 ^ 57) \<le> y + e * 400" "y + e * 400 \<le> 2 ^ 58"
    if "0 \<le> y" "y \<le> 400" "- (2 ^ 48) \<le> e" "e \<le> 2 ^ 48" for y e :: int using that by simp_all
  ultimately have Y: "- (2 ^ 57) \<le> Y" "Y \<le> 2 ^ 58" using yoe by blast+
  have "fst (civil_from_days (s div 86400)) = Y \<or> fst (civil_from_days (s div 86400)) = Y + 1"
    unfolding civil_from_days_def Let_def z_def[symmetric] Y_def[symmetric] fst_conv by (split if_split) blast
  then show "\<bar>fst (civil_from_days (s div 86400))\<bar> < 2 ^ 62" using Y by (elim disjE) simp_all
qed

end
