(* ===== verification/Cognitum.thy ===== *)
theory Cognitum
  imports Calendar
begin

text \<open>
  \<open>latentmesh-cognitum-client\<close>: the clock-skew rule of \<open>clock.rs\<close>, the signed requests of \<open>signing.rs\<close>,
  the request types of \<open>types.rs\<close> and the client of \<open>http.rs\<close>. Ed25519, SHA-256, base64, the JSON encoder and the HTTP
  agent are parameters; a \<open>String\<close> is its UTF-8 bytes.
\<close>

section \<open>The clock\<close>

abbreviation MAX_CLOCK_SKEW_SECS :: int where "MAX_CLOCK_SKEW_SECS \<equiv> 300"

text \<open>In a release build the subtraction and \<open>abs\<close> wrap; a build that checks overflow panics where they do.\<close>

definition i64_abs :: "i64 \<Rightarrow> i64" where
  "i64_abs a = (if sint a < 0 then - a else a)"

definition is_within_clock_skew :: "i64 \<Rightarrow> i64 \<Rightarrow> bool" where
  "is_within_clock_skew server_now request_timestamp \<longleftrightarrow>
     sint (i64_abs (server_now - request_timestamp)) \<le> MAX_CLOCK_SKEW_SECS"

section \<open>Hexadecimal\<close>

definition hex_digit_byte :: "nat \<Rightarrow> u8" where
  "hex_digit_byte n = word_of_nat (if n < 10 then 48 + n else 87 + n)"

definition hex_of_byte :: "u8 \<Rightarrow> bytes" where
  "hex_of_byte b = [hex_digit_byte (unat b div 16), hex_digit_byte (unat b mod 16)]"

definition hex_bytes :: "bytes \<Rightarrow> bytes" where
  "hex_bytes bs = concat (map hex_of_byte bs)"

section \<open>Signed requests\<close>

text \<open>Ed25519 as the crate \<open>ed25519-dalek\<close> provides it, SHA-256 and standard base64.\<close>

record crypto =
  ed_public :: "bytes \<Rightarrow> bytes"
  ed_sign :: "bytes \<Rightarrow> bytes \<Rightarrow> bytes"
  ed_verify :: "bytes \<Rightarrow> bytes \<Rightarrow> bytes \<Rightarrow> bool"
  cr_sha256 :: "bytes \<Rightarrow> bytes"
  base64_encode :: "bytes \<Rightarrow> bytes"
  base64_decode :: "bytes \<Rightarrow> bytes option"

text \<open>What their documentation promises: a signature verifies under the public key of its signer over the bytes that
  were signed, and decoding undoes encoding.\<close>

definition crypto_ok :: "crypto \<Rightarrow> bool" where
  "crypto_ok K \<longleftrightarrow>
     (\<forall>seed msg. ed_verify K (ed_public K seed) msg (ed_sign K seed msg)) \<and>
     (\<forall>bs. base64_decode K (base64_encode K bs) = Some bs)"

definition upper_byte :: "u8 \<Rightarrow> u8" where
  "upper_byte b = (if 97 \<le> b \<and> b \<le> 122 then b - 32 else b)"

definition to_ascii_uppercase :: "bytes \<Rightarrow> bytes" where
  "to_ascii_uppercase bs = map upper_byte bs"

definition hex_sha256 :: "crypto \<Rightarrow> bytes \<Rightarrow> bytes" where
  "hex_sha256 K data = hex_bytes (cr_sha256 K data)"

abbreviation newline :: u8 where "newline \<equiv> 10"

definition canonical_string :: "crypto \<Rightarrow> bytes \<Rightarrow> bytes \<Rightarrow> bytes \<Rightarrow> bytes \<Rightarrow> bytes" where
  "canonical_string K method path timestamp body =
     to_ascii_uppercase method @ [newline] @ path @ [newline] @ timestamp @ [newline] @ hex_sha256 K body"

record signed_request =
  sr_method :: bytes
  sr_path :: bytes
  sr_headers :: "(bytes \<times> bytes) list"
  sr_body :: bytes

record device_identity =
  di_device_id :: bytes
  di_signing_key :: bytes

definition public_key_base64 :: "crypto \<Rightarrow> device_identity \<Rightarrow> bytes" where
  "public_key_base64 K d = base64_encode K (ed_public K (di_signing_key d))"

definition content_type_json :: "bytes \<times> bytes" where
  "content_type_json = (ascii ''Content-Type'', ascii ''application/json'')"

definition sign_request :: "crypto \<Rightarrow> device_identity \<Rightarrow> i64 \<Rightarrow> bytes \<Rightarrow> bytes \<Rightarrow> bytes \<Rightarrow> signed_request" where
  "sign_request K d now method path body =
     (let timestamp = unix_to_iso8601_utc (sint now);
          canonical = canonical_string K method path timestamp body;
          signature = ed_sign K (di_signing_key d) canonical;
          headers = [(ascii ''X-Device-Id'', di_device_id d), (ascii ''X-Device-Timestamp'', timestamp),
            (ascii ''X-Device-Signature'', base64_encode K signature)] @ (if body \<noteq> [] then [content_type_json] else [])
      in \<lparr> sr_method = to_ascii_uppercase method, sr_path = path, sr_headers = headers, sr_body = body \<rparr>)"

section \<open>The HTTP client\<close>

record register_request =
  rq_device_id :: bytes
  rq_public_key :: bytes
  rq_firmware :: "bytes option"

record heartbeat_request =
  hb_uptime_secs :: "i64 option"
  hb_free_memory_kb :: "i64 option"
  hb_total_vectors :: "i64 option"
  hb_epoch :: "i64 option"
  hb_wifi_ip :: "bytes option"
  hb_version :: "bytes option"

datatype transport_error = HttpError bytes | StatusError u16 bytes | JsonError

text \<open>The agent of the crate \<open>ureq\<close>: it answers a request with a status and a body, reports a status of 400 or more as an
  error with its body, or fails. \<open>from_utf8_lossy\<close> and the JSON encoder are parameters too; the JSON of the responses is
  a type of its own.\<close>

datatype agent_result = AgentOk u16 bytes | AgentStatus u16 bytes | AgentTransport bytes

record 'j http_parts =
  ht_agent :: "bytes \<Rightarrow> bytes \<Rightarrow> (bytes \<times> bytes) list \<Rightarrow> bytes \<Rightarrow> agent_result"
  ht_lossy :: "bytes \<Rightarrow> bytes"
  ht_register_json :: "register_request \<Rightarrow> bytes option"
  ht_heartbeat_json :: "heartbeat_request \<Rightarrow> bytes option"
  ht_parse :: "bytes \<Rightarrow> 'j option"

definition trim_end_slash :: "bytes \<Rightarrow> bytes" where
  "trim_end_slash url = rev (dropWhile (\<lambda>b. b = 47) (rev url))"

definition full_url :: "bytes \<Rightarrow> bytes \<Rightarrow> bytes" where
  "full_url base_url path = trim_end_slash base_url @ path"

definition http_send :: "'j http_parts \<Rightarrow> bytes \<Rightarrow> signed_request \<Rightarrow> transport_error + (u16 \<times> bytes)" where
  "http_send H base_url r =
     (case ht_agent H (sr_method r) (full_url base_url (sr_path r)) (sr_headers r) (sr_body r) of
        AgentOk status body \<Rightarrow> Inr (status, body)
      | AgentStatus status body \<Rightarrow> Inl (StatusError status (ht_lossy H body))
      | AgentTransport msg \<Rightarrow> Inl (HttpError msg))"

definition expect_2xx :: "'j http_parts \<Rightarrow> u16 \<times> bytes \<Rightarrow> transport_error + bytes" where
  "expect_2xx H answer =
     (if 200 \<le> fst answer \<and> fst answer < 300 then Inr (snd answer)
      else Inl (StatusError (fst answer) (ht_lossy H (snd answer))))"

definition of_json :: "'a option \<Rightarrow> transport_error + 'a" where
  "of_json r = (case r of None \<Rightarrow> Inl JsonError | Some v \<Rightarrow> Inr v)"

definition SEED_REGISTER_PATH :: bytes where "SEED_REGISTER_PATH = ascii ''/v1/seed/register''"
definition SEED_HEARTBEAT_PATH :: bytes where "SEED_HEARTBEAT_PATH = ascii ''/v1/seed/heartbeat''"

definition http_register :: "'j http_parts \<Rightarrow> bytes \<Rightarrow> register_request \<Rightarrow> transport_error + 'j" where
  "http_register H base_url r =
     rbind (of_json (ht_register_json H r)) (\<lambda>body.
     rbind (http_send H base_url
         \<lparr> sr_method = ascii ''POST'', sr_path = SEED_REGISTER_PATH, sr_headers = [content_type_json], sr_body = body \<rparr>)
       (\<lambda>answer. rbind (expect_2xx H answer) (\<lambda>body. of_json (ht_parse H body))))"

definition http_heartbeat ::
  "crypto \<Rightarrow> 'j http_parts \<Rightarrow> bytes \<Rightarrow> device_identity \<Rightarrow> i64 \<Rightarrow> heartbeat_request \<Rightarrow> transport_error + 'j" where
  "http_heartbeat K H base_url d now r =
     rbind (of_json (ht_heartbeat_json H r)) (\<lambda>body.
     rbind (http_send H base_url (sign_request K d now (ascii ''POST'') SEED_HEARTBEAT_PATH body))
       (\<lambda>answer. rbind (expect_2xx H answer) (\<lambda>body. of_json (ht_parse H body))))"

section \<open>The skew rule\<close>

lemma sint_sub_exact:
  assumes "\<bar>sint a - sint b\<bar> < 2 ^ 63"
  shows "sint (a - b :: i64) = sint a - sint b"
  using assms unfolding sint_word_diff by (intro signed_take_bit_int_eq_self) simp_all

text \<open>Within the range of the subtraction the rule is the documented one; beyond it the difference wraps, and the two
  ends of the range count as one second apart.\<close>

theorem skew_rule:
  assumes "\<bar>sint s - sint r\<bar> < 2 ^ 63"
  shows "is_within_clock_skew s r \<longleftrightarrow> \<bar>sint s - sint r\<bar> \<le> 300"
proof -
  have "sint (s - r) \<noteq> - (2 ^ 63)" using assms sint_sub_exact[OF assms] by linarith
  then have "sint (- (s - r)) = - sint (s - r)"
    unfolding sint_word_minus using assms sint_sub_exact[OF assms] by (intro signed_take_bit_int_eq_self) simp_all
  then show ?thesis using sint_sub_exact[OF assms] by (auto simp: is_within_clock_skew_def i64_abs_def)
qed

theorem skew_wraps: "is_within_clock_skew 0x7fffffffffffffff 0x8000000000000000"
  by code_simp

section \<open>What a signature covers\<close>

text \<open>Texts without the separator, joined by it, determine their parts.\<close>

lemma split_at:
  assumes "xs @ s # r = ys @ s # r'" and "s \<notin> set xs" and "s \<notin> set ys"
  shows "xs = ys \<and> r = r'"
  using assms
proof (induction xs arbitrary: ys)
  case Nil
  then show ?case by (cases ys) auto
next
  case (Cons x xs)
  then show ?case by (cases ys) auto
qed

lemma iso_no_newline: "newline \<notin> set (unix_to_iso8601_utc s)"
proof -
  have digits: "10 \<notin> set (padded w n)" for w n using padded_digits by (fastforce simp: is_digit_def)
  have "10 \<notin> set (padded_signed w n)" for w n using digits by (simp add: padded_signed_def)
  then show ?thesis using digits by (auto simp: unix_to_iso8601_utc_def Let_def ascii_def split: prod.splits)
qed

lemma upper_byte_idem [simp]: "upper_byte (upper_byte b) = upper_byte b"
proof -
  have "\<not> (97 \<le> b - 32 \<and> b - 32 \<le> 122)" if "97 \<le> b" "b \<le> 122"
  proof -
    have "unat b - 32 < 97" using that(2) by (simp add: word_le_nat_alt)
    moreover have "unat (b - 32) = unat b - 32" using that(1) by (subst unat_sub) (simp_all add: word_le_nat_alt)
    ultimately show ?thesis by (simp add: word_le_nat_alt)
  qed
  then show ?thesis by (auto simp: upper_byte_def)
qed

lemma to_ascii_uppercase_idem [simp]: "to_ascii_uppercase (to_ascii_uppercase m) = to_ascii_uppercase m"
  by (simp add: to_ascii_uppercase_def)

lemma canonical_upper [simp]: "canonical_string K (to_ascii_uppercase m) = canonical_string K m"
  by (simp add: canonical_string_def fun_eq_iff)

text \<open>What the server does with a request: it rebuilds the canonical string of what it received and verifies the signature
  of the header over it.\<close>

definition request_verifies :: "crypto \<Rightarrow> bytes \<Rightarrow> signed_request \<Rightarrow> bool" where
  "request_verifies K public_key r =
     (case (map_of (sr_headers r) (ascii ''X-Device-Timestamp''), map_of (sr_headers r) (ascii ''X-Device-Signature'')) of
        (Some timestamp, Some signature) \<Rightarrow>
          (case (base64_decode K public_key, base64_decode K signature) of
             (Some key, Some sig) \<Rightarrow>
               ed_verify K key (canonical_string K (sr_method r) (sr_path r) timestamp (sr_body r)) sig
           | _ \<Rightarrow> False)
      | _ \<Rightarrow> False)"

lemma header_names:
  "ascii ''X-Device-Id'' \<noteq> ascii ''X-Device-Timestamp''" "ascii ''X-Device-Id'' \<noteq> ascii ''X-Device-Signature''"
  "ascii ''X-Device-Timestamp'' \<noteq> ascii ''X-Device-Signature''"
  by (simp_all add: ascii_def)

lemma canonical_string_inject:
  assumes "newline \<notin> set m" and "newline \<notin> set m'" and "newline \<notin> set p" and "newline \<notin> set p'"
    and "canonical_string K m p (unix_to_iso8601_utc t) b = canonical_string K m' p' (unix_to_iso8601_utc t') b'"
  shows "to_ascii_uppercase m = to_ascii_uppercase m' \<and> p = p' \<and> t = t' \<and> hex_sha256 K b = hex_sha256 K b'"
proof -
  have "b = newline" if "upper_byte b = newline" for b
    using that unat_sub[of 32 b] by (auto simp: upper_byte_def word_le_nat_alt word_unat_eq_iff split: if_splits)
  then have upper: "newline \<notin> set (to_ascii_uppercase m)" if "newline \<notin> set m" for m
    using that unfolding to_ascii_uppercase_def set_map by force
  note eq = assms(5)[unfolded canonical_string_def append_Cons append_Nil]
  from split_at[OF eq upper[OF assms(1)] upper[OF assms(2)]]
  have m: "to_ascii_uppercase m = to_ascii_uppercase m'"
    and eq: "p @ newline # unix_to_iso8601_utc t @ newline # hex_sha256 K b =
      p' @ newline # unix_to_iso8601_utc t' @ newline # hex_sha256 K b'" by simp_all
  from split_at[OF eq assms(3,4)] have p: "p = p'"
    and eq: "unix_to_iso8601_utc t @ newline # hex_sha256 K b = unix_to_iso8601_utc t' @ newline # hex_sha256 K b'" by simp_all
  from split_at[OF eq iso_no_newline iso_no_newline] m p show ?thesis by (simp add: timestamp_inject)
qed

text \<open>C28. A signed request is accepted and its signature covers it: when Ed25519 and base64 keep their promises, the
  server that rebuilds the canonical string of the request it receives accepts the signature under the public key of
  the device; and two requests with the same signed bytes, of methods and paths without a line break, agree in the method, the
  path, the second of the timestamp and the hash of the body.\<close>

theorem signature_covers_request:
  assumes "crypto_ok K"
    and "newline \<notin> set method" and "newline \<notin> set method'" and "newline \<notin> set path" and "newline \<notin> set path'"
  shows "request_verifies K (public_key_base64 K d) (sign_request K d now method path body) \<and>
    (canonical_string K method path (unix_to_iso8601_utc (sint now)) body =
       canonical_string K method' path' (unix_to_iso8601_utc (sint now')) body' \<longleftrightarrow>
     to_ascii_uppercase method = to_ascii_uppercase method' \<and> path = path' \<and> now = now' \<and>
       hex_sha256 K body = hex_sha256 K body')"
proof
  have "base64_decode K (base64_encode K bs) = Some bs" "ed_verify K (ed_public K seed) msg (ed_sign K seed msg)" for bs seed msg
    using assms(1) by (simp_all add: crypto_ok_def)
  then show "request_verifies K (public_key_base64 K d) (sign_request K d now method path body)"
    using header_names header_names[symmetric]
    by (simp add: request_verifies_def sign_request_def public_key_base64_def Let_def)
  show "canonical_string K method path (unix_to_iso8601_utc (sint now)) body =
       canonical_string K method' path' (unix_to_iso8601_utc (sint now')) body' \<longleftrightarrow>
     to_ascii_uppercase method = to_ascii_uppercase method' \<and> path = path' \<and> now = now' \<and>
       hex_sha256 K body = hex_sha256 K body'"
    using canonical_string_inject[OF assms(2-5), of K "sint now" body "sint now'" body']
    by (auto simp: canonical_string_def intro: signed_word_eqI)
qed

text \<open>A scheme for the witness: a signature is the message itself.\<close>

definition echo_crypto :: crypto where
  "echo_crypto = \<lparr> ed_public = \<lambda>seed. seed, ed_sign = \<lambda>seed msg. seed @ msg, ed_verify = \<lambda>key msg sig. sig = key @ msg,
     cr_sha256 = \<lambda>bs. bs, base64_encode = \<lambda>bs. bs, base64_decode = Some \<rparr>"

lemma echo_crypto_ok: "crypto_ok echo_crypto"
  by (simp add: crypto_ok_def echo_crypto_def)

theorem signature_covers_request_witness:
  "request_verifies echo_crypto [7] (sign_request echo_crypto \<lparr> di_device_id = [1], di_signing_key = [7] \<rparr> 5 [80] [47] [1, 2]) \<and>
    canonical_string echo_crypto [80] [47] (unix_to_iso8601_utc 5) [1, 2] \<noteq>
      canonical_string echo_crypto [80] [47] (unix_to_iso8601_utc 6) [1, 2]"
  using signature_covers_request[OF echo_crypto_ok, of "[80]" "[80]" "[47]" "[47]"
      "\<lparr> di_device_id = [1], di_signing_key = [7] \<rparr>" 5 "[1, 2]" 6 "[1, 2]"]
  by (simp add: public_key_base64_def echo_crypto_def)

text \<open>A heartbeat reports success only on a status of the two hundreds, whatever the agent lets through.\<close>

lemma heartbeat_needs_2xx:
  assumes "http_heartbeat K H url d now r = Inr j"
  shows "\<exists>body status answer. ht_heartbeat_json H r = Some body \<and>
    ht_agent H (ascii ''POST'') (full_url url SEED_HEARTBEAT_PATH)
      (sr_headers (sign_request K d now (ascii ''POST'') SEED_HEARTBEAT_PATH body)) body = AgentOk status answer \<and>
    200 \<le> status \<and> status < 300 \<and> ht_parse H answer = Some j"
proof -
  have "to_ascii_uppercase (ascii ''POST'') = ascii ''POST''" by (simp add: to_ascii_uppercase_def ascii_def upper_byte_def)
  then show ?thesis using assms
    by (auto simp: http_heartbeat_def http_send_def expect_2xx_def of_json_def sign_request_def Let_def
        split: option.splits agent_result.splits if_splits)
qed

end
