(* ===== verification/Bbs_Wire.thy ===== *)
theory Bbs_Wire
  imports Cognitum
begin

text \<open>
  \<open>latentmesh-agentbbs-bridge/src/wire.rs\<close>, \<open>wire/identity.rs\<close> and \<open>transport.rs\<close>: the agentbbs federation wire,
  with its signed messages and envelopes, and the publisher. Ed25519, BLAKE3, the crate \<open>hex\<close>, the JSON of \<open>serde_json\<close>
  and the RFC 3339 text of a \<open>DateTime\<close> are parameters; \<open>'t\<close> is the type of the instants.
\<close>

section \<open>The external crates\<close>

record 't bbs =
  bb_public :: "bytes \<Rightarrow> bytes"
  bb_key_ok :: "bytes \<Rightarrow> bool"
  bb_sign :: "bytes \<Rightarrow> bytes \<Rightarrow> bytes"
  bb_verify :: "bytes \<Rightarrow> bytes \<Rightarrow> bytes \<Rightarrow> bool"
  bb_blake3 :: "bytes \<Rightarrow> bytes"
  bb_hex :: "bytes \<Rightarrow> bytes"
  bb_unhex :: "bytes \<Rightarrow> bytes option"
  bb_rfc3339 :: "'t \<Rightarrow> bytes"

text \<open>What their documentation promises. A signature verifies under the key of its signer; hexadecimal and RFC 3339
  texts have no line break and determine what they show.\<close>

definition bbs_ok :: "'t bbs \<Rightarrow> bool" where
  "bbs_ok B \<longleftrightarrow>
     (\<forall>seed msg. bb_key_ok B (bb_public B seed) \<and> bb_verify B (bb_public B seed) msg (bb_sign B seed msg)) \<and>
     (\<forall>bs. newline \<notin> set (bb_hex B bs)) \<and> (\<forall>bs bs'. bb_hex B bs = bb_hex B bs' \<longrightarrow> bs = bs') \<and>
     (\<forall>t. newline \<notin> set (bb_rfc3339 B t)) \<and> (\<forall>t t'. bb_rfc3339 B t = bb_rfc3339 B t' \<longrightarrow> t = t')"

section \<open>Identities\<close>

datatype wire_error = WireMalformed string | BadSignature | WireJson

type_synonym bbs_agent_id = bytes
type_synonym signature_bytes = bytes

definition agent_id_from_bytes :: "'t bbs \<Rightarrow> bytes \<Rightarrow> wire_error + bbs_agent_id" where
  "agent_id_from_bytes B bs = (if bb_key_ok B bs then Inr bs else Inl (WireMalformed ''agent id''))"

definition agent_id_from_hex :: "'t bbs \<Rightarrow> bytes \<Rightarrow> wire_error + bbs_agent_id" where
  "agent_id_from_hex B s =
     (case bb_unhex B (trim s) of
        None \<Rightarrow> Inl (WireMalformed ''agent id hex'')
      | Some raw \<Rightarrow> if length raw \<noteq> 32 then Inl (WireMalformed ''agent id'') else agent_id_from_bytes B raw)"

definition signature_from_hex :: "'t bbs \<Rightarrow> bytes \<Rightarrow> wire_error + signature_bytes" where
  "signature_from_hex B s =
     (case bb_unhex B (trim s) of
        None \<Rightarrow> Inl (WireMalformed ''signature hex'')
      | Some raw \<Rightarrow> if length raw \<noteq> 64 then Inl (WireMalformed ''signature'') else Inr raw)"

definition agent_verify :: "'t bbs \<Rightarrow> bbs_agent_id \<Rightarrow> bytes \<Rightarrow> signature_bytes \<Rightarrow> wire_error + unit" where
  "agent_verify B a msg sig =
     (if \<not> bb_key_ok B a then Inl (WireMalformed ''agent id'')
      else if bb_verify B a msg sig then Inr () else Inl BadSignature)"

record identity =
  id_signing :: bytes
  id_id :: bbs_agent_id

definition identity_from_seed :: "'t bbs \<Rightarrow> bytes \<Rightarrow> identity" where
  "identity_from_seed B seed = \<lparr> id_signing = seed, id_id = bb_public B seed \<rparr>"

definition identity_sign :: "'t bbs \<Rightarrow> identity \<Rightarrow> bytes \<Rightarrow> signature_bytes" where
  "identity_sign B i msg = bb_sign B (id_signing i) msg"

section \<open>Messages\<close>

datatype message_kind = Post | Milestone | Step

fun kind_discriminant :: "message_kind \<Rightarrow> bytes" where
  "kind_discriminant Post = ascii ''post''"
| "kind_discriminant Milestone = ascii ''milestone''"
| "kind_discriminant Step = ascii ''step''"

record 't bbs_board =
  bo_slug :: bytes
  bo_title :: bytes
  bo_description :: bytes
  bo_locked :: bool
  bo_founder :: bbs_agent_id
  bo_created_at :: 't
  bo_federated :: bool

record 't message_body =
  mb_board :: bytes
  mb_parent :: "bytes option"
  mb_subject :: bytes
  mb_body :: bytes
  mb_author :: bbs_agent_id
  mb_handle :: bytes
  mb_created_at :: 't
  mb_kind :: message_kind

definition length_prefixed :: "bytes \<Rightarrow> bytes" where
  "length_prefixed bs = decimal (length bs) @ ascii '':'' @ bs"

definition parent_text :: "bytes option \<Rightarrow> bytes" where
  "parent_text p = (case p of None \<Rightarrow> ascii ''-'' | Some i \<Rightarrow> i)"

definition message_signing_bytes :: "'t bbs \<Rightarrow> 't message_body \<Rightarrow> bytes" where
  "message_signing_bytes B m =
     (let is_v2 = mb_kind m \<noteq> Post in
      (if is_v2 then ascii ''agentbbs.msg.v2'' else ascii ''agentbbs.msg.v1'') @ [newline] @
      mb_board m @ [newline] @
      parent_text (mb_parent m) @ [newline] @
      (if is_v2 then kind_discriminant (mb_kind m) @ [newline] else []) @
      mb_subject m @ [newline] @
      bb_hex B (mb_author m) @ [newline] @
      mb_handle m @ [newline] @
      bb_rfc3339 B (mb_created_at m) @ [newline] @
      length_prefixed (mb_body m))"

definition message_id :: "'t bbs \<Rightarrow> 't message_body \<Rightarrow> bytes" where
  "message_id B m = bb_hex B (bb_blake3 B (message_signing_bytes B m))"

record 't message =
  me_id :: bytes
  me_body :: "'t message_body"
  me_signature :: signature_bytes

definition message_sign :: "'t bbs \<Rightarrow> identity \<Rightarrow> 't message_body \<Rightarrow> wire_error + 't message" where
  "message_sign B i body =
     (if id_id i \<noteq> mb_author body then Inl (WireMalformed ''message'')
      else Inr \<lparr> me_id = message_id B body, me_body = body,
        me_signature = identity_sign B i (message_signing_bytes B body) \<rparr>)"

definition message_verify :: "'t bbs \<Rightarrow> 't message \<Rightarrow> wire_error + unit" where
  "message_verify B m =
     (let bytes = message_signing_bytes B (me_body m) in
      if bb_hex B (bb_blake3 B bytes) \<noteq> me_id m then Inl (WireMalformed ''message'')
      else agent_verify B (mb_author (me_body m)) bytes (me_signature m))"

section \<open>Envelopes\<close>

datatype 't federation_payload =
    AnnounceBoard "'t bbs_board"
  | ReplicateMessage "'t message"
  | PeerHello bbs_agent_id bytes
  | Ack bytes

record 't federation_envelope =
  fe_node :: bbs_agent_id
  fe_seq :: u64
  fe_payload :: "'t federation_payload"
  fe_signature :: signature_bytes

text \<open>\<open>serde_json\<close> over these types; \<open>None\<close> is its error.\<close>

record 't bbs_json =
  bj_payload :: "'t federation_payload \<Rightarrow> bytes option"
  bj_envelope :: "'t federation_envelope \<Rightarrow> bytes option"
  bj_parse_envelope :: "bytes \<Rightarrow> 't federation_envelope option"

definition json_result :: "'a option \<Rightarrow> wire_error + 'a" where
  "json_result r = (case r of None \<Rightarrow> Inl WireJson | Some v \<Rightarrow> Inr v)"

definition BBS_PROTOCOL_VERSION :: bytes where "BBS_PROTOCOL_VERSION = ascii ''agentbbs/0.1''"

definition compose_signing_bytes :: "'t bbs \<Rightarrow> bbs_agent_id \<Rightarrow> u64 \<Rightarrow> bytes \<Rightarrow> bytes" where
  "compose_signing_bytes B node seq payload_json =
     ascii ''agentbbs.fed.v1'' @ [newline] @ BBS_PROTOCOL_VERSION @ [newline] @ bb_hex B node @ [newline] @
     decimal (unat seq) @ [newline] @ length_prefixed payload_json"

definition envelope_signing_bytes :: "'t bbs \<Rightarrow> 't bbs_json \<Rightarrow> 't federation_envelope \<Rightarrow> wire_error + bytes" where
  "envelope_signing_bytes B J e =
     rbind (json_result (bj_payload J (fe_payload e))) (\<lambda>payload_json.
       Inr (compose_signing_bytes B (fe_node e) (fe_seq e) payload_json))"

definition envelope_seal ::
  "'t bbs \<Rightarrow> 't bbs_json \<Rightarrow> identity \<Rightarrow> 't federation_payload \<Rightarrow> u64 \<Rightarrow> wire_error + 't federation_envelope" where
  "envelope_seal B J i payload seq =
     rbind (json_result (bj_payload J payload)) (\<lambda>payload_json.
       Inr \<lparr> fe_node = id_id i, fe_seq = seq, fe_payload = payload,
         fe_signature = identity_sign B i (compose_signing_bytes B (id_id i) seq payload_json) \<rparr>)"

definition envelope_open :: "'t bbs \<Rightarrow> 't bbs_json \<Rightarrow> 't federation_envelope \<Rightarrow> wire_error + 't federation_payload" where
  "envelope_open B J e =
     rbind (envelope_signing_bytes B J e) (\<lambda>bytes.
     rbind (agent_verify B (fe_node e) bytes (fe_signature e)) (\<lambda>_. Inr (fe_payload e)))"

section \<open>Publishing\<close>

record publisher =
  pu_identity :: identity
  pu_sink :: "bytes list"
  pu_seq :: u64

definition publisher_new :: "identity \<Rightarrow> bytes list \<Rightarrow> publisher" where
  "publisher_new i sink = \<lparr> pu_identity = i, pu_sink = sink, pu_seq = 0 \<rparr>"

definition next_seq :: "publisher \<Rightarrow> u64" where
  "next_seq p = pu_seq p + 1"

text \<open>The sequence number is used up even when the payload does not encode.\<close>

definition publish ::
  "'t bbs \<Rightarrow> 't bbs_json \<Rightarrow> publisher \<Rightarrow> 't federation_payload \<Rightarrow> (wire_error + 't federation_envelope) \<times> publisher" where
  "publish B J p payload =
     (let p = p\<lparr> pu_seq := pu_seq p + 1 \<rparr> in
      case envelope_seal B J (pu_identity p) payload (pu_seq p) of
        Inl e \<Rightarrow> (Inl e, p)
      | Inr envelope \<Rightarrow>
          case json_result (bj_envelope J envelope) of
            Inl e \<Rightarrow> (Inl e, p)
          | Inr bytes \<Rightarrow> (Inr envelope, p\<lparr> pu_sink := pu_sink p @ [bytes] \<rparr>))"

fun opened_payloads :: "'t bbs \<Rightarrow> 't bbs_json \<Rightarrow> bytes list \<Rightarrow> wire_error + 't federation_payload list" where
  "opened_payloads B J [] = Inr []"
| "opened_payloads B J (bytes # received) =
     rbind (json_result (bj_parse_envelope J bytes)) (\<lambda>envelope.
     rbind (envelope_open B J envelope) (\<lambda>payload.
     rbind (opened_payloads B J received) (\<lambda>payloads. Inr (payload # payloads))))"

section \<open>What a message signature covers\<close>

text \<open>The fields are joined by line breaks without their lengths: text moved over a field boundary gives the same
  signed bytes. Here the board takes a line that belongs to the subject.\<close>

definition shifted :: "'t message_body \<Rightarrow> bytes \<Rightarrow> bytes \<Rightarrow> 't message_body" where
  "shifted m board subject = m\<lparr> mb_board := board, mb_subject := subject, mb_parent := None \<rparr>"

lemma shifted_signing_bytes:
  assumes "mb_kind m = Post"
  shows "message_signing_bytes B (shifted m (b @ [newline] @ ascii ''-'') s) =
    message_signing_bytes B (shifted m b (ascii ''-'' @ [newline] @ s))"
  using assms by (simp add: message_signing_bytes_def shifted_def parent_text_def)

text \<open>A signature does not bind the fields of a message: whoever signs a post on the board \<open>b\<close> followed by a line break
  and a dash has also signed the post on the board \<open>b\<close> with a dash and a line break before its subject; the
  message with the other body verifies under the same identity and the same signature.\<close>

theorem message_fields_shift:
  assumes "bbs_ok B" and "mb_kind m = Post"
    and "message_sign B (identity_from_seed B seed) (shifted m (b @ [newline] @ ascii ''-'') s) = Inr msg"
  shows "message_verify B msg = Inr () \<and>
    message_verify B (msg\<lparr> me_body := shifted m b (ascii ''-'' @ [newline] @ s) \<rparr>) = Inr () \<and>
    shifted m b (ascii ''-'' @ [newline] @ s) \<noteq> me_body msg"
proof -
  let ?b1 = "shifted m (b @ [newline] @ ascii ''-'') s" and ?b2 = "shifted m b (ascii ''-'' @ [newline] @ s)"
  have msg: "mb_author m = bb_public B seed"
    "msg = \<lparr> me_id = message_id B ?b1, me_body = ?b1, me_signature = bb_sign B seed (message_signing_bytes B ?b1) \<rparr>"
    using assms(3) by (auto simp: message_sign_def identity_from_seed_def identity_sign_def shifted_def split: if_splits)
  have ok: "bb_key_ok B (bb_public B seed)" "bb_verify B (bb_public B seed) t (bb_sign B seed t)" for t
    using assms(1) by (simp_all add: bbs_ok_def)
  have author: "mb_author ?b1 = bb_public B seed" "mb_author ?b2 = bb_public B seed" using msg(1) by (simp_all add: shifted_def)
  have verify: "message_verify B \<lparr> me_id = bb_hex B (bb_blake3 B t), me_body = x, me_signature = bb_sign B seed t \<rparr> = Inr ()"
    if "message_signing_bytes B x = t" "mb_author x = bb_public B seed" for x t
    using that ok by (simp add: message_verify_def agent_verify_def Let_def)
  have "shifted m b (ascii ''-'' @ [newline] @ s) \<noteq> ?b1"
  proof
    assume "shifted m b (ascii ''-'' @ [newline] @ s) = ?b1"
    then have "length (mb_board (shifted m b (ascii ''-'' @ [newline] @ s))) = length (mb_board ?b1)" by (rule arg_cong)
    then show False by (simp add: shifted_def)
  qed
  then show ?thesis
    using verify[OF refl author(1)] verify[OF shifted_signing_bytes[OF assms(2), symmetric] author(2)]
    by (simp add: msg(2) message_id_def)
qed

definition single_line :: "'t message_body \<Rightarrow> bool" where
  "single_line m \<longleftrightarrow> newline \<notin> set (mb_board m) \<and> newline \<notin> set (parent_text (mb_parent m)) \<and>
     newline \<notin> set (mb_subject m) \<and> newline \<notin> set (mb_handle m) \<and> mb_parent m \<noteq> Some (ascii ''-'')"

lemma decimal_no_mark: "b \<in> set (decimal n) \<Longrightarrow> b \<noteq> newline \<and> b \<noteq> 58"
  using decimal_digits[of b n] by (auto simp: is_digit_def)

lemma length_prefixed_inject [simp]: "length_prefixed a = length_prefixed b \<longleftrightarrow> a = b"
proof
  have colon: "ascii '':'' = [58]" by (simp add: ascii_def)
  have free: "58 \<notin> set (decimal n)" for n using decimal_no_mark by blast
  assume "length_prefixed a = length_prefixed b"
  then have "decimal (length a) @ 58 # a = decimal (length b) @ 58 # b" by (simp add: length_prefixed_def colon)
  from split_at[OF this free free] show "a = b" by blast
qed simp

lemma parent_text_inject:
  "p \<noteq> Some (ascii ''-'') \<Longrightarrow> q \<noteq> Some (ascii ''-'') \<Longrightarrow> parent_text p = parent_text q \<longleftrightarrow> p = q"
  by (cases p; cases q) (auto simp: parent_text_def)

lemma kind_discriminant_inject: "kind_discriminant a = kind_discriminant b \<longleftrightarrow> a = b"
  by (cases a; cases b) (simp_all add: ascii_def)

lemma kind_no_newline: "newline \<notin> set (kind_discriminant k)"
  by (cases k) (simp_all add: ascii_def)

text \<open>On fields of one line the signature binds everything: when board, parent, subject and handle hold no line break and no
  parent is a lone dash, two message bodies have the same signed bytes exactly when they are equal, whatever their
  kinds and texts.\<close>

theorem message_signature_binds:
  assumes B: "bbs_ok B" and m: "single_line m" and m': "single_line m'"
  shows "message_signing_bytes B m = message_signing_bytes B m' \<longleftrightarrow> m = m'"
proof
  have hex: "newline \<notin> set (bb_hex B bs)" "bb_hex B bs = bb_hex B bs' \<longleftrightarrow> bs = bs'" for bs bs' using B by (auto simp: bbs_ok_def)
  have time: "newline \<notin> set (bb_rfc3339 B t)" "bb_rfc3339 B t = bb_rfc3339 B t' \<longleftrightarrow> t = t'" for t t' using B by (auto simp: bbs_ok_def)
  note free = m[unfolded single_line_def] m'[unfolded single_line_def]
  let ?rest = "\<lambda>m. mb_subject m @ [newline] @ bb_hex B (mb_author m) @ [newline] @ mb_handle m @ [newline] @
    bb_rfc3339 B (mb_created_at m) @ [newline] @ length_prefixed (mb_body m)"
  let ?kind = "\<lambda>m. if mb_kind m \<noteq> Post then kind_discriminant (mb_kind m) @ [newline] else []"
  let ?head = "\<lambda>m. if mb_kind m \<noteq> Post then ascii ''agentbbs.msg.v2'' else ascii ''agentbbs.msg.v1''"
  assume eq: "message_signing_bytes B m = message_signing_bytes B m'"
  then have "?head m @ newline # mb_board m @ newline # parent_text (mb_parent m) @ newline # ?kind m @ ?rest m =
      ?head m' @ newline # mb_board m' @ newline # parent_text (mb_parent m') @ newline # ?kind m' @ ?rest m'"
    by (simp add: message_signing_bytes_def Let_def)
  from split_at[OF this] have head: "?head m = ?head m'"
    and eq: "mb_board m @ newline # parent_text (mb_parent m) @ newline # ?kind m @ ?rest m =
      mb_board m' @ newline # parent_text (mb_parent m') @ newline # ?kind m' @ ?rest m'"
    by (auto simp: ascii_def)
  have v2: "mb_kind m \<noteq> Post \<longleftrightarrow> mb_kind m' \<noteq> Post" using head by (auto simp: ascii_def split: if_splits)
  from split_at[OF eq] free have board: "mb_board m = mb_board m'"
    and eq: "parent_text (mb_parent m) @ newline # ?kind m @ ?rest m = parent_text (mb_parent m') @ newline # ?kind m' @ ?rest m'"
    by blast+
  from split_at[OF eq] free have parent: "mb_parent m = mb_parent m'" and eq: "?kind m @ ?rest m = ?kind m' @ ?rest m'"
    using parent_text_inject by blast+
  have kind: "mb_kind m = mb_kind m' \<and> ?rest m = ?rest m'"
  proof (cases "mb_kind m \<noteq> Post")
    case True
    then have "kind_discriminant (mb_kind m) @ newline # ?rest m = kind_discriminant (mb_kind m') @ newline # ?rest m'"
      using eq v2 by simp
    from split_at[OF this kind_no_newline kind_no_newline] show ?thesis by (simp add: kind_discriminant_inject)
  qed (use eq v2 in auto)
  then have eq: "mb_subject m @ newline # bb_hex B (mb_author m) @ newline # mb_handle m @ newline #
      bb_rfc3339 B (mb_created_at m) @ newline # length_prefixed (mb_body m) =
    mb_subject m' @ newline # bb_hex B (mb_author m') @ newline # mb_handle m' @ newline #
      bb_rfc3339 B (mb_created_at m') @ newline # length_prefixed (mb_body m')" by simp
  from split_at[OF eq] free have subject: "mb_subject m = mb_subject m'"
    and eq: "bb_hex B (mb_author m) @ newline # mb_handle m @ newline # bb_rfc3339 B (mb_created_at m) @ newline #
      length_prefixed (mb_body m) =
    bb_hex B (mb_author m') @ newline # mb_handle m' @ newline # bb_rfc3339 B (mb_created_at m') @ newline #
      length_prefixed (mb_body m')" by blast+
  from split_at[OF eq hex(1) hex(1)] have author: "mb_author m = mb_author m'"
    and eq: "mb_handle m @ newline # bb_rfc3339 B (mb_created_at m) @ newline # length_prefixed (mb_body m) =
      mb_handle m' @ newline # bb_rfc3339 B (mb_created_at m') @ newline # length_prefixed (mb_body m')" by (simp_all add: hex(2))
  from split_at[OF eq] free have handle: "mb_handle m = mb_handle m'"
    and eq: "bb_rfc3339 B (mb_created_at m) @ newline # length_prefixed (mb_body m) =
      bb_rfc3339 B (mb_created_at m') @ newline # length_prefixed (mb_body m')" by blast+
  from split_at[OF eq time(1) time(1)] show "m = m'"
    using board parent kind subject author handle by (simp add: time(2))
qed simp

section \<open>What the federation delivers\<close>

lemma compose_signing_bytes_inject:
  assumes "bbs_ok B"
  shows "compose_signing_bytes B n s j = compose_signing_bytes B n' s' j' \<longleftrightarrow> n = n' \<and> s = s' \<and> j = j'"
proof
  have hex: "newline \<notin> set (bb_hex B bs)" "bb_hex B bs = bb_hex B bs' \<longleftrightarrow> bs = bs'" for bs bs' using assms by (auto simp: bbs_ok_def)
  have dec: "newline \<notin> set (decimal k)" for k using decimal_no_mark by blast
  assume "compose_signing_bytes B n s j = compose_signing_bytes B n' s' j'"
  then have eq: "bb_hex B n @ newline # decimal (unat s) @ newline # length_prefixed j =
      bb_hex B n' @ newline # decimal (unat s') @ newline # length_prefixed j'"
    by (simp add: compose_signing_bytes_def)
  from split_at[OF eq hex(1) hex(1)] have "n = n'"
    and eq: "decimal (unat s) @ newline # length_prefixed j = decimal (unat s') @ newline # length_prefixed j'" by (simp_all add: hex(2))
  from split_at[OF eq dec dec] show "n = n' \<and> s = s' \<and> j = j'" using \<open>n = n'\<close> by (simp add: word_unat_eq_iff)
qed simp

lemma seal_opens:
  assumes "bbs_ok B" and "envelope_seal B J (identity_from_seed B seed) payload seq = Inr e"
  shows "envelope_open B J e = Inr payload" and "fe_seq e = seq" and "fe_payload e = payload"
  using assms
  by (auto simp: envelope_seal_def envelope_open_def envelope_signing_bytes_def identity_from_seed_def identity_sign_def
      agent_verify_def bbs_ok_def)

definition json_ok :: "'t bbs_json \<Rightarrow> bool" where
  "json_ok J \<longleftrightarrow> (\<forall>e bs. bj_envelope J e = Some bs \<longrightarrow> bj_parse_envelope J bs = Some e)"

fun publish_all ::
  "'t bbs \<Rightarrow> 't bbs_json \<Rightarrow> publisher \<Rightarrow> 't federation_payload list \<Rightarrow>
    (wire_error + 't federation_envelope) list \<times> publisher" where
  "publish_all B J p [] = ([], p)"
| "publish_all B J p (x # xs) =
     (let (r, p1) = publish B J p x; (rs, p2) = publish_all B J p1 xs in (r # rs, p2))"

fun published :: "(wire_error + 't federation_envelope) list \<Rightarrow> 't federation_envelope list" where
  "published [] = []"
| "published (Inl e # rs) = published rs"
| "published (Inr e # rs) = e # published rs"

lemma opened_payloads_append:
  "opened_payloads B J (xs @ ys) = rbind (opened_payloads B J xs) (\<lambda>a. rbind (opened_payloads B J ys) (\<lambda>b. Inr (a @ b)))"
proof (induction xs)
  case Nil
  then show ?case by (cases "opened_payloads B J ys") simp_all
next
  case (Cons x xs)
  show ?case
  proof (cases "bj_parse_envelope J x")
    case (Some e)
    then show ?thesis using Cons
      by (cases "envelope_open B J e"; cases "opened_payloads B J xs"; cases "opened_payloads B J ys")
        (simp_all add: json_result_def)
  qed (simp add: json_result_def)
qed

lemma publish_step:
  assumes "bbs_ok B" and "json_ok J" and "pu_identity p = identity_from_seed B seed" and "publish B J p x = (r, p')"
  shows "pu_identity p' = pu_identity p \<and> pu_seq p' = pu_seq p + 1 \<and>
    (case r of
       Inl _ \<Rightarrow> pu_sink p' = pu_sink p
     | Inr e \<Rightarrow> fe_seq e = pu_seq p + 1 \<and> fe_payload e = x \<and>
         (\<exists>bs. pu_sink p' = pu_sink p @ [bs] \<and> opened_payloads B J [bs] = Inr [x]))"
proof (cases "envelope_seal B J (pu_identity p) x (pu_seq p + 1)")
  case (Inl e)
  then have "r = Inl e" "p' = p\<lparr> pu_seq := pu_seq p + 1 \<rparr>" using assms(4) by (simp_all add: publish_def Let_def)
  then show ?thesis by simp
next
  case (Inr e)
  note e = seal_opens[OF assms(1) Inr[unfolded assms(3)]]
  show ?thesis
  proof (cases "bj_envelope J e")
    case None
    then show ?thesis using assms(4) Inr by (auto simp: publish_def Let_def json_result_def)
  next
    case (Some bs)
    then have "bj_parse_envelope J bs = Some e" using assms(2) by (simp add: json_ok_def)
    moreover have "r = Inr e" "p' = p\<lparr> pu_seq := pu_seq p + 1, pu_sink := pu_sink p @ [bs] \<rparr>"
      using assms(4) Inr Some by (simp_all add: publish_def Let_def json_result_def)
    ultimately show ?thesis using e by (simp add: json_result_def)
  qed
qed

lemma publish_all_delivers:
  assumes "bbs_ok B" and "json_ok J"
  shows "pu_identity p = identity_from_seed B seed \<Longrightarrow> opened_payloads B J (pu_sink p) = Inr done \<Longrightarrow>
    unat (pu_seq p) + length xs < 2 ^ 64 \<Longrightarrow> publish_all B J p xs = (rs, p') \<Longrightarrow>
    opened_payloads B J (pu_sink p') = Inr (done @ map fe_payload (published rs)) \<and>
    unat (pu_seq p') = unat (pu_seq p) + length xs \<and> length rs = length xs \<and>
    sorted_wrt (<) (map fe_seq (published rs)) \<and> (\<forall>e\<in>set (published rs). pu_seq p < fe_seq e) \<and>
    (\<forall>k<length xs. \<forall>e. rs ! k = Inr e \<longrightarrow> unat (fe_seq e) = unat (pu_seq p) + k + 1 \<and> fe_payload e = xs ! k)"
proof (induction xs arbitrary: p rs "done")
  case (Cons x xs)
  obtain r p1 where r: "publish B J p x = (r, p1)" by fastforce
  obtain rs' where rs: "publish_all B J p1 xs = (rs', p')" "rs = r # rs'"
    using Cons.prems(4) r by (auto split: prod.splits)
  note step = publish_step[OF assms Cons.prems(1) r]
  have "unat (pu_seq p + 1) = unat (pu_seq p) + 1" using Cons.prems(3) by (subst unat_add_lem[THEN iffD1]) simp_all
  then have seq: "unat (pu_seq p1) = unat (pu_seq p) + 1" using step by simp
  then have less: "pu_seq p < pu_seq p1" by (simp add: word_less_nat_alt)
  have id1: "pu_identity p1 = identity_from_seed B seed" using step Cons.prems(1) by simp
  have len: "unat (pu_seq p1) + length xs < 2 ^ 64" using Cons.prems(3) seq by simp
  show ?case
  proof (cases r)
    case (Inl e)
    then have "opened_payloads B J (pu_sink p1) = Inr done" using step Cons.prems(2) by simp
    from Cons.IH[OF id1 this len rs(1)] show ?thesis using Inl rs(2) seq less
      by (auto simp: less_Suc_eq_0_disj intro: less_trans)
  next
    case (Inr e)
    then have "opened_payloads B J (pu_sink p1) = Inr (done @ [x])" and e: "fe_seq e = pu_seq p1" "fe_payload e = x"
      using step Cons.prems(2) by (auto simp: opened_payloads_append simp del: opened_payloads.simps)
    from Cons.IH[OF id1 this(1) len rs(1)] show ?thesis using Inr rs(2) seq less e
      by (auto simp: less_Suc_eq_0_disj intro: less_trans)
  qed
qed simp

text \<open>A publisher delivers what it publishes, in order and once: the bytes that a fresh publisher of a known identity has handed
  to a peer open to exactly the payloads of the calls that succeeded, in the order of the calls; the envelope of the
  \<open>k\<close>-th call has sequence number \<open>k\<close> and the payload of that call, a failed call using up its number.\<close>

theorem publisher_delivers:
  assumes "bbs_ok B" and "json_ok J" and "length payloads < 2 ^ 64"
    and "publish_all B J (publisher_new (identity_from_seed B seed) []) payloads = (rs, p)"
  shows "opened_payloads B J (pu_sink p) = Inr (map fe_payload (published rs)) \<and> length rs = length payloads \<and>
    unat (next_seq p - 1) = length payloads \<and> sorted_wrt (<) (map fe_seq (published rs)) \<and>
    (\<forall>k<length payloads. \<forall>e. rs ! k = Inr e \<longrightarrow> unat (fe_seq e) = k + 1 \<and> fe_payload e = payloads ! k)"
  using publish_all_delivers[OF assms(1,2), of "publisher_new (identity_from_seed B seed) []" seed "[]" payloads rs p] assms(3,4)
  by (simp add: publisher_new_def next_seq_def)

section \<open>Witnesses\<close>

text \<open>Parts for the witnesses: a signature is the key followed by the message, hexadecimal is one byte per digit.\<close>

definition echo_bbs :: "nat bbs" where
  "echo_bbs = \<lparr> bb_public = \<lambda>seed. seed, bb_key_ok = \<lambda>_. True, bb_sign = \<lambda>seed msg. seed @ msg,
     bb_verify = \<lambda>key msg sig. sig = key @ msg, bb_blake3 = \<lambda>bs. bs, bb_hex = hex_bytes, bb_unhex = Some,
     bb_rfc3339 = decimal \<rparr>"

lemma hex_digit_inject: "a < 16 \<Longrightarrow> b < 16 \<Longrightarrow> hex_digit_byte a = hex_digit_byte b \<longleftrightarrow> a = b"
proof -
  assume ab: "a < 16" "b < 16"
  have "unat (hex_digit_byte n) = (if n < 10 then 48 + n else 87 + n)" if "n < 16" for n
    using that unfolding hex_digit_byte_def unat_of_nat by (intro mod_less) simp
  then show ?thesis using ab by (auto simp: word_unat_eq_iff split: if_splits)
qed

lemma hex_of_byte_inject: "hex_of_byte a = hex_of_byte b \<longleftrightarrow> a = b"
proof
  assume "hex_of_byte a = hex_of_byte b"
  moreover have "unat x div 16 < 16" "unat x mod 16 < 16" for x :: u8 using unat_u8_lt[of x] by linarith+
  ultimately have "unat a div 16 = unat b div 16" "unat a mod 16 = unat b mod 16"
    by (simp_all add: hex_of_byte_def hex_digit_inject)
  then have "unat a = unat b" by (metis div_mult_mod_eq)
  then show "a = b" by (simp add: word_unat_eq_iff)
qed simp

lemma hex_bytes_inject: "hex_bytes a = hex_bytes b \<longleftrightarrow> a = b"
proof
  show "hex_bytes a = hex_bytes b \<Longrightarrow> a = b"
  proof (induction a arbitrary: b)
    case Nil
    then show ?case by (cases b) (simp_all add: hex_bytes_def hex_of_byte_def)
  next
    case (Cons x a)
    have two: "hex_of_byte x @ r = hex_of_byte y @ r' \<longleftrightarrow> hex_of_byte x = hex_of_byte y \<and> r = r'" for x y r r'
      by (simp add: hex_of_byte_def)
    show ?case using Cons by (cases b) (auto simp: hex_bytes_def two hex_of_byte_inject simp del: append_eq_append_conv, simp add: hex_of_byte_def)
  qed
qed simp

lemma hex_no_newline: "newline \<notin> set (hex_bytes bs)"
proof -
  have "hex_digit_byte n \<noteq> newline" if "n < 16" for n
  proof -
    have "unat (hex_digit_byte n) = (if n < 10 then 48 + n else 87 + n)"
      using that unfolding hex_digit_byte_def unat_of_nat by (intro mod_less) simp
    then show ?thesis by (auto split: if_splits)
  qed
  moreover have "unat b div 16 < 16" "unat b mod 16 < 16" for b :: u8 using unat_u8_lt[of b] by linarith+
  ultimately show ?thesis by (fastforce simp: hex_bytes_def hex_of_byte_def)
qed

lemma echo_bbs_ok: "bbs_ok echo_bbs"
proof -
  have "newline \<notin> set (decimal n)" for n using decimal_no_mark by blast
  then show ?thesis using hex_no_newline by (simp add: bbs_ok_def echo_bbs_def hex_bytes_inject)
qed

definition demo_post :: "nat message_body" where
  "demo_post = \<lparr> mb_board = ascii ''general'', mb_parent = None, mb_subject = ascii ''hello'', mb_body = ascii ''text'',
     mb_author = [7], mb_handle = ascii ''gw'', mb_created_at = 5, mb_kind = Post \<rparr>"

theorem message_fields_shift_witness:
  "\<exists>msg. message_verify echo_bbs msg = Inr () \<and>
    message_verify echo_bbs (msg\<lparr> me_body := shifted demo_post [97] (ascii ''-'' @ [newline] @ [115]) \<rparr>) = Inr () \<and>
    shifted demo_post [97] (ascii ''-'' @ [newline] @ [115]) \<noteq> me_body msg"
proof -
  obtain msg where "message_sign echo_bbs (identity_from_seed echo_bbs [7])
      (shifted demo_post ([97] @ [newline] @ ascii ''-'') [115]) = Inr msg"
    by (simp add: message_sign_def identity_from_seed_def echo_bbs_def shifted_def demo_post_def)
  from message_fields_shift[OF echo_bbs_ok _ this] show ?thesis by (auto simp: demo_post_def)
qed

theorem message_signature_binds_witness:
  "message_signing_bytes echo_bbs demo_post \<noteq> message_signing_bytes echo_bbs (demo_post\<lparr> mb_subject := [] \<rparr>)"
proof -
  have "single_line demo_post" "single_line (demo_post\<lparr> mb_subject := [] \<rparr>)"
    by (simp_all add: single_line_def demo_post_def parent_text_def ascii_def)
  from message_signature_binds[OF echo_bbs_ok this] show ?thesis by (simp add: demo_post_def ascii_def)
qed

definition demo_envelope :: "u64 \<Rightarrow> nat federation_envelope" where
  "demo_envelope k = \<lparr> fe_node = [7], fe_seq = k, fe_payload = Ack [ucast k],
     fe_signature = [7] @ compose_signing_bytes echo_bbs [7] k [ucast k] \<rparr>"

definition demo_json :: "nat bbs_json" where
  "demo_json = \<lparr> bj_payload = \<lambda>p. case p of Ack i \<Rightarrow> Some i | _ \<Rightarrow> None,
     bj_envelope = \<lambda>e. if e = demo_envelope (fe_seq e) then Some (to_be_bytes (fe_seq e)) else None,
     bj_parse_envelope = \<lambda>bs. Some (demo_envelope (from_be_bytes bs)) \<rparr>"

lemma demo_json_ok: "json_ok demo_json"
  by (auto simp: json_ok_def demo_json_def split: if_splits)

theorem publisher_delivers_witness:
  "\<exists>rs p. publish_all echo_bbs demo_json (publisher_new (identity_from_seed echo_bbs [7]) [])
      [Ack [1], PeerHello [7] [], Ack [3]] = (rs, p) \<and>
    opened_payloads echo_bbs demo_json (pu_sink p) = Inr [Ack [1], Ack [3]] \<and> map fe_seq (published rs) = [1, 3]"
proof -
  let ?xs = "[Ack [1], PeerHello [7] [], Ack [3]]"
  obtain rs p where r: "publish_all echo_bbs demo_json (publisher_new (identity_from_seed echo_bbs [7]) []) ?xs = (rs, p)"
    by fastforce
  have "published rs = [demo_envelope 1, demo_envelope 3]"
    using r by (auto simp: publish_def envelope_seal_def json_result_def demo_json_def publisher_new_def identity_from_seed_def
        identity_sign_def echo_bbs_def demo_envelope_def Let_def)
  then have "map fe_payload (published rs) = [Ack [1], Ack [3]]" "map fe_seq (published rs) = [1, 3]"
    by (simp_all add: demo_envelope_def)
  then show ?thesis using publisher_delivers[OF echo_bbs_ok demo_json_ok _ r] r by auto
qed

end
