(* ===== verification/Bbs_Bridge.thy ===== *)
theory Bbs_Bridge
  imports Bbs_Wire Envelope Floating
begin

text \<open>
  \<open>latentmesh-agentbbs-bridge/src/bridge.rs\<close>: decoded Air content into agentbbs bulletins. The instants and the
  external crates are those of \<open>Bbs_Wire\<close>; the JSON value of the post arguments is the list of its fields.
\<close>

section \<open>The mapping\<close>

datatype bridge_error = UnsupportedClass semantic_class | AirDecode air_error | BridgeWire wire_error

text \<open>\<open>{:.6}\<close> of \<open>v / 65536\<close>: both the conversion and the division are exact, and the last digit is rounded half to even.\<close>

definition render_q16_16 :: "i32 \<Rightarrow> bytes" where
  "render_q16_16 v =
     (let n = nat (round_half_even (of_int \<bar>sint v\<bar> * 1000000 / 65536))
      in (if sint v < 0 then [45] else []) @ decimal (n div 1000000) @ ascii ''.'' @ padded 6 (n mod 1000000))"

fun render_symbol_value :: "'t bbs \<Rightarrow> symbol_value \<Rightarrow> bytes" where
  "render_symbol_value B (SymBool v) = ascii ''bool:'' @ ascii (if v then ''true'' else ''false'')"
| "render_symbol_value B (SymI64 v) = ascii ''i64:'' @ decimal_signed (sint v)"
| "render_symbol_value B (SymU64 v) = ascii ''u64:'' @ decimal (unat v)"
| "render_symbol_value B (SymQ16_16 v) = ascii ''q16.16:'' @ render_q16_16 v"
| "render_symbol_value B (SymBytes v) = ascii ''bytes:'' @ bb_hex B v"

definition delta_subject :: "semantic_delta \<Rightarrow> bytes" where
  "delta_subject d =
     ascii ''air-delta source='' @ decimal (unat (d_source_id d)) @ ascii '' epoch='' @ decimal (unat (d_epoch d)) @
     ascii '' msg='' @ decimal (unat (d_message_id d))"

fun render_update :: "'t bbs \<Rightarrow> symbol_update \<Rightarrow> bytes" where
  "render_update B (SetField i v) =
     ascii ''  set field='' @ decimal (unat i) @ ascii '' value='' @ render_symbol_value B v @ [newline]"
| "render_update B (DeleteField i) = ascii ''  delete field='' @ decimal (unat i) @ [newline]"

definition render_delta_text :: "'t bbs \<Rightarrow> semantic_delta \<Rightarrow> bytes" where
  "render_delta_text B d =
     ascii ''LatentMesh Air state delta'' @ [newline] @
     ascii ''source_id='' @ decimal (unat (d_source_id d)) @ [newline] @
     ascii ''epoch='' @ decimal (unat (d_epoch d)) @ [newline] @
     ascii ''message_id='' @ decimal (unat (d_message_id d)) @ [newline] @
     ascii ''base_hash='' @ bb_hex B (to_be_bytes (d_base_hash d)) @ [newline] @
     ascii ''result_hash='' @ bb_hex B (to_be_bytes (d_result_hash d)) @ [newline] @
     concat (map (render_update B) (d_updates d)) @
     (if d_residuals d = [] then []
      else ascii ''  '' @ decimal (length (d_residuals d)) @
        ascii '' residual slot(s) present (noncritical, not represented in this bulletin)'' @ [newline])"

definition bridge_decode_delta :: "semantic_envelope \<Rightarrow> bridge_error + semantic_delta" where
  "bridge_decode_delta e =
     (if e_class e \<noteq> StateDelta then Inl (UnsupportedClass (e_class e))
      else case delta_decode (e_body e) of Inl err \<Rightarrow> Inl (AirDecode err) | Inr d \<Rightarrow> Inr d)"

definition delta_to_post_args :: "'t bbs \<Rightarrow> bytes \<Rightarrow> semantic_delta \<Rightarrow> (bytes \<times> bytes) list" where
  "delta_to_post_args B board d =
     [(ascii ''board'', board), (ascii ''subject'', delta_subject d), (ascii ''text'', render_delta_text B d)]"

definition delta_to_message_body ::
  "'t bbs \<Rightarrow> bytes \<Rightarrow> semantic_delta \<Rightarrow> bbs_agent_id \<Rightarrow> bytes \<Rightarrow> 't \<Rightarrow> 't message_body" where
  "delta_to_message_body B board d author handle created_at =
     \<lparr> mb_board = board, mb_parent = None, mb_subject = delta_subject d, mb_body = render_delta_text B d,
       mb_author = author, mb_handle = handle, mb_created_at = created_at, mb_kind = Post \<rparr>"

definition from_wire :: "wire_error + 'a \<Rightarrow> bridge_error + 'a" where
  "from_wire r = (case r of Inl e \<Rightarrow> Inl (BridgeWire e) | Inr v \<Rightarrow> Inr v)"

definition sign_delta_message ::
  "'t bbs \<Rightarrow> identity \<Rightarrow> bytes \<Rightarrow> semantic_delta \<Rightarrow> bytes \<Rightarrow> 't \<Rightarrow> bridge_error + 't message" where
  "sign_delta_message B i board d handle created_at =
     from_wire (message_sign B i (delta_to_message_body B board d (id_id i) handle created_at))"

definition delta_to_replicate_payload ::
  "'t bbs \<Rightarrow> identity \<Rightarrow> bytes \<Rightarrow> semantic_delta \<Rightarrow> bytes \<Rightarrow> 't \<Rightarrow> bridge_error + 't federation_payload" where
  "delta_to_replicate_payload B i board d handle created_at =
     rbind (sign_delta_message B i board d handle created_at) (\<lambda>m. Inr (ReplicateMessage m))"

definition envelope_to_post_args :: "'t bbs \<Rightarrow> bytes \<Rightarrow> semantic_envelope \<Rightarrow> bridge_error + (bytes \<times> bytes) list" where
  "envelope_to_post_args B board e = rbind (bridge_decode_delta e) (\<lambda>d. Inr (delta_to_post_args B board d))"

definition envelope_to_replicate_payload ::
  "'t bbs \<Rightarrow> identity \<Rightarrow> bytes \<Rightarrow> semantic_envelope \<Rightarrow> bytes \<Rightarrow> 't \<Rightarrow> bridge_error + 't federation_payload" where
  "envelope_to_replicate_payload B i board e handle created_at =
     rbind (bridge_decode_delta e) (\<lambda>d. delta_to_replicate_payload B i board d handle created_at)"

definition air_stream_board :: "'t bbs \<Rightarrow> bytes \<Rightarrow> bytes \<Rightarrow> bbs_agent_id \<Rightarrow> hash16 \<Rightarrow> 't \<Rightarrow> 't bbs_board" where
  "air_stream_board B slug title founder state_hash created_at =
     \<lparr> bo_slug = slug, bo_title = title,
       bo_description = ascii ''LatentMesh Air stream checkpoint state_hash='' @ bb_hex B (to_be_bytes state_hash),
       bo_locked = False, bo_founder = founder, bo_created_at = created_at, bo_federated = True \<rparr>"

definition announce_board :: "'t bbs_board \<Rightarrow> 't federation_payload" where
  "announce_board b = AnnounceBoard b"

definition peer_hello :: "bbs_agent_id \<Rightarrow> 't federation_payload" where
  "peer_hello node = PeerHello node BBS_PROTOCOL_VERSION"

definition bridge_ack :: "bytes \<Rightarrow> 't federation_payload" where
  "bridge_ack i = Ack i"

section \<open>What is republished\<close>

text \<open>The bridge decodes the body of an envelope itself and not through \<open>unwrap_delta\<close>, so it does not compare the
  identity of the delta with that of the envelope.\<close>

lemma bridge_decode_unwrap:
  "unwrap_delta e = Inr d \<Longrightarrow> bridge_decode_delta e = Inr d"
  by (auto simp: unwrap_delta_def bridge_decode_delta_def split: if_splits)

text \<open>The bridge republishes what the receiver refuses: for every delta that can be wrapped there is a state envelope that
  names another source than its delta, which \<open>unwrap_delta\<close> rejects and of which the bridge publishes the delta
  under its own source.\<close>

theorem bridge_skips_binding:
  assumes "wrap_delta d priority seq None = Inr e" and "source \<noteq> d_source_id d"
  shows "unwrap_delta (e\<lparr> e_source_id := source \<rparr>) = Inl ResultStateMismatch \<and>
    envelope_validate (e\<lparr> e_source_id := source \<rparr>) = Inr () \<and>
    bridge_decode_delta (e\<lparr> e_source_id := source \<rparr>) = Inr (delta_norm d)"
proof -
  have e: "unwrap_delta e = Inr (delta_norm d)" "envelope_ok e" "e_class e = StateDelta"
    using wrap_deltaD[OF assms(1)] by blast+
  then have decode: "delta_decode (e_body e) = Inr (delta_norm d)" by (auto simp: unwrap_delta_def split: if_splits)
  have "d_source_id (delta_norm d) = d_source_id d" by (simp add: delta_norm_def)
  moreover have "envelope_validate (e\<lparr> e_source_id := source \<rparr>) = envelope_validate e"
    by (simp add: envelope_validate_def signature_len_def)
  moreover have "envelope_validate e = Inr ()" using e(2) by (simp add: envelope_ok_def)
  moreover have "unwrap_delta (e\<lparr> e_source_id := source \<rparr>) = Inl ResultStateMismatch"
    using calculation(1) decode e(3) assms(2) by (simp add: unwrap_delta_def)
  ultimately show ?thesis using decode e(3) by (simp add: bridge_decode_delta_def)
qed

lemma demo_wraps: "\<exists>e. wrap_delta demo_delta 5 77 None = Inr e"
proof -
  have "length (delta_bytes demo_delta) \<le> 3444" using delta_bytes_length[OF demo_delta_ok] by simp
  then show ?thesis
    by (auto simp: wrap_delta_def Let_def delta_encode_iff[of demo_delta, THEN iffD2] demo_delta_ok envelope_validate_def
        signature_len_def not_less)
qed

theorem bridge_skips_binding_witness:
  "\<exists>e. unwrap_delta (e\<lparr> e_source_id := 9 \<rparr>) = Inl ResultStateMismatch \<and>
    bridge_decode_delta (e\<lparr> e_source_id := 9 \<rparr>) = Inr (delta_norm demo_delta)"
proof -
  obtain e where e: "wrap_delta demo_delta 5 77 None = Inr e" using demo_wraps by blast
  have "9 \<noteq> d_source_id demo_delta" by (simp add: demo_delta_def)
  from bridge_skips_binding[OF e this] show ?thesis by blast
qed

text \<open>C27. A bulletin crosses the federation, given that signatures verify and that JSON texts are read back as they were written:
  every envelope whose delta the receiver would accept, whatever updates and
  residuals it has, is turned into a message that verifies under the identity of the gateway, on the given board and with
  the text of exactly that delta; publishing it by a fresh publisher succeeds when the JSON library encodes, and
  whenever it succeeds the message is what the peer opens.\<close>

theorem bulletin_crosses_federation:
  assumes "bbs_ok B" and "json_ok J" and "unwrap_delta e = Inr d"
  shows "\<exists>m. envelope_to_replicate_payload B (identity_from_seed B seed) board e handle created = Inr (ReplicateMessage m) \<and>
    message_verify B m = Inr () \<and> mb_author (me_body m) = bb_public B seed \<and>
    mb_board (me_body m) = board \<and> mb_subject (me_body m) = delta_subject d \<and> mb_body (me_body m) = render_delta_text B d \<and>
    ((\<forall>x. bj_payload J x \<noteq> None) \<and> (\<forall>x. bj_envelope J x \<noteq> None) \<longrightarrow>
      (\<exists>envelope. fst (publish B J (publisher_new (identity_from_seed B seed) []) (ReplicateMessage m)) = Inr envelope)) \<and>
    (\<forall>envelope p. publish B J (publisher_new (identity_from_seed B seed) []) (ReplicateMessage m) = (Inr envelope, p) \<longrightarrow>
      opened_payloads B J (pu_sink p) = Inr [ReplicateMessage m])"
proof -
  have ok: "bb_key_ok B (bb_public B seed)" "bb_verify B (bb_public B seed) t (bb_sign B seed t)" for t
    using assms(1) by (simp_all add: bbs_ok_def)
  have i: "id_id (identity_from_seed B seed) = bb_public B seed" "identity_sign B (identity_from_seed B seed) t = bb_sign B seed t" for t
    by (simp_all add: identity_from_seed_def identity_sign_def)
  define body where "body = delta_to_message_body B board d (bb_public B seed) handle created"
  define m where "m = \<lparr> me_id = message_id B body, me_body = body, me_signature = bb_sign B seed (message_signing_bytes B body) \<rparr>"
  have author: "mb_author body = bb_public B seed" by (simp add: body_def delta_to_message_body_def)
  have payload: "envelope_to_replicate_payload B (identity_from_seed B seed) board e handle created = Inr (ReplicateMessage m)"
    using bridge_decode_unwrap[OF assms(3)] author
    by (simp add: envelope_to_replicate_payload_def delta_to_replicate_payload_def sign_delta_message_def from_wire_def
        message_sign_def i m_def body_def[symmetric])
  have verifies: "message_verify B m = Inr ()"
    using ok author by (simp add: message_verify_def m_def message_id_def agent_verify_def Let_def)
  have own: "pu_identity (publisher_new (identity_from_seed B seed) []) = identity_from_seed B seed" by (simp add: publisher_new_def)
  have opened: "opened_payloads B J (pu_sink p) = Inr [ReplicateMessage m]"
    if "publish B J (publisher_new (identity_from_seed B seed) []) (ReplicateMessage m) = (Inr envelope, p)" for envelope p
    using publish_step[OF assms(1,2) own that] by (auto simp: publisher_new_def)
  have published: "\<exists>envelope. fst (publish B J (publisher_new (identity_from_seed B seed) []) (ReplicateMessage m)) = Inr envelope"
    if "\<forall>x. bj_payload J x \<noteq> None" "\<forall>x. bj_envelope J x \<noteq> None"
    using that by (simp add: publish_def envelope_seal_def json_result_def Let_def split: option.split del: not_None_eq)
  show ?thesis using payload verifies opened published
    by (intro exI[of _ m]) (simp add: m_def body_def delta_to_message_body_def)
qed

theorem bulletin_crosses_federation_witness:
  "\<exists>(J :: nat bbs_json) (p :: publisher) (m :: nat message). message_verify echo_bbs m = Inr () \<and> mb_body (me_body m) = render_delta_text echo_bbs (delta_norm demo_delta) \<and>
    opened_payloads echo_bbs J (pu_sink p) = Inr [ReplicateMessage m]"
proof -
  obtain e where e: "wrap_delta demo_delta 5 77 None = Inr e" using demo_wraps by blast
  have d: "unwrap_delta e = Inr (delta_norm demo_delta)" using wrap_deltaD[OF e] by blast
  let ?i = "identity_from_seed echo_bbs [7]"
  obtain payload where pl: "envelope_to_replicate_payload echo_bbs ?i [98] e [103] 5 = Inr payload"
    using bridge_decode_unwrap[OF d]
    by (auto simp: envelope_to_replicate_payload_def delta_to_replicate_payload_def sign_delta_message_def from_wire_def
        message_sign_def delta_to_message_body_def)
  define E where "E = \<lparr> fe_node = id_id ?i, fe_seq = 1, fe_payload = payload,
    fe_signature = identity_sign echo_bbs ?i (compose_signing_bytes echo_bbs (id_id ?i) 1 []) \<rparr>"
  define J where "J = \<lparr> bj_payload = \<lambda>_. Some [], bj_envelope = \<lambda>x. if x = E then Some [0] else None,
    bj_parse_envelope = \<lambda>_. Some E \<rparr>"
  have J: "json_ok J" by (simp add: json_ok_def J_def)
  obtain p where "publish echo_bbs J (publisher_new ?i []) payload = (Inr E, p)"
    by (simp add: publish_def envelope_seal_def json_result_def publisher_new_def J_def E_def)
  moreover obtain m where "payload = ReplicateMessage m" "message_verify echo_bbs m = Inr ()"
    "mb_body (me_body m) = render_delta_text echo_bbs (delta_norm demo_delta)"
    "\<forall>envelope p. publish echo_bbs J (publisher_new ?i []) (ReplicateMessage m) = (Inr envelope, p) \<longrightarrow>
      opened_payloads echo_bbs J (pu_sink p) = Inr [ReplicateMessage m]"
    using bulletin_crosses_federation[OF echo_bbs_ok J d, of "[7]" "[98]" "[103]" 5] unfolding pl by blast
  ultimately show ?thesis by blast
qed

end
