(* ===== verification/Bbs_Mcp.thy ===== *)
theory Bbs_Mcp
  imports Bbs_Wire Floating
begin

text \<open>
  \<open>latentmesh-agentbbs-bridge/src/mcp.rs\<close>: the JSON-RPC client over a pair of byte streams. The JSON of \<open>serde_json\<close> is a
  parameter, with \<open>'v\<close> the type of its values. The input stream is the bytes that the peer sends before it closes.
\<close>

section \<open>The client\<close>

record 'v rpc_request =
  mr_jsonrpc :: bytes
  mr_id :: "'v option"
  mr_method :: bytes
  mr_params :: 'v

record 'v rpc_error =
  re_code :: i64
  re_message :: bytes
  re_data :: "'v option"

record 'v mcp_response =
  ms_jsonrpc :: bytes
  ms_id :: 'v
  ms_result :: "'v option"
  ms_error :: "'v rpc_error option"

record 'v mcp_json =
  js_null :: 'v
  js_string :: "bytes \<Rightarrow> 'v"
  js_i64 :: "i64 \<Rightarrow> 'v"
  js_u64 :: "u64 \<Rightarrow> 'v"
  js_f32s :: "f32 list \<Rightarrow> 'v"
  js_object :: "(bytes \<times> 'v) list \<Rightarrow> 'v"
  js_get :: "'v \<Rightarrow> bytes \<Rightarrow> 'v option"
  js_index :: "'v \<Rightarrow> nat \<Rightarrow> 'v option"
  js_as_str :: "'v \<Rightarrow> bytes option"
  js_write_request :: "'v rpc_request \<Rightarrow> bytes option"
  js_read_response :: "bytes \<Rightarrow> 'v mcp_response option"

datatype 'v client_error = McpIo | McpJson | McpClosed | McpRpc "'v rpc_error"

record mcp_client =
  mc_input :: bytes
  mc_written :: bytes
  mc_next_id :: i64

definition mcp_client_new :: "bytes \<Rightarrow> mcp_client" where
  "mcp_client_new input = \<lparr> mc_input = input, mc_written = [], mc_next_id = 1 \<rparr>"

definition mcp_request_new :: "'v mcp_json \<Rightarrow> i64 \<Rightarrow> bytes \<Rightarrow> 'v \<Rightarrow> 'v rpc_request" where
  "mcp_request_new J i method params =
     \<lparr> mr_jsonrpc = ascii ''2.0'', mr_id = Some (js_i64 J i), mr_method = method, mr_params = params \<rparr>"

definition alloc_id :: "mcp_client \<Rightarrow> i64 \<times> mcp_client" where
  "alloc_id c = (mc_next_id c, c\<lparr> mc_next_id := mc_next_id c + 1 \<rparr>)"

text \<open>\<open>read_line\<close>: the bytes up to and with the next line break, or to the end of the input.\<close>

fun split_line :: "bytes \<Rightarrow> bytes \<times> bytes" where
  "split_line [] = ([], [])"
| "split_line (b # bs) =
     (if b = newline then ([b], bs) else let (line, rest) = split_line bs in (b # line, rest))"

definition mcp_answer :: "'v mcp_json \<Rightarrow> bytes \<Rightarrow> 'v client_error + 'v" where
  "mcp_answer J line =
     (if line = [] then Inl McpClosed
      else if \<not> utf8_valid line then Inl McpIo
      else case js_read_response J (trim_end line) of
        None \<Rightarrow> Inl McpJson
      | Some r \<Rightarrow>
          case ms_error r of
            Some e \<Rightarrow> Inl (McpRpc e)
          | None \<Rightarrow> Inr (case ms_result r of None \<Rightarrow> js_null J | Some v \<Rightarrow> v))"

text \<open>One request; the flag says whether the writer takes the line.\<close>

definition mcp_request ::
  "'v mcp_json \<Rightarrow> bool \<Rightarrow> mcp_client \<Rightarrow> bytes \<Rightarrow> 'v \<Rightarrow> ('v client_error + 'v) \<times> mcp_client" where
  "mcp_request J writable c method params =
     (let (i, c) = alloc_id c in
      case js_write_request J (mcp_request_new J i method params) of
        None \<Rightarrow> (Inl McpJson, c)
      | Some line \<Rightarrow>
          if \<not> writable then (Inl McpIo, c)
          else let c = c\<lparr> mc_written := mc_written c @ line @ [newline] \<rparr>;
                   (resp_line, rest) = split_line (mc_input c)
            in (mcp_answer J resp_line, c\<lparr> mc_input := rest \<rparr>))"

section \<open>The tools\<close>

definition MCP_PROTOCOL_VERSION :: bytes where "MCP_PROTOCOL_VERSION = ascii ''2024-11-05''"

definition initialize_params :: "'v mcp_json \<Rightarrow> bytes \<Rightarrow> 'v" where
  "initialize_params J version =
     js_object J
       [(ascii ''protocolVersion'', js_string J MCP_PROTOCOL_VERSION),
        (ascii ''clientInfo'', js_object J
          [(ascii ''name'', js_string J (ascii ''latentmesh-agentbbs-bridge'')), (ascii ''version'', js_string J version)]),
        (ascii ''capabilities'', js_object J [])]"

definition mcp_initialize :: "'v mcp_json \<Rightarrow> bytes \<Rightarrow> bool \<Rightarrow> mcp_client \<Rightarrow> ('v client_error + 'v) \<times> mcp_client" where
  "mcp_initialize J version w c = mcp_request J w c (ascii ''initialize'') (initialize_params J version)"

definition list_tools :: "'v mcp_json \<Rightarrow> bool \<Rightarrow> mcp_client \<Rightarrow> ('v client_error + 'v) \<times> mcp_client" where
  "list_tools J w c = mcp_request J w c (ascii ''tools/list'') (js_null J)"

definition call_tool :: "'v mcp_json \<Rightarrow> bool \<Rightarrow> mcp_client \<Rightarrow> bytes \<Rightarrow> 'v \<Rightarrow> ('v client_error + 'v) \<times> mcp_client" where
  "call_tool J w c name args =
     mcp_request J w c (ascii ''tools/call'')
       (js_object J [(ascii ''name'', js_string J name), (ascii ''arguments'', args)])"

definition list_boards :: "'v mcp_json \<Rightarrow> bool \<Rightarrow> mcp_client \<Rightarrow> ('v client_error + 'v) \<times> mcp_client" where
  "list_boards J w c = call_tool J w c (ascii ''list_boards'') (js_object J [])"

definition optional_field :: "'v mcp_json \<Rightarrow> string \<Rightarrow> u64 option \<Rightarrow> (bytes \<times> 'v) list" where
  "optional_field J name v = (case v of None \<Rightarrow> [] | Some n \<Rightarrow> [(ascii name, js_u64 J n)])"

definition read_board ::
  "'v mcp_json \<Rightarrow> bool \<Rightarrow> mcp_client \<Rightarrow> bytes \<Rightarrow> u64 option \<Rightarrow> ('v client_error + 'v) \<times> mcp_client" where
  "read_board J w c board limit =
     call_tool J w c (ascii ''read_board'')
       (js_object J ((ascii ''board'', js_string J board) # optional_field J ''limit'' limit))"

definition post_message ::
  "'v mcp_json \<Rightarrow> bool \<Rightarrow> mcp_client \<Rightarrow> bytes \<Rightarrow> bytes \<Rightarrow> bytes \<Rightarrow> ('v client_error + 'v) \<times> mcp_client" where
  "post_message J w c board subject text =
     call_tool J w c (ascii ''post_message'')
       (js_object J [(ascii ''board'', js_string J board), (ascii ''subject'', js_string J subject), (ascii ''text'', js_string J text)])"

definition search_memory ::
  "'v mcp_json \<Rightarrow> bool \<Rightarrow> mcp_client \<Rightarrow> f32 list \<Rightarrow> u64 option \<Rightarrow> ('v client_error + 'v) \<times> mcp_client" where
  "search_memory J w c query top_k =
     call_tool J w c (ascii ''search_memory'')
       (js_object J ((ascii ''query'', js_f32s J query) # optional_field J ''top_k'' top_k))"

definition extract_tool_text :: "'v mcp_json \<Rightarrow> 'v \<Rightarrow> bytes option" where
  "extract_tool_text J v =
     Option.bind (js_get J v (ascii ''content'')) (\<lambda>content.
     Option.bind (js_index J content 0) (\<lambda>first.
     Option.bind (js_get J first (ascii ''text'')) (js_as_str J)))"

section \<open>Answers and requests\<close>

fun mcp_calls ::
  "'v mcp_json \<Rightarrow> mcp_client \<Rightarrow> (bytes \<times> 'v) list \<Rightarrow> ('v client_error + 'v) list \<times> mcp_client" where
  "mcp_calls J c [] = ([], c)"
| "mcp_calls J c ((method, params) # calls) =
     (let (r, c) = mcp_request J True c method params; (rs, c) = mcp_calls J c calls in (r # rs, c))"

abbreviation as_lines :: "bytes list \<Rightarrow> bytes" where
  "as_lines ls \<equiv> concat (map (\<lambda>l. l @ [newline]) ls)"

lemma split_line_line: "newline \<notin> set l \<Longrightarrow> split_line (l @ newline # rest) = (l @ [newline], rest)"
  by (induction l) auto

text \<open>Answers go by the line: whatever the peer writes, the \<open>k\<close>-th call returns what the \<open>k\<close>-th line says, and the id of
  that line plays no part; each call consumes one line, and the requests carry consecutive ids. A peer that has once sent a line
  too many thus answers every later call with the answer to the call before it.\<close>

theorem answers_by_line:
  assumes "length lines = length calls" and "\<forall>l\<in>set lines. newline \<notin> set l"
    and "\<And>i method params. js_write_request J (mcp_request_new J i method params) \<noteq> None"
    and "mc_input c = as_lines lines @ rest" and "mcp_calls J c calls = (rs, c')"
  shows "rs = map (\<lambda>l. mcp_answer J (l @ [newline])) lines \<and> mc_input c' = rest \<and>
    mc_next_id c' = mc_next_id c + of_nat (length calls)"
  using assms(1,2,4,5)
proof (induction calls arbitrary: c lines rs)
  case (Cons call calls)
  obtain name args where call: "call = (name, args)" by fastforce
  obtain l ls where lines: "lines = l # ls" using Cons.prems(1) by (cases lines) auto
  obtain line where line: "js_write_request J (mcp_request_new J (mc_next_id c) name args) = Some line" using assms(3) by blast
  let ?c = "c\<lparr> mc_next_id := mc_next_id c + 1, mc_written := mc_written c @ line @ [newline], mc_input := as_lines ls @ rest \<rparr>"
  have req: "mcp_request J True c name args = (mcp_answer J (l @ [newline]), ?c)"
    using Cons.prems(2,3) line lines split_line_line[of l "as_lines ls @ rest"]
    by (simp add: mcp_request_def alloc_id_def Let_def)
  obtain rs' where rs: "mcp_calls J ?c calls = (rs', c')" "rs = mcp_answer J (l @ [newline]) # rs'"
    using Cons.prems(4) call req by (auto split: prod.splits)
  show ?case using Cons.IH[of ls ?c rs'] Cons.prems(1,2) lines rs by (simp add: algebra_simps)
qed simp

text \<open>A response with another id is taken as the answer.\<close>

definition demo_mcp :: "nat mcp_json" where
  "demo_mcp = \<lparr> js_null = 0, js_string = length, js_i64 = unat, js_u64 = unat, js_f32s = length, js_object = length,
     js_get = \<lambda>_ _. None, js_index = \<lambda>_ _. None, js_as_str = \<lambda>_. None, js_write_request = \<lambda>r. Some [],
     js_read_response = \<lambda>bs. case bs of [i, v] \<Rightarrow>
       Some \<lparr> ms_jsonrpc = [], ms_id = unat i, ms_result = Some (unat v), ms_error = None \<rparr> | _ \<Rightarrow> None \<rparr>"

theorem answers_by_line_witness:
  "\<exists>rs c'. mcp_calls demo_mcp (mcp_client_new (as_lines [[99, 65], [49, 66]])) [([], 0), ([], 0)] = (rs, c') \<and>
    rs = map (\<lambda>l. mcp_answer demo_mcp (l @ [newline])) [[99, 65], [49, 66]]"
proof -
  obtain rs c' where r: "mcp_calls demo_mcp (mcp_client_new (as_lines [[99, 65], [49, 66]])) [([], 0), ([], 0)] = (rs, c')"
    by fastforce
  have "rs = map (\<lambda>l. mcp_answer demo_mcp (l @ [newline])) [[99, 65], [49, 66]]"
    using answers_by_line[OF _ _ _ _ r, of "[[99, 65], [49, 66]]" "[]"] by (simp add: demo_mcp_def mcp_client_new_def)
  then show ?thesis using r by blast
qed

theorem foreign_id_accepted:
  "js_read_response demo_mcp [99, 65] = Some \<lparr> ms_jsonrpc = [], ms_id = 99, ms_result = Some 65, ms_error = None \<rparr> \<and>
   fst (mcp_request demo_mcp True (mcp_client_new [99, 65, newline]) [] 0) = Inr 65"
proof -
  have "trim_end [99, 65, newline] = [99, 65]" by code_simp
  then show ?thesis
    by (simp add: mcp_request_def alloc_id_def mcp_client_new_def mcp_answer_def demo_mcp_def)
qed

end
