(* ===== verification/Runtime_Model.thy ===== *)
theory Runtime_Model
  imports Cognitum Latent_Core Float_Order "HOL-Library.Monad_Syntax"
begin

text \<open>
  \<open>latentmesh-runtime\<close>: the residual stream of the decoder in \<open>models/qwen2_b.rs\<close> with its edits, the adapter of
  \<open>lora.rs\<close>, the captures of \<open>capture.rs\<close> and the injections of \<open>inject.rs\<close>. The attention, the feed-forward
  network and the norms of a block come from candle and are parameters. \<open>None\<close> is an error of candle or a panic.
\<close>

section \<open>Tensors\<close>

text \<open>A tensor \<open>(1, n, w)\<close>, the only shape that the crate makes, is the list of its \<open>n\<close> rows. The operations whose
  rounding depends on the device are parameters; \<open>tn_cast\<close> is the conversion to the number type of the model.\<close>

type_synonym rows = "f32 list list"

record tensor_ops =
  tn_cast :: "f32 \<Rightarrow> f32"
  tn_matmul :: "rows \<Rightarrow> rows \<Rightarrow> rows option"
  tn_scale :: "f64 \<Rightarrow> f32 \<Rightarrow> f32"
  tn_mean :: "rows \<Rightarrow> f32 list"
  tn_l2 :: "f32 list \<Rightarrow> f32"
  tn_log_softmax :: "f32 list \<Rightarrow> f32 list"

definition add_row :: "tensor_ops \<Rightarrow> f32 list \<Rightarrow> f32 list \<Rightarrow> f32 list" where
  "add_row T a b = map2 (\<lambda>x y. tn_cast T (f_add x y)) a b"

definition add_rows :: "tensor_ops \<Rightarrow> rows \<Rightarrow> rows \<Rightarrow> rows option" where
  "add_rows T a b = (if map length a = map length b then Some (map2 (add_row T) a b) else None)"

definition narrow :: "nat \<Rightarrow> nat \<Rightarrow> 'a list \<Rightarrow> 'a list option" where
  "narrow a n xs = (if a + n \<le> length xs then Some (take n (drop a xs)) else None)"

definition reshape :: "nat \<Rightarrow> nat \<Rightarrow> f32 list \<Rightarrow> rows" where
  "reshape n w flat = map (\<lambda>i. take w (drop (i * w) flat)) [0..<n]"

section \<open>The adapter\<close>

record residual_lora =
  la_a :: rows
  la_b :: rows
  la_rank :: nat
  la_hidden :: nat
  la_after_block :: nat
  la_alpha :: f64
  la_content_hash :: bytes

definition lora_from_flat :: "f32 list \<Rightarrow> nat \<Rightarrow> nat \<Rightarrow> f64 \<Rightarrow> bytes \<Rightarrow> residual_lora option" where
  "lora_from_flat flat hidden after_block alpha digest =
     (if hidden = 0 \<or> length flat mod (2 * hidden) \<noteq> 0 \<or> flat = [] then None
      else let rank = length flat div (2 * hidden) in
        Some \<lparr> la_a = reshape hidden rank (take (hidden * rank) flat), la_b = reshape rank hidden (drop (hidden * rank) flat),
          la_rank = rank, la_hidden = hidden, la_after_block = after_block, la_alpha = alpha,
          la_content_hash = digest \<rparr>)"

definition lora_load_artifact :: "crypto \<Rightarrow> bytes \<Rightarrow> nat \<Rightarrow> nat \<Rightarrow> f64 \<Rightarrow> residual_lora option" where
  "lora_load_artifact K bs hidden after_block alpha =
     (if length bs mod 4 \<noteq> 0 then None
      else lora_from_flat (map f32_from_le_bytes (chunks_exact 4 bs)) hidden after_block alpha (hex_sha256 K bs))"

definition lora_scaling :: "residual_lora \<Rightarrow> f64" where
  "lora_scaling l = d_div (la_alpha l) (f64_of (of_nat (la_rank l)))"

definition lora_delta :: "tensor_ops \<Rightarrow> residual_lora \<Rightarrow> rows \<Rightarrow> rows option" where
  "lora_delta T l xs =
     (if \<not> list_all (\<lambda>r. length r = la_hidden l) xs then None
      else do {
        down \<leftarrow> tn_matmul T xs (la_a l);
        up \<leftarrow> tn_matmul T down (la_b l);
        Some (map (map (\<lambda>x. tn_cast T (tn_scale T (lora_scaling l) x))) up)
      })"

definition lora_apply :: "tensor_ops \<Rightarrow> residual_lora \<Rightarrow> rows \<Rightarrow> rows option" where
  "lora_apply T l xs = do { d \<leftarrow> lora_delta T l xs; add_rows T xs d }"

definition lora_to_flat :: "residual_lora \<Rightarrow> f32 list" where
  "lora_to_flat l = concat (la_a l) @ concat (la_b l)"

definition lora_param_count :: "residual_lora \<Rightarrow> nat" where
  "lora_param_count l = 2 * la_hidden l * la_rank l"

section \<open>Edits of the residual stream\<close>

datatype layer_edit =
    Capture nat "rows option"
  | CaptureMany "nat list" "(nat \<times> rows) list"
  | Inject nat "nat list" rows
  | Fuse nat "nat list" rows

text \<open>The loop over the positions: the row of the payload with the same index is combined with the row there.\<close>

fun edit_rows :: "tensor_ops \<Rightarrow> (f32 list \<Rightarrow> f32 list \<Rightarrow> f32 list) \<Rightarrow> rows \<Rightarrow> nat \<Rightarrow> nat list \<Rightarrow> rows \<Rightarrow> rows option" where
  "edit_rows T f vectors i [] xs = Some xs"
| "edit_rows T f vectors i (p # ps) xs =
     (if i < length vectors \<and> p < length xs \<and> length (vectors ! i) = length (xs ! p)
      then edit_rows T f vectors (Suc i) ps (xs[p := f (xs ! p) (map (tn_cast T) (vectors ! i))])
      else None)"

fun apply_edit :: "tensor_ops \<Rightarrow> rows \<Rightarrow> nat \<Rightarrow> layer_edit \<Rightarrow> (rows \<times> layer_edit) option" where
  "apply_edit T xs blocks_run (Capture b out) =
     Some (xs, if b = blocks_run then Capture b (Some xs) else Capture b out)"
| "apply_edit T xs blocks_run (CaptureMany bs out) =
     Some (xs, if blocks_run \<in> set bs then CaptureMany bs (out @ [(blocks_run, xs)]) else CaptureMany bs out)"
| "apply_edit T xs blocks_run (Inject b ps vs) =
     map_option (\<lambda>ys. (ys, Inject b ps vs)) (if b = blocks_run then edit_rows T (\<lambda>_ v. v) vs 0 ps xs else Some xs)"
| "apply_edit T xs blocks_run (Fuse b ps vs) =
     map_option (\<lambda>ys. (ys, Fuse b ps vs)) (if b = blocks_run then edit_rows T (add_row T) vs 0 ps xs else Some xs)"

section \<open>The decoder\<close>

record 'c decoder_layer =
  dl_input_norm :: "rows \<Rightarrow> rows option"
  dl_attention :: "rows \<Rightarrow> rows option \<Rightarrow> nat \<Rightarrow> 'c option \<Rightarrow> (rows \<times> 'c option) option"
  dl_post_norm :: "rows \<Rightarrow> rows option"
  dl_mlp :: "rows \<Rightarrow> rows option"
  dl_cache :: "'c option"

definition decoder_forward ::
  "tensor_ops \<Rightarrow> 'c decoder_layer \<Rightarrow> rows \<Rightarrow> rows option \<Rightarrow> nat \<Rightarrow> (rows \<times> 'c decoder_layer) option" where
  "decoder_forward T l xs att offset = do {
     n \<leftarrow> dl_input_norm l xs;
     (a, cache) \<leftarrow> dl_attention l n att offset (dl_cache l);
     x \<leftarrow> add_rows T a xs;
     p \<leftarrow> dl_post_norm l x;
     m \<leftarrow> dl_mlp l p;
     y \<leftarrow> add_rows T x m;
     Some (y, l\<lparr> dl_cache := cache \<rparr>)
   }"

record 'c qwen_model =
  qm_embed :: "u32 list \<Rightarrow> rows option"
  qm_layers :: "'c decoder_layer list"
  qm_norm :: "rows \<Rightarrow> rows option"
  qm_sliding_window :: nat
  qm_lora :: "residual_lora option"

definition set_residual_lora :: "residual_lora option \<Rightarrow> 'c qwen_model \<Rightarrow> 'c qwen_model" where
  "set_residual_lora l m = m\<lparr> qm_lora := l \<rparr>"

definition clear_kv_cache :: "'c qwen_model \<Rightarrow> 'c qwen_model" where
  "clear_kv_cache m = m\<lparr> qm_layers := map (\<lambda>l. l\<lparr> dl_cache := None \<rparr>) (qm_layers m) \<rparr>"

definition masked :: "nat \<Rightarrow> nat \<Rightarrow> nat \<Rightarrow> bool" where
  "masked window i j \<longleftrightarrow> i < j \<or> j + window < i"

definition causal_mask :: "tensor_ops \<Rightarrow> nat \<Rightarrow> nat \<Rightarrow> nat \<Rightarrow> rows" where
  "causal_mask T window tgt_len offset =
     map (\<lambda>i. map (tn_cast T) (replicate offset f_zero @
       map (\<lambda>j. if masked window i j then Inf True else f_zero) [0..<tgt_len])) [0..<tgt_len]"

definition edit_step :: "tensor_ops \<Rightarrow> layer_edit option \<Rightarrow> nat \<Rightarrow> rows \<Rightarrow> (rows \<times> layer_edit option) option" where
  "edit_step T edit blocks_run ys =
     (case edit of None \<Rightarrow> Some (ys, None)
      | Some e \<Rightarrow> map_option (\<lambda>(ys, e). (ys, Some e)) (apply_edit T ys blocks_run e))"

definition adapter_step :: "tensor_ops \<Rightarrow> residual_lora option \<Rightarrow> nat \<Rightarrow> rows \<Rightarrow> rows option" where
  "adapter_step T lora blocks_run ys =
     (case lora of Some a \<Rightarrow> if la_after_block a = blocks_run then lora_apply T a ys else Some ys | None \<Rightarrow> Some ys)"

text \<open>The blocks from index \<open>i\<close> on: the block, then the edit, then the adapter.\<close>

fun run_layers ::
  "tensor_ops \<Rightarrow> residual_lora option \<Rightarrow> rows option \<Rightarrow> nat \<Rightarrow> nat \<Rightarrow> 'c decoder_layer list \<Rightarrow> rows \<Rightarrow> layer_edit option \<Rightarrow>
    (rows \<times> 'c decoder_layer list \<times> layer_edit option) option" where
  "run_layers T lora att offset i [] xs edit = Some (xs, [], edit)"
| "run_layers T lora att offset i (l # ls) xs edit = do {
     (ys, l') \<leftarrow> decoder_forward T l xs att offset;
     (ys, edit) \<leftarrow> edit_step T edit (Suc i) ys;
     ys \<leftarrow> adapter_step T lora (Suc i) ys;
     (zs, ls', edit) \<leftarrow> run_layers T lora att offset (Suc i) ls ys edit;
     Some (zs, l' # ls', edit)
   }"

definition model_forward ::
  "tensor_ops \<Rightarrow> 'c qwen_model \<Rightarrow> u32 list \<Rightarrow> nat \<Rightarrow> layer_edit option \<Rightarrow> (rows \<times> 'c qwen_model \<times> layer_edit option) option" where
  "model_forward T m tokens offset edit = do {
     let att = (if length tokens \<le> 1 then None
       else Some (causal_mask T (qm_sliding_window m) (length tokens) offset));
     xs \<leftarrow> qm_embed m tokens;
     (ys, layers, edit) \<leftarrow> run_layers T (qm_lora m) att offset 0 (qm_layers m) xs edit;
     zs \<leftarrow> qm_norm m ys;
     Some (zs, m\<lparr> qm_layers := layers \<rparr>, edit)
   }"

record 'c causal_lm =
  lm_base :: "'c qwen_model"
  lm_head :: "rows \<Rightarrow> rows option"

definition lm_clear :: "'c causal_lm \<Rightarrow> 'c causal_lm" where
  "lm_clear m = m\<lparr> lm_base := clear_kv_cache (lm_base m) \<rparr>"

definition lm_full_logits ::
  "tensor_ops \<Rightarrow> 'c causal_lm \<Rightarrow> u32 list \<Rightarrow> nat \<Rightarrow> layer_edit option \<Rightarrow> (rows \<times> 'c causal_lm \<times> layer_edit option) option" where
  "lm_full_logits T m tokens offset edit = do {
     (xs, base, edit) \<leftarrow> model_forward T (lm_base m) tokens offset edit;
     logits \<leftarrow> lm_head m xs;
     Some (logits, m\<lparr> lm_base := base \<rparr>, edit)
   }"

text \<open>The logits of the last position; an empty sequence underflows.\<close>

definition lm_forward_with_edit ::
  "tensor_ops \<Rightarrow> 'c causal_lm \<Rightarrow> u32 list \<Rightarrow> nat \<Rightarrow> layer_edit option \<Rightarrow> (rows \<times> 'c causal_lm \<times> layer_edit option) option" where
  "lm_forward_with_edit T m tokens offset edit = do {
     (xs, base, edit) \<leftarrow> model_forward T (lm_base m) tokens offset edit;
     row \<leftarrow> (if tokens = [] then None else narrow (length tokens - 1) 1 xs);
     logits \<leftarrow> lm_head m row;
     Some (logits, m\<lparr> lm_base := base \<rparr>, edit)
   }"

definition lm_forward :: "tensor_ops \<Rightarrow> 'c causal_lm \<Rightarrow> u32 list \<Rightarrow> nat \<Rightarrow> (rows \<times> 'c causal_lm) option" where
  "lm_forward T m tokens offset =
     map_option (\<lambda>(logits, m', _). (logits, m')) (lm_forward_with_edit T m tokens offset None)"

section \<open>Captures\<close>

record capture =
  cp_after_block :: nat
  cp_span :: "nat \<times> nat"
  cp_pooled :: "f32 list"
  cp_hidden_size :: nat
  cp_per_position_l2 :: "f32 list"

definition pool_rows :: "tensor_ops \<Rightarrow> rows \<Rightarrow> nat \<Rightarrow> nat \<times> nat \<Rightarrow> capture" where
  "pool_rows T xs after_block sp =
     \<lparr> cp_after_block = after_block, cp_span = sp, cp_pooled = tn_mean T xs, cp_hidden_size = length (hd xs),
       cp_per_position_l2 = map (tn_l2 T) xs \<rparr>"

definition span_rows :: "rows \<Rightarrow> nat \<times> nat \<Rightarrow> rows option" where
  "span_rows tapped sp = narrow (fst sp) (snd sp - fst sp) tapped"

definition pool_capture :: "tensor_ops \<Rightarrow> rows \<Rightarrow> nat \<Rightarrow> nat \<times> nat \<Rightarrow> capture option" where
  "pool_capture T tapped after_block sp = do {
     xs \<leftarrow> span_rows tapped sp;
     Some (pool_rows T xs after_block sp)
   }"

definition span_ok :: "u32 list \<Rightarrow> nat \<times> nat \<Rightarrow> bool" where
  "span_ok tokens sp \<longleftrightarrow> snd sp \<le> length tokens \<and> fst sp < snd sp"

definition forward_capture ::
  "tensor_ops \<Rightarrow> 'c causal_lm \<Rightarrow> u32 list \<Rightarrow> nat \<Rightarrow> nat \<times> nat \<Rightarrow> ((rows \<times> capture) \<times> 'c causal_lm) option" where
  "forward_capture T m tokens after_block sp =
     (if \<not> span_ok tokens sp then None
      else do {
        (logits, m', edit) \<leftarrow> lm_forward_with_edit T (lm_clear m) tokens 0 (Some (Capture after_block None));
        tapped \<leftarrow> (case edit of Some (Capture _ out) \<Rightarrow> out | _ \<Rightarrow> None);
        c \<leftarrow> pool_capture T tapped after_block sp;
        Some ((logits, c), m')
      })"

text \<open>The first tap of each requested block; a block that was not tapped is a panic.\<close>

fun tapped_rows :: "(nat \<times> rows) list \<Rightarrow> nat \<Rightarrow> rows option" where
  "tapped_rows [] b = None"
| "tapped_rows ((b', xs) # taps) b = (if b' = b then Some xs else tapped_rows taps b)"

fun option_all :: "('a \<Rightarrow> 'b option) \<Rightarrow> 'a list \<Rightarrow> 'b list option" where
  "option_all f [] = Some []"
| "option_all f (x # xs) = do { y \<leftarrow> f x; ys \<leftarrow> option_all f xs; Some (y # ys) }"

definition forward_taps ::
  "tensor_ops \<Rightarrow> 'c causal_lm \<Rightarrow> u32 list \<Rightarrow> nat list \<Rightarrow> ((rows \<times> (nat \<times> rows) list) \<times> 'c causal_lm) option" where
  "forward_taps T m tokens after_blocks = do {
     (logits, m', edit) \<leftarrow> lm_forward_with_edit T (lm_clear m) tokens 0 (Some (CaptureMany after_blocks []));
     taps \<leftarrow> (case edit of Some (CaptureMany _ out) \<Rightarrow> Some out | _ \<Rightarrow> None);
     Some ((logits, taps), m')
   }"

definition forward_capture_multi ::
  "tensor_ops \<Rightarrow> 'c causal_lm \<Rightarrow> u32 list \<Rightarrow> nat list \<Rightarrow> nat \<times> nat \<Rightarrow> ((rows \<times> capture list) \<times> 'c causal_lm) option" where
  "forward_capture_multi T m tokens after_blocks sp =
     (if \<not> span_ok tokens sp then None
      else do {
        ((logits, taps), m') \<leftarrow> forward_taps T m tokens after_blocks;
        cs \<leftarrow> option_all (\<lambda>b. do { xs \<leftarrow> tapped_rows taps b; pool_capture T xs b sp }) after_blocks;
        Some ((logits, cs), m')
      })"

definition forward_capture_multi_with_rows ::
  "tensor_ops \<Rightarrow> 'c causal_lm \<Rightarrow> u32 list \<Rightarrow> nat list \<Rightarrow> nat \<times> nat \<Rightarrow>
    ((rows \<times> (capture \<times> f32 list) list) \<times> 'c causal_lm) option" where
  "forward_capture_multi_with_rows T m tokens after_blocks sp =
     (if \<not> span_ok tokens sp then None
      else do {
        ((logits, taps), m') \<leftarrow> forward_taps T m tokens after_blocks;
        cs \<leftarrow> option_all (\<lambda>b. do {
          xs \<leftarrow> tapped_rows taps b;
          ys \<leftarrow> span_rows xs sp;
          Some (pool_rows T ys b sp, concat ys) }) after_blocks;
        Some ((logits, cs), m')
      })"

definition forward_unpatched :: "tensor_ops \<Rightarrow> 'c causal_lm \<Rightarrow> u32 list \<Rightarrow> (rows \<times> 'c causal_lm) option" where
  "forward_unpatched T m tokens = lm_forward T (lm_clear m) tokens 0"

text \<open>The payload of a NaN is not represented: two NaNs count as identical here.\<close>

definition logits_bit_identical :: "rows \<Rightarrow> rows \<Rightarrow> bool" where
  "logits_bit_identical a b \<longleftrightarrow> map f32_bits (concat a) = map f32_bits (concat b)"

section \<open>Injections\<close>

datatype injection_mode = OverwriteMode | FuseMode

record injection_spec =
  in_after_block :: nat
  in_positions :: "nat list"
  in_vector :: "f32 list"
  in_scale :: "f32 option"
  in_mode :: injection_mode

definition effective_vector :: "injection_spec \<Rightarrow> f32 list" where
  "effective_vector s = (let c = (case in_scale s of None \<Rightarrow> f_one | Some c \<Rightarrow> c) in map (\<lambda>x. f_mul x c) (in_vector s))"

definition vectors_tensor :: "injection_spec \<Rightarrow> rows" where
  "vectors_tensor s = replicate (max (length (in_positions s)) 1) (effective_vector s)"

definition spec_edit :: "injection_spec \<Rightarrow> layer_edit" where
  "spec_edit s = (case in_mode s of
      OverwriteMode \<Rightarrow> Inject (in_after_block s) (in_positions s) (vectors_tensor s)
    | FuseMode \<Rightarrow> Fuse (in_after_block s) (in_positions s) (vectors_tensor s))"

definition prefill_with_injection ::
  "tensor_ops \<Rightarrow> 'c causal_lm \<Rightarrow> u32 list \<Rightarrow> injection_spec option \<Rightarrow> (rows \<times> 'c causal_lm) option" where
  "prefill_with_injection T m tokens spec =
     (case spec of
        None \<Rightarrow> lm_forward T (lm_clear m) tokens 0
      | Some s \<Rightarrow> map_option (\<lambda>(logits, m', _). (logits, m')) (lm_forward_with_edit T (lm_clear m) tokens 0 (Some (spec_edit s))))"

text \<open>The sum over the targets: row \<open>p\<close> of the logits predicts token \<open>p + 1\<close>.\<close>

fun nll_sum :: "rows \<Rightarrow> u32 list \<Rightarrow> f32 \<Rightarrow> f32 option" where
  "nll_sum (r # rs) (t # ts) nll = (if unat t < length r then nll_sum rs ts (f_sub nll (r ! unat t)) else None)"
| "nll_sum _ _ nll = Some nll"

definition teacher_forced_nll ::
  "tensor_ops \<Rightarrow> 'c causal_lm \<Rightarrow> u32 list \<Rightarrow> nat \<times> nat \<Rightarrow> injection_spec option \<Rightarrow> (f32 \<times> 'c causal_lm) option" where
  "teacher_forced_nll T m tokens sp spec =
     (if \<not> (1 \<le> fst sp \<and> snd sp \<le> length tokens) \<or> snd sp < fst sp then None
      else do {
        (logits, m', _) \<leftarrow> lm_full_logits T (lm_clear m) tokens 0 (map_option spec_edit spec);
        xs \<leftarrow> narrow (fst sp - 1) (snd sp - fst sp) logits;
        nll \<leftarrow> nll_sum (map (tn_log_softmax T) xs) (take (snd sp - fst sp) (drop (fst sp) tokens)) f_zero;
        Some (f_div nll (f32_of (of_nat (snd sp - fst sp))), m')
      })"

section \<open>Taps do not disturb the pass\<close>

text \<open>The pass with the residual after each block, as the taps see it, and without an edit: the reference.\<close>

fun run_trace ::
  "tensor_ops \<Rightarrow> residual_lora option \<Rightarrow> rows option \<Rightarrow> nat \<Rightarrow> nat \<Rightarrow> 'c decoder_layer list \<Rightarrow> rows \<Rightarrow>
    (rows \<times> 'c decoder_layer list \<times> (nat \<times> rows) list) option" where
  "run_trace T lora att offset i [] xs = Some (xs, [], [])"
| "run_trace T lora att offset i (l # ls) xs = do {
     (ys, l') \<leftarrow> decoder_forward T l xs att offset;
     zs \<leftarrow> adapter_step T lora (Suc i) ys;
     (zs, ls', taps) \<leftarrow> run_trace T lora att offset (Suc i) ls zs;
     Some (zs, l' # ls', (Suc i, ys) # taps)
   }"

definition lm_trace ::
  "tensor_ops \<Rightarrow> 'c causal_lm \<Rightarrow> u32 list \<Rightarrow> nat \<Rightarrow> (rows \<times> 'c causal_lm \<times> (nat \<times> rows) list) option" where
  "lm_trace T m tokens offset = do {
     xs \<leftarrow> qm_embed (lm_base m) tokens;
     (ys, layers, taps) \<leftarrow> run_trace T (qm_lora (lm_base m))
       (if length tokens \<le> 1 then None else Some (causal_mask T (qm_sliding_window (lm_base m)) (length tokens) offset))
       offset 0 (qm_layers (lm_base m)) xs;
     zs \<leftarrow> qm_norm (lm_base m) ys;
     row \<leftarrow> (if tokens = [] then None else narrow (length tokens - 1) 1 zs);
     logits \<leftarrow> lm_head m row;
     Some (logits, m\<lparr> lm_base := (lm_base m)\<lparr> qm_layers := layers \<rparr> \<rparr>, taps)
   }"

lemma trace_indices: "run_trace T lora att offset i ls xs = Some (zs, ls', taps) \<Longrightarrow> b \<le> i \<Longrightarrow> tapped_rows taps b = None"
  by (induction ls arbitrary: i xs zs ls' taps) (fastforce split: bind_splits prod.splits)+

lemma run_layers_None:
  "run_layers T lora att offset i ls xs None =
    map_option (\<lambda>(zs, ls', taps). (zs, ls', None)) (run_trace T lora att offset i ls xs)"
proof (induction ls arbitrary: i xs)
  case (Cons l ls)
  show ?case
  proof (cases "decoder_forward T l xs att offset")
    case (Some d)
    obtain ys l' where d: "d = (ys, l')" by fastforce
    show ?thesis
      by (cases "adapter_step T lora (Suc i) ys"; cases "run_trace T lora att offset (Suc i) ls (the (adapter_step T lora (Suc i) ys))")
        (auto simp: Some d edit_step_def Cons.IH)
  qed simp
qed simp

lemma run_layers_Capture:
  "run_layers T lora att offset i ls xs (Some (Capture b out)) =
    map_option (\<lambda>(zs, ls', taps). (zs, ls', Some (Capture b (case tapped_rows taps b of None \<Rightarrow> out | Some r \<Rightarrow> Some r))))
      (run_trace T lora att offset i ls xs)"
proof (induction ls arbitrary: i xs out b)
  case (Cons l ls)
  show ?case
  proof (cases "decoder_forward T l xs att offset")
    case (Some d)
    obtain ys l' where d: "d = (ys, l')" by fastforce
    show ?thesis
      using trace_indices[of T lora att offset "Suc i" ls "the (adapter_step T lora (Suc i) ys)" _ _ _ "Suc i"]
      by (cases "adapter_step T lora (Suc i) ys"; cases "run_trace T lora att offset (Suc i) ls (the (adapter_step T lora (Suc i) ys))")
        (auto simp: Some d edit_step_def Cons.IH)
  qed simp
qed simp

lemma run_layers_CaptureMany:
  "run_layers T lora att offset i ls xs (Some (CaptureMany bs out)) =
    map_option (\<lambda>(zs, ls', taps). (zs, ls', Some (CaptureMany bs (out @ filter (\<lambda>t. fst t \<in> set bs) taps))))
      (run_trace T lora att offset i ls xs)"
proof (induction ls arbitrary: i xs out)
  case (Cons l ls)
  show ?case
  proof (cases "decoder_forward T l xs att offset")
    case (Some d)
    obtain ys l' where d: "d = (ys, l')" by fastforce
    show ?thesis
      by (cases "adapter_step T lora (Suc i) ys"; cases "run_trace T lora att offset (Suc i) ls (the (adapter_step T lora (Suc i) ys))")
        (auto simp: Some d edit_step_def Cons.IH)
  qed simp
qed simp

lemma tapped_rows_filter: "b \<in> set bs \<Longrightarrow> tapped_rows (filter (\<lambda>t. fst t \<in> set bs) taps) b = tapped_rows taps b"
  by (induction taps b rule: tapped_rows.induct) auto

text \<open>A pass with a tap is the reference with what the tap collects.\<close>

lemma lm_forward_trace:
  assumes "\<And>att xs. run_layers T (qm_lora (lm_base m)) att offset 0 (qm_layers (lm_base m)) xs edit =
      map_option (\<lambda>(zs, ls', taps). (zs, ls', g taps)) (run_trace T (qm_lora (lm_base m)) att offset 0 (qm_layers (lm_base m)) xs)"
  shows "lm_forward_with_edit T m tokens offset edit =
    map_option (\<lambda>(logits, m', taps). (logits, m', g taps)) (lm_trace T m tokens offset)"
proof (cases "qm_embed (lm_base m) tokens")
  case None
  then show ?thesis by (simp add: lm_forward_with_edit_def model_forward_def lm_trace_def)
next
  case (Some xs)
  let ?r = "run_trace T (qm_lora (lm_base m))
    (if length tokens \<le> 1 then None else Some (causal_mask T (qm_sliding_window (lm_base m)) (length tokens) offset))
    offset 0 (qm_layers (lm_base m)) xs"
  show ?thesis
  proof (cases ?r)
    case None
    then show ?thesis by (simp add: Some lm_forward_with_edit_def model_forward_def lm_trace_def assms)
  next
    case (Some r)
    obtain ys layers taps where r: "r = (ys, layers, taps)" by (cases r) auto
    show ?thesis
      using Some \<open>qm_embed (lm_base m) tokens = Some xs\<close> r
      by (auto simp: lm_forward_with_edit_def model_forward_def lm_trace_def assms split: bind_split)
  qed
qed

lemma lm_forward_None:
  "lm_forward_with_edit T m tokens offset None =
    map_option (\<lambda>(logits, m', taps). (logits, m', None)) (lm_trace T m tokens offset)"
  by (rule lm_forward_trace) (rule run_layers_None)

lemma lm_forward_Capture:
  "lm_forward_with_edit T m tokens offset (Some (Capture b None)) =
    map_option (\<lambda>(logits, m', taps). (logits, m', Some (Capture b (tapped_rows taps b)))) (lm_trace T m tokens offset)"
proof (rule lm_forward_trace)
  have id: "(case r of None \<Rightarrow> None | Some x \<Rightarrow> Some x) = r" for r :: "rows option" by (cases r) simp_all
  show "run_layers T (qm_lora (lm_base m)) att offset 0 (qm_layers (lm_base m)) xs (Some (Capture b None)) =
      map_option (\<lambda>(zs, ls', taps). (zs, ls', Some (Capture b (tapped_rows taps b))))
        (run_trace T (qm_lora (lm_base m)) att offset 0 (qm_layers (lm_base m)) xs)" for att xs
    by (simp add: run_layers_Capture id)
qed

lemma lm_forward_CaptureMany:
  "lm_forward_with_edit T m tokens offset (Some (CaptureMany bs [])) =
    map_option (\<lambda>(logits, m', taps). (logits, m', Some (CaptureMany bs (filter (\<lambda>t. fst t \<in> set bs) taps))))
      (lm_trace T m tokens offset)"
  by (rule lm_forward_trace) (simp add: run_layers_CaptureMany)

lemma option_all_nth: "option_all f xs = Some ys \<longleftrightarrow> length ys = length xs \<and> (\<forall>i<length xs. f (xs ! i) = Some (ys ! i))"
proof (induction xs arbitrary: ys)
  case (Cons x xs)
  show ?case
  proof (cases ys)
    case (Cons y ys')
    then show ?thesis using Cons.IH[of ys'] by (auto simp: bind_eq_Some_conv less_Suc_eq_0_disj)
  qed (auto simp: bind_eq_Some_conv)
qed auto

text \<open>C29. Taps are read-only: a pass with captures returns the very logits of the unpatched pass and leaves the same caches;
  and one pass with several taps returns for each block the capture that a pass of its own returns.\<close>

theorem captures_read_only:
  assumes "forward_capture_multi T m tokens bs sp = Some ((logits, cs), m')"
  shows "forward_unpatched T m tokens = Some (logits, m') \<and>
    length cs = length bs \<and>
    (\<forall>i<length bs. forward_capture T m tokens (bs ! i) sp = Some ((logits, cs ! i), m'))"
proof -
  have sp: "span_ok tokens sp" using assms by (simp add: forward_capture_multi_def split: if_splits)
  obtain taps where trace: "lm_trace T (lm_clear m) tokens 0 = Some (logits, m', taps)"
    and cs: "option_all (\<lambda>b. do { xs \<leftarrow> tapped_rows (filter (\<lambda>t. fst t \<in> set bs) taps) b; pool_capture T xs b sp }) bs = Some cs"
    using assms sp by (auto simp: forward_capture_multi_def forward_taps_def lm_forward_CaptureMany bind_eq_Some_conv)
  have "forward_capture T m tokens (bs ! i) sp = Some ((logits, cs ! i), m')" if "i < length bs" for i
  proof -
    have "do { xs \<leftarrow> tapped_rows (filter (\<lambda>t. fst t \<in> set bs) taps) (bs ! i); pool_capture T xs (bs ! i) sp } = Some (cs ! i)"
      using cs that by (simp add: option_all_nth)
    then show ?thesis using that sp
      by (auto simp: forward_capture_def lm_forward_Capture trace tapped_rows_filter bind_eq_Some_conv)
  qed
  moreover have "forward_unpatched T m tokens = Some (logits, m')"
    by (simp add: forward_unpatched_def lm_forward_def lm_forward_None trace)
  moreover have "length cs = length bs" using cs by (simp add: option_all_nth)
  ultimately show ?thesis by simp
qed

section \<open>Where an injection lands\<close>

fun edit_block :: "layer_edit \<Rightarrow> nat option" where
  "edit_block (Inject b _ _) = Some b"
| "edit_block (Fuse b _ _) = Some b"
| "edit_block _ = None"

lemma apply_edit_other: "edit_block e = Some b \<Longrightarrow> b \<noteq> n \<Longrightarrow> apply_edit T xs n e = Some (xs, e)"
  by (cases e) simp_all

lemma apply_edit_same: "edit_block e = Some b \<Longrightarrow> apply_edit T xs b e = Some (ys, e') \<Longrightarrow> e' = e"
  by (cases e) auto

lemma run_layers_outside:
  assumes "edit_block e = Some b" and "b \<le> i \<or> i + length ls < b"
  shows "run_layers T lora att offset i ls xs (Some e) =
    map_option (\<lambda>(zs, ls', taps). (zs, ls', Some e)) (run_trace T lora att offset i ls xs)"
  using assms(2)
proof (induction ls arbitrary: i xs)
  case (Cons l ls)
  have other: "apply_edit T ys (Suc i) e = Some (ys, e)" for ys using Cons.prems assms(1) by (intro apply_edit_other) auto
  have IH: "run_layers T lora att offset (Suc i) ls ys (Some e) =
      map_option (\<lambda>(zs, ls', taps). (zs, ls', Some e)) (run_trace T lora att offset (Suc i) ls ys)" for ys
    using Cons.prems by (intro Cons.IH) auto
  show ?case
  proof (cases "decoder_forward T l xs att offset")
    case (Some d)
    obtain ys l' where d: "d = (ys, l')" by fastforce
    show ?thesis
      by (cases "adapter_step T lora (Suc i) ys"; cases "run_trace T lora att offset (Suc i) ls (the (adapter_step T lora (Suc i) ys))")
        (auto simp: Some d edit_step_def other IH)
  qed simp
qed simp

text \<open>What follows the residual after block \<open>b\<close>: its adapter and the blocks behind it, without an edit.\<close>

definition resume_layers ::
  "tensor_ops \<Rightarrow> residual_lora option \<Rightarrow> rows option \<Rightarrow> nat \<Rightarrow> nat \<Rightarrow> 'c decoder_layer list \<Rightarrow> rows \<Rightarrow>
    (rows \<times> 'c decoder_layer list) option" where
  "resume_layers T lora att offset b ls xs = do {
     ys \<leftarrow> adapter_step T lora b xs;
     map_option (\<lambda>(zs, ls', taps). (zs, ls')) (run_trace T lora att offset b ls ys)
   }"

lemma run_layers_at:
  assumes "edit_block e = Some b" and "i < b" and "b \<le> i + length ls"
    and "run_trace T lora att offset i ls xs = Some (z0, l0, taps)"
    and "run_layers T lora att offset i ls xs (Some e) = Some (z1, l1, e1)"
  shows "\<exists>r ys. tapped_rows taps b = Some r \<and> apply_edit T r b e = Some (ys, e) \<and> take (b - i) l1 = take (b - i) l0 \<and>
    resume_layers T lora att offset b (drop (b - i) ls) r = Some (z0, drop (b - i) l0) \<and>
    resume_layers T lora att offset b (drop (b - i) ls) ys = Some (z1, drop (b - i) l1)"
  using assms(2-5)
proof (induction ls arbitrary: i xs z0 l0 taps z1 l1)
  case (Cons l ls)
  obtain ys l' where d: "decoder_forward T l xs att offset = Some (ys, l')"
    using Cons.prems(3) by (auto simp: bind_eq_Some_conv)
  obtain us l0' taps' where t: "adapter_step T lora (Suc i) ys = Some us" "run_trace T lora att offset (Suc i) ls us = Some (z0, l0', taps')"
    "l0 = l' # l0'" "taps = (Suc i, ys) # taps'"
    using Cons.prems(3) by (auto simp: d bind_eq_Some_conv)
  show ?case
  proof (cases "b = Suc i")
    case True
    obtain vs e' ws l1' where a: "apply_edit T ys b e = Some (vs, e')" "adapter_step T lora (Suc i) vs = Some ws"
      "run_layers T lora att offset (Suc i) ls ws (Some e') = Some (z1, l1', e1)" "l1 = l' # l1'"
      using Cons.prems(4) True by (auto simp: d edit_step_def bind_eq_Some_conv)
    have e': "e' = e" using apply_edit_same[OF assms(1) a(1)] .
    have "\<exists>taps. run_trace T lora att offset (Suc i) ls ws = Some (z1, l1', taps)"
      using a(3) run_layers_outside[OF assms(1), of "Suc i" ls T lora att offset ws] True unfolding e' by auto
    then have "resume_layers T lora att offset b ls vs = Some (z1, l1')" using a(2) True by (auto simp: resume_layers_def)
    moreover have "resume_layers T lora att offset b ls ys = Some (z0, l0')" using t(1,2) True by (simp add: resume_layers_def)
    ultimately show ?thesis using a(1,4) True e' by (simp add: t(3,4))
  next
    case False
    then have other: "apply_edit T ys (Suc i) e = Some (ys, e)" using assms(1) by (intro apply_edit_other) auto
    obtain l1' where r: "run_layers T lora att offset (Suc i) ls us (Some e) = Some (z1, l1', e1)" and l1: "l1 = l' # l1'"
      using Cons.prems(4) t(1) by (auto simp: d edit_step_def other bind_eq_Some_conv)
    have less: "Suc i < b" "b \<le> Suc i + length ls" using Cons.prems(1,2) False by simp_all
    have step: "b - i = Suc (b - Suc i)" using less by simp
    show ?thesis using Cons.IH[OF less t(2) r] False by (simp add: step t(3,4) l1)
  qed
qed simp

lemma edit_rows_effect:
  assumes "edit_rows T f vectors i ps xs = Some ys" and "distinct ps"
  shows "length ys = length xs \<and> (\<forall>p. p \<notin> set ps \<longrightarrow> ys ! p = xs ! p) \<and>
    (\<forall>k<length ps. ps ! k < length xs \<and> ys ! (ps ! k) = f (xs ! (ps ! k)) (map (tn_cast T) (vectors ! (i + k))))"
  using assms
proof (induction ps arbitrary: i xs)
  case (Cons p ps)
  let ?xs = "xs[p := f (xs ! p) (map (tn_cast T) (vectors ! i))]"
  have p: "p < length xs" and r: "edit_rows T f vectors (Suc i) ps ?xs = Some ys" "distinct ps" "p \<notin> set ps"
    using Cons.prems by (auto split: if_splits)
  note IH = Cons.IH[OF r(1,2)]
  have "(p # ps) ! k < length xs \<and> ys ! ((p # ps) ! k) = f (xs ! ((p # ps) ! k)) (map (tn_cast T) (vectors ! (i + k)))"
    if "k < length (p # ps)" for k
  proof (cases k)
    case 0
    then show ?thesis using IH p r(3) by simp
  next
    case (Suc j)
    then have "ps ! j \<noteq> p" "j < length ps" using that r(3) by auto
    then show ?thesis using IH Suc by simp
  qed
  then show ?case using IH by auto
qed simp

text \<open>What the payload makes of a row.\<close>

definition injected_row :: "tensor_ops \<Rightarrow> injection_spec \<Rightarrow> f32 list \<Rightarrow> f32 list" where
  "injected_row T s r = (let v = map (tn_cast T) (effective_vector s) in
     case in_mode s of OverwriteMode \<Rightarrow> v | FuseMode \<Rightarrow> add_row T r v)"

lemma spec_edit_rows:
  assumes "apply_edit T xs (in_after_block s) (spec_edit s) = Some (ys, e)" and "distinct (in_positions s)"
  shows "length ys = length xs \<and> (\<forall>p<length xs. ys ! p = (if p \<in> set (in_positions s) then injected_row T s (xs ! p) else xs ! p))"
proof -
  let ?f = "case in_mode s of OverwriteMode \<Rightarrow> \<lambda>_ v. v | FuseMode \<Rightarrow> add_row T"
  have "edit_rows T ?f (vectors_tensor s) 0 (in_positions s) xs = Some ys"
    using assms(1) by (cases "in_mode s") (auto simp: spec_edit_def)
  note eff = edit_rows_effect[OF this assms(2)]
  have "ys ! p = injected_row T s (xs ! p)" if p: "p \<in> set (in_positions s)" for p
  proof -
    obtain k where k: "k < length (in_positions s)" "in_positions s ! k = p" using p by (metis in_set_conv_nth)
    then have "vectors_tensor s ! (0 + k) = effective_vector s" by (simp add: vectors_tensor_def)
    then have "ys ! p = ?f (xs ! p) (map (tn_cast T) (effective_vector s))" using eff k by metis
    then show ?thesis by (cases "in_mode s") (simp_all add: injected_row_def)
  qed
  then show ?thesis using eff by auto
qed

lemma spec_edit_block: "edit_block (spec_edit s) = Some (in_after_block s)"
  by (cases "in_mode s") (simp_all add: spec_edit_def)

text \<open>A pass taken up again after its first blocks, \<open>finished\<close> with their caches, from the residual behind them: the
  remaining blocks, the norm and the head on the last position.\<close>

definition lm_attention :: "tensor_ops \<Rightarrow> 'c causal_lm \<Rightarrow> u32 list \<Rightarrow> nat \<Rightarrow> rows option" where
  "lm_attention T m tokens offset =
     (if length tokens \<le> 1 then None else Some (causal_mask T (qm_sliding_window (lm_base m)) (length tokens) offset))"

definition lm_finish :: "'c causal_lm \<Rightarrow> u32 list \<Rightarrow> rows \<Rightarrow> rows option" where
  "lm_finish m tokens ys = do {
     zs \<leftarrow> qm_norm (lm_base m) ys;
     row \<leftarrow> (if tokens = [] then None else narrow (length tokens - 1) 1 zs);
     lm_head m row
   }"

definition lm_resume ::
  "tensor_ops \<Rightarrow> 'c causal_lm \<Rightarrow> u32 list \<Rightarrow> nat \<Rightarrow> 'c decoder_layer list \<Rightarrow> rows \<Rightarrow> (rows \<times> 'c causal_lm) option" where
  "lm_resume T m tokens offset finished xs = do {
     (ys, layers) \<leftarrow> resume_layers T (qm_lora (lm_base m)) (lm_attention T m tokens offset) offset (length finished)
       (drop (length finished) (qm_layers (lm_base m))) xs;
     logits \<leftarrow> lm_finish m tokens ys;
     Some (logits, m\<lparr> lm_base := (lm_base m)\<lparr> qm_layers := finished @ layers \<rparr> \<rparr>)
   }"

lemma lm_trace_layers:
  assumes "lm_trace T m tokens offset = Some (logits, m', taps)"
  obtains xs ys where "qm_embed (lm_base m) tokens = Some xs"
    and "run_trace T (qm_lora (lm_base m)) (lm_attention T m tokens offset)
      offset 0 (qm_layers (lm_base m)) xs = Some (ys, qm_layers (lm_base m'), taps)"
    and "lm_finish m tokens ys = Some logits" and "m' = m\<lparr> lm_base := (lm_base m)\<lparr> qm_layers := qm_layers (lm_base m') \<rparr> \<rparr>"
  using assms by (auto simp: lm_trace_def lm_finish_def lm_attention_def bind_eq_Some_conv split: prod.splits)

lemma lm_edit_layers:
  assumes "lm_forward_with_edit T m tokens offset edit = Some (logits, m', edit')" and "qm_embed (lm_base m) tokens = Some xs"
  obtains ys where "run_layers T (qm_lora (lm_base m)) (lm_attention T m tokens offset)
      offset 0 (qm_layers (lm_base m)) xs edit = Some (ys, qm_layers (lm_base m'), edit')"
    and "lm_finish m tokens ys = Some logits" and "m' = m\<lparr> lm_base := (lm_base m)\<lparr> qm_layers := qm_layers (lm_base m') \<rparr> \<rparr>"
  using assms
  by (auto simp: lm_forward_with_edit_def model_forward_def lm_finish_def lm_attention_def Let_def bind_eq_Some_conv
      split: prod.splits)

lemma lm_resumed:
  assumes "resume_layers T (qm_lora (lm_base m)) (lm_attention T m tokens offset) offset k (drop k (qm_layers (lm_base m))) xs =
      Some (ys, drop k ls)"
    and "lm_finish m tokens ys = Some logits" and "take k ls = finished" and "length finished = k"
    and "m' = m\<lparr> lm_base := (lm_base m)\<lparr> qm_layers := ls \<rparr> \<rparr>"
  shows "lm_resume T m tokens offset finished xs = Some (logits, m')"
  using assms append_take_drop_id[of k ls] by (auto simp: lm_resume_def)

lemma run_trace_length: "run_trace T lora att offset i ls xs = Some (zs, ls', taps) \<Longrightarrow> length ls' = length ls"
  by (induction ls arbitrary: i xs zs ls' taps) (auto simp: bind_eq_Some_conv)

text \<open>C30. An injection, with no slot named twice, touches exactly its slots and what follows its block. Where both passes return,
  the pass with the injection agrees with the
  pass without it in the caches of all blocks up to the injected one; there the residual, the one that the uninjected pass
  has, keeps every row outside the slots, and a slot becomes the scaled payload or the sum with it. Everything behind is
  what the remaining blocks, the norm and the head make of that residual: resumed from the residual as it was, they give
  the logits and the caches of the uninjected pass, and resumed from the edited one those of the injected pass. A block
  beyond the last one makes the injection vanish without an error.\<close>

theorem injection_lands:
  assumes "prefill_with_injection T m tokens None = Some (l0, m0)"
    and "prefill_with_injection T m tokens (Some s) = Some (l1, m1)" and "distinct (in_positions s)"
  shows "take (in_after_block s) (qm_layers (lm_base m1)) = take (in_after_block s) (qm_layers (lm_base m0)) \<and>
    (if 1 \<le> in_after_block s \<and> in_after_block s \<le> length (qm_layers (lm_base m)) then
      \<exists>taps xs ys. lm_trace T (lm_clear m) tokens 0 = Some (l0, m0, taps) \<and> tapped_rows taps (in_after_block s) = Some xs \<and>
        apply_edit T xs (in_after_block s) (spec_edit s) = Some (ys, spec_edit s) \<and> length ys = length xs \<and>
        (\<forall>p<length xs. ys ! p = (if p \<in> set (in_positions s) then injected_row T s (xs ! p) else xs ! p)) \<and>
        lm_resume T (lm_clear m) tokens 0 (take (in_after_block s) (qm_layers (lm_base m0))) xs = Some (l0, m0) \<and>
        lm_resume T (lm_clear m) tokens 0 (take (in_after_block s) (qm_layers (lm_base m0))) ys = Some (l1, m1)
     else (l1, m1) = (l0, m0))"
proof -
  let ?k = "in_after_block s" and ?m = "lm_clear m" and ?e = "spec_edit s"
  obtain taps where t: "lm_trace T ?m tokens 0 = Some (l0, m0, taps)"
    using assms(1) by (auto simp: prefill_with_injection_def lm_forward_def lm_forward_None)
  obtain e' where f: "lm_forward_with_edit T ?m tokens 0 (Some ?e) = Some (l1, m1, e')"
    using assms(2) by (auto simp: prefill_with_injection_def)
  have len: "length (qm_layers (lm_base ?m)) = length (qm_layers (lm_base m))" by (simp add: lm_clear_def clear_kv_cache_def)
  show ?thesis
  proof (cases "1 \<le> ?k \<and> ?k \<le> length (qm_layers (lm_base m))")
    case True
    obtain xs ys where r0: "qm_embed (lm_base ?m) tokens = Some xs"
      "run_trace T (qm_lora (lm_base ?m)) (lm_attention T ?m tokens 0) 0 0 (qm_layers (lm_base ?m)) xs =
        Some (ys, qm_layers (lm_base m0), taps)"
      "lm_finish ?m tokens ys = Some l0" "m0 = ?m\<lparr> lm_base := (lm_base ?m)\<lparr> qm_layers := qm_layers (lm_base m0) \<rparr> \<rparr>"
      by (rule lm_trace_layers[OF t])
    obtain zs where r1: "run_layers T (qm_lora (lm_base ?m)) (lm_attention T ?m tokens 0) 0 0 (qm_layers (lm_base ?m)) xs (Some ?e) =
        Some (zs, qm_layers (lm_base m1), e')"
      "lm_finish ?m tokens zs = Some l1" "m1 = ?m\<lparr> lm_base := (lm_base ?m)\<lparr> qm_layers := qm_layers (lm_base m1) \<rparr> \<rparr>"
      by (rule lm_edit_layers[OF f r0(1)])
    have "0 < ?k" "?k \<le> 0 + length (qm_layers (lm_base ?m))" using True len by simp_all
    from run_layers_at[OF spec_edit_block this r0(2) r1(1)] obtain r us where *:
      "tapped_rows taps ?k = Some r" "apply_edit T r ?k ?e = Some (us, ?e)"
      "take ?k (qm_layers (lm_base m1)) = take ?k (qm_layers (lm_base m0))"
      "resume_layers T (qm_lora (lm_base ?m)) (lm_attention T ?m tokens 0) 0 ?k (drop ?k (qm_layers (lm_base ?m))) r =
        Some (ys, drop ?k (qm_layers (lm_base m0)))"
      "resume_layers T (qm_lora (lm_base ?m)) (lm_attention T ?m tokens 0) 0 ?k (drop ?k (qm_layers (lm_base ?m))) us =
        Some (zs, drop ?k (qm_layers (lm_base m1)))" by auto
    have k: "length (take ?k (qm_layers (lm_base m0))) = ?k" using run_trace_length[OF r0(2)] True len by simp
    show ?thesis
      using True t * spec_edit_rows[OF *(2) assms(3)] lm_resumed[OF *(4) r0(3) refl k r0(4)] lm_resumed[OF *(5) r1(2) *(3) k r1(3)]
      by simp
  next
    case False
    then have "?k \<le> 0 \<or> 0 + length (qm_layers (lm_base ?m)) < ?k" using len by auto
    then have "lm_forward_with_edit T ?m tokens 0 (Some ?e) = map_option (\<lambda>(l, m', taps). (l, m', Some ?e)) (lm_trace T ?m tokens 0)"
      by (intro lm_forward_trace run_layers_outside[OF spec_edit_block])
    then have "(l1, m1) = (l0, m0)" using f t by simp
    then show ?thesis using False by auto
  qed
qed

section \<open>A small decoder\<close>

definition demo_ops :: tensor_ops where
  "demo_ops = \<lparr> tn_cast = \<lambda>x. x, tn_matmul = \<lambda>a b. Some a, tn_scale = \<lambda>c x. x, tn_mean = hd, tn_l2 = hd, tn_log_softmax = \<lambda>r. r \<rparr>"

definition demo_layer :: "nat decoder_layer" where
  "demo_layer = \<lparr> dl_input_norm = Some, dl_attention = \<lambda>xs _ _ _. Some (xs, Some (length xs)), dl_post_norm = Some,
     dl_mlp = Some, dl_cache = None \<rparr>"

definition demo_lm :: "nat causal_lm" where
  "demo_lm = \<lparr> lm_base = \<lparr> qm_embed = \<lambda>ts. Some (map (\<lambda>_. [f_zero]) ts), qm_layers = [demo_layer, demo_layer], qm_norm = Some,
     qm_sliding_window = 8, qm_lora = None \<rparr>, lm_head = Some \<rparr>"

definition demo_injection :: injection_spec where
  "demo_injection = \<lparr> in_after_block = 1, in_positions = [0], in_vector = [Inf False], in_scale = None, in_mode = FuseMode \<rparr>"

lemmas demo_defs = demo_ops_def demo_layer_def demo_lm_def demo_injection_def lm_clear_def clear_kv_cache_def Let_def
  lm_forward_with_edit_def model_forward_def decoder_forward_def edit_step_def adapter_step_def add_rows_def add_row_def narrow_def

lemma zero_sum [simp]: "f_add f_zero f_zero = f_zero"
  by (simp add: fp_round_def)

theorem captures_read_only_witness:
  "\<exists>logits cs m'. forward_capture_multi demo_ops demo_lm [7] [2, 1] (0, 1) = Some ((logits, cs), m') \<and>
    forward_unpatched demo_ops demo_lm [7] = Some (logits, m') \<and>
    forward_capture demo_ops demo_lm [7] 1 (0, 1) = Some ((logits, cs ! 1), m')"
proof -
  have "\<exists>logits cs m'. forward_capture_multi demo_ops demo_lm [7] [2, 1] (0, 1) = Some ((logits, cs), m')"
    by (simp add: forward_capture_multi_def forward_taps_def span_ok_def pool_capture_def span_rows_def demo_defs del: fp_add.simps)
  then obtain logits cs m' where r: "forward_capture_multi demo_ops demo_lm [7] [2, 1] (0, 1) = Some ((logits, cs), m')"
    by blast
  have "1 < length [2, 1 :: nat]" by simp
  then have "forward_capture demo_ops demo_lm [7] ([2, 1] ! 1) (0, 1) = Some ((logits, cs ! 1), m')"
    using captures_read_only[OF r] by blast
  then show ?thesis using r captures_read_only[OF r] by auto
qed

theorem injection_lands_witness:
  "\<exists>l0 m0 l1 m1. prefill_with_injection demo_ops demo_lm [7] None = Some (l0, m0) \<and>
    prefill_with_injection demo_ops demo_lm [7] (Some demo_injection) = Some (l1, m1) \<and> l0 \<noteq> l1 \<and>
    take 1 (qm_layers (lm_base m1)) = take 1 (qm_layers (lm_base m0))"
proof -
  have "\<exists>m0. prefill_with_injection demo_ops demo_lm [7] None = Some ([[f_zero]], m0)"
    by (simp add: prefill_with_injection_def lm_forward_def demo_defs del: fp_add.simps)
  then obtain m0 where r0: "prefill_with_injection demo_ops demo_lm [7] None = Some ([[f_zero]], m0)" by blast
  have "\<exists>m1. prefill_with_injection demo_ops demo_lm [7] (Some demo_injection) = Some ([[Inf False]], m1)"
    by (simp add: prefill_with_injection_def spec_edit_def vectors_tensor_def effective_vector_def demo_defs)
      (simp add: fp_round_def)
  then obtain m1 where r1: "prefill_with_injection demo_ops demo_lm [7] (Some demo_injection) = Some ([[Inf False]], m1)" by blast
  have d: "distinct (in_positions demo_injection)" and k: "in_after_block demo_injection = 1" by (simp_all add: demo_injection_def)
  show ?thesis using injection_lands[OF r0 r1 d] r0 r1 unfolding k by auto
qed

end
