(* ===== verification/Runtime_Generate.thy ===== *)
theory Runtime_Generate
  imports Runtime_Model Sort_By
begin

text \<open>
  \<open>latentmesh-runtime\<close>: the norm statistics of \<open>norms.rs\<close>, the sampler of \<open>sampler.rs\<close> and the generation loop of
  \<open>lib.rs\<close>. The random generator, \<open>exp\<close> and the unstable sort, which leaves the order of equal probabilities open, are
  parameters, as is the tokenizer.
\<close>

section \<open>Norm statistics\<close>

definition norm_l2 :: "libm \<Rightarrow> f32 list \<Rightarrow> f32" where
  "norm_l2 L v = sqrtf L (f_sum (map (\<lambda>x. f_mul x x) v))"

record norm_stats =
  ns_n :: nat
  ns_min :: f32
  ns_p25 :: f32
  ns_median :: f32
  ns_p75 :: f32
  ns_max :: f32
  ns_mean :: f32

text \<open>\<open>as usize\<close> on a binary64 value.\<close>

definition f64_as_usize :: "f64 \<Rightarrow> nat" where
  "f64_as_usize x = nat (fp_to_int 0 (2 ^ 64 - 1) x)"

definition percentile_index :: "nat \<Rightarrow> f64 \<Rightarrow> nat" where
  "percentile_index n q = f64_as_usize (fp_round_away (d_mul (f64_of (of_nat (n - 1))) q))"

definition float_le :: "f32 \<Rightarrow> f32 \<Rightarrow> bool" where
  "float_le a b \<longleftrightarrow> \<not> fp_lt b a"

text \<open>\<open>None\<close> is the panic on an empty sample or on an index out of range.\<close>

definition stats :: "f32 list \<Rightarrow> norm_stats option" where
  "stats vs =
     (let values = sort_by float_le vs; n = length values;
          index = percentile_index n;
          ps = [index (Fin False (1 / 4)), index (Fin False (1 / 2)), index (Fin False (3 / 4))]
      in if vs = [] \<or> \<not> list_all (\<lambda>i. i < n) ps then None
         else Some \<lparr> ns_n = n, ns_min = values ! 0, ns_p25 = values ! (ps ! 0), ns_median = values ! (ps ! 1),
           ns_p75 = values ! (ps ! 2), ns_max = values ! (n - 1),
           ns_mean = f_div (f_sum values) (f32_of (of_nat n)) \<rparr>)"

definition within_band :: "f32 \<Rightarrow> f32 \<Rightarrow> f32 \<Rightarrow> bool" where
  "within_band x natural_median factor \<longleftrightarrow>
     fp_le (f_div natural_median factor) x \<and> fp_le x (f_mul natural_median factor)"

section \<open>The sampler\<close>

datatype sampling = Greedy | TopP f64 f64

record 'r sampler =
  sm_kind :: sampling
  sm_rng :: 'r

record 'r sampling_parts =
  sg_seed :: "u64 \<Rightarrow> 'r"
  sg_unit :: "'r \<Rightarrow> f32 \<times> 'r"
  sg_exp :: "f64 \<Rightarrow> f64"
  sg_sort :: "(u32 \<times> f32) list \<Rightarrow> (u32 \<times> f32) list"

text \<open>What the standard library promises of the sort: a permutation, with the probabilities descending when all of them
  are numbers.\<close>

definition sort_ok :: "'r sampling_parts \<Rightarrow> bool" where
  "sort_ok P \<longleftrightarrow> (\<forall>ps. mset (sg_sort P ps) = mset ps \<and>
     (NaN \<notin> snd ` set ps \<longrightarrow> sorted_wrt (\<lambda>a b. fp_le (snd b) (snd a)) (sg_sort P ps)))"

definition sampler_new :: "'r sampling_parts \<Rightarrow> sampling \<Rightarrow> u64 \<Rightarrow> 'r sampler" where
  "sampler_new P kind seed = \<lparr> sm_kind = kind, sm_rng = sg_seed P seed \<rparr>"

text \<open>\<open>as f32\<close> on a binary64 value.\<close>

fun f64_as_f32 :: "f64 \<Rightarrow> f32" where
  "f64_as_f32 (Fin s m) = fp_round binary32 s (fp_value (Fin s m))"
| "f64_as_f32 x = x"

definition argmax_step :: "f32 list \<Rightarrow> nat \<Rightarrow> nat \<times> f32 \<Rightarrow> nat" where
  "argmax_step logits best il = (if fp_lt (logits ! best) (snd il) then fst il else best)"

definition argmax :: "f32 list \<Rightarrow> u32" where
  "argmax logits = word_of_nat (foldl (argmax_step logits) 0 (enumerate 0 logits))"

definition softmax_weights :: "'r sampling_parts \<Rightarrow> f32 list \<Rightarrow> f64 \<Rightarrow> (u32 \<times> f32) list" where
  "softmax_weights P logits temperature =
     (let top = foldl fp_max (Inf True) logits
      in map (\<lambda>(i, l). (word_of_nat i, f64_as_f32 (sg_exp P (d_div (f_sub l top) temperature)))) (enumerate 0 logits))"

definition normalized :: "(u32 \<times> f32) list \<Rightarrow> (u32 \<times> f32) list" where
  "normalized ps = map (\<lambda>(i, p). (i, f_div p (f_sum (map snd ps)))) ps"

text \<open>The shortest prefix whose accumulated probability reaches \<open>top_p\<close>, or everything.\<close>

fun nucleus :: "f32 \<Rightarrow> f32 \<Rightarrow> (u32 \<times> f32) list \<Rightarrow> (u32 \<times> f32) list" where
  "nucleus top_p cum [] = []"
| "nucleus top_p cum ((i, p) # ps) =
     (i, p) # (if fp_le top_p (f_add cum p) then [] else nucleus top_p (f_add cum p) ps)"

fun draw_from :: "(u32 \<times> f32) list \<Rightarrow> f32 \<Rightarrow> u32 option" where
  "draw_from [] d = None"
| "draw_from ((i, p) # ps) d = (if fp_le (f_sub d p) f_zero then Some i else draw_from ps (f_sub d p))"

definition draw_id :: "(u32 \<times> f32) list \<Rightarrow> f32 \<Rightarrow> u32" where
  "draw_id ps d =
     (case draw_from ps d of Some i \<Rightarrow> i | None \<Rightarrow> if ps = [] then 0 else fst (last ps))"

definition top_p_nucleus :: "'r sampling_parts \<Rightarrow> f32 list \<Rightarrow> f64 \<Rightarrow> f64 \<Rightarrow> (u32 \<times> f32) list" where
  "top_p_nucleus P logits temperature top_p =
     nucleus (f64_as_f32 top_p) f_zero (sg_sort P (normalized (softmax_weights P logits temperature)))"

definition sample_top_p :: "'r sampling_parts \<Rightarrow> f32 list \<Rightarrow> f64 \<Rightarrow> f64 \<Rightarrow> 'r \<Rightarrow> u32 \<times> 'r" where
  "sample_top_p P logits temperature top_p r =
     (let ps = top_p_nucleus P logits temperature top_p; (u, r') = sg_unit P r
      in (draw_id ps (f_mul u (f_sum (map snd ps))), r'))"

definition sample :: "'r sampling_parts \<Rightarrow> 'r sampler \<Rightarrow> rows \<Rightarrow> u32 \<times> 'r sampler" where
  "sample P s logits =
     (case sm_kind s of
        Greedy \<Rightarrow> (argmax (concat logits), s)
      | TopP temperature top_p \<Rightarrow>
          let (t, r) = sample_top_p P (concat logits) temperature top_p (sm_rng s) in (t, s\<lparr> sm_rng := r \<rparr>))"

definition hash_logits :: "crypto \<Rightarrow> rows \<Rightarrow> bytes" where
  "hash_logits K logits = hex_sha256 K (concat (map f32_to_le_bytes (concat logits)))"

section \<open>Generation\<close>

record tokenizer =
  tk_encode :: "bytes \<Rightarrow> u32 list option"
  tk_decode :: "u32 list \<Rightarrow> bytes option"
  tk_token_to_id :: "bytes \<Rightarrow> u32 option"

fun fp_ceil :: "fp \<Rightarrow> fp" where
  "fp_ceil (Fin s m) = Fin s (of_int (if s then \<lfloor>m\<rfloor> else \<lceil>m\<rceil>))"
| "fp_ceil x = x"

definition layer_at_relative_depth :: "f64 \<Rightarrow> nat \<Rightarrow> nat" where
  "layer_at_relative_depth depth n_layers = f64_as_usize (fp_ceil (d_mul depth (f64_of (of_nat n_layers))))"

definition chat_prompt :: "bytes \<Rightarrow> bytes \<Rightarrow> bytes" where
  "chat_prompt system user =
     ascii ''<|im_start|>system'' @ [newline] @ system @ ascii ''<|im_end|>'' @ [newline] @
     ascii ''<|im_start|>user'' @ [newline] @ user @ ascii ''<|im_end|>'' @ [newline] @
     ascii ''<|im_start|>assistant'' @ [newline]"

definition eos_ids :: "tokenizer \<Rightarrow> u32 list" where
  "eos_ids K = List.map_filter (tk_token_to_id K) [ascii ''<|im_end|>'', ascii ''<|endoftext|>'']"

definition placeholder_positions :: "u32 list \<Rightarrow> u32 \<Rightarrow> nat list" where
  "placeholder_positions tokens placeholder =
     List.map_filter (\<lambda>(i, t). if t = placeholder then Some i else None) (enumerate 0 tokens)"

record generate_output =
  go_tokens :: "u32 list"
  go_text :: bytes
  go_logits_hashes :: "bytes list option"

text \<open>The loop over the at most \<open>n\<close> remaining steps, the next one at position \<open>offset\<close>.\<close>

fun generate_loop ::
  "tensor_ops \<Rightarrow> crypto \<Rightarrow> 'r sampling_parts \<Rightarrow> u32 list \<Rightarrow> bool \<Rightarrow> nat \<Rightarrow> nat \<Rightarrow> rows \<Rightarrow> 'c causal_lm \<Rightarrow> 'r sampler \<Rightarrow>
    u32 list \<Rightarrow> bytes list \<Rightarrow> ((u32 list \<times> bytes list) \<times> 'r sampler \<times> 'c causal_lm) option" where
  "generate_loop T K P eos hash 0 offset logits m s tokens hashes = Some ((tokens, hashes), s, m)"
| "generate_loop T K P eos hash (Suc n) offset logits m s tokens hashes =
     (let hashes = (if hash then hashes @ [hash_logits K logits] else hashes);
          (token, s) = sample P s logits
      in if token \<in> set eos then Some ((tokens, hashes), s, m)
         else do {
           (logits, m) \<leftarrow> lm_forward T m [token] offset;
           generate_loop T K P eos hash n (Suc offset) logits m s (tokens @ [token]) hashes
         })"

definition generate ::
  "tensor_ops \<Rightarrow> crypto \<Rightarrow> 'r sampling_parts \<Rightarrow> tokenizer \<Rightarrow> 'c causal_lm \<Rightarrow> u32 list \<Rightarrow> injection_spec option \<Rightarrow>
    'r sampler \<Rightarrow> nat \<Rightarrow> bool \<Rightarrow> (generate_output \<times> 'r sampler \<times> 'c causal_lm) option" where
  "generate T K P tok m prompt_tokens spec s max_new_tokens hash = do {
     (logits, m) \<leftarrow> prefill_with_injection T m prompt_tokens spec;
     ((tokens, hashes), s, m) \<leftarrow>
       generate_loop T K P (eos_ids tok) hash max_new_tokens (length prompt_tokens) logits m s [] [];
     decoded \<leftarrow> tk_decode tok tokens;
     Some (\<lparr> go_tokens = tokens, go_text = decoded, go_logits_hashes = (if hash then Some hashes else None) \<rparr>, s, m)
   }"

section \<open>What the sampler draws\<close>

lemma u32_of_nat: "n < 2 ^ 32 \<Longrightarrow> unat (word_of_nat n :: u32) = n"
  by (simp add: unsigned_of_nat take_bit_nat_eq_self)

lemma nucleus_prefix: "\<exists>k. nucleus top_p cum ps = take k ps \<and> (ps \<noteq> [] \<longrightarrow> 0 < k)"
proof (induction ps arbitrary: cum)
  case (Cons x ps)
  obtain i p where x: "x = (i, p)" by fastforce
  show ?case
  proof (cases "fp_le top_p (f_add cum p)")
    case True
    then show ?thesis by (intro exI[of _ 1]) (simp add: x)
  next
    case False
    obtain k where "nucleus top_p (f_add cum p) ps = take k ps" using Cons.IH by blast
    then show ?thesis using False by (intro exI[of _ "Suc k"]) (simp add: x)
  qed
qed simp

text \<open>No prefix of the nucleus but all of it reaches \<open>top_p\<close>.\<close>

lemma nucleus_minimal:
  "Suc k < length (nucleus top_p cum ps) \<Longrightarrow>
    \<not> fp_le top_p (foldl f_add cum (map snd (take (Suc k) (nucleus top_p cum ps))))"
proof (induction ps arbitrary: cum k)
  case (Cons x ps)
  obtain i p where x: "x = (i, p)" by fastforce
  then have n: "\<not> fp_le top_p (f_add cum p)" using Cons.prems by auto
  then show ?case using Cons.IH[of _ "f_add cum p"] Cons.prems by (cases k) (auto simp: x)
qed simp

lemma nucleus_reaches:
  "nucleus top_p cum ps \<noteq> ps \<Longrightarrow> fp_le top_p (foldl f_add cum (map snd (nucleus top_p cum ps)))"
proof (induction ps arbitrary: cum)
  case (Cons x ps)
  obtain i p where x: "x = (i, p)" by fastforce
  show ?case using Cons by (auto simp: x split: if_splits)
qed simp

lemma draw_from_in: "draw_from ps d = Some i \<Longrightarrow> i \<in> fst ` set ps"
  by (induction ps d rule: draw_from.induct) (auto split: if_splits)

lemma draw_id_in: "ps \<noteq> [] \<Longrightarrow> draw_id ps d \<in> fst ` set ps"
  by (auto simp: draw_id_def draw_from_in last_in_set split: option.split)

lemma normalized_ids: "map fst (normalized ps) = map fst ps"
  by (simp add: normalized_def comp_def split_def)

lemma softmax_ids: "map fst (softmax_weights P logits t) = map word_of_nat [0..<length logits]"
proof -
  have "map fst (softmax_weights P logits t) = map word_of_nat (map fst (enumerate 0 logits))"
    by (simp add: softmax_weights_def Let_def comp_def split_def del: map_fst_enumerate)
  also have "map fst (enumerate 0 logits) = [0..<length logits]" by simp
  finally show ?thesis .
qed

lemma argmax_step_fold:
  assumes "\<forall>(i, l)\<in>set ils. i < length logits \<and> l = logits ! i" and "best < length logits"
  shows "foldl (argmax_step logits) best ils < length logits"
  using assms by (induction ils arbitrary: best) (auto simp: argmax_step_def)

lemma argmax_bound: "logits \<noteq> [] \<Longrightarrow> foldl (argmax_step logits) 0 (enumerate 0 logits) < length logits"
  by (rule argmax_step_fold) (auto simp: in_set_enumerate_eq)

text \<open>Without a NaN the greedy choice is the first greatest logit.\<close>

lemma argmax_step_first:
  assumes "NaN \<notin> set logits" and "n + k = length logits" and "best < n"
    and "\<forall>j<n. fp_le (logits ! j) (logits ! best)" and "\<forall>j<best. fp_lt (logits ! j) (logits ! best)"
  shows "let b = foldl (argmax_step logits) best (enumerate n (drop n logits)) in
    b < length logits \<and> (\<forall>j<length logits. fp_le (logits ! j) (logits ! b)) \<and> (\<forall>j<b. fp_lt (logits ! j) (logits ! b))"
  using assms(2-5)
proof (induction k arbitrary: n best)
  case (Suc k)
  have n: "n < length logits" using Suc.prems(1) by simp
  have nan: "logits ! j \<noteq> NaN" if "j < length logits" for j using assms(1) that nth_mem by metis
  have d: "enumerate n (drop n logits) = (n, logits ! n) # enumerate (Suc n) (drop (Suc n) logits)"
    using n by (simp add: Cons_nth_drop_Suc[symmetric])
  show ?case
  proof (cases "fp_lt (logits ! best) (logits ! n)")
    case True
    have up: "fp_lt a c" if "fp_le a b" "fp_lt b c" for a b c using that by (cases a; cases b; cases c) (auto split: if_splits)
    have "\<forall>j<n. fp_lt (logits ! j) (logits ! n)" using Suc.prems(3) True up by blast
    moreover have "fp_le a b" if "fp_lt a b" for a b using that by (cases a; cases b) (auto split: if_splits)
    moreover have "fp_le (logits ! n) (logits ! n)" using nan[OF n] by (cases "logits ! n") auto
    ultimately show ?thesis using Suc.IH[of "Suc n" n] Suc.prems(1) n True
      by (simp add: d argmax_step_def less_Suc_eq all_conj_distrib)
  next
    case False
    then have "fp_le (logits ! n) (logits ! best)" using nan n Suc.prems(1,2) by (intro fp_not_lt_le) auto
    then show ?thesis using Suc.IH[of "Suc n" best] Suc.prems n False
      by (simp add: d argmax_step_def less_Suc_eq all_conj_distrib)
  qed
qed simp

lemma argmax_first:
  assumes "NaN \<notin> set logits" and "logits \<noteq> []" and "length logits < 2 ^ 32"
  shows "unat (argmax logits) < length logits \<and> (\<forall>l\<in>set logits. fp_le l (logits ! unat (argmax logits))) \<and>
    (\<forall>j<unat (argmax logits). fp_lt (logits ! j) (logits ! unat (argmax logits)))"
proof -
  let ?b = "foldl (argmax_step logits) 0 (enumerate 0 logits)"
  obtain x xs where l: "logits = x # xs" using assms(2) by (cases logits) auto
  have x: "fp_le x x" using assms(1) by (cases x) (auto simp: l)
  have "fp_lt x x = False" by (cases x) auto
  then have b: "?b = foldl (argmax_step logits) 0 (enumerate 1 (drop 1 logits))" by (simp add: l argmax_step_def)
  have first: "?b < length logits \<and> (\<forall>j<length logits. fp_le (logits ! j) (logits ! ?b)) \<and> (\<forall>j<?b. fp_lt (logits ! j) (logits ! ?b))"
    unfolding b using argmax_step_first[OF assms(1), of 1 "length logits - 1" 0] x by (simp add: l Let_def)
  then have "unat (argmax logits) = ?b" unfolding argmax_def using assms(3) by (intro u32_of_nat) auto
  then show ?thesis using first by (auto simp: in_set_conv_nth)
qed

text \<open>C31. The sampler never leaves its distribution, for logits that are not empty and fewer than 2^32, and a sort that permutes:
  the token is one of the vocabulary; in the nucleus regime it is drawn from
  the nucleus, which is a non-empty prefix of the tokens in the order of the sort, and no shorter prefix reaches
  \<open>top_p\<close>; in the greedy regime, when no logit is NaN, it is the first greatest: no logit is above it and all earlier
  ones are below it.\<close>

theorem sampler_in_nucleus:
  assumes "sort_ok P" and "concat logits \<noteq> []" and "length (concat logits) < 2 ^ 32"
  shows "unat (fst (sample P s logits)) < length (concat logits) \<and>
    (case sm_kind s of
       Greedy \<Rightarrow> NaN \<in> set (concat logits) \<or>
         (\<forall>l\<in>set (concat logits). fp_le l (concat logits ! unat (fst (sample P s logits)))) \<and>
         (\<forall>j<unat (fst (sample P s logits)). fp_lt (concat logits ! j) (concat logits ! unat (fst (sample P s logits))))
     | TopP temperature top_p \<Rightarrow>
         let ps = top_p_nucleus P (concat logits) temperature top_p in
         fst (sample P s logits) \<in> fst ` set ps \<and>
         (\<exists>n>0. ps = take n (sg_sort P (normalized (softmax_weights P (concat logits) temperature)))) \<and>
         (\<forall>k. Suc k < length ps \<longrightarrow> \<not> fp_le (f64_as_f32 top_p) (f_sum (map snd (take (Suc k) ps)))))"
proof (cases "sm_kind s")
  case Greedy
  let ?b = "foldl (argmax_step (concat logits)) 0 (enumerate 0 (concat logits))"
  have "?b < length (concat logits)" using assms(2) by (rule argmax_bound)
  then have "unat (argmax (concat logits)) < length (concat logits)"
    unfolding argmax_def using assms(3) by (subst u32_of_nat) auto
  then show ?thesis using Greedy argmax_first[of "concat logits"] assms by (auto simp: sample_def)
next
  case (TopP temperature top_p)
  let ?xs = "concat logits"
  let ?all = "sg_sort P (normalized (softmax_weights P ?xs temperature))"
  let ?ps = "top_p_nucleus P ?xs temperature top_p"
  have "mset ?all = mset (normalized (softmax_weights P ?xs temperature))" using assms(1) unfolding sort_ok_def by blast
  then have "set ?all = set (normalized (softmax_weights P ?xs temperature))" by (rule mset_eq_setD)
  then have "fst ` set ?all = set (map fst (normalized (softmax_weights P ?xs temperature)))" by simp
  then have ids: "fst ` set ?all = set (map word_of_nat [0..<length ?xs])" unfolding normalized_ids softmax_ids .
  then have ne: "?all \<noteq> []" using assms(2) by auto
  obtain n where n: "?ps = take n ?all" "0 < n" using nucleus_prefix[of _ f_zero ?all] ne unfolding top_p_nucleus_def by blast
  then have "?ps \<noteq> []" using ne by simp
  moreover have "fst (sample P s logits) = draw_id ?ps (f_mul (fst (sg_unit P (sm_rng s))) (f_sum (map snd ?ps)))"
    unfolding sample_def TopP sampling.case sample_top_p_def Let_def split_def fst_conv by (rule refl)
  ultimately have t: "fst (sample P s logits) \<in> fst ` set ?ps" using draw_id_in by metis
  moreover have "set ?ps \<subseteq> set ?all" unfolding n(1) by (rule set_take_subset)
  ultimately have "fst (sample P s logits) \<in> fst ` set ?all" by blast
  then have "fst (sample P s logits) \<in> set (map word_of_nat [0..<length ?xs])" unfolding ids .
  then obtain i where "fst (sample P s logits) = word_of_nat i" "i < length ?xs" by auto
  then have "unat (fst (sample P s logits)) < length ?xs" using assms(3) by (simp add: u32_of_nat)
  moreover have "\<not> fp_le (f64_as_f32 top_p) (f_sum (map snd (take (Suc k) ?ps)))" if "Suc k < length ?ps" for k
    using nucleus_minimal that unfolding top_p_nucleus_def f_sum_def by blast
  ultimately show ?thesis using TopP t n by (auto simp: Let_def)
qed

section \<open>What generation returns\<close>

text \<open>The reference: \<open>n\<close> tokens sampled one after the other from position \<open>offset\<close> on, whatever they are, with the logits each
  was sampled from, and the logits, the model and the sampler behind them.\<close>

fun free_run ::
  "tensor_ops \<Rightarrow> 'r sampling_parts \<Rightarrow> nat \<Rightarrow> nat \<Rightarrow> rows \<Rightarrow> 'c causal_lm \<Rightarrow> 'r sampler \<Rightarrow>
    (u32 list \<times> rows list \<times> rows \<times> 'c causal_lm \<times> 'r sampler) option" where
  "free_run T P offset 0 logits m s = Some ([], [], logits, m, s)"
| "free_run T P offset (Suc n) logits m s = do {
     let token = fst (sample P s logits);
     (next_logits, m) \<leftarrow> lm_forward T m [token] offset;
     (tokens, seen, last_state) \<leftarrow> free_run T P (Suc offset) n next_logits m (snd (sample P s logits));
     Some (token # tokens, logits # seen, last_state)
   }"

definition end_of_turn :: "tokenizer \<Rightarrow> u32 \<Rightarrow> bool" where
  "end_of_turn K t \<longleftrightarrow> tk_token_to_id K (ascii ''<|im_end|>'') = Some t \<or> tk_token_to_id K (ascii ''<|endoftext|>'') = Some t"

lemma end_of_turn_eos: "t \<in> set (eos_ids K) \<longleftrightarrow> end_of_turn K t"
  by (auto simp: eos_ids_def end_of_turn_def List.map_filter_def)

text \<open>What a run of the loop with budget \<open>n\<close> is in terms of the reference: its first tokens, up to the first stop token.\<close>

lemma generate_loop_free:
  assumes "generate_loop T K P eos hash n offset logits m s tokens hashes = Some ((tokens', hashes'), s', m')"
  shows "\<exists>new seen logits1 s1. free_run T P offset (length new) logits m s = Some (new, seen, logits1, m', s1) \<and>
    tokens' = tokens @ new \<and> length new \<le> n \<and> set new \<inter> set eos = {} \<and> length seen = length new \<and>
    (if length new < n then fst (sample P s1 logits1) \<in> set eos \<and> s' = snd (sample P s1 logits1) else s' = s1) \<and>
    (hash \<longrightarrow> hashes' = hashes @ map (hash_logits K) (seen @ (if length new < n then [logits1] else [])))"
  using assms
proof (induction n arbitrary: offset logits m s tokens hashes)
  case (Suc n)
  obtain t s1 where t: "sample P s logits = (t, s1)" by fastforce
  define hs where "hs = (if hash then hashes @ [hash_logits K logits] else hashes)"
  show ?case
  proof (cases "t \<in> set eos")
    case True
    show ?thesis
      by (rule exI[of _ "[]"], rule exI[of _ "[]"], rule exI[of _ logits], rule exI[of _ s])
        (use Suc.prems True in \<open>auto simp: t Let_def\<close>)
  next
    case False
    obtain next_logits m1 where f: "lm_forward T m [t] offset = Some (next_logits, m1)"
      and r: "generate_loop T K P eos hash n (Suc offset) next_logits m1 s1 (tokens @ [t]) hs = Some ((tokens', hashes'), s', m')"
      using Suc.prems False by (auto simp: t hs_def Let_def bind_eq_Some_conv)
    from Suc.IH[OF r] obtain new seen logits2 s2 where new: "free_run T P (Suc offset) (length new) next_logits m1 s1 = Some (new, seen, logits2, m', s2)"
      "tokens' = (tokens @ [t]) @ new" "length new \<le> n" "set new \<inter> set eos = {}" "length seen = length new"
      "if length new < n then fst (sample P s2 logits2) \<in> set eos \<and> s' = snd (sample P s2 logits2) else s' = s2"
      "hash \<longrightarrow> hashes' = hs @ map (hash_logits K) (seen @ (if length new < n then [logits2] else []))" by blast
    show ?thesis
      by (rule exI[of _ "t # new"], rule exI[of _ "logits # seen"]) (use new False in \<open>auto simp: hs_def t f\<close>)
  qed
qed auto

lemma generate_loop_prefix:
  assumes "generate_loop T K P eos hash n offset logits m s tokens hashes = Some ((tokens', hashes'), s', m')" and "k \<le> n"
  shows "\<exists>hs s1 m1. generate_loop T K P eos hash k offset logits m s tokens hashes =
    Some ((take (length tokens + k) tokens', hs), s1, m1)"
  using assms
proof (induction n arbitrary: offset logits m s tokens hashes k)
  case (Suc n)
  show ?case
  proof (cases k)
    case 0
    obtain new where "tokens' = tokens @ new" using generate_loop_free[OF Suc.prems(1)] by blast
    then show ?thesis by (simp add: 0)
  next
    case (Suc j)
    obtain t s1 where t: "sample P s logits = (t, s1)" by fastforce
    show ?thesis
    proof (cases "t \<in> set eos")
      case True
      then show ?thesis using Suc.prems(1) Suc by (auto simp: t Let_def)
    next
      case False
      let ?hs = "if hash then hashes @ [hash_logits K logits] else hashes"
      obtain logits1 m1 where f: "lm_forward T m [t] offset = Some (logits1, m1)"
        and r: "generate_loop T K P eos hash n (Suc offset) logits1 m1 s1 (tokens @ [t]) ?hs = Some ((tokens', hashes'), s', m')"
        using Suc.prems(1) False by (auto simp: t Let_def bind_eq_Some_conv)
      have "j \<le> n" using Suc.prems(2) Suc by simp
      from Suc.IH[OF r this] show ?thesis using False by (auto simp: Suc t f Let_def)
    qed
  qed
qed auto

text \<open>C32. Generation, when it returns, is sampling cut at the first end-of-turn token or at the budget: the tokens are those of a free run of
  that length after the prefill, at most \<open>max_new_tokens\<close> and none of them an end-of-turn token; there are fewer than
  \<open>max_new_tokens\<close> only if the token sampled next is an end-of-turn token; the hashes are those of the logits each token was
  sampled from, with one more exactly in that case; the model is the one behind the tokens and the sampler has drawn
  exactly those tokens, and the end-of-turn token if there was one. A smaller budget only cuts the tokens short, where the
  shorter text decodes.\<close>

theorem generation_within_budget:
  assumes "generate T K P tok m prompt spec s max_new hash = Some (out, s', m')"
  shows "(\<exists>logits0 m0 seen logits1 s1.
      prefill_with_injection T m prompt spec = Some (logits0, m0) \<and>
      free_run T P (length prompt) (length (go_tokens out)) logits0 m0 s = Some (go_tokens out, seen, logits1, m', s1) \<and>
      (if length (go_tokens out) < max_new
       then end_of_turn tok (fst (sample P s1 logits1)) \<and> s' = snd (sample P s1 logits1) else s' = s1) \<and>
      go_logits_hashes out = (if hash
        then Some (map (hash_logits K) (seen @ (if length (go_tokens out) < max_new then [logits1] else []))) else None) \<and>
      length seen = length (go_tokens out)) \<and>
    length (go_tokens out) \<le> max_new \<and> (\<forall>t\<in>set (go_tokens out). \<not> end_of_turn tok t) \<and>
    tk_decode tok (go_tokens out) = Some (go_text out) \<and>
    (\<forall>k\<le>max_new. tk_decode tok (take k (go_tokens out)) \<noteq> None \<longrightarrow>
      (\<exists>out' s1 m1. generate T K P tok m prompt spec s k hash = Some (out', s1, m1) \<and> go_tokens out' = take k (go_tokens out)))"
proof -
  obtain logits m0 hs where p: "prefill_with_injection T m prompt spec = Some (logits, m0)"
    and l: "generate_loop T K P (eos_ids tok) hash max_new (length prompt) logits m0 s [] [] = Some ((go_tokens out, hs), s', m')"
    and hs: "go_logits_hashes out = (if hash then Some hs else None)" and decoded: "tk_decode tok (go_tokens out) = Some (go_text out)"
    using assms by (auto simp: generate_def bind_eq_Some_conv)
  obtain seen logits1 s1 where
    "free_run T P (length prompt) (length (go_tokens out)) logits m0 s = Some (go_tokens out, seen, logits1, m', s1)"
    "length (go_tokens out) \<le> max_new" and eos: "set (go_tokens out) \<inter> set (eos_ids tok) = {}" and "length seen = length (go_tokens out)"
    "if length (go_tokens out) < max_new then fst (sample P s1 logits1) \<in> set (eos_ids tok) \<and> s' = snd (sample P s1 logits1) else s' = s1"
    "hash \<longrightarrow> hs = map (hash_logits K) (seen @ (if length (go_tokens out) < max_new then [logits1] else []))"
    using generate_loop_free[OF l] by auto
  moreover have "\<forall>t\<in>set (go_tokens out). \<not> end_of_turn tok t" using eos end_of_turn_eos by blast
  moreover have "\<exists>out' s1 m1. generate T K P tok m prompt spec s k hash = Some (out', s1, m1) \<and> go_tokens out' = take k (go_tokens out)"
    if "k \<le> max_new" "tk_decode tok (take k (go_tokens out)) \<noteq> None" for k
    using generate_loop_prefix[OF l that(1)] that(2) by (auto simp: generate_def p)
  ultimately show ?thesis using p hs decoded unfolding end_of_turn_eos by simp
qed

definition demo_tokenizer :: tokenizer where
  "demo_tokenizer = \<lparr> tk_encode = \<lambda>bs. Some (map ucast bs), tk_decode = \<lambda>ts. Some (map ucast ts), tk_token_to_id = \<lambda>_. Some 9 \<rparr>"

definition demo_parts :: "unit sampling_parts" where
  "demo_parts = \<lparr> sg_seed = \<lambda>_. (), sg_unit = \<lambda>r. (f_zero, r), sg_exp = \<lambda>x. x,
     sg_sort = sort_by (\<lambda>a b. fp_le (snd b) (snd a)) \<rparr>"

lemma demo_sort_ok: "sort_ok demo_parts"
proof -
  have "sorted_wrt (\<lambda>a b. fp_le (snd b) (snd a)) (sort_by (\<lambda>a b. fp_le (snd b) (snd a)) ps)"
    if "NaN \<notin> snd ` set ps" for ps :: "(u32 \<times> f32) list"
  proof (rule sorted_sort_by)
    have total: "fp_le a b \<or> fp_le b a" if "a \<noteq> NaN" "b \<noteq> NaN" for a b using that by (cases a; cases b) auto
    show "order_on (\<lambda>a b. fp_le (snd b) (snd a)) (set ps)"
      unfolding order_on_def
    proof (intro conjI ballI impI)
      fix a b c assume "a \<in> set ps" "b \<in> set ps"
      then have "snd a \<noteq> NaN" "snd b \<noteq> NaN" using that by force+
      then show "fp_le (snd b) (snd a) \<or> fp_le (snd a) (snd b)" using total by blast
    next
      fix a b c assume "fp_le (snd b) (snd a)" "fp_le (snd c) (snd b)"
      then show "fp_le (snd c) (snd a)" using fp_le_trans by blast
    qed
  qed
  then show ?thesis by (auto simp: sort_ok_def demo_parts_def)
qed

theorem sampler_in_nucleus_witness:
  "unat (fst (sample demo_parts \<lparr> sm_kind = TopP f_one f_one, sm_rng = () \<rparr> [[f_zero, f_one]])) < 2 \<and>
   unat (fst (sample demo_parts \<lparr> sm_kind = Greedy, sm_rng = () \<rparr> [[f_zero, f_one]])) < 2"
proof -
  have c: "concat [[f_zero, f_one]] \<noteq> []" "length (concat [[f_zero, f_one]]) < 2 ^ 32" "length (concat [[f_zero, f_one]]) = 2" by simp_all
  show ?thesis using sampler_in_nucleus[OF demo_sort_ok c(1,2)] unfolding c(3) by blast
qed

definition demo_crypto :: crypto where
  "demo_crypto = \<lparr> ed_public = \<lambda>k. k, ed_sign = \<lambda>_ m. m, ed_verify = \<lambda>_ _ _. True, cr_sha256 = \<lambda>bs. bs,
     base64_encode = \<lambda>bs. bs, base64_decode = Some \<rparr>"

theorem generation_within_budget_witness:
  "\<exists>out s m. generate demo_ops demo_crypto demo_parts demo_tokenizer demo_lm [7] None \<lparr> sm_kind = Greedy, sm_rng = () \<rparr> 1 True =
      Some (out, s, m) \<and> length (go_tokens out) \<le> 1 \<and> (\<forall>t\<in>set (go_tokens out). \<not> end_of_turn demo_tokenizer t)"
proof -
  have a: "sample demo_parts \<lparr> sm_kind = Greedy, sm_rng = () \<rparr> [[f_zero]] = (0, \<lparr> sm_kind = Greedy, sm_rng = () \<rparr>)"
    by (simp add: sample_def argmax_def argmax_step_def)
  have e: "eos_ids demo_tokenizer = [9, 9]" by (simp add: eos_ids_def demo_tokenizer_def List.map_filter_def)
  have "\<exists>out s m. generate demo_ops demo_crypto demo_parts demo_tokenizer demo_lm [7] None \<lparr> sm_kind = Greedy, sm_rng = () \<rparr> 1 True =
      Some (out, s, m)"
    by (simp add: generate_def prefill_with_injection_def lm_forward_def a e demo_defs del: fp_add.simps)
      (simp add: demo_tokenizer_def)
  then show ?thesis using generation_within_budget by blast
qed

section \<open>The quantiles are ordered\<close>

lemma percentile_index_exact:
  assumes "n * k < 2 ^ 53" and "k \<le> 4" and "n < 2 ^ 53"
  shows "percentile_index (Suc n) (Fin False (of_nat k / 4)) = nat \<lfloor>of_nat (n * k) / 4 + 1 / 2 :: rat\<rfloor>"
proof -
  have "f64_of (of_nat n) = Fin False (of_nat n)"
    using fp_round_exact[of n binary64 0] assms(3) by (simp add: fp_of_rat_def pow2_def binary64_def)
  moreover have "fp_round binary64 False (of_nat n * (of_nat k / 4)) = Fin False (of_nat (n * k) / 4)"
    using fp_round_exact[of "n * k" binary64 "- 2"] assms(1) by (simp add: pow2_def binary64_def power_int_minus field_simps)
  ultimately have p: "fp_round_away (d_mul (f64_of (of_nat n)) (Fin False (of_nat k / 4))) =
      Fin False (of_int \<lfloor>of_nat (n * k) / 4 + 1 / 2 :: rat\<rfloor>)" by simp
  have "of_nat (n * k) / 4 + 1 / 2 < (2 ^ 64 :: rat)"
  proof -
    have "(of_nat (n * k) :: rat) < of_nat (2 ^ 53)" using assms(1) by (simp only: of_nat_less_iff)
    then show ?thesis by simp
  qed
  then have "\<lfloor>of_nat (n * k) / 4 + 1 / 2 :: rat\<rfloor> < 2 ^ 64" by (simp add: floor_less_iff)
  moreover have "0 \<le> \<lfloor>of_nat (n * k) / 4 + 1 / 2 :: rat\<rfloor>" by simp
  ultimately show ?thesis unfolding percentile_index_def f64_as_usize_def
    by (simp add: p truncate_rat_def del: of_nat_mult)
qed

text \<open>The statistics of a sample of numbers exist and are in order: the minimum, the lower quartile, the median, the upper
  quartile and the maximum ascend, and the minimum and the maximum bound every value of the sample.\<close>

theorem stats_ordered:
  assumes "vs \<noteq> []" and "NaN \<notin> set vs" and "length vs \<le> 2 ^ 51"
  shows "\<exists>s. stats vs = Some s \<and> fp_le (ns_min s) (ns_p25 s) \<and> fp_le (ns_p25 s) (ns_median s) \<and>
    fp_le (ns_median s) (ns_p75 s) \<and> fp_le (ns_p75 s) (ns_max s) \<and>
    (\<forall>v\<in>set vs. fp_le (ns_min s) v \<and> fp_le v (ns_max s))"
proof -
  define ws where "ws = sort_by float_le vs"
  obtain n where n: "length vs = Suc n" using assms(1) by (cases vs) auto
  have set: "set ws = set vs" and len: "length ws = Suc n" by (simp_all add: ws_def n)
  have le: "float_le a b \<longleftrightarrow> fp_le a b" if "a \<in> set vs" "b \<in> set vs" for a b
  proof -
    have "a \<noteq> NaN" "b \<noteq> NaN" using that assms(2) by auto
    then show ?thesis unfolding float_le_def using fp_not_lt_le[of b a] fp_le_not_lt[of a b] by auto
  qed
  have total: "fp_le a b \<or> fp_le b a" if "a \<in> set vs" "b \<in> set vs" for a b
  proof -
    have "a \<noteq> NaN" "b \<noteq> NaN" using that assms(2) by auto
    then show ?thesis by (cases a; cases b) auto
  qed
  have "order_on float_le (set vs)" unfolding order_on_def using le total fp_le_trans by blast
  then have sorted: "sorted_wrt float_le ws" unfolding ws_def by (rule sorted_sort_by)
  have ord: "fp_le (ws ! i) (ws ! j)" if "i \<le> j" "j < Suc n" for i j
  proof (cases "i = j")
    case True
    then show ?thesis using total[of "ws ! j" "ws ! j"] that set len nth_mem[of j ws] by auto
  next
    case False
    then have "float_le (ws ! i) (ws ! j)" using sorted that len by (simp add: sorted_wrt_iff_nth_less)
    then show ?thesis using le[of "ws ! i" "ws ! j"] that set len nth_mem[of i ws] nth_mem[of j ws] by auto
  qed
  let ?f = "\<lambda>k. nat \<lfloor>of_nat (n * k) / 4 + 1 / 2 :: rat\<rfloor>"
  have ix: "percentile_index (Suc n) (Fin False (1 / 4)) = ?f 1" "percentile_index (Suc n) (Fin False (1 / 2)) = ?f 2"
    "percentile_index (Suc n) (Fin False (3 / 4)) = ?f 3"
    using percentile_index_exact[of n 1] percentile_index_exact[of n 2] percentile_index_exact[of n 3] assms(3) n by simp_all
  have mono: "?f j \<le> ?f k" if "j \<le> k" for j k
  proof -
    have "(of_nat (n * j) :: rat) \<le> of_nat (n * k)" using that by (simp only: of_nat_le_iff mult_le_mono2)
    then show ?thesis by (intro nat_mono floor_mono) (simp add: divide_right_mono)
  qed
  have "?f 4 = n"
  proof -
    have "of_nat (n * 4) / 4 + 1 / 2 = (of_nat n + 1 / 2 :: rat)" by simp
    then have "\<lfloor>of_nat (n * 4) / 4 + 1 / 2 :: rat\<rfloor> = int n" by (simp add: floor_eq_iff)
    then show ?thesis by simp
  qed
  then have bound: "?f k < Suc n" if "k \<le> 4" for k using mono[OF that] by simp
  have b: "?f 1 < Suc n" "?f 2 < Suc n" "?f 3 < Suc n" by (rule bound; simp)+
  have "stats vs = Some \<lparr> ns_n = Suc n, ns_min = ws ! 0, ns_p25 = ws ! ?f 1, ns_median = ws ! ?f 2,
      ns_p75 = ws ! ?f 3, ns_max = ws ! n, ns_mean = f_div (f_sum ws) (f32_of (of_nat (Suc n))) \<rparr>"
    unfolding stats_def ws_def[symmetric] len Let_def ix using b assms(1)
    by (simp del: of_nat_mult of_nat_Suc mult_1_right mult.right_neutral)
  moreover have "fp_le (ws ! 0) v \<and> fp_le v (ws ! n)" if "v \<in> set vs" for v
    using that ord[of 0] ord[of _ n] unfolding set[symmetric] by (auto simp: in_set_conv_nth len)
  moreover have "fp_le (ws ! 0) (ws ! ?f 1)" "fp_le (ws ! ?f 1) (ws ! ?f 2)" "fp_le (ws ! ?f 2) (ws ! ?f 3)" "fp_le (ws ! ?f 3) (ws ! n)"
    using ord mono[of 1 2] mono[of 2 3] b by (simp_all del: of_nat_mult mult.right_neutral mult_1_right)
  ultimately show ?thesis by auto
qed

theorem stats_ordered_witness:
  "\<exists>s. stats [Inf False, f_one, f_zero] = Some s \<and> fp_le (ns_min s) (ns_median s) \<and> fp_le (ns_median s) (ns_max s)"
proof -
  have "[Inf False, f_one, f_zero] \<noteq> []" "NaN \<notin> set [Inf False, f_one, f_zero]" "length [Inf False, f_one, f_zero] \<le> 2 ^ 51"
    by simp_all
  from stats_ordered[OF this] show ?thesis using fp_le_trans by blast
qed

end
