(* ===== verification/Align.thy ===== *)
theory Align
  imports Runtime_Generate Float_Bits
begin

text \<open>
  \<open>latentmesh-align\<close>: the orthogonal alignment of two latent spaces (\<open>lib.rs\<close>) and the solver by the Gram
  matrix (\<open>procrustes_mtm.rs\<close>). A matrix is the list of its rows. The products, norms and decompositions of
  nalgebra are parameters, as are SHA-256 and the text of a JSON value; what serde derives for the transform is written out.
  \<open>None\<close> is a panic, or an error of the JSON library.
\<close>

section \<open>Matrices\<close>

type_synonym calibration = "(f32 list \<times> f32 list) list"

record align_ops =
  al_mul :: "rows \<Rightarrow> rows \<Rightarrow> rows"
  al_qr :: "rows \<Rightarrow> rows \<times> rows"
  al_svd :: "rows \<Rightarrow> rows \<times> rows"
  al_norm :: "rows \<Rightarrow> f32"
  al_mul64 :: "f64 list list \<Rightarrow> f64 list list \<Rightarrow> f64 list list"
  al_symmetric_eigen :: "f64 list list \<Rightarrow> f64 list \<times> f64 list list"
  al_sqrt64 :: "f64 \<Rightarrow> f64"

definition shaped :: "nat \<Rightarrow> nat \<Rightarrow> 'a list list \<Rightarrow> bool" where
  "shaped n w m \<longleftrightarrow> length m = n \<and> (\<forall>r\<in>set m. length r = w)"

text \<open>The shapes that nalgebra promises: of a product, of the thin decompositions and of their factors; and a product is
  made of binary32 numbers.\<close>

definition align_ops_ok :: "align_ops \<Rightarrow> bool" where
  "align_ops_ok P \<longleftrightarrow>
     (\<forall>n k w a b. 0 < k \<longrightarrow> shaped n k a \<longrightarrow> shaped k w b \<longrightarrow> shaped n w (al_mul P a b)) \<and>
     (\<forall>n w m. shaped n w m \<longrightarrow> w \<le> n \<longrightarrow> shaped n w (fst (al_qr P m)) \<and> shaped w w (snd (al_qr P m))) \<and>
     (\<forall>n w m. shaped n w m \<longrightarrow> shaped n (min n w) (fst (al_svd P m)) \<and> shaped (min n w) w (snd (al_svd P m))) \<and>
     (\<forall>a b. list_all is_f32 (concat (al_mul P a b)))"

definition transposed :: "nat \<Rightarrow> 'a list list \<Rightarrow> 'a list list" where
  "transposed w m = map (\<lambda>j. map (\<lambda>r. r ! j) m) [0..<w]"

definition mat_map2 :: "('a \<Rightarrow> 'a \<Rightarrow> 'a) \<Rightarrow> 'a list list \<Rightarrow> 'a list list \<Rightarrow> 'a list list" where
  "mat_map2 f = map2 (map2 f)"

definition identity_matrix :: "nat \<Rightarrow> rows" where
  "identity_matrix d = map (\<lambda>i. map (\<lambda>j. if i = j then f_one else f_zero) [0..<d]) [0..<d]"

section \<open>The solvers\<close>

definition procrustes_dense :: "align_ops \<Rightarrow> nat \<Rightarrow> rows \<Rightarrow> rows \<Rightarrow> rows" where
  "procrustes_dense P ds a b = (let (u, v_t) = al_svd P (al_mul P (transposed ds a) b) in al_mul P u v_t)"

definition procrustes_low_rank :: "align_ops \<Rightarrow> nat \<Rightarrow> rows \<Rightarrow> rows \<Rightarrow> rows" where
  "procrustes_low_rank P d a b =
     (let (q, r_qr) = al_qr P (transposed d a);
          (u, v_t) = al_svd P (al_mul P r_qr b);
          qqt = al_mul P q (transposed (length a) q)
      in mat_map2 f_add (mat_map2 f_sub (identity_matrix d) qqt) (al_mul P (al_mul P q u) v_t))"

definition polar_via_gram :: "align_ops \<Rightarrow> nat \<Rightarrow> rows \<Rightarrow> rows" where
  "polar_via_gram P dr m =
     (let (eigenvalues, v) = al_symmetric_eigen P (al_mul64 P (transposed dr m) m);
          sigmas = map (\<lambda>l. al_sqrt64 P (fp_max l (Fin False 0))) eigenvalues;
          threshold = d_mul (foldl fp_max (Fin False 0) sigmas) (f64_of (1 / 10 ^ 6));
          scales = map (\<lambda>s. if fp_lt threshold s then d_div (Fin False 1) s else Fin False 0) sigmas;
          v_inv_sigma = map (\<lambda>r. map2 d_mul r scales) v
      in map (map f64_as_f32) (al_mul64 P (al_mul64 P m v_inv_sigma) (transposed dr v)))"

definition procrustes_mtm_eig :: "align_ops \<Rightarrow> nat \<Rightarrow> nat \<Rightarrow> rows \<Rightarrow> rows \<Rightarrow> rows" where
  "procrustes_mtm_eig P ds dr a b = polar_via_gram P dr (al_mul P (transposed ds a) b)"

section \<open>The transform\<close>

record alignment =
  at_r :: rows
  at_alpha :: f32
  at_dim_sender :: nat
  at_dim_receiver :: nat
  at_mu_s :: "f32 list"
  at_mu_r :: "f32 list"
  at_confidence :: f32
  at_r_cached :: "rows option"
  at_hash_cached :: "bytes option"

text \<open>JSON values as serde sees them, and the fields that it writes: all but the caches. \<open>serde_json\<close> writes a number that is not
  finite as \<open>null\<close>.\<close>

datatype json_value =
    JNull
  | JFloat f32
  | JNat nat
  | JArray "json_value list"
  | JObject "(bytes \<times> json_value) list"

definition json_of_f32 :: "f32 \<Rightarrow> json_value" where
  "json_of_f32 x = (if fp_is_finite x then JFloat x else JNull)"

definition json_of_f32s :: "f32 list \<Rightarrow> json_value" where
  "json_of_f32s xs = JArray (map json_of_f32 xs)"

definition json_of_alignment :: "alignment \<Rightarrow> json_value" where
  "json_of_alignment t = JObject
     [(ascii ''r'', JArray (map json_of_f32s (at_r t))), (ascii ''alpha'', json_of_f32 (at_alpha t)),
      (ascii ''dim_sender'', JNat (at_dim_sender t)), (ascii ''dim_receiver'', JNat (at_dim_receiver t)),
      (ascii ''mu_s'', json_of_f32s (at_mu_s t)), (ascii ''mu_r'', json_of_f32s (at_mu_r t)),
      (ascii ''confidence'', json_of_f32 (at_confidence t))]"

record transform_text =
  tt_json :: "json_value \<Rightarrow> bytes option"
  tt_parse :: "bytes \<Rightarrow> json_value option"
  tt_crypto :: crypto

text \<open>The bytes default to none when the library fails.\<close>

definition compute_content_hash :: "transform_text \<Rightarrow> alignment \<Rightarrow> bytes" where
  "compute_content_hash X t =
     hex_sha256 (tt_crypto X) (case tt_json X (json_of_alignment t) of None \<Rightarrow> [] | Some bs \<Rightarrow> bs)"

definition alignment_content_hash :: "transform_text \<Rightarrow> alignment \<Rightarrow> bytes" where
  "alignment_content_hash X t = (case at_hash_cached t of Some h \<Rightarrow> h | None \<Rightarrow> compute_content_hash X t)"

definition finish :: "align_ops \<Rightarrow> transform_text \<Rightarrow> rows \<Rightarrow> rows \<Rightarrow> rows \<Rightarrow> nat \<Rightarrow> nat \<Rightarrow> f32 list \<Rightarrow> f32 list \<Rightarrow> alignment" where
  "finish P X a b r ds dr mu_s mu_r =
     (let ar = al_mul P a r;
          elements = (\<lambda>m. concat (transposed dr m));
          numer = f_sum (map2 f_mul (elements ar) (elements b));
          denom = f_sum (map (\<lambda>x. f_mul x x) (elements ar));
          alpha = (if fp_lt (f32_of (1 / 10 ^ 12)) (fp_abs denom) then f_div numer denom else f_one);
          residual = al_norm P (mat_map2 f_sub (map (map (\<lambda>x. f_mul x alpha)) ar) b);
          scale = fp_max (al_norm P b) (f32_of (1 / 10 ^ 6));
          t = \<lparr> at_r = r, at_alpha = alpha, at_dim_sender = ds, at_dim_receiver = dr, at_mu_s = mu_s, at_mu_r = mu_r,
            at_confidence = fp_clamp (f_sub f_one (f_div residual scale)) f_zero f_one,
            at_r_cached = None, at_hash_cached = None \<rparr>
      in t\<lparr> at_r_cached := Some r, at_hash_cached := Some (compute_content_hash X t) \<rparr>)"

definition same_dims :: "nat \<Rightarrow> nat \<Rightarrow> calibration \<Rightarrow> bool" where
  "same_dims ds dr samples \<longleftrightarrow> list_all (\<lambda>(a, b). length a = ds \<and> length b = dr) samples"

definition centered :: "f32 list \<Rightarrow> f32 list \<Rightarrow> f32 list" where
  "centered mu row = (if mu = [] then row else map2 f_sub row mu)"

definition fit_inner :: "align_ops \<Rightarrow> transform_text \<Rightarrow> calibration \<Rightarrow> f32 list \<Rightarrow> f32 list \<Rightarrow> alignment option" where
  "fit_inner P X samples mu_s mu_r =
     (let ds = length (fst (hd samples)); dr = length (snd (hd samples));
          a = map (\<lambda>p. centered mu_s (fst p)) samples; b = map (\<lambda>p. centered mu_r (snd p)) samples
      in if samples = [] \<or> ds = 0 \<or> dr = 0 \<or> \<not> same_dims ds dr samples then None
         else Some (finish P X a b
           (if ds = dr \<and> length samples < ds then procrustes_low_rank P ds a b else procrustes_dense P ds a b) ds dr mu_s mu_r))"

definition fit :: "align_ops \<Rightarrow> transform_text \<Rightarrow> calibration \<Rightarrow> alignment option" where
  "fit P X samples = fit_inner P X samples [] []"

definition accumulate_mean :: "f32 \<Rightarrow> f32 list \<Rightarrow> f32 list \<Rightarrow> f32 list" where
  "accumulate_mean n mu v = map2 (\<lambda>m x. f_add m (f_div x n)) mu v"

definition fit_affine :: "align_ops \<Rightarrow> transform_text \<Rightarrow> calibration \<Rightarrow> alignment option" where
  "fit_affine P X samples =
     (let ds = length (fst (hd samples)); dr = length (snd (hd samples)); n = f32_of (of_nat (length samples))
      in if length samples < 2 \<or> \<not> same_dims ds dr samples then None
         else fit_inner P X samples
           (foldl (accumulate_mean n) (replicate ds f_zero) (map fst samples))
           (foldl (accumulate_mean n) (replicate dr f_zero) (map snd samples)))"

text \<open>The projection after a load is built from the rows again.\<close>

definition projection :: "alignment \<Rightarrow> rows option" where
  "projection t =
     (case at_r_cached t of
        Some r \<Rightarrow> Some r
      | None \<Rightarrow> if length (concat (at_r t)) = at_dim_sender t * at_dim_receiver t
          then Some (reshape (at_dim_sender t) (at_dim_receiver t) (concat (at_r t))) else None)"

definition transform_apply :: "align_ops \<Rightarrow> alignment \<Rightarrow> f32 list \<Rightarrow> f32 list option" where
  "transform_apply P t z =
     (if length z \<noteq> at_dim_sender t then None
      else do {
        r \<leftarrow> projection t;
        let zv = (if at_mu_s t = [] then z else map2 f_sub z (at_mu_s t));
        let out = map (\<lambda>x. f_mul (at_alpha t) x) (concat (al_mul P [zv] r));
        Some (if at_mu_r t = [] then out
              else map2 f_add (take (length (at_mu_r t)) out) (at_mu_r t) @ drop (length (at_mu_r t)) out)
      })"

text \<open>What serde reads: an object with the fields in any order, unknown ones ignored and none twice, or an array of the fields
  in their order; a missing mean is empty; a number may be written as an integer, and is never \<open>null\<close>. The caches are
  empty.\<close>

fun f32_of_json :: "json_value \<Rightarrow> f32 option" where
  "f32_of_json (JFloat x) = Some x"
| "f32_of_json (JNat n) = Some (f32_of (of_nat n))"
| "f32_of_json _ = None"

fun nat_of_json :: "json_value \<Rightarrow> nat option" where
  "nat_of_json (JNat n) = (if n < 2 ^ 64 then Some n else None)"
| "nat_of_json _ = None"

fun list_of_json :: "(json_value \<Rightarrow> 'a option) \<Rightarrow> json_value \<Rightarrow> 'a list option" where
  "list_of_json f (JArray js) = option_all f js"
| "list_of_json f _ = None"

definition ALIGNMENT_FIELDS :: "bytes list" where
  "ALIGNMENT_FIELDS =
     map ascii [''r'', ''alpha'', ''dim_sender'', ''dim_receiver'', ''mu_s'', ''mu_r'', ''confidence'']"

fun alignment_fields :: "json_value \<Rightarrow> (bytes \<times> json_value) list option" where
  "alignment_fields (JObject fs) =
     (if distinct (filter (\<lambda>k. k \<in> set ALIGNMENT_FIELDS) (map fst fs)) then Some fs else None)"
| "alignment_fields (JArray js) = (if length js = length ALIGNMENT_FIELDS then Some (zip ALIGNMENT_FIELDS js) else None)"
| "alignment_fields _ = None"

definition field_or_empty :: "(bytes \<times> json_value) list \<Rightarrow> bytes \<Rightarrow> f32 list option" where
  "field_or_empty fs k = (case map_of fs k of None \<Rightarrow> Some [] | Some j \<Rightarrow> list_of_json f32_of_json j)"

definition alignment_of_json :: "json_value \<Rightarrow> alignment option" where
  "alignment_of_json j = do {
     fs \<leftarrow> alignment_fields j;
     r \<leftarrow> Option.bind (map_of fs (ascii ''r'')) (list_of_json (list_of_json f32_of_json));
     alpha \<leftarrow> Option.bind (map_of fs (ascii ''alpha'')) f32_of_json;
     ds \<leftarrow> Option.bind (map_of fs (ascii ''dim_sender'')) nat_of_json;
     dr \<leftarrow> Option.bind (map_of fs (ascii ''dim_receiver'')) nat_of_json;
     mu_s \<leftarrow> field_or_empty fs (ascii ''mu_s'');
     mu_r \<leftarrow> field_or_empty fs (ascii ''mu_r'');
     confidence \<leftarrow> Option.bind (map_of fs (ascii ''confidence'')) f32_of_json;
     Some \<lparr> at_r = r, at_alpha = alpha, at_dim_sender = ds, at_dim_receiver = dr, at_mu_s = mu_s, at_mu_r = mu_r,
       at_confidence = confidence, at_r_cached = None, at_hash_cached = None \<rparr>
   }"

definition alignment_load :: "transform_text \<Rightarrow> bytes \<Rightarrow> alignment option" where
  "alignment_load X bs = Option.bind (tt_parse X bs) alignment_of_json"

definition alignment_dims :: "alignment \<Rightarrow> nat \<times> nat" where
  "alignment_dims t = (at_dim_sender t, at_dim_receiver t)"

definition alignment_means :: "alignment \<Rightarrow> f32 list \<times> f32 list" where
  "alignment_means t = (at_mu_s t, at_mu_r t)"


section \<open>A fitted transform can be used\<close>

lemma shaped_transposed [simp]: "shaped n w m \<Longrightarrow> shaped w n (transposed w m)"
  by (auto simp: shaped_def transposed_def)

lemma shaped_mat_map2 [simp]: "shaped n w a \<Longrightarrow> shaped n w b \<Longrightarrow> shaped n w (mat_map2 f a b)"
  by (auto simp: shaped_def mat_map2_def in_set_zip dest: nth_mem)

lemma shaped_identity [simp]: "shaped d d (identity_matrix d)"
  by (auto simp: shaped_def identity_matrix_def)

lemma shaped_mul: "align_ops_ok P \<Longrightarrow> 0 < k \<Longrightarrow> shaped n k a \<Longrightarrow> shaped k w b \<Longrightarrow> shaped n w (al_mul P a b)"
  unfolding align_ops_ok_def by blast

lemma shaped_qr:
  "align_ops_ok P \<Longrightarrow> shaped n w m \<Longrightarrow> w \<le> n \<Longrightarrow> al_qr P m = (q, r) \<Longrightarrow> shaped n w q \<and> shaped w w r"
  unfolding align_ops_ok_def by (metis fst_conv snd_conv)

lemma shaped_svd:
  "align_ops_ok P \<Longrightarrow> shaped n w m \<Longrightarrow> al_svd P m = (u, v) \<Longrightarrow> shaped n (min n w) u \<and> shaped (min n w) w v"
  unfolding align_ops_ok_def by (metis fst_conv snd_conv)

lemma dense_shape:
  assumes "align_ops_ok P" and "shaped n ds a" and "shaped n dr b" and "0 < n" "0 < ds" "0 < dr"
  shows "shaped ds dr (procrustes_dense P ds a b)"
proof -
  obtain u v where s: "al_svd P (al_mul P (transposed ds a) b) = (u, v)" by fastforce
  have "shaped ds dr (al_mul P (transposed ds a) b)" using assms by (blast intro: shaped_mul shaped_transposed)
  then have uv: "shaped ds (min ds dr) u \<and> shaped (min ds dr) dr v" using shaped_svd[OF assms(1) _ s] by blast
  then show ?thesis using shaped_mul[OF assms(1), of "min ds dr" ds u dr v] assms(5,6) by (simp add: procrustes_dense_def s)
qed

lemma low_rank_shape:
  assumes P: "align_ops_ok P" and a: "shaped n d a" and b: "shaped n d b" and n: "0 < n" "n \<le> d"
  shows "shaped d d (procrustes_low_rank P d a b)"
proof -
  obtain q r where qr: "al_qr P (transposed d a) = (q, r)" by fastforce
  obtain u v where s: "al_svd P (al_mul P r b) = (u, v)" by fastforce
  have q: "shaped d n q" and r: "shaped n n r" using shaped_qr[OF P shaped_transposed[OF a] n(2) qr] by blast+
  have "shaped n d (al_mul P r b)" using shaped_mul[OF P n(1) r b] .
  then have u: "shaped n n u" and v: "shaped n d v" using shaped_svd[OF P _ s] n(2) by (metis min_absorb1)+
  have len: "length a = n" using a by (simp add: shaped_def)
  have "shaped d d (al_mul P q (transposed n q))" using shaped_mul[OF P n(1) q shaped_transposed[OF q]] .
  moreover have "shaped d d (al_mul P (al_mul P q u) v)" using shaped_mul[OF P n(1) shaped_mul[OF P n(1) q u] v] .
  ultimately show ?thesis by (simp add: procrustes_low_rank_def qr s len)
qed

lemma length_concat_shaped: "shaped n w m \<Longrightarrow> length (concat m) = n * w"
  by (induction m arbitrary: n) (auto simp: shaped_def)

lemma reshape_concat: "shaped n w m \<Longrightarrow> reshape n w (concat m) = m"
proof (induction m arbitrary: n)
  case (Cons r m)
  then obtain k where n: "n = Suc k" and m: "shaped k w m" and r: "length r = w" by (auto simp: shaped_def)
  have "reshape (Suc k) w (r @ concat m) = r # reshape k w (concat m)"
    unfolding reshape_def upt_conv_Cons[OF zero_less_Suc] list.map map_Suc_upt[symmetric] by (simp add: r comp_def)
  then show ?case using Cons.IH[OF m] by (simp add: n)
qed (simp add: shaped_def reshape_def)

definition alignment_ok :: "alignment \<Rightarrow> bool" where
  "alignment_ok t \<longleftrightarrow> shaped (at_dim_sender t) (at_dim_receiver t) (at_r t) \<and> at_r_cached t = Some (at_r t) \<and>
     (at_mu_s t = [] \<or> length (at_mu_s t) = at_dim_sender t) \<and> (at_mu_r t = [] \<or> length (at_mu_r t) = at_dim_receiver t)"

lemma fit_inner_ok:
  assumes P: "align_ops_ok P" and f: "fit_inner P X samples mu_s mu_r = Some t"
    and mu: "mu_s = [] \<or> length mu_s = length (fst (hd samples))" "mu_r = [] \<or> length mu_r = length (snd (hd samples))"
  shows "alignment_ok t \<and> 0 < at_dim_sender t \<and> alignment_dims t = (length (fst (hd samples)), length (snd (hd samples))) \<and> alignment_means t = (mu_s, mu_r) \<and>
    at_hash_cached t = Some (compute_content_hash X t)"
proof -
  define a where "a = map (\<lambda>p. centered mu_s (fst p)) samples"
  define b where "b = map (\<lambda>p. centered mu_r (snd p)) samples"
  let ?ds = "length (fst (hd samples))" and ?dr = "length (snd (hd samples))"
  have same: "same_dims ?ds ?dr samples" and pos: "0 < ?ds" "0 < ?dr" "0 < length samples"
    and t: "t = finish P X a b (if ?ds = ?dr \<and> length samples < ?ds then procrustes_low_rank P ?ds a b else procrustes_dense P ?ds a b)
      ?ds ?dr mu_s mu_r"
    using f by (auto simp: fit_inner_def Let_def a_def b_def split: if_split_asm)
  have a: "shaped (length samples) ?ds a" and b: "shaped (length samples) ?dr b"
    using same mu by (auto simp: shaped_def a_def b_def centered_def same_dims_def list_all_iff)
  have "shaped ?ds ?dr (if ?ds = ?dr \<and> length samples < ?ds then procrustes_low_rank P ?ds a b else procrustes_dense P ?ds a b)"
    using dense_shape[OF P a b] low_rank_shape[OF P a, of b] b pos by (auto simp: less_imp_le)
  then show ?thesis using mu pos
    by (simp add: t finish_def Let_def alignment_ok_def alignment_dims_def alignment_means_def compute_content_hash_def
        json_of_alignment_def)
qed

text \<open>The numbers of a fit are binary32 numbers.\<close>

lemma is_f32_unit [simp]: "is_f32 f_one"
  using is_f32_ops(5)[of 1] unfolding f32_ints .

lemma is_f32_clamp [simp]: "is_f32 x \<Longrightarrow> is_f32 (fp_clamp x f_zero f_one)"
  by (simp add: fp_clamp_def Let_def)

lemma f32_mat_map2: "(\<And>x y. is_f32 (f x y)) \<Longrightarrow> list_all is_f32 (concat (mat_map2 f a b))"
  by (auto simp: mat_map2_def list_all_iff in_set_zip)

lemma f32_products: "align_ops_ok P \<Longrightarrow> list_all is_f32 (concat (al_mul P a b))"
  unfolding align_ops_ok_def by blast

lemma accumulate_f32: "list_all is_f32 mu \<Longrightarrow> list_all is_f32 (foldl (accumulate_mean n) mu vs)"
proof (induction vs arbitrary: mu)
  case (Cons v vs)
  have "list_all is_f32 (accumulate_mean n mu v)" by (auto simp: accumulate_mean_def list_all_iff)
  then show ?case using Cons.IH by simp
qed simp

lemma length_accumulate: "list_all (\<lambda>v. length v = d) vs \<Longrightarrow> length mu = d \<Longrightarrow> length (foldl (accumulate_mean n) mu vs) = d"
  by (induction vs arbitrary: mu) (simp_all add: accumulate_mean_def)

lemma fit_affine_inner:
  assumes "fit_affine P X samples = Some t"
  shows "\<exists>mu_s mu_r. fit_inner P X samples mu_s mu_r = Some t \<and> length mu_s = length (fst (hd samples)) \<and>
    length mu_r = length (snd (hd samples)) \<and> list_all is_f32 (mu_s @ mu_r)"
proof -
  let ?n = "f32_of (of_nat (length samples))"
  let ?s = "foldl (accumulate_mean ?n) (replicate (length (fst (hd samples))) f_zero) (map fst samples)"
  let ?r = "foldl (accumulate_mean ?n) (replicate (length (snd (hd samples))) f_zero) (map snd samples)"
  have same: "same_dims (length (fst (hd samples))) (length (snd (hd samples))) samples" and f: "fit_inner P X samples ?s ?r = Some t"
    using assms by (auto simp: fit_affine_def Let_def split: if_split_asm)
  have "length ?s = length (fst (hd samples))" "length ?r = length (snd (hd samples))"
    using same by (intro length_accumulate; force simp: same_dims_def list_all_iff)+
  moreover have "list_all is_f32 (foldl (accumulate_mean ?n) (replicate d f_zero) vs)" for d vs
    by (rule accumulate_f32) (simp add: list_all_iff)
  then have "list_all is_f32 (?s @ ?r)" by (simp only: list_all_append)
  ultimately show ?thesis using f by blast
qed

section \<open>A stored transform loads as long as its numbers are finite\<close>

definition stored_numbers :: "alignment \<Rightarrow> f32 list" where
  "stored_numbers t = concat (at_r t) @ at_mu_s t @ at_mu_r t @ [at_alpha t, at_confidence t]"

text \<open>What the text is relied on for: it is read back as the value that was written, when all numbers in it are finite binary32
  numbers.\<close>

fun writable :: "json_value \<Rightarrow> bool" where
  "writable (JFloat x) \<longleftrightarrow> fp_is_finite x \<and> is_f32 x"
| "writable (JArray js) \<longleftrightarrow> list_all writable js"
| "writable (JObject fs) \<longleftrightarrow> list_all (\<lambda>(k, j). writable j) fs"
| "writable _ \<longleftrightarrow> True"

definition text_ok :: "transform_text \<Rightarrow> bool" where
  "text_ok X \<longleftrightarrow> (\<forall>j bs. writable j \<longrightarrow> tt_json X j = Some bs \<longrightarrow> tt_parse X bs = Some j)"

lemma fields_of_alignment: "alignment_fields (json_of_alignment t) = Some
     [(ascii ''r'', JArray (map json_of_f32s (at_r t))), (ascii ''alpha'', json_of_f32 (at_alpha t)),
      (ascii ''dim_sender'', JNat (at_dim_sender t)), (ascii ''dim_receiver'', JNat (at_dim_receiver t)),
      (ascii ''mu_s'', json_of_f32s (at_mu_s t)), (ascii ''mu_r'', json_of_f32s (at_mu_r t)),
      (ascii ''confidence'', json_of_f32 (at_confidence t))]"
  by (simp add: json_of_alignment_def ascii_def)

lemma option_all_map_Some: "(\<And>x. x \<in> set xs \<Longrightarrow> f (g x) = Some x) \<Longrightarrow> option_all f (map g xs) = Some xs"
  by (induction xs) simp_all

lemma option_all_None: "x \<in> set xs \<Longrightarrow> f x = None \<Longrightarrow> option_all f xs = None"
  by (induction xs) (auto simp: bind_eq_None_conv)

lemma f32s_of_json:
  "list_of_json f32_of_json (json_of_f32s xs) = (if list_all fp_is_finite xs then Some xs else None)"
proof (cases "list_all fp_is_finite xs")
  case True
  then show ?thesis by (auto simp: json_of_f32s_def json_of_f32_def list_all_iff intro!: option_all_map_Some)
next
  case False
  then obtain x where "x \<in> set xs" "\<not> fp_is_finite x" by (auto simp: list_all_iff)
  then show ?thesis using False
    by (auto simp: json_of_f32s_def json_of_f32_def intro!: option_all_None[of "json_of_f32 x"])
qed

lemma rows_of_json:
  "option_all (list_of_json f32_of_json) (map json_of_f32s m) =
    (if list_all fp_is_finite (concat m) then Some m else None)"
proof (cases "list_all fp_is_finite (concat m)")
  case True
  then show ?thesis by (auto simp: f32s_of_json list_all_iff intro!: option_all_map_Some)
next
  case False
  then obtain r where "r \<in> set m" "\<not> list_all fp_is_finite r" by (auto simp: list_all_iff)
  then show ?thesis using False by (auto simp: f32s_of_json intro!: option_all_None[of "json_of_f32s r"])
qed

text \<open>Reading what was written restores the fields exactly when the numbers are finite.\<close>

lemma alignment_json_roundtrip:
  assumes "at_dim_sender t < 2 ^ 64" and "at_dim_receiver t < 2 ^ 64"
  shows "alignment_of_json (json_of_alignment t) =
    (if list_all fp_is_finite (stored_numbers t) then Some (t\<lparr> at_r_cached := None, at_hash_cached := None \<rparr>) else None)"
proof -
  have f: "Option.bind (Some (json_of_f32 x)) f32_of_json = (if fp_is_finite x then Some x else None)" for x
    by (simp add: json_of_f32_def)
  show ?thesis
    unfolding alignment_of_json_def fields_of_alignment field_or_empty_def stored_numbers_def using assms
    by (simp add: ascii_def rows_of_json f32s_of_json f[simplified])
qed

lemma alignment_json_writable: "list_all is_f32 (stored_numbers t) \<Longrightarrow> writable (json_of_alignment t)"
  by (auto simp: json_of_alignment_def json_of_f32s_def json_of_f32_def stored_numbers_def list_all_iff)

lemma fit_inner_f32:
  assumes "align_ops_ok P" and "fit_inner P X samples mu_s mu_r = Some t" and "list_all is_f32 (mu_s @ mu_r)"
  shows "list_all is_f32 (stored_numbers t)"
proof -
  have "list_all is_f32 (concat (procrustes_dense P d a b))" "list_all is_f32 (concat (procrustes_low_rank P d a b))" for d a b
    using f32_products[OF assms(1)]
    by (simp_all add: procrustes_dense_def procrustes_low_rank_def Let_def case_prod_beta f32_mat_map2)
  then show ?thesis using assms(2,3)
    by (auto simp: fit_inner_def finish_def stored_numbers_def Let_def split: if_split_asm)
qed

text \<open>C39. A fitted transform can be used, and survives storage as long as its numbers are finite. It maps every vector of the
  dimension of the senders, and no other, to one of the dimension of the receivers, and its content hash is the hash of
  its present fields. Written as JSON and read again it is refused when one of its numbers (the matrix, the means, the scale or
  the confidence) is not finite, since the JSON library writes these as null; when all are finite it loads, with its caches
  empty, maps every vector to the same result, and has the same content hash. Relied on: the JSON library reads back
  every value it writes whose numbers are finite binary32 numbers; dimensions fit 64 bits.\<close>

theorem fitted_transform_usable:
  assumes "align_ops_ok P" and "text_ok X" and "fit P X samples = Some t \<or> fit_affine P X samples = Some t"
    and "length (fst (hd samples)) < 2 ^ 64" and "length (snd (hd samples)) < 2 ^ 64"
  shows "alignment_dims t = (length (fst (hd samples)), length (snd (hd samples))) \<and>
    (\<forall>z. case transform_apply P t z of
        None \<Rightarrow> length z \<noteq> fst (alignment_dims t)
      | Some out \<Rightarrow> length z = fst (alignment_dims t) \<and> length out = snd (alignment_dims t)) \<and>
    alignment_content_hash X t = compute_content_hash X t \<and>
    (\<forall>bs. tt_json X (json_of_alignment t) = Some bs \<longrightarrow>
      (case alignment_load X bs of
         None \<Rightarrow> \<not> list_all fp_is_finite (stored_numbers t)
       | Some t' \<Rightarrow> list_all fp_is_finite (stored_numbers t) \<and> (\<forall>z. transform_apply P t' z = transform_apply P t z) \<and>
           alignment_content_hash X t' = alignment_content_hash X t))"
proof -
  obtain mu_s mu_r where f: "fit_inner P X samples mu_s mu_r = Some t"
    and mu: "mu_s = [] \<or> length mu_s = length (fst (hd samples))" "mu_r = [] \<or> length mu_r = length (snd (hd samples))"
    and mu32: "list_all is_f32 (mu_s @ mu_r)"
    using assms(3) fit_affine_inner[of P X samples t] unfolding fit_def by force
  note ok = fit_inner_ok[OF assms(1) f mu]
  then have t: "shaped (at_dim_sender t) (at_dim_receiver t) (at_r t)" "at_r_cached t = Some (at_r t)"
    "at_mu_s t = [] \<or> length (at_mu_s t) = at_dim_sender t" "at_mu_r t = [] \<or> length (at_mu_r t) = at_dim_receiver t"
    unfolding alignment_ok_def by blast+
  let ?t = "t\<lparr> at_r_cached := None, at_hash_cached := None \<rparr>"
  have pos: "0 < at_dim_sender t" using ok by blast
  have "length (concat (at_r t)) = at_dim_sender t * at_dim_receiver t"
    using t(1) by (rule length_concat_shaped)
  then have p: "projection t = Some (at_r t)" "projection ?t = Some (at_r t)"
    using t(2) reshape_concat[OF t(1)] by (simp_all add: projection_def)
  have same: "transform_apply P ?t z = transform_apply P t z" for z
    unfolding transform_apply_def p Let_def by simp
  have usable: "case transform_apply P t z of None \<Rightarrow> length z \<noteq> at_dim_sender t
      | Some out \<Rightarrow> length z = at_dim_sender t \<and> length out = at_dim_receiver t" for z
  proof (cases "length z = at_dim_sender t")
    case True
    have "shaped 1 (at_dim_receiver t) (al_mul P [if at_mu_s t = [] then z else map2 f_sub z (at_mu_s t)] (at_r t))"
      using True t(3) by (intro shaped_mul[OF assms(1) pos _ t(1)]) (auto simp: shaped_def)
    then have "length (concat (al_mul P [if at_mu_s t = [] then z else map2 f_sub z (at_mu_s t)] (at_r t))) = at_dim_receiver t"
      by (auto simp: shaped_def length_Suc_conv)
    then show ?thesis using True t(4) by (auto simp: transform_apply_def p Let_def)
  qed (simp add: transform_apply_def)
  have hash: "alignment_content_hash X ?t = alignment_content_hash X t" "alignment_content_hash X t = compute_content_hash X t"
    using ok by (simp_all add: alignment_content_hash_def compute_content_hash_def json_of_alignment_def)
  have dims: "at_dim_sender t < 2 ^ 64" "at_dim_receiver t < 2 ^ 64" using ok assms(4,5) by (auto simp: alignment_dims_def)
  have "alignment_load X bs = (if list_all fp_is_finite (stored_numbers t) then Some ?t else None)"
    if "tt_json X (json_of_alignment t) = Some bs" for bs
    using assms(2) that alignment_json_writable[OF fit_inner_f32[OF assms(1) f mu32]] alignment_json_roundtrip[OF dims]
    by (simp add: text_ok_def alignment_load_def)
  then show ?thesis using ok same usable hash unfolding alignment_dims_def fst_conv snd_conv by auto
qed

definition zero_ops :: align_ops where
  "zero_ops = \<lparr> al_mul = \<lambda>a b. replicate (length a) (replicate (length (hd b)) f_zero),
     al_qr = \<lambda>m. (m, if m = [] then [] else replicate (length (hd m)) (replicate (length (hd m)) f_zero)),
     al_svd = \<lambda>m. (replicate (length m) (replicate (min (length m) (length (hd m))) f_zero),
       replicate (min (length m) (length (hd m))) (replicate (length (hd m)) f_zero)),
     al_norm = \<lambda>_. f_one, al_mul64 = \<lambda>a b. a, al_symmetric_eigen = \<lambda>_. ([], []), al_sqrt64 = \<lambda>x. x \<rparr>"

lemma hd_width: "shaped n w m \<Longrightarrow> 0 < n \<Longrightarrow> length (hd m) = w"
  by (cases m) (auto simp: shaped_def)

lemma zero_ops_ok: "align_ops_ok zero_ops"
proof -
  have "shaped n w (al_mul zero_ops a b)" if "0 < k" "shaped n k a" "shaped k w b" for n k w a b
    using hd_width[OF that(3,1)] that(2) by (simp add: zero_ops_def shaped_def)
  moreover have "shaped n w (fst (al_qr zero_ops m)) \<and> shaped w w (snd (al_qr zero_ops m))" if "shaped n w m" "w \<le> n" for n w m
  proof (cases "m = []")
    case False
    then have "0 < n" using that(1) by (auto simp: shaped_def)
    then show ?thesis using hd_width[OF that(1)] that(1) False by (simp add: zero_ops_def) (simp add: shaped_def)
  qed (use that in \<open>auto simp: zero_ops_def shaped_def\<close>)
  moreover have "shaped n (min n w) (fst (al_svd zero_ops m)) \<and> shaped (min n w) w (snd (al_svd zero_ops m))" if "shaped n w m" for n w m
  proof (cases "n = 0")
    case False
    then show ?thesis using hd_width[OF that] that by (simp add: zero_ops_def shaped_def)
  qed (use that in \<open>simp add: zero_ops_def shaped_def\<close>)
  moreover have "list_all is_f32 (concat (al_mul zero_ops a b))" for a b by (auto simp: zero_ops_def list_all_iff)
  ultimately show ?thesis unfolding align_ops_ok_def by blast
qed

lemma unit_products [simp]:
  "f_mul f_one f_one = f_one" "f_mul f_one f_zero = f_zero" "f_mul f_zero f_one = f_zero" "f_mul f_zero f_zero = f_zero"
  "f_add f_zero f_one = f_one" "f_add f_one f_zero = f_one" "f_sub f_one f_one = f_zero" "f_sub f_zero f_zero = f_zero"
  "f_sub f_one f_zero = f_one"
  using fp_round_exact[of 1 binary32 0] by (simp_all add: fp_sub_def fp_round_def pow2_def binary32_def)

lemma f32_of_nonneg:
  assumes "0 \<le> q"
  shows "f32_of q = Inf False \<or> (\<exists>m. f32_of q = Fin False m \<and> 0 \<le> m)"
  using assms round_magnitude_nonneg[of q binary32] by (auto simp: fp_of_rat_def fp_round_def Let_def)

lemma tiny_bound: "0 \<le> q \<Longrightarrow> \<not> fp_lt (f32_of q) f_zero"
  using f32_of_nonneg[of q] by auto

lemma finite_clamp: "x \<noteq> NaN \<Longrightarrow> fp_is_finite (fp_clamp x f_zero f_one)"
  by (cases x) (auto simp: fp_clamp_def Let_def)

lemma unit_residual:
  assumes "0 \<le> q"
  shows "fp_is_finite (fp_clamp (f_sub f_one (f_div f_one (fp_max f_one (f32_of q)))) f_zero f_one)"
proof (rule finite_clamp)
  have "fp_max f_one (f32_of q) = Inf False \<or> (\<exists>m. fp_max f_one (f32_of q) = Fin False m \<and> 0 < m)"
    using f32_of_nonneg[OF assms] by (auto simp: fp_max_def)
  then show "f_sub f_one (f_div f_one (fp_max f_one (f32_of q))) \<noteq> NaN"
    by (elim disjE exE conjE) (simp_all add: fp_sub_def fp_round_def Let_def)
qed

definition demo_transform :: alignment where
  "demo_transform = finish zero_ops \<lparr> tt_json = \<lambda>_. None, tt_parse = \<lambda>_. None, tt_crypto = demo_crypto \<rparr>
     [[f_one, f_zero]] [[f_one]] (procrustes_dense zero_ops 2 [[f_one, f_zero]] [[f_one]]) 2 1 [] []"

definition demo_text :: transform_text where
  "demo_text = \<lparr> tt_json = \<lambda>j. if j = json_of_alignment demo_transform then Some [0] else None,
     tt_parse = \<lambda>_. Some (json_of_alignment demo_transform), tt_crypto = demo_crypto \<rparr>"

theorem fitted_transform_usable_witness:
  "\<exists>t t'. fit zero_ops demo_text [([f_one, f_zero], [f_one])] = Some t \<and> alignment_dims t = (2, 1) \<and>
    alignment_load demo_text [0] = Some t' \<and> transform_apply zero_ops t' [f_zero, f_one] = transform_apply zero_ops t [f_zero, f_one]"
proof -
  obtain t where t: "fit zero_ops demo_text [([f_one, f_zero], [f_one])] = Some t"
    "t = finish zero_ops demo_text [[f_one, f_zero]] [[f_one]] (procrustes_dense zero_ops 2 [[f_one, f_zero]] [[f_one]]) 2 1 [] []"
    by (simp add: fit_def fit_inner_def same_dims_def centered_def Let_def numeral_2_eq_2)
  have "json_of_alignment t = json_of_alignment demo_transform"
    by (simp add: t(2) demo_transform_def finish_def json_of_alignment_def Let_def)
  then have written: "tt_json demo_text (json_of_alignment t) = Some [0]" by (simp add: demo_text_def)
  have "text_ok demo_text" by (simp add: text_ok_def demo_text_def)
  note facts = fitted_transform_usable[OF zero_ops_ok this disjI1[OF t(1)]]
  have "list_all fp_is_finite (stored_numbers t)"
    using tiny_bound[of "1 / 10 ^ 12"] unit_residual[of "1 / 10 ^ 6"]
    by (simp add: t(2) finish_def stored_numbers_def procrustes_dense_def zero_ops_def transposed_def f_sum_def mat_map2_def
        Let_def numeral_2_eq_2 del: fp_add.simps fp_mul.simps)
  then show ?thesis using facts written t(1) by (auto split: option.splits)
qed

section \<open>The fast solver is not orthogonal\<close>

definition plain_mul :: "rows \<Rightarrow> rows \<Rightarrow> rows" where
  "plain_mul a b = map (\<lambda>r. map (\<lambda>j. f_sum (map2 f_mul r (map (\<lambda>s. s ! j) b))) [0..<length (hd b)]) a"

text \<open>One pair that sends the first axis to the second one. Its decompositions are exact.\<close>

definition axis_ops :: align_ops where
  "axis_ops = \<lparr> al_mul = plain_mul, al_qr = \<lambda>_. ([[f_one], [f_zero]], [[f_one]]), al_svd = \<lambda>_. ([[f_one]], [[f_zero, f_one]]),
     al_norm = \<lambda>_. f_zero, al_mul64 = \<lambda>a b. a, al_symmetric_eigen = \<lambda>_. ([], []), al_sqrt64 = \<lambda>x. x \<rparr>"

lemmas axis_defs = axis_ops_def plain_mul_def transposed_def mat_map2_def identity_matrix_def f_sum_def numeral_2_eq_2

lemma axis_solution: "procrustes_low_rank axis_ops 2 [[f_one, f_zero]] [[f_zero, f_one]] = [[f_zero, f_one], [f_zero, f_one]]"
  by (simp add: procrustes_low_rank_def axis_defs del: fp_add.simps fp_mul.simps)

theorem low_rank_collapses:
  "let a = [[f_one, f_zero]]; b = [[f_zero, f_one]]; (q, r) = al_qr axis_ops (transposed 2 a);
       w = al_mul axis_ops r b; (u, v_t) = al_svd axis_ops w; m = procrustes_low_rank axis_ops 2 a b
   in al_mul axis_ops q r = transposed 2 a \<and> al_mul axis_ops (transposed 1 q) q = identity_matrix 1 \<and>
      al_mul axis_ops u v_t = w \<and> al_mul axis_ops v_t (transposed 2 v_t) = identity_matrix 1 \<and>
      al_mul axis_ops a m = b \<and> al_mul axis_ops [[f_zero, f_one]] m = b \<and>
      al_mul axis_ops m (transposed 2 m) \<noteq> identity_matrix 2"
  unfolding Let_def axis_solution
  by (simp add: axis_defs del: fp_add.simps fp_mul.simps)

end
