(* ===== verification/Train_Split.thy ===== *)
theory Train_Split
  imports Cognitum Decimal Latent_Gate Float_Order
begin

text \<open>
  The split discipline of the experiments: \<open>latentmesh-train/src/split.rs\<close>, with the copy of it in the harness, and the
  permutation null of \<open>harness/latentmesh-live/src/permnull.rs\<close>. The generator and the shuffle of the crate \<open>rand\<close> are
  parameters.
\<close>

section \<open>Splits\<close>

record 'r shuffler =
  sh_seed :: "u64 \<Rightarrow> 'r"
  sh_shuffle :: "nat list \<Rightarrow> 'r \<Rightarrow> nat list \<times> 'r"

text \<open>A shuffle permutes.\<close>

definition shuffle_ok :: "'r shuffler \<Rightarrow> bool" where
  "shuffle_ok S \<longleftrightarrow> (\<forall>xs r. mset (fst (sh_shuffle S xs r)) = mset xs)"

definition FIT_SPLIT_SEED :: u64 where "FIT_SPLIT_SEED = 0x24C0DE03"

definition PROBE_OVERLAP_ROWS :: "nat list" where
  "PROBE_OVERLAP_ROWS = [69, 683, 824, 1258, 1281, 1346, 1577, 1586, 1647, 2052, 2058, 2078, 2529]"

definition PROBE_OVERLAP_ROW_ITEMS :: "(nat \<times> nat) list" where
  "PROBE_OVERLAP_ROW_ITEMS =
     [(69, 150), (683, 1309), (824, 1573), (1258, 2365), (1281, 2418), (1346, 2540), (1577, 2958), (1586, 2973),
      (1647, 3084), (2052, 3825), (2058, 3844), (2078, 3877), (2529, 4746)]"

definition fit_holdout_split :: "'r shuffler \<Rightarrow> nat \<Rightarrow> u64 \<Rightarrow> nat list \<times> nat list" where
  "fit_holdout_split S n seed =
     (let order = fst (sh_shuffle S [0..<n] (sh_seed S seed)); n_fit = n * 8 div 10
      in (take n_fit order, drop n_fit order))"

record excluded_row =
  ex_row :: nat
  ex_item :: nat
  ex_side :: string

record leakage_split =
  ls_fit :: "nat list"
  ls_holdout :: "nat list"
  ls_excluded :: "excluded_row list"

definition leakage_safe_split :: "'r shuffler \<Rightarrow> nat \<Rightarrow> leakage_split" where
  "leakage_safe_split S n =
     (let (fit_all, holdout_all) = fit_holdout_split S n FIT_SPLIT_SEED
      in \<lparr> ls_fit = filter (\<lambda>r. r \<notin> set PROBE_OVERLAP_ROWS) fit_all,
           ls_holdout = filter (\<lambda>r. r \<notin> set PROBE_OVERLAP_ROWS) holdout_all,
           ls_excluded = map (\<lambda>(row, item).
             \<lparr> ex_row = row, ex_item = item, ex_side = (if row \<in> set fit_all then ''fit'' else ''holdout'') \<rparr>)
             PROBE_OVERLAP_ROW_ITEMS \<rparr>)"

fun joined :: "bytes \<Rightarrow> bytes list \<Rightarrow> bytes" where
  "joined sep [] = []"
| "joined sep [t] = t"
| "joined sep (t # ts) = t @ sep @ joined sep ts"

definition rows_sha256 :: "crypto \<Rightarrow> nat list \<Rightarrow> bytes" where
  "rows_sha256 K rs = hex_sha256 K (joined (ascii '','') (map decimal rs))"

section \<open>The permutation null\<close>

definition PERM_SEED_BASE :: u64 where "PERM_SEED_BASE = 0x00A6202608280001"

text \<open>Write the values at the positions; an index out of range is a panic.\<close>

fun assign :: "nat list \<Rightarrow> (nat \<times> nat) list \<Rightarrow> nat list option" where
  "assign sigma [] = Some sigma"
| "assign sigma ((p, v) # pvs) = (if p < length sigma then assign (sigma[p := v]) pvs else None)"

definition within_split_permutation :: "'r shuffler \<Rightarrow> nat \<Rightarrow> nat list \<Rightarrow> nat list \<Rightarrow> u64 \<Rightarrow> nat list option" where
  "within_split_permutation S n fit_idx holdout_idx seed =
     (let (fit_vals, r) = sh_shuffle S fit_idx (sh_seed S seed);
          (holdout_vals, _) = sh_shuffle S holdout_idx r
      in Option.bind (assign [0..<n] (zip fit_idx fit_vals)) (\<lambda>sigma. assign sigma (zip holdout_idx holdout_vals)))"

definition fixed_points :: "nat list \<Rightarrow> nat" where
  "fixed_points sigma = length (filter (\<lambda>(i, s). i = s) (enumerate 0 sigma))"

record depth_matrix =
  dm_layer :: nat
  dm_rows :: "f32 list list"

definition permute_rows :: "depth_matrix \<Rightarrow> nat list \<Rightarrow> depth_matrix option" where
  "permute_rows m sigma =
     (if list_all (\<lambda>s. s < length (dm_rows m)) sigma
      then Some \<lparr> dm_layer = dm_layer m, dm_rows = map (\<lambda>s. dm_rows m ! s) sigma \<rparr> else None)"

record null_stats =
  nu_mean :: f64
  nu_sd :: f64
  nu_min :: f64
  nu_max :: f64
  nu_z :: f64
  nu_n_le_real :: nat
  nu_percentile :: f64
  nu_p_one_sided :: f64

abbreviation d_one :: f64 where "d_one \<equiv> Fin False 1"

definition p_one_sided :: "nat \<Rightarrow> nat \<Rightarrow> f64" where
  "p_one_sided n_le n = d_div (d_add (f64_of (of_nat n_le)) d_one) (d_add (f64_of (of_nat n)) d_one)"

definition null_stats_of :: "(f64 \<Rightarrow> f64) \<Rightarrow> f64 list \<Rightarrow> f64 \<Rightarrow> null_stats" where
  "null_stats_of sqrt64 nulls actual =
     (let len = max (length nulls) 1; n = f64_of (of_nat len);
          mean = d_div (d_sum nulls) n;
          var = (if 1 < length nulls
            then d_div (d_sum (map (\<lambda>v. d_mul (d_sub v mean) (d_sub v mean)) nulls)) (d_sub n d_one) else Fin False 0);
          sd = sqrt64 var;
          n_le = length (filter (\<lambda>v. fp_le v actual) nulls)
      in \<lparr> nu_mean = mean, nu_sd = sd, nu_min = foldl fp_min (Inf False) nulls, nu_max = foldl fp_max (Inf True) nulls,
           nu_z = (if fp_lt (Fin False 0) sd then d_div (d_sub actual mean) sd else Fin False 0), nu_n_le_real = n_le,
           nu_percentile = d_div (f64_of (of_nat n_le)) n, nu_p_one_sided = p_one_sided n_le len \<rparr>)"

section \<open>No probe row leaks\<close>

lemma probe_items: "map fst PROBE_OVERLAP_ROW_ITEMS = PROBE_OVERLAP_ROWS"
  by (simp add: PROBE_OVERLAP_ROW_ITEMS_def PROBE_OVERLAP_ROWS_def)

lemma split_partition:
  assumes "shuffle_ok S" and "fit_holdout_split S n seed = (fit, holdout)"
  shows "distinct (fit @ holdout)" and "set (fit @ holdout) = {0..<n}" and "length fit = n * 8 div 10"
    and "length holdout = n - n * 8 div 10"
proof -
  let ?order = "fst (sh_shuffle S [0..<n] (sh_seed S seed))"
  have "mset ?order = mset [0..<n]" using assms(1) unfolding shuffle_ok_def by blast
  then have o: "distinct ?order" "set ?order = {0..<n}" "length ?order = n"
    by (metis distinct_upt mset_eq_imp_distinct_iff) (metis \<open>mset ?order = mset [0..<n]\<close> mset_eq_setD set_upt,
      metis \<open>mset ?order = mset [0..<n]\<close> length_upt minus_nat.diff_0 size_mset)
  have "fit @ holdout = ?order" using assms(2) by (auto simp: fit_holdout_split_def Let_def)
  then show "distinct (fit @ holdout)" "set (fit @ holdout) = {0..<n}" using o by simp_all
  have "n * 8 div 10 \<le> n" by simp
  then show "length fit = n * 8 div 10" "length holdout = n - n * 8 div 10"
    using assms(2) o(3) by (auto simp: fit_holdout_split_def Let_def)
qed

text \<open>C33. The split leaks nothing: whatever the shuffle, no row of the probe set is on either side, no row is on both, every
  other row is on one, without repetition; and the audit lists every probe row with the side it was taken from.\<close>

theorem leakage_safe:
  assumes "shuffle_ok S"
  shows "let s = leakage_safe_split S n; (fit_all, holdout_all) = fit_holdout_split S n FIT_SPLIT_SEED in
    distinct (ls_fit s @ ls_holdout s) \<and> set (ls_fit s) \<union> set (ls_holdout s) = {0..<n} - set PROBE_OVERLAP_ROWS \<and>
    map ex_row (ls_excluded s) = PROBE_OVERLAP_ROWS \<and>
    (\<forall>e\<in>set (ls_excluded s). ex_row e < n \<longrightarrow>
      ex_side e = (if ex_row e \<in> set fit_all then ''fit'' else ''holdout'') \<and>
      (ex_side e = ''holdout'' \<longleftrightarrow> ex_row e \<in> set holdout_all))"
proof -
  obtain fit holdout where sp: "fit_holdout_split S n FIT_SPLIT_SEED = (fit, holdout)" by fastforce
  note p = split_partition[OF assms sp]
  have s: "leakage_safe_split S n =
      \<lparr> ls_fit = filter (\<lambda>r. r \<notin> set PROBE_OVERLAP_ROWS) fit, ls_holdout = filter (\<lambda>r. r \<notin> set PROBE_OVERLAP_ROWS) holdout,
        ls_excluded = map (\<lambda>(row, item). \<lparr> ex_row = row, ex_item = item,
          ex_side = (if row \<in> set fit then ''fit'' else ''holdout'') \<rparr>) PROBE_OVERLAP_ROW_ITEMS \<rparr>"
    by (simp add: leakage_safe_split_def sp)
  have "map ex_row (ls_excluded (leakage_safe_split S n)) = PROBE_OVERLAP_ROWS"
    unfolding s probe_items[symmetric] by (simp add: comp_def split_def)
  moreover have "distinct (ls_fit (leakage_safe_split S n) @ ls_holdout (leakage_safe_split S n))" unfolding s using p(1) by auto
  moreover have "set (ls_fit (leakage_safe_split S n)) \<union> set (ls_holdout (leakage_safe_split S n)) =
      {0..<n} - set PROBE_OVERLAP_ROWS" unfolding s using p(2) by auto
  moreover have "ex_side e = (if ex_row e \<in> set fit then ''fit'' else ''holdout'') \<and>
      (ex_side e = ''holdout'' \<longleftrightarrow> ex_row e \<in> set holdout)"
    if "e \<in> set (ls_excluded (leakage_safe_split S n))" "ex_row e < n" for e
  proof -
    have side: "ex_side e = (if ex_row e \<in> set fit then ''fit'' else ''holdout'')" using that(1) unfolding s by auto
    have "ex_row e \<in> set fit \<longleftrightarrow> ex_row e \<notin> set holdout" using that(2) p(1,2) by auto
    then show ?thesis using side by simp
  qed
  ultimately show ?thesis unfolding sp Let_def prod.case by blast
qed

theorem leakage_safe_witness:
  "let S = \<lparr> sh_seed = (\<lambda>_. ()), sh_shuffle = (\<lambda>xs r. (rev xs, r)) \<rparr>; s = leakage_safe_split S 80 in
    set (ls_fit s) \<union> set (ls_holdout s) = {0..<80} - {69}"
proof -
  define S where "S = \<lparr> sh_seed = (\<lambda>_. ()), sh_shuffle = (\<lambda>xs r. (rev xs, r)) \<rparr>"
  have "shuffle_ok S" by (simp add: S_def shuffle_ok_def)
  moreover have "{0..<80} - set PROBE_OVERLAP_ROWS = {0..<80} - {69}" by (auto simp: PROBE_OVERLAP_ROWS_def)
  ultimately show ?thesis using leakage_safe[of S 80] unfolding S_def[symmetric] Let_def split_def by simp
qed

section \<open>The permutation keeps its blocks\<close>

lemma assign_works:
  "length ps = length vs \<Longrightarrow> distinct ps \<Longrightarrow> set ps \<subseteq> {0..<length sigma} \<Longrightarrow>
    \<exists>t. assign sigma (zip ps vs) = Some t \<and> length t = length sigma \<and>
      (\<forall>j<length sigma. t ! j = (case map_of (zip ps vs) j of None \<Rightarrow> sigma ! j | Some v \<Rightarrow> v))"
proof (induction ps vs arbitrary: sigma rule: list_induct2)
  case (Cons p ps v vs)
  obtain t where t: "assign (sigma[p := v]) (zip ps vs) = Some t" "length t = length sigma"
    "\<forall>j<length sigma. t ! j = (case map_of (zip ps vs) j of None \<Rightarrow> sigma[p := v] ! j | Some w \<Rightarrow> w)"
    using Cons.IH[of "sigma[p := v]"] Cons.prems by auto
  have "map_of (zip ps vs) p = None" using Cons.prems(1) Cons.hyps by simp
  with t Cons.prems show ?case by (auto simp: nth_list_update split: option.splits)
qed simp

lemma map_of_zip_member:
  "length ps = length vs \<Longrightarrow> distinct ps \<Longrightarrow> v \<in> set vs \<Longrightarrow> \<exists>p\<in>set ps. map_of (zip ps vs) p = Some v"
  by (metis in_set_conv_nth map_of_zip_nth nth_mem)

text \<open>C34. The null keeps the split: over two disjoint blocks of rows a permutation never panics and is one, every row of the
  fit block is paired with a row of the fit block, every row held out with one held out, and any other row with itself.\<close>

theorem null_keeps_split:
  assumes "shuffle_ok S" and "distinct (fit @ holdout)" and "set (fit @ holdout) \<subseteq> {0..<n}"
  shows "\<exists>sigma. within_split_permutation S n fit holdout seed = Some sigma \<and> length sigma = n \<and>
    distinct sigma \<and> set sigma = {0..<n} \<and>
    (\<forall>i<n. (sigma ! i \<in> set fit \<longleftrightarrow> i \<in> set fit) \<and> (sigma ! i \<in> set holdout \<longleftrightarrow> i \<in> set holdout) \<and>
      (i \<notin> set (fit @ holdout) \<longrightarrow> sigma ! i = i))"
proof -
  obtain fv r where f: "sh_shuffle S fit (sh_seed S seed) = (fv, r)" by fastforce
  obtain hv r' where h: "sh_shuffle S holdout r = (hv, r')" by fastforce
  have mf: "mset fv = mset fit" and mh: "mset hv = mset holdout"
    using assms(1) f h unfolding shuffle_ok_def by (metis fst_conv)+
  note lf = mset_eq_length[OF mf] and lh = mset_eq_length[OF mh] and sf = mset_eq_setD[OF mf] and sh = mset_eq_setD[OF mh]
  have d: "distinct fit" "distinct holdout" "set fit \<inter> set holdout = {}" using assms(2) by auto
  obtain t where t: "assign [0..<n] (zip fit fv) = Some t" "length t = n"
    "\<forall>j<n. t ! j = (case map_of (zip fit fv) j of None \<Rightarrow> j | Some v \<Rightarrow> v)"
    using assign_works[of fit fv "[0..<n]"] lf d(1) assms(3) by (force cong: option.case_cong)
  obtain u where u: "assign t (zip holdout hv) = Some u" "length u = n"
    "\<forall>j<n. u ! j = (case map_of (zip holdout hv) j of None \<Rightarrow> t ! j | Some v \<Rightarrow> v)"
    using assign_works[of holdout hv t] lh d(2) assms(3) t(2) by auto
  have off: "map_of (zip ps vs) j = None \<longleftrightarrow> j \<notin> set ps" if "length ps = length vs" for ps vs :: "nat list" and j
    using that by (simp add: map_of_zip_is_None)
  have inf: "v \<in> set fit" if "map_of (zip fit fv) j = Some v" for j v
    using that sf by (metis map_of_SomeD set_zip_rightD)
  have inh: "v \<in> set holdout" if "map_of (zip holdout hv) j = Some v" for j v
    using that sh by (metis map_of_SomeD set_zip_rightD)
  have val: "(i \<in> set fit \<longrightarrow> map_of (zip fit fv) i = Some (u ! i)) \<and> (i \<in> set holdout \<longrightarrow> map_of (zip holdout hv) i = Some (u ! i)) \<and>
      (i \<notin> set (fit @ holdout) \<longrightarrow> u ! i = i)" if "i < n" for i
    using that u(3) t(3) off[OF lf[symmetric], of i] off[OF lh[symmetric], of i] d(3) by (auto split: option.splits)
  have onto: "x \<in> set u" if "x < n" for x
  proof -
    consider "x \<in> set fv" | "x \<in> set hv" | "x \<notin> set (fit @ holdout)" using sf sh by auto
    then show ?thesis
    proof cases
      case 1
      then obtain p where "p \<in> set fit" "map_of (zip fit fv) p = Some x" using map_of_zip_member[OF lf[symmetric] d(1)] by blast
      then show ?thesis using val[of p] assms(3) u(2) by (metis (no_types) Un_iff atLeastLessThan_iff nth_mem option.inject set_append subsetD)
    next
      case 2
      then obtain p where "p \<in> set holdout" "map_of (zip holdout hv) p = Some x" using map_of_zip_member[OF lh[symmetric] d(2)] by blast
      then show ?thesis using val[of p] assms(3) u(2) by (metis (no_types) Un_iff atLeastLessThan_iff nth_mem option.inject set_append subsetD)
    next
      case 3
      then show ?thesis using val[of x] that u(2) by (metis nth_mem)
    qed
  qed
  then have sub: "{0..<n} \<subseteq> set u" by auto
  then have eq: "set u = {0..<n}" using card_length[of u] u(2) by (metis card_atLeastLessThan card_seteq diff_zero List.finite_set)
  then have "distinct u" using u(2) by (simp add: card_distinct)
  moreover have "within_split_permutation S n fit holdout seed = Some u"
    by (simp add: within_split_permutation_def f h t(1) u(1))
  moreover have "(u ! i \<in> set fit \<longleftrightarrow> i \<in> set fit) \<and> (u ! i \<in> set holdout \<longleftrightarrow> i \<in> set holdout) \<and>
      (i \<notin> set (fit @ holdout) \<longrightarrow> u ! i = i)" if "i < n" for i
    using val[OF that] inf[of i] inh[of i] d(3) by (metis (no_types, lifting) Un_iff disjoint_iff set_append)
  ultimately show ?thesis using eq u(2) by blast
qed

theorem null_keeps_split_witness:
  "\<exists>sigma. within_split_permutation \<lparr> sh_seed = (\<lambda>_. ()), sh_shuffle = (\<lambda>xs r. (rev xs, r)) \<rparr> 5 [3, 0] [1, 4] 7 = Some sigma \<and>
    set sigma = {0..<5} \<and> sigma ! 2 = 2"
  using null_keeps_split[of "\<lparr> sh_seed = (\<lambda>_. ()), sh_shuffle = (\<lambda>xs r. (rev xs, r)) \<rparr>" "[3, 0]" "[1, 4]" 5 7]
  by (auto simp: shuffle_ok_def)

end
