(* ===== verification/Train_Items.thy ===== *)
theory Train_Items
  imports Runtime_Generate Train_Split
begin

text \<open>
  The training items of \<open>latentmesh-train/src/taskdata.rs\<close>: the prompts, the answers of the data set, the positions
  of the injection and the sequences under the length cap. Files are their bytes; the tokenizer and the JSON reader of
  a line are parameters. \<open>None\<close> is an error or a panic; the arithmetic is taken to be checked.
\<close>

section \<open>Texts\<close>

text \<open>\<open>str::find\<close>, the part of \<open>rsplit_once\<close> after the last match, and the first word of \<open>split_whitespace\<close>.\<close>

definition starts_with :: "bytes \<Rightarrow> bytes \<Rightarrow> bool" where
  "starts_with pat bs \<longleftrightarrow> take (length pat) bs = pat"

fun find_bytes :: "bytes \<Rightarrow> bytes \<Rightarrow> nat option" where
  "find_bytes pat [] = (if pat = [] then Some 0 else None)"
| "find_bytes pat (b # bs) = (if starts_with pat (b # bs) then Some 0 else map_option Suc (find_bytes pat bs))"

fun after_last :: "bytes \<Rightarrow> bytes \<Rightarrow> bytes option" where
  "after_last pat [] = (if pat = [] then Some [] else None)"
| "after_last pat (b # bs) =
     (case after_last pat bs of
        Some r \<Rightarrow> Some r
      | None \<Rightarrow> if starts_with pat (b # bs) then Some (drop (length pat) (b # bs)) else None)"

definition white_at :: "bytes \<Rightarrow> bool" where
  "white_at bs \<longleftrightarrow> list_ex (\<lambda>w. starts_with w bs) white_space"

fun take_word :: "bytes \<Rightarrow> bytes" where
  "take_word [] = []"
| "take_word (b # bs) = (if white_at (b # bs) then [] else b # take_word bs)"

definition first_word :: "bytes \<Rightarrow> bytes option" where
  "first_word bs = (case take_word (trim_start bs) of [] \<Rightarrow> None | w \<Rightarrow> Some w)"

definition extract_final_answer :: "bytes \<Rightarrow> bytes option" where
  "extract_final_answer bs = do {
     rest \<leftarrow> after_last (ascii ''####'') bs;
     token \<leftarrow> first_word rest;
     let cleaned = rev (dropWhile (\<lambda>b. b = 46) (rev (filter (\<lambda>b. is_digit b \<or> b = 45 \<or> b = 46) token)));
     if cleaned = [] then None else Some cleaned
   }"

text \<open>The annotations of the data set are cut out; one that is not closed takes the rest of the text with it.\<close>

abbreviation angle_open :: bytes where "angle_open \<equiv> [60, 60]"
abbreviation angle_close :: bytes where "angle_close \<equiv> [62, 62]"

lemma find_bytes_nonempty: "find_bytes pat bs = Some i \<Longrightarrow> pat \<noteq> [] \<Longrightarrow> bs \<noteq> []"
  by (cases bs) auto

function render_gold :: "bytes \<Rightarrow> bytes" where
  "render_gold bs =
     (case find_bytes angle_open bs of
        None \<Rightarrow> bs
      | Some i \<Rightarrow> take i bs @
          (case find_bytes angle_close (drop i bs) of
             Some j \<Rightarrow> render_gold (drop (i + j + 2) bs)
           | None \<Rightarrow> []))"
  by pat_completeness auto

termination
  by (relation "measure length") (auto dest: find_bytes_nonempty)

declare render_gold.simps [simp del]

text \<open>\<open>str::lines\<close>: a line that ends in a line break loses one carriage return before it.\<close>

function text_lines :: "bytes \<Rightarrow> bytes list" where
  "text_lines bs =
     (if bs = [] then []
      else let line = takeWhile (\<lambda>b. b \<noteq> newline) bs; rest = dropWhile (\<lambda>b. b \<noteq> newline) bs
        in (if rest \<noteq> [] \<and> line \<noteq> [] \<and> last line = 13 then butlast line else line) # text_lines (drop 1 rest))"
  by pat_completeness auto

termination
proof (relation "measure length")
  fix bs line rest :: bytes
  assume "bs \<noteq> []" "rest = dropWhile (\<lambda>b. b \<noteq> newline) bs"
  then show "(drop 1 rest, bs) \<in> measure length"
    using length_dropWhile_le[of "\<lambda>b. b \<noteq> newline" bs] by (cases bs) auto
qed simp

declare text_lines.simps [simp del]

section \<open>Prompts\<close>

definition SYSTEM :: bytes where "SYSTEM = ascii ''You are a careful math tutor.''"

definition ANSWER_FORMAT :: bytes where
  "ANSWER_FORMAT =
     ascii ''Solve the problem step by step. Then write the final line in exactly this format:'' @ [newline] @
     ascii ''#### <numeric answer>'' @ [newline] @
     ascii ''For example, if the answer were 5, the last line must be: #### 5''"

definition user_turn :: "bytes \<Rightarrow> bytes" where
  "user_turn question = question @ [newline, newline] @ ANSWER_FORMAT"

definition capture_prompt :: "bytes \<Rightarrow> bytes" where
  "capture_prompt question = chat_prompt SYSTEM (user_turn question)"

definition injection_prompt :: "bytes \<Rightarrow> nat \<Rightarrow> bytes" where
  "injection_prompt question n_slots =
     chat_prompt SYSTEM (question @ [newline, newline] @
       ascii ''A compressed latent hint from a previous solver is stored in these slots: ['' @
       concat (replicate n_slots (ascii ''<|fim_pad|>'')) @ ascii '']'' @ [newline, newline] @ ANSWER_FORMAT)"

section \<open>Streams and questions\<close>

record stream_row =
  sr_row :: nat
  sr_item :: nat
  sr_prompt_tokens :: "u32 list"
  sr_gen_tokens :: "u32 list"
  sr_correct :: bool

record data_json =
  dj_stream :: "bytes \<Rightarrow> stream_row option"
  dj_question :: "bytes \<Rightarrow> (bytes \<times> bytes) option"

definition STREAMS_SHA256 :: bytes where
  "STREAMS_SHA256 = ascii ''ad5713116cb5acf663fe9c33ac58aaedb1fd64fcf629dd78b21439d244958539''"

definition GSM8K_TRAIN_SHA256 :: bytes where
  "GSM8K_TRAIN_SHA256 = ascii ''17f347dc51477c50d4efb83959dbb7c56297aba886e5544ee2aaed3024813465''"

definition read_pinned :: "crypto \<Rightarrow> bytes \<Rightarrow> bytes \<Rightarrow> bytes option" where
  "read_pinned K file expected = (if hex_sha256 K file = expected then Some file else None)"

definition data_lines :: "crypto \<Rightarrow> bytes \<Rightarrow> bytes \<Rightarrow> bytes list option" where
  "data_lines K file expected = do {
     bs \<leftarrow> read_pinned K file expected;
     if utf8_valid bs then Some (filter (\<lambda>l. trim l \<noteq> []) (text_lines bs)) else None
   }"

fun in_order :: "nat \<Rightarrow> stream_row list \<Rightarrow> bool" where
  "in_order i [] = True"
| "in_order i (r # rs) = (sr_row r = i \<and> in_order (Suc i) rs)"

definition load_streams :: "crypto \<Rightarrow> data_json \<Rightarrow> bytes \<Rightarrow> stream_row list option" where
  "load_streams K J file = do {
     ls \<leftarrow> data_lines K file STREAMS_SHA256;
     rs \<leftarrow> option_all (dj_stream J) ls;
     if in_order 0 rs then Some rs else None
   }"

definition load_gsm8k_questions :: "crypto \<Rightarrow> data_json \<Rightarrow> bytes \<Rightarrow> bytes list option" where
  "load_gsm8k_questions K J file = do {
     ls \<leftarrow> data_lines K file GSM8K_TRAIN_SHA256;
     option_all (\<lambda>l. map_option fst (dj_question J l)) ls
   }"

definition load_gsm8k_items :: "crypto \<Rightarrow> data_json \<Rightarrow> bytes \<Rightarrow> (bytes \<times> bytes) list option" where
  "load_gsm8k_items K J file = do {
     ls \<leftarrow> data_lines K file GSM8K_TRAIN_SHA256;
     option_all (\<lambda>l. do {
       (question, answer) \<leftarrow> dj_question J l;
       _ \<leftarrow> extract_final_answer answer;
       Some (question, render_gold answer) }) ls
   }"

section \<open>Items under the length cap\<close>

record task_item =
  ti_row :: nat
  ti_item :: nat
  ti_inj_len :: nat
  ti_slot_positions :: "nat list"
  ti_full_tokens :: "u32 list"
  ti_target_tokens :: "u32 list"
  ti_span_start :: nat
  ti_tok0 :: nat
  ti_n_rows :: nat

record skipped_item =
  sk_row :: nat
  sk_item :: nat
  sk_inj_len :: nat
  sk_target_fit :: nat
  sk_reason :: string

definition fetch :: "'a list \<Rightarrow> nat \<Rightarrow> 'a option" where
  "fetch xs i = (if i < length xs then Some (xs ! i) else None)"

definition checked_sub :: "nat \<Rightarrow> nat \<Rightarrow> nat option" where
  "checked_sub a b = (if b \<le> a then Some (a - b) else None)"

text \<open>The loop over the rows: the first failure is returned, a row is an item or is skipped.\<close>

fun build_rows :: "(nat \<Rightarrow> (skipped_item + 'a) option) \<Rightarrow> nat list \<Rightarrow> ('a list \<times> skipped_item list) option" where
  "build_rows f [] = Some ([], [])"
| "build_rows f (r # rs) = do {
     x \<leftarrow> f r;
     (items, skipped) \<leftarrow> build_rows f rs;
     Some (case x of Inl s \<Rightarrow> (items, s # skipped) | Inr t \<Rightarrow> (t # items, skipped))
   }"

definition task_item_of ::
  "tokenizer \<Rightarrow> stream_row list \<Rightarrow> bytes list \<Rightarrow> nat list \<Rightarrow> u32 \<Rightarrow> nat \<Rightarrow> nat \<Rightarrow> nat \<Rightarrow> nat \<Rightarrow>
    (skipped_item + task_item) option" where
  "task_item_of K streams questions token_offsets pad_id n_slots seq_cap min_target row = do {
     sr \<leftarrow> fetch streams row;
     q \<leftarrow> fetch questions (sr_item sr);
     cap_ids \<leftarrow> tk_encode K (capture_prompt q);
     inj_ids \<leftarrow> tk_encode K (injection_prompt q n_slots);
     let slots = placeholder_positions inj_ids pad_id;
     let target_fit = min (seq_cap - length inj_ids) (length (sr_gen_tokens sr));
     if cap_ids \<noteq> sr_prompt_tokens sr \<or> length slots \<noteq> n_slots then None
     else if target_fit < min_target then
       Some (Inl \<lparr> sk_row = row, sk_item = sr_item sr, sk_inj_len = length inj_ids, sk_target_fit = target_fit,
         sk_reason = ''target span under min_target after seq cap'' \<rparr>)
     else do {
       let target = take target_fit (sr_gen_tokens sr);
       span_start \<leftarrow> checked_sub (length inj_ids) 1;
       tok0 \<leftarrow> fetch token_offsets row;
       Some (Inr \<lparr> ti_row = row, ti_item = sr_item sr, ti_inj_len = length inj_ids, ti_slot_positions = slots,
         ti_full_tokens = inj_ids @ target, ti_target_tokens = target, ti_span_start = span_start, ti_tok0 = tok0,
         ti_n_rows = length (sr_gen_tokens sr) \<rparr>)
     }
   }"

definition build_task_items ::
  "tokenizer \<Rightarrow> stream_row list \<Rightarrow> bytes list \<Rightarrow> nat list \<Rightarrow> u32 \<Rightarrow> nat \<Rightarrow> nat \<Rightarrow> nat \<Rightarrow> nat list \<Rightarrow>
    (task_item list \<times> skipped_item list) option" where
  "build_task_items K streams questions token_offsets pad_id n_slots seq_cap min_target rows =
     build_rows (task_item_of K streams questions token_offsets pad_id n_slots seq_cap min_target) rows"

section \<open>The tail of the question\<close>

lemma drop_chunks_length: "length (drop_chunks ws bs) \<le> length bs"
proof (induction ws bs rule: drop_chunks.induct)
  case (1 ws bs)
  show ?case using 1 by (subst drop_chunks.simps) (auto split: option.splits simp del: drop_chunks.simps intro: le_trans)
qed

text \<open>Drop every white space of a text.\<close>

function squeeze :: "bytes \<Rightarrow> bytes" where
  "squeeze bs = (case trim_start bs of [] \<Rightarrow> [] | b # r \<Rightarrow> b # squeeze r)"
  by pat_completeness auto

termination
proof (relation "measure length")
  fix bs b r
  assume "trim_start bs = b # r"
  then show "(r, bs) \<in> measure length" using drop_chunks_length[of white_space bs] by (simp add: trim_start_def)
qed simp

declare squeeze.simps [simp del]

definition bytes_contain :: "bytes \<Rightarrow> bytes \<Rightarrow> bool" where
  "bytes_contain pat bs \<longleftrightarrow> find_bytes pat bs \<noteq> None"

record offset_tokenizer = tokenizer +
  tk_offsets :: "bytes \<Rightarrow> (nat \<times> nat) list"

fun consecutive :: "nat list \<Rightarrow> bool" where
  "consecutive (a # b # xs) = (b = a + 1 \<and> consecutive (b # xs))"
| "consecutive _ = True"

definition inside_tokens :: "(nat \<times> nat) list \<Rightarrow> nat \<Rightarrow> nat \<Rightarrow> nat list" where
  "inside_tokens offsets q_start q_end =
     map fst (filter (\<lambda>(_, s, t). s < t \<and> q_start \<le> s \<and> t \<le> q_end) (enumerate 0 offsets))"

definition question_tail_positions :: "offset_tokenizer \<Rightarrow> bytes \<Rightarrow> nat \<Rightarrow> (u32 list \<times> nat list \<times> u32 list) option" where
  "question_tail_positions K question n_slots = do {
     let full = chat_prompt SYSTEM (user_turn question);
     q_start \<leftarrow> find_bytes (user_turn question) full;
     tokens \<leftarrow> tk_encode K full;
     let inside = inside_tokens (tk_offsets K full) q_start (q_start + length question);
     start \<leftarrow> checked_sub (length inside) n_slots;
     let positions = drop start inside;
     if \<not> consecutive positions \<or> n_slots = 0 \<or> positions ! (n_slots - 1) \<noteq> last inside then None
     else do {
       position_ids \<leftarrow> option_all (fetch tokens) positions;
       decoded \<leftarrow> tk_decode K position_ids;
       if bytes_contain (squeeze decoded) (squeeze question) then Some (tokens, positions, position_ids) else None
     }
   }"

record m5_item =
  mi_row :: nat
  mi_item :: nat
  mi_prompt_len :: nat
  mi_positions :: "nat list"
  mi_position_token_ids :: "u32 list"
  mi_full_tokens :: "u32 list"
  mi_target_tokens :: "u32 list"
  mi_target_tokens_total :: nat
  mi_span_start :: nat
  mi_last_row_tok :: nat

definition covered_fraction :: "m5_item \<Rightarrow> f64" where
  "covered_fraction t =
     d_div (f64_of (of_nat (length (mi_target_tokens t)))) (f64_of (of_nat (max (mi_target_tokens_total t) 1)))"

definition m5_item_of ::
  "offset_tokenizer \<Rightarrow> stream_row list \<Rightarrow> (bytes \<times> bytes) list \<Rightarrow> nat list \<Rightarrow> nat \<Rightarrow> nat \<Rightarrow> nat \<Rightarrow> nat \<Rightarrow>
    (skipped_item + m5_item) option" where
  "m5_item_of K streams items token_offsets n_slots seq_cap min_target row = do {
     sr \<leftarrow> fetch streams row;
     (question, gold) \<leftarrow> fetch items (sr_item sr);
     (tokens, positions, position_ids) \<leftarrow> question_tail_positions K question n_slots;
     if tokens \<noteq> sr_prompt_tokens sr then None
     else do {
       full_target \<leftarrow> tk_encode K gold;
       let target_fit = min (seq_cap - length tokens) (length full_target);
       if target_fit < min_target then
         Some (Inl \<lparr> sk_row = row, sk_item = sr_item sr, sk_inj_len = length tokens, sk_target_fit = target_fit,
           sk_reason = ''gold-solution span under min_target after the seq cap'' \<rparr>)
       else do {
         let target = take target_fit full_target;
         span_start \<leftarrow> checked_sub (length tokens) 1;
         offset \<leftarrow> fetch token_offsets row;
         last_row \<leftarrow> checked_sub (offset + length (sr_gen_tokens sr)) 1;
         Some (Inr \<lparr> mi_row = row, mi_item = sr_item sr, mi_prompt_len = length tokens, mi_positions = positions,
           mi_position_token_ids = position_ids, mi_full_tokens = tokens @ target, mi_target_tokens = target,
           mi_target_tokens_total = length full_target, mi_span_start = span_start, mi_last_row_tok = last_row \<rparr>)
       }
     }
   }"

definition build_m5_items ::
  "offset_tokenizer \<Rightarrow> stream_row list \<Rightarrow> (bytes \<times> bytes) list \<Rightarrow> nat list \<Rightarrow> nat \<Rightarrow> nat \<Rightarrow> nat \<Rightarrow> nat list \<Rightarrow>
    (m5_item list \<times> skipped_item list) option" where
  "build_m5_items K streams items token_offsets n_slots seq_cap min_target rows =
     build_rows (m5_item_of K streams items token_offsets n_slots seq_cap min_target) rows"

section \<open>The rendered answer carries no annotation\<close>

lemma starts_with_nonempty: "starts_with pat [] \<longleftrightarrow> pat = []"
  by (simp add: starts_with_def) metis

lemma find_bytes_Some:
  "find_bytes pat bs = Some i \<Longrightarrow> starts_with pat (drop i bs) \<and> i \<le> length bs \<and> (\<forall>j<i. \<not> starts_with pat (drop j bs))"
proof (induction bs arbitrary: i)
  case (Cons b bs)
  show ?case
  proof (cases "starts_with pat (b # bs)")
    case False
    then obtain k where k: "find_bytes pat bs = Some k" "i = Suc k" using Cons.prems by auto
    then show ?thesis using Cons.IH[OF k(1)] False by (auto simp: less_Suc_eq_0_disj)
  qed (use Cons.prems in auto)
qed (auto simp: starts_with_nonempty split: if_splits)

lemma find_bytes_None: "find_bytes pat bs = None \<longleftrightarrow> (\<forall>j\<le>length bs. \<not> starts_with pat (drop j bs))"
proof (induction bs)
  case (Cons b bs)
  have "(\<forall>j\<le>length (b # bs). \<not> starts_with pat (drop j (b # bs))) \<longleftrightarrow>
      \<not> starts_with pat (b # bs) \<and> (\<forall>j\<le>length bs. \<not> starts_with pat (drop j bs))"
    by (metis drop0 drop_Suc_Cons le0 length_Cons not0_implies_Suc Suc_le_mono)
  then show ?case using Cons.IH by simp
qed (simp add: starts_with_nonempty)

lemma starts_with_angle: "starts_with angle_open (drop j bs) \<longleftrightarrow> Suc j < length bs \<and> bs ! j = 60 \<and> bs ! Suc j = 60"
proof (cases "Suc j < length bs")
  case True
  then have "drop j bs = bs ! j # bs ! Suc j # drop (Suc (Suc j)) bs" by (simp add: Cons_nth_drop_Suc)
  then show ?thesis using True by (simp add: starts_with_def)
next
  case False
  then have "length (take 2 (drop j bs)) < 2" by simp
  then have "take 2 (drop j bs) \<noteq> angle_open" by (metis length_Cons list.size(3) nat_less_le numeral_2_eq_2)
  then show ?thesis using False by (simp add: starts_with_def numeral_2_eq_2)
qed

lemma clean_iff: "find_bytes angle_open bs = None \<longleftrightarrow> (\<forall>j. Suc j < length bs \<longrightarrow> \<not> (bs ! j = 60 \<and> bs ! Suc j = 60))"
  unfolding find_bytes_None starts_with_angle by auto

lemma clean_append:
  assumes "find_bytes angle_open a = None" and "find_bytes angle_open b = None" and "a \<noteq> [] \<Longrightarrow> last a \<noteq> 60"
  shows "find_bytes angle_open (a @ b) = None"
  unfolding clean_iff
proof (intro allI impI notI, elim conjE)
  fix j assume j: "Suc j < length (a @ b)" "(a @ b) ! j = 60" "(a @ b) ! Suc j = 60"
  consider "Suc j < length a" | "Suc j = length a" | "length a \<le> j" by linarith
  then show False
  proof cases
    case 1
    then show False using j assms(1) unfolding clean_iff by (simp add: nth_append)
  next
    case 2
    then have "a \<noteq> []" by auto
    moreover have "last a = a ! j" using last_conv_nth[OF \<open>a \<noteq> []\<close>] 2 by (metis diff_Suc_1)
    ultimately show False using assms(3) j(2) 2 by (simp add: nth_append)
  next
    case 3
    then have "Suc (j - length a) < length b" "b ! (j - length a) = 60" "b ! Suc (j - length a) = 60"
      using j by (simp_all add: nth_append Suc_diff_le)
    then show False using assms(2) unfolding clean_iff by blast
  qed
qed

lemma clean_before:
  assumes "find_bytes angle_open bs = Some i"
  shows "find_bytes angle_open (take i bs) = None \<and> (take i bs \<noteq> [] \<longrightarrow> last (take i bs) \<noteq> 60)"
proof -
  have i: "Suc i < length bs" "bs ! i = 60" and first: "\<forall>j<i. \<not> (Suc j < length bs \<and> bs ! j = 60 \<and> bs ! Suc j = 60)"
    using find_bytes_Some[OF assms] unfolding starts_with_angle by auto
  have "last (take i bs) \<noteq> 60" if "take i bs \<noteq> []"
  proof -
    from that have "0 < i" by (cases i) auto
    moreover have "last (take i bs) = take i bs ! (length (take i bs) - 1)" using that by (rule last_conv_nth)
    ultimately have "last (take i bs) = bs ! (i - 1)" using i(1) by simp
    then show ?thesis using first[rule_format, of "i - 1"] i \<open>0 < i\<close> by auto
  qed
  then show ?thesis unfolding clean_iff using first i(1) by auto
qed

text \<open>Rendering the reference answer cuts out every annotation: the result has no opening mark, not even one that the cut
  would join together, is no longer than the answer, and an answer without marks is unchanged; so rendering twice is rendering once.\<close>

theorem render_gold_clean:
  "find_bytes angle_open (render_gold bs) = None \<and> length (render_gold bs) \<le> length bs \<and>
   (find_bytes angle_open bs = None \<longrightarrow> render_gold bs = bs) \<and> render_gold (render_gold bs) = render_gold bs"
proof -
  have clean: "find_bytes angle_open (render_gold bs) = None \<and> length (render_gold bs) \<le> length bs" for bs
  proof (induction bs rule: render_gold.induct)
    case (1 bs)
    show ?case
    proof (cases "find_bytes angle_open bs")
      case None
      then show ?thesis by (simp add: render_gold.simps[of bs])
    next
      case (Some i)
      note before = clean_before[OF Some]
      have i: "i \<le> length bs" using find_bytes_Some[OF Some] by blast
      show ?thesis
      proof (cases "find_bytes angle_close (drop i bs)")
        case None
        then show ?thesis using before by (simp add: render_gold.simps[of bs] Some)
      next
        case (Some j)
        note IH = "1"[OF \<open>find_bytes angle_open bs = Some i\<close> Some]
        have "render_gold bs = take i bs @ render_gold (drop (i + j + 2) bs)"
          by (simp add: render_gold.simps[of bs] \<open>find_bytes angle_open bs = Some i\<close> Some)
        then show ?thesis using clean_append[of "take i bs"] before IH i by auto
      qed
    qed
  qed
  have "render_gold cs = cs" if "find_bytes angle_open cs = None" for cs using that by (simp add: render_gold.simps[of cs])
  then show ?thesis using clean by blast
qed

theorem render_gold_clean_witness:
  "render_gold [97, 60, 60, 49, 62, 62, 98] = [97, 98] \<and> render_gold (render_gold [97, 60, 60, 49]) = render_gold [97, 60, 60, 49]"
  using render_gold_clean[of "[97, 60, 60, 49]"]
  by (simp add: render_gold.simps starts_with_def)

section \<open>Items respect the cap\<close>

text \<open>The two lists of a build merge to the rows, in their order.\<close>

lemma build_rows_merge:
  assumes "build_rows f rows = Some (items, skipped)" and "\<And>r x. f r = Some x \<Longrightarrow> (case x of Inl s \<Rightarrow> sk_row s | Inr t \<Rightarrow> row_of t) = r"
  shows "(\<forall>t\<in>set items. f (row_of t) = Some (Inr t)) \<and> (\<forall>s\<in>set skipped. f (sk_row s) = Some (Inl s)) \<and>
    rows \<in> shuffles (map row_of items) (map sk_row skipped)"
  using assms(1)
proof (induction rows arbitrary: items skipped)
  case (Cons r rs)
  obtain x ts ss where x: "f r = Some x" and b: "build_rows f rs = Some (ts, ss)"
    and eq: "(items, skipped) = (case x of Inl s \<Rightarrow> (ts, s # ss) | Inr t \<Rightarrow> (t # ts, ss))"
    using Cons.prems by (auto simp: bind_eq_Some_conv)
  show ?case using Cons.IH[OF b] eq x assms(2)[OF x]
    by (cases x) (auto intro: Cons_in_shuffles_leftI Cons_in_shuffles_rightI)
qed simp

lemma placeholder_positions_iff:
  "p \<in> set (placeholder_positions tokens pad) \<longleftrightarrow> p < length tokens \<and> tokens ! p = pad"
proof -
  have "p \<in> set (placeholder_positions tokens pad) \<longleftrightarrow> (p, pad) \<in> set (enumerate 0 tokens)"
    by (force simp: placeholder_positions_def List.map_filter_def split: if_splits prod.splits)
  then show ?thesis by (auto simp: in_set_enumerate_eq)
qed

lemma task_item_cases:
  assumes "task_item_of K streams questions offsets pad n_slots cap min_target row = Some x"
  shows "\<exists>sr q inj. row < length streams \<and> sr = streams ! row \<and> sr_item sr < length questions \<and> q = questions ! sr_item sr \<and>
    tk_encode K (capture_prompt q) = Some (sr_prompt_tokens sr) \<and> tk_encode K (injection_prompt q n_slots) = Some inj \<and>
    length (placeholder_positions inj pad) = n_slots \<and>
    (let fit = min (cap - length inj) (length (sr_gen_tokens sr)); target = take fit (sr_gen_tokens sr) in
      case x of
        Inl s \<Rightarrow> sk_row s = row \<and> sk_item s = sr_item sr \<and> sk_target_fit s = fit \<and> fit < min_target
      | Inr t \<Rightarrow> min_target \<le> fit \<and> inj \<noteq> [] \<and> row < length offsets \<and>
          t = \<lparr> ti_row = row, ti_item = sr_item sr, ti_inj_len = length inj, ti_slot_positions = placeholder_positions inj pad,
            ti_full_tokens = inj @ target, ti_target_tokens = target, ti_span_start = length inj - 1, ti_tok0 = offsets ! row,
            ti_n_rows = length (sr_gen_tokens sr) \<rparr>)"
  using assms
  by (auto simp: task_item_of_def Let_def bind_eq_Some_conv fetch_def checked_sub_def not_less Suc_le_eq split: if_splits)

text \<open>C35. A training item is exactly its prompt and the start of its target, for a positive \<open>min_target\<close>. When the items are built, the rows are the rows of
  the items and of the skipped ones, merged in their order; a row is skipped because fewer than \<open>min_target\<close> tokens of its
  target fit. The prompt of an item has as many placeholders as slots, at exactly the recorded positions; behind the row of
  the logits where the loss starts comes the target, which is a prefix of the tokens of the sender, whole unless the cap
  cuts it; the sequence stays within the cap; and the prompt that the sender saw encodes to the tokens recorded with the
  stream.\<close>

theorem task_items_exact:
  assumes "build_task_items K streams questions offsets pad n_slots cap min_target rows = Some (items, skipped)" and "0 < min_target"
  shows "rows \<in> shuffles (map ti_row items) (map sk_row skipped) \<and>
    (\<forall>t\<in>set items. ti_row t \<in> set rows \<and>
      (let sr = streams ! ti_row t; q = questions ! sr_item sr; inj = take (ti_inj_len t) (ti_full_tokens t) in
        tk_encode K (capture_prompt q) = Some (sr_prompt_tokens sr) \<and> tk_encode K (injection_prompt q n_slots) = Some inj \<and>
        length (ti_slot_positions t) = n_slots \<and>
        (\<forall>p. p \<in> set (ti_slot_positions t) \<longleftrightarrow> p < ti_inj_len t \<and> ti_full_tokens t ! p = pad) \<and>
        drop (Suc (ti_span_start t)) (ti_full_tokens t) = ti_target_tokens t \<and> length (ti_full_tokens t) \<le> cap \<and>
        min_target \<le> length (ti_target_tokens t) \<and>
        ti_target_tokens t = take (length (ti_target_tokens t)) (sr_gen_tokens sr) \<and>
        (length (ti_full_tokens t) < cap \<longrightarrow> ti_target_tokens t = sr_gen_tokens sr))) \<and>
    (\<forall>s\<in>set skipped. sk_row s \<in> set rows \<and> sk_target_fit s < min_target \<and>
      (\<exists>inj. tk_encode K (injection_prompt (questions ! sr_item (streams ! sk_row s)) n_slots) = Some inj \<and>
        sk_target_fit s = min (cap - length inj) (length (sr_gen_tokens (streams ! sk_row s)))))"
proof -
  have own: "(case x of Inl s \<Rightarrow> sk_row s | Inr t \<Rightarrow> ti_row t) = r"
    if "task_item_of K streams questions offsets pad n_slots cap min_target r = Some x" for r x
    using task_item_cases[OF that] by (cases x) (auto simp: Let_def)
  note m = build_rows_merge[OF assms(1)[unfolded build_task_items_def] own]
  have in_rows: "set rows = ti_row ` set items \<union> sk_row ` set skipped" using m set_shuffles by fastforce
  have "ti_row t \<in> set rows \<and>
      (let sr = streams ! ti_row t; q = questions ! sr_item sr; inj = take (ti_inj_len t) (ti_full_tokens t) in
        tk_encode K (capture_prompt q) = Some (sr_prompt_tokens sr) \<and> tk_encode K (injection_prompt q n_slots) = Some inj \<and>
        length (ti_slot_positions t) = n_slots \<and>
        (\<forall>p. p \<in> set (ti_slot_positions t) \<longleftrightarrow> p < ti_inj_len t \<and> ti_full_tokens t ! p = pad) \<and>
        drop (Suc (ti_span_start t)) (ti_full_tokens t) = ti_target_tokens t \<and> length (ti_full_tokens t) \<le> cap \<and>
        min_target \<le> length (ti_target_tokens t) \<and>
        ti_target_tokens t = take (length (ti_target_tokens t)) (sr_gen_tokens sr) \<and>
        (length (ti_full_tokens t) < cap \<longrightarrow> ti_target_tokens t = sr_gen_tokens sr))" if t: "t \<in> set items" for t
  proof -
    obtain row where row: "row \<in> set rows" and f: "task_item_of K streams questions offsets pad n_slots cap min_target row = Some (Inr t)"
      using m t in_rows by blast
    obtain inj where e: "tk_encode K (capture_prompt (questions ! sr_item (streams ! row))) = Some (sr_prompt_tokens (streams ! row))"
      "tk_encode K (injection_prompt (questions ! sr_item (streams ! row)) n_slots) = Some inj"
      "length (placeholder_positions inj pad) = n_slots" "inj \<noteq> []"
      and fit: "min_target \<le> min (cap - length inj) (length (sr_gen_tokens (streams ! row)))"
      and eq: "t = \<lparr> ti_row = row, ti_item = sr_item (streams ! row), ti_inj_len = length inj,
          ti_slot_positions = placeholder_positions inj pad,
          ti_full_tokens = inj @ take (min (cap - length inj) (length (sr_gen_tokens (streams ! row)))) (sr_gen_tokens (streams ! row)),
          ti_target_tokens = take (min (cap - length inj) (length (sr_gen_tokens (streams ! row)))) (sr_gen_tokens (streams ! row)),
          ti_span_start = length inj - 1, ti_tok0 = offsets ! row, ti_n_rows = length (sr_gen_tokens (streams ! row)) \<rparr>"
      using task_item_cases[OF f] by (auto simp: Let_def)
    define k where "k = min (cap - length inj) (length (sr_gen_tokens (streams ! row)))"
    have k: "k \<le> length (sr_gen_tokens (streams ! row))" "length inj + k \<le> cap" "min_target \<le> k"
      "length inj + k < cap \<Longrightarrow> k = length (sr_gen_tokens (streams ! row))" "Suc (length inj - 1) = length inj"
      using fit assms(2) e(4) unfolding k_def by (simp_all add: min_def split: if_splits)
    have f: "ti_row t = row" "ti_inj_len t = length inj" "ti_slot_positions t = placeholder_positions inj pad"
      "ti_full_tokens t = inj @ take k (sr_gen_tokens (streams ! row))" "ti_target_tokens t = take k (sr_gen_tokens (streams ! row))"
      "ti_span_start t = length inj - 1" by (simp_all add: eq k_def)
    have p: "p \<in> set (placeholder_positions inj pad) \<longleftrightarrow> p < length inj \<and> (inj @ gs) ! p = pad" for p gs
      unfolding placeholder_positions_iff by (auto simp: nth_append)
    show ?thesis unfolding Let_def f k(5)
      by (intro conjI allI impI p) (simp_all add: row e(1-3) k(1-4))
  qed
  moreover have "sk_row s \<in> set rows \<and> sk_target_fit s < min_target \<and>
      (\<exists>inj. tk_encode K (injection_prompt (questions ! sr_item (streams ! sk_row s)) n_slots) = Some inj \<and>
        sk_target_fit s = min (cap - length inj) (length (sr_gen_tokens (streams ! sk_row s))))" if s: "s \<in> set skipped" for s
  proof -
    have "task_item_of K streams questions offsets pad n_slots cap min_target (sk_row s) = Some (Inl s)" using m s by blast
    from task_item_cases[OF this] s in_rows show ?thesis by (auto simp: Let_def)
  qed
  ultimately show ?thesis using m by blast
qed

definition fixed_tokenizer :: "u32 list \<Rightarrow> tokenizer" where
  "fixed_tokenizer ts = \<lparr> tk_encode = \<lambda>_. Some ts, tk_decode = \<lambda>_. None, tk_token_to_id = \<lambda>_. None \<rparr>"

definition demo_stream :: stream_row where
  "demo_stream = \<lparr> sr_row = 0, sr_item = 0, sr_prompt_tokens = [5, 7, 5], sr_gen_tokens = [1, 2, 3], sr_correct = True \<rparr>"

theorem task_items_exact_witness:
  "\<exists>t. build_task_items (fixed_tokenizer [5, 7, 5]) [demo_stream] [[]] [0] 7 1 5 1 [0] = Some ([t], []) \<and>
    ti_full_tokens t = [5, 7, 5, 1, 2] \<and> length (ti_full_tokens t) \<le> 5 \<and> drop (Suc (ti_span_start t)) (ti_full_tokens t) = ti_target_tokens t"
proof -
  have "placeholder_positions [5, 7, 5] 7 = [1]" by (simp add: placeholder_positions_def List.map_filter_def)
  then have b: "\<exists>t. build_task_items (fixed_tokenizer [5, 7, 5]) [demo_stream] [[]] [0] 7 1 5 1 [0] = Some ([t], []) \<and>
      ti_full_tokens t = [5, 7, 5, 1, 2]"
    by (simp add: build_task_items_def task_item_of_def fixed_tokenizer_def demo_stream_def fetch_def checked_sub_def Let_def)
  then show ?thesis using task_items_exact[of "fixed_tokenizer [5, 7, 5]" "[demo_stream]" "[[]]" "[0]" 7 1 5 1 "[0]"]
    by (fastforce simp: Let_def)
qed

section \<open>The tail lies in the question\<close>

lemma consecutive_nth: "consecutive xs \<Longrightarrow> i < length xs \<Longrightarrow> xs ! i = hd xs + i"
proof (induction xs arbitrary: i rule: consecutive.induct)
  case (1 a b xs)
  then show ?case by (cases i) auto
qed auto

lemma inside_tokens_iff:
  "p \<in> set (inside_tokens offsets a b) \<longleftrightarrow> p < length offsets \<and> fst (offsets ! p) < snd (offsets ! p) \<and>
    a \<le> fst (offsets ! p) \<and> snd (offsets ! p) \<le> b"
  by (force simp: inside_tokens_def in_set_enumerate_eq)

lemma starts_with_take: "starts_with pat bs \<Longrightarrow> n \<le> length pat \<Longrightarrow> take n bs = take n pat"
  unfolding starts_with_def by (metis min.absorb1 take_take)

lemma slice_of_prefix:
  assumes "starts_with (q @ r) (drop a full)" and "a \<le> s" and "s \<le> e" and "e \<le> a + length q"
  shows "take (e - s) (drop s full) = take (e - s) (drop (s - a) q)"
proof -
  have q: "take (length q) (drop a full) = q" using starts_with_take[OF assms(1), of "length q"] by simp
  have "take (e - s) (drop s full) = take (e - s) (drop (s - a) (drop a full))" using assms(2) by simp
  also have "\<dots> = take (e - s) (drop (s - a) (take (length q) (drop a full)))"
    using assms(2-4) by (simp add: drop_take take_take min_absorb1)
  finally show ?thesis unfolding q .
qed

text \<open>C36. The injected tail is the end of the question. The positions are as many as there are slots, one after the other, each of a
  token of the prompt whose bytes are a part of the question; they end at the last token that lies inside it; the recorded
  identifiers are those of the prompt; and the prompt is the one the sender saw.\<close>

theorem tail_in_question:
  assumes "question_tail_positions K question n_slots = Some (tokens, positions, ids)"
  shows "tk_encode K (capture_prompt question) = Some tokens \<and> length positions = n_slots \<and> 0 < n_slots \<and>
    positions = [hd positions..<hd positions + n_slots] \<and> ids = map (\<lambda>p. tokens ! p) positions \<and>
    (\<exists>a. take (length question) (drop a (capture_prompt question)) = question \<and>
      (\<forall>p\<in>set positions. p < length tokens \<and> (let (s, e) = tk_offsets K (capture_prompt question) ! p in
        s < e \<and> a \<le> s \<and> e \<le> a + length question \<and>
        take (e - s) (drop s (capture_prompt question)) = take (e - s) (drop (s - a) question))) \<and>
      (\<forall>p<length (tk_offsets K (capture_prompt question)). last positions < p \<longrightarrow>
        (let (s, e) = tk_offsets K (capture_prompt question) ! p in \<not> (s < e \<and> a \<le> s \<and> e \<le> a + length question))))"
proof -
  let ?full = "capture_prompt question"
  obtain a start where a: "find_bytes (user_turn question) ?full = Some a" and tok: "tk_encode K ?full = Some tokens"
    and start: "checked_sub (length (inside_tokens (tk_offsets K ?full) a (a + length question))) n_slots = Some start"
    and pos: "positions = drop start (inside_tokens (tk_offsets K ?full) a (a + length question))"
    and ok: "consecutive positions" "n_slots \<noteq> 0" and ids: "option_all (fetch tokens) positions = Some ids"
    using assms unfolding question_tail_positions_def capture_prompt_def[symmetric] Let_def
    by (fastforce simp: bind_eq_Some_conv split: if_split_asm)
  define inside where "inside = inside_tokens (tk_offsets K ?full) a (a + length question)"
  have n: "n_slots \<le> length inside" "start = length inside - n_slots"
    using start by (auto simp: checked_sub_def inside_def split: if_split_asm)
  have len: "length positions = n_slots" using n by (simp add: pos inside_def[symmetric])
  have pre: "starts_with (question @ [newline, newline] @ ANSWER_FORMAT) (drop a ?full)"
    using find_bytes_Some[OF a] by (simp add: user_turn_def)
  have consec: "positions = [hd positions..<hd positions + n_slots]"
    by (rule nth_equalityI) (simp_all add: len consecutive_nth[OF ok(1)])
  have idl: "length ids = length positions" "\<forall>i<length positions. fetch tokens (positions ! i) = Some (ids ! i)"
    using ids by (auto simp: option_all_nth)
  then have idm: "ids = map (\<lambda>p. tokens ! p) positions" and below: "\<forall>p\<in>set positions. p < length tokens"
    by (auto intro!: nth_equalityI simp: fetch_def in_set_conv_nth split: if_split_asm)
  have srt: "sorted_wrt (<) inside"
    unfolding inside_def inside_tokens_def sorted_wrt_map
    by (rule sorted_wrt_filter) (simp add: sorted_wrt_map[symmetric] del: map_fst_enumerate, simp)
  have "x \<le> last inside" if x: "x \<in> set inside" for x
  proof -
    obtain i where i: "i < length inside" "inside ! i = x" using x by (metis in_set_conv_nth)
    then have "inside ! i \<le> inside ! (length inside - 1)"
      using strict_sorted_imp_sorted[OF srt] by (intro sorted_nth_mono) auto
    then show ?thesis using i by (metis last_conv_nth length_0_conv less_nat_zero_code)
  qed
  moreover have "last positions = last inside" using n ok(2) by (simp add: pos inside_def[symmetric])
  ultimately have beyond: "p \<notin> set inside" if "last positions < p" for p using that by fastforce
  have "take (length question) (drop a ?full) = question" using starts_with_take[OF pre, of "length question"] by simp
  moreover have "p < length tokens \<and> (let (s, e) = tk_offsets K ?full ! p in s < e \<and> a \<le> s \<and> e \<le> a + length question \<and>
      take (e - s) (drop s ?full) = take (e - s) (drop (s - a) question))" if p: "p \<in> set positions" for p
  proof -
    have "p \<in> set inside" using p in_set_dropD unfolding pos inside_def by fast
    then have "fst (tk_offsets K ?full ! p) < snd (tk_offsets K ?full ! p)" "a \<le> fst (tk_offsets K ?full ! p)"
      "snd (tk_offsets K ?full ! p) \<le> a + length question" unfolding inside_def inside_tokens_iff by blast+
    then show ?thesis using below p slice_of_prefix[OF pre] by (simp add: split_def)
  qed
  moreover have "let (s, e) = tk_offsets K ?full ! p in \<not> (s < e \<and> a \<le> s \<and> e \<le> a + length question)"
    if "p < length (tk_offsets K ?full)" "last positions < p" for p
    using beyond[OF that(2)] that(1) unfolding inside_def inside_tokens_iff by (simp add: split_def)
  ultimately show ?thesis using tok len ok(2) consec idm by blast
qed

lemma find_bytes_inside: "find_bytes pat (xs @ pat @ ys) \<noteq> None"
proof -
  have "starts_with pat (drop (length xs) (xs @ pat @ ys))" by (simp add: starts_with_def)
  then show ?thesis unfolding find_bytes_None by (metis le_add1 length_append)
qed

lemma chat_prompt_contains: "find_bytes user (chat_prompt system user) \<noteq> None"
  using find_bytes_inside[of user "ascii ''<|im_start|>system'' @ [newline] @ system @ ascii ''<|im_end|>'' @ [newline] @ ascii ''<|im_start|>user'' @ [newline]"]
  unfolding chat_prompt_def append_assoc by blast

definition tail_tokenizer :: offset_tokenizer where
  "tail_tokenizer = \<lparr> tk_encode = \<lambda>_. Some [5], tk_decode = \<lambda>_. Some [65], tk_token_to_id = \<lambda>_. None,
     tk_offsets = \<lambda>full. let a = the (find_bytes (user_turn [65]) full) in [(a, a + 1)] \<rparr>"

theorem tail_in_question_witness:
  "question_tail_positions tail_tokenizer [65] 1 = Some ([5], [0], [5]) \<and>
    (\<exists>a. take 1 (drop a (capture_prompt [65])) = [65])"
proof -
  obtain a where a: "find_bytes (user_turn [65]) (chat_prompt SYSTEM (user_turn [65])) = Some a" using chat_prompt_contains by blast
  have "squeeze [65] = [65]" by code_simp
  then have q: "question_tail_positions tail_tokenizer [65] 1 = Some ([5], [0], [5])"
    by (simp add: question_tail_positions_def a tail_tokenizer_def inside_tokens_def checked_sub_def fetch_def bytes_contain_def
        starts_with_def Let_def)
  then show ?thesis using tail_in_question[OF q] by auto
qed

end
