(* ===== verification/Train_Artifact.thy ===== *)
theory Train_Artifact
  imports Align Train_Items Float_Bits
begin

text \<open>
  What \<open>latentmesh-train\<close> stores: the projector of \<open>mlp.rs\<close> and the adapter of \<open>receiver_lora.rs\<close>, which the runtime
  loads again, as raw numbers in a file, and the verified layer files of \<open>dataset.rs\<close>. The draws of the generator, the functions of
  the mathematical library, the matrix product and the JSON reader are parameters. \<open>None\<close> is an error or a panic.
\<close>

section \<open>Raw numbers\<close>

definition artifact_bytes :: "f32 list \<Rightarrow> bytes" where
  "artifact_bytes flat = concat (map f32_to_le_bytes flat)"

definition artifact_floats :: "bytes \<Rightarrow> f32 list" where
  "artifact_floats bs = map f32_from_le_bytes (chunks_exact 4 bs)"

record 'r draws =
  dr_seed :: "u64 \<Rightarrow> 'r"
  dr_f32 :: "'r \<Rightarrow> f32 \<times> 'r"
  dr_open :: "'r \<Rightarrow> f64 \<times> 'r"
  dr_f64 :: "'r \<Rightarrow> f64 \<times> 'r"
  dr_ln :: "f64 \<Rightarrow> f64"
  dr_sqrt :: "f64 \<Rightarrow> f64"
  dr_cos :: "f64 \<Rightarrow> f64"
  dr_sin :: "f64 \<Rightarrow> f64"
  dr_sqrtf :: "f32 \<Rightarrow> f32"

fun uniform :: "'r draws \<Rightarrow> nat \<Rightarrow> f32 \<Rightarrow> 'r \<Rightarrow> f32 list \<times> 'r" where
  "uniform D 0 a r = ([], r)"
| "uniform D (Suc n) a r =
     (let (u, r) = dr_f32 D r; (xs, r) = uniform D n a r in (f_sub (f_mul (f_mul u (Fin False 2)) a) a # xs, r))"

text \<open>Pairs of normal numbers by the transform of Box and Muller.\<close>

definition normal_pair :: "'r draws \<Rightarrow> 'r \<Rightarrow> f32 \<times> f32 \<times> 'r" where
  "normal_pair D r =
     (let (u1, r) = dr_open D r; (u2, r) = dr_f64 D r;
          radius = dr_sqrt D (d_mul (Fin True 2) (dr_ln D u1));
          angle = d_mul (d_mul (Fin False 2) (Fin False (884279719003555 / 281474976710656))) u2
      in (f64_as_f32 (d_mul radius (dr_cos D angle)), f64_as_f32 (d_mul radius (dr_sin D angle)), r))"

fun gaussian_vec :: "'r draws \<Rightarrow> 'r \<Rightarrow> nat \<Rightarrow> f32 list \<times> 'r" where
  "gaussian_vec D r 0 = ([], r)"
| "gaussian_vec D r (Suc 0) = (let (x, _, r) = normal_pair D r in ([x], r))"
| "gaussian_vec D r (Suc (Suc n)) =
     (let (x, y, r) = normal_pair D r; (zs, r) = gaussian_vec D r n in (x # y # zs, r))"

section \<open>The projector\<close>

definition D_IN :: nat where "D_IN = 2048"
definition D_HID :: nat where "D_HID = 512"
definition D_OUT :: nat where "D_OUT = 1536"
definition PARAM_COUNT :: nat where "PARAM_COUNT = D_IN * D_HID + D_HID + D_HID * D_OUT + D_OUT"

record mlp =
  ml_w1 :: rows
  ml_b1 :: "f32 list"
  ml_w2 :: rows
  ml_b2 :: "f32 list"

definition mlp_from_parts :: "f32 list \<Rightarrow> f32 list \<Rightarrow> f32 list \<Rightarrow> f32 list \<Rightarrow> mlp" where
  "mlp_from_parts w1 b1 w2 b2 =
     \<lparr> ml_w1 = reshape D_IN D_HID w1, ml_b1 = b1, ml_w2 = reshape D_HID D_OUT w2, ml_b2 = b2 \<rparr>"

definition mlp_new_seeded :: "'r draws \<Rightarrow> u64 \<Rightarrow> mlp" where
  "mlp_new_seeded D seed =
     (let a1 = f_div f_one (dr_sqrtf D (f32_of (of_nat D_IN))); a2 = f_div f_one (dr_sqrtf D (f32_of (of_nat D_HID)));
          (w1, r) = uniform D (D_IN * D_HID) a1 (dr_seed D seed); (b1, r) = uniform D D_HID a1 r;
          (w2, r) = uniform D (D_HID * D_OUT) a2 r; (b2, r) = uniform D D_OUT a2 r
      in mlp_from_parts w1 b1 w2 b2)"

definition mlp_param_count :: "mlp \<Rightarrow> nat" where
  "mlp_param_count m = length (concat (ml_w1 m)) + length (ml_b1 m) + length (concat (ml_w2 m)) + length (ml_b2 m)"

record mlp_ops = tensor_ops +
  tn_relu :: "f32 \<Rightarrow> f32"

definition mlp_forward :: "mlp_ops \<Rightarrow> mlp \<Rightarrow> rows \<Rightarrow> rows option" where
  "mlp_forward T m x = do {
     h \<leftarrow> tn_matmul T x (ml_w1 m);
     y \<leftarrow> tn_matmul T (map (\<lambda>r. map (tn_relu T) (map2 f_add r (ml_b1 m))) h) (ml_w2 m);
     Some (map (\<lambda>r. map2 f_add r (ml_b2 m)) y)
   }"

definition mlp_to_flat :: "mlp \<Rightarrow> f32 list" where
  "mlp_to_flat m = concat (ml_w1 m) @ ml_b1 m @ concat (ml_w2 m) @ ml_b2 m"

definition mlp_split :: "f32 list \<Rightarrow> mlp" where
  "mlp_split flat =
     (let w1 = take (D_IN * D_HID) flat; rest = drop (D_IN * D_HID) flat;
          b1 = take D_HID rest; rest = drop D_HID rest
      in mlp_from_parts w1 b1 (take (D_HID * D_OUT) rest) (drop (D_HID * D_OUT) rest))"

definition mlp_set_flat :: "f32 list \<Rightarrow> mlp option" where
  "mlp_set_flat flat = (if length flat = PARAM_COUNT then Some (mlp_split flat) else None)"

definition mlp_save_artifact :: "crypto \<Rightarrow> mlp \<Rightarrow> bytes \<times> bytes" where
  "mlp_save_artifact K m = (let file = artifact_bytes (mlp_to_flat m) in (file, hex_sha256 K file))"

definition mlp_load_artifact :: "crypto \<Rightarrow> bytes \<Rightarrow> (mlp \<times> bytes) option" where
  "mlp_load_artifact K file =
     (if length file \<noteq> PARAM_COUNT * 4 then None else Some (mlp_split (artifact_floats file), hex_sha256 K file))"

fun golden_loop :: "'r draws \<Rightarrow> nat \<Rightarrow> (f32 list \<Rightarrow> f32 list option) \<Rightarrow> nat \<Rightarrow> 'r \<Rightarrow> (f32 list \<times> f32 list) list option" where
  "golden_loop D n f 0 r = Some []"
| "golden_loop D n f (Suc k) r = do {
     let (x, r) = gaussian_vec D r n;
     y \<leftarrow> f x;
     rest \<leftarrow> golden_loop D n f k r;
     Some ((x, y) # rest)
   }"

definition mlp_golden_pairs ::
  "mlp_ops \<Rightarrow> crypto \<Rightarrow> 'r draws \<Rightarrow> bytes \<Rightarrow> u64 \<Rightarrow> nat \<Rightarrow> (bytes \<times> f32 list list \<times> f32 list list) option" where
  "mlp_golden_pairs T K D file seed n_pairs = do {
     (m, sha) \<leftarrow> mlp_load_artifact K file;
     gold \<leftarrow> golden_loop D D_IN (\<lambda>x. map_option concat (mlp_forward T m [x])) n_pairs (dr_seed D seed);
     Some (sha, map fst gold, map snd gold)
   }"

section \<open>The adapter\<close>

definition LORA_ALPHA :: f64 where "LORA_ALPHA = Fin False 1"

record lora_adapter =
  ad_a :: rows
  ad_b :: rows
  ad_rank :: nat
  ad_hidden :: nat
  ad_alpha :: f64

definition adapter_from_parts :: "f32 list \<Rightarrow> f32 list \<Rightarrow> nat \<Rightarrow> nat \<Rightarrow> lora_adapter option" where
  "adapter_from_parts a b rk hidden =
     (if length a = hidden * rk \<and> length b = rk * hidden then
        Some \<lparr> ad_a = reshape hidden rk a, ad_b = reshape rk hidden b, ad_rank = rk, ad_hidden = hidden, ad_alpha = LORA_ALPHA \<rparr>
      else None)"

definition adapter_new_seeded :: "'r draws \<Rightarrow> u64 \<Rightarrow> nat \<Rightarrow> nat \<Rightarrow> lora_adapter option" where
  "adapter_new_seeded D seed rk hidden =
     (if rk = 0 \<or> hidden = 0 then None
      else let bound = f_div f_one (dr_sqrtf D (f32_of (of_nat hidden)));
               (a, _) = uniform D (hidden * rk) bound (dr_seed D seed)
        in adapter_from_parts a (replicate (rk * hidden) f_zero) rk hidden)"

definition adapter_param_count :: "lora_adapter \<Rightarrow> nat" where
  "adapter_param_count l = 2 * ad_hidden l * ad_rank l"

definition adapter_scaling :: "lora_adapter \<Rightarrow> f64" where
  "adapter_scaling l = d_div (ad_alpha l) (f64_of (of_nat (ad_rank l)))"

definition adapter_delta :: "tensor_ops \<Rightarrow> lora_adapter \<Rightarrow> rows \<Rightarrow> rows option" where
  "adapter_delta T l xs = do {
     down \<leftarrow> tn_matmul T xs (ad_a l);
     up \<leftarrow> tn_matmul T down (ad_b l);
     Some (map (map (\<lambda>x. tn_cast T (tn_scale T (adapter_scaling l) x))) up)
   }"

definition adapter_apply :: "tensor_ops \<Rightarrow> lora_adapter \<Rightarrow> rows \<Rightarrow> rows option" where
  "adapter_apply T l xs = do { d \<leftarrow> adapter_delta T l xs; add_rows T xs d }"

definition adapter_to_flat :: "lora_adapter \<Rightarrow> f32 list" where
  "adapter_to_flat l = concat (ad_a l) @ concat (ad_b l)"

definition adapter_set_flat :: "lora_adapter \<Rightarrow> f32 list \<Rightarrow> lora_adapter option" where
  "adapter_set_flat l flat =
     (if length flat \<noteq> adapter_param_count l then None
      else Some (l\<lparr> ad_a := reshape (ad_hidden l) (ad_rank l) (take (ad_hidden l * ad_rank l) flat),
        ad_b := reshape (ad_rank l) (ad_hidden l) (drop (ad_hidden l * ad_rank l) flat) \<rparr>))"

definition adapter_save_artifact :: "crypto \<Rightarrow> lora_adapter \<Rightarrow> bytes \<times> bytes" where
  "adapter_save_artifact K l = (let file = artifact_bytes (adapter_to_flat l) in (file, hex_sha256 K file))"

definition adapter_golden_pairs ::
  "tensor_ops \<Rightarrow> crypto \<Rightarrow> 'r draws \<Rightarrow> bytes \<Rightarrow> nat \<Rightarrow> nat \<Rightarrow> u64 \<Rightarrow> nat \<Rightarrow> (bytes \<times> f32 list list \<times> f32 list list) option" where
  "adapter_golden_pairs T K D file hidden after_block seed n_pairs = do {
     l \<leftarrow> lora_load_artifact K file hidden after_block LORA_ALPHA;
     gold \<leftarrow> golden_loop D hidden (\<lambda>x. map_option concat (lora_delta T l [x])) n_pairs (dr_seed D seed);
     Some (la_content_hash l, map fst gold, map snd gold)
   }"

section \<open>Layer files\<close>

record file_entry =
  fe_bytes :: u64
  fe_dim :: nat
  fe_sha256 :: bytes
  fe_tokens :: u64

record token_index =
  ix_files :: "(bytes \<times> file_entry) list"
  ix_n_items :: nat
  ix_item_indices :: "nat list"
  ix_gen_len :: "nat list"
  ix_prompt_len :: "nat list"
  ix_token_offsets :: "u64 list"
  ix_total_tokens :: u64

record layer_map =
  ly_name :: bytes
  ly_dim :: nat
  ly_map :: bytes

definition layer_floats :: "layer_map \<Rightarrow> f32 list" where
  "layer_floats m = artifact_floats (ly_map m)"

definition checked_slice :: "nat \<Rightarrow> nat \<Rightarrow> 'a list \<Rightarrow> 'a list option" where
  "checked_slice a b xs = (if a \<le> b \<and> b \<le> length xs then Some (take (b - a) (drop a xs)) else None)"

definition layer_row :: "layer_map \<Rightarrow> nat \<Rightarrow> f32 list option" where
  "layer_row m t = checked_slice (t * ly_dim m) ((t + 1) * ly_dim m) (layer_floats m)"

definition layer_span :: "layer_map \<Rightarrow> nat \<Rightarrow> nat \<Rightarrow> f32 list option" where
  "layer_span m t0 n = checked_slice (t0 * ly_dim m) ((t0 + n) * ly_dim m) (layer_floats m)"

record paired_dataset =
  pd_index :: token_index
  pd_sender :: layer_map
  pd_receiver :: layer_map
  pd_index_sha256 :: bytes
  pd_verified :: "(bytes \<times> bytes) list"

record verified_file =
  vf_file :: bytes
  vf_sha256 :: bytes
  vf_expected :: bytes
  vf_bytes :: u64
  vf_pass :: bool

text \<open>A directory is a map from names to contents. Opening a data set reads a file more than once, each time by its path: to
  hash it, to ask for its length, to parse it (the index) and to map it, and each of these reads finds what is there then.\<close>

type_synonym directory = "bytes \<Rightarrow> bytes option"

datatype file_read = Hashing | Measuring | Parsing | MappingSender | MappingReceiver

type_synonym disk = "file_read \<Rightarrow> directory"

definition INDEX_FILE :: bytes where "INDEX_FILE = ascii ''run2-pertoken-index.json''"

definition index_consistent :: "token_index \<Rightarrow> bool" where
  "index_consistent ix \<longleftrightarrow> length (ix_token_offsets ix) = ix_n_items ix + 1 \<and> length (ix_gen_len ix) = ix_n_items ix \<and>
     length (ix_item_indices ix) = ix_n_items ix \<and> last (ix_token_offsets ix) = ix_total_tokens ix"

definition verify_file :: "crypto \<Rightarrow> disk \<Rightarrow> (bytes \<times> bytes) list \<Rightarrow> bytes \<times> file_entry \<Rightarrow> verified_file option" where
  "verify_file K disk expected ne = do {
     hashed \<leftarrow> disk Hashing (fst ne);
     expect \<leftarrow> map_of expected (fst ne);
     measured \<leftarrow> disk Measuring (fst ne);
     let sha = hex_sha256 K hashed;
     let n = (word_of_nat (length measured) :: u64);
     if sha = expect \<and> sha = fe_sha256 (snd ne) \<and> n = fe_bytes (snd ne) then
       Some \<lparr> vf_file = fst ne, vf_sha256 = sha, vf_expected = expect, vf_bytes = n, vf_pass = True \<rparr>
     else None
   }"

text \<open>The size is computed in 64 bits and wraps, as in a release build; a debug build panics there.\<close>

definition mmap_layer :: "directory \<Rightarrow> token_index \<Rightarrow> bytes \<Rightarrow> layer_map option" where
  "mmap_layer dir ix name = do {
     entry \<leftarrow> map_of (ix_files ix) name;
     file \<leftarrow> dir name;
     if (word_of_nat (length file) :: u64) = ix_total_tokens ix * word_of_nat (fe_dim entry) * 4 then
       Some \<lparr> ly_name = name, ly_dim = fe_dim entry, ly_map = file \<rparr>
     else None
   }"

definition open_verified ::
  "crypto \<Rightarrow> (bytes \<Rightarrow> token_index option) \<Rightarrow> disk \<Rightarrow> bytes \<Rightarrow> bytes \<Rightarrow> (bytes \<times> bytes) list \<Rightarrow>
    (paired_dataset \<times> verified_file list) option" where
  "open_verified K parse disk sender_file receiver_file expected = do {
     hashed \<leftarrow> disk Hashing INDEX_FILE;
     expect_index \<leftarrow> map_of expected INDEX_FILE;
     if hex_sha256 K hashed \<noteq> expect_index then None
     else do {
       index_bytes \<leftarrow> disk Parsing INDEX_FILE;
       ix \<leftarrow> parse index_bytes;
       if \<not> index_consistent ix then None
       else do {
         verified \<leftarrow> option_all (verify_file K disk expected) (ix_files ix);
         sender \<leftarrow> mmap_layer (disk MappingSender) ix sender_file;
         receiver \<leftarrow> mmap_layer (disk MappingReceiver) ix receiver_file;
         Some (\<lparr> pd_index = ix, pd_sender = sender, pd_receiver = receiver, pd_index_sha256 = hex_sha256 K hashed,
           pd_verified = map (\<lambda>v. (vf_file v, vf_sha256 v)) verified \<rparr>, verified)
       }
     }
   }"

definition token_indices_for_rows :: "paired_dataset \<Rightarrow> nat list \<Rightarrow> u32 list option" where
  "token_indices_for_rows d rs = map_option concat (option_all (\<lambda>r. do {
     start \<leftarrow> fetch (ix_token_offsets (pd_index d)) r;
     stop \<leftarrow> fetch (ix_token_offsets (pd_index d)) (r + 1);
     Some (map word_of_nat [unat (ucast start :: u32)..<unat (ucast stop :: u32)]) }) rs)"

section \<open>Artifacts load as they were saved\<close>

lemma artifact_roundtrip: "list_all is_f32 flat \<Longrightarrow> artifact_floats (artifact_bytes flat) = flat"
proof -
  assume f: "list_all is_f32 flat"
  have "list_all (\<lambda>c. length c = 4) (map f32_to_le_bytes flat)" by (simp add: list_all_iff f32_to_le_bytes_def)
  then have "artifact_floats (artifact_bytes flat) = map (\<lambda>x. f32_from_le_bytes (f32_to_le_bytes x)) flat"
    by (simp add: artifact_floats_def artifact_bytes_def chunks_exact_concat)
  also have "\<dots> = flat" using f by (auto simp: list_all_iff f32_bytes_roundtrip intro: map_idI)
  finally show ?thesis .
qed

lemma length_artifact: "length (artifact_bytes flat) = 4 * length flat"
  by (induction flat) (simp_all add: artifact_bytes_def f32_to_le_bytes_def)

definition adapter_ok :: "lora_adapter \<Rightarrow> bool" where
  "adapter_ok l \<longleftrightarrow> 0 < ad_rank l \<and> 0 < ad_hidden l \<and> shaped (ad_hidden l) (ad_rank l) (ad_a l) \<and>
     shaped (ad_rank l) (ad_hidden l) (ad_b l) \<and> list_all is_f32 (adapter_to_flat l)"

lemma reshape_shaped: "length flat = n * w \<Longrightarrow> shaped n w (reshape n w flat)"
proof -
  assume f: "length flat = n * w"
  have "length (take w (drop (i * w) flat)) = w" if "i < n" for i
  proof -
    have "Suc i * w \<le> n * w" using that by (intro mult_le_mono1) simp
    then show ?thesis using f by simp
  qed
  then show ?thesis by (auto simp: shaped_def reshape_def)
qed

lemma concat_reshape: "length flat = n * w \<Longrightarrow> concat (reshape n w flat) = flat"
proof (induction n arbitrary: flat)
  case (Suc n)
  have "reshape (Suc n) w flat = take w flat # reshape n w (drop w flat)"
    unfolding reshape_def upt_conv_Cons[OF zero_less_Suc] list.map map_Suc_upt[symmetric] by (simp add: comp_def add.commute)
  then show ?case using Suc.IH[of "drop w flat"] Suc.prems by simp
qed (simp add: reshape_def)

lemma uniform_ok: "list_all is_f32 (fst (uniform D n a r)) \<and> length (fst (uniform D n a r)) = n"
proof (induction n arbitrary: r)
  case (Suc n)
  obtain u r1 where u: "dr_f32 D r = (u, r1)" by fastforce
  obtain xs r2 where x: "uniform D n a r1 = (xs, r2)" by fastforce
  then show ?case using Suc.IH[of r1] by (simp add: u)
qed simp

text \<open>A fresh adapter is well formed, with zeros in its second factor; so is one that takes over a buffer of its length.\<close>

lemma new_adapter_ok:
  assumes "0 < rk" and "0 < hidden"
  shows "\<exists>l. adapter_new_seeded D seed rk hidden = Some l \<and> adapter_ok l \<and> set (concat (ad_b l)) = {f_zero} \<and>
    adapter_param_count l = length (adapter_to_flat l)"
proof -
  let ?bound = "f_div f_one (dr_sqrtf D (f32_of (of_nat hidden)))"
  obtain a r where a: "uniform D (hidden * rk) ?bound (dr_seed D seed) = (a, r)" by fastforce
  have f: "list_all is_f32 a" "length a = hidden * rk" using uniform_ok[of D "hidden * rk" ?bound "dr_seed D seed"] by (simp_all add: a)
  define l where "l = \<lparr> ad_a = reshape hidden rk a, ad_b = reshape rk hidden (replicate (rk * hidden) f_zero),
    ad_rank = rk, ad_hidden = hidden, ad_alpha = LORA_ALPHA \<rparr>"
  have "adapter_new_seeded D seed rk hidden = Some l"
    using assms f(2) by (simp add: adapter_new_seeded_def adapter_from_parts_def a l_def Let_def)
  moreover have b: "concat (ad_b l) = replicate (rk * hidden) f_zero" by (simp add: l_def concat_reshape)
  moreover have "is_f32 f_zero" using is_f32_ops(5)[of 0] by (simp add: fp_of_rat_def fp_round_def)
  then have "adapter_ok l" "adapter_param_count l = length (adapter_to_flat l)"
    using assms f reshape_shaped[of a hidden rk] reshape_shaped[of "replicate (rk * hidden) f_zero" rk hidden]
    by (simp_all add: adapter_ok_def adapter_to_flat_def adapter_param_count_def l_def concat_reshape list_all_iff)
  moreover have "set (concat (ad_b l)) = {f_zero}" unfolding b using assms by (simp add: set_replicate_conv_if)
  ultimately show ?thesis by blast
qed

text \<open>C37. The trainer and the runtime have the same adapter. What the trainer saves, the runtime loads as the same factors, rank and
  hash, it adds the same delta to every residual of its width, and its own flat form is the one that was saved.\<close>

theorem adapter_crosses_artifact:
  assumes "adapter_ok l"
  shows "let (file, sha) = adapter_save_artifact K l in
    \<exists>r. lora_load_artifact K file (ad_hidden l) after_block (ad_alpha l) = Some r \<and>
      la_a r = ad_a l \<and> la_b r = ad_b l \<and> la_rank r = ad_rank l \<and> la_content_hash r = sha \<and> lora_to_flat r = adapter_to_flat l \<and>
      (\<forall>xs. list_all (\<lambda>x. length x = ad_hidden l) xs \<longrightarrow>
        lora_delta T r xs = adapter_delta T l xs \<and> lora_apply T r xs = adapter_apply T l xs)"
proof -
  let ?flat = "adapter_to_flat l"
  have pos: "0 < ad_rank l" "0 < ad_hidden l" and a: "shaped (ad_hidden l) (ad_rank l) (ad_a l)"
    and b: "shaped (ad_rank l) (ad_hidden l) (ad_b l)" and f: "list_all is_f32 ?flat"
    using assms unfolding adapter_ok_def by blast+
  have la: "length (concat (ad_a l)) = ad_hidden l * ad_rank l" using length_concat_shaped[OF a] .
  have len: "length ?flat = ad_rank l * (2 * ad_hidden l)"
    using la length_concat_shaped[OF b] by (simp add: adapter_to_flat_def)
  then have ne: "?flat \<noteq> []" "length ?flat mod (2 * ad_hidden l) = 0" "length ?flat div (2 * ad_hidden l) = ad_rank l"
    using pos by auto
  define r where "r = \<lparr> la_a = ad_a l, la_b = ad_b l, la_rank = ad_rank l, la_hidden = ad_hidden l, la_after_block = after_block,
    la_alpha = ad_alpha l, la_content_hash = hex_sha256 K (artifact_bytes ?flat) \<rparr>"
  have "take (ad_hidden l * ad_rank l) ?flat = concat (ad_a l)" "drop (ad_hidden l * ad_rank l) ?flat = concat (ad_b l)"
    using la by (simp_all add: adapter_to_flat_def)
  then have "lora_load_artifact K (artifact_bytes ?flat) (ad_hidden l) after_block (ad_alpha l) = Some r"
    using pos ne artifact_roundtrip[OF f] reshape_concat[OF a] reshape_concat[OF b]
    by (simp add: lora_load_artifact_def lora_from_flat_def length_artifact artifact_floats_def[symmetric] Let_def r_def)
  moreover have "lora_delta T r xs = adapter_delta T l xs" if "list_all (\<lambda>x. length x = ad_hidden l) xs" for xs
    using that by (simp add: lora_delta_def adapter_delta_def r_def lora_scaling_def adapter_scaling_def)
  ultimately show ?thesis
    by (auto simp: adapter_save_artifact_def Let_def r_def lora_apply_def adapter_apply_def lora_to_flat_def adapter_to_flat_def)
qed

theorem adapter_crosses_artifact_witness:
  "\<exists>l r. adapter_new_seeded \<lparr> dr_seed = \<lambda>_. (), dr_f32 = \<lambda>r. (f_one, r), dr_open = \<lambda>r. (f_one, r), dr_f64 = \<lambda>r. (f_one, r),
        dr_ln = \<lambda>x. x, dr_sqrt = \<lambda>x. x, dr_cos = \<lambda>x. x, dr_sin = \<lambda>x. x, dr_sqrtf = \<lambda>x. x \<rparr> 7 1 2 = Some l \<and>
      lora_load_artifact demo_crypto (fst (adapter_save_artifact demo_crypto l)) (ad_hidden l) 14 (ad_alpha l) = Some r \<and>
      la_a r = ad_a l \<and> la_b r = ad_b l \<and> la_rank r = ad_rank l"
proof -
  define D where "D = \<lparr> dr_seed = \<lambda>_ :: u64. (), dr_f32 = \<lambda>r. (f_one, r), dr_open = \<lambda>r. (f_one, r), dr_f64 = \<lambda>r. (f_one, r),
        dr_ln = \<lambda>x. x, dr_sqrt = \<lambda>x. x, dr_cos = \<lambda>x. x, dr_sin = \<lambda>x. x, dr_sqrtf = \<lambda>x. x \<rparr>"
  obtain l where l: "adapter_new_seeded D 7 1 2 = Some l" "adapter_ok l" using new_adapter_ok[of 1 2 D 7] by auto
  show ?thesis using adapter_crosses_artifact[OF l(2), of demo_crypto 14 Runtime_Model.demo_ops] l(1) unfolding D_def[symmetric]
    by (auto simp: split_def Let_def)
qed

definition mlp_ok :: "mlp \<Rightarrow> bool" where
  "mlp_ok m \<longleftrightarrow> shaped D_IN D_HID (ml_w1 m) \<and> length (ml_b1 m) = D_HID \<and> shaped D_HID D_OUT (ml_w2 m) \<and>
     length (ml_b2 m) = D_OUT \<and> list_all is_f32 (mlp_to_flat m)"

lemma mlp_flat_length: "mlp_ok m \<Longrightarrow> length (mlp_to_flat m) = PARAM_COUNT"
  using length_concat_shaped[of D_IN D_HID "ml_w1 m"] length_concat_shaped[of D_HID D_OUT "ml_w2 m"]
  by (simp add: mlp_ok_def mlp_to_flat_def PARAM_COUNT_def)

lemma mlp_split_flat: "mlp_ok m \<Longrightarrow> mlp_split (mlp_to_flat m) = m"
proof -
  assume m: "mlp_ok m"
  then have s: "shaped D_IN D_HID (ml_w1 m)" "shaped D_HID D_OUT (ml_w2 m)" and b: "length (ml_b1 m) = D_HID"
    by (simp_all add: mlp_ok_def)
  note c = length_concat_shaped[OF s(1)] length_concat_shaped[OF s(2)]
  show ?thesis
    by (simp add: mlp_split_def mlp_to_flat_def mlp_from_parts_def Let_def c b reshape_concat[OF s(1)] reshape_concat[OF s(2)])
qed

lemma new_mlp_ok: "mlp_ok (mlp_new_seeded D seed)"
proof -
  let ?a1 = "f_div f_one (dr_sqrtf D (f32_of (of_nat D_IN)))" and ?a2 = "f_div f_one (dr_sqrtf D (f32_of (of_nat D_HID)))"
  obtain w1 r1 where w1: "uniform D (D_IN * D_HID) ?a1 (dr_seed D seed) = (w1, r1)" by fastforce
  obtain b1 r2 where b1: "uniform D D_HID ?a1 r1 = (b1, r2)" by fastforce
  obtain w2 r3 where w2: "uniform D (D_HID * D_OUT) ?a2 r2 = (w2, r3)" by fastforce
  obtain b2 r4 where b2: "uniform D D_OUT ?a2 r3 = (b2, r4)" by fastforce
  have ok: "list_all is_f32 w1" "length w1 = D_IN * D_HID" "list_all is_f32 b1" "length b1 = D_HID"
    "list_all is_f32 w2" "length w2 = D_HID * D_OUT" "list_all is_f32 b2" "length b2 = D_OUT"
    using uniform_ok[of D "D_IN * D_HID" ?a1 "dr_seed D seed"] uniform_ok[of D D_HID ?a1 r1]
      uniform_ok[of D "D_HID * D_OUT" ?a2 r2] uniform_ok[of D D_OUT ?a2 r3] by (simp_all add: w1 b1 w2 b2)
  have m: "mlp_new_seeded D seed = mlp_from_parts w1 b1 w2 b2"
    by (simp add: mlp_new_seeded_def Let_def w1 b1 w2 b2)
  show ?thesis unfolding m using ok reshape_shaped[OF ok(2)] reshape_shaped[OF ok(6)]
    by (simp add: mlp_ok_def mlp_from_parts_def mlp_to_flat_def concat_reshape)
qed

text \<open>A projector survives its file: the file has four bytes for each parameter, loading it gives back the projector and the
  hash that saving reported, and so does restoring from the flat form; a file of any other length is refused.\<close>

theorem projector_roundtrip:
  assumes "mlp_ok m"
  shows "let (file, sha) = mlp_save_artifact K m in
    length file = PARAM_COUNT * 4 \<and> mlp_param_count m = PARAM_COUNT \<and> mlp_load_artifact K file = Some (m, sha) \<and>
    mlp_set_flat (mlp_to_flat m) = Some m \<and> (\<forall>other. length other \<noteq> length file \<longrightarrow> mlp_load_artifact K other = None)"
proof -
  have f: "artifact_floats (artifact_bytes (mlp_to_flat m)) = mlp_to_flat m"
    using assms by (simp add: mlp_ok_def artifact_roundtrip)
  have n: "length (mlp_to_flat m) = PARAM_COUNT" using assms by (rule mlp_flat_length)
  moreover have "mlp_param_count m = length (mlp_to_flat m)" by (simp add: mlp_param_count_def mlp_to_flat_def)
  ultimately show ?thesis
    by (simp add: mlp_save_artifact_def mlp_load_artifact_def mlp_set_flat_def Let_def length_artifact f mlp_split_flat[OF assms])
qed

definition unit_draws :: "unit draws" where
  "unit_draws = \<lparr> dr_seed = \<lambda>_. (), dr_f32 = \<lambda>r. (f_one, r), dr_open = \<lambda>r. (f_one, r), dr_f64 = \<lambda>r. (f_one, r),
     dr_ln = \<lambda>x. x, dr_sqrt = \<lambda>x. x, dr_cos = \<lambda>x. x, dr_sin = \<lambda>x. x, dr_sqrtf = \<lambda>x. x \<rparr>"

theorem projector_roundtrip_witness:
  "mlp_load_artifact demo_crypto (fst (mlp_save_artifact demo_crypto (mlp_new_seeded unit_draws 7))) =
    Some (mlp_new_seeded unit_draws 7, snd (mlp_save_artifact demo_crypto (mlp_new_seeded unit_draws 7)))"
  using projector_roundtrip[OF new_mlp_ok, of demo_crypto unit_draws 7] by (simp add: split_def Let_def)

section \<open>Only verified rows are read\<close>

lemma option_all_in: "option_all f xs = Some ys \<Longrightarrow> x \<in> set xs \<Longrightarrow> \<exists>y\<in>set ys. f x = Some y"
  by (metis in_set_conv_nth option_all_nth)

lemma checked_slice_Some:
  "a \<le> b \<Longrightarrow> b \<le> length xs \<Longrightarrow> checked_slice a b xs = Some (take (b - a) (drop a xs))"
  by (simp add: checked_slice_def)

lemma chunks_exact_count: "length bs = k * n \<Longrightarrow> 0 < n \<Longrightarrow> length (chunks_exact n bs) = k"
proof (induction k arbitrary: bs)
  case (Suc k)
  have "chunks_exact n (take n bs @ drop n bs) = take n bs # chunks_exact n (drop n bs)"
    using Suc.prems by (intro chunks_exact_Cons) simp_all
  then show ?case using Suc.IH[of "drop n bs"] Suc.prems by simp
qed (simp add: chunks_exact_def)

lemma layer_floats_length:
  assumes "mmap_layer dir ix name = Some m" and "length (ly_map m) < 2 ^ 64"
    and "unat (ix_total_tokens ix) * ly_dim m * 4 < 2 ^ 64"
  shows "length (layer_floats m) = unat (ix_total_tokens ix) * ly_dim m"
proof -
  have "(word_of_nat (length (ly_map m)) :: u64) = word_of_nat (unat (ix_total_tokens ix) * ly_dim m * 4)"
    using assms(1) by (auto simp: mmap_layer_def bind_eq_Some_conv split: if_splits)
  moreover have small: "unat (word_of_nat a :: u64) = a" if "a < 2 ^ 64" for a
    using that by (simp add: unsigned_of_nat take_bit_nat_eq_self)
  ultimately have "length (ly_map m) = unat (ix_total_tokens ix) * ly_dim m * 4"
    using small[OF assms(2)] small[OF assms(3)] by simp
  then show ?thesis
    using chunks_exact_count[of "ly_map m" "unat (ix_total_tokens ix) * ly_dim m" 4]
    by (simp add: layer_floats_def artifact_floats_def)
qed

lemma layer_rows:
  assumes "length (layer_floats m) = tokens_n * ly_dim m" and "t < tokens_n"
  shows "\<exists>r. layer_row m t = Some r \<and> length r = ly_dim m \<and> r = take (ly_dim m) (drop (t * ly_dim m) (layer_floats m))"
proof -
  have "Suc t * ly_dim m \<le> tokens_n * ly_dim m" using assms(2) by (intro mult_le_mono1) simp
  then show ?thesis using assms(1) checked_slice_Some[of "t * ly_dim m" "(t + 1) * ly_dim m" "layer_floats m"]
    by (simp add: layer_row_def)
qed

lemma layer_spans:
  assumes "length (layer_floats m) = tokens_n * ly_dim m" and "t + n \<le> tokens_n"
  shows "\<exists>rs. option_all (layer_row m) [t..<t + n] = Some rs \<and> layer_span m t n = Some (concat rs)"
  using assms(2)
proof (induction n arbitrary: t)
  case 0
  then have "t * ly_dim m \<le> tokens_n * ly_dim m" by (intro mult_le_mono1) simp
  then show ?case using assms(1) by (simp add: layer_span_def checked_slice_def)
next
  case (Suc n)
  obtain rs where rs: "option_all (layer_row m) [Suc t..<Suc t + n] = Some rs" "layer_span m (Suc t) n = Some (concat rs)"
    using Suc.IH[of "Suc t"] Suc.prems by auto
  obtain r where r: "layer_row m t = Some r" "r = take (ly_dim m) (drop (t * ly_dim m) (layer_floats m))"
    using layer_rows[OF assms(1), of t] Suc.prems by auto
  have top: "(Suc t + n) * ly_dim m \<le> tokens_n * ly_dim m" using Suc.prems by (intro mult_le_mono1) simp
  then have "concat rs = take (n * ly_dim m) (drop (Suc t * ly_dim m) (layer_floats m))"
    using rs(2) assms(1) checked_slice_Some[of "Suc t * ly_dim m" "(Suc t + n) * ly_dim m" "layer_floats m"]
    by (simp add: layer_span_def algebra_simps)
  moreover have "take (Suc n * ly_dim m) (drop (t * ly_dim m) (layer_floats m)) =
      r @ take (n * ly_dim m) (drop (Suc t * ly_dim m) (layer_floats m))"
    using take_add[of "ly_dim m" "n * ly_dim m" "drop (t * ly_dim m) (layer_floats m)"] by (simp add: r(2) add.commute)
  moreover have "layer_span m t (Suc n) = Some (take (Suc n * ly_dim m) (drop (t * ly_dim m) (layer_floats m)))"
    using top assms(1) checked_slice_Some[of "t * ly_dim m" "(t + Suc n) * ly_dim m" "layer_floats m"]
    by (simp add: layer_span_def algebra_simps)
  moreover have "[t..<t + Suc n] = t # [Suc t..<Suc t + n]" by (simp add: upt_conv_Cons)
  ultimately show ?case using rs(1) r(1) by simp
qed

text \<open>A disk that shows the same files at every read, each of a length that fits 64 bits.\<close>

definition steady :: "disk \<Rightarrow> directory \<Rightarrow> bool" where
  "steady disk dir \<longleftrightarrow> (\<forall>r. disk r = dir) \<and> (\<forall>name bs. dir name = Some bs \<longrightarrow> length bs < 2 ^ 64)"

text \<open>C38. Training reads only what was pinned, when no file changes between the reads of the opening and the size of neither layer,
  tokens times width times four, exceeds 64 bits. When a data set opens, its index and every file that the index names have the
  hash that the receipt pins, and every token of the index has a row of the layer's width in both layers; a span of rows is these
  rows, one after the other.\<close>

theorem data_set_verified:
  assumes "open_verified K parse disk sender receiver expected = Some (d, verified)" and "steady disk dir"
    and "\<forall>m\<in>{pd_sender d, pd_receiver d}. unat (ix_total_tokens (pd_index d)) * ly_dim m * 4 < 2 ^ 64"
  shows "map_of expected INDEX_FILE = Some (pd_index_sha256 d) \<and>
    (\<exists>bs. dir INDEX_FILE = Some bs \<and> hex_sha256 K bs = pd_index_sha256 d \<and> parse bs = Some (pd_index d)) \<and>
    (\<forall>(name, entry)\<in>set (ix_files (pd_index d)). \<exists>bs. dir name = Some bs \<and> map_of expected name = Some (hex_sha256 K bs) \<and>
      fe_sha256 entry = hex_sha256 K bs) \<and>
    (\<forall>m\<in>{pd_sender d, pd_receiver d}. dir (ly_name m) = Some (ly_map m) \<and> ly_name m \<in> fst ` set (ix_files (pd_index d)) \<and>
      (\<forall>t<unat (ix_total_tokens (pd_index d)). \<exists>r. layer_row m t = Some r \<and> length r = ly_dim m) \<and>
      (\<forall>t n. t + n \<le> unat (ix_total_tokens (pd_index d)) \<longrightarrow>
        (\<exists>rs. option_all (layer_row m) [t..<t + n] = Some rs \<and> layer_span m t n = Some (concat rs))))"
proof -
  have disk: "disk r = dir" and short: "dir name = Some bs \<Longrightarrow> length bs < 2 ^ 64" for r name bs
    using assms(2) unfolding steady_def by blast+
  obtain bs ix where i: "dir INDEX_FILE = Some bs" "map_of expected INDEX_FILE = Some (hex_sha256 K bs)" "parse bs = Some ix"
      "option_all (verify_file K disk expected) (ix_files ix) = Some verified"
    and s: "mmap_layer dir ix sender = Some (pd_sender d)" and r: "mmap_layer dir ix receiver = Some (pd_receiver d)"
    and d: "pd_index d = ix" "pd_index_sha256 d = hex_sha256 K bs"
    using assms(1) by (auto simp: open_verified_def disk bind_eq_Some_conv split: if_split_asm)
  have "\<exists>bs. dir (fst ne) = Some bs \<and> map_of expected (fst ne) = Some (hex_sha256 K bs) \<and> fe_sha256 (snd ne) = hex_sha256 K bs"
    if "ne \<in> set (ix_files ix)" for ne
    using option_all_in[OF i(4) that] by (auto simp: verify_file_def disk bind_eq_Some_conv Let_def split: if_split_asm)
  moreover have "dir (ly_name m) = Some (ly_map m) \<and> ly_name m \<in> fst ` set (ix_files ix) \<and>
      (\<forall>t<unat (ix_total_tokens ix). \<exists>r. layer_row m t = Some r \<and> length r = ly_dim m) \<and>
      (\<forall>t n. t + n \<le> unat (ix_total_tokens ix) \<longrightarrow>
        (\<exists>rs. option_all (layer_row m) [t..<t + n] = Some rs \<and> layer_span m t n = Some (concat rs)))"
    if m: "mmap_layer dir ix name = Some m" "unat (ix_total_tokens ix) * ly_dim m * 4 < 2 ^ 64" for m name
  proof -
    have found: "dir (ly_name m) = Some (ly_map m)" "ly_name m \<in> fst ` set (ix_files ix)"
      using m(1) by (auto simp: mmap_layer_def bind_eq_Some_conv image_iff dest!: map_of_SomeD split: if_split_asm) force+
    note floats = layer_floats_length[OF m(1) short[OF found(1)] m(2)]
    show ?thesis using found layer_rows[OF floats] layer_spans[OF floats] by blast
  qed
  ultimately show ?thesis using i(1-3) s r assms(3) unfolding d by auto
qed

definition one_token_index :: token_index where
  "one_token_index = \<lparr> ix_files = [([1], \<lparr> fe_bytes = 4, fe_dim = 1, fe_sha256 = hex_sha256 demo_crypto [0, 0, 0, 0], fe_tokens = 1 \<rparr>)],
     ix_n_items = 1, ix_item_indices = [0], ix_gen_len = [1], ix_prompt_len = [1], ix_token_offsets = [0, 1], ix_total_tokens = 1 \<rparr>"

definition demo_disk :: disk where
  "demo_disk = (\<lambda>_ _. Some [0, 0, 0, 0])"

definition demo_pins :: "(bytes \<times> bytes) list" where
  "demo_pins = [(INDEX_FILE, hex_sha256 demo_crypto [0, 0, 0, 0]), ([1], hex_sha256 demo_crypto [0, 0, 0, 0])]"

theorem data_set_verified_witness:
  "\<exists>d vs. open_verified demo_crypto (\<lambda>_. Some one_token_index) demo_disk [1] [1] demo_pins = Some (d, vs) \<and>
    (\<exists>r. layer_row (pd_sender d) 0 = Some r \<and> length r = ly_dim (pd_sender d))"
proof -
  have "\<exists>d vs. open_verified demo_crypto (\<lambda>_. Some one_token_index) demo_disk [1] [1] demo_pins = Some (d, vs) \<and>
      ix_total_tokens (pd_index d) = 1 \<and> ly_dim (pd_sender d) = 1 \<and> ly_dim (pd_receiver d) = 1"
    by (simp add: open_verified_def one_token_index_def index_consistent_def verify_file_def mmap_layer_def Let_def
        demo_disk_def demo_pins_def)
  then obtain d vs where d: "open_verified demo_crypto (\<lambda>_. Some one_token_index) demo_disk [1] [1] demo_pins = Some (d, vs)"
    "ix_total_tokens (pd_index d) = 1" "ly_dim (pd_sender d) = 1" "ly_dim (pd_receiver d) = 1" by blast
  have "steady demo_disk (\<lambda>_. Some [0, 0, 0, 0])" by (simp add: steady_def demo_disk_def)
  from data_set_verified[OF d(1) this] show ?thesis using d by auto
qed

text \<open>What is mapped need not be what was hashed: when a file changes between the two reads, the data set opens all the same and
  the layer holds bytes that no pin covers.\<close>

definition changing_disk :: disk where
  "changing_disk r name = (if r = MappingSender then Some [0, 0, 128, 63] else demo_disk r name)"

theorem swapped_after_hashing:
  "\<exists>d vs. open_verified demo_crypto (\<lambda>_. Some one_token_index) changing_disk [1] [1] demo_pins = Some (d, vs) \<and>
    ly_map (pd_sender d) = [0, 0, 128, 63] \<and> hex_sha256 demo_crypto (ly_map (pd_sender d)) \<notin> snd ` set demo_pins"
proof -
  have "hex_bytes [0, 0, 128, 63] \<noteq> hex_bytes [0, 0, 0, 0]" by code_simp
  then show ?thesis
    by (simp add: open_verified_def one_token_index_def index_consistent_def verify_file_def mmap_layer_def Let_def
        changing_disk_def demo_disk_def demo_pins_def hex_sha256_def demo_crypto_def)
qed

text \<open>Without the bound on the size a file can be too short: with 2^62 + 1 tokens of width one the product wraps to four, a file of
  four bytes opens, and the second token has no row.\<close>

theorem wrapped_size_opens:
  "\<exists>m. mmap_layer (\<lambda>_. Some [0, 0, 0, 0]) (one_token_index\<lparr> ix_total_tokens := 2 ^ 62 + 1 \<rparr>) [1] = Some m \<and>
    1 < unat (2 ^ 62 + 1 :: u64) \<and> layer_row m 0 \<noteq> None \<and> layer_row m 1 = None"
proof -
  let ?m = "\<lparr> ly_name = [1], ly_dim = 1, ly_map = [0, 0, 0, 0] \<rparr>"
  have "mmap_layer (\<lambda>_. Some [0, 0, 0, 0]) (one_token_index\<lparr> ix_total_tokens := 2 ^ 62 + 1 \<rparr>) [1] = Some ?m"
    by (simp add: mmap_layer_def one_token_index_def)
  moreover have "length (layer_floats ?m) = 1"
    using chunks_exact_count[of "[0, 0, 0, 0 :: u8]" 1 4] by (simp add: layer_floats_def artifact_floats_def)
  ultimately show ?thesis by (simp add: layer_row_def checked_slice_def)
qed

end
