(* ===== verification/Spec2Isabelle.thy ===== *)
theory Spec2Isabelle
  imports Meshtastic_Adapter Air_Session Air_Channel Latent_Codec Reasoning_Codec Reasoning_Budget Reasoning_Context
    Reasoning_Routing Fed_Admission Latent_Memory Evolve Bbs_Bridge Bbs_Mcp Train_Artifact
begin

text \<open>
  A verification library of LatentMesh, a stack that carries the states of agents over radio links and decides which of them
  may act on what arrives. Every definition is translated from the Rust sources under \<open>src/crates\<close> (and, where said, from
  \<open>src/harness\<close>), function by function, in the order of the source. This theory imports all the others.

  \<^bold>\<open>The program and the theories\<close>

  A message travels down one stack and up the other. A sender turns a change of its critical state into a delta, wraps the delta in
  a signed envelope, cuts the envelope into frames, and hands the frames to a radio burst or to a Meshtastic device; the receiver
  deframes, checks, refuses replays, reassembles, verifies and only then changes its state. On the layer above,
  latent frames stream between agents under a gate that grants authority, and feed memory, reasoning, federation and the search
  for a communication topology.

  \<^item> Base. \<open>Prelude\<close> (words, results, byte order, slices, UTF-8; the locales \<open>wire_codec\<close> and \<open>machine\<close>), \<open>Vec_Ops\<close>,
    \<open>BTree\<close> (\<open>BTreeMap\<close> and \<open>BTreeSet\<close>), \<open>Sort_By\<close> (the stable sort), \<open>Floating\<close>, \<open>Float_Order\<close>, \<open>Float_Bits\<close> (binary32 and binary64 with
    rounding to even), \<open>Fixed_Point\<close>, \<open>Decimal\<close> (decimal texts and white space).
  \<^item> \<open>latentmesh-air-core\<close>: \<open>Crc32c\<close>, \<open>Air_Error\<close>, \<open>Wire\<close> (frames), \<open>Replay_Window\<close>, \<open>Fragment\<close> (fragmentation and the
    bounded reassembly table), \<open>Semantic\<close> (critical state, deltas), \<open>Envelope\<close>, \<open>Fec\<close> (convolutional code, Viterbi decoder,
    interleaver).
  \<^item> \<open>latentmesh-air-radio\<close>: \<open>Phy\<close> (bursts and the streaming deframer), \<open>Air_Modem\<close>, \<open>Air_Link\<close> (profiles and transmitter),
    \<open>Air_Assist\<close> (the online neural assist), \<open>Air_Channel\<close> (the simulators), \<open>Air_Receiver\<close>; \<open>Air_Session\<close> composes transmitter and
    receiver.
  \<^item> \<open>latentmesh-meshtastic\<close>: \<open>Protobuf\<close>, \<open>Framing\<close>, \<open>Meshtastic_Data\<close>, \<open>Meshtastic_Adapter\<close>.
  \<^item> \<open>latentmesh-core\<close>, \<open>-gate\<close>, \<open>-stream\<close>: \<open>Latent_Core\<close> (payload encodings, frames, the authority ladder), \<open>Latent_Gate\<close> (the causal test of an
    edge, policy, admission), \<open>Latent_Stream\<close> (sequence, escalation, receiver), \<open>Latent_Codec\<close> (length-prefixed codec, channel and the receive
    loop of the QUIC transport).
  \<^item> \<open>latentmesh-reasoning\<close>: \<open>Reasoning_Envelope\<close>, \<open>Reasoning_Codec\<close>, \<open>Reasoning_Budget\<close>, \<open>Reasoning_Context\<close>, \<open>Reasoning_Routing\<close>.
  \<^item> \<open>latentmesh-federation\<close>: \<open>Federation\<close> (rules, model, transport), \<open>Fed_Admission\<close>. \<open>latentmesh-memory\<close>: \<open>Latent_Memory\<close>.
  \<^item> \<open>latentmesh-evolve\<close>: \<open>Evolve_Topology\<close> (topology, mutations, constitution), \<open>Evolve\<close> (environment, fitness, the generational
    search, receipt); the search resumes from topologies kept in \<open>Latent_Memory\<close> and judges edges with \<open>Latent_Gate\<close>.
  \<^item> \<open>latentmesh-cognitum-client\<close>: \<open>Calendar\<close>, \<open>Cognitum\<close> (signing and HTTP). \<open>latentmesh-agentbbs-bridge\<close>: \<open>Bbs_Wire\<close>, \<open>Bbs_Bridge\<close>,
    \<open>Bbs_Mcp\<close>.
  \<^item> \<open>latentmesh-runtime\<close>: \<open>Runtime_Model\<close> (the residual stream of the decoder with its cache, edits, adapter, captures and
    injections), \<open>Runtime_Generate\<close> (norm statistics, sampler, generation). \<open>latentmesh-align\<close>: \<open>Align\<close>.
    \<open>latentmesh-train\<close> and the harness: \<open>Train_Split\<close> (leakage-safe splits, permutation null), \<open>Train_Items\<close> (task items),
    \<open>Train_Artifact\<close> (adapters, projectors and data files as bytes).

  \<^bold>\<open>State and operations\<close>

  A struct is a record and an enum a datatype with the constructors of the source; a method that changes \<open>self\<close> returns the new
  state beside its result; a \<open>Result\<close> is a sum with the error on the left; \<open>None\<close> where the source has no \<open>Option\<close> is a panic, and where
  a parameter can fail, its error. Integers that can wrap are words, \<open>usize\<close> counts are natural numbers with the checks and saturations of
  the code written out, arithmetic on them is taken to be checked where the result would be negative. Texts are their UTF-8 bytes.
  Floats keep signed zeros, infinities and NaN (one NaN, payloads are not represented) and are rounded at every operation.

  \<^bold>\<open>What the lemmas show\<close>

  \<^item> Codecs invert each other, and a decoder accepts nothing an encoder cannot produce, or the difference is stated: frames, envelopes,
    deltas, rules, reasoning envelopes (interpretations of \<open>wire_codec\<close>), payloads, length-prefixed frames, adapters.
  \<^item> State machines keep their invariants under every sequence of operations (interpretations of \<open>machine\<close>): transmitter, receiver,
    reassembler, deframers, window, noise generators, memory, task context, the stream of the Meshtastic adapter.
  \<^item> Contracts: the replay window refines a set of accepted numbers, the channel a queue, the Viterbi decoder finds a nearest code
    word, the blocking and the pushed reader agree, the calendar counts days as the leap-year rule does, a capture is a read of the plain pass.
  \<^item> End to end: a delta, a message, a rule or a bulletin sent by one side arrives as it was, is delivered at most once and only when its
    signature was vouched for.
  \<^item> Authority and privacy: the gate grants only what a significant causal test earned, evolved topologies keep the caps and the mandatory
    edges, a private rule never leaves, an admitted rule beat its controls.
  \<^item> Bounds and ends: buffers and histories stay within their configuration, the workspace stops, the search returns, generation stays
    within its budget, items within their cap.

  Recursions follow the structure of their data or come with a measure; the loops over the budget of an operation (iterations, generations,
  tokens to generate) recurse on that budget, so no fuel is chosen by the model.

  \<^bold>\<open>Parameters\<close>

  Code that is not in the repository is an argument: SHA-256, Ed25519 and BLAKE3; base64, hex and RFC 3339 texts; serde_json; the half
  crate; \<open>exp\<close>, \<open>sqrt\<close> and the other functions of libm; the generators, draws and shuffles of the crate rand; the agent of ureq; the
  tensors of candle and the matrices of nalgebra; the tokenizer. What is relied on is a named predicate (\<open>crypto_ok\<close>, \<open>sort_ok\<close>,
  \<open>shuffle_ok\<close>, \<open>indices_in_range\<close>, \<open>half_sized\<close>, \<open>align_ops_ok\<close>, \<open>text_ok\<close> and \<open>json_ok\<close> of the JSON texts, \<open>bbs_ok\<close>), with an
  instance in a witness; \<open>steady\<close> says that no file changes while a data set is opened. The JSON values of an alignment, whose
  numbers may be no JSON numbers, are written out (\<open>Align\<close>); other JSON stays a parameter.

  \<^bold>\<open>Not modelled\<close>

  The vendored attention and feed-forward network of Qwen (\<open>runtime/src/models/qwen2_a.rs\<close>, \<open>train/src/qwen2_c.rs\<close>) and everything whose
  content is candle's autodifferentiation: the trainers under \<open>train/src/bin\<close>, \<open>fastgrnn.rs\<close>, \<open>deploy.rs\<close> and \<open>m5receipt.rs\<close>; the probes and captures of
  \<open>runtime/examples\<close> and the calibrations of the harness, scripts that download models, run them on a GPU and write receipts, and hold
  most of the lines of the repository; the loading of models; the RuVector backend of the memory; the connection calls of QUIC; the system
  clock and the random keys; the benchmark and the command line of evolve; the C library and the firmware of the ESP32, the
  JavaScript and the Python, which are other languages; the texts of errors where they carry no data.
\<close>

end
